(* ===== verification/Prelude.thy ===== *)
theory Prelude
  imports "HOL-Library.Word" "HOL-Library.Monad_Syntax"
begin

text \<open>
  The types and the memory model every component shares.

  Machine integers are words of their C++ width, so every addition wraps and every
  subtraction that the code argues safe is a subtraction that would wrap if the argument
  were wrong. A buffer is the list of its elements. A read or a write outside the buffer is
  undefined behaviour in C++ and is the value \<open>None\<close> here: a model function returns
  \<open>Some\<close> only when every access it made was inside its buffer, so a theorem that a
  function returns \<open>Some\<close> is a memory-safety theorem. The predicate \<open>wp\<close> states
  that a computation is safe and that its result satisfies a postcondition.
\<close>

unbundle bit_operations_syntax

section \<open>Machine integers, status codes\<close>

type_synonym u8 = "8 word"
type_synonym u16 = "16 word"
type_synonym u32 = "32 word"
type_synonym u64 = "64 word"

datatype cudec_status =
    CUDEC_OK
  | CUDEC_ERR_INVALID_ARGUMENT
  | CUDEC_ERR_CORRUPT_INPUT
  | CUDEC_ERR_OUTPUT_TOO_SMALL
  | CUDEC_ERR_CUDA
  | CUDEC_ERR_NOT_IMPLEMENTED
  | CUDEC_ERR_UNSUPPORTED

section \<open>Buffers\<close>

definition rd :: "'a list \<Rightarrow> u64 \<Rightarrow> 'a option" where
  "rd xs i = (if unat i < length xs then Some (xs ! unat i) else None)"

definition wr :: "'a list \<Rightarrow> u64 \<Rightarrow> 'a \<Rightarrow> 'a list option" where
  "wr xs i v = (if unat i < length xs then Some (xs[unat i := v]) else None)"

text \<open>Where the code walks a pointer, the model walks the offset from the buffer's start.\<close>

definition at :: "'a list \<Rightarrow> nat \<Rightarrow> 'a option" where
  "at xs i = (if i < length xs then Some (xs ! i) else None)"

definition put :: "'a list \<Rightarrow> nat \<Rightarrow> 'a \<Rightarrow> 'a list option" where
  "put xs i v = (if i < length xs then Some (xs[i := v]) else None)"

lemma put_Some [simp]: "i < length xs \<Longrightarrow> put xs i v = Some (xs[i := v])"
  by (simp add: put_def)

lemma at_Some [simp]: "i < length xs \<Longrightarrow> at xs i = Some (xs ! i)"
  by (simp add: at_def)

section \<open>Safety and postconditions\<close>

named_theorems wp_rules \<open>weakest preconditions of the option monad\<close>

definition wp :: "'a option \<Rightarrow> ('a \<Rightarrow> bool) \<Rightarrow> bool" where
  "wp m Q = (case m of None \<Rightarrow> False | Some x \<Rightarrow> Q x)"

lemma wp_Some [wp_rules]: "wp (Some x) Q = Q x"
  by (simp add: wp_def)

lemma wp_None [wp_rules]: "wp None Q = False"
  by (simp add: wp_def)

lemma wp_bind [wp_rules]: "wp (m \<bind> f) Q = wp m (\<lambda>x. wp (f x) Q)"
  by (cases m) (simp_all add: wp_def)

lemma wp_if [wp_rules]: "wp (if b then m else n) Q = (if b then wp m Q else wp n Q)"
  by simp

lemma wp_let [wp_rules]: "wp (Let x f) Q = wp (f x) Q"
  by simp

lemma wp_split [wp_rules]: "wp (case p of (a, b) \<Rightarrow> f a b) Q = (case p of (a, b) \<Rightarrow> wp (f a b) Q)"
  by (cases p) simp

lemma wp_rd [wp_rules]: "wp (rd xs i) Q = (unat i < length xs \<and> Q (xs ! unat i))"
  by (simp add: rd_def wp_def)

lemma wp_wr [wp_rules]: "wp (wr xs i v) Q = (unat i < length xs \<and> Q (xs[unat i := v]))"
  by (simp add: wr_def wp_def)

lemma wp_at [wp_rules]: "wp (at xs i) Q = (i < length xs \<and> Q (xs ! i))"
  by (simp add: at_def wp_def)

lemma wp_put [wp_rules]: "wp (put xs i v) Q = (i < length xs \<and> Q (xs[i := v]))"
  by (simp add: put_def wp_def)

text \<open>
  The same rules as introduction rules: \<open>intro wp_intro\<close> walks the paths of a model
  function, one subgoal for each way to leave it, with the path's conditions as hypotheses.
\<close>

named_theorems wp_intro \<open>introduction rules, one subgoal for each path\<close>

lemma wp_SomeI [wp_intro]: "Q x \<Longrightarrow> wp (Some x) Q"
  by (simp add: wp_def)

lemma wp_ifI [wp_intro]: "(b \<Longrightarrow> wp m Q) \<Longrightarrow> (\<not> b \<Longrightarrow> wp n Q) \<Longrightarrow> wp (if b then m else n) Q"
  by simp

lemma wp_letI [wp_intro]: "wp (f x) Q \<Longrightarrow> wp (Let x f) Q"
  by simp

lemma wp_splitI [wp_intro]:
  "(\<And>a b. p = (a, b) \<Longrightarrow> wp (f a b) Q) \<Longrightarrow> wp (case p of (a, b) \<Rightarrow> f a b) Q"
  by (cases p) simp

lemma wp_rdI [wp_intro]:
  "unat i < length xs \<Longrightarrow> wp (f (xs ! unat i)) Q \<Longrightarrow> wp (rd xs i \<bind> f) Q"
  by (simp add: rd_def)

lemma wp_wrI [wp_intro]:
  "unat i < length xs \<Longrightarrow> wp (f (xs[unat i := v])) Q \<Longrightarrow> wp (wr xs i v \<bind> f) Q"
  by (simp add: wr_def)

lemma wp_atI [wp_intro]: "i < length xs \<Longrightarrow> wp (f (xs ! i)) Q \<Longrightarrow> wp (at xs i \<bind> f) Q"
  by (simp add: at_def)

lemma wp_putI [wp_intro]: "i < length xs \<Longrightarrow> wp (f (xs[i := v])) Q \<Longrightarrow> wp (put xs i v \<bind> f) Q"
  by (simp add: put_def)

lemma wp_bindI: "wp m P \<Longrightarrow> (\<And>x. P x \<Longrightarrow> wp (f x) Q) \<Longrightarrow> wp (m \<bind> f) Q"
  by (cases m) (simp_all add: wp_def)

lemma wp_bind2:
  "wp m (\<lambda>(a, b). P a b) \<Longrightarrow> (\<And>a b. P a b \<Longrightarrow> wp (f a b) Q) \<Longrightarrow> wp (m \<bind> (\<lambda>(a, b). f a b)) Q"
  by (erule wp_bindI) (auto split: prod.splits)

lemma wp_bind3:
  "wp m (\<lambda>(a, b, c). P a b c) \<Longrightarrow> (\<And>a b c. P a b c \<Longrightarrow> wp (f a b c) Q) \<Longrightarrow>
   wp (m \<bind> (\<lambda>(a, b, c). f a b c)) Q"
  by (erule wp_bindI) (auto split: prod.splits)

lemma wp_bind4:
  "wp m (\<lambda>(a, b, c, d). P a b c d) \<Longrightarrow> (\<And>a b c d. P a b c d \<Longrightarrow> wp (f a b c d) Q) \<Longrightarrow>
   wp (m \<bind> (\<lambda>(a, b, c, d). f a b c d)) Q"
  by (erule wp_bindI) (auto split: prod.splits)

text \<open>A step that fails with an error value, or goes on with its result.\<close>

lemma wp_bind_sum:
  "wp m (case_sum E P) \<Longrightarrow> (\<And>e. E e \<Longrightarrow> wp (f e) Q) \<Longrightarrow> (\<And>x. P x \<Longrightarrow> wp (g x) Q) \<Longrightarrow>
   wp (m \<bind> case_sum f g) Q"
  by (erule wp_bindI) (auto split: sum.splits)

lemma wp_InrD: "wp m (\<lambda>res. case res of Inl e \<Rightarrow> False | Inr x \<Rightarrow> P x) \<Longrightarrow> \<exists>x. m = Some (Inr x) \<and> P x"
  by (auto simp: wp_def split: option.splits sum.splits)

lemma wp_mono: "wp m P \<Longrightarrow> (\<And>x. P x \<Longrightarrow> Q x) \<Longrightarrow> wp m Q"
  by (auto simp: wp_def split: option.splits)

lemma wp_conj: "wp m P \<Longrightarrow> wp m Q \<Longrightarrow> wp m (\<lambda>x. P x \<and> Q x)"
  by (auto simp: wp_def split: option.splits)

lemma wp_iff: "wp m Q \<longleftrightarrow> (\<exists>x. m = Some x \<and> Q x)"
  by (auto simp: wp_def split: option.splits)

lemma wpE:
  assumes "wp m Q"
  obtains x where "m = Some x" "Q x"
  using assms by (auto simp: wp_iff)

lemma wpD: "wp m Q \<Longrightarrow> m = Some x \<Longrightarrow> Q x"
  by (simp add: wp_def)

section \<open>Words read as natural numbers\<close>

text \<open>
  The component proofs compare positions as natural numbers. \<open>w2n\<close> turns the order
  on words into the order on their values, and each arithmetic lemma states when an
  operation of the code does not wrap.
\<close>

lemmas w2n = word_less_nat_alt word_le_nat_alt

lemma unat_Suc_less: "unat (i::'a::len word) < unat (n::'a word) \<Longrightarrow> unat (i + 1) = Suc (unat i)"
  by unat_arith

lemma unat_less_exp: "unat (x::'a::len word) < 2 ^ LENGTH('a)"
  by (fact unsigned_less)

lemma unat_plus: "unat (a::'a::len word) + unat b < 2 ^ LENGTH('a) \<Longrightarrow> unat (a + b) = unat a + unat b"
  by (simp add: unat_add_lem)

lemma unat_plus_le:
  "unat (a::'a::len word) + unat b \<le> unat (c::'a word) \<Longrightarrow> unat (a + b) = unat a + unat b"
  using unat_less_exp[of c] by (intro unat_plus) linarith

lemma unat_minus: "unat (b::'a::len word) \<le> unat a \<Longrightarrow> unat (a - b) = unat a - unat b"
  by (simp add: unat_sub w2n)

lemma unat_of_nat_less: "n < 2 ^ LENGTH('a) \<Longrightarrow> unat (of_nat n :: 'a::len word) = n"
  by (simp only: unsigned_of_nat take_bit_nat_eq_self of_nat_id)

lemma unat_u64_less: "unat (x::u64) < 18446744073709551616"
  using unat_less_exp[of x] by simp

lemma unat_u32_less: "unat (x::u32) < 4294967296"
  using unat_less_exp[of x] by simp

lemma unat_u8_less: "unat (x::u8) < 256"
  using unat_less_exp[of x] by simp

lemma unat_max_u64: "unat (- 1 :: u64) = 2 ^ 64 - 1"
  by (simp add: unsigned_minus_1_eq_mask mask_eq_exp_minus_1)

lemma unat_ucast_le: "LENGTH('a) \<le> LENGTH('b) \<Longrightarrow> unat (ucast (x::'a::len word) :: 'b::len word) = unat x"
  by (simp add: unsigned_ucast_eq take_bit_nat_eq_self
      order_less_le_trans [OF unat_less_exp power_increasing])

lemma unat_ucast_u8_u64 [simp]: "unat (ucast (x::u8) :: u64) = unat x"
  by (rule unat_ucast_le) simp

lemma unat_ucast_u8_u32 [simp]: "unat (ucast (x::u8) :: u32) = unat x"
  by (rule unat_ucast_le) simp

lemma unat_ucast_u32_u64 [simp]: "unat (ucast (x::u32) :: u64) = unat x"
  by (rule unat_ucast_le) simp

text \<open>Assembling an integer from its bytes: a disjunction of disjoint fields is a sum.\<close>

lemma nat_and_push_bit_0: "(a::nat) < 2 ^ k \<Longrightarrow> a AND push_bit k b = 0"
proof -
  assume "a < 2 ^ k"
  then have a: "take_bit k a = a" by (rule take_bit_nat_eq_self)
  have "take_bit k a AND push_bit k b = 0"
    by (rule bit_eqI) (auto simp: bit_simps)
  then show ?thesis by (simp only: a)
qed

lemma nat_or_push_bit: "(a::nat) < 2 ^ k \<Longrightarrow> a OR push_bit k b = a + b * 2 ^ k"
  using nat_and_push_bit_0[of a k b] by (simp flip: disjunctive_add_eq_or add: push_bit_eq_mult)

lemma unat_or_push:
  assumes "unat (acc::'a::len word) < 2 ^ k" and "unat b * 2 ^ k + 2 ^ k \<le> 2 ^ LENGTH('a)"
  shows "unat (acc OR push_bit k b) = unat acc + unat (b :: 'a word) * 2 ^ k"
proof -
  have "unat b * 2 ^ k < 2 ^ LENGTH('a)" using assms(2) by (rule order_less_le_trans[rotated]) simp
  then have "unat (push_bit k b) = push_bit k (unat b)"
    by (simp only: unsigned_push_bit_eq) (simp add: take_bit_nat_eq_self push_bit_eq_mult)
  then show ?thesis
    using assms(1) by (simp add: unsigned_or_eq nat_or_push_bit)
qed

lemma unat_or_push_byte:
  assumes "unat (acc::'a::len word) < 2 ^ k" and "k + 8 \<le> LENGTH('a)"
  shows "unat (acc OR push_bit k (ucast (b::u8))) = unat acc + unat b * 2 ^ k"
proof -
  have u: "unat (ucast b :: 'a word) = unat b"
    using assms(2) by (intro unat_ucast_le) simp
  have "unat b * 2 ^ k + 2 ^ k = (unat b + 1) * 2 ^ k" by simp
  also have "\<dots> \<le> 2 ^ 8 * 2 ^ k"
    using unat_u8_less[of b] by (intro mult_right_mono) auto
  also have "\<dots> \<le> 2 ^ LENGTH('a)"
    using power_increasing[OF assms(2), of "2::nat"] by (simp only: power_add mult.commute)
  finally show ?thesis
    using unat_or_push[of acc k "ucast b"] assms(1) u by simp
qed

lemma unat_byte_pair:
  "16 \<le> LENGTH('a) \<Longrightarrow>
   unat (ucast (b0::u8) OR push_bit 8 (ucast (b1::u8)) :: 'a::len word) = unat b0 + unat b1 * 256"
  using unat_or_push_byte[of "ucast b0 :: 'a word" 8 b1] unat_u8_less[of b0]
  by (simp add: unat_ucast_le)

text \<open>Masks and shifts are remainders and quotients.\<close>

lemma unat_and_mask: "unat (x AND mask k :: 'a::len word) = unat x mod 2 ^ k"
  by (simp only: take_bit_eq_mask[symmetric] unsigned_take_bit_eq) (simp add: take_bit_eq_mod)

lemma unat_drop_bit: "unat (drop_bit k x :: 'a::len word) = unat x div 2 ^ k"
  using unat_less_exp[of x] by (simp only: unsigned_drop_bit_eq) (simp add: drop_bit_eq_div take_bit_nat_eq_self)

lemma and_not_mask_0: "(x :: 'a::len word) AND NOT (mask k) = 0 \<longleftrightarrow> unat x < 2 ^ k"
proof -
  have "x AND NOT (mask k) = 0 \<longleftrightarrow> x AND mask k = x"
    by (auto simp: bit_eq_iff bit_simps)
  also have "\<dots> \<longleftrightarrow> unat x mod 2 ^ k = unat x"
    by (metis unat_and_mask word_unat_eq_iff)
  finally show ?thesis by (metis mod_less mod_less_divisor zero_less_numeral zero_less_power)
qed

text \<open>The value of a little-endian byte string.\<close>

fun le_nat :: "u8 list \<Rightarrow> nat" where
  "le_nat [] = 0"
| "le_nat (b # bs) = unat b + 256 * le_nat bs"

lemma le_nat_less: "le_nat bs < 256 ^ length bs"
proof (induction bs)
  case (Cons b bs)
  then show ?case using unat_u8_less[of b] by simp
qed simp

fun le_bytes :: "nat \<Rightarrow> nat \<Rightarrow> u8 list" where
  "le_bytes 0 n = []"
| "le_bytes (Suc k) n = of_nat (n mod 256) # le_bytes k (n div 256)"

lemma length_le_bytes [simp]: "length (le_bytes k n) = k"
  by (induction k n rule: le_bytes.induct) auto

lemma le_nat_le_bytes: "n < 256 ^ k \<Longrightarrow> le_nat (le_bytes k n) = n"
proof (induction k n rule: le_bytes.induct)
  case (2 k n)
  have "unat (of_nat (n mod 256) :: u8) = n mod 256" by (rule unat_of_nat_less) simp
  moreover have "n div 256 < 256 ^ k" using 2(2) by (simp add: less_mult_imp_div_less mult.commute)
  ultimately show ?case using 2(1) by simp
qed simp

text \<open>The highest set bit, found by a loop over the bit positions.\<close>

lemma drop_bit_and_1: "drop_bit k (b :: 'a::len word) AND 1 = of_bool (bit b k)"
  by (simp add: bit_iff_odd_drop_bit and_one_eq mod2_eq_if)

lemma highest_fold:
  fixes v :: "'a::len word"
  defines "h n \<equiv> foldl (\<lambda>highest i. if drop_bit i v AND 1 \<noteq> 0 then i else highest) 0 [0..<n]"
  assumes "\<exists>i<n. bit v i"
  shows "h n < n \<and> bit v (h n) \<and> (\<forall>i. h n < i \<and> i < n \<longrightarrow> \<not> bit v i)"
  using assms(2)
proof (induction n)
  case (Suc n)
  have s: "h (Suc n) = (if bit v n then n else h n)" by (simp add: h_def drop_bit_and_1)
  show ?case
  proof (cases "bit v n")
    case False
    then have "\<exists>i<n. bit v i" using Suc.prems less_Suc_eq by auto
    from Suc.IH[OF this] show ?thesis using False s by (auto simp: less_Suc_eq)
  qed (auto simp: s)
qed simp

lemma top_bit_value:
  fixes v :: "'a::len word"
  assumes "bit v k" "\<And>i. k < i \<Longrightarrow> i < LENGTH('a) \<Longrightarrow> \<not> bit v i"
  shows "2 ^ k \<le> unat v" "unat v < 2 ^ Suc k"
proof -
  have "drop_bit (Suc k) v = 0"
  proof (rule bit_word_eqI)
    fix n assume "n < LENGTH('a)"
    have "\<not> bit v (Suc k + n)"
      using assms(2)[of "Suc k + n"] bit_imp_le_length[of v "Suc k + n"] by (cases "Suc k + n < LENGTH('a)") auto
    then show "bit (drop_bit (Suc k) v) n \<longleftrightarrow> bit (0 :: 'a word) n" by (simp add: bit_drop_bit_eq)
  qed
  then have "unat v div 2 ^ Suc k = 0" using unat_drop_bit[of "Suc k" v] by simp
  then show "unat v < 2 ^ Suc k" by (simp add: div_eq_0_iff)
  show "2 ^ k \<le> unat v"
  proof (rule ccontr)
    assume "\<not> 2 ^ k \<le> unat v"
    then have "unat (v AND mask k) = unat v" by (simp add: unat_and_mask)
    then have "v AND mask k = v" by (simp only: word_unat_eq_iff)
    then have "bit (v AND mask k) k" using assms(1) by simp
    then show False by (simp add: bit_simps)
  qed
qed

lemma unat_push_1: "k < 32 \<Longrightarrow> unat (push_bit k 1 :: u32) = 2 ^ k"
  using unat_of_nat_less[where 'a = 32, of "2 ^ k"] power_strict_increasing[of k 32 "2::nat"] by (simp add: push_bit_of_1)

text \<open>A rotation, as a product and a quotient.\<close>

lemma unat_rotate:
  fixes x :: "'a::len word"
  assumes r: "r \<le> LENGTH('a)"
  shows "unat (push_bit r x OR drop_bit (LENGTH('a) - r) x) = unat x * 2 ^ r mod 2 ^ LENGTH('a) + unat x div 2 ^ (LENGTH('a) - r)"
proof -
  let ?n = "LENGTH('a)"
  have "unat x < 2 ^ (?n - r) * 2 ^ r" using unat_less_exp[of x] r by (simp flip: power_add)
  then have hi: "unat x div 2 ^ (?n - r) < 2 ^ r" by (simp add: less_mult_imp_div_less mult.commute)
  have lo: "unat x * 2 ^ r mod 2 ^ ?n = push_bit r (unat x mod 2 ^ (?n - r))"
  proof -
    have "2 ^ ?n = 2 ^ (?n - r) * (2 :: nat) ^ r" using r by (simp flip: power_add)
    then show ?thesis by (simp add: push_bit_eq_mult mult_mod_left)
  qed
  have "unat (push_bit r x OR drop_bit (?n - r) x) = push_bit r (unat x mod 2 ^ (?n - r)) OR unat x div 2 ^ (?n - r)"
    unfolding unsigned_or_eq unat_drop_bit unsigned_push_bit_eq take_bit_eq_mod using lo by (simp add: push_bit_eq_mult)
  also have "\<dots> = unat x div 2 ^ (?n - r) + (unat x mod 2 ^ (?n - r)) * 2 ^ r"
    unfolding or.commute[of "push_bit r _"] by (rule nat_or_push_bit[OF hi])
  finally show ?thesis using lo by (simp add: push_bit_eq_mult)
qed

end
