(* ===== verification/Decode_Sequence.thy ===== *)
theory Decode_Sequence
  imports Prelude
begin

text \<open>
  The element every byte-oriented parser hands the chunk decoder
  (\<open>src/decode_sequence.h\<close>) and the members the chunk decoder relies on in a parser
  (\<open>src/chunk_decode.cuh\<close>): the source, its size, the capacity and the two cursors.
\<close>

record decode_sequence =
  literals_src :: u64
  literals_dst :: u64
  literals_len :: u64
  match_src :: u64
  match_dst :: u64
  match_len :: u64

record parser_core =
  src :: "u8 list"
  src_size :: u64
  dst_capacity :: u64
  src_pos :: u64
  dst_pos :: u64

text \<open>
  What a parser owes its caller. The cursors stay inside their buffers, and an element
  handed back reads only source bytes that exist, writes the next output bytes, and has a
  match offset of at least one and below \<open>2 ^ 32\<close>.
\<close>

definition core_ok :: "'a parser_core_scheme \<Rightarrow> bool" where
  "core_ok p \<longleftrightarrow> unat (src_size p) \<le> length (src p) \<and>
     unat (src_pos p) \<le> unat (src_size p) \<and> unat (dst_pos p) \<le> unat (dst_capacity p)"

definition core_adv :: "'a parser_core_scheme \<Rightarrow> 'a parser_core_scheme \<Rightarrow> bool" where
  "core_adv p p' \<longleftrightarrow> src p' = src p \<and> src_size p' = src_size p \<and>
     dst_capacity p' = dst_capacity p \<and> unat (src_pos p) \<le> unat (src_pos p')"

definition seq_ok :: "'a parser_core_scheme \<Rightarrow> decode_sequence \<Rightarrow> 'a parser_core_scheme \<Rightarrow> bool" where
  "seq_ok p q p' \<longleftrightarrow>
     unat (literals_src q) + unat (literals_len q) \<le> unat (src_size p) \<and>
     (literals_len q \<noteq> 0 \<longrightarrow> literals_dst q = dst_pos p) \<and>
     (match_len q \<noteq> 0 \<longrightarrow>
        unat (match_dst q) = unat (dst_pos p) + unat (literals_len q) \<and>
        unat (match_src q) < unat (match_dst q) \<and>
        unat (match_dst q) - unat (match_src q) < 2 ^ 32) \<and>
     unat (dst_pos p') = unat (dst_pos p) + unat (literals_len q) + unat (match_len q)"

lemma core_adv_refl [simp]: "core_adv p p"
  by (simp add: core_adv_def)

lemma core_adv_trans: "core_adv p q \<Longrightarrow> core_adv q r \<Longrightarrow> core_adv p r"
  by (simp add: core_adv_def)

text \<open>Under the invariant the differences the parsers compare against do not wrap.\<close>

lemma core_src_left:
  "core_ok p \<Longrightarrow> unat (src_size p - src_pos p) = unat (src_size p) - unat (src_pos p)"
  by (simp add: core_ok_def unat_minus)

lemma core_dst_left:
  "core_ok p \<Longrightarrow> unat (dst_capacity p - dst_pos p) = unat (dst_capacity p) - unat (dst_pos p)"
  by (simp add: core_ok_def unat_minus)

lemma core_src_plus:
  assumes "core_ok p" "unat n \<le> unat (src_size p) - unat (src_pos p)"
  shows "unat (src_pos p + n) = unat (src_pos p) + unat n"
  using assms unfolding core_ok_def by (intro unat_plus_le[where c = "src_size p"]) linarith

lemma core_dst_plus:
  assumes "core_ok p" "unat n \<le> unat (dst_capacity p) - unat (dst_pos p)"
  shows "unat (dst_pos p + n) = unat (dst_pos p) + unat n"
  using assms unfolding core_ok_def by (intro unat_plus_le[where c = "dst_capacity p"]) linarith

lemma core_dst_commit:
  assumes "core_ok p" "dst_pos p = d" "dst_capacity p = c" "\<not> unat (c - d) < unat n"
  shows "core_ok (p\<lparr>dst_pos := d + n\<rparr>)" and "unat (d + n) = unat d + unat n"
  using assms core_dst_plus[of p n] core_dst_left[of p] by (auto simp: core_ok_def)

lemma core_src_next:
  assumes "core_ok p" "\<not> src_pos p \<ge> src_size p"
  shows "core_ok (p\<lparr>src_pos := src_pos p + 1\<rparr>)" and "unat (src_pos p + 1) = Suc (unat (src_pos p))"
proof -
  have "unat (src_pos p) < unat (src_size p)" using assms(2) by (auto simp: w2n)
  then show "core_ok (p\<lparr>src_pos := src_pos p + 1\<rparr>)"
    and "unat (src_pos p + 1) = Suc (unat (src_pos p))"
    using assms(1) unat_Suc_less[of "src_pos p" "src_size p"] by (auto simp: core_ok_def)
qed

lemma seq_ok_from:
  "seq_ok p q p' \<Longrightarrow> dst_pos p = dst_pos r \<Longrightarrow> src_size p = src_size r \<Longrightarrow> seq_ok r q p'"
  by (auto simp: seq_ok_def)

lemma core_ok_rd: "core_ok p \<Longrightarrow> \<not> src_pos p \<ge> src_size p \<Longrightarrow> unat (src_pos p) < length (src p)"
  by (simp add: core_ok_def w2n)

text \<open>The parser stands in front of the bytes \<open>xs\<close>, which run to the end of the source.\<close>

definition at_src :: "'a parser_core_scheme \<Rightarrow> u8 list \<Rightarrow> bool" where
  "at_src p xs \<longleftrightarrow> core_ok p \<and> length (src p) = unat (src_size p) \<and> drop (unat (src_pos p)) (src p) = xs"

lemma at_src_left: "at_src p xs \<Longrightarrow> unat (src_size p - src_pos p) = length xs"
  by (auto simp: at_src_def core_ok_def unat_minus)

lemma at_src_end: "at_src p xs \<Longrightarrow> unat (src_pos p) + length xs = unat (src_size p)"
  by (auto simp: at_src_def core_ok_def)

lemma at_src_rd: "at_src p (b # xs) \<Longrightarrow> rd (src p) (src_pos p) = Some b"
  using at_src_end[of p "b # xs"] by (auto simp: at_src_def rd_def nth_via_drop)

lemma at_src_ge: "at_src p xs \<Longrightarrow> src_pos p \<ge> src_size p \<longleftrightarrow> xs = []"
  using at_src_end[of p xs] by (cases xs) (auto simp: w2n)

lemma at_src_advance:
  assumes "at_src p (ys @ xs)" "unat n = length ys"
  shows "at_src (p\<lparr>src_pos := src_pos p + n\<rparr>) xs" 
   and "unat (src_pos p + n) = unat (src_pos p) + unat n"
proof -
  have le: "unat (src_pos p) + unat n \<le> unat (src_size p)"
    using at_src_end[OF assms(1)] assms(2) by simp
  then show a: "unat (src_pos p + n) = unat (src_pos p) + unat n" by (rule unat_plus_le)
  have "drop (unat n) (drop (unat (src_pos p)) (src p)) = xs"
    using assms by (simp add: at_src_def)
  then show "at_src (p\<lparr>src_pos := src_pos p + n\<rparr>) xs"
    using a le assms(1) by (simp add: at_src_def core_ok_def add.commute)
qed

lemma at_src_next:
  assumes "at_src p (b # xs)"
  shows "at_src (p\<lparr>src_pos := src_pos p + 1\<rparr>) xs" "unat (src_pos p + 1) = unat (src_pos p) + 1"
  using at_src_advance[of p "[b]" xs 1] assms by simp_all

lemma at_src_margin:
  "at_src p xs \<Longrightarrow> unat (src_size p) + unat m < 2 ^ 64 \<Longrightarrow> src_pos p + m > src_size p \<longleftrightarrow> length xs < unat m"
  "at_src p xs \<Longrightarrow> unat (src_size p) + unat m < 2 ^ 64 \<Longrightarrow> src_pos p + m \<ge> src_size p \<longleftrightarrow> length xs \<le> unat m"
  using at_src_end[of p xs] unat_plus[of "src_pos p" m] by (auto simp: w2n)

lemma at_src_skip:
  assumes "at_src p (ys @ xs)"
  shows "at_src (p\<lparr>src_pos := src_pos p + of_nat (length ys)\<rparr>) xs"
proof (rule at_src_advance(1)[OF assms])
  have "length ys < 2 ^ LENGTH(64)"
    using at_src_end[OF assms] unat_u64_less[of "src_size p"] by simp
  then show "unat (of_nat (length ys) :: u64) = length ys" by (rule unat_of_nat_less)
qed

end
