(* ===== verification/Chunk_Decode.thy ===== *)
theory Chunk_Decode
  imports Decode_Sequence "HOL-Library.Multiset"
begin

text \<open>
  The wave-per-chunk decoder, \<open>src/chunk_decode.cuh\<close>: the element loop with its fuel
  and the two copy loops every lane of the wave strides through. The parser is a parameter,
  as it is in the code; the locale below is what the kernel is entitled to assume of it.
\<close>

section \<open>The lane loops\<close>

text \<open>
  The indices one lane visits, \<open>for (i = lane; i < len; i += WaveSize)\<close>. An
  interleaving of the lanes is any order of all their visits.
\<close>

function lane_loop :: "nat \<Rightarrow> nat \<Rightarrow> nat \<Rightarrow> nat list" where
  "lane_loop wave i len = (if wave = 0 \<or> i \<ge> len then [] else i # lane_loop wave (i + wave) len)"
  by pat_completeness auto
termination
  by (relation "measure (\<lambda>(wave, i, len). len - i)") auto

declare lane_loop.simps [simp del]

definition wave_schedule :: "nat \<Rightarrow> (nat \<Rightarrow> nat list) \<Rightarrow> bool" where
  "wave_schedule wave sched \<longleftrightarrow>
     (\<forall>n. mset (sched n) = (\<Sum>lane<wave. mset (lane_loop wave lane n)))"

definition lane_major :: "nat \<Rightarrow> nat \<Rightarrow> nat list" where
  "lane_major wave n = concat (map (\<lambda>lane. lane_loop wave lane n) [0..<wave])"

text \<open>One visit of the literal loop and one visit of the match loop.\<close>

definition copy_literal :: "u8 list \<Rightarrow> decode_sequence \<Rightarrow> nat \<Rightarrow> u8 list \<Rightarrow> u8 list option" where
  "copy_literal s q i d = do {
     b \<leftarrow> rd s (literals_src q + of_nat i);
     wr d (literals_dst q + of_nat i) b
   }"

definition gather_index :: "decode_sequence \<Rightarrow> u64 \<Rightarrow> u64" where
  "gather_index q i =
     (let offset = match_dst q - match_src q
      in if match_len q \<le> 0xFFFFFFFF
         then ucast ((ucast i :: u32) mod (ucast offset :: u32))
         else i mod offset)"

definition copy_match :: "decode_sequence \<Rightarrow> nat \<Rightarrow> u8 list \<Rightarrow> u8 list option" where
  "copy_match q i d = do {
     b \<leftarrow> rd d (match_src q + gather_index q (of_nat i));
     wr d (match_dst q + of_nat i) b
   }"

fun run_visits :: "(nat \<Rightarrow> 'd \<Rightarrow> 'd option) \<Rightarrow> nat list \<Rightarrow> 'd \<Rightarrow> 'd option" where
  "run_visits f [] d = Some d"
| "run_visits f (i # is) d = f i d \<bind> run_visits f is"

definition exec_sequence ::
    "(nat \<Rightarrow> nat list) \<Rightarrow> u8 list \<Rightarrow> decode_sequence \<Rightarrow> u8 list \<Rightarrow> u8 list option" where
  "exec_sequence sched s q d = do {
     d \<leftarrow> run_visits (copy_literal s q) (sched (unat (literals_len q))) d;
     if match_len q \<noteq> 0
     then run_visits (copy_match q) (sched (unat (match_len q))) d
     else Some d
   }"

section \<open>The element loop\<close>

function chunk_loop ::
    "('p \<Rightarrow> decode_sequence \<Rightarrow> (cudec_status \<times> bool \<times> decode_sequence \<times> 'p) option) \<Rightarrow>
     (nat \<Rightarrow> nat list) \<Rightarrow> u8 list \<Rightarrow> u64 \<Rightarrow> 'p \<Rightarrow> decode_sequence \<Rightarrow> u8 list \<Rightarrow>
     (cudec_status \<times> bool \<times> 'p \<times> u8 list) option" where
  "chunk_loop nxt sched s fuel p q d = do {
     (status, fin, q, p) \<leftarrow> nxt p q;
     if status \<noteq> CUDEC_OK then Some (status, fin, p, d)
     else do {
       d \<leftarrow> exec_sequence sched s q d;
       if fin \<or> fuel = 0 then Some (status, fin, p, d)
       else chunk_loop nxt sched s (fuel - 1) p q d
     }
   }"
  by pat_completeness auto
termination
  by (relation "measure (\<lambda>(_, _, _, fuel, _). unat fuel)") (auto simp: unat_minus_one unat_gt_0)

declare chunk_loop.simps [simp del]

text \<open>The per-chunk record the kernel writes, and the body of the kernel for one chunk.\<close>

record chunk_result =
  chunk_status :: cudec_status
  reserved :: u32
  bytes_written :: u64

definition empty_sequence :: decode_sequence where
  "empty_sequence = \<lparr>literals_src = 0, literals_dst = 0, literals_len = 0,
                     match_src = 0, match_dst = 0, match_len = 0\<rparr>"

definition chunk_fuel :: "u64 \<Rightarrow> u64" where
  "chunk_fuel n = (if n = - 1 then - 1 else n + 1)"

definition decode_chunk ::
    "('p \<Rightarrow> decode_sequence \<Rightarrow> (cudec_status \<times> bool \<times> decode_sequence \<times> 'p) option) \<Rightarrow>
     ('p \<Rightarrow> u64) \<Rightarrow> (nat \<Rightarrow> nat list) \<Rightarrow> u8 list \<Rightarrow> u64 \<Rightarrow> 'p \<Rightarrow> u8 list \<Rightarrow>
     (chunk_result \<times> u8 list) option" where
  "decode_chunk nxt out_pos sched s n p d = do {
     (st, fin, p, d) \<leftarrow> chunk_loop nxt sched s (chunk_fuel n) p empty_sequence d;
     let st = (if st = CUDEC_OK \<and> \<not> fin then CUDEC_ERR_CORRUPT_INPUT else st);
     Some (\<lparr>chunk_status = st, reserved = 0,
            bytes_written = (if st = CUDEC_OK then out_pos p else 0)\<rparr>, d)
   }"

section \<open>Any interleaving of the lanes\<close>

lemma lane_loop_set: "0 < wave \<Longrightarrow> set (lane_loop wave i n) = {j. i \<le> j \<and> j < n \<and> j mod wave = i mod wave}"
proof (induction wave i n rule: lane_loop.induct)
  case (1 wave i len)
  show ?case
  proof (cases "i \<ge> len")
    case True then show ?thesis by (subst lane_loop.simps) auto
  next
    case False
    have step: "i + wave \<le> j \<longleftrightarrow> i \<le> j \<and> i \<noteq> j" if e: "j mod wave = i mod wave" for j
    proof (cases "i \<le> j")
      case True
      then obtain k where "j = i + wave * k" by (rule mod_eq_nat1E[OF e])
      then show ?thesis using \<open>0 < wave\<close> by (cases k) auto
    qed simp
    have "set (lane_loop wave i len) = insert i {j. i + wave \<le> j \<and> j < len \<and> j mod wave = i mod wave}"
      using 1 False by (subst lane_loop.simps) simp
    also have "\<dots> = {j. i \<le> j \<and> j < len \<and> j mod wave = i mod wave}"
      using False step by auto
    finally show ?thesis .
  qed
qed

lemma lane_loop_distinct: "0 < wave \<Longrightarrow> distinct (lane_loop wave i n)"
proof (induction wave i n rule: lane_loop.induct)
  case (1 wave i len)
  then show ?case by (subst lane_loop.simps) (auto simp: lane_loop_set)
qed

lemma lanes_cover:
  assumes "0 < wave"
  shows "(\<Sum>lane<wave. mset (lane_loop wave lane n)) = mset [0..<n]"
proof (rule multiset_eqI)
  fix j
  have c: "count (mset (lane_loop wave lane n)) j = (if lane = j mod wave then (if j < n then 1 else 0) else 0)"
    if "lane < wave" for lane
  proof -
    have "j \<in> set (lane_loop wave lane n) \<longleftrightarrow> j < n \<and> lane = j mod wave"
      using that assms by (auto simp: lane_loop_set)
    then show ?thesis using lane_loop_distinct[OF assms, of lane n]
      by (auto simp: distinct_count_atmost_1)
  qed
  have "count (\<Sum>lane<wave. mset (lane_loop wave lane n)) j
      = (\<Sum>lane<wave. if lane = j mod wave then (if j < n then 1 else 0) else 0)"
    by (simp add: count_sum c)
  also have "\<dots> = (if j < n then 1 else 0)" using assms by simp
  also have "\<dots> = count (mset [0..<n]) j"
    by (simp add: distinct_count_atmost_1[THEN iffD1] )
  finally show "count (\<Sum>lane<wave. mset (lane_loop wave lane n)) j = count (mset [0..<n]) j" .
qed

definition permutes_all :: "(nat \<Rightarrow> nat list) \<Rightarrow> bool" where
  "permutes_all sched \<longleftrightarrow> (\<forall>n. set (sched n) = {..<n} \<and> distinct (sched n))"

lemma wave_schedule_permutes: "wave_schedule wave sched \<Longrightarrow> 0 < wave \<Longrightarrow> permutes_all sched"
  unfolding wave_schedule_def permutes_all_def
  by (metis lanes_cover atLeast_upt distinct_upt mset_eq_imp_distinct_iff mset_eq_setD)

lemma lane_major_schedule: "0 < wave \<Longrightarrow> wave_schedule wave (lane_major wave)"
  by (simp add: wave_schedule_def lane_major_def mset_concat comp_def sum_list_sum_nth atLeast0LessThan
      flip: sum.list_conv_set_nth)

text \<open>Visits that write distinct cells of one window commute.\<close>

lemma run_visits_window:
  assumes "distinct is" "set is \<subseteq> {..<n}" "m + n \<le> length d"
    and "\<And>i e. i \<in> set is \<Longrightarrow> length e = length d \<Longrightarrow> take m e = take m d \<Longrightarrow>
           f i e = Some (e[m + i := v i])"
  shows "run_visits f is d = Some (map (\<lambda>j. if m \<le> j \<and> j - m \<in> set is then v (j - m) else d ! j) [0..<length d])"
  using assms
proof (induction "is" arbitrary: d)
  case Nil
  then show ?case by (simp add: map_nth)
next
  case (Cons i "is")
  let ?d = "d[m + i := v i]"
  have "f i d = Some ?d" using Cons.prems by simp
  moreover have "run_visits f is ?d = Some (map (\<lambda>j. if m \<le> j \<and> j - m \<in> set is then v (j - m) else ?d ! j) [0..<length ?d])"
    using Cons.prems by (intro Cons.IH) auto
  moreover have "map (\<lambda>j. if m \<le> j \<and> j - m \<in> set is then v (j - m) else ?d ! j) [0..<length ?d] =
     map (\<lambda>j. if m \<le> j \<and> j - m \<in> set (i # is) then v (j - m) else d ! j) [0..<length d]"
    using Cons.prems by (auto simp: nth_list_update)
  ultimately show ?case by simp
qed

lemma run_visits_all:
  assumes "set is = {..<n}" "distinct is" "m + n \<le> length d"
    and "\<And>i e. i < n \<Longrightarrow> length e = length d \<Longrightarrow> take m e = take m d \<Longrightarrow>
           f i e = Some (e[m + i := v i])"
  shows "run_visits f is d = Some (take m d @ map v [0..<n] @ drop (m + n) d)"
proof -
  have "run_visits f is d = Some (map (\<lambda>j. if m \<le> j \<and> j - m \<in> set is then v (j - m) else d ! j) [0..<length d])"
    using assms by (intro run_visits_window) auto
  also have "map (\<lambda>j. if m \<le> j \<and> j - m \<in> set is then v (j - m) else d ! j) [0..<length d]
     = take m d @ map v [0..<n] @ drop (m + n) d"
    (is "?l = ?r")
  proof (rule nth_equalityI)
    show "length ?l = length ?r" using assms(3) by simp
    fix j assume "j < length ?l"
    then show "?l ! j = ?r ! j"
      using assms(1,3) by (auto simp: nth_append less_diff_conv2 not_less)
  qed
  finally show ?thesis .
qed

text \<open>The sequential meaning of an element: append the literals, then copy byte by byte.\<close>

fun lz_copy :: "nat \<Rightarrow> nat \<Rightarrow> 'a list \<Rightarrow> 'a list" where
  "lz_copy off 0 out = out"
| "lz_copy off (Suc n) out = (let r = lz_copy off n out in r @ [r ! (length r - off)])"

lemma lz_copy_closed:
  assumes "0 < off" "off \<le> length out"
  shows "lz_copy off n out = out @ map (\<lambda>i. out ! (length out - off + i mod off)) [0..<n]"
proof (induction n)
  case (Suc n)
  let ?g = "\<lambda>i. out ! (length out - off + i mod off)"
  have "(out @ map ?g [0..<n]) ! (length out + n - off) = ?g n"
  proof (cases "n < off")
    case True
    then have "length out + n - off < length out" using assms by simp
    then show ?thesis using assms True by (simp add: nth_append)
  next
    case False
    then have "length out + n - off = length out + (n - off)" using assms by simp
    moreover have "(n - off) mod off = n mod off" using False by (simp add: le_mod_geq)
    ultimately show ?thesis using False assms by (simp add: nth_append)
  qed
  then show ?case using Suc by (simp add: Let_def)
qed simp

definition element_bytes :: "u8 list \<Rightarrow> decode_sequence \<Rightarrow> u8 list \<Rightarrow> u8 list" where
  "element_bytes s q out =
     (let out = out @ take (unat (literals_len q)) (drop (unat (literals_src q)) s)
      in lz_copy (unat (match_dst q - match_src q)) (unat (match_len q)) out)"

lemma unat_of_nat_u64: "i < unat (n::u64) \<Longrightarrow> unat (of_nat i :: u64) = i"
  using unat_u64_less[of n] by (simp add: unsigned_of_nat take_bit_nat_eq_self)

lemma gather_index_mod:
  assumes "0 < unat (match_dst q - match_src q)" "unat (match_dst q - match_src q) < 2 ^ 32"
    and "i < unat (match_len q)"
  shows "unat (gather_index q (of_nat i)) = i mod unat (match_dst q - match_src q)"
proof (cases "match_len q \<le> 0xFFFFFFFF")
  case True
  then have "unat (match_len q) \<le> 0xFFFFFFFF" by (simp add: word_le_nat_alt)
  then show ?thesis using assms unat_of_nat_u64[OF assms(3)] True
    by (simp add: gather_index_def Let_def unat_mod unsigned_ucast_eq take_bit_nat_eq_self)
next
  case False
  then show ?thesis using assms unat_of_nat_u64[OF assms(3)]
    by (simp add: gather_index_def Let_def unat_mod)
qed

lemma length_lz_copy [simp]: "length (lz_copy off n out) = length out + n"
  by (induction n) (simp_all add: Let_def)

lemma length_element_bytes:
  assumes "unat (literals_src q) + unat (literals_len q) \<le> length s"
  shows "length (element_bytes s q out) = length out + unat (literals_len q) + unat (match_len q)"
  using assms by (simp add: element_bytes_def Let_def)

lemma exec_literals:
  assumes "permutes_all sched" "unat (literals_src q) + unat (literals_len q) \<le> length s"
    and "unat (literals_src q) + unat (literals_len q) < 2 ^ 64"
    and "literals_len q \<noteq> 0 \<longrightarrow> literals_dst q = m" "unat m + unat (literals_len q) \<le> length d"
    and "unat m + unat (literals_len q) < 2 ^ 64"
  shows "run_visits (copy_literal s q) (sched (unat (literals_len q))) d =
    Some (take (unat m) d @ take (unat (literals_len q)) (drop (unat (literals_src q)) s) @
          drop (unat m + unat (literals_len q)) d)"
proof -
  let ?n = "unat (literals_len q)" and ?v = "\<lambda>i. s ! (unat (literals_src q) + i)"
  have "run_visits (copy_literal s q) (sched ?n) d =
      Some (take (unat m) d @ map ?v [0..<?n] @ drop (unat m + ?n) d)"
  proof (rule run_visits_all)
    fix i and e :: "u8 list"
    assume i: "i < ?n" and e: "length e = length d"
    note oi = unat_of_nat_u64[OF i]
    have "unat (literals_src q + of_nat i) = unat (literals_src q) + i"
      and "unat (m + of_nat i) = unat m + i"
      using i assms oi by (auto simp: unat_plus)
    moreover have "literals_dst q = m" using i assms(4) by (auto simp: unat_gt_0[symmetric])
    ultimately show "copy_literal s q i e = Some (e[unat m + i := ?v i])"
      using i e assms by (simp add: copy_literal_def rd_def wr_def)
  qed (use assms in \<open>auto simp: permutes_all_def\<close>)
  also have "map ?v [0..<?n] = take ?n (drop (unat (literals_src q)) s)"
    using assms(2) by (intro nth_equalityI) auto
  finally show ?thesis .
qed

lemma exec_match:
  assumes "permutes_all sched" "unat (match_dst q) = m" "unat (match_src q) < m"
    and "m - unat (match_src q) < 2 ^ 32" "m + unat (match_len q) \<le> length d"
    and "m + unat (match_len q) < 2 ^ 64"
  shows "run_visits (copy_match q) (sched (unat (match_len q))) d =
    Some (lz_copy (unat (match_dst q - match_src q)) (unat (match_len q)) (take m d) @
          drop (m + unat (match_len q)) d)"
proof -
  let ?n = "unat (match_len q)" and ?off = "unat (match_dst q - match_src q)"
  have off: "?off = m - unat (match_src q)" using assms by (simp add: unat_minus)
  let ?v = "\<lambda>i. take m d ! (m - ?off + i mod ?off)"
  have "run_visits (copy_match q) (sched ?n) d = Some (take m d @ map ?v [0..<?n] @ drop (m + ?n) d)"
  proof (rule run_visits_all)
    fix i and e :: "u8 list"
    assume i: "i < ?n" and e: "length e = length d" "take m e = take m d"
    have "i mod ?off < ?off" using assms off by simp
    then have lt: "m - ?off + i mod ?off < m" using off assms by linarith
    have g: "unat (match_src q + gather_index q (of_nat i)) = m - ?off + i mod ?off"
      using gather_index_mod[OF _ _ i] off assms lt by (subst unat_plus) auto
    have w: "unat (match_dst q + of_nat i) = m + i"
      using i assms unat_of_nat_u64[OF i] by (auto simp: unat_plus)
    have "e ! (m - ?off + i mod ?off) = ?v i" using e lt by (metis nth_take)
    then show "copy_match q i e = Some (e[m + i := ?v i])"
      using g w i e assms lt by (simp add: copy_match_def rd_def wr_def)
  qed (use assms in \<open>auto simp: permutes_all_def\<close>)
  then show ?thesis using assms off by (simp add: lz_copy_closed)
qed

lemma exec_sequence_bytes:
  assumes sched: "permutes_all sched" and ok: "core_ok p" "core_ok p'" "core_adv p p'"
    and q: "seq_ok p q p'" and d: "unat (dst_capacity p) \<le> length d"
  shows "exec_sequence sched (src p) q d =
    Some (element_bytes (src p) q (take (unat (dst_pos p)) d) @ drop (unat (dst_pos p')) d)"
    and "length (element_bytes (src p) q (take (unat (dst_pos p)) d)) = unat (dst_pos p')"
proof -
  let ?o = "unat (dst_pos p)" and ?l = "unat (literals_len q)"
  let ?lits = "take ?l (drop (unat (literals_src q)) (src p))"
  have b: "unat (literals_src q) + ?l \<le> length (src p)" "unat (literals_src q) + ?l < 2 ^ 64"
    "?o + ?l + unat (match_len q) \<le> length d" "?o + ?l + unat (match_len q) < 2 ^ 64"
    using ok q d unat_u64_less[of "dst_pos p'"] unat_u64_less[of "src_size p"]
    by (auto simp: core_ok_def seq_ok_def core_adv_def)
  have lits: "run_visits (copy_literal (src p) q) (sched ?l) d = Some (take ?o d @ ?lits @ drop (?o + ?l) d)"
    using q b by (intro exec_literals[OF sched]) (auto simp: seq_ok_def)
  show "length (element_bytes (src p) q (take ?o d)) = unat (dst_pos p')"
    using b q by (simp add: length_element_bytes seq_ok_def)
  show "exec_sequence sched (src p) q d =
    Some (element_bytes (src p) q (take ?o d) @ drop (unat (dst_pos p')) d)"
  proof (cases "match_len q = 0")
    case True
    then show ?thesis using lits q
      by (simp add: exec_sequence_def element_bytes_def seq_ok_def)
  next
    case False
    then have "run_visits (copy_match q) (sched (unat (match_len q))) (take ?o d @ ?lits @ drop (?o + ?l) d) =
      Some (lz_copy (unat (match_dst q - match_src q)) (unat (match_len q)) (take (?o + ?l) (take ?o d @ ?lits @ drop (?o + ?l) d)) @
          drop (?o + ?l + unat (match_len q)) (take ?o d @ ?lits @ drop (?o + ?l) d))"
      using q b by (intro exec_match[OF sched]) (auto simp: seq_ok_def)
    then show ?thesis using lits q b False
      by (simp add: exec_sequence_def element_bytes_def seq_ok_def Let_def ac_simps)
  qed
qed

inductive decodes :: "('a parser_core_scheme \<Rightarrow> decode_sequence \<Rightarrow>
      (cudec_status \<times> bool \<times> decode_sequence \<times> 'a parser_core_scheme) option) \<Rightarrow>
    'a parser_core_scheme \<Rightarrow> decode_sequence \<Rightarrow> u8 list \<Rightarrow> u8 list \<Rightarrow> bool"
  for nxt where
  last: "nxt p q = Some (CUDEC_OK, True, q', p') \<Longrightarrow>
    decodes nxt p q out (element_bytes (src p) q' out)"
| step: "nxt p q = Some (CUDEC_OK, False, q', p') \<Longrightarrow>
    decodes nxt p' q' (element_bytes (src p) q' out) r \<Longrightarrow> decodes nxt p q out r"

inductive_simps decodes_simps: "decodes nxt p q out r"

lemma decodes_fun: "decodes nxt p q out r \<Longrightarrow> decodes nxt p q out r' \<Longrightarrow> r' = r"
proof (induction rule: decodes.induct)
  case (last p q q' p' out)
  then show ?case by (auto simp: decodes_simps[of nxt p])
next
  case (step p q q' p' out r)
  from step.prems step.hyps(1) have "decodes nxt p' q' (element_bytes (src p) q' out) r'"
    by (auto simp: decodes_simps[of nxt p])
  then show ?case by (rule step.IH)
qed

lemma chunk_fuel_enough: "unat n \<le> unat (chunk_fuel n)"
proof (cases "n = - 1")
  case False
  then have "unat n < unat (- 1 :: u64)"
    using word_order.extremum_unique[of n] by (simp add: word_less_nat_alt[symmetric] word_order.not_eq_extremum)
  from unat_Suc_less[OF this] False show ?thesis by (simp add: chunk_fuel_def)
qed (simp add: chunk_fuel_def)

locale chunk_parser =
  fixes nxt :: "'a parser_core_scheme \<Rightarrow> decode_sequence \<Rightarrow>
      (cudec_status \<times> bool \<times> decode_sequence \<times> 'a parser_core_scheme) option"
    and inv :: "'a parser_core_scheme \<Rightarrow> bool"
  assumes inv_core: "inv p \<Longrightarrow> core_ok p"
    and nxt_contract: "inv p \<Longrightarrow> wp (nxt p q) (\<lambda>(st, fin, q', p'). inv p' \<and> core_adv p p' \<and>
      (st = CUDEC_OK \<longrightarrow> seq_ok p q' p' \<and>
         (\<not> fin \<longrightarrow> unat (src_pos p) < unat (src_pos p'))))"
begin

lemma loop_contract:
  assumes "inv p" "permutes_all sched" "unat (dst_capacity p) \<le> length d"
    and "unat (src_size p) - unat (src_pos p) \<le> unat fuel"
  shows "wp (chunk_loop nxt sched (src p) fuel p q d) (\<lambda>(st, fin, p', d').
     inv p' \<and> core_adv p p' \<and> length d' = length d \<and>
     drop (unat (dst_capacity p)) d' = drop (unat (dst_capacity p)) d \<and>
     (st = CUDEC_OK \<longrightarrow> fin \<and>
        decodes nxt p q (take (unat (dst_pos p)) d) (take (unat (dst_pos p')) d')) \<and>
     (st \<noteq> CUDEC_OK \<longrightarrow> (\<nexists>r. decodes nxt p q (take (unat (dst_pos p)) d) r)))"
  using assms
proof (induction "unat fuel" arbitrary: fuel p q d rule: less_induct)
  case less
  obtain st fin q' p' where n: "nxt p q = Some (st, fin, q', p')"
    and i: "inv p'" "core_adv p p'"
    and c: "st = CUDEC_OK \<Longrightarrow> seq_ok p q' p'"
      "st = CUDEC_OK \<Longrightarrow> \<not> fin \<Longrightarrow> unat (src_pos p) < unat (src_pos p')"
    using nxt_contract[OF less.prems(1), of q] by (auto simp: wp_iff)
  show ?case
  proof (cases "st = CUDEC_OK")
    case False
    then show ?thesis using i n
      by (subst chunk_loop.simps) (auto simp: wp_rules decodes_simps[of _ p])
  next
    case True
    let ?o = "element_bytes (src p) q' (take (unat (dst_pos p)) d)"
    let ?d = "?o @ drop (unat (dst_pos p')) d"
    note e = exec_sequence_bytes[OF less.prems(2) inv_core[OF less.prems(1)] inv_core[OF i(1)]
        i(2) c(1)[OF True] less.prems(3)]
    have cap: "unat (dst_pos p') \<le> unat (dst_capacity p)"
      using inv_core[OF i(1)] i(2) by (auto simp: core_ok_def core_adv_def)
    have d: "length ?d = length d" "take (unat (dst_pos p')) ?d = ?o"
      "drop (unat (dst_capacity p)) ?d = drop (unat (dst_capacity p)) d"
      using e(2) cap less.prems(3) by auto
    show ?thesis
    proof (cases fin)
      case fin: True
      show ?thesis using True fin n i d e(1)
        by (subst chunk_loop.simps) (auto simp: wp_rules intro: decodes.last)
    next
      case go: False
      have s: "unat (src_pos p') \<le> unat (src_size p)"
        using inv_core[OF i(1)] i(2) by (auto simp: core_ok_def core_adv_def)
      then have f: "fuel \<noteq> 0" using c(2)[OF True go] less.prems(4) by auto
      then have uf: "unat (fuel - 1) = unat fuel - 1" "0 < unat fuel"
        by (simp_all add: unat_minus_one unat_gt_0)
      have "wp (chunk_loop nxt sched (src p') (fuel - 1) p' q' ?d) (\<lambda>(st, fin, p2, d').
         inv p2 \<and> core_adv p' p2 \<and> length d' = length ?d \<and>
         drop (unat (dst_capacity p')) d' = drop (unat (dst_capacity p')) ?d \<and>
         (st = CUDEC_OK \<longrightarrow> fin \<and>
            decodes nxt p' q' (take (unat (dst_pos p')) ?d) (take (unat (dst_pos p2)) d')) \<and>
         (st \<noteq> CUDEC_OK \<longrightarrow> (\<nexists>r. decodes nxt p' q' (take (unat (dst_pos p')) ?d) r)))"
        using uf less.prems(2,3,4) c(2)[OF True go] i s d(1)
        by (intro less.hyps) (auto simp: core_adv_def)
      moreover have "src p' = src p" "dst_capacity p' = dst_capacity p"
        using i(2) by (simp_all add: core_adv_def)
      ultimately show ?thesis using True go n f d e(1) i
        by (subst chunk_loop.simps)
          (auto simp: wp_rules decodes_simps[of _ p] elim!: wp_mono intro: core_adv_trans decodes.step)
    qed
  qed
qed

text \<open>The fuel is never what ends the loop: any two budgets that cover the input left give the same run.\<close>

lemma fuel_irrelevant:
  assumes "inv p" "unat (src_size p) - unat (src_pos p) \<le> unat f" "unat (src_size p) - unat (src_pos p) \<le> unat g"
  shows "chunk_loop nxt sched s f p q d = chunk_loop nxt sched s g p q d"
  using assms
proof (induction "unat f" arbitrary: f g p q d rule: less_induct)
  case less
  obtain st fin q' p' where n: "nxt p q = Some (st, fin, q', p')" and i: "inv p'" "core_adv p p'"
    and c: "st = CUDEC_OK \<Longrightarrow> \<not> fin \<Longrightarrow> unat (src_pos p) < unat (src_pos p')"
    using nxt_contract[OF less.prems(1), of q] by (auto simp: wp_iff)
  show ?case
  proof (cases "st = CUDEC_OK \<and> \<not> fin")
    case False
    then show ?thesis using n by (cases "st = CUDEC_OK") (subst (1 2) chunk_loop.simps, simp)+
  next
    case True
    have s: "unat (src_pos p') \<le> unat (src_size p)" "src_size p' = src_size p"
      using inv_core[OF i(1)] i(2) by (auto simp: core_ok_def core_adv_def)
    have adv: "unat (src_pos p) < unat (src_pos p')" using c True by simp
    then have nz: "f \<noteq> 0" "g \<noteq> 0" using less.prems(2,3) s(1) by auto
    then have m: "unat (f - 1) = unat f - 1" "unat (g - 1) = unat g - 1" "0 < unat f" by (simp_all add: unat_minus_one unat_gt_0)
    have "chunk_loop nxt sched s (f - 1) p' q' e = chunk_loop nxt sched s (g - 1) p' q' e" for e
      using less.prems(2,3) m adv i(1) s by (intro less.hyps) simp_all
    then have "chunk_loop nxt sched s (f - 1) p' q' = chunk_loop nxt sched s (g - 1) p' q'" by (rule ext)
    then show ?thesis using n nz True by (subst (1 2) chunk_loop.simps) simp
  qed
qed

lemma decode_chunk_contract:
  assumes "inv p" "permutes_all sched" "unat (dst_capacity p) \<le> length d"
    and "dst_pos p = 0" 
  shows "wp (decode_chunk nxt dst_pos sched (src p) (src_size p) p d) (\<lambda>(r, d').
     length d' = length d \<and>
     drop (unat (dst_capacity p)) d' = drop (unat (dst_capacity p)) d \<and>
     unat (bytes_written r) \<le> unat (dst_capacity p) \<and>
     (chunk_status r = CUDEC_OK \<longleftrightarrow> (\<exists>out. decodes nxt p empty_sequence [] out)) \<and>
     (chunk_status r = CUDEC_OK \<longrightarrow>
        decodes nxt p empty_sequence [] (take (unat (bytes_written r)) d')) \<and>
     (chunk_status r \<noteq> CUDEC_OK \<longrightarrow> bytes_written r = 0))"
proof -
  have "unat (src_size p) - unat (src_pos p) \<le> unat (chunk_fuel (src_size p))"
    using chunk_fuel_enough[of "src_size p"] by linarith
  from loop_contract[OF assms(1-3) this, of empty_sequence] show ?thesis
    unfolding decode_chunk_def using assms(4)
    by (auto simp: wp_rules Let_def core_adv_def core_ok_def dest!: inv_core elim!: wp_mono)
qed

text \<open>A stream with a sequential meaning decodes to it, whatever the schedule.\<close>

lemma decode_chunk_decodes:
  assumes p: "inv p" "permutes_all sched" "unat (dst_capacity p) \<le> length d" "dst_pos p = 0"
    and dec: "decodes nxt p empty_sequence [] out"
  shows "wp (decode_chunk nxt dst_pos sched (src p) (src_size p) p d) (\<lambda>(r, d').
     chunk_status r = CUDEC_OK \<and> unat (bytes_written r) = length out \<and> length d' = length d \<and>
     take (length out) d' = out \<and> drop (unat (dst_capacity p)) d' = drop (unat (dst_capacity p)) d)"
proof (rule wp_mono[OF decode_chunk_contract[OF p]], clarify)
  fix r d'
  assume l: "length d' = length d" "drop (unat (dst_capacity p)) d' = drop (unat (dst_capacity p)) d"
    "unat (bytes_written r) \<le> unat (dst_capacity p)"
    and ok: "chunk_status r = CUDEC_OK \<longleftrightarrow> (\<exists>out. decodes nxt p empty_sequence [] out)"
    and d: "chunk_status r = CUDEC_OK \<longrightarrow>
      decodes nxt p empty_sequence [] (take (unat (bytes_written r)) d')"
  from ok dec have st: "chunk_status r = CUDEC_OK" by blast
  with d dec have e: "take (unat (bytes_written r)) d' = out" using decodes_fun by blast
  then have "length (take (unat (bytes_written r)) d') = length out" by simp
  then have "unat (bytes_written r) = length out" using l p(3) by simp
  then show "chunk_status r = CUDEC_OK \<and> unat (bytes_written r) = length out \<and> length d' = length d \<and>
      take (length out) d' = out \<and> drop (unat (dst_capacity p)) d' = drop (unat (dst_capacity p)) d"
    using st e l by simp
qed

end

end
