(* ===== verification/Lz4_Block.thy ===== *)
theory Lz4_Block
  imports Chunk_Decode
begin

text \<open>The LZ4 block sequence parser and its validation ladder, \<open>src/lz4_block.h\<close>.\<close>

definition kLz4MinTrailingSlackDst :: u64 where "kLz4MinTrailingSlackDst = 12"
definition kLz4MinTrailingSlackSrc :: u64 where "kLz4MinTrailingSlackSrc = 8"
definition kLz4LastLiterals :: u64 where "kLz4LastLiterals = 5"
definition kLz4RunMask :: u64 where "kLz4RunMask = 15"
definition kLz4MinMatch :: u64 where "kLz4MinMatch = 4"
definition kLz4TokenLiteralShift :: nat where "kLz4TokenLiteralShift = 4"
definition kLz4LiteralReadMargin :: u64 where "kLz4LiteralReadMargin = kLz4RunMask"
definition kLz4MatchReadMargin :: u64 where "kLz4MatchReadMargin = kLz4LastLiterals - 1"

lemmas lz4_consts = kLz4MinTrailingSlackDst_def kLz4MinTrailingSlackSrc_def
  kLz4LastLiterals_def kLz4RunMask_def kLz4MinMatch_def kLz4TokenLiteralShift_def
  kLz4LiteralReadMargin_def kLz4MatchReadMargin_def

type_synonym lz4_parser = parser_core

definition lz4_parser_init :: "u8 list \<Rightarrow> u64 \<Rightarrow> u64 \<Rightarrow> lz4_parser" where
  "lz4_parser_init s n cap = \<lparr>src = s, src_size = n, dst_capacity = cap, src_pos = 0, dst_pos = 0\<rparr>"

text \<open>
  The \<open>do ... while (byte == 255)\<close> loop of \<open>AccumulateLength\<close>. The fuel is the
  code's own counter: the test \<open>fuel-- == 0\<close> comes first, so a loop entered with
  \<open>fuel = 0\<close> is a reject and every other entry spends one unit.
\<close>

function lz4_accumulate_loop ::
    "u64 \<Rightarrow> u64 \<Rightarrow> u64 \<Rightarrow> lz4_parser \<Rightarrow> (cudec_status \<times> u64 \<times> lz4_parser) option" where
  "lz4_accumulate_loop fuel read_margin len p =
     (if fuel = 0 then Some (CUDEC_ERR_CORRUPT_INPUT, len, p)
      else if src_pos p \<ge> src_size p then Some (CUDEC_ERR_CORRUPT_INPUT, len, p)
      else if len > dst_capacity p - dst_pos p then Some (CUDEC_ERR_OUTPUT_TOO_SMALL, len, p)
      else do {
        byte \<leftarrow> rd (src p) (src_pos p);
        let p = p\<lparr>src_pos := src_pos p + 1\<rparr>;
        let len = len + ucast byte;
        if src_pos p + read_margin > src_size p then Some (CUDEC_ERR_CORRUPT_INPUT, len, p)
        else if byte = 255 then lz4_accumulate_loop (fuel - 1) read_margin len p
        else Some (CUDEC_OK, len, p)
      })"
  by pat_completeness auto
termination
  by (relation "measure (\<lambda>(fuel, _). unat fuel)") (auto simp: unat_minus_one unat_gt_0)

declare lz4_accumulate_loop.simps [simp del]

definition lz4_accumulate_length ::
    "u64 \<Rightarrow> u64 \<Rightarrow> bool \<Rightarrow> lz4_parser \<Rightarrow> (cudec_status \<times> u64 \<times> lz4_parser) option" where
  "lz4_accumulate_length len read_margin initial_check p =
     (if initial_check \<and> src_pos p + read_margin \<ge> src_size p
      then Some (CUDEC_ERR_CORRUPT_INPUT, len, p)
      else lz4_accumulate_loop (src_size p - src_pos p + 1) read_margin len p)"

text \<open>A nibble of 15 is continued by the length bytes; both halves of a sequence read theirs so.\<close>

definition lz4_length_field ::
    "u64 \<Rightarrow> u64 \<Rightarrow> u64 \<Rightarrow> bool \<Rightarrow> lz4_parser \<Rightarrow> (cudec_status \<times> u64 \<times> lz4_parser) option" where
  "lz4_length_field nibble len read_margin initial_check p =
     (if nibble = kLz4RunMask then lz4_accumulate_length len read_margin initial_check p
      else Some (CUDEC_OK, len, p))"

section \<open>One sequence\<close>

text \<open>
  \<open>Next\<close>, from the terminal decision to the literals-only success exit. The
  result carries the status, the value of \<open>*done\<close>, the sequence as the call left it
  and the parser.
\<close>

definition lz4_terminal ::
    "u8 \<Rightarrow> u64 \<Rightarrow> lz4_parser \<Rightarrow> decode_sequence \<Rightarrow>
     (cudec_status \<times> bool \<times> decode_sequence \<times> lz4_parser) option" where
  "lz4_terminal token lit_len p seq =
     (if src_pos p + lit_len \<noteq> src_size p then Some (CUDEC_ERR_CORRUPT_INPUT, False, seq, p)
      else if dst_capacity p = 0 \<and> token \<noteq> 0 then Some (CUDEC_ERR_CORRUPT_INPUT, False, seq, p)
      else
        let seq = seq\<lparr>literals_src := src_pos p, literals_dst := dst_pos p,
                      literals_len := lit_len\<rparr>;
            p = p\<lparr>src_pos := src_pos p + lit_len, dst_pos := dst_pos p + lit_len\<rparr>
        in Some (CUDEC_OK, True,
                 seq\<lparr>match_src := 0, match_dst := dst_pos p, match_len := 0\<rparr>, p))"

text \<open>
  The match half of a non-terminal sequence: the offset is bounded, then the match length
  is read and bounded by the capacity and by the last-literals rule.
\<close>

definition lz4_match ::
    "u8 \<Rightarrow> u64 \<Rightarrow> lz4_parser \<Rightarrow> decode_sequence \<Rightarrow>
     (cudec_status \<times> bool \<times> decode_sequence \<times> lz4_parser) option" where
  "lz4_match token offset p seq =
     (if offset = 0 then Some (CUDEC_ERR_CORRUPT_INPUT, False, seq, p)
      else if offset > dst_pos p then Some (CUDEC_ERR_CORRUPT_INPUT, False, seq, p)
      else do {
        let nibble = ucast token AND kLz4RunMask;
         (status, mlen, p) \<leftarrow>
          lz4_length_field nibble (nibble + kLz4MinMatch) kLz4MatchReadMargin False p;
        if status \<noteq> CUDEC_OK then Some (status, False, seq, p)
        else if mlen > dst_capacity p - dst_pos p
        then Some (CUDEC_ERR_OUTPUT_TOO_SMALL, False, seq, p)
        else if mlen > dst_capacity p - dst_pos p - kLz4LastLiterals
        then Some (CUDEC_ERR_CORRUPT_INPUT, False, seq, p)
        else Some (CUDEC_OK, False,
               seq\<lparr>match_src := dst_pos p - offset, match_dst := dst_pos p, match_len := mlen\<rparr>,
               p\<lparr>dst_pos := dst_pos p + mlen\<rparr>)
      })"

text \<open>
  The non-terminal half of \<open>Next\<close>: the literals are recorded and stepped over, then
  the two-byte offset is read.
\<close>

definition lz4_nonterminal ::
    "u8 \<Rightarrow> u64 \<Rightarrow> lz4_parser \<Rightarrow> decode_sequence \<Rightarrow>
     (cudec_status \<times> bool \<times> decode_sequence \<times> lz4_parser) option" where
  "lz4_nonterminal token lit_len p seq = do {
     let seq = seq\<lparr>literals_src := src_pos p, literals_dst := dst_pos p,
                   literals_len := lit_len\<rparr>;
     let p = p\<lparr>src_pos := src_pos p + lit_len, dst_pos := dst_pos p + lit_len\<rparr>;
     b0 \<leftarrow> rd (src p) (src_pos p);
     b1 \<leftarrow> rd (src p) (src_pos p + 1);
     let offset = (ucast b0 OR push_bit 8 (ucast b1) :: u64);
     lz4_match token offset (p\<lparr>src_pos := src_pos p + 2\<rparr>) seq
   }"

definition lz4_next ::
    "lz4_parser \<Rightarrow> decode_sequence \<Rightarrow>
     (cudec_status \<times> bool \<times> decode_sequence \<times> lz4_parser) option" where
  "lz4_next p seq =
     (if src_pos p \<ge> src_size p then Some (CUDEC_ERR_CORRUPT_INPUT, False, seq, p)
      else do {
        token \<leftarrow> rd (src p) (src_pos p);
        let p = p\<lparr>src_pos := src_pos p + 1\<rparr>;
        let nibble = ucast (drop_bit kLz4TokenLiteralShift token);
        (status, lit_len, p) \<leftarrow> lz4_length_field nibble nibble kLz4LiteralReadMargin True p;
        if status \<noteq> CUDEC_OK then Some (status, False, seq, p)
        else if lit_len > src_size p - src_pos p
        then Some (CUDEC_ERR_CORRUPT_INPUT, False, seq, p)
        else if lit_len > dst_capacity p - dst_pos p
        then Some (CUDEC_ERR_OUTPUT_TOO_SMALL, False, seq, p)
        else do {
          let dst_slack = dst_capacity p - dst_pos p - lit_len;
          let src_slack = src_size p - src_pos p - lit_len;
          if dst_slack < kLz4MinTrailingSlackDst \<or> src_slack < kLz4MinTrailingSlackSrc
          then lz4_terminal token lit_len p seq
          else lz4_nonterminal token lit_len p seq
        }
      })"

section \<open>Memory safety and the element contract\<close>

lemma lz4_loop_safe:
  "core_ok p \<Longrightarrow> wp (lz4_accumulate_loop fuel m len p) (\<lambda>(st, len', p').
     core_ok p' \<and> core_adv p p' \<and> dst_pos p' = dst_pos p)"
proof (induction fuel m len p rule: lz4_accumulate_loop.induct)
  case (1 fuel m len p)
  let ?p = "p\<lparr>src_pos := src_pos p + 1\<rparr>" and ?b = "src p ! unat (src_pos p)"
  show ?case
  proof (cases "fuel = 0 \<or> src_pos p \<ge> src_size p \<or> len > dst_capacity p - dst_pos p")
    case True
    then show ?thesis using "1.prems"
      by (subst lz4_accumulate_loop.simps) (auto simp: wp_rules)
  next
    case False
    then have lt: "unat (src_pos p) < unat (src_size p)" by (auto simp: w2n)
    then have ok: "core_ok ?p" and rdok: "rd (src p) (src_pos p) = Some ?b" and
      adv: "core_adv p ?p"
      using "1.prems" unfolding core_ok_def core_adv_def by (auto simp: unat_Suc_less rd_def)
    show ?thesis using "1.IH"[of ?b ?p "len + ucast ?b"] False ok rdok adv
      by (subst lz4_accumulate_loop.simps)
        (auto simp: wp_rules Let_def elim!: wp_mono intro: core_adv_trans)
  qed
qed

lemma lz4_accumulate_safe:
  "core_ok p \<Longrightarrow> wp (lz4_length_field nibble len m ic p)
     (\<lambda>(st, len', p'). core_ok p' \<and> core_adv p p' \<and> dst_pos p' = dst_pos p)"
  unfolding lz4_length_field_def lz4_accumulate_length_def
  by (auto simp: wp_rules intro: lz4_loop_safe)

lemma lz4_terminal_contract:
  assumes "core_ok p"
    and "unat lit_len \<le> unat (src_size p) - unat (src_pos p)"
    and "unat lit_len \<le> unat (dst_capacity p) - unat (dst_pos p)"
  shows "wp (lz4_terminal token lit_len p seq) (\<lambda>(st, fin, q, p').
     core_ok p' \<and> core_adv p p' \<and> (fin \<longrightarrow> st = CUDEC_OK) \<and>
     (st = CUDEC_OK \<longrightarrow> seq_ok p q p' \<and> fin \<and> src_pos p' = src_size p'))"
  using assms core_src_plus[OF assms(1,2)] core_dst_plus[OF assms(1,3)]
  unfolding lz4_terminal_def
  by (auto simp: wp_rules Let_def seq_ok_def core_ok_def core_adv_def)

lemma lz4_match_contract:
  assumes ok: "core_ok p"
  shows "wp (lz4_match token offset p seq) (\<lambda>(st, fin, q, p').
     core_ok p' \<and> core_adv p p' \<and> \<not> fin \<and>
     (st = CUDEC_OK \<longrightarrow>
        literals_src q = literals_src seq \<and> literals_dst q = literals_dst seq \<and>
        literals_len q = literals_len seq \<and> match_dst q = dst_pos p \<and>
        unat (match_src q) = unat (dst_pos p) - unat offset \<and>
        0 < unat offset \<and> unat offset \<le> unat (dst_pos p) \<and>
        unat (dst_pos p') = unat (dst_pos p) + unat (match_len q)))"
  unfolding lz4_match_def using ok
  by (intro wp_intro wp_bindI[OF lz4_accumulate_safe[OF ok]])
    (auto simp: unat_minus w2n unat_gt_0 core_adv_def core_dst_commit)

lemma lz4_nonterminal_contract:
  assumes ok: "core_ok p"
    and l: "unat lit_len \<le> unat (src_size p) - unat (src_pos p)"
    and d: "unat lit_len \<le> unat (dst_capacity p) - unat (dst_pos p)"
    and "8 \<le> unat (src_size p) - unat (src_pos p) - unat lit_len"
  shows "wp (lz4_nonterminal token lit_len p seq) (\<lambda>(st, fin, q, p').
     core_ok p' \<and> core_adv p p' \<and> \<not> fin \<and> (st = CUDEC_OK \<longrightarrow> seq_ok p q p'))"
proof -
  note a = core_src_plus[OF ok l] and b = core_dst_plus[OF ok d]
  define p1 where "p1 = p\<lparr>dst_pos := dst_pos p + lit_len, src_pos := src_pos p + lit_len + 2\<rparr>"
  have c: "unat (src_pos p + lit_len + 1) = unat (src_pos p) + unat lit_len + 1"
   and e: "unat (src_pos p + lit_len + 2) = unat (src_pos p) + unat lit_len + 2"
   and rds: "unat (src_pos p) + unat lit_len + 2 < length (src p)"
   and le: "unat (src_pos p) + unat lit_len \<le> unat (src_size p)"
    using assms a unat_plus_le[of "src_pos p + lit_len" 1 "src_size p"]
      unat_plus_le[of "src_pos p + lit_len" 2 "src_size p"] unfolding core_ok_def by auto
  have ok1: "core_ok p1"
    using assms a b e unfolding core_ok_def p1_def by auto
  have off: "unat (ucast b0 OR push_bit 8 (ucast b1) :: u64) < 2 ^ 32" for b0 b1 :: u8
    using unat_u8_less[of b0] unat_u8_less[of b1] by (simp add: unat_byte_pair)
  have m: "wp (lz4_match token offset p1 (seq\<lparr>literals_src := src_pos p, literals_dst := dst_pos p, literals_len := lit_len\<rparr>)) (\<lambda>(st, fin, q, p').
     core_ok p' \<and> core_adv p p' \<and> \<not> fin \<and> (st = CUDEC_OK \<longrightarrow> seq_ok p q p'))" if "unat offset < 2 ^ 32" for offset
    using that a b e le by (intro wp_mono[OF lz4_match_contract[OF ok1]]) (auto simp: p1_def seq_ok_def core_adv_def)
  show ?thesis
    using rds a c m off unfolding lz4_nonterminal_def p1_def by (simp add: wp_rules)
qed

lemma lz4_tail_contract:
  assumes ok: "core_ok p" and s: "\<not> src_size p - src_pos p < lit_len"
    and d: "\<not> dst_capacity p - dst_pos p < lit_len"
  shows "wp (if c \<or> src_size p - src_pos p - lit_len < kLz4MinTrailingSlackSrc
             then lz4_terminal token lit_len p seq else lz4_nonterminal token lit_len p seq)
     (\<lambda>(st, fin, q, p'). core_ok p' \<and> core_adv p p' \<and>
       (fin \<longrightarrow> st = CUDEC_OK \<and> src_pos p' = src_size p') \<and> (st = CUDEC_OK \<longrightarrow> seq_ok p q p'))"
proof -
  have sl: "unat lit_len \<le> unat (src_size p) - unat (src_pos p)"
    and dl: "unat lit_len \<le> unat (dst_capacity p) - unat (dst_pos p)"
    using s d core_src_left[OF ok] core_dst_left[OF ok] by (auto simp: w2n not_less)
  then have slack: "8 \<le> unat (src_size p) - unat (src_pos p) - unat lit_len"
    if "\<not> src_size p - src_pos p - lit_len < kLz4MinTrailingSlackSrc"
    using that core_src_left[OF ok] by (auto simp: w2n lz4_consts unat_minus)
  show ?thesis
    by (intro wp_intro wp_mono[OF lz4_terminal_contract[OF ok sl dl]]
          wp_mono[OF lz4_nonterminal_contract[OF ok sl dl]]) (use slack in auto)
qed

lemma lz4_next_contract:
  assumes ok: "core_ok p"
  shows "wp (lz4_next p seq) (\<lambda>(st, fin, q, p'). core_ok p' \<and> core_adv p p' \<and>
     (fin \<longrightarrow> st = CUDEC_OK \<and> src_pos p' = src_size p') \<and>
     (st = CUDEC_OK \<longrightarrow> unat (src_pos p) < unat (src_pos p') \<and> seq_ok p q p'))"
  unfolding lz4_next_def
  by (intro wp_intro wp_bindI[OF lz4_accumulate_safe] wp_mono[OF lz4_tail_contract])
    (use ok core_ok_rd[OF ok] core_src_next[OF ok] in
      \<open>auto simp: core_adv_def elim: seq_ok_from\<close>)

interpretation lz4: chunk_parser lz4_next core_ok
proof
  fix p :: lz4_parser and q
  assume ok: "core_ok p"
  then show "core_ok p" .
  show "wp (lz4_next p q) (\<lambda>(st, fin, q', p'). core_ok p' \<and> core_adv p p' \<and>
      (st = CUDEC_OK \<longrightarrow> seq_ok p q' p' \<and> (\<not> fin \<longrightarrow> unat (src_pos p) < unat (src_pos p'))))"
    by (rule wp_mono[OF lz4_next_contract[OF ok]]) auto
qed

end
