(* ===== verification/Lz4_Roundtrip.thy ===== *)
theory Lz4_Roundtrip
  imports Lz4_Block
begin

text \<open>
  What an LZ4 block means: the format an encoder writes, and the decoder's answer on every
  block that keeps the format's end-of-block restrictions.
\<close>

definition lz4_ext :: "nat \<Rightarrow> u8 list" where
  "lz4_ext n = replicate (n div 255) 255 @ [of_nat (n mod 255)]"

lemma lz4_loop_ext:
  assumes "at_src p (replicate k 255 @ b # rest)" "b \<noteq> 255" "k < unat fuel"
    and "unat m \<le> length rest" "unat (src_size p) + unat m < 2 ^ 64"
    and "unat len + 255 * k \<le> unat (dst_capacity p - dst_pos p)"
    and "unat len + 255 * k + unat b < 2 ^ 64"
  shows "\<exists>len'. lz4_accumulate_loop fuel m len p =
      Some (CUDEC_OK, len', p\<lparr>src_pos := src_pos p + of_nat (Suc k)\<rparr>) \<and>
      unat len' = unat len + 255 * k + unat b"
  using assms
proof (induction k arbitrary: fuel len p)
  case 0
  let ?p = "p\<lparr>src_pos := src_pos p + 1\<rparr>"
  have n: "at_src ?p rest" "rd (src p) (src_pos p) = Some b" "\<not> src_pos p \<ge> src_size p"
    using 0(1) at_src_next at_src_rd at_src_ge[OF 0(1)] by auto
  have "\<not> src_pos ?p + m > src_size p" using at_src_margin(1)[OF n(1), of m] 0 by auto
  then show ?case using 0 n
    by (subst lz4_accumulate_loop.simps) (auto simp: w2n unat_plus Let_def unat_gt_0[symmetric] simp del: unat_gt_0)
next
  case (Suc k)
  let ?p = "p\<lparr>src_pos := src_pos p + 1\<rparr>"
  have at: "at_src p (255 # replicate k 255 @ b # rest)" using Suc.prems(1) by simp
  have n: "at_src ?p (replicate k 255 @ b # rest)" "rd (src p) (src_pos p) = Some 255" "\<not> src_pos p \<ge> src_size p"
    using at at_src_next at_src_rd at_src_ge[OF at] by auto
  have "\<not> src_pos ?p + m > src_size p" using at_src_margin(1)[OF n(1), of m] Suc.prems by auto
  moreover have f: "unat (fuel - 1) = unat fuel - 1" "fuel \<noteq> 0"
    using Suc.prems(3) unat_minus[of 1 fuel] by auto
  moreover have l: "unat (len + 255) = unat len + 255" using Suc.prems(7) by (simp add: unat_plus)
  moreover have "\<exists>len'. lz4_accumulate_loop (fuel - 1) m (len + 255) ?p =
      Some (CUDEC_OK, len', ?p\<lparr>src_pos := src_pos ?p + of_nat (Suc k)\<rparr>) \<and>
      unat len' = unat (len + 255) + 255 * k + unat b"
    using Suc.prems n f l by (intro Suc.IH) auto
  ultimately show ?case using n Suc.prems
    by (subst lz4_accumulate_loop.simps) (auto simp: w2n Let_def add.assoc)
qed


lemma lz4_accumulate_ext:
  assumes "at_src p (lz4_ext n @ rest)" "unat m \<le> length rest" "ic \<Longrightarrow> unat m < length rest + length (lz4_ext n)"
    and "unat (src_size p) + unat m < 2 ^ 64" "unat (src_size p) + 1 < 2 ^ 64"
    and "unat len + n \<le> unat (dst_capacity p - dst_pos p)"
  shows "\<exists>len'. lz4_accumulate_length len m ic p =
      Some (CUDEC_OK, len', p\<lparr>src_pos := src_pos p + of_nat (length (lz4_ext n))\<rparr>) \<and>
      unat len' = unat len + n"
proof -
  have e: "at_src p (replicate (n div 255) 255 @ of_nat (n mod 255) # rest)"
    using assms(1) by (simp add: lz4_ext_def)
  have m255: "n mod 255 < 255" by simp
  have b: "unat (of_nat (n mod 255) :: u8) = n mod 255"
    using m255 by (simp add: unsigned_of_nat take_bit_nat_eq_self)
  have ne: "(of_nat (n mod 255) :: u8) \<noteq> 255"
  proof
    assume "(of_nat (n mod 255) :: u8) = 255"
    then have "n mod 255 = unat (255 :: u8)" using b by simp
    then show False using m255 by simp
  qed
  have d: "255 * (n div 255) + n mod 255 = n" by simp
  have left: "unat (src_size p - src_pos p) = n div 255 + 1 + length rest"
    using at_src_left[OF e] by simp
  then have fuel: "n div 255 < unat (src_size p - src_pos p + 1)"
    using assms(5) at_src_end[OF e] by (subst unat_plus) auto
  have ic: "\<not> (ic \<and> src_pos p + m \<ge> src_size p)"
    using at_src_margin(2)[OF assms(1,4)] assms(3) by (auto simp: not_le)
  have "\<exists>len'. lz4_accumulate_loop (src_size p - src_pos p + 1) m len p =
      Some (CUDEC_OK, len', p\<lparr>src_pos := src_pos p + of_nat (Suc (n div 255))\<rparr>) \<and>
      unat len' = unat len + 255 * (n div 255) + unat (of_nat (n mod 255) :: u8)"
    using assms b d by (intro lz4_loop_ext[OF e ne fuel])
      (use unat_u64_less[of "dst_capacity p - dst_pos p"] in auto)
  then show ?thesis using ic b d
    by (auto simp: lz4_accumulate_length_def lz4_ext_def simp del: of_nat_Suc)
qed


definition lz4_len :: "nat \<Rightarrow> u8 list" where
  "lz4_len n = (if n < 15 then [] else lz4_ext (n - 15))"

definition lz4_token :: "nat \<Rightarrow> nat \<Rightarrow> u8" where
  "lz4_token a b = of_nat (16 * min 15 a + min 15 b)"

text \<open>A block as its encoder sees it: the sequences and the run of last literals.\<close>

type_synonym lz4_seq = "u8 list \<times> nat \<times> nat"

definition lz4_seq_bytes :: "lz4_seq \<Rightarrow> u8 list" where
  "lz4_seq_bytes = (\<lambda>(lits, off, mlen). lz4_token (length lits) (mlen - 4) # lz4_len (length lits) @ lits @
     [of_nat (off mod 256), of_nat (off div 256)] @ lz4_len (mlen - 4))"

fun lz4_encode :: "lz4_seq list \<Rightarrow> u8 list \<Rightarrow> u8 list" where
  "lz4_encode [] run = lz4_token (length run) 0 # lz4_len (length run) @ run"
| "lz4_encode (s # ss) run = lz4_seq_bytes s @ lz4_encode ss run"

fun lz4_expand :: "lz4_seq list \<Rightarrow> u8 list \<Rightarrow> u8 list \<Rightarrow> u8 list" where
  "lz4_expand [] run out = out @ run"
| "lz4_expand ((lits, off, mlen) # ss) run out = lz4_expand ss run (lz_copy off mlen (out @ lits))"

fun lz4_total :: "lz4_seq list \<Rightarrow> u8 list \<Rightarrow> nat" where
  "lz4_total [] run = length run"
| "lz4_total ((lits, off, mlen) # ss) run = length lits + mlen + lz4_total ss run"

text \<open>The format's rules: match length and offset, and the end-of-block restrictions.\<close>

fun lz4_valid :: "lz4_seq list \<Rightarrow> u8 list \<Rightarrow> nat \<Rightarrow> bool" where
  "lz4_valid [] run n \<longleftrightarrow> True"
| "lz4_valid ((lits, off, mlen) # ss) run n \<longleftrightarrow>
     4 \<le> mlen \<and> 0 < off \<and> off < 65536 \<and> off \<le> n + length lits \<and> 5 \<le> length run \<and>
     12 \<le> mlen + lz4_total ss run \<and> lz4_valid ss run (n + length lits + mlen)"

lemma lz4_total_run: "length run \<le> lz4_total ss run"
  by (induction ss) auto

lemma length_lz4_encode: "Suc (length run) \<le> length (lz4_encode ss run)"
  by (induction ss) auto

lemma unat_lz4_token: "unat (lz4_token a b) = 16 * min 15 a + min 15 b"
  unfolding lz4_token_def by (rule unat_of_nat_less) simp

lemma lz4_token_lit: "unat (ucast (drop_bit 4 (lz4_token a b)) :: u64) = min 15 a"
  by (simp add: unat_drop_bit unat_lz4_token)

lemma lz4_token_match: "unat (ucast (lz4_token a b) AND 15 :: u64) = min 15 b"
  using unat_and_mask[of "ucast (lz4_token a b) :: u64" 4]
  by (simp add: mask_eq_exp_minus_1 unat_lz4_token)

lemma lz4_length_phase:
  assumes at: "at_src p (lz4_len n @ rest)" and nib: "unat nib = min 15 n"
    and m: "15 \<le> n \<Longrightarrow> unat m \<le> length rest" "unat (src_size p) + unat m < 2 ^ 64" "unat (src_size p) + 1 < 2 ^ 64"
    and d: "n + unat base \<le> unat (dst_capacity p - dst_pos p)"
  shows "\<exists>l. lz4_length_field nib (nib + base) m ic p =
      Some (CUDEC_OK, l, p\<lparr>src_pos := src_pos p + of_nat (length (lz4_len n))\<rparr>) \<and>
      unat l = n + unat base"
proof -
  have nb: "unat (nib + base) = min 15 n + unat base"
    using nib d by (subst unat_plus_le[where c = "dst_capacity p - dst_pos p"]) auto
  have is15: "nib = 15 \<longleftrightarrow> 15 \<le> n" using nib by (auto simp: word_unat_eq_iff min_def)
  show ?thesis
  proof (cases "15 \<le> n")
    case True
    then show ?thesis
      using lz4_accumulate_ext[of p "n - 15" rest m ic "nib + base"] is15 nb assms
      by (auto simp: lz4_length_field_def lz4_consts lz4_len_def not_less lz4_ext_def)
  next
    case False
    then show ?thesis using is15 nb by (simp add: lz4_length_field_def lz4_consts lz4_len_def)
  qed
qed


lemmas lz4_length_phase0 = lz4_length_phase[where base = 0, simplified add_0_right unat_0]

lemma lz4_next_terminal:
  assumes at: "at_src p (lz4_encode [] run)" and sz: "unat (src_size p) + 16 < 2 ^ 64"
    and d: "length run \<le> unat (dst_capacity p) - unat (dst_pos p)"
  shows "\<exists>q' p'. lz4_next p q = Some (CUDEC_OK, True, q', p') \<and>
      dst_pos p' = dst_pos p + of_nat (length run) \<and>
      element_bytes (src p) q' out = out @ run"
proof -
  let ?tok = "lz4_token (length run) 0" and ?n = "length run"
  let ?p = "p\<lparr>src_pos := src_pos p + 1\<rparr>"
  let ?nib = "ucast (drop_bit 4 ?tok) :: u64"
  have at1: "at_src ?p (lz4_len ?n @ run)" using at_src_next(1)[of p ?tok] at by simp
  have tok: "rd (src p) (src_pos p) = Some ?tok" "\<not> src_pos p \<ge> src_size p"
    using at at_src_rd at_src_ge[OF at] by auto
  let ?p2 = "?p\<lparr>src_pos := src_pos ?p + of_nat (length (lz4_len ?n))\<rparr>"
  have core: "core_ok p" using at by (simp add: at_src_def)
  obtain l where l: "lz4_length_field ?nib ?nib 15 True ?p =
      Some (CUDEC_OK, l, ?p2)" "unat l = ?n"
    using lz4_length_phase0[OF at1, of ?nib 15 True] sz d lz4_token_lit[of ?n 0] core_dst_left[OF core]
    by auto
  have n64: "?n < 2 ^ 64" using d unat_u64_less[of "dst_capacity p"] by simp
  then have nl: "of_nat ?n = l" using l(2) by (simp add: word_unat_eq_iff unat_of_nat_less)
  have at2: "at_src ?p2 run" by (rule at_src_skip[OF at1])
  have left: "unat (src_size p - src_pos ?p2) = ?n" using at_src_left[OF at2] by simp
  have fits: "\<not> l > src_size p - src_pos ?p2" "\<not> l > dst_capacity p - dst_pos p"
    using left l(2) d core_dst_left[OF core] by (auto simp: w2n)
  have pos: "unat (src_pos ?p2 + l) = unat (src_size p)"
    using at_src_end[OF at2] l(2) by (subst unat_plus) (auto simp: unat_u64_less)
  have slack: "src_size p - src_pos ?p2 = l" using left l(2) by (simp add: word_unat_eq_iff)
  have pos': "src_pos ?p2 + l = src_size p" using pos by (simp only: word_unat_eq_iff)
  have tok0: "dst_capacity p = 0 \<Longrightarrow> ?tok = 0"
    using d by (auto simp: word_unat_eq_iff unat_lz4_token)
  let ?seq = "q\<lparr>literals_src := src_pos ?p2, literals_dst := dst_pos p, literals_len := l,
       match_src := 0, match_dst := dst_pos p + l, match_len := 0\<rparr>"
  have "lz4_terminal ?tok l ?p2 q = Some (CUDEC_OK, True, ?seq, ?p2\<lparr>src_pos := src_pos ?p2 + l, dst_pos := dst_pos p + l\<rparr>)"
    using pos' tok0 by (auto simp: lz4_terminal_def Let_def)
  then have "lz4_next p q = Some (CUDEC_OK, True, ?seq, ?p2\<lparr>src_pos := src_pos ?p2 + l, dst_pos := dst_pos p + l\<rparr>)"
    using tok l(1) fits slack by (simp add: lz4_next_def lz4_consts Let_def)
  moreover have "element_bytes (src p) ?seq out = out @ run"
    using at2 l(2) by (simp add: element_bytes_def at_src_def)
  ultimately show ?thesis using nl by auto
qed


lemma lz4_match_step:
  assumes at: "at_src p (lz4_len (mlen - 4) @ rest)" and sz: "unat (src_size p) + 16 < 2 ^ 64"
    and off: "0 < unat offset" "unat offset \<le> unat (dst_pos p)"
    and m: "4 \<le> mlen" "mlen + 5 \<le> unat (dst_capacity p) - unat (dst_pos p)" and r: "4 \<le> length rest"
  shows "lz4_match (lz4_token n (mlen - 4)) offset p seq = Some (CUDEC_OK, False,
      seq\<lparr>match_src := dst_pos p - offset, match_dst := dst_pos p, match_len := of_nat mlen\<rparr>,
      p\<lparr>src_pos := src_pos p + of_nat (length (lz4_len (mlen - 4))), dst_pos := dst_pos p + of_nat mlen\<rparr>)"
proof -
  let ?nib = "ucast (lz4_token n (mlen - 4)) AND 15 :: u64"
  have core: "core_ok p" using at by (simp add: at_src_def)
  have r4: "unat (4::u64) \<le> length rest" using r by simp
  obtain l where l: "lz4_length_field ?nib (?nib + 4) 4 False p =
      Some (CUDEC_OK, l, p\<lparr>src_pos := src_pos p + of_nat (length (lz4_len (mlen - 4)))\<rparr>)"
    "unat l = mlen - 4 + unat (4::u64)"
    using lz4_length_phase[OF at, of ?nib 4 4 False] lz4_token_match[of n "mlen - 4"] sz m r core_dst_left[OF core] by auto
  have "mlen < 2 ^ LENGTH(64)" using m(2) unat_u64_less[of "dst_capacity p"] by simp
  then have nl: "of_nat mlen = l" using l(2) m(1) by (simp add: word_unat_eq_iff unat_of_nat_less)
  have u: "unat l = mlen" using l(2) m(1) by simp
  have "unat (dst_capacity p - dst_pos p - 5) = unat (dst_capacity p) - unat (dst_pos p) - 5"
    using m core_dst_left[OF core] by (subst unat_minus) auto
  then have "\<not> l > dst_capacity p - dst_pos p" "\<not> l > dst_capacity p - dst_pos p - 5"
    using u m(2) core_dst_left[OF core] by (auto simp: w2n)
  moreover have "offset \<noteq> 0" "\<not> offset > dst_pos p" using off by (auto simp: w2n)
  ultimately show ?thesis using l(1) nl
    by (simp add: lz4_match_def lz4_consts Let_def)
qed

lemma lz4_next_seq:
  assumes at: "at_src p (lz4_seq_bytes (lits, off, mlen) @ rest)" and sz: "unat (src_size p) + 16 < 2 ^ 64"
    and off: "0 < off" "off < 65536" "off \<le> unat (dst_pos p) + length lits"
    and m: "4 \<le> mlen" and r: "6 \<le> length rest"
    and d: "length lits + 12 \<le> unat (dst_capacity p) - unat (dst_pos p)"
      "length lits + mlen + 5 \<le> unat (dst_capacity p) - unat (dst_pos p)"
  shows "\<exists>q' p'. lz4_next p q = Some (CUDEC_OK, False, q', p') \<and> at_src p' rest \<and>
      unat (dst_pos p') = unat (dst_pos p) + length lits + mlen \<and>
      (\<forall>out. length out = unat (dst_pos p) \<longrightarrow>
        element_bytes (src p) q' out = lz_copy off mlen (out @ lits))"
proof -
  let ?n = "length lits"
  let ?tok = "lz4_token ?n (mlen - 4)"
  let ?p = "p\<lparr>src_pos := src_pos p + 1\<rparr>"
  define s2 where "s2 = src_pos ?p + of_nat (length (lz4_len ?n))"
  let ?p2 = "p\<lparr>src_pos := s2\<rparr>"
  let ?nib = "ucast (drop_bit 4 ?tok) :: u64"
  let ?o0 = "of_nat (off mod 256) :: u8" and ?o1 = "of_nat (off div 256) :: u8"
  let ?r2 = "?o0 # ?o1 # lz4_len (mlen - 4) @ rest"
  have core: "core_ok p" using at by (simp add: at_src_def)
  have at1: "at_src ?p (lz4_len ?n @ lits @ ?r2)"
    using at_src_next(1)[of p ?tok] at by (simp add: lz4_seq_bytes_def)
  have tok: "rd (src p) (src_pos p) = Some ?tok" "\<not> src_pos p \<ge> src_size p"
    using at at_src_rd at_src_ge[OF at] by (auto simp: lz4_seq_bytes_def)
  obtain l where l: "lz4_length_field ?nib ?nib 15 True ?p = Some (CUDEC_OK, l, ?p2)" "unat l = ?n"
    using lz4_length_phase0[OF at1, of ?nib 15 True] sz d lz4_token_lit[of ?n "mlen - 4"] core_dst_left[OF core]
    by (auto simp: s2_def)
  have at2: "at_src ?p2 (lits @ ?r2)" using at_src_skip[OF at1] by (simp add: s2_def)
  note at3 = at_src_advance(1)[OF at2 l(2)]
  let ?p3 = "?p2\<lparr>src_pos := src_pos ?p2 + l\<rparr>"
  have at3': "at_src ?p3 ?r2" using at3 by simp
  let ?p4 = "?p2\<lparr>src_pos := src_pos ?p2 + l + 2\<rparr>"
  have at4: "at_src ?p4 (lz4_len (mlen - 4) @ rest)"
    using at_src_advance(1)[of ?p3 "[?o0, ?o1]" "lz4_len (mlen - 4) @ rest" 2] at3 by simp
  have left: "unat (src_size p - src_pos ?p2) = ?n + 2 + length (lz4_len (mlen - 4)) + length rest"
    using at_src_left[OF at2] by simp
  have fits: "\<not> l > src_size p - src_pos ?p2" "\<not> l > dst_capacity p - dst_pos p"
    using left l(2) d core_dst_left[OF core] by (auto simp: w2n)
  have slack: "\<not> dst_capacity p - dst_pos p - l < 12" "\<not> src_size p - src_pos ?p2 - l < 8"
    using left l(2) d core_dst_left[OF core] r by (auto simp: w2n unat_minus)
  have rds: "rd (src p) (src_pos ?p2 + l) = Some ?o0" "rd (src p) (src_pos ?p2 + l + 1) = Some ?o1"
    using at_src_rd[OF at3'] at_src_rd[OF at_src_next(1)[OF at3']] by simp_all
  let ?off = "ucast ?o0 OR push_bit 8 (ucast ?o1) :: u64"
  have uoff: "unat ?off = off"
  proof -
    have "unat ?o0 = off mod 256" "unat ?o1 = off div 256"
      using off by (auto intro!: unat_of_nat_less)
    then show ?thesis by (simp add: unat_byte_pair)
  qed
  have dl: "unat (dst_pos p + l) = unat (dst_pos p) + ?n" 
    using d l(2) by (subst unat_plus_le[where c = "dst_capacity p"]) auto
  let ?seq = "q\<lparr>literals_src := src_pos ?p2, literals_dst := dst_pos p, literals_len := l\<rparr>"
  let ?p5 = "p\<lparr>dst_pos := dst_pos p + l, src_pos := s2 + l + 2\<rparr>"
  have at5: "at_src ?p5 (lz4_len (mlen - 4) @ rest)"
    using at4 dl d l(2) by (auto simp: at_src_def core_ok_def)
  have "lz4_match ?tok ?off ?p5 ?seq = Some (CUDEC_OK, False,
      ?seq\<lparr>match_src := dst_pos ?p5 - ?off, match_dst := dst_pos ?p5, match_len := of_nat mlen\<rparr>,
      ?p5\<lparr>src_pos := src_pos ?p5 + of_nat (length (lz4_len (mlen - 4))), dst_pos := dst_pos ?p5 + of_nat mlen\<rparr>)"
    using sz off m d r dl uoff by (intro lz4_match_step[OF at5]) auto
  then have "lz4_next p q = Some (CUDEC_OK, False,
      ?seq\<lparr>match_src := dst_pos ?p5 - ?off, match_dst := dst_pos ?p5, match_len := of_nat mlen\<rparr>,
      ?p5\<lparr>src_pos := src_pos ?p5 + of_nat (length (lz4_len (mlen - 4))), dst_pos := dst_pos ?p5 + of_nat mlen\<rparr>)"
    (is "_ = Some (_, _, ?q', ?p')")
    using tok l(1) fits slack rds by (simp add: lz4_next_def lz4_nonterminal_def lz4_consts Let_def)
  moreover have um: "unat (of_nat mlen :: u64) = mlen"
    using d unat_u64_less[of "dst_capacity p"] by (intro unat_of_nat_less) simp
  moreover have dm: "unat (dst_pos p + l + of_nat mlen) = unat (dst_pos p) + ?n + mlen"
    using d dl um by (subst unat_plus_le[where c = "dst_capacity p"]) auto
  moreover have "at_src ?p' rest"
    using at_src_skip[OF at5] dm d by (auto simp: at_src_def core_ok_def)
  moreover have "element_bytes (src p) ?q' out = lz_copy off mlen (out @ lits)" for out
    using at2 l(2) um uoff by (simp add: element_bytes_def at_src_def)
  ultimately show ?thesis by (intro exI[of _ ?q'] exI[of _ ?p']) simp
qed

lemma lz4_decodes_encode:
  assumes "at_src p (lz4_encode ss run)" "unat (src_size p) + 16 < 2 ^ 64"
    and "lz4_valid ss run (unat (dst_pos p))" "unat (dst_pos p) + lz4_total ss run \<le> unat (dst_capacity p)"
    and "length out = unat (dst_pos p)"
  shows "decodes lz4_next p q out (lz4_expand ss run out)"
  using assms
proof (induction ss arbitrary: p q out)
  case Nil
  then have "length run \<le> unat (dst_capacity p) - unat (dst_pos p)" by simp
  with Nil obtain q' p' where "lz4_next p q = Some (CUDEC_OK, True, q', p')"
    "element_bytes (src p) q' out = out @ run"
    using lz4_next_terminal[of p run q out] by auto
  then show ?case using decodes.last[of lz4_next p q q' p' out] by simp
next
  case (Cons s ss)
  obtain lits off mlen where s: "s = (lits, off, mlen)" by (cases s)
  have v: "4 \<le> mlen" "0 < off" "off < 65536" "off \<le> unat (dst_pos p) + length lits" "5 \<le> length run"
    "12 \<le> mlen + lz4_total ss run" "lz4_valid ss run (unat (dst_pos p) + length lits + mlen)"
    using Cons.prems s by auto
  have "6 \<le> length (lz4_encode ss run)" using length_lz4_encode[of run ss] v by linarith
  moreover have at: "at_src p (lz4_seq_bytes (lits, off, mlen) @ lz4_encode ss run)"
    using Cons.prems(1) s by simp
  moreover have "length lits + 12 \<le> unat (dst_capacity p) - unat (dst_pos p)"
    "length lits + mlen + 5 \<le> unat (dst_capacity p) - unat (dst_pos p)"
    using Cons.prems(4) v lz4_total_run[of run ss] s by auto
  ultimately obtain q' p' where n: "lz4_next p q = Some (CUDEC_OK, False, q', p')"
    and p': "at_src p' (lz4_encode ss run)" "unat (dst_pos p') = unat (dst_pos p) + length lits + mlen"
    and e: "element_bytes (src p) q' out = lz_copy off mlen (out @ lits)"
    using lz4_next_seq[OF at Cons.prems(2), of q] v Cons.prems(5) by auto
  have adv: "src_size p' = src_size p" "dst_capacity p' = dst_capacity p"
    using lz4_next_contract[of p q] at n by (auto simp: at_src_def wp_iff core_adv_def)
  have "decodes lz4_next p' q' (lz_copy off mlen (out @ lits)) (lz4_expand ss run (lz_copy off mlen (out @ lits)))"
    using Cons.prems p' adv v s by (intro Cons.IH) auto
  then show ?case using decodes.step[of lz4_next p q q' p' out] n e s by simp
qed


lemma length_lz4_expand: "length (lz4_expand ss run out) = length out + lz4_total ss run"
  by (induction ss run out rule: lz4_expand.induct) auto

lemma lz4_chunk_encode:
  assumes v: "lz4_valid ss run 0" and sz: "length (lz4_encode ss run) + 16 < 2 ^ 64"
    and cap: "lz4_total ss run \<le> unat cap" "unat cap \<le> length d" and sched: "permutes_all sched"
  shows "wp (decode_chunk lz4_next dst_pos sched (lz4_encode ss run) (of_nat (length (lz4_encode ss run)))
      (lz4_parser_init (lz4_encode ss run) (of_nat (length (lz4_encode ss run))) cap) d)
    (\<lambda>(r, d'). chunk_status r = CUDEC_OK \<and> unat (bytes_written r) = lz4_total ss run \<and>
       length d' = length d \<and> take (lz4_total ss run) d' = lz4_expand ss run [] \<and>
       drop (unat cap) d' = drop (unat cap) d)"
proof -
  let ?s = "lz4_encode ss run"
  let ?n = "of_nat (length ?s) :: u64"
  let ?p = "lz4_parser_init ?s ?n cap"
  have n: "unat ?n = length ?s" using sz by (intro unat_of_nat_less) simp
  then have at: "at_src ?p ?s" by (simp add: at_src_def lz4_parser_init_def core_ok_def)
  have dec: "decodes lz4_next ?p empty_sequence [] (lz4_expand ss run [])"
    using v sz cap n by (intro lz4_decodes_encode[OF at]) (auto simp: lz4_parser_init_def)
  show ?thesis
    using lz4.decode_chunk_decodes[OF _ sched _ _ dec, of d] at cap
    by (simp add: lz4_parser_init_def at_src_def length_lz4_expand)
qed

end
