(* ===== verification/Snappy_Block.thy ===== *)
theory Snappy_Block
  imports Chunk_Decode
begin

text \<open>
  The Snappy raw block parser, \<open>src/snappy_block.h\<close>: the varint preamble, the element
  parser with its reject ladder, and the state that makes a call past the terminal element a
  reject.
\<close>

definition kSnappyVarintGroups :: u64 where "kSnappyVarintGroups = 5"
definition kSnappyVarintBits :: nat where "kSnappyVarintBits = 7"
definition kSnappyVarintContinue :: u8 where "kSnappyVarintContinue = 0x80"
definition kSnappyVarintPayload :: u8 where "kSnappyVarintPayload = 0x7f"
definition kSnappyVarintFinalMax :: u8 where "kSnappyVarintFinalMax = 16"
definition kSnappyTagKindMask :: u8 where "kSnappyTagKindMask = 0x3"
definition kSnappyTagKindLiteral :: u8 where "kSnappyTagKindLiteral = 0"
definition kSnappyTagKindCopy1 :: u8 where "kSnappyTagKindCopy1 = 1"
definition kSnappyTagKindCopy2 :: u8 where "kSnappyTagKindCopy2 = 2"
definition kSnappyTagKindCopy4 :: u8 where "kSnappyTagKindCopy4 = 3"
definition kSnappyTagLengthShift :: nat where "kSnappyTagLengthShift = 2"
definition kSnappyBitsPerByte :: nat where "kSnappyBitsPerByte = 8"
definition kSnappyTagBytes :: u64 where "kSnappyTagBytes = 1"
definition kSnappyLiteralInlineMax :: u64 where "kSnappyLiteralInlineMax = 59"
definition kSnappyCopy1LengthMask :: u8 where "kSnappyCopy1LengthMask = 0x7"
definition kSnappyCopy1OffsetShift :: nat where "kSnappyCopy1OffsetShift = 5"
definition kSnappyCopy1MinLength :: u64 where "kSnappyCopy1MinLength = 4"
definition kSnappyCopy1OffsetBytes :: u64 where "kSnappyCopy1OffsetBytes = 1"
definition kSnappyCopy2OffsetBytes :: u64 where "kSnappyCopy2OffsetBytes = 2"
definition kSnappyCopy4OffsetBytes :: u64 where "kSnappyCopy4OffsetBytes = 4"

lemmas snappy_consts = kSnappyVarintGroups_def kSnappyVarintBits_def kSnappyVarintContinue_def
  kSnappyVarintPayload_def kSnappyVarintFinalMax_def kSnappyTagKindMask_def
  kSnappyTagKindLiteral_def kSnappyTagKindCopy1_def kSnappyTagKindCopy2_def
  kSnappyTagKindCopy4_def kSnappyTagLengthShift_def kSnappyBitsPerByte_def kSnappyTagBytes_def
  kSnappyLiteralInlineMax_def kSnappyCopy1LengthMask_def kSnappyCopy1OffsetShift_def
  kSnappyCopy1MinLength_def kSnappyCopy1OffsetBytes_def kSnappyCopy2OffsetBytes_def
  kSnappyCopy4OffsetBytes_def

datatype snappy_reject =
    kSnappyRejectNone
  | kSnappyRejectPreambleByteMissing
  | kSnappyRejectPreambleFinalGroup
  | kSnappyRejectPreambleUnreachable
  | kSnappyRejectDeclaredOverCapacity
  | kSnappyRejectPastTerminal
  | kSnappyRejectUnderProduction
  | kSnappyRejectLiteralHeaderTruncated
  | kSnappyRejectLiteralPayloadTruncated
  | kSnappyRejectLiteralOverProduction
  | kSnappyRejectCopyHeaderTruncated
  | kSnappyRejectCopyOffsetZero
  | kSnappyRejectCopyOffsetBeforeStart
  | kSnappyRejectCopyOverProduction

section \<open>The preamble\<close>

text \<open>
  The result is the status, the declared length and the preamble size (both meaningful on
  success only, as the out-parameters are) and the branch that refused.
\<close>

function snappy_varint_loop ::
    "u8 list \<Rightarrow> u64 \<Rightarrow> u64 \<Rightarrow> u64 \<Rightarrow> (cudec_status \<times> u64 \<times> u64 \<times> snappy_reject) option" where
  "snappy_varint_loop s n grp result =
     (if grp < kSnappyVarintGroups then
        if grp \<ge> n
        then Some (CUDEC_ERR_CORRUPT_INPUT, 0, 0, kSnappyRejectPreambleByteMissing)
        else do {
          byte \<leftarrow> rd s grp;
          if grp + 1 = kSnappyVarintGroups \<and> byte \<ge> kSnappyVarintFinalMax
          then Some (CUDEC_ERR_CORRUPT_INPUT, 0, 0, kSnappyRejectPreambleFinalGroup)
          else do {
            let result = result OR
              push_bit (kSnappyVarintBits * unat grp) (ucast (byte AND kSnappyVarintPayload));
            if byte AND kSnappyVarintContinue = 0
            then Some (CUDEC_OK, result, grp + 1, kSnappyRejectNone)
            else snappy_varint_loop s n (grp + 1) result
          }
        }
      else Some (CUDEC_ERR_CORRUPT_INPUT, 0, 0, kSnappyRejectPreambleUnreachable))"
  by pat_completeness auto
termination
  by (relation "measure (\<lambda>(_, _, grp, _). 5 - unat grp)")
    (auto simp: snappy_consts word_less_nat_alt unat_word_ariths)

declare snappy_varint_loop.simps [simp del]

definition snappy_declared_length ::
    "u8 list \<Rightarrow> u64 \<Rightarrow> (cudec_status \<times> u64 \<times> u64 \<times> snappy_reject) option" where
  "snappy_declared_length s n = snappy_varint_loop s n 0 0"

section \<open>The parser\<close>

record snappy_parser = parser_core +
  declared :: u64
  begun :: bool
  finished :: bool
  reject :: snappy_reject

definition snappy_parser_init :: "u8 list \<Rightarrow> u64 \<Rightarrow> u64 \<Rightarrow> snappy_parser" where
  "snappy_parser_init s n cap =
     \<lparr>src = s, src_size = n, dst_capacity = cap, src_pos = 0, dst_pos = 0,
      declared = 0, begun = False, finished = False, reject = kSnappyRejectNone\<rparr>"

definition snappy_begin :: "snappy_parser \<Rightarrow> (cudec_status \<times> snappy_parser) option" where
  "snappy_begin p =
     (if begun p then Some (CUDEC_OK, p)
      else do {
        (status, declared, preamble_size, rej) \<leftarrow> snappy_declared_length (src p) (src_size p);
        if status \<noteq> CUDEC_OK then Some (status, p\<lparr>reject := rej\<rparr>)
        else do {
          let p = p\<lparr>declared := declared\<rparr>;
          if declared > dst_capacity p
          then Some (CUDEC_ERR_OUTPUT_TOO_SMALL, p\<lparr>reject := kSnappyRejectDeclaredOverCapacity\<rparr>)
          else Some (CUDEC_OK, p\<lparr>src_pos := preamble_size, begun := True\<rparr>)
        }
      })"

type_synonym snappy_step = "cudec_status \<times> bool \<times> decode_sequence \<times> snappy_parser"

definition snappy_refuse ::
    "snappy_reject \<Rightarrow> cudec_status \<Rightarrow> decode_sequence \<Rightarrow> snappy_parser \<Rightarrow> snappy_step option" where
  "snappy_refuse branch status q p = Some (status, False, q, p\<lparr>reject := branch\<rparr>)"

text \<open>The two counted loops that assemble a little-endian field of \<open>n\<close> bytes.\<close>

function snappy_load_le :: "u8 list \<Rightarrow> u64 \<Rightarrow> u64 \<Rightarrow> u64 \<Rightarrow> u64 \<Rightarrow> u64 option" where
  "snappy_load_le s pos n i acc =
     (if i < n then do {
        byte \<leftarrow> rd s (pos + kSnappyTagBytes + i);
        snappy_load_le s pos n (i + 1) (acc OR push_bit (kSnappyBitsPerByte * unat i) (ucast byte))
      } else Some acc)"
  by pat_completeness auto
termination
  by (relation "measure (\<lambda>(_, _, n, i, _). unat n - unat i)")
    (auto simp: word_less_nat_alt unat_Suc_less)

declare snappy_load_le.simps [simp del]

definition snappy_literal_body ::
    "u64 \<Rightarrow> u64 \<Rightarrow> snappy_parser \<Rightarrow> decode_sequence \<Rightarrow> snappy_step option" where
  "snappy_literal_body encoded header p q = do {
     let length = encoded + 1;
     let p = p\<lparr>src_pos := src_pos p + header\<rparr>;
     if length > src_size p - src_pos p
     then snappy_refuse kSnappyRejectLiteralPayloadTruncated CUDEC_ERR_CORRUPT_INPUT q p
     else if length > declared p - dst_pos p
     then snappy_refuse kSnappyRejectLiteralOverProduction CUDEC_ERR_CORRUPT_INPUT q p
     else Some (CUDEC_OK, False,
            empty_sequence\<lparr>literals_src := src_pos p, literals_dst := dst_pos p,
                           literals_len := length\<rparr>,
            p\<lparr>src_pos := src_pos p + length, dst_pos := dst_pos p + length\<rparr>)
   }"

definition snappy_literal :: "u8 \<Rightarrow> snappy_parser \<Rightarrow> decode_sequence \<Rightarrow> snappy_step option" where
  "snappy_literal tag p q = do {
     let length = (ucast (drop_bit kSnappyTagLengthShift tag) :: u64);
     let header = kSnappyTagBytes;
     if length > kSnappyLiteralInlineMax then do {
       let extra = length - kSnappyLiteralInlineMax;
       let header = header + extra;
       if header > src_size p - src_pos p
       then snappy_refuse kSnappyRejectLiteralHeaderTruncated CUDEC_ERR_CORRUPT_INPUT q p
       else do {
         length \<leftarrow> snappy_load_le (src p) (src_pos p) extra 0 0;
         snappy_literal_body length header p q
       }
     } else snappy_literal_body length header p q
   }"

definition snappy_copy_body ::
    "u64 \<Rightarrow> u64 \<Rightarrow> snappy_parser \<Rightarrow> decode_sequence \<Rightarrow> snappy_step option" where
  "snappy_copy_body offset len p q =
     (if offset = 0
      then snappy_refuse kSnappyRejectCopyOffsetZero CUDEC_ERR_CORRUPT_INPUT q p
      else if offset > dst_pos p
      then snappy_refuse kSnappyRejectCopyOffsetBeforeStart CUDEC_ERR_CORRUPT_INPUT q p
      else if len > declared p - dst_pos p
      then snappy_refuse kSnappyRejectCopyOverProduction CUDEC_ERR_CORRUPT_INPUT q p
      else Some (CUDEC_OK, False,
             empty_sequence\<lparr>match_src := dst_pos p - offset, match_dst := dst_pos p,
                            match_len := len\<rparr>,
             p\<lparr>dst_pos := dst_pos p + len\<rparr>))"

definition snappy_offset_bytes :: "u8 \<Rightarrow> u64" where
  "snappy_offset_bytes kind =
     (if kind = kSnappyTagKindCopy2 then kSnappyCopy2OffsetBytes
      else if kind = kSnappyTagKindCopy4 then kSnappyCopy4OffsetBytes
      else kSnappyCopy1OffsetBytes)"

definition snappy_copy :: "u8 \<Rightarrow> snappy_parser \<Rightarrow> decode_sequence \<Rightarrow> snappy_step option" where
  "snappy_copy tag p q = do {
     let kind = tag AND kSnappyTagKindMask;
     let offset_bytes = snappy_offset_bytes kind;
     let header = kSnappyTagBytes + offset_bytes;
     if header > src_size p - src_pos p
     then snappy_refuse kSnappyRejectCopyHeaderTruncated CUDEC_ERR_CORRUPT_INPUT q p
     else do {
       offset \<leftarrow> snappy_load_le (src p) (src_pos p) offset_bytes 0 0;
       let (offset, length) =
         (if kind = kSnappyTagKindCopy1
          then (offset OR push_bit kSnappyBitsPerByte
                  (ucast (drop_bit kSnappyCopy1OffsetShift tag)),
                kSnappyCopy1MinLength +
                  ucast (drop_bit kSnappyTagLengthShift tag AND kSnappyCopy1LengthMask))
          else (offset, ucast (drop_bit kSnappyTagLengthShift tag) + 1));
       snappy_copy_body offset length (p\<lparr>src_pos := src_pos p + header\<rparr>) q
     }
   }"

definition snappy_element :: "snappy_parser \<Rightarrow> decode_sequence \<Rightarrow> snappy_step option" where
  "snappy_element p q =
     (if src_pos p \<ge> src_size p then
        if dst_pos p \<noteq> declared p
        then snappy_refuse kSnappyRejectUnderProduction CUDEC_ERR_CORRUPT_INPUT q p
        else Some (CUDEC_OK, True, empty_sequence, p\<lparr>finished := True\<rparr>)
      else do {
        tag \<leftarrow> rd (src p) (src_pos p);
        if tag AND kSnappyTagKindMask = kSnappyTagKindLiteral
        then snappy_literal tag p q
        else snappy_copy tag p q
      })"

definition snappy_next :: "snappy_parser \<Rightarrow> decode_sequence \<Rightarrow> snappy_step option" where
  "snappy_next p q =
     (if finished p
      then snappy_refuse kSnappyRejectPastTerminal CUDEC_ERR_CORRUPT_INPUT q p
      else do {
        (started, p) \<leftarrow> snappy_begin p;
        if started \<noteq> CUDEC_OK then Some (started, False, q, p)
        else snappy_element p q
      })"

section \<open>Memory safety and the element contract\<close>

lemma snappy_masks: "(kSnappyVarintPayload :: u8) = mask 7" "kSnappyTagKindMask = mask 2"
  "kSnappyCopy1LengthMask = mask 3" "kSnappyVarintContinue = NOT (mask 7)"
  by (simp_all add: snappy_consts mask_eq_exp_minus_1)

lemma unat_payload: "unat (byte AND kSnappyVarintPayload) = unat byte mod 128"
  by (simp add: snappy_masks unat_and_mask)

lemma varint_continue: "byte AND kSnappyVarintContinue = 0 \<longleftrightarrow> unat byte < 128"
  by (simp add: snappy_masks and_not_mask_0)

lemma varint_acc:
  assumes "unat g < 5" "unat (acc::u64) < 128 ^ unat (g::u64)"
  shows "unat (acc OR push_bit (7 * unat g) (ucast (b AND kSnappyVarintPayload))) =
    unat acc + unat b mod 128 * 128 ^ unat g"
    and "unat acc + unat b mod 128 * 128 ^ unat g < 128 ^ Suc (unat g)"
proof -
  have p: "(2::nat) ^ (7 * unat g) = 128 ^ unat g" by (simp add: power_mult)
  have "unat b mod 128 * 128 ^ unat g + 128 ^ unat g = (unat b mod 128 + 1) * 128 ^ unat g" by simp
  also have "\<dots> \<le> 128 * 128 ^ unat g" by (intro mult_right_mono) auto
  finally have le: "unat b mod 128 * 128 ^ unat g + 128 ^ unat g \<le> 128 ^ Suc (unat g)" by simp
  also have "(128::nat) ^ Suc (unat g) \<le> 128 ^ 5" using assms(1) by (intro power_increasing) auto
  finally show "unat (acc OR push_bit (7 * unat g) (ucast (b AND kSnappyVarintPayload))) =
      unat acc + unat b mod 128 * 128 ^ unat g"
    using assms(2) by (subst unat_or_push) (simp_all add: p unat_payload)
  show "unat acc + unat b mod 128 * 128 ^ unat g < 128 ^ Suc (unat g)"
    using le assms(2) by linarith
qed

lemma varint_loop_contract:
  assumes "unat n \<le> length s" "unat g < 5" "unat acc < 128 ^ unat g"
  shows "wp (snappy_varint_loop s n g acc) (\<lambda>(st, d, k, rej).
     rej \<noteq> kSnappyRejectPreambleUnreachable \<and>
     st \<noteq> CUDEC_ERR_OUTPUT_TOO_SMALL \<and> (st = CUDEC_OK \<longleftrightarrow> rej = kSnappyRejectNone) \<and>
     (st = CUDEC_OK \<longrightarrow> unat d < 2 ^ 32 \<and> unat g < unat k \<and> unat k \<le> unat n \<and> unat k \<le> 5))"
  using assms
proof (induction s n g acc rule: snappy_varint_loop.induct)
  case (1 s n g acc)
  show ?case
  proof (cases "unat g < unat n")
    case False
    then show ?thesis using "1.prems"
      by (subst snappy_varint_loop.simps) (auto simp: wp_rules w2n snappy_consts)
  next
    case lt: True
    have rdok: "rd s g = Some (s ! unat g)" using lt "1.prems" by (simp add: rd_def)
    let ?b = "s ! unat g"
    let ?acc = "acc OR push_bit (7 * unat g) (ucast (?b AND kSnappyVarintPayload))"
    note va = varint_acc[OF "1.prems"(2,3), of ?b]
    have suc: "unat (g + 1) = Suc (unat g)" using lt by (rule unat_Suc_less)
    have five: "g + 1 = 5 \<longleftrightarrow> unat g = 4"
      using suc by (simp add: word_unat_eq_iff)
    have final: "unat ?acc < 2 ^ 32" if "unat g = 4 \<longrightarrow> unat ?b < 16"
    proof (cases "unat g = 4")
      case True
      with that va(1) "1.prems"(3) show ?thesis by simp
    next
      case False
      then have "(128::nat) ^ Suc (unat g) \<le> 128 ^ 4" using "1.prems"(2) by (intro power_increasing) auto
      then show ?thesis using va by simp
    qed
    have IH: "wp (snappy_varint_loop s n (g + 1) ?acc) (\<lambda>(st, d, k, rej).
       rej \<noteq> kSnappyRejectPreambleUnreachable \<and>
       st \<noteq> CUDEC_ERR_OUTPUT_TOO_SMALL \<and> (st = CUDEC_OK \<longleftrightarrow> rej = kSnappyRejectNone) \<and>
       (st = CUDEC_OK \<longrightarrow> unat d < 2 ^ 32 \<and> unat (g + 1) < unat k \<and> unat k \<le> unat n \<and> unat k \<le> 5))"
      if "\<not> (g + 1 = kSnappyVarintGroups \<and> kSnappyVarintFinalMax \<le> ?b)" "unat ?b \<ge> 128"
    proof (rule "1.IH")
      have "unat g \<noteq> 4" using that five by (auto simp: snappy_consts word_le_nat_alt)
      then show "unat (g + 1) < 5" using suc "1.prems" by simp
      show "unat ?acc < 128 ^ unat (g + 1)" using va suc by simp
    qed (use that lt rdok "1.prems" varint_continue in \<open>auto simp: w2n snappy_consts kSnappyVarintBits_def\<close>)
    show ?thesis
      using lt rdok IH final suc five "1.prems" by (subst snappy_varint_loop.simps)
        (auto simp: wp_rules w2n snappy_consts Let_def
          varint_continue[unfolded kSnappyVarintContinue_def] elim!: wp_mono)
  qed
qed


lemma declared_length_contract:
  "unat n \<le> length s \<Longrightarrow> wp (snappy_declared_length s n) (\<lambda>(st, d, k, rej).
     rej \<noteq> kSnappyRejectPreambleUnreachable \<and>
     st \<noteq> CUDEC_ERR_OUTPUT_TOO_SMALL \<and> (st = CUDEC_OK \<longleftrightarrow> rej = kSnappyRejectNone) \<and>
     (st = CUDEC_OK \<longrightarrow> unat d < 2 ^ 32 \<and> 0 < unat k \<and> unat k \<le> unat n \<and> unat k \<le> 5))"
  unfolding snappy_declared_length_def
  using varint_loop_contract[of n s 0 0] by simp

lemma load_le_loop:
  assumes "unat pos + 1 + unat n \<le> length s" "unat pos + 1 + unat n < 2 ^ 64" "unat n \<le> 4"
    and "unat i \<le> unat n" "unat acc < 256 ^ unat i"
  shows "wp (snappy_load_le s pos n i acc) (\<lambda>r. unat r =
     unat acc + 256 ^ unat i * le_nat (take (unat n - unat i) (drop (unat pos + 1 + unat i) s)))"
  using assms
proof (induction s pos n i acc rule: snappy_load_le.induct)
  case (1 s pos n i acc)
  show ?case
  proof (cases "i < n")
    case False
    then show ?thesis using "1.prems" by (subst snappy_load_le.simps) (simp add: wp_rules w2n)
  next
    case True
    then have lt: "unat i < unat n" by (simp add: w2n)
    have pos: "unat (pos + kSnappyTagBytes + i) = unat pos + 1 + unat i"
      using lt "1.prems" by (simp add: snappy_consts unat_plus)
    let ?b = "s ! (unat pos + 1 + unat i)"
    let ?acc = "acc OR push_bit (8 * unat i) (ucast ?b)"
    have p: "(2::nat) ^ (8 * unat i) = 256 ^ unat i" by (simp add: power_mult)
    have acc: "unat ?acc = unat acc + unat ?b * 256 ^ unat i"
      using "1.prems" lt by (subst unat_or_push_byte) (simp_all add: p)
    have accl: "unat ?acc < 256 ^ Suc (unat i)"
    proof -
      have "(unat ?b + 1) * 256 ^ unat i \<le> 256 * 256 ^ unat i"
        using unat_u8_less[of ?b] by (intro mult_right_mono) auto
      then show ?thesis using "1.prems"(5) unfolding acc by (simp only: distrib_right power_Suc)
    qed
    have suc: "unat (i + 1) = Suc (unat i)" using lt by (rule unat_Suc_less)
    have rdok: "rd s (pos + kSnappyTagBytes + i) = Some ?b"
      using pos lt "1.prems" by (simp add: rd_def)
    have "wp (snappy_load_le s pos n (i + 1) ?acc) (\<lambda>r. unat r =
       unat ?acc + 256 ^ unat (i + 1) * le_nat (take (unat n - unat (i + 1)) (drop (unat pos + 1 + unat (i + 1)) s)))"
      using "1.IH"[OF True rdok] "1.prems" lt suc accl by (simp add: snappy_consts)
    moreover have "take (unat n - unat i) (drop (unat pos + 1 + unat i) s) =
       ?b # take (unat n - unat (i + 1)) (drop (unat pos + 1 + unat (i + 1)) s)"
      using lt "1.prems" suc by (simp add: Suc_diff_Suc flip: Cons_nth_drop_Suc take_Suc_Cons)
    ultimately show ?thesis using True rdok acc suc
      by (subst snappy_load_le.simps) (simp add: wp_rules snappy_consts algebra_simps)
  qed
qed

lemma load_le_value:
  assumes "unat pos + 1 + unat n \<le> length s" "unat pos + 1 + unat n < 2 ^ 64" "unat n \<le> 4"
  shows "wp (snappy_load_le s pos n 0 0) (\<lambda>r. unat r = le_nat (take (unat n) (drop (unat pos + 1) s)) \<and>
    unat r < 256 ^ unat n)"
  using load_le_loop[OF assms, of 0 0] le_nat_less[of "take (unat n) (drop (unat pos + 1) s)"] assms
  by (auto elim!: wp_mono)

definition snappy_ok :: "snappy_parser \<Rightarrow> bool" where
  "snappy_ok p \<longleftrightarrow> core_ok p \<and> reject p \<noteq> kSnappyRejectPreambleUnreachable \<and>
     (if begun p then unat (declared p) \<le> unat (dst_capacity p) \<and> unat (dst_pos p) \<le> unat (declared p)
      else src_pos p = 0 \<and> dst_pos p = 0)"

lemma snappy_begin_contract:
  "snappy_ok p \<Longrightarrow> wp (snappy_begin p) (\<lambda>(st, p'). snappy_ok p' \<and> core_adv p p' \<and>
     dst_pos p' = dst_pos p \<and> finished p' = finished p \<and>
     (st = CUDEC_ERR_OUTPUT_TOO_SMALL \<longrightarrow> unat (dst_capacity p) < unat (declared p')) \<and>
     (begun p \<longrightarrow> p' = p) \<and> (st = CUDEC_OK \<longleftrightarrow> begun p') \<and> (\<not> begun p \<and> begun p' \<longrightarrow> 0 < unat (src_pos p')))"
  unfolding snappy_begin_def
  by (intro wp_intro wp_bindI[OF declared_length_contract])
    (auto simp: snappy_ok_def core_ok_def core_adv_def w2n)

definition snappy_step_ok :: "snappy_parser \<Rightarrow> snappy_step \<Rightarrow> bool" where
  "snappy_step_ok p = (\<lambda>(st, fin, q, p'). snappy_ok p' \<and> core_adv p p' \<and>
     (fin \<longrightarrow> st = CUDEC_OK \<and> src_pos p' = src_size p' \<and> dst_pos p' = declared p' \<and> finished p' \<and>
        literals_len q = 0 \<and> match_len q = 0) \<and>
     (st = CUDEC_OK \<longrightarrow> begun p' \<and> seq_ok p q p' \<and>
        (\<not> fin \<longrightarrow> unat (src_pos p) < unat (src_pos p') \<and> (literals_len q = 0) \<noteq> (match_len q = 0))) \<and>
     (st = CUDEC_ERR_OUTPUT_TOO_SMALL \<longrightarrow> unat (dst_capacity p) < unat (declared p')))"

lemma snappy_header:
  assumes "core_ok p" "unat h \<le> unat (src_size p - src_pos p)"
  shows "unat (src_pos p + h) = unat (src_pos p) + unat h"
    and "unat (src_pos p) + unat h \<le> length (src p)"
    and "unat (src_size p - (src_pos p + h)) = unat (src_size p) - unat (src_pos p) - unat h"
    and "unat (src_pos p) + unat h < 2 ^ 64"
proof -
  have l: "unat h \<le> unat (src_size p) - unat (src_pos p)" using assms(2) core_src_left[OF assms(1)] by simp
  show a: "unat (src_pos p + h) = unat (src_pos p) + unat h"
    by (rule core_src_plus[OF assms(1) l])
  show "unat (src_pos p) + unat h \<le> length (src p)" using l assms(1) by (auto simp: core_ok_def)
  have "unat (src_pos p + h) \<le> unat (src_size p)" using a l assms(1) by (auto simp: core_ok_def)
  then show "unat (src_size p - (src_pos p + h)) = unat (src_size p) - unat (src_pos p) - unat h"
    using a by (simp add: unat_minus)
  show "unat (src_pos p) + unat h < 2 ^ 64"
    using a unat_u64_less[of "src_pos p + h"] by simp
qed


definition snappy_live :: "snappy_parser \<Rightarrow> bool" where
  "snappy_live p \<longleftrightarrow> snappy_ok p \<and> begun p \<and> \<not> finished p"

lemma snappy_live_advance:
  assumes "snappy_live p" "unat h \<le> unat (src_size p - src_pos p)"
  shows "snappy_live (p\<lparr>src_pos := src_pos p + h\<rparr>)"
  using assms snappy_header[of p h] unfolding snappy_live_def snappy_ok_def core_ok_def
  by (auto simp: unat_minus)

lemma declared_left: "snappy_live p \<Longrightarrow> unat (declared p - dst_pos p) = unat (declared p) - unat (dst_pos p)"
  by (simp add: snappy_live_def snappy_ok_def unat_minus)

lemma snappy_commit:
  assumes "snappy_live p" "unat n \<le> unat (declared p - dst_pos p)"
  shows "unat (dst_pos p + n) = unat (dst_pos p) + unat n"
    and "unat (dst_pos p) + unat n \<le> unat (declared p)"
    and "unat (dst_pos p) + unat n \<le> unat (dst_capacity p)"
proof -
  have a: "unat (dst_pos p) + unat n \<le> unat (declared p)"
    using assms declared_left[OF assms(1)] by (auto simp: snappy_live_def snappy_ok_def)
  then show "unat (dst_pos p) + unat n \<le> unat (declared p)" "unat (dst_pos p) + unat n \<le> unat (dst_capacity p)"
    using assms(1) by (auto simp: snappy_live_def snappy_ok_def)
  show "unat (dst_pos p + n) = unat (dst_pos p) + unat n" by (rule unat_plus_le[OF a])
qed

lemma snappy_literal_body_contract:
  assumes live: "snappy_live p" and h: "0 < unat h" "unat h \<le> unat (src_size p - src_pos p)"
    and n: "unat n < 2 ^ 32"
  shows "wp (snappy_literal_body n h p q) (snappy_step_ok p)"
proof -
  have core: "core_ok p" using live by (simp add: snappy_live_def snappy_ok_def)
  let ?p = "p\<lparr>src_pos := src_pos p + h\<rparr>"
  note hd = snappy_header[OF core h(2)] and live1 = snappy_live_advance[OF live h(2)]
  have n1: "unat (n + 1) = Suc (unat n)" using n by (simp add: unat_plus)
  show ?thesis
  proof (cases "unat (n + 1) \<le> unat (src_size p - (src_pos p + h)) \<and> unat (n + 1) \<le> unat (declared p - dst_pos p)")
    case True
    have c: "core_ok ?p" using live1 by (simp add: snappy_live_def snappy_ok_def)
    have s: "unat (src_pos p + h + (n + 1)) = unat (src_pos p) + unat h + Suc (unat n)"
      and le: "unat (src_pos p) + unat h + Suc (unat n) \<le> unat (src_size p)"
      using True snappy_header[OF c, of "n + 1"] core_src_left[OF c] hd(1) n1 c by (auto simp: core_ok_def)
    have d: "unat (dst_pos p + (n + 1)) = unat (dst_pos p) + Suc (unat n)"
      and dl: "unat (dst_pos p) + Suc (unat n) \<le> unat (declared p)" "unat (dst_pos p) + Suc (unat n) \<le> unat (dst_capacity p)"
      using True snappy_commit[OF live, of "n + 1"] n1 by auto
    have nz: "n + 1 \<noteq> 0" using n1 by auto
    show ?thesis
      using True live h hd s le d dl n1 nz unfolding snappy_literal_body_def
      by (auto simp: wp_rules Let_def w2n snappy_step_ok_def snappy_live_def snappy_ok_def core_ok_def
          core_adv_def seq_ok_def empty_sequence_def)
  next
    case False
    then show ?thesis
      using live1 hd h unfolding snappy_literal_body_def snappy_refuse_def
      by (auto simp: wp_rules Let_def w2n snappy_step_ok_def snappy_live_def snappy_ok_def core_ok_def core_adv_def)
  qed
qed

lemma snappy_refuse_ok:
  "snappy_live p \<Longrightarrow> r \<noteq> kSnappyRejectPreambleUnreachable \<Longrightarrow> 
   wp (snappy_refuse r CUDEC_ERR_CORRUPT_INPUT q p) (snappy_step_ok p)"
  by (simp add: snappy_refuse_def wp_rules snappy_step_ok_def snappy_live_def snappy_ok_def core_ok_def core_adv_def)

lemma snappy_one_left: "core_ok p \<Longrightarrow> \<not> src_pos p \<ge> src_size p \<Longrightarrow> 1 \<le> unat (src_size p - src_pos p)"
  using core_src_left[of p] by (simp add: w2n)

lemma snappy_literal_contract:
  assumes live: "snappy_live p" and lt: "\<not> src_pos p \<ge> src_size p"
  shows "wp (snappy_literal tag p q) (snappy_step_ok p)"
proof -
  have core: "core_ok p" using live by (simp add: snappy_live_def snappy_ok_def)
  let ?len = "ucast (drop_bit 2 tag) :: u64"
  have len: "unat ?len < 64" using unat_u8_less[of tag] by (simp add: unat_drop_bit)
  have ex: "unat (?len - 59) \<le> 4" "unat (1 + (?len - 59)) = Suc (unat (?len - 59))" if "?len > 59"
    using that len by (auto simp: w2n unat_minus unat_plus)
  have v: "wp (snappy_load_le (src p) (src_pos p) (?len - 59) 0 0) (\<lambda>r. unat r < 2 ^ 32)"
    if "?len > 59" "\<not> 1 + (?len - 59) > src_size p - src_pos p"
  proof -
    have "(256::nat) ^ unat (?len - 59) \<le> 256 ^ 4" using ex that by (intro power_increasing) auto
    then show ?thesis using snappy_header(2,4)[OF core, of "1 + (?len - 59)"] ex that
      by (auto simp: w2n intro!: wp_mono[OF load_le_value])
  qed
  show ?thesis
    unfolding snappy_literal_def snappy_consts
    by (intro wp_intro wp_bindI[OF v] snappy_literal_body_contract live snappy_refuse_ok)
      (use ex len snappy_one_left[OF core lt] in \<open>auto simp: w2n\<close>)
qed

lemma snappy_copy_body_contract:
  assumes live: "snappy_live p" and n: "unat off < 2 ^ 32" "len \<noteq> 0"
    and p0: "core_adv p0 p" "unat (src_pos p0) < unat (src_pos p)" "dst_pos p0 = dst_pos p"
  shows "wp (snappy_copy_body off len p q) (snappy_step_ok p0)"
  unfolding snappy_copy_body_def snappy_refuse_def
  using live n p0 snappy_commit[OF live, of len]
  by (auto simp: wp_rules w2n snappy_step_ok_def snappy_live_def snappy_ok_def core_ok_def
      core_adv_def seq_ok_def empty_sequence_def unat_minus unat_gt_0[symmetric] simp del: unat_gt_0)


lemma snappy_copy_contract:
  assumes live: "snappy_live p" and lt: "\<not> src_pos p \<ge> src_size p"
  shows "wp (snappy_copy tag p q) (snappy_step_ok p)"
proof -
  have core: "core_ok p" using live by (simp add: snappy_live_def snappy_ok_def)
  let ?ob = "snappy_offset_bytes (tag AND 3)"
  have ob: "unat ?ob \<le> 4" "unat (1 + ?ob) = Suc (unat ?ob)"
    by (auto simp: snappy_offset_bytes_def snappy_consts)
  have v: "wp (snappy_load_le (src p) (src_pos p) ?ob 0 0) (\<lambda>r. unat r < 256 ^ unat ?ob)"
    if "\<not> 1 + ?ob > src_size p - src_pos p"
    using snappy_header(2,4)[OF core, of "1 + ?ob"] ob that
    by (auto simp: w2n intro!: wp_mono[OF load_le_value])
  have off: "unat r < 2 ^ 32" if "unat r < 256 ^ unat ?ob" for r :: u64
    using order_less_le_trans[OF that power_increasing[OF ob(1)]] by simp
  have off1: "unat (r OR push_bit 8 (ucast (drop_bit 5 tag))) < 2 ^ 32"
    if "unat r < 256 ^ unat ?ob" "tag AND 3 = 1" for r :: u64
    using that unat_u8_less[of "drop_bit 5 tag"] by (simp add: snappy_offset_bytes_def snappy_consts unat_or_push_byte)
  have len: "unat (4 + ucast (drop_bit 2 tag AND 7) :: u64) \<noteq> 0"
    "unat (ucast (drop_bit 2 tag) + 1 :: u64) \<noteq> 0"
    using unat_u8_less[of "drop_bit 2 tag AND 7"] unat_u8_less[of "drop_bit 2 tag"]
    by (simp_all add: unat_plus)
  have len': "4 + ucast (drop_bit 2 tag AND 7) \<noteq> (0::u64)" "ucast (drop_bit 2 tag) + 1 \<noteq> (0::u64)"
    using len by (metis unat_0)+
  show ?thesis
    unfolding snappy_copy_def snappy_consts
    by (intro wp_intro wp_bindI[OF v] snappy_copy_body_contract snappy_live_advance snappy_refuse_ok live)
      (use ob len' off off1 snappy_header[OF core, of "1 + ?ob"] in
        \<open>auto simp: core_adv_def w2n split: if_splits\<close>)
qed

lemma snappy_step_ok_from:
  "snappy_step_ok p r \<Longrightarrow> core_adv p0 p \<Longrightarrow> dst_pos p = dst_pos p0 \<Longrightarrow> snappy_step_ok p0 r"
  by (cases r) (auto simp: snappy_step_ok_def core_adv_def elim: seq_ok_from)

lemma snappy_terminal_ok:
  "snappy_live p \<Longrightarrow> src_pos p \<ge> src_size p \<Longrightarrow> dst_pos p = declared p \<Longrightarrow>
   snappy_step_ok p (CUDEC_OK, True, empty_sequence, p\<lparr>finished := True\<rparr>)"
  by (auto simp: snappy_step_ok_def snappy_live_def snappy_ok_def core_ok_def core_adv_def seq_ok_def
      empty_sequence_def w2n word_unat_eq_iff)

lemma snappy_element_contract: "snappy_live p \<Longrightarrow> wp (snappy_element p q) (snappy_step_ok p)"
  unfolding snappy_element_def
  by (intro wp_intro snappy_refuse_ok snappy_literal_contract snappy_copy_contract snappy_terminal_ok)
    (auto simp: snappy_live_def snappy_ok_def core_ok_rd)

lemma snappy_next_contract:
  assumes ok: "snappy_ok p"
  shows "wp (snappy_next p q) (snappy_step_ok p)"
proof (cases "finished p")
  case True
  then show ?thesis using ok
    by (simp add: snappy_next_def snappy_refuse_def wp_rules snappy_step_ok_def snappy_ok_def
      core_ok_def core_adv_def)
next
  case False
  have rest: "wp (if st \<noteq> CUDEC_OK then Some (st, False, q, p') else snappy_element p' q) (snappy_step_ok p)"
    if "snappy_ok p'" "core_adv p p'" "dst_pos p' = dst_pos p" "finished p' = finished p"
      "st = CUDEC_OK \<longleftrightarrow> begun p'"
      "st = CUDEC_ERR_OUTPUT_TOO_SMALL \<longrightarrow> unat (dst_capacity p) < unat (declared p')" for st p'
  proof (cases "st = CUDEC_OK")
    case True
    then have "wp (snappy_element p' q) (snappy_step_ok p')"
      using that False by (intro snappy_element_contract) (simp add: snappy_live_def)
    then show ?thesis using True that by (auto elim!: wp_mono intro: snappy_step_ok_from)
  next
    case False
    then show ?thesis using that by (simp add: wp_rules snappy_step_ok_def)
  qed
  show ?thesis unfolding snappy_next_def if_not_P[OF False]
    by (rule wp_bind2[OF snappy_begin_contract[OF ok]]) (elim conjE, rule rest)
qed

interpretation snappy: chunk_parser snappy_next snappy_ok
proof
  fix p :: snappy_parser and q
  assume ok: "snappy_ok p"
  then show "core_ok p" by (simp add: snappy_ok_def)
  show "wp (snappy_next p q) (\<lambda>(st, fin, q', p'). snappy_ok p' \<and> core_adv p p' \<and>
      (st = CUDEC_OK \<longrightarrow> seq_ok p q' p' \<and> (\<not> fin \<longrightarrow> unat (src_pos p) < unat (src_pos p'))))"
    by (rule wp_mono[OF snappy_next_contract[OF ok]]) (auto simp: snappy_step_ok_def)
qed

end
