(* ===== verification/Snappy_Roundtrip.thy ===== *)
theory Snappy_Roundtrip
  imports Snappy_Block
begin

text \<open>
  What a Snappy block means: the format an encoder writes, in every spelling of an element the
  format allows, and the decoder's answer on it.
\<close>

section \<open>The preamble\<close>

fun varint_enc :: "nat \<Rightarrow> u8 list" where
  "varint_enc m = (if m < 128 then [of_nat m] else of_nat (m mod 128 + 128) # varint_enc (m div 128))"

declare varint_enc.simps [simp del]

lemma varint_loop_enc:
  assumes "unat n \<le> length s" "drop (unat g) s = varint_enc m @ rest" "unat g + length (varint_enc m) \<le> unat n"
    and "unat g < 5" "unat acc < 128 ^ unat g" "m * 128 ^ unat g < 2 ^ 32"
  shows "\<exists>d k. snappy_varint_loop s n g acc = Some (CUDEC_OK, d, k, kSnappyRejectNone) \<and>
    unat d = unat acc + m * 128 ^ unat g \<and> unat k = unat g + length (varint_enc m)"
  using assms
proof (induction m arbitrary: g acc rule: varint_enc.induct)
  case (1 m)
  define b :: u8 where "b = (if m < 128 then of_nat m else of_nat (m mod 128 + 128))"
  define tl where "tl = (if m < 128 then [] else varint_enc (m div 128))"
  have enc: "varint_enc m = b # tl" by (simp add: b_def tl_def varint_enc.simps[of m])
  have wide: "unat (of_nat (m mod 128 + 128) :: u8) = m mod 128 + 128"
    by (rule unat_of_nat_less) (simp add: less_diff_conv[symmetric])
  have ub: "unat b = (if m < 128 then m else m mod 128 + 128)"
    unfolding b_def using wide by (auto simp del: of_nat_add intro!: unat_of_nat_less)
  have lt: "unat g < unat n" "unat g < length s" using "1.prems"(1,3) by (auto simp: enc)
  have sg: "s ! unat g = b" using "1.prems"(2) enc by (simp add: nth_via_drop)
  have rdok: "rd s g = Some b" using lt sg by (simp add: rd_def)
  let ?acc = "acc OR push_bit (7 * unat g) (ucast (b AND kSnappyVarintPayload))"
  note va = varint_acc[OF "1.prems"(4,5), of b]
  have suc: "unat (g + 1) = Suc (unat g)" using lt(1) by (rule unat_Suc_less)
  have five: "g + 1 = 5 \<longleftrightarrow> unat g = 4" using suc by (simp add: word_unat_eq_iff)
  have d': "drop (unat (g + 1)) s = tl @ rest"
    using "1.prems"(2) enc suc by (metis append_Cons drop_Suc list.sel(3) tl_drop)
  have go: "\<not> g \<ge> n" "g < 5" using lt "1.prems"(4) by (auto simp: w2n)
  show ?case
  proof (cases "m < 128")
    case True
    have "unat g = 4 \<Longrightarrow> m < 16" using "1.prems"(6) by simp
    then have nf: "\<not> (unat g = 4 \<and> 16 \<le> b)" using ub True by (auto simp: w2n)
    have c: "b AND 128 = 0" using varint_continue[of b] ub True by (simp add: kSnappyVarintContinue_def)
    show ?thesis
      using rdok go nf c va(1) ub True suc five tl_def enc
      by (subst snappy_varint_loop.simps) (simp add: snappy_consts Let_def)
  next
    case False
    have "unat g \<noteq> 4" using "1.prems"(6) False by auto
    then have nf: "\<not> (unat g = 4 \<and> 16 \<le> b)" and g5: "unat (g + 1) < 5" using suc "1.prems"(4) by auto
    have c: "b AND 128 \<noteq> 0" using varint_continue[of b] ub False by (simp add: kSnappyVarintContinue_def)
    have md: "m div 128 * 128 + m mod 128 = m" by simp
    have le: "m div 128 * 128 ^ unat (g + 1) \<le> m * 128 ^ unat g"
      unfolding suc by (simp add: mult.assoc[symmetric])
    have "\<exists>d k. snappy_varint_loop s n (g + 1) ?acc = Some (CUDEC_OK, d, k, kSnappyRejectNone) \<and>
        unat d = unat ?acc + m div 128 * 128 ^ unat (g + 1) \<and> unat k = unat (g + 1) + length (varint_enc (m div 128))"
    proof (rule "1.IH"[OF False "1.prems"(1)])
      show "drop (unat (g + 1)) s = varint_enc (m div 128) @ rest" using d' False by (simp add: tl_def)
      show "unat (g + 1) + length (varint_enc (m div 128)) \<le> unat n" using "1.prems"(3) enc False suc by (simp add: tl_def)
      show "unat ?acc < 128 ^ unat (g + 1)" using va suc by simp
      show "m div 128 * 128 ^ unat (g + 1) < 2 ^ 32" using le "1.prems"(6) by linarith
    qed (rule g5)
    moreover have "unat ?acc + m div 128 * 128 ^ unat (g + 1) = unat acc + m * 128 ^ unat g"
    proof -
      have "unat b mod 128 = m mod 128" using ub False by simp
      then have "unat ?acc + m div 128 * 128 ^ unat (g + 1) =
          unat acc + (m div 128 * 128 + m mod 128) * 128 ^ unat g"
        unfolding va(1) suc by (simp only: power_Suc algebra_simps)
      then show ?thesis by (simp only: md)
    qed
    moreover have "length (varint_enc m) = Suc (length (varint_enc (m div 128)))"
      using False enc by (simp add: tl_def)
    ultimately show ?thesis
      using rdok go nf c suc five
      by (subst snappy_varint_loop.simps) (auto simp: snappy_consts Let_def)
  qed
qed


lemma varint_enc_nonempty: "0 < length (varint_enc m)"
  by (subst varint_enc.simps) simp

lemma declared_length_enc:
  assumes "m < 2 ^ 32" "length (varint_enc m @ rest) < 2 ^ 64"
  shows "\<exists>d k. snappy_declared_length (varint_enc m @ rest) (of_nat (length (varint_enc m @ rest))) =
      Some (CUDEC_OK, d, k, kSnappyRejectNone) \<and> unat d = m \<and> unat k = length (varint_enc m)"
proof -
  have "unat (of_nat (length (varint_enc m @ rest)) :: u64) = length (varint_enc m @ rest)"
    using assms(2) by (intro unat_of_nat_less) simp
  then show ?thesis
    using varint_loop_enc[of "of_nat (length (varint_enc m @ rest))" "varint_enc m @ rest" 0 m rest 0] assms
    unfolding snappy_declared_length_def by simp
qed

section \<open>Elements\<close>

text \<open>
  A literal names its length inline (\<open>0\<close> length bytes) or in one to four bytes, minimal or
  not; a copy has one of the three offset widths.
\<close>

datatype snappy_item =
    SLiteral nat "u8 list"
  | SCopy1 nat nat
  | SCopy2 nat nat
  | SCopy4 nat nat

fun item_bytes :: "snappy_item \<Rightarrow> u8 list" where
  "item_bytes (SLiteral k bs) =
     (if k = 0 then of_nat (4 * (length bs - 1)) # bs
      else of_nat (4 * (59 + k)) # le_bytes k (length bs - 1) @ bs)"
| "item_bytes (SCopy1 off len) =
     [of_nat (32 * (off div 256) + 4 * (len - 4) + 1), of_nat (off mod 256)]"
| "item_bytes (SCopy2 off len) = of_nat (4 * (len - 1) + 2) # le_bytes 2 off"
| "item_bytes (SCopy4 off len) = of_nat (4 * (len - 1) + 3) # le_bytes 4 off"

fun item_ok :: "nat \<Rightarrow> snappy_item \<Rightarrow> bool" where
  "item_ok n (SLiteral k bs) \<longleftrightarrow> bs \<noteq> [] \<and> k \<le> 4 \<and> (if k = 0 then length bs \<le> 60 else length bs \<le> 256 ^ k)"
| "item_ok n (SCopy1 off len) \<longleftrightarrow> 4 \<le> len \<and> len \<le> 11 \<and> 0 < off \<and> off < 2048 \<and> off \<le> n"
| "item_ok n (SCopy2 off len) \<longleftrightarrow> 1 \<le> len \<and> len \<le> 64 \<and> 0 < off \<and> off < 65536 \<and> off \<le> n"
| "item_ok n (SCopy4 off len) \<longleftrightarrow> 1 \<le> len \<and> len \<le> 64 \<and> 0 < off \<and> off < 2 ^ 32 \<and> off \<le> n"

fun item_len :: "snappy_item \<Rightarrow> nat" where
  "item_len (SLiteral k bs) = length bs"
| "item_len (SCopy1 off len) = len"
| "item_len (SCopy2 off len) = len"
| "item_len (SCopy4 off len) = len"

fun item_apply :: "snappy_item \<Rightarrow> u8 list \<Rightarrow> u8 list" where
  "item_apply (SLiteral k bs) out = out @ bs"
| "item_apply (SCopy1 off len) out = lz_copy off len out"
| "item_apply (SCopy2 off len) out = lz_copy off len out"
| "item_apply (SCopy4 off len) out = lz_copy off len out"

definition items_bytes :: "snappy_item list \<Rightarrow> u8 list" where
  "items_bytes xs = concat (map item_bytes xs)"

definition items_len :: "snappy_item list \<Rightarrow> nat" where
  "items_len xs = sum_list (map item_len xs)"

definition items_apply :: "snappy_item list \<Rightarrow> u8 list \<Rightarrow> u8 list" where
  "items_apply xs out = fold item_apply xs out"

fun items_ok :: "nat \<Rightarrow> snappy_item list \<Rightarrow> bool" where
  "items_ok n [] \<longleftrightarrow> True"
| "items_ok n (x # xs) \<longleftrightarrow> item_ok n x \<and> items_ok (n + item_len x) xs"

definition snappy_encode :: "snappy_item list \<Rightarrow> u8 list" where
  "snappy_encode xs = varint_enc (items_len xs) @ items_bytes xs"

lemma load_le_at:
  assumes "at_src p (t # le_bytes k v @ rest)" "v < 256 ^ k" "unat n = k" "k \<le> 4"
  shows "\<exists>r. snappy_load_le (src p) (src_pos p) n 0 0 = Some r \<and> unat r = v"
proof -
  have e: "unat (src_pos p) + 1 + k + length rest = length (src p)" "length (src p) = unat (src_size p)"
    using at_src_end[OF assms(1)] assms(1) by (auto simp: at_src_def)
  have "drop (unat (src_pos p) + 1) (src p) = le_bytes k v @ rest"
    using assms(1) by (simp add: at_src_def) (metis drop_Suc list.sel(3) tl_drop)
  then have "take k (drop (unat (src_pos p) + 1) (src p)) = le_bytes k v" by simp
  then show ?thesis
    using load_le_value[of "src_pos p" n "src p"] e assms(2-4) unat_u64_less[of "src_size p"]
    by (auto simp: wp_iff le_nat_le_bytes)
qed


definition item_step :: "snappy_parser \<Rightarrow> u8 list \<Rightarrow> nat \<Rightarrow> (u8 list \<Rightarrow> u8 list) \<Rightarrow> snappy_step \<Rightarrow> bool" where
  "item_step p rest n f = (\<lambda>(st, fin, q, p'). st = CUDEC_OK \<and> \<not> fin \<and> at_src p' rest \<and> snappy_live p' \<and>
     declared p' = declared p \<and> unat (dst_pos p') = unat (dst_pos p) + n \<and>
     (\<forall>out. length out = unat (dst_pos p) \<longrightarrow> element_bytes (src p) q out = f out))"

lemma snappy_live_commit:
  assumes "snappy_live p" "unat (dst_pos p) + unat l \<le> unat (declared p)"
  shows "snappy_live (p\<lparr>dst_pos := dst_pos p + l\<rparr>)"
    and "unat (dst_pos p + l) = unat (dst_pos p) + unat l"
proof -
  show "unat (dst_pos p + l) = unat (dst_pos p) + unat l" by (rule unat_plus_le[OF assms(2)])
  then show "snappy_live (p\<lparr>dst_pos := dst_pos p + l\<rparr>)"
    using assms by (auto simp: snappy_live_def snappy_ok_def core_ok_def)
qed

lemma literal_body_step:
  assumes at: "at_src p (hdr @ bs @ rest)" and live: "snappy_live p" and h: "unat h = length hdr"
    and n: "unat n + 1 = length bs" and d: "unat (dst_pos p) + length bs \<le> unat (declared p)"
  shows "wp (snappy_literal_body n h p q) (item_step p rest (length bs) (\<lambda>out. out @ bs))"
proof -
  let ?p = "p\<lparr>src_pos := src_pos p + h\<rparr>"
  note at1 = at_src_advance(1)[OF at h]
  have un: "unat (n + 1) = length bs"
    using n d by (subst unat_plus_le[where c = "declared p"]) auto
  have fits: "\<not> n + 1 > src_size p - (src_pos p + h)" "\<not> n + 1 > declared p - dst_pos p"
    using un at_src_left[OF at1] declared_left[OF live] d by (auto simp: w2n)
  note at2 = at_src_advance(1)[OF at1 un]
  have live1: "snappy_live ?p" using live h at_src_left[OF at] by (intro snappy_live_advance) auto
  have live2: "snappy_live (?p\<lparr>src_pos := src_pos ?p + (n + 1)\<rparr>)"
    using un at_src_left[OF at1] by (intro snappy_live_advance[OF live1]) auto
  note live3 = snappy_live_commit[OF live2, of "n + 1"]
  have "take (length bs) (drop (unat (src_pos p + h)) (src p)) = bs"
    using at1 by (simp add: at_src_def)
  then show ?thesis
    using fits un live3 d at2
    by (auto simp: snappy_literal_body_def wp_rules Let_def item_step_def element_bytes_def
        empty_sequence_def at_src_def core_ok_def snappy_live_def snappy_ok_def)
qed

lemma copy_body_step:
  assumes at: "at_src p (hdr @ rest)" and live: "snappy_live p" and h: "unat h = length hdr"
    and off: "0 < unat off" "unat off \<le> unat (dst_pos p)" 
    and d: "unat (dst_pos p) + unat len \<le> unat (declared p)"
  shows "wp (snappy_copy_body off len (p\<lparr>src_pos := src_pos p + h\<rparr>) q)
    (item_step p rest (unat len) (lz_copy (unat off) (unat len)))"
proof -
  let ?p = "p\<lparr>src_pos := src_pos p + h\<rparr>"
  note at1 = at_src_advance(1)[OF at h]
  have live1: "snappy_live ?p" using live h at_src_left[OF at] by (intro snappy_live_advance) auto
  note live2 = snappy_live_commit[OF live1, of len]
  have fits: "off \<noteq> 0" "\<not> off > dst_pos p" "\<not> len > declared p - dst_pos p"
    using off d declared_left[OF live] by (auto simp: w2n)
  show ?thesis
    using fits live2 d at1
    by (auto simp: snappy_copy_body_def wp_rules item_step_def element_bytes_def
        empty_sequence_def at_src_def core_ok_def snappy_live_def snappy_ok_def)
qed


lemma tag_kind: "tag AND 3 = (k :: u8) \<longleftrightarrow> unat tag mod 4 = unat k"
  using unat_and_mask[of tag 2] by (simp add: word_unat_eq_iff mask_eq_exp_minus_1)

lemma item_step_literal:
  assumes at: "at_src p (item_bytes (SLiteral k bs) @ rest)" and live: "snappy_live p"
    and ok: "item_ok n (SLiteral k bs)" and d: "unat (dst_pos p) + length bs \<le> unat (declared p)"
  shows "wp (snappy_element p q) (item_step p rest (length bs) (\<lambda>out. out @ bs))"
proof -
  define tag :: u8 where "tag = of_nat (if k = 0 then 4 * (length bs - 1) else 4 * (59 + k))"
  have ut: "unat tag = (if k = 0 then 4 * (length bs - 1) else 4 * (59 + k))"
    unfolding tag_def using ok by (intro unat_of_nat_less) (auto split: if_splits)
  let ?len = "ucast (drop_bit 2 tag) :: u64"
  have ul: "unat ?len = (if k = 0 then length bs - 1 else 59 + k)"
    by (simp add: unat_drop_bit ut)
  have lenbs: "0 < length bs" using ok by simp
  define xs where "xs = (if k = 0 then [] else le_bytes k (length bs - 1))"
  have at': "at_src p (tag # xs @ bs @ rest)"
    using at by (auto simp: tag_def xs_def split: if_splits)
  have el: "snappy_element p q = snappy_literal tag p q"
    using at_src_rd[OF at'] at_src_ge[OF at'] tag_kind[of tag 0] ut
    by (simp add: snappy_element_def snappy_consts)
  have at2: "at_src p ((tag # xs) @ bs @ rest)" using at' by simp
  show ?thesis
  proof (cases "k = 0")
    case True
    then have "\<not> 59 < ?len" using ul ok by (auto simp: w2n)
    moreover have "wp (snappy_literal_body ?len 1 p q) (item_step p rest (length bs) (\<lambda>out. out @ bs))"
      using True ul lenbs d xs_def by (intro literal_body_step[OF at2 live]) auto
    ultimately show ?thesis by (simp add: el snappy_literal_def snappy_consts Let_def)
  next
    case False
    then have wide: "59 < ?len" "unat (?len - 59) = k" using ul ok by (auto simp: w2n unat_minus)
    then have h: "unat (1 + (?len - 59)) = Suc k" using ok by (subst unat_plus) auto
    have "at_src p (tag # le_bytes k (length bs - 1) @ bs @ rest)" using at' False by (simp add: xs_def)
    moreover have "length bs \<le> 256 ^ k" using ok False by simp
    then have "length bs - 1 < 256 ^ k" using lenbs by linarith
    ultimately obtain r where r: "snappy_load_le (src p) (src_pos p) (?len - 59) 0 0 = Some r" "unat r = length bs - 1"
      using load_le_at[of p tag k "length bs - 1" "bs @ rest" "?len - 59"] wide ok by auto
    have fits: "\<not> 1 + (?len - 59) > src_size p - src_pos p"
      using h at_src_left[OF at2] False by (simp add: w2n xs_def)
    have "wp (snappy_literal_body r (1 + (?len - 59)) p q) (item_step p rest (length bs) (\<lambda>out. out @ bs))"
      using r h False lenbs d by (intro literal_body_step[OF at2 live]) (auto simp: xs_def)
    then show ?thesis using r wide fits by (simp add: el snappy_literal_def snappy_consts Let_def)
  qed
qed


lemma element_is_copy:
  fixes tag :: u8
  defines "ob \<equiv> snappy_offset_bytes (tag AND 3)"
  assumes at: "at_src p (tag # le_bytes k v @ rest)" and k: "unat ob = k" and v: "v < 256 ^ k"
    and kind: "unat tag mod 4 \<noteq> 0"
  obtains r where "unat r = v" "unat (1 + ob) = Suc k" "k \<le> 4"
    "snappy_element p q = snappy_copy_body
       (if unat tag mod 4 = 1 then r OR push_bit 8 (ucast (drop_bit 5 tag)) else r)
       (if unat tag mod 4 = 1 then 4 + ucast (drop_bit 2 tag AND 7) else ucast (drop_bit 2 tag) + 1)
       (p\<lparr>src_pos := src_pos p + (1 + ob)\<rparr>) q"
proof -
  have k4: "k \<le> 4" "unat (1 + ob) = Suc k"
    using k by (auto simp: ob_def snappy_offset_bytes_def snappy_consts split: if_splits)
  obtain r where r: "snappy_load_le (src p) (src_pos p) ob 0 0 = Some r" "unat r = v"
    using load_le_at[OF at v k k4(1)] by auto
  have "\<not> 1 + ob > src_size p - src_pos p" using k4 at_src_left[OF at] by (simp add: w2n)
  moreover have "tag AND 3 \<noteq> 0" "tag AND 3 = 1 \<longleftrightarrow> unat tag mod 4 = 1"
    using kind tag_kind[of tag] by auto
  ultimately have "snappy_element p q = snappy_copy_body
       (if unat tag mod 4 = 1 then r OR push_bit 8 (ucast (drop_bit 5 tag)) else r)
       (if unat tag mod 4 = 1 then 4 + ucast (drop_bit 2 tag AND 7) else ucast (drop_bit 2 tag) + 1)
       (p\<lparr>src_pos := src_pos p + (1 + ob)\<rparr>) q"
    using at_src_rd[OF at] at_src_ge[OF at] r(1) unfolding ob_def
    by (simp add: snappy_element_def snappy_copy_def snappy_consts Let_def)
  then show thesis using that r k4 by blast
qed

lemma item_step_copy:
  assumes at: "at_src p (tag # le_bytes k v @ rest)" and live: "snappy_live p"
    and kind: "unat tag mod 4 \<noteq> 0" "unat (snappy_offset_bytes (tag AND 3)) = k" "v < 256 ^ k"
    and off: "off = (if unat tag mod 4 = 1 then v + unat tag div 32 * 256 else v)" "0 < off" "off \<le> unat (dst_pos p)"
    and len: "len = (if unat tag mod 4 = 1 then 4 + unat tag div 4 mod 8 else unat tag div 4 + 1)"
    and d: "unat (dst_pos p) + len \<le> unat (declared p)"
  shows "wp (snappy_element p q) (item_step p rest len (lz_copy off len))"
proof -
  obtain r where r: "unat r = v" "unat (1 + snappy_offset_bytes (tag AND 3)) = Suc k" "k \<le> 4"
    and e: "snappy_element p q = snappy_copy_body
       (if unat tag mod 4 = 1 then r OR push_bit 8 (ucast (drop_bit 5 tag)) else r)
       (if unat tag mod 4 = 1 then 4 + ucast (drop_bit 2 tag AND 7) else ucast (drop_bit 2 tag) + 1)
       (p\<lparr>src_pos := src_pos p + (1 + snappy_offset_bytes (tag AND 3))\<rparr>) q"
    (is "_ = snappy_copy_body ?off ?len _ _")
    using element_is_copy[OF at kind(2,3,1)] by metis
  have k1: "unat tag mod 4 = 1 \<Longrightarrow> v < 2 ^ 8"
  proof -
    assume "unat tag mod 4 = 1"
    then have "k = 1" using kind(2) by (simp add: tag_kind snappy_offset_bytes_def snappy_consts)
    then show "v < 2 ^ 8" using kind(3) by simp
  qed
  have uo: "unat ?off = off"
    using r(1) off(1) k1 by (simp add: unat_or_push_byte unat_drop_bit)
  have m7: "unat (drop_bit 2 tag AND 7) = unat tag div 4 mod 8"
    using unat_and_mask[of "drop_bit 2 tag" 3] by (simp add: mask_eq_exp_minus_1 unat_drop_bit)
  have "unat (4 + ucast (drop_bit 2 tag AND 7) :: u64) = 4 + unat tag div 4 mod 8"
    by (subst unat_plus) (simp_all add: m7)
  moreover have "unat (ucast (drop_bit 2 tag) + 1 :: u64) = unat tag div 4 + 1"
    using unat_u8_less[of tag] by (subst unat_plus) (simp_all add: unat_drop_bit)
  ultimately have ul: "unat ?len = len" using len by simp
  have at': "at_src p ((tag # le_bytes k v) @ rest)" using at by simp
  show ?thesis
    unfolding e using copy_body_step[OF at' live, of "1 + snappy_offset_bytes (tag AND 3)" ?off ?len q] r uo ul off d
    by simp
qed

lemma copy1_tag:
  assumes "b < (8::nat)"
  shows "(32 * a + 4 * b + 1) mod 4 = 1" "(32 * a + 4 * b + 1) div 32 = a"
    "(32 * a + 4 * b + 1) div 4 mod 8 = b"
proof -
  show "(32 * a + 4 * b + 1) mod 4 = 1" by presburger
  have "32 * a + 4 * b + 1 = 32 * a + (4 * b + 1)" "4 * b + 1 < 32" using assms by auto
  then show "(32 * a + 4 * b + 1) div 32 = a" by simp
  have "32 * a + 4 * b + 1 = 4 * (8 * a + b) + 1" by simp
  then have "(32 * a + 4 * b + 1) div 4 = 8 * a + b" by simp
  then show "(32 * a + 4 * b + 1) div 4 mod 8 = b" using assms by simp
qed

lemma copy_tag:
  "(4 * (b::nat) + 2) mod 4 = 2" "(4 * b + 2) div 4 = b" "(4 * b + 3) mod 4 = 3" "(4 * b + 3) div 4 = b"
  by presburger+

lemma item_step_ok:
  assumes at: "at_src p (item_bytes x @ rest)" and live: "snappy_live p"
    and ok: "item_ok (unat (dst_pos p)) x" and d: "unat (dst_pos p) + item_len x \<le> unat (declared p)"
  shows "wp (snappy_element p q) (item_step p rest (item_len x) (item_apply x))"
proof (cases x)
  case (SLiteral k bs)
  then have "item_apply x = (\<lambda>out. out @ bs)" by (simp add: fun_eq_iff)
  then show ?thesis using SLiteral item_step_literal[of p k bs rest] assms by simp
next
  case (SCopy1 off len)
  define t :: u8 where "t = of_nat (32 * (off div 256) + 4 * (len - 4) + 1)"
  have r: "off div 256 < 8" "len - 4 < 8" "4 \<le> len" using ok SCopy1 by auto
  have t: "unat t = 32 * (off div 256) + 4 * (len - 4) + 1"
    using r unfolding t_def by (intro unat_of_nat_less) simp
  have m: "unat t mod 4 = 1" "unat t div 32 = off div 256" "unat t div 4 mod 8 = len - 4"
    unfolding t using copy1_tag r by blast+
  have "unat (snappy_offset_bytes (t AND 3)) = 1"
    using m(1) by (simp add: tag_kind snappy_offset_bytes_def snappy_consts)
  moreover have "at_src p (t # le_bytes 1 (off mod 256) @ rest)" using at SCopy1 by (simp add: t_def)
  moreover have "item_apply x = lz_copy off len" using SCopy1 by (simp add: fun_eq_iff)
  ultimately show ?thesis
    using item_step_copy[of p t 1 "off mod 256" rest off len q] live m r ok d SCopy1
    by simp
next
  case (SCopy2 off len)
  define t :: u8 where "t = of_nat (4 * (len - 1) + 2)"
  have r: "len - 1 < 64" "1 \<le> len" using ok SCopy2 by auto
  have t: "unat t = 4 * (len - 1) + 2" using r unfolding t_def by (intro unat_of_nat_less) simp
  have m: "unat t mod 4 = 2" "unat t div 4 = len - 1" unfolding t by (rule copy_tag)+
  have "unat (snappy_offset_bytes (t AND 3)) = 2"
    using m(1) by (simp add: tag_kind snappy_offset_bytes_def snappy_consts)
  moreover have "at_src p (t # le_bytes 2 off @ rest)" using at SCopy2 by (simp add: t_def)
  moreover have "item_apply x = lz_copy off len" using SCopy2 by (simp add: fun_eq_iff)
  ultimately show ?thesis
    using item_step_copy[of p t 2 off rest off len q] live m r ok d SCopy2
    by simp
next
  case (SCopy4 off len)
  define t :: u8 where "t = of_nat (4 * (len - 1) + 3)"
  have r: "len - 1 < 64" "1 \<le> len" using ok SCopy4 by auto
  have t: "unat t = 4 * (len - 1) + 3" using r unfolding t_def by (intro unat_of_nat_less) simp
  have m: "unat t mod 4 = 3" "unat t div 4 = len - 1" unfolding t by (rule copy_tag)+
  have "unat (snappy_offset_bytes (t AND 3)) = 4"
    using m(1) by (simp add: tag_kind snappy_offset_bytes_def snappy_consts)
  moreover have "at_src p (t # le_bytes 4 off @ rest)" using at SCopy4 by (simp add: t_def)
  moreover have "item_apply x = lz_copy off len" using SCopy4 by (simp add: fun_eq_iff)
  ultimately show ?thesis
    using item_step_copy[of p t 4 off rest off len q] live m r ok d SCopy4
    by simp
qed


section \<open>Blocks\<close>

lemma snappy_next_live: "snappy_live p \<Longrightarrow> snappy_next p q = snappy_element p q"
  by (simp add: snappy_live_def snappy_next_def snappy_begin_def)

lemma snappy_decodes_items:
  assumes "at_src p (items_bytes xs)" "snappy_live p" "items_ok (unat (dst_pos p)) xs"
    and "unat (declared p) = unat (dst_pos p) + items_len xs" "length out = unat (dst_pos p)"
  shows "decodes snappy_next p q out (items_apply xs out)"
  using assms
proof (induction xs arbitrary: p q out)
  case Nil
  then have "src_pos p \<ge> src_size p" "dst_pos p = declared p"
    using at_src_ge[of p] by (auto simp: items_bytes_def items_len_def word_unat_eq_iff)
  then have "snappy_next p q = Some (CUDEC_OK, True, empty_sequence, p\<lparr>finished := True\<rparr>)"
    using Nil(2) by (simp add: snappy_next_live snappy_element_def)
  then show ?case
    using decodes.last[of snappy_next p q empty_sequence _ out]
    by (simp add: items_apply_def element_bytes_def empty_sequence_def)
next
  case (Cons x xs)
  have "at_src p (item_bytes x @ items_bytes xs)" using Cons.prems(1) by (simp add: items_bytes_def)
  moreover have "unat (dst_pos p) + item_len x \<le> unat (declared p)" "item_ok (unat (dst_pos p)) x"
    using Cons.prems by (simp_all add: items_len_def)
  ultimately have "wp (snappy_element p q) (item_step p (items_bytes xs) (item_len x) (item_apply x))"
    using Cons.prems(2) by (intro item_step_ok)
  then obtain q' p' where e: "snappy_next p q = Some (CUDEC_OK, False, q', p')"
    and p': "at_src p' (items_bytes xs)" "snappy_live p'" "declared p' = declared p"
      "unat (dst_pos p') = unat (dst_pos p) + item_len x"
      "element_bytes (src p) q' out = item_apply x out"
    using Cons.prems(2,5) by (auto simp: wp_iff item_step_def snappy_next_live)
  have "length (item_apply x out) = unat (dst_pos p')" using p' Cons.prems(5) by (cases x) auto
  then have "decodes snappy_next p' q' (item_apply x out) (items_apply xs (item_apply x out))"
    using Cons.prems p' by (intro Cons.IH) (auto simp: items_len_def)
  then show ?case
    using decodes.step[of snappy_next p q q' p' out] e p' by (simp add: items_apply_def)
qed

lemma length_items_apply: "length (items_apply xs out) = length out + items_len xs"
proof (induction xs arbitrary: out)
  case (Cons x xs)
  then show ?case by (cases x) (simp_all add: items_apply_def items_len_def)
qed (simp add: items_apply_def items_len_def)

lemma snappy_decodes_encode:
  assumes "items_ok 0 xs" "items_len xs < 2 ^ 32" "length (snappy_encode xs) < 2 ^ 64"
    and "items_len xs \<le> unat cap"
  shows "decodes snappy_next (snappy_parser_init (snappy_encode xs) (of_nat (length (snappy_encode xs))) cap) q []
    (items_apply xs [])"
proof -
  let ?s = "snappy_encode xs" and ?v = "varint_enc (items_len xs)"
  let ?n = "of_nat (length ?s) :: u64"
  let ?p = "snappy_parser_init ?s ?n cap"
  have n: "unat ?n = length ?s" using assms(3) by (intro unat_of_nat_less) simp
  obtain d k where dl: "snappy_declared_length ?s ?n = Some (CUDEC_OK, d, k, kSnappyRejectNone)"
    and d: "unat d = items_len xs" "unat k = length ?v"
    using declared_length_enc[OF assms(2), of "items_bytes xs"] assms(3) by (auto simp: snappy_encode_def)
  let ?p1 = "?p\<lparr>declared := d, src_pos := k, begun := True\<rparr>"
  have b: "snappy_begin ?p = Some (CUDEC_OK, ?p1)"
    using dl d assms(4) by (simp add: snappy_begin_def snappy_parser_init_def w2n)
  have live: "snappy_live ?p1" and at: "at_src ?p1 (items_bytes xs)"
    using d n assms(4) by (auto simp: snappy_live_def snappy_ok_def core_ok_def at_src_def snappy_parser_init_def snappy_encode_def)
  have "decodes snappy_next ?p1 q [] (items_apply xs [])"
    using live at d assms(1) by (intro snappy_decodes_items) (auto simp: snappy_parser_init_def)
  moreover have "snappy_next ?p q = snappy_next ?p1 q"
    unfolding snappy_next_live[OF live] by (simp add: snappy_next_def b) (simp add: snappy_parser_init_def)
  moreover have "src ?p1 = src ?p" by simp
  ultimately show ?thesis by (simp only: decodes_simps[of _ ?p] decodes_simps[of _ ?p1])
qed

lemma snappy_chunk_encode:
  assumes v: "items_ok 0 xs" "items_len xs < 2 ^ 32" "length (snappy_encode xs) < 2 ^ 64"
    and cap: "items_len xs \<le> unat cap" "unat cap \<le> length d" and sched: "permutes_all sched"
  shows "wp (decode_chunk snappy_next dst_pos sched (snappy_encode xs) (of_nat (length (snappy_encode xs)))
      (snappy_parser_init (snappy_encode xs) (of_nat (length (snappy_encode xs))) cap) d)
    (\<lambda>(r, d'). chunk_status r = CUDEC_OK \<and> unat (bytes_written r) = items_len xs \<and>
       length d' = length d \<and> take (items_len xs) d' = items_apply xs [] \<and>
       drop (unat cap) d' = drop (unat cap) d)"
proof -
  let ?s = "snappy_encode xs"
  let ?p = "snappy_parser_init ?s (of_nat (length ?s)) cap"
  have "unat (of_nat (length ?s) :: u64) = length ?s" using v(3) by (intro unat_of_nat_less) simp
  then have "snappy_ok ?p" by (simp add: snappy_ok_def core_ok_def snappy_parser_init_def)
  then show ?thesis
    using snappy.decode_chunk_decodes[OF _ sched _ _ snappy_decodes_encode[OF v cap(1)], of d] cap
    by (simp add: snappy_parser_init_def length_items_apply)
qed

end
