(* ===== verification/Batch.thy ===== *)
theory Batch
  imports Lz4_Block Snappy_Block
begin

text \<open>
  A batch submission (\<open>src/batch.cu\<close>, \<open>src/batch_limits.h\<close>) and the part of
  the chunk kernel that maps chunks to waves (\<open>src/chunk_decode.cuh\<close>). The device runtime is
  not under the source tree: the width query and the post-launch error are arguments of the
  submission. The grid arithmetic is on naturals, except the thread index, which the kernel
  computes in 32 bits. A batch is the chunks' buffers as separate lists and a list of results;
  the waves take their chunks in any order.
\<close>

section \<open>Limits and validation\<close>

definition kWarpSize :: nat where "kWarpSize = 32"
definition kAbiChunkLimitWaveSize :: u64 where "kAbiChunkLimitWaveSize = 32"
definition kMaxBatchChunks :: u64 where "kMaxBatchChunks = 2147483647 * kAbiChunkLimitWaveSize"
definition kWaveWidth32 :: int where "kWaveWidth32 = 32"
definition kWaveWidth64 :: int where "kWaveWidth64 = 64"
definition kBlockWarps :: u64 where "kBlockWarps = 4"

lemmas batch_consts = kWarpSize_def kAbiChunkLimitWaveSize_def kMaxBatchChunks_def
  kWaveWidth32_def kWaveWidth64_def kBlockWarps_def

datatype wave_instantiation = kUnsupported | kWave32 | kWave64

definition select_wave_instantiation :: "int \<Rightarrow> wave_instantiation" where
  "select_wave_instantiation reported_width =
     (if reported_width = kWaveWidth32 then kWave32
      else if reported_width = kWaveWidth64 then kWave64
      else kUnsupported)"

definition decode_grid_blocks :: "u64 \<Rightarrow> u32" where
  "decode_grid_blocks chunk_count =
     (let kMaxBlocks = 8192; blocks = (chunk_count + kBlockWarps - 1) div kBlockWarps
      in ucast (if blocks > kMaxBlocks then kMaxBlocks else blocks))"

definition block_threads_for :: "int \<Rightarrow> u32" where
  "block_threads_for wave_size = of_int wave_size * ucast kBlockWarps"

text \<open>The six pointer arguments: whether each is null, and the address of the results.\<close>

record batch_args =
  null_src :: bool
  null_sizes :: bool
  null_dst :: bool
  null_caps :: bool
  null_results :: bool
  results_addr :: u64
  arg_chunk_count :: u64

definition validate_batch_args :: "batch_args \<Rightarrow> cudec_status" where
  "validate_batch_args a =
     (if null_src a \<or> null_sizes a \<or> null_dst a \<or> null_caps a \<or> null_results a \<or>
         results_addr a mod 16 \<noteq> 0 \<or> arg_chunk_count a = 0 \<or> arg_chunk_count a > kMaxBatchChunks
      then CUDEC_ERR_INVALID_ARGUMENT else CUDEC_OK)"

text \<open>
  The launch a submission makes: the width it was instantiated at, the grid and the block. The
  runtime is \<open>width_query\<close>, the reported width or nothing when the query fails, and
  \<open>post_launch\<close>, whether the launch left no error.
\<close>

record launch_shape =
  launch_width :: int
  launch_grid :: u32
  launch_block :: u32

definition chunk_launch :: "u64 \<Rightarrow> int \<Rightarrow> launch_shape" where
  "chunk_launch chunk_count wave_size = \<lparr>launch_width = wave_size,
     launch_grid = decode_grid_blocks chunk_count, launch_block = block_threads_for wave_size\<rparr>"

definition kZstdBlockThreads :: u32 where "kZstdBlockThreads = 128"

definition zstd_grid_blocks :: "u64 \<Rightarrow> u32" where
  "zstd_grid_blocks chunk_count =
     (let kMaxBlocks = 8192; blocks = (if chunk_count = 0 then 1 else chunk_count)
      in ucast (if blocks > kMaxBlocks then kMaxBlocks else blocks))"

definition zstd_launch :: "u64 \<Rightarrow> int \<Rightarrow> launch_shape" where
  "zstd_launch chunk_count wave_size = \<lparr>launch_width = wave_size,
     launch_grid = zstd_grid_blocks chunk_count, launch_block = kZstdBlockThreads\<rparr>"

definition submit_batch :: "(u64 \<Rightarrow> int \<Rightarrow> launch_shape) \<Rightarrow> batch_args \<Rightarrow> int option \<Rightarrow> bool \<Rightarrow>
    cudec_status \<times> launch_shape option" where
  "submit_batch launch a width_query post_launch =
     (let valid = validate_batch_args a in
      if valid \<noteq> CUDEC_OK then (valid, None)
      else case width_query of
        None \<Rightarrow> (CUDEC_ERR_CUDA, None)
      | Some reported_width \<Rightarrow>
          (case select_wave_instantiation reported_width of
             kWave32 \<Rightarrow> (if post_launch then CUDEC_OK else CUDEC_ERR_CUDA,
                        Some (launch (arg_chunk_count a) kWaveWidth32))
           | kWave64 \<Rightarrow> (if post_launch then CUDEC_OK else CUDEC_ERR_CUDA,
                        Some (launch (arg_chunk_count a) kWaveWidth64))
           | kUnsupported \<Rightarrow> (CUDEC_ERR_UNSUPPORTED, None)))"

section \<open>Which thread decodes which chunk\<close>

text \<open>A thread's chunks: the guard on the geometry, then the stride of the grid in waves.\<close>

definition kernel_chunks :: "nat \<Rightarrow> nat \<Rightarrow> nat \<Rightarrow> nat \<Rightarrow> nat \<Rightarrow> nat \<Rightarrow> nat list" where
  "kernel_chunks wave grid_dim block_dim chunk_count block thread =
     (let warp_in_grid = unat (of_nat block * of_nat block_dim + of_nat thread :: u32) div wave;
          total_warps = grid_dim * block_dim div wave
      in if total_warps = 0 \<or> block_dim mod wave \<noteq> 0 then []
         else lane_loop total_warps warp_in_grid chunk_count)"

definition kernel_lane :: "nat \<Rightarrow> nat \<Rightarrow> nat" where
  "kernel_lane wave thread = thread mod wave"

text \<open>One wave's work on its chunk: the parser is built over the chunk's arguments, the result stored.\<close>

fun run_chunks ::
  "('p \<Rightarrow> decode_sequence \<Rightarrow> (cudec_status \<times> bool \<times> decode_sequence \<times> 'p) option) \<Rightarrow> ('p \<Rightarrow> u64) \<Rightarrow>
   (u8 list \<Rightarrow> u64 \<Rightarrow> u64 \<Rightarrow> 'p) \<Rightarrow> (nat \<Rightarrow> nat list) \<Rightarrow> u8 list list \<Rightarrow> u64 list \<Rightarrow> u64 list \<Rightarrow>
   nat list \<Rightarrow> u8 list list \<times> chunk_result list \<Rightarrow> (u8 list list \<times> chunk_result list) option" where
  "run_chunks nxt out_pos mk sched srcs sizes caps [] st = Some st"
| "run_chunks nxt out_pos mk sched srcs sizes caps (chunk # rest) (dsts, results) = do {
     s \<leftarrow> at srcs chunk; n \<leftarrow> at sizes chunk; cap \<leftarrow> at caps chunk; d \<leftarrow> at dsts chunk;
     (r, d) \<leftarrow> decode_chunk nxt out_pos sched s n (mk s n cap) d;
     dsts \<leftarrow> put dsts chunk d;
     results \<leftarrow> put results chunk r;
     run_chunks nxt out_pos mk sched srcs sizes caps rest (dsts, results)
   }"

section \<open>Every chunk is decoded by one whole wave\<close>

lemma lane_loop_mem:
  assumes "0 < w" "i < w"
  shows "c \<in> set (lane_loop w i n) \<longleftrightarrow> c < n \<and> i = c mod w"
  using assms mod_less_eq_dividend[of c w] by (auto simp: lane_loop_set)

lemma kernel_covers:
  assumes geo: "0 < wave" "block_dim mod wave = 0" "0 < block_dim" "0 < grid_dim" "grid_dim * block_dim \<le> 2 ^ 32"
    and c: "c < n" "l < wave"
  shows "\<exists>!(b, t). b < grid_dim \<and> t < block_dim \<and> kernel_lane wave t = l \<and>
     c \<in> set (kernel_chunks wave grid_dim block_dim n b t)"
proof -
  obtain k where k: "block_dim = wave * k" using geo(2) by (metis mult_div_mod_eq add.right_neutral)
  have k0: "0 < k" using k geo(3) by (cases k) auto
  let ?total = "grid_dim * k"
  have total: "grid_dim * block_dim div wave = ?total" using k geo(1) by simp
  have t0: "0 < ?total" using geo(4) k0 by simp
  have idx: "unat (of_nat b * of_nat block_dim + of_nat t :: u32) = b * block_dim + t"
    if "b < grid_dim" "t < block_dim" for b t
  proof -
    have "Suc b * block_dim \<le> grid_dim * block_dim" using that by (intro mult_right_mono) auto
    then have "b * block_dim + t < 2 ^ LENGTH(32)" using that geo(5) by simp
    then have "unat (of_nat (b * block_dim + t) :: u32) = b * block_dim + t" by (rule unat_of_nat_less)
    then show ?thesis by simp
  qed
  have warp: "(b * block_dim + t) div wave = b * k + t div wave" for b t
    using geo(1) by (simp add: k div_mult_self3 mult.left_commute[of b])
  have tk: "t div wave < k" if "t < block_dim" for t
    using that geo(1) by (simp add: k div_less_iff_less_mult mult.commute)
  have wt: "b * k + t div wave < ?total" if "b < grid_dim" "t < block_dim" for b t
  proof -
    have "Suc b * k \<le> ?total" using that by (intro mult_right_mono) auto
    then show ?thesis using tk[OF that(2)] by simp
  qed
  have mem: "c \<in> set (kernel_chunks wave grid_dim block_dim n b t) \<longleftrightarrow> b * k + t div wave = c mod ?total"
    if "b < grid_dim" "t < block_dim" for b t
    using that c(1) geo(2) t0 lane_loop_mem[OF t0 wt[OF that], of c n]
    by (auto simp: kernel_chunks_def Let_def idx warp total)
  let ?w = "c mod ?total"
  have w: "?w < ?total" using t0 by simp
  show ?thesis
  proof (rule ex1I[of _ "(?w div k, (?w mod k) * wave + l)"], clarify)
    have b: "?w div k < grid_dim" using w k0 by (simp add: div_less_iff_less_mult)
    have "?w mod k < k" using k0 by simp
    then have "Suc (?w mod k) * wave \<le> k * wave" by (intro mult_right_mono) auto
    then have t: "(?w mod k) * wave + l < block_dim" using c(2) by (simp add: k mult.commute)
    have "((?w mod k) * wave + l) div wave = ?w mod k" using c(2) geo(1) by simp
    then show "?w div k < grid_dim \<and> (?w mod k) * wave + l < block_dim \<and>
        kernel_lane wave ((?w mod k) * wave + l) = l \<and>
        c \<in> set (kernel_chunks wave grid_dim block_dim n (?w div k) ((?w mod k) * wave + l))"
      using b t c(2) by (simp add: mem[OF b t] kernel_lane_def)
  next
    fix x assume "case x of (b, t) \<Rightarrow> b < grid_dim \<and> t < block_dim \<and> kernel_lane wave t = l \<and>
        c \<in> set (kernel_chunks wave grid_dim block_dim n b t)"
    then obtain b t where x: "x = (b, t)" "b < grid_dim" "t < block_dim" "t mod wave = l" "b * k + t div wave = ?w"
      by (cases x) (auto simp: mem kernel_lane_def)
    have "?w div k = b" "?w mod k = t div wave" using tk[OF x(3)] k0 by (simp_all flip: x(5))
    then show "x = (?w div k, (?w mod k) * wave + l)" using x(1,4) div_mult_mod_eq[of t wave] by simp
  qed
qed

section \<open>The chunks do not see each other\<close>

lemma run_chunks_independent:
  assumes "distinct cs" "\<forall>c\<in>set cs. c < length srcs \<and> c < length sizes \<and> c < length caps \<and> c < length dsts \<and> c < length results"
    and "\<forall>c\<in>set cs. decode_chunk nxt out_pos sched (srcs ! c) (sizes ! c) (mk (srcs ! c) (sizes ! c) (caps ! c)) (dsts ! c) =
      Some (res c, out c)"
  shows "run_chunks nxt out_pos mk sched srcs sizes caps cs (dsts, results) =
    Some (map (\<lambda>c. if c \<in> set cs then out c else dsts ! c) [0..<length dsts],
          map (\<lambda>c. if c \<in> set cs then res c else results ! c) [0..<length results])"
  using assms
proof (induction cs arbitrary: dsts results)
  case Nil
  then show ?case by (simp add: map_nth)
next
  case (Cons c cs)
  have "run_chunks nxt out_pos mk sched srcs sizes caps (c # cs) (dsts, results) =
      run_chunks nxt out_pos mk sched srcs sizes caps cs (dsts[c := out c], results[c := res c])"
    using Cons.prems by (simp add: at_def)
  also have "\<dots> = Some (map (\<lambda>i. if i \<in> set cs then out i else dsts[c := out c] ! i) [0..<length dsts],
      map (\<lambda>i. if i \<in> set cs then res i else results[c := res c] ! i) [0..<length results])"
    using Cons.prems Cons.IH[of "dsts[c := out c]" "results[c := res c]"] by (auto simp: nth_list_update)
  also have "\<dots> = Some (map (\<lambda>i. if i \<in> set (c # cs) then out i else dsts ! i) [0..<length dsts],
      map (\<lambda>i. if i \<in> set (c # cs) then res i else results ! i) [0..<length results])"
    by (auto simp: nth_list_update)
  finally show ?case .
qed


section \<open>What is launched\<close>

lemma grid_blocks:
  assumes "n \<noteq> 0" "n \<le> kMaxBatchChunks"
  shows "0 < unat (decode_grid_blocks n)" "unat (decode_grid_blocks n) \<le> 8192"
proof -
  have n: "0 < unat n" "unat n \<le> 2147483647 * 32"
    using assms by (auto simp: unat_gt_0 w2n batch_consts)
  have "unat (n + kBlockWarps - 1) = unat n + 3"
    using n unat_plus[of n 3] by (simp add: batch_consts add_diff_eq[symmetric])
  then have q: "unat ((n + kBlockWarps - 1) div kBlockWarps) = (unat n + 3) div 4"
    by (simp add: unat_div batch_consts)
  let ?b = "(n + kBlockWarps - 1) div kBlockWarps"
  have "unat (if ?b > 8192 then 8192 else ?b) = min 8192 ((unat n + 3) div 4)"
    using q by (auto simp: w2n min_def)
  then have "unat (decode_grid_blocks n) = min 8192 ((unat n + 3) div 4)"
    unfolding decode_grid_blocks_def Let_def by (simp add: unsigned_ucast_eq take_bit_nat_eq_self)
  then show "0 < unat (decode_grid_blocks n)" "unat (decode_grid_blocks n) \<le> 8192"
    using n by auto
qed

lemma chunk_launch_geometry:
  assumes "n \<noteq> 0" "n \<le> kMaxBatchChunks" "w \<in> {32, 64}"
  shows "unat (launch_block (chunk_launch n w)) = 4 * nat w"
    "0 < unat (launch_grid (chunk_launch n w))"
    "unat (launch_grid (chunk_launch n w)) * unat (launch_block (chunk_launch n w)) \<le> 2 ^ 32"
proof -
  show b: "unat (launch_block (chunk_launch n w)) = 4 * nat w"
    using assms(3) by (auto simp: chunk_launch_def block_threads_for_def batch_consts)
  show "0 < unat (launch_grid (chunk_launch n w))"
    using grid_blocks[OF assms(1,2)] by (simp add: chunk_launch_def)
  have "unat (launch_grid (chunk_launch n w)) * unat (launch_block (chunk_launch n w)) \<le> 8192 * 256"
    using grid_blocks[OF assms(1,2)] assms(3) unfolding b by (intro mult_mono) (auto simp: chunk_launch_def)
  then show "unat (launch_grid (chunk_launch n w)) * unat (launch_block (chunk_launch n w)) \<le> 2 ^ 32" by simp
qed

end
