(* ===== verification/Chunk_Properties.thy ===== *)
theory Chunk_Properties
  imports Lz4_Roundtrip Snappy_Roundtrip Batch
begin

text \<open>
  What the byte-oriented codecs promise together with the chunk decoder that runs them: any
  interleaving of the lanes gives the sequential answer, memory safety and progress of each
  element, and the round trips.
\<close>

section \<open>The chunk decoder\<close>

text \<open>C1: the chunk kernel on an LZ4 block, whatever the interleaving of the lanes, reports success
  exactly when the sequential semantics of the block produces an output; the output is then that
  one, its length is the reported size, and nothing past the capacity is written.\<close>

theorem lz4_chunk_refines:
  assumes "unat n \<le> length s" "unat cap \<le> length d" "0 < wave" "wave_schedule wave sched"
  shows "wp (decode_chunk lz4_next dst_pos sched s n (lz4_parser_init s n cap) d) (\<lambda>(r, d').
     length d' = length d \<and> drop (unat cap) d' = drop (unat cap) d \<and>
     unat (bytes_written r) \<le> unat cap \<and>
     (chunk_status r = CUDEC_OK \<longleftrightarrow> (\<exists>out. decodes lz4_next (lz4_parser_init s n cap) empty_sequence [] out)) \<and>
     (chunk_status r = CUDEC_OK \<longrightarrow>
        decodes lz4_next (lz4_parser_init s n cap) empty_sequence [] (take (unat (bytes_written r)) d')) \<and>
     (chunk_status r \<noteq> CUDEC_OK \<longrightarrow> bytes_written r = 0))"
proof -
  have "core_ok (lz4_parser_init s n cap)" "dst_pos (lz4_parser_init s n cap) = 0"
    using assms by (auto simp: core_ok_def lz4_parser_init_def)
  moreover have "src (lz4_parser_init s n cap) = s" "src_size (lz4_parser_init s n cap) = n"
    "dst_capacity (lz4_parser_init s n cap) = cap" by (simp_all add: lz4_parser_init_def)
  ultimately show ?thesis
    using lz4.decode_chunk_contract[of "lz4_parser_init s n cap" sched d] wave_schedule_permutes[OF assms(4,3)] assms(2)
    by simp
qed

theorem lz4_chunk_refines_witness:
  "wp (decode_chunk lz4_next dst_pos (lane_major 32) [0x20, 65, 66] 3 (lz4_parser_init [0x20, 65, 66] 3 2) [0, 0])
     (\<lambda>(r, d'). length d' = 2 \<and> unat (bytes_written r) \<le> 2)"
  using lz4_chunk_refines[of 3 "[0x20, 65, 66]" 2 "[0, 0]" 32 "lane_major 32"]
  by (rule wp_mono) (auto simp: lane_major_schedule)

text \<open>C9: the loop over a chunk ends by itself. On any LZ4 or Snappy input and any budget of at least its size it
  stops because the parser refused or reached the end, never because the budget ran out, and
  every such budget, the kernel's own among them, gives the same run.\<close>

theorem chunk_loop_ends:
  assumes "unat n \<le> length s" "unat cap \<le> length d" "0 < wave" "wave_schedule wave sched" "unat n \<le> unat fuel"
  shows "wp (chunk_loop lz4_next sched s fuel (lz4_parser_init s n cap) empty_sequence d) (\<lambda>(st, fin, _). st \<noteq> CUDEC_OK \<or> fin) \<and>
    chunk_loop lz4_next sched s fuel (lz4_parser_init s n cap) empty_sequence d =
      chunk_loop lz4_next sched s (chunk_fuel n) (lz4_parser_init s n cap) empty_sequence d \<and>
    wp (chunk_loop snappy_next sched s fuel (snappy_parser_init s n cap) empty_sequence d) (\<lambda>(st, fin, _). st \<noteq> CUDEC_OK \<or> fin) \<and>
    chunk_loop snappy_next sched s fuel (snappy_parser_init s n cap) empty_sequence d =
      chunk_loop snappy_next sched s (chunk_fuel n) (snappy_parser_init s n cap) empty_sequence d"
proof -
  have p: "permutes_all sched" by (rule wave_schedule_permutes[OF assms(4,3)])
  have l: "core_ok (lz4_parser_init s n cap)" "src (lz4_parser_init s n cap) = s" "src_size (lz4_parser_init s n cap) = n"
      "dst_capacity (lz4_parser_init s n cap) = cap"
    and z: "snappy_ok (snappy_parser_init s n cap)" "src (snappy_parser_init s n cap) = s" "src_size (snappy_parser_init s n cap) = n"
      "dst_capacity (snappy_parser_init s n cap) = cap"
    using assms by (auto simp: snappy_ok_def core_ok_def snappy_parser_init_def lz4_parser_init_def)
  note f = assms(5) chunk_fuel_enough[of n]
  have "wp (chunk_loop lz4_next sched s fuel (lz4_parser_init s n cap) empty_sequence d) (\<lambda>(st, fin, _). st \<noteq> CUDEC_OK \<or> fin)"
    by (rule wp_mono[OF lz4.loop_contract[OF l(1) p, of d fuel empty_sequence, unfolded l]]) (use assms f in auto)
  moreover have "wp (chunk_loop snappy_next sched s fuel (snappy_parser_init s n cap) empty_sequence d) (\<lambda>(st, fin, _). st \<noteq> CUDEC_OK \<or> fin)"
    by (rule wp_mono[OF snappy.loop_contract[OF z(1) p, of d fuel empty_sequence, unfolded z]]) (use assms f in auto)
  ultimately show ?thesis
    using lz4.fuel_irrelevant[OF l(1), of fuel "chunk_fuel n" sched s empty_sequence d]
      snappy.fuel_irrelevant[OF z(1), of fuel "chunk_fuel n" sched s empty_sequence d] l(3) z(3) f
    by (simp add: le_diff_conv)
qed

theorem chunk_loop_ends_witness:
  "wp (chunk_loop lz4_next (lane_major 32) [0x20, 65, 66] 7 (lz4_parser_init [0x20, 65, 66] 3 2) empty_sequence [0, 0])
     (\<lambda>(st, fin, _). st \<noteq> CUDEC_OK \<or> fin)"
  by (rule chunk_loop_ends[of 3 "[0x20, 65, 66]" 2 "[0, 0]" 32 "lane_major 32" 7, THEN conjunct1]) (simp_all add: lane_major_schedule)

text \<open>C2: the same for a Snappy chunk.\<close>

theorem snappy_chunk_refines:
  assumes "unat n \<le> length s" "unat cap \<le> length d" "0 < wave" "wave_schedule wave sched"
  shows "wp (decode_chunk snappy_next dst_pos sched s n (snappy_parser_init s n cap) d) (\<lambda>(r, d').
     length d' = length d \<and> drop (unat cap) d' = drop (unat cap) d \<and>
     unat (bytes_written r) \<le> unat cap \<and>
     (chunk_status r = CUDEC_OK \<longleftrightarrow> (\<exists>out. decodes snappy_next (snappy_parser_init s n cap) empty_sequence [] out)) \<and>
     (chunk_status r = CUDEC_OK \<longrightarrow>
        decodes snappy_next (snappy_parser_init s n cap) empty_sequence [] (take (unat (bytes_written r)) d')) \<and>
     (chunk_status r \<noteq> CUDEC_OK \<longrightarrow> bytes_written r = 0))"
proof -
  have "snappy_ok (snappy_parser_init s n cap)" "dst_pos (snappy_parser_init s n cap) = 0"
    using assms by (auto simp: snappy_ok_def core_ok_def snappy_parser_init_def)
  moreover have "src (snappy_parser_init s n cap) = s" "src_size (snappy_parser_init s n cap) = n"
    "dst_capacity (snappy_parser_init s n cap) = cap" by (simp_all add: snappy_parser_init_def)
  ultimately show ?thesis
    using snappy.decode_chunk_contract[of "snappy_parser_init s n cap" sched d] wave_schedule_permutes[OF assms(4,3)] assms(2)
    by simp
qed

theorem snappy_chunk_refines_witness:
  "wp (decode_chunk snappy_next dst_pos (lane_major 32) [2, 4, 65, 66] 4 (snappy_parser_init [2, 4, 65, 66] 4 2) [0, 0])
     (\<lambda>(r, d'). length d' = 2 \<and> unat (bytes_written r) \<le> 2)"
  using snappy_chunk_refines[of 4 "[2, 4, 65, 66]" 2 "[0, 0]" 32 "lane_major 32"]
  by (rule wp_mono) (auto simp: lane_major_schedule)

section \<open>Round trips\<close>

text \<open>C5: every LZ4 block an encoder may write by the format's rules, from its sequences and its
  final run of literals, is decoded to exactly the bytes the sequences stand for.\<close>

theorem lz4_round_trip:
  assumes "lz4_valid ss run 0" "length (lz4_encode ss run) + 16 < 2 ^ 64"
    and "lz4_total ss run \<le> unat cap" "unat cap \<le> length d" "0 < wave" "wave_schedule wave sched"
  shows "wp (decode_chunk lz4_next dst_pos sched (lz4_encode ss run) (of_nat (length (lz4_encode ss run)))
      (lz4_parser_init (lz4_encode ss run) (of_nat (length (lz4_encode ss run))) cap) d)
    (\<lambda>(r, d'). chunk_status r = CUDEC_OK \<and> unat (bytes_written r) = lz4_total ss run \<and>
       length d' = length d \<and> take (lz4_total ss run) d' = lz4_expand ss run [] \<and>
       drop (unat cap) d' = drop (unat cap) d)"
  by (rule lz4_chunk_encode[OF assms(1,2,3,4) wave_schedule_permutes[OF assms(6,5)]])

theorem lz4_round_trip_witness:
  "wp (decode_chunk lz4_next dst_pos (lane_major 32) (lz4_encode [([1, 2], 2, 7)] [5, 5, 5, 5, 5])
        (of_nat (length (lz4_encode [([1, 2], 2, 7)] [5, 5, 5, 5, 5])))
        (lz4_parser_init (lz4_encode [([1, 2], 2, 7)] [5, 5, 5, 5, 5])
          (of_nat (length (lz4_encode [([1, 2], 2, 7)] [5, 5, 5, 5, 5]))) 20) (replicate 20 0))
     (\<lambda>(r, d'). chunk_status r = CUDEC_OK \<and> take 14 d' = [1, 2, 1, 2, 1, 2, 1, 2, 1, 5, 5, 5, 5, 5])"
proof -
  have v: "lz4_valid [([1, 2], 2, 7)] [5, 5, 5, 5, 5] 0" by simp
  have l: "length (lz4_encode [([1, 2], 2, 7)] [5, 5, 5, 5, 5]) + 16 < 2 ^ 64"
    by (simp add: lz4_seq_bytes_def lz4_len_def lz4_ext_def)
  have c: "lz4_total [([1, 2], 2, 7)] [5, 5, 5, 5, 5] \<le> unat (20 :: u64)" "unat (20 :: u64) \<le> length (replicate 20 (0 :: u8))"
    by simp_all
  have t: "lz4_total [([1, 2], 2, 7)] [5, 5, 5, 5, 5] = 14" by simp
  have e: "lz4_expand [([1, 2], 2, 7)] [5, 5, 5, 5, 5] [] = [1, 2, 1, 2, 1, 2, 1, 2, 1, 5, 5, 5, 5, 5]" by code_simp
  have w: "0 < (32 :: nat)" by simp
  from lz4_round_trip[OF v l c w lane_major_schedule[OF w]] show ?thesis
    unfolding t e by (rule wp_mono) auto
qed

text \<open>C6: the same for Snappy: every stream of literals and copies an encoder may write decodes to
  the bytes its elements stand for, and to the length its preamble declares.\<close>

theorem snappy_round_trip:
  assumes "items_ok 0 xs" "items_len xs < 2 ^ 32" "length (snappy_encode xs) < 2 ^ 64"
    and "items_len xs \<le> unat cap" "unat cap \<le> length d" "0 < wave" "wave_schedule wave sched"
  shows "wp (decode_chunk snappy_next dst_pos sched (snappy_encode xs) (of_nat (length (snappy_encode xs)))
      (snappy_parser_init (snappy_encode xs) (of_nat (length (snappy_encode xs))) cap) d)
    (\<lambda>(r, d'). chunk_status r = CUDEC_OK \<and> unat (bytes_written r) = items_len xs \<and>
       length d' = length d \<and> take (items_len xs) d' = items_apply xs [] \<and>
       drop (unat cap) d' = drop (unat cap) d)"
  by (rule snappy_chunk_encode[OF assms(1-5) wave_schedule_permutes[OF assms(7,6)]])

theorem snappy_round_trip_witness:
  "wp (decode_chunk snappy_next dst_pos (lane_major 32) (snappy_encode [SLiteral 0 [7, 8], SCopy1 2 5])
        (of_nat (length (snappy_encode [SLiteral 0 [7, 8], SCopy1 2 5])))
        (snappy_parser_init (snappy_encode [SLiteral 0 [7, 8], SCopy1 2 5])
          (of_nat (length (snappy_encode [SLiteral 0 [7, 8], SCopy1 2 5]))) 8) (replicate 8 0))
     (\<lambda>(r, d'). chunk_status r = CUDEC_OK \<and> take 7 d' = [7, 8, 7, 8, 7, 8, 7])"
proof -
  let ?xs = "[SLiteral 0 [7, 8], SCopy1 2 5]"
  have v: "items_ok 0 ?xs" by simp
  have l: "items_len ?xs < 2 ^ 32" "length (snappy_encode ?xs) < 2 ^ 64"
    by (simp_all add: items_len_def snappy_encode_def items_bytes_def varint_enc.simps[of 7])
  have c: "items_len ?xs \<le> unat (8 :: u64)" "unat (8 :: u64) \<le> length (replicate 8 (0 :: u8))"
    by (simp_all add: items_len_def)
  have t: "items_len ?xs = 7" by (simp add: items_len_def)
  have e: "items_apply ?xs [] = [7, 8, 7, 8, 7, 8, 7]" by code_simp
  have w: "0 < (32 :: nat)" by simp
  from snappy_round_trip[OF v l c w lane_major_schedule[OF w]] show ?thesis
    unfolding t e by (rule wp_mono) auto
qed

section \<open>One element\<close>

text \<open>C10: one call of the LZ4 parser on any cursor state inside its buffers reads no byte outside
  the source, keeps the cursors inside, never moves back, and on success consumes at least one
  byte and hands back copies that stay inside source and output; the terminal sequence is reported
  only with the source fully consumed.\<close>

theorem lz4_next_safe:
  "core_ok p \<Longrightarrow> wp (lz4_next p seq) (\<lambda>(st, fin, q, p'). core_ok p' \<and> core_adv p p' \<and>
     (fin \<longrightarrow> st = CUDEC_OK \<and> src_pos p' = src_size p') \<and>
     (st = CUDEC_OK \<longrightarrow> unat (src_pos p) < unat (src_pos p') \<and> seq_ok p q p'))"
  by (rule lz4_next_contract)

theorem lz4_next_safe_witness:
  "wp (lz4_next (lz4_parser_init [0x10, 65] 2 1) empty_sequence) (\<lambda>(st, fin, q, p'). core_ok p')"
  using lz4_next_safe[of "lz4_parser_init [0x10, 65] 2 1" empty_sequence]
  by (rule wp_mono) (auto simp: core_ok_def lz4_parser_init_def)

text \<open>C11: one call of the Snappy parser: memory safety and progress as for LZ4; an element is a
  literal or a copy, never both; the end is reported only when the whole source is consumed and
  exactly the declared bytes are produced, and no call after it succeeds; a too-small output is
  reported only when the declared length exceeds the capacity; the unreachable preamble rung is
  never taken.\<close>

theorem snappy_next_safe:
  "snappy_ok p \<Longrightarrow> wp (snappy_next p q) (\<lambda>(st, fin, q', p').
     core_ok p' \<and> core_adv p p' \<and> snappy_ok p' \<and> reject p' \<noteq> kSnappyRejectPreambleUnreachable \<and>
     (finished p \<longrightarrow> st = CUDEC_ERR_CORRUPT_INPUT \<and> \<not> fin) \<and>
     (fin \<longrightarrow> st = CUDEC_OK \<and> src_pos p' = src_size p' \<and> dst_pos p' = declared p' \<and> finished p') \<and>
     (st = CUDEC_OK \<and> \<not> fin \<longrightarrow> seq_ok p q' p' \<and> unat (src_pos p) < unat (src_pos p') \<and>
        (literals_len q' = 0) \<noteq> (match_len q' = 0)) \<and>
     (st = CUDEC_ERR_OUTPUT_TOO_SMALL \<longrightarrow> unat (dst_capacity p) < unat (declared p')))"
proof (cases "finished p")
  case True
  then show "snappy_ok p \<Longrightarrow> ?thesis"
    by (simp add: snappy_next_def snappy_refuse_def wp_rules snappy_ok_def core_ok_def core_adv_def)
next
  case False
  assume ok: "snappy_ok p"
  show ?thesis
    by (rule wp_mono[OF snappy_next_contract[OF ok]]) (use False in \<open>auto simp: snappy_step_ok_def snappy_ok_def\<close>)
qed

theorem snappy_next_safe_witness:
  "wp (snappy_next (snappy_parser_init [1, 0, 65] 3 1) empty_sequence) (\<lambda>(st, fin, q, p'). core_ok p')"
  using snappy_next_safe[of "snappy_parser_init [1, 0, 65] 3 1" empty_sequence]
  by (rule wp_mono) (auto simp: snappy_ok_def core_ok_def snappy_parser_init_def)

section \<open>A batch\<close>

text \<open>A submission launches exactly when its arguments are valid and the device reports a width
  there is a kernel for; what it then launches is one of the two widths, with a block of four waves
  and a grid the kernel's own geometry guard accepts, inside the 32-bit thread index.\<close>

lemma submission_geometry:
  assumes "submit_batch chunk_launch a width_query post = (st, l)"
  shows "(l \<noteq> None \<longleftrightarrow> validate_batch_args a = CUDEC_OK \<and> width_query \<in> {Some 32, Some 64}) \<and>
    (l = None \<longrightarrow> st \<in> {CUDEC_ERR_INVALID_ARGUMENT, CUDEC_ERR_CUDA, CUDEC_ERR_UNSUPPORTED}) \<and>
    (\<forall>s. l = Some s \<longrightarrow> width_query = Some (launch_width s) \<and>
       unat (launch_block s) mod nat (launch_width s) = 0 \<and>
       unat (launch_block s) = 4 * nat (launch_width s) \<and> 0 < unat (launch_grid s) \<and>
       unat (launch_grid s) * unat (launch_block s) \<le> 2 ^ 32)"
proof (cases "validate_batch_args a = CUDEC_OK")
  case True
  then have n: "arg_chunk_count a \<noteq> 0" "arg_chunk_count a \<le> kMaxBatchChunks"
    by (auto simp: validate_batch_args_def split: if_splits)
  have w: "launch_width (chunk_launch m w) = w" for m w by (simp add: chunk_launch_def)
  show ?thesis
  proof (cases width_query)
    case (Some r)
    then show ?thesis
      using assms True chunk_launch_geometry[OF n, of 32] chunk_launch_geometry[OF n, of 64]
      by (auto simp: submit_batch_def select_wave_instantiation_def batch_consts w split: if_splits)
  qed (use assms True in \<open>auto simp: submit_batch_def\<close>)
next
  case False
  then show ?thesis using assms by (auto simp: submit_batch_def validate_batch_args_def split: if_splits)
qed



end
