(* ===== verification/Xxhash32.thy ===== *)
theory Xxhash32
  imports Prelude
begin

text \<open>
  XXH32 with seed zero, \<open>src/xxhash32.h\<close>. A pointer into the data is its offset, a natural
  number; the loops walk it as the code walks \<open>p\<close>. The specification is that of xxHash, written
  out over natural numbers with its own constants: sums and products modulo \<open>2 ^ 32\<close>, a rotation as
  a product and a quotient. An intermediate form digests a byte list with no offsets.
\<close>

definition xxh_read32 :: "u8 list \<Rightarrow> nat \<Rightarrow> u32 option" where
  "xxh_read32 data p = do {
     b0 \<leftarrow> at data p;
     b1 \<leftarrow> at data (p + 1);
     b2 \<leftarrow> at data (p + 2);
     b3 \<leftarrow> at data (p + 3);
     Some (((ucast b0 OR push_bit 8 (ucast b1)) OR push_bit 16 (ucast b2)) OR push_bit 24 (ucast b3))
   }"

definition xxh_rotl :: "u32 \<Rightarrow> nat \<Rightarrow> u32" where
  "xxh_rotl x r = push_bit r x OR drop_bit (32 - r) x"

definition xxh_kPrime1 :: u32 where "xxh_kPrime1 = 2654435761"
definition xxh_kPrime2 :: u32 where "xxh_kPrime2 = 2246822519"
definition xxh_kPrime3 :: u32 where "xxh_kPrime3 = 3266489917"
definition xxh_kPrime4 :: u32 where "xxh_kPrime4 = 668265263"
definition xxh_kPrime5 :: u32 where "xxh_kPrime5 = 374761393"

definition xxh_round :: "u32 \<Rightarrow> u32 \<Rightarrow> u32" where
  "xxh_round acc input = xxh_rotl (acc + input * xxh_kPrime2) 13 * xxh_kPrime1"

type_synonym xxh_lanes = "u32 \<times> u32 \<times> u32 \<times> u32"

text \<open>The \<open>do ... while (p <= limit)\<close> loop over 16-byte stripes.\<close>

function xxh_stripe_loop :: "u8 list \<Rightarrow> nat \<Rightarrow> nat \<Rightarrow> xxh_lanes \<Rightarrow> (xxh_lanes \<times> nat) option" where
  "xxh_stripe_loop data limit p vs = do {
     let (v1, v2, v3, v4) = vs;
     w1 \<leftarrow> xxh_read32 data p;
     w2 \<leftarrow> xxh_read32 data (p + 4);
     w3 \<leftarrow> xxh_read32 data (p + 8);
     w4 \<leftarrow> xxh_read32 data (p + 12);
     let vs = (xxh_round v1 w1, xxh_round v2 w2, xxh_round v3 w3, xxh_round v4 w4);
     if p + 16 \<le> limit then xxh_stripe_loop data limit (p + 16) vs else Some (vs, p + 16)
   }"
  by pat_completeness auto
termination
  by (relation "measure (\<lambda>(_, limit, p, _). limit - p)") auto

function xxh_word_loop :: "u8 list \<Rightarrow> nat \<Rightarrow> nat \<Rightarrow> u32 \<Rightarrow> (u32 \<times> nat) option" where
  "xxh_word_loop data ende p h =
     (if p + 4 \<le> ende then do {
        w \<leftarrow> xxh_read32 data p;
        xxh_word_loop data ende (p + 4) (xxh_rotl (h + w * xxh_kPrime3) 17 * xxh_kPrime4)
      } else Some (h, p))"
  by pat_completeness auto
termination
  by (relation "measure (\<lambda>(_, ende, p, _). ende - p)") auto

function xxh_byte_loop :: "u8 list \<Rightarrow> nat \<Rightarrow> nat \<Rightarrow> u32 \<Rightarrow> u32 option" where
  "xxh_byte_loop data ende p h =
     (if p < ende then do {
        b \<leftarrow> at data p;
        xxh_byte_loop data ende (p + 1) (xxh_rotl (h + ucast b * xxh_kPrime5) 11 * xxh_kPrime1)
      } else Some h)"
  by pat_completeness auto
termination
  by (relation "measure (\<lambda>(_, ende, p, _). ende - p)") auto

declare xxh_stripe_loop.simps [simp del] xxh_word_loop.simps [simp del] xxh_byte_loop.simps [simp del]

definition xxh_avalanche :: "u32 \<Rightarrow> u32" where
  "xxh_avalanche h =
     (let h = h XOR drop_bit 15 h;
          h = h * xxh_kPrime2;
          h = h XOR drop_bit 13 h;
          h = h * xxh_kPrime3
      in h XOR drop_bit 16 h)"

definition xxh_lanes_init :: xxh_lanes where
  "xxh_lanes_init = (xxh_kPrime1 + xxh_kPrime2, xxh_kPrime2, 0, 0 - xxh_kPrime1)"

definition xxh_merge :: "xxh_lanes \<Rightarrow> u32" where
  "xxh_merge = (\<lambda>(v1, v2, v3, v4). xxh_rotl v1 1 + xxh_rotl v2 7 + xxh_rotl v3 12 + xxh_rotl v4 18)"

text \<open>\<open>xxhash32(data + p, len)\<close>.\<close>

definition xxhash32 :: "u8 list \<Rightarrow> nat \<Rightarrow> u64 \<Rightarrow> u32 option" where
  "xxhash32 data p len = do {
     let ende = p + unat len;
     (h, p) \<leftarrow>
       (if len \<ge> 16 then do {
          (vs, p) \<leftarrow> xxh_stripe_loop data (ende - 16) p xxh_lanes_init;
          Some (xxh_merge vs, p)
        } else Some (xxh_kPrime5, p));
     (h, p) \<leftarrow> xxh_word_loop data ende p (h + ucast len);
     h \<leftarrow> xxh_byte_loop data ende p h;
     Some (xxh_avalanche h)
   }"

section \<open>The loops without offsets\<close>

definition le32 :: "u8 list \<Rightarrow> u32" where
  "le32 xs = of_nat (le_nat (take 4 xs))"

function ref_stripes :: "xxh_lanes \<Rightarrow> u8 list \<Rightarrow> xxh_lanes \<times> u8 list" where
  "ref_stripes vs xs =
     (if length xs < 16 then (vs, xs)
      else let (v1, v2, v3, v4) = vs in
        ref_stripes (xxh_round v1 (le32 xs), xxh_round v2 (le32 (drop 4 xs)),
          xxh_round v3 (le32 (drop 8 xs)), xxh_round v4 (le32 (drop 12 xs))) (drop 16 xs))"
  by pat_completeness auto
termination
  by (relation "measure (\<lambda>(_, xs). length xs)") auto

fun ref_words :: "u32 \<Rightarrow> u8 list \<Rightarrow> u32 \<times> u8 list" where
  "ref_words h (b0 # b1 # b2 # b3 # xs) =
     ref_words (xxh_rotl (h + le32 [b0, b1, b2, b3] * xxh_kPrime3) 17 * xxh_kPrime4) xs"
| "ref_words h xs = (h, xs)"

definition ref_bytes :: "u32 \<Rightarrow> u8 list \<Rightarrow> u32" where
  "ref_bytes h xs = foldl (\<lambda>h b. xxh_rotl (h + ucast b * xxh_kPrime5) 11 * xxh_kPrime1) h xs"

definition xxh32_steps :: "u8 list \<Rightarrow> u32" where
  "xxh32_steps xs =
     (let (vs, ys) = ref_stripes xxh_lanes_init xs;
          h = (if length xs \<ge> 16 then xxh_merge vs else xxh_kPrime5) + of_nat (length xs);
          (h, ys) = ref_words h ys
      in xxh_avalanche (ref_bytes h ys))"

declare ref_stripes.simps [simp del]

section \<open>The loops compute it\<close>

lemma take4:
  assumes "p + 4 \<le> length (xs :: 'a list)"
  shows "take 4 (drop p xs) = [xs ! p, xs ! (p + 1), xs ! (p + 2), xs ! (p + 3)]"
  using assms by (intro nth_equalityI) (auto simp: nth_Cons' numeral_eq_Suc less_Suc_eq)

lemma le32_value: "unat (le32 xs) = le_nat (take 4 xs)"
proof -
  have "le_nat (take 4 xs) < 256 ^ length (take 4 xs)" by (rule le_nat_less)
  also have "\<dots> \<le> 256 ^ 4" by (intro power_increasing) auto
  finally show ?thesis unfolding le32_def by (intro unat_of_nat_less) simp
qed

lemma xxh_read32_le32:
  assumes "p + 4 \<le> length data"
  shows "xxh_read32 data p = Some (le32 (drop p data))"
proof -
  let ?b = "\<lambda>i. data ! (p + i)"
  let ?w1 = "ucast (?b 0) OR push_bit 8 (ucast (?b 1)) :: u32"
  let ?w2 = "?w1 OR push_bit 16 (ucast (?b 2))" let ?w3 = "?w2 OR push_bit 24 (ucast (?b 3))"
  have w1: "unat ?w1 = unat (?b 0) + unat (?b 1) * 256" by (rule unat_byte_pair) simp
  then have w2: "unat ?w2 = unat (?b 0) + unat (?b 1) * 256 + unat (?b 2) * 65536"
    using unat_u8_less[of "?b 0"] unat_u8_less[of "?b 1"] by (subst unat_or_push_byte) auto
  then have "unat ?w3 = unat (?b 0) + unat (?b 1) * 256 + unat (?b 2) * 65536 + unat (?b 3) * 16777216"
    using unat_u8_less[of "?b 0"] unat_u8_less[of "?b 1"] unat_u8_less[of "?b 2"]
    by (subst unat_or_push_byte) auto
  then have "?w3 = le32 (drop p data)"
    by (intro word_unat_eq_iff[THEN iffD2]) (simp add: le32_value take4[OF assms])
  then show ?thesis using assms by (simp add: xxh_read32_def)
qed

lemma stripe_loop_ref:
  assumes "p \<le> limit" "limit + 16 \<le> length data"
  shows "\<exists>p'. xxh_stripe_loop data limit p vs =
      Some (fst (ref_stripes vs (drop p (take (limit + 16) data))), p') \<and>
    snd (ref_stripes vs (drop p (take (limit + 16) data))) = drop p' (take (limit + 16) data) \<and>
    p' \<le> limit + 16 \<and> limit < p'"
  using assms(1)
proof (induction "limit - p" arbitrary: p vs rule: less_induct)
  case less
  obtain v1 v2 v3 v4 where vs: "vs = (v1, v2, v3, v4)" by (cases vs)
  let ?d = "\<lambda>p. drop p (take (limit + 16) data)"
  have le: "le32 (drop q (take (limit + 16) data)) = le32 (drop q data)" if "q + 4 \<le> limit + 16" for q
    using that by (simp add: le32_def drop_take)
  let ?vs = "(xxh_round v1 (le32 (drop p data)), xxh_round v2 (le32 (drop (p + 4) data)),
      xxh_round v3 (le32 (drop (p + 8) data)), xxh_round v4 (le32 (drop (p + 12) data)))"
  have "\<not> limit + 16 - p < 16" using less.prems by simp
  then have rs: "ref_stripes vs (?d p) = ref_stripes ?vs (?d (p + 16))"
    using less.prems assms(2) le[of p] le[of "p + 4"] le[of "p + 8"] le[of "p + 12"]
    by (subst ref_stripes.simps) (simp add: vs add.commute)
  show ?case
  proof (cases "p + 16 \<le> limit")
    case True
    then show ?thesis
      using less.hyps[of "p + 16" ?vs] assms(2) rs
      by (subst xxh_stripe_loop.simps) (auto simp: vs xxh_read32_le32)
  next
    case False
    then have "limit - p < 16" by simp
    then have "ref_stripes ?vs (?d (p + 16)) = (?vs, ?d (p + 16))"
      using assms(2) by (subst ref_stripes.simps) simp
    then show ?thesis using False less.prems assms(2) rs
      by (subst xxh_stripe_loop.simps) (simp add: vs xxh_read32_le32)
  qed
qed

lemma word_loop_ref:
  assumes "p \<le> ende" "ende \<le> length data"
  shows "\<exists>p'. xxh_word_loop data ende p h = Some (fst (ref_words h (drop p (take ende data))), p') \<and>
    snd (ref_words h (drop p (take ende data))) = drop p' (take ende data) \<and> p' \<le> ende"
  using assms(1)
proof (induction "ende - p" arbitrary: p h rule: less_induct)
  case less
  let ?d = "\<lambda>p. drop p (take ende data)"
  show ?case
  proof (cases "p + 4 \<le> ende")
    case True
    have "take 4 (?d p) = [data ! p, data ! (p + 1), data ! (p + 2), data ! (p + 3)]"
      using take4[of p "take ende data"] True assms(2) by simp
    then have "?d p = [data ! p, data ! (p + 1), data ! (p + 2), data ! (p + 3)] @ ?d (p + 4)"
      by (metis append_take_drop_id drop_drop add.commute)
    moreover have "le32 [data ! p, data ! (p + 1), data ! (p + 2), data ! (p + 3)] = le32 (drop p data)"
      using take4[of p data] True assms(2) by (simp add: le32_def)
    ultimately have "ref_words h (?d p) =
        ref_words (xxh_rotl (h + le32 (drop p data) * xxh_kPrime3) 17 * xxh_kPrime4) (?d (p + 4))"
      by simp
    then show ?thesis using less.hyps[of "p + 4"] True assms(2)
      by (subst xxh_word_loop.simps) (auto simp: xxh_read32_le32)
  next
    case False
    have "ref_words h xs = (h, xs)" if "length xs < 4" for xs
      using that by (cases "(h, xs)" rule: ref_words.cases) auto
    then show ?thesis using False less.prems assms(2)
      by (subst xxh_word_loop.simps) auto
  qed
qed

lemma byte_loop_ref:
  assumes "p \<le> ende" "ende \<le> length data"
  shows "xxh_byte_loop data ende p h = Some (ref_bytes h (drop p (take ende data)))"
  using assms(1)
proof (induction "ende - p" arbitrary: p h rule: less_induct)
  case less
  then show ?case using assms(2)
    by (subst xxh_byte_loop.simps) (auto simp: ref_bytes_def Cons_nth_drop_Suc[symmetric])
qed

lemma xxhash32_steps:
  assumes "p + unat len \<le> length data"
  shows "xxhash32 data p len = Some (xxh32_steps (take (unat len) (drop p data)))"
proof -
  let ?e = "p + unat len" and ?xs = "take (unat len) (drop p data)"
  have xs: "drop p (take ?e data) = ?xs" by (simp add: take_drop add.commute)
  have "\<exists>p'. (if len \<ge> 16 then do {
          (vs, p) \<leftarrow> xxh_stripe_loop data (?e - 16) p xxh_lanes_init;
          Some (xxh_merge vs, p)
        } else Some (xxh_kPrime5, p)) =
      Some (if length ?xs \<ge> 16 then xxh_merge (fst (ref_stripes xxh_lanes_init ?xs)) else xxh_kPrime5, p') \<and>
      snd (ref_stripes xxh_lanes_init ?xs) = drop p' (take ?e data) \<and> p' \<le> ?e"
  proof (cases "len \<ge> 16")
    case True
    then have "16 \<le> unat len" "p \<le> ?e - 16" by (simp_all add: w2n)
    then show ?thesis
      using stripe_loop_ref[of p "?e - 16" data xxh_lanes_init] True assms xs by auto
  next
    case False
    then have "unat len < 16" by (simp add: w2n)
    then show ?thesis using False assms xs by (subst (2) ref_stripes.simps) auto
  qed
  then obtain p' where s: "(if len \<ge> 16 then do {
          (vs, p) \<leftarrow> xxh_stripe_loop data (?e - 16) p xxh_lanes_init;
          Some (xxh_merge vs, p)
        } else Some (xxh_kPrime5, p)) =
      Some (if length ?xs \<ge> 16 then xxh_merge (fst (ref_stripes xxh_lanes_init ?xs)) else xxh_kPrime5, p')"
    "snd (ref_stripes xxh_lanes_init ?xs) = drop p' (take ?e data)" "p' \<le> ?e" by blast
  have l: "of_nat (length ?xs) = (ucast len :: u32)"
    using assms by (simp add: unsigned_ucast_eq)
  define H where "H = (if length ?xs \<ge> 16 then xxh_merge (fst (ref_stripes xxh_lanes_init ?xs)) else xxh_kPrime5)"
  let ?h = "H + ucast len"
  obtain p2 where w: "xxh_word_loop data ?e p' ?h = Some (fst (ref_words ?h (drop p' (take ?e data))), p2)"
    "snd (ref_words ?h (drop p' (take ?e data))) = drop p2 (take ?e data)" "p2 \<le> ?e"
    using word_loop_ref[OF s(3) assms, of ?h] by blast
  have "xxhash32 data p len = Some (xxh_avalanche (ref_bytes (fst (ref_words ?h (drop p' (take ?e data)))) (drop p2 (take ?e data))))"
    unfolding xxhash32_def Let_def s(1) H_def[symmetric] by (simp add: w(1) byte_loop_ref[OF w(3) assms])
  also have "\<dots> = Some (xxh32_steps ?xs)"
    unfolding xxh32_steps_def l Let_def split_beta H_def[symmetric] by (simp add: s(2) w(2))
  finally show ?thesis .
qed

section \<open>The specification\<close>

definition add32 :: "nat \<Rightarrow> nat \<Rightarrow> nat" where "add32 a b = (a + b) mod 2 ^ 32"
definition mul32 :: "nat \<Rightarrow> nat \<Rightarrow> nat" where "mul32 a b = a * b mod 2 ^ 32"
definition rot32 :: "nat \<Rightarrow> nat \<Rightarrow> nat" where "rot32 r x = x * 2 ^ r mod 2 ^ 32 + x div 2 ^ (32 - r)"

definition spec32_round :: "nat \<Rightarrow> nat \<Rightarrow> nat" where
  "spec32_round acc lane = mul32 (rot32 13 (add32 acc (mul32 lane 0x85EBCA77))) 0x9E3779B1"

fun spec32_stripes :: "nat \<Rightarrow> nat \<times> nat \<times> nat \<times> nat \<Rightarrow> u8 list \<Rightarrow> nat \<times> nat \<times> nat \<times> nat" where
  "spec32_stripes 0 (a, b, c, d) xs = (a, b, c, d)"
| "spec32_stripes (Suc k) (a, b, c, d) xs = spec32_stripes k
     (spec32_round a (le_nat (take 4 xs)), spec32_round b (le_nat (take 4 (drop 4 xs))),
      spec32_round c (le_nat (take 4 (drop 8 xs))), spec32_round d (le_nat (take 4 (drop 12 xs)))) (drop 16 xs)"

fun spec32_tail :: "nat \<Rightarrow> u8 list \<Rightarrow> nat" where
  "spec32_tail h (b0 # b1 # b2 # b3 # xs) =
     spec32_tail (mul32 (rot32 17 (add32 h (mul32 (le_nat [b0, b1, b2, b3]) 0xC2B2AE3D))) 0x27D4EB2F) xs"
| "spec32_tail h (b # xs) = spec32_tail (mul32 (rot32 11 (add32 h (mul32 (unat b) 0x165667B1))) 0x9E3779B1) xs"
| "spec32_tail h [] = h"

definition spec32_avalanche :: "nat \<Rightarrow> nat" where
  "spec32_avalanche h =
     (let h = mul32 (h XOR h div 2 ^ 15) 0x85EBCA77; h = mul32 (h XOR h div 2 ^ 13) 0xC2B2AE3D in h XOR h div 2 ^ 16)"

definition xxh32_spec :: "u8 list \<Rightarrow> nat" where
  "xxh32_spec xs =
     (let n = length xs;
          start = (if n < 16 then 0x165667B1
            else case spec32_stripes (n div 16) (0x24234428, 0x85EBCA77, 0, 0x61C8864F) xs of (a, b, c, d) \<Rightarrow>
              add32 (add32 (add32 (rot32 1 a) (rot32 7 b)) (rot32 12 c)) (rot32 18 d))
      in spec32_avalanche (spec32_tail (add32 start n) (drop (16 * (n div 16)) xs)))"

definition xxh32_ref :: "u8 list \<Rightarrow> u32" where
  "xxh32_ref xs = of_nat (xxh32_spec xs)"

lemma unat32: "unat (a + b :: u32) = add32 (unat a) (unat b)" "unat (a * b :: u32) = mul32 (unat a) (unat b)"
  "r \<le> 32 \<Longrightarrow> unat (xxh_rotl x r) = rot32 r (unat x)" "unat (x XOR drop_bit k x) = unat x XOR unat x div 2 ^ k"
  by (simp_all add: add32_def mul32_def rot32_def xxh_rotl_def unat_word_ariths unat_rotate[where 'a = 32, simplified]
      unsigned_xor_eq unat_drop_bit)

lemma primes32: "unat xxh_kPrime1 = 0x9E3779B1" "unat xxh_kPrime2 = 0x85EBCA77" "unat xxh_kPrime3 = 0xC2B2AE3D"
  "unat xxh_kPrime4 = 0x27D4EB2F" "unat xxh_kPrime5 = 0x165667B1"
  by (simp_all add: xxh_kPrime1_def xxh_kPrime2_def xxh_kPrime3_def xxh_kPrime4_def xxh_kPrime5_def)

lemma round_spec32: "unat (xxh_round acc w) = spec32_round (unat acc) (unat w)"
  by (simp add: xxh_round_def spec32_round_def unat32 primes32)

definition lanes_nat :: "xxh_lanes \<Rightarrow> nat \<times> nat \<times> nat \<times> nat" where
  "lanes_nat = (\<lambda>(a, b, c, d). (unat a, unat b, unat c, unat d))"

lemma stripes_spec32:
  "length xs div 16 = k \<Longrightarrow> lanes_nat (fst (ref_stripes vs xs)) = spec32_stripes k (lanes_nat vs) xs \<and>
   snd (ref_stripes vs xs) = drop (16 * k) xs"
proof (induction k arbitrary: vs xs)
  case 0
  then have "length xs < 16" by (simp add: div_eq_0_iff)
  then have "ref_stripes vs xs = (vs, xs)" by (simp add: ref_stripes.simps[of vs])
  then show ?case by (cases vs) (simp add: lanes_nat_def)
next
  case (Suc k)
  then have "\<not> length xs < 16" by auto
  moreover have "length (drop 16 xs) div 16 = k" using Suc.prems by simp
  moreover obtain a b c d where "vs = (a, b, c, d)" by (cases vs)
  ultimately show ?case using Suc.IH[of "drop 16 xs"]
    by (simp add: ref_stripes.simps[of "(a, b, c, d)"] lanes_nat_def round_spec32 le32_value add.commute)
qed

lemma tail_spec32: "unat (ref_bytes (fst (ref_words h xs)) (snd (ref_words h xs))) = spec32_tail (unat h) xs"
proof (induction h xs rule: ref_words.induct)
  case (1 h b0 b1 b2 b3 xs)
  then show ?case by (simp add: unat32 primes32 le32_value)
qed (simp_all add: ref_bytes_def unat32 primes32)

lemma avalanche_spec32: "unat (xxh_avalanche h) = spec32_avalanche (unat h)"
  by (simp add: xxh_avalanche_def spec32_avalanche_def Let_def unat32 primes32)

lemma merge_spec32: "unat (xxh_merge vs) = (case lanes_nat vs of (a, b, c, d) \<Rightarrow>
    add32 (add32 (add32 (rot32 1 a) (rot32 7 b)) (rot32 12 c)) (rot32 18 d))"
  by (cases vs) (simp add: xxh_merge_def lanes_nat_def unat32(1,3))

lemma init_spec32: "lanes_nat xxh_lanes_init = (0x24234428, 0x85EBCA77, 0, 0x61C8864F)"
  by (simp add: xxh_lanes_init_def lanes_nat_def xxh_kPrime1_def xxh_kPrime2_def)

lemma steps_spec32:
  assumes "length xs < 2 ^ 64"
  shows "unat (xxh32_steps xs) = xxh32_spec xs"
proof -
  let ?R = "ref_stripes xxh_lanes_init xs"
  have st: "lanes_nat (fst ?R) = spec32_stripes (length xs div 16) (0x24234428, 0x85EBCA77, 0, 0x61C8864F) xs"
    "snd ?R = drop (16 * (length xs div 16)) xs"
    using stripes_spec32[OF refl, of xxh_lanes_init xs] by (simp_all add: init_spec32)
  obtain a b c d where s: "spec32_stripes (length xs div 16) (0x24234428, 0x85EBCA77, 0, 0x61C8864F) xs = (a, b, c, d)" by (cases rule: prod_cases4)
  have ad: "add32 h (unat (of_nat (length xs) :: u32)) = add32 h (length xs)" for h
    by (simp add: add32_def unsigned_of_nat take_bit_eq_mod mod_simps)
  have "unat (if 16 \<le> length xs then xxh_merge (fst ?R) else xxh_kPrime5) = (if length xs < 16 then 0x165667B1
            else case (a, b, c, d) of (a, b, c, d) \<Rightarrow> add32 (add32 (add32 (rot32 1 a) (rot32 7 b)) (rot32 12 c)) (rot32 18 d))"
    by (simp add: merge_spec32 st(1) s primes32)
  then show ?thesis
    unfolding xxh32_steps_def xxh32_spec_def Let_def split_beta[of _ "?R"] split_beta[of _ "ref_words h ys" for h ys] avalanche_spec32 tail_spec32 st(2) s
    by (simp only: unat32(1) ad)
qed

lemma xxh32_value: "length xs < 2 ^ 64 \<Longrightarrow> unat (xxh32_ref xs) = xxh32_spec xs"
  unfolding xxh32_ref_def using steps_spec32[of xs] by (metis of_nat_unat ucast_id)

lemma xxhash32_ref:
  assumes "p + unat len \<le> length data"
  shows "xxhash32 data p len = Some (xxh32_ref (take (unat len) (drop p data)))"
proof -
  have "length (take (unat len) (drop p data)) < 2 ^ 64" using unat_u64_less[of len] by simp
  from steps_spec32[OF this] have "xxh32_steps (take (unat len) (drop p data)) = xxh32_ref (take (unat len) (drop p data))"
    unfolding xxh32_ref_def by (metis of_nat_unat ucast_id)
  then show ?thesis using xxhash32_steps[OF assms] by simp
qed

text \<open>The published digests of the one byte \<open>a\<close> and of nothing.\<close>

lemma xxh32_known: "xxh32_spec [97] = 0x550D7456" "xxh32_spec [] = 0x02CC5D05"
  by ((simp add: xxh32_spec_def add32_def mul32_def rot32_def, simp add: spec32_avalanche_def, simp add: mul32_def)+)

end
