(* ===== verification/Lz4_Frame.thy ===== *)
theory Lz4_Frame
  imports Xxhash32
begin

text \<open>
  The LZ4 frame envelope, \<open>src/lz4_frame.h\<close>: the frame descriptor, the walk over the
  block table with its fuel, and the two claims of the frame's tail.
\<close>

definition kLz4FrameMagic :: u32 where "kLz4FrameMagic = 0x184D2204"
definition kLz4SkippableMagicMin :: u32 where "kLz4SkippableMagicMin = 0x184D2A50"
definition kLz4SkippableMagicMax :: u32 where "kLz4SkippableMagicMax = 0x184D2A5F"
definition kLz4FrameMinHeaderBytes :: u64 where "kLz4FrameMinHeaderBytes = 7"
definition kLz4FrameBlockMaxKiB :: u64 where "kLz4FrameBlockMaxKiB = 64"

lemmas lz4f_consts = kLz4FrameMagic_def kLz4SkippableMagicMin_def kLz4SkippableMagicMax_def
  kLz4FrameMinHeaderBytes_def kLz4FrameBlockMaxKiB_def

record lz4_frame_block =
  src_off :: u64
  src_len :: u64
  uncompressed :: bool

record lz4_frame_descriptor =
  block_checksum :: bool
  content_size :: bool
  content_checksum :: bool
  block_max :: u64
  declared_content_size :: u64
  body_off :: u64

text \<open>The two little-endian loads are \<open>memcpy\<close>s on a little-endian host.\<close>

definition lz4_frame_read32le :: "u8 list \<Rightarrow> u64 \<Rightarrow> u32 option" where
  "lz4_frame_read32le f p = xxh_read32 f (unat p)"

definition lz4_frame_read64le :: "u8 list \<Rightarrow> u64 \<Rightarrow> u64 option" where
  "lz4_frame_read64le f p = do {
     lo \<leftarrow> xxh_read32 f (unat p);
     hi \<leftarrow> xxh_read32 f (unat p + 4);
     Some (ucast lo OR push_bit 32 (ucast hi))
   }"

section \<open>Rung 1: the descriptor\<close>

text \<open>
  Two halves of \<open>Lz4ParseFrameDescriptor\<close>: the fields of FLG and BD, then the optional
  content size and the header checksum. The descriptor is written on success only.
\<close>

definition lz4_descriptor_tail ::
    "u8 list \<Rightarrow> u64 \<Rightarrow> bool \<Rightarrow> bool \<Rightarrow> bool \<Rightarrow> u64 \<Rightarrow> lz4_frame_descriptor \<Rightarrow>
     (cudec_status \<times> lz4_frame_descriptor) option" where
  "lz4_descriptor_tail f frame_size bsum csize csum bmax out =
     (let pos = 6 in
      if csize \<and> frame_size < pos + 8 then Some (CUDEC_ERR_CORRUPT_INPUT, out)
      else do {
        (dcs, pos) \<leftarrow>
          (if csize then do { v \<leftarrow> lz4_frame_read64le f pos; Some (v, pos + 8) }
           else Some (0, pos));
        if frame_size < pos + 1 then Some (CUDEC_ERR_CORRUPT_INPUT, out)
        else do {
          hc \<leftarrow> rd f pos;
          h \<leftarrow> xxhash32 f 4 (pos - 4);
          if drop_bit 8 h AND 0xFF \<noteq> ucast hc then Some (CUDEC_ERR_CORRUPT_INPUT, out)
          else Some (CUDEC_OK, \<lparr>block_checksum = bsum, content_size = csize, content_checksum = csum,
                 block_max = bmax, declared_content_size = dcs, body_off = pos + 1\<rparr>)
        }
      })"

definition lz4_descriptor_flags ::
    "u8 list \<Rightarrow> u64 \<Rightarrow> u8 \<Rightarrow> u8 \<Rightarrow> lz4_frame_descriptor \<Rightarrow>
     (cudec_status \<times> lz4_frame_descriptor) option" where
  "lz4_descriptor_flags f frame_size flg bd out =
     (if drop_bit 6 flg AND 3 \<noteq> 1 \<or> flg AND 2 \<noteq> 0 then Some (CUDEC_ERR_CORRUPT_INPUT, out)
      else
        let block_independent = (drop_bit 5 flg AND 1 \<noteq> 0);
            bsum = (drop_bit 4 flg AND 1 \<noteq> 0);
            csize = (drop_bit 3 flg AND 1 \<noteq> 0);
            csum = (drop_bit 2 flg AND 1 \<noteq> 0);
            dict_id = (flg AND 1 \<noteq> 0);
            bmax = drop_bit 4 bd AND 7
        in if bd AND 0x8F \<noteq> 0 then Some (CUDEC_ERR_CORRUPT_INPUT, out)
           else if bmax < 4 \<or> bmax > 7 then Some (CUDEC_ERR_CORRUPT_INPUT, out)
           else if \<not> block_independent \<or> dict_id then Some (CUDEC_ERR_UNSUPPORTED, out)
           else lz4_descriptor_tail f frame_size bsum csize csum
                  (push_bit (unat ((bmax - 4) * 2)) (push_bit 10 kLz4FrameBlockMaxKiB)) out)"

definition lz4_parse_frame_descriptor ::
    "u8 list \<Rightarrow> u64 \<Rightarrow> lz4_frame_descriptor \<Rightarrow> (cudec_status \<times> lz4_frame_descriptor) option" where
  "lz4_parse_frame_descriptor f frame_size out =
     (if frame_size < 4 then Some (CUDEC_ERR_CORRUPT_INPUT, out)
      else do {
        magic \<leftarrow> lz4_frame_read32le f 0;
        if magic \<ge> kLz4SkippableMagicMin \<and> magic \<le> kLz4SkippableMagicMax
        then Some (CUDEC_ERR_UNSUPPORTED, out)
        else if frame_size < kLz4FrameMinHeaderBytes \<or> magic \<noteq> kLz4FrameMagic
        then Some (CUDEC_ERR_CORRUPT_INPUT, out)
        else do {
          flg \<leftarrow> rd f 4;
          bd \<leftarrow> rd f 5;
          lz4_descriptor_flags f frame_size flg bd out
        }
      })"

section \<open>Rung 2: the block table\<close>

definition lz4_block_checksum_holds ::
    "u8 list \<Rightarrow> lz4_frame_descriptor \<Rightarrow> u64 \<Rightarrow> u64 \<Rightarrow> bool option" where
  "lz4_block_checksum_holds f desc pos blen =
     (if block_checksum desc then do {
        h \<leftarrow> xxhash32 f (unat pos) blen;
        c \<leftarrow> lz4_frame_read32le f (pos + blen);
        Some (h = c)
      } else Some True)"

text \<open>
  One turn of the loop is one block. The recursion carries \<open>fuel\<close> as the code's counter;
  the result is the status, the blocks and the offset written to \<open>*tail_off\<close>.
\<close>

function lz4_walk_loop ::
    "u8 list \<Rightarrow> u64 \<Rightarrow> lz4_frame_descriptor \<Rightarrow> u64 \<Rightarrow> u64 \<Rightarrow> lz4_frame_block list \<Rightarrow>
     (cudec_status \<times> lz4_frame_block list \<times> u64) option" where
  "lz4_walk_loop f frame_size desc fuel pos blocks =
     (if fuel = 0 then Some (CUDEC_ERR_CORRUPT_INPUT, blocks, pos)
      else if frame_size < pos + 4 then Some (CUDEC_ERR_CORRUPT_INPUT, blocks, pos)
      else do {
        bs \<leftarrow> lz4_frame_read32le f pos;
        let header_off = pos;
        let pos = pos + 4;
        let blen = (ucast (bs AND 0x7FFFFFFF) :: u64);
        if bs = 0 then Some (CUDEC_OK, blocks, pos)
        else if blen = 0 \<or> blen > block_max desc \<or> frame_size < pos + blen
        then Some (CUDEC_ERR_CORRUPT_INPUT, blocks, header_off)
        else if block_checksum desc \<and> frame_size < pos + blen + 4
        then Some (CUDEC_ERR_CORRUPT_INPUT, blocks, header_off)
        else do {
          good \<leftarrow> lz4_block_checksum_holds f desc pos blen;
          if \<not> good then Some (CUDEC_ERR_CORRUPT_INPUT, blocks, header_off)
          else lz4_walk_loop f frame_size desc (fuel - 1)
                 (pos + (blen + (if block_checksum desc then 4 else 0)))
                 (blocks @ [\<lparr>src_off = pos, src_len = blen,
                            uncompressed = (drop_bit 31 bs AND 1 \<noteq> 0)\<rparr>])
        }
      })"
  by pat_completeness auto
termination
  by (relation "measure (\<lambda>(_, _, _, fuel, _). unat fuel)") (auto simp: unat_minus_one unat_gt_0)

declare lz4_walk_loop.simps [simp del]

definition lz4_walk_frame_blocks ::
    "u8 list \<Rightarrow> u64 \<Rightarrow> lz4_frame_descriptor \<Rightarrow> (cudec_status \<times> lz4_frame_block list \<times> u64) option" where
  "lz4_walk_frame_blocks f frame_size desc =
     lz4_walk_loop f frame_size desc (frame_size div 4 + 1) (body_off desc) []"

section \<open>Rung 3: the tail\<close>

definition lz4_verify_frame_tail ::
    "u8 list \<Rightarrow> u64 \<Rightarrow> lz4_frame_descriptor \<Rightarrow> u64 \<Rightarrow> u8 list \<Rightarrow> u64 \<Rightarrow> cudec_status option" where
  "lz4_verify_frame_tail f frame_size desc tail_off out produced =
     (if content_size desc \<and> declared_content_size desc \<noteq> produced then Some CUDEC_ERR_CORRUPT_INPUT
      else if content_checksum desc then
        if frame_size < tail_off + 4 then Some CUDEC_ERR_CORRUPT_INPUT
        else do {
          h \<leftarrow> xxhash32 out 0 produced;
          c \<leftarrow> lz4_frame_read32le f tail_off;
          if h \<noteq> c then Some CUDEC_ERR_CORRUPT_INPUT else Some CUDEC_OK
        }
      else Some CUDEC_OK)"

section \<open>The table the walk accepts\<close>

text \<open>
  The frame format's own reading of a block table: from \<open>pos\<close>, each block is a header, its
  bytes and its checksum, one after the other without a gap, to an end mark inside the frame.
\<close>

fun tiles :: "u8 list \<Rightarrow> nat \<Rightarrow> lz4_frame_descriptor \<Rightarrow> nat \<Rightarrow> lz4_frame_block list \<Rightarrow> nat \<Rightarrow> bool" where
  "tiles f n desc pos [] e \<longleftrightarrow> pos + 4 \<le> n \<and> le32 (drop pos f) = 0 \<and> e = pos + 4"
| "tiles f n desc pos (b # bs) e \<longleftrightarrow>
     (let h = le32 (drop pos f); sum = (if block_checksum desc then 4 else 0) in
      pos + 4 + unat (src_len b) + sum \<le> n \<and>
      unat (src_off b) = pos + 4 \<and> src_len b = ucast (h AND 0x7FFFFFFF) \<and>
      uncompressed b = bit h 31 \<and> src_len b \<noteq> 0 \<and> src_len b \<le> block_max desc \<and>
      (block_checksum desc \<longrightarrow>
         xxh32_ref (take (unat (src_len b)) (drop (pos + 4) f)) = le32 (drop (pos + 4 + unat (src_len b)) f)) \<and>
      tiles f n desc (pos + 4 + unat (src_len b) + sum) bs e)"

lemma lz4_read32: "unat p + 4 \<le> length f \<Longrightarrow> lz4_frame_read32le f p = Some (le32 (drop (unat p) f))"
  by (simp add: lz4_frame_read32le_def xxh_read32_le32)

section \<open>The walk accepts exactly the tilings\<close>

lemma blen_bound: "unat (ucast (h AND 0x7FFFFFFF :: u32) :: u64) < 2 ^ 31"
  using unat_and_mask[of h 31] by (simp add: mask_eq_exp_minus_1)

lemma top_bit: "(drop_bit 31 (h::u32) AND 1 \<noteq> 0) = bit h 31"
  by (simp add: bit_iff_odd_drop_bit and_one_eq odd_iff_mod_2_eq_one)

lemma walk_loop_contract:
  assumes n: "unat n < 2 ^ 63" "unat n \<le> length f"
    and pos: "unat pos \<le> unat n" and fuel: "(unat n - unat pos) div 4 < unat fuel"
  shows "wp (lz4_walk_loop f n desc fuel pos blocks) (\<lambda>(st, bl, e).
     (st = CUDEC_OK \<and> (\<exists>bs. bl = blocks @ bs \<and> tiles f (unat n) desc (unat pos) bs (unat e))) \<or>
     (st = CUDEC_ERR_CORRUPT_INPUT \<and> (\<nexists>bs e. tiles f (unat n) desc (unat pos) bs e)))"
  using pos fuel
proof (induction "unat fuel" arbitrary: fuel pos blocks rule: less_induct)
  case less
  let ?T = "tiles f (unat n) desc (unat pos)"
  let ?h = "le32 (drop (unat pos) f)"
  let ?bl = "ucast (?h AND 0x7FFFFFFF) :: u64"
  let ?sum = "if block_checksum desc then 4 else 0 :: nat"
  let ?sumw = "if block_checksum desc then 4 else 0 :: u64"
  have f0: "fuel \<noteq> 0" using less.prems by auto
  have p4: "unat (pos + 4) = unat pos + 4" using less.prems n by (subst unat_plus) auto
  show ?case
  proof (cases "n < pos + 4")
    case True
    then have "\<not> ?T bs e" for bs e using p4 by (cases bs) (auto simp: w2n Let_def)
    then show ?thesis using True f0 by (subst lz4_walk_loop.simps) (simp add: wp_rules)
  next
    case False
    then have le4: "unat pos + 4 \<le> unat n" using p4 by (simp add: w2n)
    then have hd: "lz4_frame_read32le f pos = Some ?h" using n by (intro lz4_read32) simp
    have pb: "unat (pos + 4 + ?bl) = unat pos + 4 + unat ?bl"
      using p4 n less.prems blen_bound[of ?h] by (subst unat_plus) auto
    have pb4: "unat (pos + 4 + ?bl + 4) = unat pos + 4 + unat ?bl + 4"
      using pb n less.prems blen_bound[of ?h] by (subst unat_plus) auto
    have ps: "unat (pos + 4 + (?bl + ?sumw)) = unat pos + 4 + unat ?bl + ?sum"
      using pb pb4 by (auto simp: add.assoc)
    show ?thesis
    proof (cases "?h = 0")
      case True
      then show ?thesis using hd f0 False le4 p4
        by (subst lz4_walk_loop.simps) (auto simp: wp_rules Let_def intro!: exI[of _ "[]"])
    next
      case h0: False
      have cons: "?T bs e \<longleftrightarrow> (\<exists>b bs'. bs = b # bs' \<and> ?T (b # bs') e)" for bs e
        using h0 by (cases bs) auto
      let ?sumok = "block_checksum desc \<longrightarrow> xxh32_ref (take (unat ?bl) (drop (unat pos + 4) f)) =
            le32 (drop (unat pos + 4 + unat ?bl) f)"
      have ck: "lz4_block_checksum_holds f desc (pos + 4) ?bl = Some ?sumok"
        if "unat pos + 4 + unat ?bl + ?sum \<le> unat n"
        using that n pb p4 by (auto simp: lz4_block_checksum_holds_def xxhash32_ref lz4_read32)
      have fit: "n < pos + 4 + ?bl \<or> (block_checksum desc \<and> n < pos + 4 + ?bl + 4) \<longleftrightarrow>
          unat n < unat pos + 4 + unat ?bl + ?sum"
        using pb pb4 by (auto simp: w2n)
      show ?thesis
      proof (cases "?bl = 0 \<or> ?bl > block_max desc \<or> unat n < unat pos + 4 + unat ?bl + ?sum \<or> \<not> ?sumok")
        case True
        then have bad: "\<not> ?T bs e" for bs e
          using cons[of bs e] by (auto simp: Let_def w2n)
        show ?thesis using True hd f0 False h0 bad fit ck
          by (subst lz4_walk_loop.simps) (auto simp: wp_rules Let_def w2n not_less)
      next
        case good: False
        let ?b = "\<lparr>src_off = pos + 4, src_len = ?bl, uncompressed = bit ?h 31\<rparr>"
        let ?pos = "pos + 4 + (?bl + ?sumw)"
        have tc: "?T bs e \<longleftrightarrow> (\<exists>bs'. bs = ?b # bs' \<and> tiles f (unat n) desc (unat ?pos) bs' e)" for bs e
          using cons[of bs e] good p4 ps by (auto simp: Let_def word_unat_eq_iff add.assoc)
        have f1: "unat (fuel - 1) = unat fuel - 1" using f0 by (simp add: unat_minus_one)
        have f2: "unat (fuel - 1) < unat fuel" using f0 f1 by (simp add: unat_gt_0)
        have "(unat n - unat ?pos) div 4 < unat (fuel - 1)"
          using less.prems(2) ps good f1 by linarith
        then have "wp (lz4_walk_loop f n desc (fuel - 1) ?pos (blocks @ [?b])) (\<lambda>(st, bl, e).
           (st = CUDEC_OK \<and> (\<exists>bs. bl = (blocks @ [?b]) @ bs \<and> tiles f (unat n) desc (unat ?pos) bs (unat e))) \<or>
           (st = CUDEC_ERR_CORRUPT_INPUT \<and> (\<nexists>bs e. tiles f (unat n) desc (unat ?pos) bs e)))"
          using good ps by (intro less.hyps[OF f2]) auto
        then have "wp (lz4_walk_loop f n desc (fuel - 1) ?pos (blocks @ [?b])) (\<lambda>(st, bl, e).
           (st = CUDEC_OK \<and> (\<exists>bs. bl = blocks @ bs \<and> ?T bs (unat e))) \<or>
           (st = CUDEC_ERR_CORRUPT_INPUT \<and> (\<nexists>bs e. ?T bs e)))"
          by (rule wp_mono) (auto simp: tc)
        then show ?thesis
          using good hd f0 False h0 fit ck
          by (subst lz4_walk_loop.simps) (auto simp: wp_rules Let_def leD top_bit)
      qed
    qed
  qed
qed


lemma walk_contract:
  assumes "unat n < 2 ^ 63" "unat n \<le> length f" "unat (body_off desc) \<le> unat n"
  shows "wp (lz4_walk_frame_blocks f n desc) (\<lambda>(st, bs, e).
     (st = CUDEC_OK \<and> tiles f (unat n) desc (unat (body_off desc)) bs (unat e)) \<or>
     (st = CUDEC_ERR_CORRUPT_INPUT \<and> (\<nexists>bs e. tiles f (unat n) desc (unat (body_off desc)) bs e)))"
proof -
  have "unat (n div 4 + 1) = unat n div 4 + 1"
    using assms(1) by (subst unat_plus) (auto simp: unat_div)
  then have "(unat n - unat (body_off desc)) div 4 < unat (n div 4 + 1)"
    using div_le_mono[of "unat n - unat (body_off desc)" "unat n" 4] by simp
  then show ?thesis unfolding lz4_walk_frame_blocks_def
    by (intro wp_mono[OF walk_loop_contract[OF assms(1,2,3)]]) auto
qed

text \<open>Consequences of the tiling: blocks lie inside the frame, in order and disjoint.\<close>

lemma tiles_ConsE:
  assumes "tiles f n desc pos (b # bs) e"
  obtains pos' where "unat (src_off b) = pos + 4" "unat (src_off b) + unat (src_len b) \<le> pos'"
    "pos' \<le> n" "0 < unat (src_len b)" "unat (src_len b) \<le> unat (block_max desc)"
    "tiles f n desc pos' bs e"
  using assms by (intro that[of "pos + 4 + unat (src_len b) + (if block_checksum desc then 4 else 0)"])
    (auto simp: Let_def w2n unat_gt_0[symmetric] simp del: unat_gt_0)

lemma tiles_bounds:
  "tiles f n desc pos bs e \<Longrightarrow> b \<in> set bs \<Longrightarrow>
   pos < unat (src_off b) \<and> unat (src_off b) + unat (src_len b) \<le> n \<and>
   0 < unat (src_len b) \<and> unat (src_len b) \<le> unat (block_max desc)"
proof (induction bs arbitrary: pos)
  case (Cons a bs)
  from Cons.prems(1) show ?case by (rule tiles_ConsE) (use Cons in fastforce)
qed simp

lemma tiles_end: "tiles f n desc pos bs e \<Longrightarrow> pos < e \<and> e \<le> n"
proof (induction bs arbitrary: pos)
  case (Cons a bs)
  from Cons.prems(1) show ?case by (rule tiles_ConsE) (use Cons.IH in fastforce)
qed simp

lemma tiles_last:
  "tiles f n desc pos bs e \<Longrightarrow> b \<in> set bs \<Longrightarrow> unat (src_off b) + unat (src_len b) < e"
proof (induction bs arbitrary: pos)
  case (Cons a bs)
  from Cons.prems(1) show ?case by (rule tiles_ConsE) (use Cons tiles_end in fastforce)
qed simp

lemma tiles_sorted:
  "tiles f n desc pos bs e \<Longrightarrow> sorted_wrt (\<lambda>a b. unat (src_off a) + unat (src_len a) < unat (src_off b)) bs"
proof (induction bs arbitrary: pos)
  case (Cons b bs)
  from Cons.prems(1) show ?case
  proof (rule tiles_ConsE)
    fix pos' assume p: "unat (src_off b) + unat (src_len b) \<le> pos'" "tiles f n desc pos' bs e"
    then show ?thesis using Cons.IH[OF p(2)] tiles_bounds[OF p(2)] by fastforce
  qed
qed simp

section \<open>The descriptor and the tail\<close>

lemma read64_safe: "unat p + 8 \<le> length f \<Longrightarrow> \<exists>v. lz4_frame_read64le f p = Some v"
  by (simp add: lz4_frame_read64le_def xxh_read32_le32)

lemma descriptor_tail_contract:
  assumes "unat n \<le> length f" "7 \<le> unat n"
  shows "wp (lz4_descriptor_tail f n bsum csize csum bmax out) (\<lambda>(st, d).
     (st = CUDEC_ERR_CORRUPT_INPUT \<and> d = out) \<or>
     (st = CUDEC_OK \<and> unat (body_off d) \<le> unat n \<and> unat (body_off d) = (if csize then 15 else 7) \<and>
        block_max d = bmax \<and> block_checksum d = bsum \<and> content_size d = csize \<and> content_checksum d = csum \<and>
        drop_bit 8 (xxh32_ref (take (unat (body_off d) - 5) (drop 4 f))) AND 0xFF = ucast (f ! (unat (body_off d) - 1))))"
proof (cases csize)
  case True
  then show ?thesis
  proof (cases "n < 14 \<or> n < 15")
    case False
    then have n: "15 \<le> unat n" by (auto simp: w2n)
    obtain v where "lz4_frame_read64le f 6 = Some v" using read64_safe[of 6 f] n assms by auto
    then show ?thesis using True n assms
      by (auto simp: lz4_descriptor_tail_def wp_rules w2n xxhash32_ref Let_def)
  next
    case nlt: True
    show ?thesis
    proof (cases "n < 14")
      case False
      then have n: "14 \<le> unat n" by (auto simp: w2n)
      obtain v where "lz4_frame_read64le f 6 = Some v" using read64_safe[of 6 f] n assms by auto
      then show ?thesis using True nlt False by (simp add: lz4_descriptor_tail_def wp_rules Let_def)
    qed (use True in \<open>simp add: lz4_descriptor_tail_def wp_rules Let_def\<close>)
  qed
next
  case False
  then show ?thesis using assms
    by (auto simp: lz4_descriptor_tail_def wp_rules w2n xxhash32_ref Let_def)
qed

lemma verify_tail_contract:
  assumes "unat n < 2 ^ 63" "unat n \<le> length f" "unat e \<le> unat n" "unat produced \<le> length out"
  shows "lz4_verify_frame_tail f n desc e out produced = Some
     (if (content_size desc \<longrightarrow> declared_content_size desc = produced) \<and>
         (content_checksum desc \<longrightarrow> unat e + 4 \<le> unat n \<and>
            xxh32_ref (take (unat produced) out) = le32 (drop (unat e) f))
      then CUDEC_OK else CUDEC_ERR_CORRUPT_INPUT)"
proof -
  have "unat (e + 4) = unat e + 4" using assms by (subst unat_plus) auto
  then show ?thesis using assms
    by (auto simp: lz4_verify_frame_tail_def w2n xxhash32_ref lz4_read32)
qed

definition skippable_magic :: "u8 list \<Rightarrow> bool" where
  "skippable_magic f \<longleftrightarrow> kLz4SkippableMagicMin \<le> le32 f \<and> le32 f \<le> kLz4SkippableMagicMax"

lemma bmax_cases:
  assumes "\<not> (b < 4 \<or> b > 7)"
  shows "push_bit (unat ((b - 4 :: u8) * 2)) (push_bit 10 kLz4FrameBlockMaxKiB) \<in> {0x10000, 0x40000, 0x100000, 0x400000}"
proof -
  have "unat b \<in> {4, 5, 6, 7}" using assms by (auto simp: w2n)
  then have "b = 4 \<or> b = 5 \<or> b = 6 \<or> b = 7" by (auto simp: word_unat_eq_iff)
  then show ?thesis by (auto simp: lz4f_consts)
qed

lemma descriptor_flags_contract:
  assumes n: "unat n \<le> length f" "7 \<le> unat n"
  shows "wp (lz4_descriptor_flags f n flg bd out) (\<lambda>(st, d).
     st \<in> {CUDEC_OK, CUDEC_ERR_CORRUPT_INPUT, CUDEC_ERR_UNSUPPORTED} \<and>
     (st \<noteq> CUDEC_OK \<longrightarrow> d = out) \<and>
     (st = CUDEC_OK \<longrightarrow>
        unat (body_off d) \<le> unat n \<and> unat (body_off d) = (if content_size d then 15 else 7) \<and>
        block_max d \<in> {0x10000, 0x40000, 0x100000, 0x400000} \<and>
        drop_bit 8 (xxh32_ref (take (unat (body_off d) - 5) (drop 4 f))) AND 0xFF =
          ucast (f ! (unat (body_off d) - 1))) \<and>
     (st = CUDEC_ERR_UNSUPPORTED \<longrightarrow> drop_bit 5 flg AND 1 = 0 \<or> flg AND 1 \<noteq> 0))"
  unfolding lz4_descriptor_flags_def
  by (intro wp_intro wp_mono[OF descriptor_tail_contract[OF n]])
    (use bmax_cases[of "drop_bit 4 bd AND 7"] in auto)

lemma descriptor_contract:
  assumes n: "unat n \<le> length f"
  shows "wp (lz4_parse_frame_descriptor f n out) (\<lambda>(st, d).
     st \<in> {CUDEC_OK, CUDEC_ERR_CORRUPT_INPUT, CUDEC_ERR_UNSUPPORTED} \<and>
     (st \<noteq> CUDEC_OK \<longrightarrow> d = out) \<and>
     (st = CUDEC_OK \<longrightarrow> le32 f = kLz4FrameMagic \<and>
        unat (body_off d) \<le> unat n \<and> unat (body_off d) = (if content_size d then 15 else 7) \<and>
        block_max d \<in> {0x10000, 0x40000, 0x100000, 0x400000} \<and>
        drop_bit 8 (xxh32_ref (take (unat (body_off d) - 5) (drop 4 f))) AND 0xFF =
          ucast (f ! (unat (body_off d) - 1))) \<and>
     (st = CUDEC_ERR_UNSUPPORTED \<longrightarrow> skippable_magic f \<or>
        le32 f = kLz4FrameMagic \<and> 
        (drop_bit 5 (f ! 4) AND 1 = 0 \<or> f ! 4 AND 1 \<noteq> 0)) \<and>
     (4 \<le> unat n \<and> skippable_magic f \<longrightarrow> st = CUDEC_ERR_UNSUPPORTED))"
proof (cases "n < 4")
  case False
  then have n4: "4 \<le> unat n" by (simp add: w2n)
  then have r: "lz4_frame_read32le f 0 = Some (le32 f)" using lz4_read32[of 0 f] n by simp
  show ?thesis
  proof (cases "skippable_magic f")
    case True
    then show ?thesis using False r
      by (simp add: lz4_parse_frame_descriptor_def skippable_magic_def wp_rules)
  next
    case sk: False
    show ?thesis
    proof (cases "n < kLz4FrameMinHeaderBytes \<or> le32 f \<noteq> kLz4FrameMagic")
      case True
      then show ?thesis using False r sk
        by (auto simp: lz4_parse_frame_descriptor_def skippable_magic_def[of f] wp_rules)
    next
      case h: False
      then have n7: "7 \<le> unat n" by (simp add: w2n lz4f_consts)
      then have rds: "rd f 4 = Some (f ! 4)" "rd f 5 = Some (f ! 5)" using n by (simp_all add: rd_def)
      note tail = descriptor_tail_contract[OF n n7]
      show ?thesis
        using False r rds h sk
        by (auto simp: lz4_parse_frame_descriptor_def skippable_magic_def
            intro!: wp_mono[OF descriptor_flags_contract[OF n n7]])
    qed
  qed
qed (auto simp: lz4_parse_frame_descriptor_def wp_rules w2n)

section \<open>The descriptor the frame format defines\<close>

text \<open>
  The fields read off the bytes with the format's own numbers: the version is the top two bits of
  FLG, below it stand block independence, block checksums, content size, content checksum, a
  reserved bit and the dictionary; BD holds the block maximum in its middle bits and nothing else.
\<close>

definition skippable_frame :: "u8 list \<Rightarrow> nat \<Rightarrow> bool" where
  "skippable_frame f n \<longleftrightarrow> 4 \<le> n \<and> le_nat (take 4 f) div 16 = 0x184D2A5"

definition descriptor_shape :: "u8 list \<Rightarrow> nat \<Rightarrow> bool" where
  "descriptor_shape f n \<longleftrightarrow> 7 \<le> n \<and> le_nat (take 4 f) = 0x184D2204 \<and>
     unat (f ! 4) div 64 = 1 \<and> even (unat (f ! 4) div 2) \<and>
     unat (f ! 5) mod 16 = 0 \<and> unat (f ! 5) div 16 \<in> {4, 5, 6, 7}"

definition descriptor_supported :: "u8 list \<Rightarrow> bool" where
  "descriptor_supported f \<longleftrightarrow> odd (unat (f ! 4) div 32) \<and> even (unat (f ! 4))"

definition descriptor_end :: "u8 list \<Rightarrow> nat" where
  "descriptor_end f = (if odd (unat (f ! 4) div 8) then 14 else 6)"

definition descriptor_sum :: "u8 list \<Rightarrow> nat \<Rightarrow> bool" where
  "descriptor_sum f n \<longleftrightarrow> descriptor_end f < n \<and>
     xxh32_spec (take (descriptor_end f - 4) (drop 4 f)) div 256 mod 256 = unat (f ! descriptor_end f)"

definition descriptor_fields :: "u8 list \<Rightarrow> lz4_frame_descriptor \<Rightarrow> bool" where
  "descriptor_fields f d \<longleftrightarrow>
     block_checksum d = odd (unat (f ! 4) div 16) \<and> content_size d = odd (unat (f ! 4) div 8) \<and>
     content_checksum d = odd (unat (f ! 4) div 4) \<and> unat (block_max d) = 2 ^ (2 * (unat (f ! 5) div 16) + 8) \<and>
     unat (declared_content_size d) = (if odd (unat (f ! 4) div 8) then le_nat (take 8 (drop 6 f)) else 0) \<and>
     unat (body_off d) = descriptor_end f + 1"

text \<open>The answer a descriptor deserves, in the order the format is checked.\<close>

definition descriptor_verdict :: "u8 list \<Rightarrow> nat \<Rightarrow> cudec_status" where
  "descriptor_verdict f n =
     (if skippable_frame f n then CUDEC_ERR_UNSUPPORTED
      else if \<not> descriptor_shape f n then CUDEC_ERR_CORRUPT_INPUT
      else if \<not> descriptor_supported f then CUDEC_ERR_UNSUPPORTED
      else if \<not> descriptor_sum f n then CUDEC_ERR_CORRUPT_INPUT else CUDEC_OK)"

lemma flag_bit: "drop_bit k (x :: u8) AND 1 \<noteq> 0 \<longleftrightarrow> odd (unat x div 2 ^ k)"
  by (simp add: drop_bit_and_1 bit_unsigned_iff flip: bit_iff_odd)

lemma flag_bits:
  "drop_bit 5 (x :: u8) AND 1 \<noteq> 0 \<longleftrightarrow> odd (unat x div 32)" "drop_bit 4 x AND 1 \<noteq> 0 \<longleftrightarrow> odd (unat x div 16)"
  "drop_bit 3 x AND 1 \<noteq> 0 \<longleftrightarrow> odd (unat x div 8)" "drop_bit 2 x AND 1 \<noteq> 0 \<longleftrightarrow> odd (unat x div 4)"
  "x AND 1 \<noteq> 0 \<longleftrightarrow> odd (unat x)"
  using flag_bit[of 5 x] flag_bit[of 4 x] flag_bit[of 3 x] flag_bit[of 2 x] flag_bit[of 0 x] by simp_all

lemma flag_version: "drop_bit 6 (x :: u8) AND 3 \<noteq> 1 \<or> x AND 2 \<noteq> 0 \<longleftrightarrow> \<not> (unat x div 64 = 1 \<and> even (unat x div 2))"
proof -
  have "unat (drop_bit 6 x AND mask 2) = unat x div 64" using unat_u8_less[of x] by (simp add: unat_and_mask unat_drop_bit)
  then have v: "drop_bit 6 x AND 3 = 1 \<longleftrightarrow> unat x div 64 = 1" by (simp add: mask_eq_exp_minus_1 word_unat_eq_iff)
  have "x AND 2 \<noteq> 0 \<longleftrightarrow> bit x 1"
    using and_exp_eq_0_iff_not_bit[of x 1] by simp
  also have "\<dots> \<longleftrightarrow> odd (unat x div 2)" using flag_bit[of 1 x] by (simp add: drop_bit_and_1)
  finally show ?thesis using v by simp
qed

lemma bd_reserved: "(x :: u8) AND 0x8F \<noteq> 0 \<longleftrightarrow> \<not> (unat x mod 16 = 0 \<and> unat x < 128)"
proof -
  have c: "(0x8F :: u8) = mask 4 OR NOT (mask 7)" by (simp add: mask_eq_exp_minus_1)
  have "x AND 0x8F = (x AND mask 4) OR (x AND NOT (mask 7))" unfolding c by (rule bit_eqI) (auto simp: bit_simps)
  then have "x AND 0x8F = 0 \<longleftrightarrow> x AND mask 4 = 0 \<and> x AND NOT (mask 7) = 0" by (simp only: or_eq_0_iff)
  moreover have "x AND mask 4 = 0 \<longleftrightarrow> unat x mod 16 = 0"
    using unat_and_mask[of x 4] by (simp add: word_unat_eq_iff)
  ultimately show ?thesis by (simp add: and_not_mask_0)
qed

lemma le_nat_app: "le_nat (xs @ ys) = le_nat xs + 256 ^ length xs * le_nat ys"
  by (induction xs) (simp_all add: distrib_left)

lemma read64_value:
  assumes "unat p + 8 \<le> length f"
  shows "wp (lz4_frame_read64le f p) (\<lambda>v. unat v = le_nat (take 8 (drop (unat p) f)))"
proof -
  let ?g = "drop (unat p) f"
  have "le_nat (take 8 ?g) = le_nat (take 4 ?g) + 2 ^ 32 * le_nat (take 4 (drop 4 ?g))"
    using assms le_nat_app[of "take 4 ?g" "take 4 (drop 4 ?g)"] take_add[of 4 4 ?g] by simp
  then have t: "le_nat (take 8 ?g) = unat (le32 ?g) + unat (le32 (drop (unat p + 4) f)) * 2 ^ 32"
    by (simp add: le32_value add.commute)
  have l: "unat (ucast (le32 g) :: u64) < 2 ^ 32" for g using unat_u32_less[of "le32 g"] by simp
  have "unat (ucast (le32 ?g) OR push_bit 32 (ucast (le32 (drop (unat p + 4) f)) :: u64)) = le_nat (take 8 ?g)"
    unfolding t using l[of "drop (unat p + 4) f"] by (subst unat_or_push[OF l]) simp_all
  then show ?thesis
    using assms by (simp add: lz4_frame_read64le_def xxh_read32_le32 wp_rules)
qed


lemma sum_byte: "drop_bit 8 (h :: u32) AND 0xFF = ucast (c :: u8) \<longleftrightarrow> unat h div 256 mod 256 = unat c"
  using unat_and_mask[of "drop_bit 8 h" 8] by (simp add: unat_drop_bit mask_eq_exp_minus_1 word_unat_eq_iff)

lemma descriptor_tail_exact:
  assumes n: "unat n \<le> length f" "7 \<le> unat n" and cs: "csize \<longleftrightarrow> odd (unat (f ! 4) div 8)"
  shows "wp (lz4_descriptor_tail f n bsum csize csum bmax out) (\<lambda>(st, d).
     if descriptor_sum f (unat n) then st = CUDEC_OK \<and> block_checksum d = bsum \<and> content_size d = csize \<and>
       content_checksum d = csum \<and> block_max d = bmax \<and>
       unat (declared_content_size d) = (if csize then le_nat (take 8 (drop 6 f)) else 0) \<and>
       unat (body_off d) = descriptor_end f + 1
     else st = CUDEC_ERR_CORRUPT_INPUT \<and> d = out)"
proof -
  have v: "unat (xxh32_ref (take k (drop 4 f))) = xxh32_spec (take k (drop 4 f))" if "k \<le> 10" for k
    using that by (intro xxh32_value) simp
  note s = sum_byte[of "xxh32_ref _"] 
  show ?thesis
  proof (cases csize)
    case True
    then have e: "descriptor_end f = 14" using cs by (simp add: descriptor_end_def)
    show ?thesis
    proof (cases "n < 14")
      case True
      then show ?thesis using \<open>csize\<close> e n by (simp add: lz4_descriptor_tail_def wp_rules descriptor_sum_def w2n)
    next
      case False
      then have n14: "14 \<le> unat n" by (simp add: w2n)
      then obtain x where x: "lz4_frame_read64le f 6 = Some x" "unat x = le_nat (take 8 (drop 6 f))"
        using read64_value[of 6 f] n by (auto elim: wpE)
      show ?thesis
      proof (cases "n < 15")
        case True
        then show ?thesis using \<open>csize\<close> e n False x by (simp add: lz4_descriptor_tail_def wp_rules descriptor_sum_def w2n)
      next
        case nn: False
        then have n15: "15 \<le> unat n" by (simp add: w2n)
        have r: "rd f 14 = Some (f ! 14)" "xxhash32 f 4 10 = Some (xxh32_ref (take 10 (drop 4 f)))"
          using n n15 by (simp_all add: rd_def xxhash32_ref)
        show ?thesis using \<open>csize\<close> e n15 False nn x r v[of 10]
          by (simp add: lz4_descriptor_tail_def wp_rules descriptor_sum_def s Let_def)
      qed
    qed
  next
    case False
    then have e: "descriptor_end f = 6" using cs by (simp add: descriptor_end_def)
    have r: "rd f 6 = Some (f ! 6)" "xxhash32 f 4 2 = Some (xxh32_ref (take 2 (drop 4 f)))"
      using n by (simp_all add: rd_def xxhash32_ref)
    have "\<not> n < 7" using n by (simp add: w2n)
    then show ?thesis using False e n r v[of 2]
      by (simp add: lz4_descriptor_tail_def wp_rules descriptor_sum_def s Let_def)
  qed
qed

lemma bmax_value:
  assumes "unat (b :: u8) div 16 \<in> {4, 5, 6, 7}"
  shows "unat (push_bit (unat (((drop_bit 4 b AND 7) - 4) * 2)) (push_bit 10 kLz4FrameBlockMaxKiB)) = 2 ^ (2 * (unat b div 16) + 8)"
proof -
  have "unat (drop_bit 4 b AND mask 3) = unat b div 16"
    using assms by (auto simp: unat_and_mask unat_drop_bit)
  then have u: "unat (drop_bit 4 b AND 7) = unat b div 16" by (simp add: mask_eq_exp_minus_1)
  define c where "c = drop_bit 4 b AND 7"
  have "unat c \<in> {4, 5, 6, 7}" using assms u by (simp add: c_def)
  then have "c = 4 \<or> c = 5 \<or> c = 6 \<or> c = 7" by (auto simp: word_unat_eq_iff)
  then show ?thesis unfolding u[symmetric] c_def[symmetric] by (auto simp: lz4f_consts)
qed


lemma bmax_range:
  "bd AND 0x8F \<noteq> 0 \<or> drop_bit 4 (bd :: u8) AND 7 < 4 \<or> drop_bit 4 bd AND 7 > 7 \<longleftrightarrow>
   \<not> (unat bd mod 16 = 0 \<and> unat bd div 16 \<in> {4, 5, 6, 7})"
proof -
  have u: "unat (drop_bit 4 bd AND 7) = unat bd div 16 mod 8"
    using unat_and_mask[of "drop_bit 4 bd" 3] by (simp add: unat_drop_bit mask_eq_exp_minus_1)
  have "unat bd div 16 \<in> {4, 5, 6, 7} \<longleftrightarrow> unat bd < 128 \<and> 4 \<le> unat bd div 16"
    using unat_u8_less[of bd] by auto
  moreover have "unat bd < 128 \<Longrightarrow> unat bd div 16 mod 8 = unat bd div 16" by simp
  ultimately show ?thesis using bd_reserved[of bd] by (auto simp: w2n u)
qed

lemma descriptor_flags_exact:
  assumes n: "unat n \<le> length f" "7 \<le> unat n" and m: "le_nat (take 4 f) = 0x184D2204"
  shows "wp (lz4_descriptor_flags f n (f ! 4) (f ! 5) out) (\<lambda>(st, d).
     st = descriptor_verdict f (unat n) \<and> (if st = CUDEC_OK then descriptor_fields f d else d = out))"
proof -
  have sk: "\<not> skippable_frame f (unat n)" using m by (simp add: skippable_frame_def)
  show ?thesis
  proof (cases "descriptor_shape f (unat n)")
    case False
    then have "\<not> (unat (f ! 4) div 64 = 1 \<and> even (unat (f ! 4) div 2)) \<or>
      \<not> (unat (f ! 5) mod 16 = 0 \<and> unat (f ! 5) div 16 \<in> {4, 5, 6, 7})"
      using n m by (simp add: descriptor_shape_def)
    then have "(drop_bit 6 (f ! 4) AND 3 \<noteq> 1 \<or> f ! 4 AND 2 \<noteq> 0) \<or>
      (f ! 5 AND 0x8F \<noteq> 0 \<or> drop_bit 4 (f ! 5) AND 7 < 4 \<or> drop_bit 4 (f ! 5) AND 7 > 7)"
      unfolding flag_version bmax_range .
    then show ?thesis using False sk unfolding lz4_descriptor_flags_def Let_def descriptor_verdict_def wp_if wp_Some by simp
  next
    case True
    then have ok: "\<not> (drop_bit 6 (f ! 4) AND 3 \<noteq> 1 \<or> f ! 4 AND 2 \<noteq> 0)"
      "\<not> (f ! 5 AND 0x8F \<noteq> 0 \<or> drop_bit 4 (f ! 5) AND 7 < 4 \<or> drop_bit 4 (f ! 5) AND 7 > 7)"
      and bm: "unat (f ! 5) div 16 \<in> {4, 5, 6, 7}"
      unfolding flag_version bmax_range by (simp_all add: descriptor_shape_def)
    note ok2 = ok(2)[unfolded de_Morgan_disj]
    have sup: "(\<not> drop_bit 5 (f ! 4) AND 1 \<noteq> 0 \<or> f ! 4 AND 1 \<noteq> 0) \<longleftrightarrow> \<not> descriptor_supported f"
      unfolding descriptor_supported_def flag_bits(1) flag_bits(5)[of "f ! 4"] by blast
    show ?thesis
    proof (cases "descriptor_supported f")
      case False
      then show ?thesis using ok(1) ok2 sup sk True
        unfolding lz4_descriptor_flags_def Let_def descriptor_verdict_def wp_if wp_Some by simp
    next
      case su: True
      show ?thesis
        unfolding lz4_descriptor_flags_def Let_def if_not_P[OF ok(1)] 
        using ok2 sup su
        apply (simp only: if_False de_Morgan_disj simp_thms)
        apply (rule wp_mono[OF descriptor_tail_exact[OF n flag_bits(3)]])
        using sk True su bmax_value[OF bm] flag_bits[of "f ! 4"]
        by (auto simp: descriptor_verdict_def descriptor_fields_def split: if_splits)
    qed
  qed
qed

lemma descriptor_exact:
  assumes n: "unat n \<le> length f"
  shows "wp (lz4_parse_frame_descriptor f n out) (\<lambda>(st, d).
     st = descriptor_verdict f (unat n) \<and> (if st = CUDEC_OK then descriptor_fields f d else d = out))"
proof (cases "n < 4")
  case True
  then have "unat n < 4" by (simp add: w2n)
  then show ?thesis using True
    by (simp add: lz4_parse_frame_descriptor_def wp_rules descriptor_verdict_def skippable_frame_def descriptor_shape_def)
next
  case False
  then have n4: "4 \<le> unat n" by (simp add: w2n)
  then have r: "lz4_frame_read32le f 0 = Some (le32 f)" using lz4_read32[of 0 f] n by simp
  have sk: "skippable_frame f (unat n) \<longleftrightarrow> kLz4SkippableMagicMin \<le> le32 f \<and> le32 f \<le> kLz4SkippableMagicMax"
    using n4 le32_value[of f] by (auto simp: skippable_frame_def w2n lz4f_consts)
  have mg: "le32 f = kLz4FrameMagic \<longleftrightarrow> le_nat (take 4 f) = 0x184D2204"
    using le32_value[of f] by (simp add: word_unat_eq_iff lz4f_consts)
  show ?thesis
  proof (cases "skippable_frame f (unat n)")
    case True
    then show ?thesis using False r sk
      by (simp add: lz4_parse_frame_descriptor_def wp_rules descriptor_verdict_def)
  next
    case ns: False
    show ?thesis
    proof (cases "n < kLz4FrameMinHeaderBytes \<or> le32 f \<noteq> kLz4FrameMagic")
      case True
      then have "\<not> descriptor_shape f (unat n)" using mg by (auto simp: descriptor_shape_def w2n lz4f_consts)
      then show ?thesis using False r ns sk True
        by (simp add: lz4_parse_frame_descriptor_def wp_rules descriptor_verdict_def)
    next
      case h: False
      then have n7: "7 \<le> unat n" by (simp add: w2n lz4f_consts)
      then have rds: "rd f 4 = Some (f ! 4)" "rd f 5 = Some (f ! 5)" using n by (simp_all add: rd_def)
      have m: "le_nat (take 4 f) = 0x184D2204" using h mg by simp
      have sk': "\<not> (le32 f \<ge> kLz4SkippableMagicMin \<and> le32 f \<le> kLz4SkippableMagicMax)" using ns sk by blast
      show ?thesis
        unfolding lz4_parse_frame_descriptor_def if_not_P[OF False] r rds bind.bind_lunit if_not_P[OF sk'] if_not_P[OF h]
        by (rule descriptor_flags_exact[OF n n7 m])
    qed
  qed
qed

end
