(* ===== verification/Frame_Properties.thy ===== *)
theory Frame_Properties
  imports Lz4_Frame
begin

text \<open>
  What the LZ4 frame reader promises: the content hash is XXH32, the block walk accepts exactly
  the tilings of the frame, the descriptor and the tail accept exactly what their fields say.
\<close>

text \<open>C26: the hash routine, on any range inside its buffer, computes XXH32 as its specification
  reads: four lanes over sixteen-byte stripes, then words, then bytes, then the avalanche, with the
  specification's own primes, rotations and shifts over natural numbers.\<close>

theorem xxhash32_equals_spec:
  assumes "p + unat len \<le> length data"
  shows "wp (xxhash32 data p len) (\<lambda>h. unat h = xxh32_spec (take (unat len) (drop p data)))"
proof -
  have "length (take (unat len) (drop p data)) < 2 ^ 64" using unat_u64_less[of len] by simp
  then show ?thesis using xxhash32_ref[OF assms] by (simp add: wp_Some xxh32_value)
qed

theorem xxhash32_equals_spec_witness:
  "wp (xxhash32 [9, 97] 1 1) (\<lambda>h. unat h = 0x550D7456) \<and> wp (xxhash32 [97] 0 0) (\<lambda>h. unat h = 0x02CC5D05)"
  using xxhash32_equals_spec[of 1 1 "[9, 97]"] xxhash32_equals_spec[of 0 0 "[97]"]
  by (simp add: xxh32_known)

text \<open>C14: the walk accepts a frame body exactly when it is tiled by blocks that carry their
  checksums, up to an end mark inside the frame, and then reports exactly that tiling; otherwise it
  reports corrupt input. It never reads outside the frame and never runs out of steps.\<close>

theorem walk_accepts_tilings:
  assumes "unat n < 2 ^ 63" "unat n \<le> length f" "unat (body_off desc) \<le> unat n"
  shows "wp (lz4_walk_frame_blocks f n desc) (\<lambda>(st, bs, e).
     (st = CUDEC_OK \<and> tiles f (unat n) desc (unat (body_off desc)) bs (unat e)) \<or>
     (st = CUDEC_ERR_CORRUPT_INPUT \<and> (\<nexists>bs e. tiles f (unat n) desc (unat (body_off desc)) bs e)))"
  by (rule walk_contract[OF assms])

definition plain_desc :: "u64 \<Rightarrow> lz4_frame_descriptor" where
  "plain_desc off = \<lparr>block_checksum = False, content_size = False, content_checksum = False,
     block_max = 0x10000, declared_content_size = 0, body_off = off\<rparr>"

theorem walk_accepts_tilings_witness:
  "wp (lz4_walk_frame_blocks [1, 0, 0, 0x80, 9, 0, 0, 0, 0] 9 (plain_desc 0)) (\<lambda>(st, bs, e).
     st = CUDEC_OK \<or> st = CUDEC_ERR_CORRUPT_INPUT)"
  using walk_accepts_tilings[of 9 "[1, 0, 0, 0x80, 9, 0, 0, 0, 0]" "plain_desc 0"]
  by (rule wp_mono) (auto simp: plain_desc_def)

text \<open>C37: the descriptor parser answers on every frame, whatever its bytes, exactly as the format
  reads. A skippable frame is unsupported; a frame without the magic, the version, clear reserved
  bits and one of the four block maxima is corrupt; one with linked blocks or a dictionary is
  unsupported; one whose header checksum does not hold, or lies outside the frame, is corrupt; every
  other is accepted, with each field read from its own bits. A refusal leaves the descriptor as it
  was.\<close>

theorem descriptor_answers:
  assumes "unat n \<le> length f"
  shows "wp (lz4_parse_frame_descriptor f n out) (\<lambda>(st, d).
     st = descriptor_verdict f (unat n) \<and> (if st = CUDEC_OK then descriptor_fields f d else d = out))"
  by (rule descriptor_exact[OF assms])

lemma header_digest: "xxh32_spec [0x60, 0x40] div 256 mod 256 = 0x82"
  by (simp add: xxh32_spec_def add32_def mul32_def rot32_def, simp add: spec32_avalanche_def, simp add: mul32_def)

lemma smallest_header: "descriptor_verdict [4, 0x22, 0x4D, 0x18, 0x60, 0x40, 0x82] 7 = CUDEC_OK"
  by (simp add: descriptor_verdict_def skippable_frame_def descriptor_shape_def descriptor_supported_def
      descriptor_sum_def descriptor_end_def header_digest)

theorem descriptor_answers_witness:
  "wp (lz4_parse_frame_descriptor [4, 0x22, 0x4D, 0x18, 0x60, 0x40, 0x82] 7 (plain_desc 0)) (\<lambda>(st, d).
     st = CUDEC_OK \<and> \<not> block_checksum d \<and> unat (block_max d) = 65536 \<and> unat (body_off d) = 7)"
  by (rule wp_mono[OF descriptor_answers])
    (auto simp: smallest_header descriptor_fields_def descriptor_end_def split: if_splits)

text \<open>C38: the tail check accepts exactly when the declared content size, if there is one, is the
  size produced and the content checksum, if there is one, lies in the frame and is the XXH32 of
  the output.\<close>

theorem tail_accepts:
  assumes "unat n < 2 ^ 63" "unat n \<le> length f" "unat e \<le> unat n" "unat produced \<le> length out"
  shows "lz4_verify_frame_tail f n desc e out produced = Some
     (if (content_size desc \<longrightarrow> declared_content_size desc = produced) \<and>
         (content_checksum desc \<longrightarrow> unat e + 4 \<le> unat n \<and>
            xxh32_ref (take (unat produced) out) = le32 (drop (unat e) f))
      then CUDEC_OK else CUDEC_ERR_CORRUPT_INPUT)"
  by (rule verify_tail_contract[OF assms])

theorem tail_accepts_witness:
  "lz4_verify_frame_tail [1] 1 (plain_desc 0) 0 [7] 1 = Some CUDEC_OK"
  using tail_accepts[of 1 "[1]" 0 1 "[7]" "plain_desc 0"] by (simp add: plain_desc_def)

end
