(* ===== verification/Zstd_Bitstream.thy ===== *)
theory Zstd_Bitstream
  imports Prelude
begin

text \<open>
  The backward bit reader of the entropy streams, \<open>src/zstd_bitstream.h\<close>: the start
  marker, the closed-form bit position, the sticky overrun. The interface the decoders rely on
  is the locale \<open>bit_source\<close>.
\<close>

definition kZstdBitsPerByte :: u64 where "kZstdBitsPerByte = 8"
definition kZstdBitReadMax :: u32 where "kZstdBitReadMax = 57"

datatype zstd_bit_reject =
    kZstdBitRejectNone
  | kZstdBitRejectEmptyStream
  | kZstdBitRejectNoStartMarker
  | kZstdBitRejectNotStarted
  | kZstdBitRejectReadTooWide
  | kZstdBitRejectPastStart
  | kZstdBitRejectAlreadyOverrun

definition zstd_highest_set_bit :: "u8 \<Rightarrow> u32" where
  "zstd_highest_set_bit byte =
     foldl (\<lambda>highest i. if drop_bit i byte AND 1 \<noteq> 0 then of_nat i else highest) 0 [0..<8]"

record zstd_bit_reader =
  br_src :: "u8 list"
  br_size :: u64
  bits_total :: u64
  bits_read :: u64
  marker_bits :: u32
  started :: bool
  overrun :: bool
  br_reject :: zstd_bit_reject

definition zstd_bit_reader_init :: "u8 list \<Rightarrow> u64 \<Rightarrow> zstd_bit_reader" where
  "zstd_bit_reader_init s n = \<lparr>br_src = s, br_size = n, bits_total = 0, bits_read = 0, marker_bits = 0,
     started = False, overrun = False, br_reject = kZstdBitRejectNone\<rparr>"

definition zstd_bit_start :: "zstd_bit_reader \<Rightarrow> (cudec_status \<times> zstd_bit_reader) option" where
  "zstd_bit_start r =
     (if started r then Some (CUDEC_OK, r)
      else if br_size r = 0
      then Some (CUDEC_ERR_CORRUPT_INPUT, r\<lparr>br_reject := kZstdBitRejectEmptyStream\<rparr>)
      else do {
        last \<leftarrow> rd (br_src r) (br_size r - 1);
        if last = 0
        then Some (CUDEC_ERR_CORRUPT_INPUT, r\<lparr>br_reject := kZstdBitRejectNoStartMarker\<rparr>)
        else do {
          let m = zstd_highest_set_bit last;
          Some (CUDEC_OK, r\<lparr>marker_bits := m,
                  bits_total := (br_size r - 1) * kZstdBitsPerByte + ucast m,
                  bits_read := 0, started := True\<rparr>)
        }
      })"

definition zstd_bits_remaining :: "zstd_bit_reader \<Rightarrow> u64" where
  "zstd_bits_remaining r = bits_total r - bits_read r"

definition zstd_at_end :: "zstd_bit_reader \<Rightarrow> bool" where
  "zstd_at_end r \<longleftrightarrow> bits_read r = bits_total r"

definition zstd_bit_at :: "zstd_bit_reader \<Rightarrow> u64 \<Rightarrow> u8 option" where
  "zstd_bit_at r index =
     (if index < ucast (marker_bits r) then do {
        b \<leftarrow> rd (br_src r) (br_size r - 1);
        let shift = unat (ucast (marker_bits r - 1) - index);
        Some (drop_bit shift b AND 1)
      } else do {
        let below = index - ucast (marker_bits r);
        b \<leftarrow> rd (br_src r) (br_size r - 2 - below div kZstdBitsPerByte);
        let shift = unat (kZstdBitsPerByte - 1 - below mod kZstdBitsPerByte);
        Some (drop_bit shift b AND 1)
      })"

fun zstd_accumulate :: "zstd_bit_reader \<Rightarrow> nat list \<Rightarrow> u64 \<Rightarrow> u64 option" where
  "zstd_accumulate r [] acc = Some acc"
| "zstd_accumulate r (i # is) acc = do {
     b \<leftarrow> zstd_bit_at r (bits_read r + of_nat i);
     zstd_accumulate r is (push_bit 1 acc OR ucast b)
   }"

definition zstd_read_bits ::
    "u32 \<Rightarrow> zstd_bit_reader \<Rightarrow> (cudec_status \<times> u64 \<times> zstd_bit_reader) option" where
  "zstd_read_bits count r =
     (if overrun r
      then Some (CUDEC_ERR_CORRUPT_INPUT, 0, r\<lparr>br_reject := kZstdBitRejectAlreadyOverrun\<rparr>)
      else if \<not> started r
      then Some (CUDEC_ERR_CORRUPT_INPUT, 0, r\<lparr>br_reject := kZstdBitRejectNotStarted\<rparr>)
      else if count > kZstdBitReadMax
      then Some (CUDEC_ERR_CORRUPT_INPUT, 0, r\<lparr>br_reject := kZstdBitRejectReadTooWide\<rparr>)
      else if count = 0 then Some (CUDEC_OK, 0, r)
      else if ucast count > zstd_bits_remaining r
      then Some (CUDEC_ERR_CORRUPT_INPUT, 0,
             r\<lparr>overrun := True, br_reject := kZstdBitRejectPastStart\<rparr>)
      else do {
        v \<leftarrow> zstd_accumulate r [0..<unat count] 0;
        Some (CUDEC_OK, v, r\<lparr>bits_read := bits_read r + ucast count\<rparr>)
      })"

section \<open>The stream as a list of bits\<close>

text \<open>
  The format's own reading of a stream: its bytes as one bit string, walked backwards from the
  most significant bit of the last byte, the padding zeros and the marker removed.
\<close>

definition byte_bits :: "u8 \<Rightarrow> bool list" where
  "byte_bits b = map (bit b) [0..<8]"

definition stream_bits :: "u8 list \<Rightarrow> bool list" where
  "stream_bits s = tl (dropWhile Not (rev (concat (map byte_bits s))))"

definition bits_value :: "bool list \<Rightarrow> nat" where
  "bits_value bs = foldl (\<lambda>acc b. 2 * acc + of_bool b) 0 bs"

definition live_bits :: "zstd_bit_reader \<Rightarrow> bool list" where
  "live_bits r = drop (unat (bits_read r)) (stream_bits (take (unat (br_size r)) (br_src r)))"

definition reader_ok :: "zstd_bit_reader \<Rightarrow> bool" where
  "reader_ok r \<longleftrightarrow> unat (br_size r) \<le> length (br_src r) \<and> unat (br_size r) < 2 ^ 60 \<and>
     (started r \<longrightarrow> br_size r \<noteq> 0 \<and> br_src r ! (unat (br_size r) - 1) \<noteq> 0 \<and>
        marker_bits r = zstd_highest_set_bit (br_src r ! (unat (br_size r) - 1)) \<and>
        unat (bits_total r) = (unat (br_size r) - 1) * 8 + unat (marker_bits r) \<and>
        unat (bits_read r) \<le> unat (bits_total r))"

section \<open>The closed form walks that list\<close>

lemma upt_small: "[0..<1] = [0 :: nat]" "[0..<2] = [0, 1 :: nat]" "[0..<3] = [0, 1, 2 :: nat]"
  "[0..<4] = [0, 1, 2, 3 :: nat]" "[0..<5] = [0, 1, 2, 3, 4 :: nat]" "[0..<6] = [0, 1, 2, 3, 4, 5 :: nat]"
  "[0..<7] = [0, 1, 2, 3, 4, 5, 6 :: nat]" "[0..<8] = [0, 1, 2, 3, 4, 5, 6, 7 :: nat]"
  by (simp_all add: upt_rec)

lemma bits_nonzero: "(b :: u8) \<noteq> 0 \<Longrightarrow> \<exists>k < 8. bit b k"
  by (auto simp: bit_eq_iff bit_simps)

lemma highest_set_bit:
  assumes "b \<noteq> 0"
  shows "dropWhile Not (rev (byte_bits b)) = True # map (bit b) (rev [0..<unat (zstd_highest_set_bit b)])"
    and "unat (zstd_highest_set_bit b) < 8"
proof -
  obtain k where "k < 8" "bit b k" using bits_nonzero[OF assms] by auto
  moreover have "k = 0 \<or> k = 1 \<or> k = 2 \<or> k = 3 \<or> k = 4 \<or> k = 5 \<or> k = 6 \<or> k = 7"
    using \<open>k < 8\<close> by linarith
  ultimately have "bit b 0 \<or> bit b 1 \<or> bit b 2 \<or> bit b 3 \<or> bit b 4 \<or> bit b 5 \<or> bit b 6 \<or> bit b 7"
    by blast
  then show "dropWhile Not (rev (byte_bits b)) = True # map (bit b) (rev [0..<unat (zstd_highest_set_bit b)])"
    "unat (zstd_highest_set_bit b) < 8"
    by (auto simp: zstd_highest_set_bit_def byte_bits_def upt_small drop_bit_and_1)
qed

lemma nth_concat_bits:
  "k < 8 * length t \<Longrightarrow> concat (map byte_bits t) ! k = bit (t ! (k div 8)) (k mod 8)"
proof (induction t arbitrary: k)
  case (Cons b t)
  show ?case
  proof (cases "k < 8")
    case True
    then show ?thesis by (simp add: byte_bits_def nth_append)
  next
    case False
    then have "k div 8 = Suc ((k - 8) div 8)" "(k - 8) mod 8 = k mod 8"
      by (simp_all add: le_div_geq le_mod_geq)
    then show ?thesis using False Cons by (simp add: byte_bits_def nth_append)
  qed
qed simp

lemma length_concat_bits: "length (concat (map byte_bits t)) = 8 * length t"
  by (induction t) (auto simp: byte_bits_def)

lemma back_div_mod:
  assumes "j < 8 * (L::nat)"
  shows "(8 * L - Suc j) div 8 = L - 1 - j div 8" "(8 * L - Suc j) mod 8 = 7 - j mod 8"
proof -
  have "j div 8 < L" using assms by (simp add: less_mult_imp_div_less mult.commute)
  moreover have "j = 8 * (j div 8) + j mod 8" "j mod 8 < 8" by simp_all
  moreover obtain c where c: "7 - j mod 8 = c" by simp
  ultimately have e: "8 * L - Suc j = 8 * (L - 1 - j div 8) + c" and l: "c < 8" by linarith+
  show "(8 * L - Suc j) div 8 = L - 1 - j div 8" unfolding e using l by simp
  show "(8 * L - Suc j) mod 8 = 7 - j mod 8" unfolding e c using l by simp
qed

lemma nth_stream_bits:
  assumes "s \<noteq> []" "last s \<noteq> 0"
  defines "m \<equiv> unat (zstd_highest_set_bit (last s))"
  shows "length (stream_bits s) = (length s - 1) * 8 + m"
    and "i < m \<Longrightarrow> stream_bits s ! i = bit (last s) (m - 1 - i)"
    and "m \<le> i \<Longrightarrow> i < (length s - 1) * 8 + m \<Longrightarrow>
      stream_bits s ! i = bit (s ! (length s - 2 - (i - m) div 8)) (7 - (i - m) mod 8)"
proof -
  obtain t b where s: "s = t @ [b]" using assms(1) by (metis append_butlast_last_id)
  have b: "b \<noteq> 0" using assms(2) s by simp
  have "True \<in> set (rev (byte_bits b))" using bits_nonzero[OF b] by (force simp: byte_bits_def)
  then have "dropWhile Not (rev (byte_bits b) @ ys) = dropWhile Not (rev (byte_bits b)) @ ys" for ys
    by (rule dropWhile_append1) simp
  then have e: "stream_bits (t @ [b]) = map (bit b) (rev [0..<m]) @ rev (concat (map byte_bits t))"
    using highest_set_bit(1)[OF b] unfolding stream_bits_def m_def s
    by simp
  show "length (stream_bits s) = (length s - 1) * 8 + m"
    by (simp add: e s length_concat_bits)
  show "i < m \<Longrightarrow> stream_bits s ! i = bit (last s) (m - 1 - i)"
    by (simp add: e s nth_append rev_nth)
  assume i: "m \<le> i" "i < (length s - 1) * 8 + m"
  define j where "j = i - m"
  have j: "j < 8 * length t" using i by (simp add: s j_def)
  have "stream_bits (t @ [b]) ! i = concat (map byte_bits t) ! (8 * length t - Suc j)"
    using i j by (simp add: e nth_append rev_nth length_concat_bits j_def)
  also have "\<dots> = bit (t ! ((8 * length t - Suc j) div 8)) ((8 * length t - Suc j) mod 8)"
    using j by (intro nth_concat_bits) simp
  also have "(8 * length t - Suc j) div 8 = length t - 1 - j div 8" using j by (rule back_div_mod)
  also have "(8 * length t - Suc j) mod 8 = 7 - j mod 8" using j by (rule back_div_mod)
  also have "t ! (length t - 1 - j div 8) = s ! (length s - 2 - j div 8)"
  proof -
    have "length t - 1 - j div 8 < length t" using j by (cases t) auto
    then show ?thesis by (simp add: s nth_append)
  qed
  finally show "stream_bits s ! i = bit (s ! (length s - 2 - (i - m) div 8)) (7 - (i - m) mod 8)"
    by (simp add: j_def s)
qed


lemma reader_started:
  assumes "reader_ok r" "started r"
  defines "s \<equiv> take (unat (br_size r)) (br_src r)"
  shows "s \<noteq> []" "last s \<noteq> 0" "last s = br_src r ! (unat (br_size r) - 1)"
    "length s = unat (br_size r)" "unat (marker_bits r) = unat (zstd_highest_set_bit (last s))"
    "0 < unat (br_size r)" "unat (marker_bits r) < 8"
    "unat (bits_total r) = (unat (br_size r) - 1) * 8 + unat (marker_bits r)"
    "length (stream_bits s) = unat (bits_total r)"
    "unat (bits_read r) \<le> unat (bits_total r)"
proof -
  have n: "unat (br_size r) \<le> length (br_src r)" "0 < unat (br_size r)"
    using assms(1,2) by (auto simp: reader_ok_def unat_gt_0)
  show len: "length s = unat (br_size r)" using n by (simp add: s_def)
  show ne: "s \<noteq> []" using n by (auto simp: s_def)
  show l: "last s = br_src r ! (unat (br_size r) - 1)"
    using n len by (simp add: last_conv_nth[OF ne]) (simp add: s_def)
  show nz: "last s \<noteq> 0" using l assms(1,2) by (simp add: reader_ok_def)
  show m: "unat (marker_bits r) = unat (zstd_highest_set_bit (last s))"
    using l assms(1,2) by (simp add: reader_ok_def)
  show "0 < unat (br_size r)" by (rule n(2))
  show "unat (marker_bits r) < 8" using m highest_set_bit(2)[OF nz] by simp
  show t: "unat (bits_total r) = (unat (br_size r) - 1) * 8 + unat (marker_bits r)"
    using assms(1,2) by (simp add: reader_ok_def)
  show "length (stream_bits s) = unat (bits_total r)"
    using nth_stream_bits(1)[OF ne nz] len m t by simp
  show "unat (bits_read r) \<le> unat (bits_total r)" using assms(1,2) unfolding reader_ok_def by blast
qed

lemma bit_at_value:
  assumes ok: "reader_ok r" "started r" and i: "unat i < unat (bits_total r)"
  shows "zstd_bit_at r i = Some (of_bool (stream_bits (take (unat (br_size r)) (br_src r)) ! unat i))"
proof -
  let ?s = "take (unat (br_size r)) (br_src r)" and ?m = "unat (marker_bits r)"
  note st = reader_started[OF ok]
  have n: "unat (br_size r) \<le> length (br_src r)" "unat (br_size r) < 2 ^ 60"
    using ok by (auto simp: reader_ok_def)
  have sz1: "unat (br_size r - 1) = unat (br_size r) - 1" using st(6) by (simp add: unat_minus)
  show ?thesis
  proof (cases "i < ucast (marker_bits r)")
    case True
    then have lt: "unat i < ?m" by (simp add: w2n)
    then have m1: "unat (marker_bits r - 1) = ?m - 1" by (simp add: unat_minus)
    have "unat (ucast (marker_bits r - 1) - i) = ?m - 1 - unat i"
      using lt m1 by (subst unat_minus) auto
    moreover have "stream_bits ?s ! unat i = bit (last ?s) (?m - 1 - unat i)"
      using nth_stream_bits(2)[OF st(1,2), of "unat i"] lt st(5) by simp
    moreover have "rd (br_src r) (br_size r - 1) = Some (last ?s)"
      using sz1 n st(3,6) by (simp add: rd_def)
    ultimately show ?thesis using True by (simp add: zstd_bit_at_def drop_bit_and_1)
  next
    case False
    then have ge: "?m \<le> unat i" by (simp add: w2n)
    let ?b = "i - ucast (marker_bits r)" and ?j = "unat i - ?m"
    have ub: "unat ?b = ?j" using ge by (simp add: unat_minus)
    have "?j < 8 * (unat (br_size r) - 1)" using i ge st(8) by linarith
    then have dl: "?j div 8 < unat (br_size r) - 1"
      by (simp add: less_mult_imp_div_less mult.commute)
    have two: "unat (br_size r - 2) = unat (br_size r) - 2" using dl by (subst unat_minus) auto
    have idx: "unat (br_size r - 2 - ?b div kZstdBitsPerByte) = unat (br_size r) - 2 - ?j div 8"
      using two dl ub by (subst unat_minus) (auto simp: kZstdBitsPerByte_def unat_div)
    have sh: "unat (kZstdBitsPerByte - 1 - ?b mod kZstdBitsPerByte) = 7 - ?j mod 8"
      using ub by (subst unat_minus) (auto simp: kZstdBitsPerByte_def unat_mod less_Suc_eq_le[symmetric])
    have "stream_bits ?s ! unat i = bit (?s ! (length ?s - 2 - ?j div 8)) (7 - ?j mod 8)"
      using nth_stream_bits(3)[OF st(1,2), of "unat i"] ge st(4,5) i st(8) by simp
    moreover have "?s ! (length ?s - 2 - ?j div 8) = br_src r ! (unat (br_size r) - 2 - ?j div 8)"
      using dl n by simp
    moreover have "rd (br_src r) (br_size r - 2 - ?b div kZstdBitsPerByte) =
        Some (br_src r ! (unat (br_size r) - 2 - ?j div 8))"
      using idx dl n by (simp add: rd_def)
    ultimately show ?thesis using False sh by (simp add: zstd_bit_at_def drop_bit_and_1 Let_def)
  qed
qed

section \<open>Reads\<close>

lemma bits_value_append: "bits_value (xs @ ys) = bits_value xs * 2 ^ length ys + bits_value ys"
proof -
  have g: "foldl (\<lambda>acc b. 2 * acc + of_bool b) a ys = a * 2 ^ length ys + bits_value ys" for a :: nat
  proof (induction ys arbitrary: a)
    case (Cons y ys)
    have "bits_value (y # ys) = foldl (\<lambda>acc b. 2 * acc + of_bool b) (of_bool y) ys"
      by (simp add: bits_value_def)
    also have "\<dots> = of_bool y * 2 ^ length ys + bits_value ys" by (rule Cons.IH)
    finally have v: "bits_value (y # ys) = of_bool y * 2 ^ length ys + bits_value ys" .
    have "foldl (\<lambda>acc b. 2 * acc + of_bool b) a (y # ys) = (2 * a + of_bool y) * 2 ^ length ys + bits_value ys"
      by (simp only: foldl_Cons Cons.IH)
    also have "\<dots> = a * 2 ^ length (y # ys) + bits_value (y # ys)"
      unfolding v by (simp only: length_Cons power_Suc algebra_simps)
    finally show ?case .
  qed (simp add: bits_value_def)
  have "bits_value (xs @ ys) = foldl (\<lambda>acc b. 2 * acc + of_bool b) (bits_value xs) ys"
    by (simp add: bits_value_def)
  then show ?thesis by (simp only: g)
qed

lemma bits_value_Cons: "bits_value (b # bs) = of_bool b * 2 ^ length bs + bits_value bs"
  using bits_value_append[of "[b]" bs] by (simp add: bits_value_def[of "[_]"])

lemma bits_value_less: "bits_value bs < 2 ^ length bs"
proof (induction bs rule: rev_induct)
  case (snoc b bs)
  then show ?case by (simp add: bits_value_append) (simp add: bits_value_def)
qed (simp add: bits_value_def)

lemma accumulate_value:
  assumes ok: "reader_ok r" "started r" and n: "i \<le> n" "n \<le> 57"
    and left: "unat (bits_read r) + n \<le> unat (bits_total r)" and acc: "unat acc < 2 ^ i"
  shows "\<exists>v. zstd_accumulate r [i..<n] acc = Some v \<and>
    unat v = unat acc * 2 ^ (n - i) + bits_value (take (n - i) (drop i (live_bits r)))"
  using n(1) acc
proof (induction "n - i" arbitrary: i acc)
  case 0
  then show ?case by (simp add: bits_value_def)
next
  case (Suc k)
  let ?S = "stream_bits (take (unat (br_size r)) (br_src r))"
  have lt: "i < n" using Suc by simp
  then have upt: "[i..<n] = i # [Suc i..<n]" by (rule upt_conv_Cons)
  have ui: "unat (bits_read r + of_nat i) = unat (bits_read r) + i"
  proof -
    have "unat (of_nat i :: u64) = i" using lt n(2) by (intro unat_of_nat_less) simp
    then show ?thesis using left lt by (subst unat_plus_le[where c = "bits_total r"]) auto
  qed
  let ?bit = "?S ! (unat (bits_read r) + i)"
  have b: "zstd_bit_at r (bits_read r + of_nat i) = Some (of_bool ?bit)"
    using bit_at_value[OF ok, of "bits_read r + of_nat i"] ui left lt by simp
  let ?acc = "push_bit 1 acc OR ucast (of_bool ?bit :: u8)"
  have "(2::nat) ^ i \<le> 2 ^ 56" using lt n(2) by (intro power_increasing) auto
  then have "unat acc < 2 ^ 56" using Suc.prems(2) by linarith
  then have "unat (ucast (of_bool ?bit :: u8) OR push_bit 1 acc) = of_bool ?bit + unat acc * 2 ^ 1"
    by (subst unat_or_push) auto
  then have ua: "unat ?acc = 2 * unat acc + of_bool ?bit" by (simp add: or.commute mult.commute)
  have "i < length (live_bits r)"
    using reader_started(9)[OF ok] left lt by (simp add: live_bits_def)
  then have d: "drop i (live_bits r) = live_bits r ! i # drop (Suc i) (live_bits r)"
    by (rule Cons_nth_drop_Suc[symmetric])
  have li: "live_bits r ! i = ?bit"
    using reader_started(9,10)[OF ok] left lt by (simp add: live_bits_def)
  have "unat ?acc < 2 ^ Suc i" using ua Suc.prems(2) by (cases ?bit) auto
  moreover have k: "k = n - Suc i" using Suc.hyps(2) by simp
  ultimately obtain v where v: "zstd_accumulate r [Suc i..<n] ?acc = Some v"
    "unat v = unat ?acc * 2 ^ (n - Suc i) + bits_value (take (n - Suc i) (drop (Suc i) (live_bits r)))"
    using Suc.hyps(1)[of "Suc i" ?acc] k lt by auto
  have "n - i = Suc (n - Suc i)" using lt by simp
  then have e: "take (n - i) (drop i (live_bits r)) = ?bit # take (n - Suc i) (drop (Suc i) (live_bits r))"
    using d li by simp
  have "length (take (n - Suc i) (drop (Suc i) (live_bits r))) = n - Suc i"
    using reader_started(9,10)[OF ok] left lt by (simp add: live_bits_def)
  then have "unat acc * 2 ^ (n - i) + bits_value (take (n - i) (drop i (live_bits r))) = unat v"
    unfolding e bits_value_Cons v(2) ua using \<open>n - i = Suc (n - Suc i)\<close> by (simp add: distrib_right)
  then show ?case using v(1) b by (simp add: upt)
qed


definition read_ok :: "u32 \<Rightarrow> zstd_bit_reader \<Rightarrow> cudec_status \<times> u64 \<times> zstd_bit_reader \<Rightarrow> bool" where
  "read_ok count r = (\<lambda>(st, v, r'). reader_ok r' \<and>
     br_src r' = br_src r \<and> br_size r' = br_size r \<and> started r' = started r \<and> bits_total r' = bits_total r \<and>
     (if \<not> overrun r \<and> started r \<and> count \<le> kZstdBitReadMax \<and> unat count \<le> length (live_bits r)
      then st = CUDEC_OK \<and> unat v = bits_value (take (unat count) (live_bits r)) \<and>
        live_bits r' = drop (unat count) (live_bits r) \<and> \<not> overrun r'
      else st = CUDEC_ERR_CORRUPT_INPUT \<and> v = 0 \<and> live_bits r' = live_bits r \<and>
        overrun r' = (overrun r \<or> started r \<and> count \<le> kZstdBitReadMax)))"

lemma live_length:
  "reader_ok r \<Longrightarrow> started r \<Longrightarrow> length (live_bits r) = unat (bits_total r) - unat (bits_read r)"
  using reader_started(9) by (simp add: live_bits_def)

lemma remaining_live:
  "reader_ok r \<Longrightarrow> started r \<Longrightarrow> unat (zstd_bits_remaining r) = length (live_bits r)"
  using live_length[of r] reader_started(10)[of r] by (simp add: zstd_bits_remaining_def unat_minus)

lemma at_end_live: "reader_ok r \<Longrightarrow> started r \<Longrightarrow> zstd_at_end r \<longleftrightarrow> live_bits r = []"
  using live_length[of r] reader_started(10)[of r]
  by (auto simp: zstd_at_end_def word_unat_eq_iff simp flip: length_0_conv)

lemma read_bits_contract:
  assumes ok: "reader_ok r"
  shows "wp (zstd_read_bits count r) (read_ok count r)"
proof (cases "\<not> overrun r \<and> started r \<and> count \<le> kZstdBitReadMax \<and> unat count \<le> length (live_bits r)")
  case True
  then have st: "started r" and c57: "unat count \<le> 57" by (auto simp: w2n kZstdBitReadMax_def)
  note left = live_length[OF ok st] and rem = remaining_live[OF ok st]
  have ge: "\<not> ucast count > zstd_bits_remaining r" using True rem by (simp add: w2n)
  have sum: "unat (bits_read r) + unat count \<le> unat (bits_total r)"
    using True left reader_started(10)[OF ok st] by auto
  show ?thesis
  proof (cases "count = 0")
    case c0: True
    then show ?thesis using True ok
      by (auto simp: zstd_read_bits_def wp_rules read_ok_def bits_value_def)
  next
    case False
    obtain v where v: "zstd_accumulate r [0..<unat count] 0 = Some v"
      "unat v = bits_value (take (unat count) (live_bits r))"
      using accumulate_value[OF ok st _ c57 sum, of 0 0] by auto
    have br: "unat (bits_read r + ucast count) = unat (bits_read r) + unat count"
      using sum by (subst unat_plus_le[where c = "bits_total r"]) auto
    have "reader_ok (r\<lparr>bits_read := bits_read r + ucast count\<rparr>)"
      using ok st br sum by (simp add: reader_ok_def)
    then show ?thesis using True False ge v br
      by (simp add: zstd_read_bits_def wp_rules read_ok_def live_bits_def leD add.commute)
  qed
next
  case False
  have "ucast count > zstd_bits_remaining r" if "started r" "\<not> unat count \<le> length (live_bits r)"
    using that remaining_live[OF ok that(1)] by (simp add: w2n)
  moreover have "count \<noteq> 0" if "\<not> unat count \<le> length (live_bits r)" using that by auto
  ultimately show ?thesis using False ok
    by (auto simp: zstd_read_bits_def wp_rules read_ok_def reader_ok_def live_bits_def)
qed

lemma start_contract:
  assumes ok: "reader_ok r"
  shows "wp (zstd_bit_start r) (\<lambda>(st, r'). reader_ok r' \<and> br_src r' = br_src r \<and> br_size r' = br_size r \<and>
     overrun r' = overrun r \<and>
     (st = CUDEC_OK \<longleftrightarrow> started r') \<and> (st \<noteq> CUDEC_OK \<longrightarrow> st = CUDEC_ERR_CORRUPT_INPUT) \<and>
     (started r \<longrightarrow> r' = r) \<and>
     (\<not> started r \<longrightarrow> (st = CUDEC_OK \<longleftrightarrow> br_size r \<noteq> 0 \<and> br_src r ! (unat (br_size r) - 1) \<noteq> 0)) \<and>
     (\<not> started r \<and> st = CUDEC_OK \<longrightarrow> live_bits r' = stream_bits (take (unat (br_size r)) (br_src r))))"
proof (cases "started r \<or> br_size r = 0")
  case True
  then show ?thesis using ok by (auto simp: zstd_bit_start_def wp_rules reader_ok_def)
next
  case False
  then have n: "0 < unat (br_size r)" by (simp add: unat_gt_0)
  then have m1: "unat (br_size r - 1) = unat (br_size r) - 1" by (simp add: unat_minus)
  have le: "unat (br_size r) \<le> length (br_src r)" "unat (br_size r) < 2 ^ 60"
    using ok by (auto simp: reader_ok_def)
  let ?last = "br_src r ! (unat (br_size r) - 1)"
  have rdok: "rd (br_src r) (br_size r - 1) = Some ?last" using m1 le n by (simp add: rd_def)
  show ?thesis
  proof (cases "?last = 0")
    case True
    then show ?thesis using False ok rdok by (simp add: zstd_bit_start_def wp_rules reader_ok_def)
  next
    case nz: False
    let ?m = "zstd_highest_set_bit ?last"
    have m8: "unat ?m < 8" by (rule highest_set_bit(2)[OF nz])
    have mul: "unat ((br_size r - 1) * 8) = (unat (br_size r) - 1) * 8"
      using le(2) m1 by (subst unat_mult_lem[THEN iffD1]) auto
    have "unat ((br_size r - 1) * 8 + ucast ?m) = (unat (br_size r) - 1) * 8 + unat ?m"
      using mul m8 le(2) by (subst unat_plus) auto
    then show ?thesis using False nz rdok le
      by (simp add: zstd_bit_start_def wp_rules reader_ok_def kZstdBitsPerByte_def Let_def live_bits_def)
  qed
qed

lemma bits_take_less: "n \<le> length bs \<Longrightarrow> bits_value (take n bs) < 2 ^ n"
  using bits_value_less[of "take n bs"] by (simp add: min_absorb2)

text \<open>The interface the entropy decoders read through.\<close>

locale bit_source =
  fixes rdbits :: "u32 \<Rightarrow> 'r \<Rightarrow> (cudec_status \<times> u64 \<times> 'r) option"
    and bits :: "'r \<Rightarrow> bool list" and ok :: "'r \<Rightarrow> bool"
  assumes rdbits_contract: "ok r \<Longrightarrow> wp (rdbits c r) (\<lambda>(st, v, r'). ok r' \<and>
      (st = CUDEC_OK \<and> unat c \<le> length (bits r) \<and> bits r' = drop (unat c) (bits r) \<and>
         unat v = bits_value (take (unat c) (bits r)) \<or>
       st = CUDEC_ERR_CORRUPT_INPUT \<and> v = 0 \<and> bits r' = bits r))"
begin

lemma rdbits_bound:
  "ok r \<Longrightarrow> wp (rdbits c r) (\<lambda>(st, v, r'). ok r' \<and>
     (st = CUDEC_OK \<or> st = CUDEC_ERR_CORRUPT_INPUT) \<and> unat v < 2 ^ unat c \<and>
     length (bits r') \<le> length (bits r) \<and>
     (st = CUDEC_OK \<longrightarrow> length (bits r) = unat c + length (bits r')))"
  by (rule wp_mono[OF rdbits_contract]) (auto simp: bits_take_less)

end

interpretation zbits: bit_source zstd_read_bits live_bits reader_ok
  by unfold_locales
    (rule wp_mono[OF read_bits_contract], auto simp: read_ok_def split: if_splits)

end
