(* ===== verification/Zstd_Repcode.thy ===== *)
theory Zstd_Repcode
  imports Prelude
begin

text \<open>
  The repeat-offset history of a Zstd frame, \<open>src/zstd_repcode.h\<close>: three slots, the
  resolution of an offset value, the recency rotation.
\<close>

definition kZstdRepcodeSlots :: u32 where "kZstdRepcodeSlots = 3"
definition kZstdRepcodeMaxSlotValue :: u64 where "kZstdRepcodeMaxSlotValue = 3"
definition kZstdRepcodeInitial0 :: u64 where "kZstdRepcodeInitial0 = 1"
definition kZstdRepcodeInitial1 :: u64 where "kZstdRepcodeInitial1 = 4"
definition kZstdRepcodeInitial2 :: u64 where "kZstdRepcodeInitial2 = 8"

lemmas repcode_consts = kZstdRepcodeSlots_def kZstdRepcodeMaxSlotValue_def kZstdRepcodeInitial0_def
  kZstdRepcodeInitial1_def kZstdRepcodeInitial2_def

datatype zstd_repcode_reject =
    kZstdRepcodeRejectNone
  | kZstdRepcodeRejectBadRequest
  | kZstdRepcodeRejectResolvedToZero

datatype zstd_repcode_path =
    kZstdRepcodePathExplicit
  | kZstdRepcodePathSlot0
  | kZstdRepcodePathSlot1
  | kZstdRepcodePathSlot2
  | kZstdRepcodePathShiftedSlot1
  | kZstdRepcodePathShiftedSlot2
  | kZstdRepcodePathMinusOne

text \<open>The enumerators in order, for the code's arithmetic on them.\<close>

definition repcode_path_of :: "u32 \<Rightarrow> zstd_repcode_path option" where
  "repcode_path_of n = at [kZstdRepcodePathExplicit, kZstdRepcodePathSlot0, kZstdRepcodePathSlot1,
     kZstdRepcodePathSlot2, kZstdRepcodePathShiftedSlot1, kZstdRepcodePathShiftedSlot2,
     kZstdRepcodePathMinusOne] (unat n)"

definition zstd_repcode_classify :: "u64 \<Rightarrow> u32 \<Rightarrow> zstd_repcode_path option" where
  "zstd_repcode_classify offset_value literals_length =
     (if offset_value > kZstdRepcodeMaxSlotValue \<or> offset_value = 0 then Some kZstdRepcodePathExplicit
      else if literals_length \<noteq> 0 then repcode_path_of (1 + ucast offset_value - 1)
      else repcode_path_of (4 + ucast offset_value - 1))"

text \<open>The slots, most recent first; a null history is \<open>None\<close>.\<close>

type_synonym zstd_repcode_history = "u64 list"

definition zstd_repcode_init :: zstd_repcode_history where
  "zstd_repcode_init = [kZstdRepcodeInitial0, kZstdRepcodeInitial1, kZstdRepcodeInitial2]"

text \<open>The value an offset value names and the slot it took.\<close>

definition zstd_repcode_lookup :: "zstd_repcode_history \<Rightarrow> u64 \<Rightarrow> u32 \<Rightarrow> (u64 \<times> u32) option" where
  "zstd_repcode_lookup h offset_value literals_length =
     (if offset_value > kZstdRepcodeMaxSlotValue
      then Some (offset_value - kZstdRepcodeMaxSlotValue, kZstdRepcodeSlots)
      else if literals_length \<noteq> 0 then do {
        let taken = ucast offset_value - 1;
        resolved \<leftarrow> at h (unat taken);
        Some (resolved, taken)
      }
      else if offset_value < kZstdRepcodeMaxSlotValue then do {
        let taken = ucast offset_value;
        resolved \<leftarrow> at h (unat taken);
        Some (resolved, taken)
      }
      else do {
        resolved \<leftarrow> at h 0;
        Some (if resolved \<noteq> 0 then resolved - 1 else resolved, kZstdRepcodeSlots)
      })"

definition zstd_repcode_rotate :: "zstd_repcode_history \<Rightarrow> u64 \<Rightarrow> u32 \<Rightarrow> zstd_repcode_history" where
  "zstd_repcode_rotate h resolved taken =
     (if taken \<noteq> 0 then
        let h = (if taken \<noteq> 1 then h[2 := h ! 1] else h);
            h = h[1 := h ! 0]
        in h[0 := resolved]
      else h)"

definition zstd_repcode_resolve ::
    "zstd_repcode_history option \<Rightarrow> u64 \<Rightarrow> u32 \<Rightarrow>
     (cudec_status \<times> u64 \<times> zstd_repcode_reject \<times> zstd_repcode_history option) option" where
  "zstd_repcode_resolve history offset_value literals_length =
     (case history of
        None \<Rightarrow> Some (CUDEC_ERR_INVALID_ARGUMENT, 0, kZstdRepcodeRejectBadRequest, history)
      | Some h \<Rightarrow>
          if offset_value = 0
          then Some (CUDEC_ERR_INVALID_ARGUMENT, 0, kZstdRepcodeRejectBadRequest, history)
          else do {
            (resolved, taken) \<leftarrow> zstd_repcode_lookup h offset_value literals_length;
            if resolved = 0
            then Some (CUDEC_ERR_CORRUPT_INPUT, 0, kZstdRepcodeRejectResolvedToZero, history)
            else Some (CUDEC_OK, resolved, kZstdRepcodeRejectNone,
                   Some (zstd_repcode_rotate h resolved taken))
          })"

section \<open>The format's rule\<close>

text \<open>
  RFC 8878 section 3.1.1.5 as a table: what each offset value names, and the history after it.
\<close>

definition repcode_spec :: "u64 \<times> u64 \<times> u64 \<Rightarrow> u64 \<Rightarrow> bool \<Rightarrow> u64 \<times> (u64 \<times> u64 \<times> u64)" where
  "repcode_spec = (\<lambda>(a, b, c) ov has_literals.
     if ov > 3 then (ov - 3, (ov - 3, a, b))
     else if has_literals then
       (if ov = 1 then (a, (a, b, c)) else if ov = 2 then (b, (b, a, c)) else (c, (c, a, b)))
     else
       (if ov = 1 then (b, (b, a, c)) else if ov = 2 then (c, (c, a, b)) else (a - 1, (a - 1, a, b))))"

definition history_ok :: "zstd_repcode_history \<Rightarrow> bool" where
  "history_ok h \<longleftrightarrow> length h = 3 \<and> 0 \<notin> set h"

lemma offset_value_cases:
  "ov \<noteq> 0 \<Longrightarrow> \<not> ov > 3 \<Longrightarrow> ov = 1 \<or> ov = 2 \<or> ov = (3 :: u64)"
proof -
  assume "ov \<noteq> 0" "\<not> ov > 3"
  then have "0 < unat ov" "unat ov \<le> 3" by (auto simp: w2n unat_gt_0)
  then have "unat ov = 1 \<or> unat ov = 2 \<or> unat ov = 3" by linarith
  then show ?thesis by (auto simp: word_unat_eq_iff)
qed

lemma resolve_spec:
  assumes "ov \<noteq> 0" "0 \<notin> {a, b, c}"
  shows "zstd_repcode_resolve (Some [a, b, c]) ov ll =
    (case repcode_spec (a, b, c) ov (ll \<noteq> 0) of (r, (a', b', c')) \<Rightarrow>
       if r = 0 then Some (CUDEC_ERR_CORRUPT_INPUT, 0, kZstdRepcodeRejectResolvedToZero, Some [a, b, c])
       else Some (CUDEC_OK, r, kZstdRepcodeRejectNone, Some [a', b', c']))"
proof (cases "ov > 3")
  case True
  then show ?thesis using assms
    by (auto simp: zstd_repcode_resolve_def zstd_repcode_lookup_def zstd_repcode_rotate_def
        repcode_spec_def repcode_consts Let_def)
next
  case False
  from offset_value_cases[OF assms(1) False] show ?thesis using assms
    by (elim disjE) (auto simp: zstd_repcode_resolve_def zstd_repcode_lookup_def
        zstd_repcode_rotate_def repcode_spec_def repcode_consts Let_def at_def)
qed

lemma list3: "length h = 3 \<Longrightarrow> \<exists>a b c. h = [a, b, c]"
  by (auto simp: numeral_3_eq_3 length_Suc_conv)

lemma resolve_contract:
  assumes "history_ok h"
  shows "wp (zstd_repcode_resolve (Some h) ov ll) (\<lambda>(st, off, rej, h').
     (st = CUDEC_OK \<longleftrightarrow> rej = kZstdRepcodeRejectNone) \<and> (st = CUDEC_OK \<longleftrightarrow> off \<noteq> 0) \<and>
     (\<exists>h2. h' = Some h2 \<and> history_ok h2 \<and> (st \<noteq> CUDEC_OK \<longrightarrow> h2 = h) \<and> (st = CUDEC_OK \<longrightarrow> hd h2 = off)) \<and>
     (st = CUDEC_ERR_CORRUPT_INPUT \<longleftrightarrow> ov = 3 \<and> ll = 0 \<and> hd h = 1) \<and>
     (st = CUDEC_ERR_INVALID_ARGUMENT \<longleftrightarrow> ov = 0))"
proof (cases "ov = 0")
  case True
  then show ?thesis using assms by (simp add: zstd_repcode_resolve_def wp_rules)
next
  case False
  obtain a b c where h: "h = [a, b, c]" using list3[of h] assms by (auto simp: history_ok_def)
  then have nz: "0 \<notin> {a, b, c}" using assms by (auto simp: history_ok_def)
  have m: "x - k = 0 \<longleftrightarrow> x = k" for x k :: u64 by simp
  have o: "ov > 3 \<Longrightarrow> ov \<noteq> 3" "\<not> (3 < (3::u64))" "\<not> (3 < (1::u64))" "\<not> (3 < (2::u64))" by auto
  show ?thesis
  proof (cases "ov > 3")
    case True
    then show ?thesis using nz o
      unfolding h resolve_spec[OF False nz]
      by (auto simp: repcode_spec_def wp_rules history_ok_def m)
  next
    case le: False
    from offset_value_cases[OF False le] show ?thesis using nz
      unfolding h resolve_spec[OF False nz]
      by (elim disjE) (auto simp: repcode_spec_def wp_rules history_ok_def m)
  qed
qed

lemma init_ok: "history_ok zstd_repcode_init"
  by (simp add: history_ok_def zstd_repcode_init_def repcode_consts)

lemma resolve_front:
  assumes "history_ok h" "zstd_repcode_resolve (Some h) ov ll = Some (CUDEC_OK, off, rej, h')"
  shows "\<exists>h2. h' = Some h2 \<and> hd h2 = off \<and> history_ok h2"
  using resolve_contract[OF assms(1), of ov ll] assms(2) by (auto simp: wp_rules)

end
