(* ===== verification/Zstd_Fse_Desc.thy ===== *)
theory Zstd_Fse_Desc
  imports Prelude
begin

text \<open>
  The FSE table description, the first half of \<open>src/zstd_fse.h\<close>: the forward bit reader and
  \<open>ZstdFseReadNCount\<close>. The \<open>int32_t\<close> budget is an \<open>int\<close>, the counters bounded by
  the alphabet and by an accuracy log are naturals, and the cast that narrows a probability to
  \<open>int16_t\<close> is written out. The code refuses a null buffer before anything else; the
  model's buffers are lists and cannot be null.
\<close>

definition kZstdFseBitsPerByte :: nat where "kZstdFseBitsPerByte = 8"
definition kZstdFseMinAccuracyLog :: nat where "kZstdFseMinAccuracyLog = 5"
definition kZstdFseMaxAccuracyLog :: nat where "kZstdFseMaxAccuracyLog = 15"
definition kZstdFseMaxSymbolValue :: nat where "kZstdFseMaxSymbolValue = 255"
definition kZstdLitLenAccuracyLogMax :: nat where "kZstdLitLenAccuracyLogMax = 9"
definition kZstdOffsetAccuracyLogMax :: nat where "kZstdOffsetAccuracyLogMax = 8"
definition kZstdMatchLenAccuracyLogMax :: nat where "kZstdMatchLenAccuracyLogMax = 9"
definition kZstdLitLenSymbolMax :: nat where "kZstdLitLenSymbolMax = 35"
definition kZstdOffsetSymbolMax :: nat where "kZstdOffsetSymbolMax = 31"
definition kZstdMatchLenSymbolMax :: nat where "kZstdMatchLenSymbolMax = 52"
definition kZstdFseSpreadStepBias :: u32 where "kZstdFseSpreadStepBias = 3"

lemmas fse_consts = kZstdFseBitsPerByte_def kZstdFseMinAccuracyLog_def kZstdFseMaxAccuracyLog_def
  kZstdFseMaxSymbolValue_def kZstdFseSpreadStepBias_def

datatype zstd_fse_reject =
    kZstdFseRejectNone
  | kZstdFseRejectBadRequest
  | kZstdFseRejectEmptyDescription
  | kZstdFseRejectAccuracyLogTooLarge
  | kZstdFseRejectDescriptionTruncated
  | kZstdFseRejectSymbolPastMax
  | kZstdFseRejectBuildCapacity
  | kZstdFseRejectBuildCountsNotNormalized
  | kZstdFseRejectStateInitTruncated
  | kZstdFseRejectStateOutOfTable
  | kZstdFseRejectOutputFull

type_synonym fse_error = "cudec_status \<times> zstd_fse_reject"

definition zstd_fse_highest_set_bit :: "u32 \<Rightarrow> nat" where
  "zstd_fse_highest_set_bit v =
     foldl (\<lambda>highest i. if drop_bit i v AND 1 \<noteq> 0 then i else highest) 0 [0..<32]"

section \<open>The forward reader\<close>

record zstd_fse_desc_reader =
  dr_src :: "u8 list"
  dr_size :: nat
  byte_pos :: nat
  bit_pos :: nat

definition desc_available :: "zstd_fse_desc_reader \<Rightarrow> nat \<Rightarrow> bool" where
  "desc_available r count \<longleftrightarrow>
     (let needed_bits = bit_pos r + count;
          needed_bytes = (needed_bits + kZstdFseBitsPerByte - 1) div kZstdFseBitsPerByte
      in needed_bytes \<le> dr_size r - byte_pos r)"

fun desc_peek_loop :: "u8 list \<Rightarrow> nat \<Rightarrow> nat list \<Rightarrow> nat \<Rightarrow> nat \<Rightarrow> u32 \<Rightarrow> u32 option" where
  "desc_peek_loop s n [] byte b v = Some v"
| "desc_peek_loop s n (i # is) byte b v = do {
     taken \<leftarrow> (if byte < n then do { x \<leftarrow> at s byte; Some (drop_bit b x AND 1) } else Some 0);
     let v = v OR push_bit i (ucast taken);
     if b + 1 = kZstdFseBitsPerByte then desc_peek_loop s n is (byte + 1) 0 v
     else desc_peek_loop s n is byte (b + 1) v
   }"

definition desc_peek :: "zstd_fse_desc_reader \<Rightarrow> nat \<Rightarrow> u32 option" where
  "desc_peek r count = desc_peek_loop (dr_src r) (dr_size r) [0..<count] (byte_pos r) (bit_pos r) 0"

definition desc_advance :: "nat \<Rightarrow> zstd_fse_desc_reader \<Rightarrow> zstd_fse_desc_reader" where
  "desc_advance count r =
     (let total = bit_pos r + count
      in r\<lparr>byte_pos := byte_pos r + total div kZstdFseBitsPerByte,
           bit_pos := total mod kZstdFseBitsPerByte\<rparr>)"

definition desc_bytes_consumed :: "zstd_fse_desc_reader \<Rightarrow> nat" where
  "desc_bytes_consumed r = byte_pos r + (if bit_pos r \<noteq> 0 then 1 else 0)"

section \<open>The distribution\<close>

text \<open>A run of absent symbols: two-bit codes, the code three continuing the run.\<close>

fun ncount_run :: "nat \<Rightarrow> zstd_fse_desc_reader \<Rightarrow> nat \<Rightarrow> nat \<Rightarrow>
    (fse_error + (zstd_fse_desc_reader \<times> nat)) option" where
  "ncount_run 0 r mc sc = Some (Inl (CUDEC_ERR_CORRUPT_INPUT, kZstdFseRejectSymbolPastMax))"
| "ncount_run (Suc steps) r mc sc =
     (if \<not> desc_available r 2
      then Some (Inl (CUDEC_ERR_CORRUPT_INPUT, kZstdFseRejectDescriptionTruncated))
      else do {
        repeat \<leftarrow> desc_peek r 2;
        let r = desc_advance 2 r;
        let sc = sc + unat repeat;
        if sc \<ge> mc then Some (Inl (CUDEC_ERR_CORRUPT_INPUT, kZstdFseRejectSymbolPastMax))
        else if repeat \<noteq> 3 then Some (Inr (r, sc))
        else ncount_run steps r mc sc
      })"

text \<open>The variable-width field: the stored value and the width that is charged for it.\<close>

definition ncount_field :: "int \<Rightarrow> int \<Rightarrow> nat \<Rightarrow> u32 \<Rightarrow> int \<times> nat" where
  "ncount_field threshold remaining field_bits peeked =
     (let small_limit = (2 * threshold - 1) - remaining;
          narrow = uint (peeked AND of_int (threshold - 1))
      in if narrow < small_limit then (narrow, field_bits - 1)
         else
           let p = uint (peeked AND of_int (2 * threshold - 1))
           in (if p \<ge> threshold then p - small_limit else p, field_bits))"

definition to_int16 :: "int \<Rightarrow> int" where
  "to_int16 x = signed_take_bit 15 x"

text \<open>One symbol: the field is read, charged, taken out of the budget and stored.\<close>

definition ncount_symbol :: "zstd_fse_desc_reader \<Rightarrow> int \<Rightarrow> int \<Rightarrow> nat \<Rightarrow> nat \<Rightarrow> int list \<Rightarrow>
    (fse_error + (zstd_fse_desc_reader \<times> int \<times> int \<times> int list)) option" where
  "ncount_symbol r remaining threshold field_bits sc counts = do {
     peeked \<leftarrow> desc_peek r field_bits;
     let (value, width) = ncount_field threshold remaining field_bits peeked;
     if \<not> desc_available r width
     then Some (Inl (CUDEC_ERR_CORRUPT_INPUT, kZstdFseRejectDescriptionTruncated))
     else do {
       let probability = value - 1;
       let remaining = remaining - (if probability < 0 then - probability else probability);
       counts \<leftarrow> put counts sc (to_int16 probability);
       Some (Inr (desc_advance width r, remaining, probability, counts))
     }
   }"

text \<open>The next field's width, once the budget is below the threshold.\<close>

definition ncount_window :: "int \<Rightarrow> int \<Rightarrow> nat \<Rightarrow> int \<times> nat" where
  "ncount_window remaining threshold field_bits =
     (if remaining < threshold then
        let field_bits = zstd_fse_highest_set_bit (of_int remaining) + 1
        in (2 ^ (field_bits - 1), field_bits)
      else (threshold, field_bits))"

fun ncount_loop :: "nat \<Rightarrow> nat \<Rightarrow> zstd_fse_desc_reader \<Rightarrow> int \<Rightarrow> int \<Rightarrow> nat \<Rightarrow> nat \<Rightarrow> bool \<Rightarrow> int list \<Rightarrow>
    (fse_error + (zstd_fse_desc_reader \<times> int \<times> nat \<times> int list)) option" where
  "ncount_loop 0 mc r remaining threshold field_bits sc previous_zero counts =
     Some (Inr (r, remaining, sc, counts))"
| "ncount_loop (Suc iterations) mc r remaining threshold field_bits sc previous_zero counts = do {
     run \<leftarrow> (if previous_zero then ncount_run mc r mc sc else Some (Inr (r, sc)));
     case run of
       Inl e \<Rightarrow> Some (Inl e)
     | Inr (r, sc) \<Rightarrow> do {
         sym \<leftarrow> ncount_symbol r remaining threshold field_bits sc counts;
         case sym of
           Inl e \<Rightarrow> Some (Inl e)
         | Inr (r, remaining, probability, counts) \<Rightarrow>
             if remaining < threshold \<and> remaining \<le> 1 then Some (Inr (r, remaining, sc + 1, counts))
             else
               let (threshold, field_bits) = ncount_window remaining threshold field_bits
               in if sc + 1 \<ge> mc then Some (Inr (r, remaining, sc + 1, counts))
                  else ncount_loop iterations mc r remaining threshold field_bits (sc + 1)
                         (probability = 0) counts
       }
   }"

declare ncount_loop.simps [simp del] ncount_run.simps [simp del]

text \<open>What the description yields: the highest symbol, the accuracy log, the bytes it occupied.\<close>

record zstd_fse_description =
  fd_max_symbol :: nat
  fd_accuracy_log :: nat
  fd_consumed :: nat
  fd_counts :: "int list"

fun zero_counts :: "nat \<Rightarrow> int list \<Rightarrow> int list option" where
  "zero_counts 0 counts = Some counts"
| "zero_counts (Suc n) counts = do { counts \<leftarrow> put counts n 0; zero_counts n counts }"

definition zstd_fse_read_ncount ::
    "u8 list \<Rightarrow> nat \<Rightarrow> nat \<Rightarrow> nat \<Rightarrow> int list \<Rightarrow> (fse_error + zstd_fse_description) option" where
  "zstd_fse_read_ncount s n max_symbol_value max_accuracy_log counts =
     (if max_symbol_value > kZstdFseMaxSymbolValue \<or> max_accuracy_log < kZstdFseMinAccuracyLog \<or>
         max_accuracy_log > kZstdFseMaxAccuracyLog
      then Some (Inl (CUDEC_ERR_INVALID_ARGUMENT, kZstdFseRejectBadRequest))
      else if n = 0 then Some (Inl (CUDEC_ERR_CORRUPT_INPUT, kZstdFseRejectEmptyDescription))
      else do {
        let mc = max_symbol_value + 1;
        counts \<leftarrow> zero_counts mc counts;
        let r = \<lparr>dr_src = s, dr_size = n, byte_pos = 0, bit_pos = 0\<rparr>;
        if \<not> desc_available r 4
        then Some (Inl (CUDEC_ERR_CORRUPT_INPUT, kZstdFseRejectDescriptionTruncated))
        else do {
          field \<leftarrow> desc_peek r 4;
          let accuracy_log = unat field + kZstdFseMinAccuracyLog;
          let r = desc_advance 4 r;
          if accuracy_log > max_accuracy_log
          then Some (Inl (CUDEC_ERR_CORRUPT_INPUT, kZstdFseRejectAccuracyLogTooLarge))
          else do {
            res \<leftarrow> ncount_loop mc mc r (2 ^ accuracy_log + 1) (2 ^ accuracy_log) (accuracy_log + 1)
                    0 False counts;
            case res of
              Inl e \<Rightarrow> Some (Inl e)
            | Inr (r, remaining, sc, counts) \<Rightarrow>
                if remaining \<noteq> 1
                then Some (Inl (CUDEC_ERR_CORRUPT_INPUT, kZstdFseRejectSymbolPastMax))
                else Some (Inr \<lparr>fd_max_symbol = sc - 1, fd_accuracy_log = accuracy_log,
                                fd_consumed = desc_bytes_consumed r, fd_counts = counts\<rparr>)
          }
        }
      })"

section \<open>The budget never overshoots\<close>

lemma fse_highest_set_bit:
  assumes "0 < unat v"
  shows "2 ^ zstd_fse_highest_set_bit v \<le> unat v" "unat v < 2 ^ Suc (zstd_fse_highest_set_bit v)"
    "zstd_fse_highest_set_bit v < 32"
proof -
  have "v \<noteq> 0" using assms by auto
  then have "\<exists>i<32. bit v i" by (auto simp: bit_eq_iff bit_simps)
  from highest_fold[OF this] have h: "zstd_fse_highest_set_bit v < 32 \<and> bit v (zstd_fse_highest_set_bit v) \<and>
      (\<forall>i. zstd_fse_highest_set_bit v < i \<and> i < 32 \<longrightarrow> \<not> bit v i)"
    by (simp add: zstd_fse_highest_set_bit_def)
  then show "zstd_fse_highest_set_bit v < 32" by blast
  show "2 ^ zstd_fse_highest_set_bit v \<le> unat v" "unat v < 2 ^ Suc (zstd_fse_highest_set_bit v)"
    using top_bit_value[of v "zstd_fse_highest_set_bit v"] h by auto
qed

definition desc_ok :: "zstd_fse_desc_reader \<Rightarrow> bool" where
  "desc_ok r \<longleftrightarrow> dr_size r \<le> length (dr_src r) \<and> bit_pos r < 8 \<and> desc_bytes_consumed r \<le> dr_size r"

definition desc_same :: "zstd_fse_desc_reader \<Rightarrow> zstd_fse_desc_reader \<Rightarrow> bool" where
  "desc_same r r' \<longleftrightarrow> dr_src r' = dr_src r \<and> dr_size r' = dr_size r"

lemma desc_same_refl [simp]: "desc_same r r"
  by (simp add: desc_same_def)

lemma desc_same_trans: "desc_same r s \<Longrightarrow> desc_same s t \<Longrightarrow> desc_same r t"
  by (simp add: desc_same_def)

lemma ceil_div_8: "((t::nat) + 7) div 8 = t div 8 + (if t mod 8 = 0 then 0 else 1)"
proof -
  obtain q m where t: "t = 8 * q + m" "m < 8"
    using mod_less_divisor[of 8 t] mult_div_mod_eq[of 8 t] by (metis zero_less_numeral)
  show ?thesis
  proof (cases "m = 0")
    case False
    then obtain m' where m: "m = Suc m'" by (cases m) auto
    then have "t + 7 = 8 * (q + 1) + m'" "m' < 8" using t by auto
    then have "(t + 7) div 8 = q + 1" by (simp only: div_mult_self4)
    then show ?thesis using t False by simp
  qed (simp add: t)
qed

lemma desc_advance_ok:
  assumes "desc_ok r" "desc_available r c"
  shows "desc_ok (desc_advance c r)" "desc_same r (desc_advance c r)"
proof -
  let ?t = "bit_pos r + c"
  have a: "(?t + 7) div 8 \<le> dr_size r - byte_pos r" "byte_pos r \<le> dr_size r"
    using assms by (auto simp: desc_available_def desc_ok_def desc_bytes_consumed_def Let_def fse_consts)
  have "(?t + 7) div 8 = ?t div 8 + (if ?t mod 8 = 0 then 0 else 1)"
    by (rule ceil_div_8)
  then show "desc_ok (desc_advance c r)" "desc_same r (desc_advance c r)"
    using a assms(1) by (auto simp: desc_ok_def desc_same_def desc_advance_def desc_bytes_consumed_def Let_def fse_consts)
qed

lemma desc_peek_loop_bound:
  assumes "n \<le> length s" "i \<le> c" "c \<le> 32" "unat v < 2 ^ i"
  shows "wp (desc_peek_loop s n [i..<c] byte b v) (\<lambda>v'. unat v' < 2 ^ c)"
  using assms(2,4)
proof (induction "c - i" arbitrary: i byte b v)
  case 0
  then show ?case by (simp add: wp_rules)
next
  case (Suc k)
  then have lt: "i < c" by simp
  then have upt: "[i..<c] = i # [Suc i..<c]" by (rule upt_conv_Cons)
  have step: "wp (desc_peek_loop s n [Suc i..<c] byte' b' (v OR push_bit i (ucast (t :: u8)))) (\<lambda>v'. unat v' < 2 ^ c)"
    if "unat t \<le> 1" for byte' b' and t :: u8
  proof (rule Suc.hyps(1))
    have "(2::nat) ^ Suc i \<le> 2 ^ 32" using lt assms(3) by (intro power_increasing) auto
    moreover have t: "unat t * 2 ^ i \<le> 2 ^ i" using that by simp
    ultimately have "unat t * 2 ^ i + 2 ^ i \<le> 2 ^ 32" unfolding power_Suc by linarith
    then have "unat (ucast t :: u32) * 2 ^ i + 2 ^ i \<le> 2 ^ LENGTH(32)" by simp
    then have "unat (v OR push_bit i (ucast t)) = unat v + unat t * 2 ^ i"
      using Suc.prems(2) by (subst unat_or_push) simp_all
    then show "unat (v OR push_bit i (ucast t)) < 2 ^ Suc i"
      using Suc.prems(2) t unfolding power_Suc by linarith
  qed (use Suc.hyps(2) lt in auto)
  have "unat (drop_bit b' x AND 1 :: u8) \<le> 1" for b' and x :: u8 by (simp add: drop_bit_and_1)
  then show ?case using step step[of 0] assms(1)
    by (simp add: upt wp_rules Let_def fse_consts)
qed

lemma desc_peek_bound: "desc_ok r \<Longrightarrow> c \<le> 32 \<Longrightarrow> wp (desc_peek r c) (\<lambda>v. unat v < 2 ^ c)"
  unfolding desc_peek_def by (intro desc_peek_loop_bound) (auto simp: desc_ok_def)

lemma ncount_run_contract:
  assumes "desc_ok r"
  shows "wp (ncount_run steps r mc sc) (\<lambda>res. case res of
     Inl e \<Rightarrow> fst e = CUDEC_ERR_CORRUPT_INPUT | Inr (r', sc') \<Rightarrow> desc_ok r' \<and> desc_same r r' \<and> sc \<le> sc' \<and> sc' < mc)"
  using assms
proof (induction steps arbitrary: r sc)
  case 0
  then show ?case by (simp add: ncount_run.simps wp_rules)
next
  case (Suc steps)
  show ?case
  proof (cases "desc_available r 2")
    case True
    note adv = desc_advance_ok[OF Suc.prems True]
    have "wp (ncount_run steps (desc_advance 2 r) mc (sc + k)) (\<lambda>res. case res of
       Inl e \<Rightarrow> fst e = CUDEC_ERR_CORRUPT_INPUT | Inr (r', sc') \<Rightarrow> desc_ok r' \<and> desc_same r r' \<and> sc \<le> sc' \<and> sc' < mc)" for k
      using adv(2) by (intro wp_mono[OF Suc.IH[OF adv(1)]]) (auto simp: desc_same_def split: sum.splits)
    then show ?thesis using True adv
      by (subst ncount_run.simps) (auto simp: Let_def intro!: wp_bindI[OF desc_peek_bound[OF Suc.prems]] wp_SomeI)
  next
    case False
    then show ?thesis by (simp add: ncount_run.simps wp_rules)
  qed
qed

text \<open>The stored value of a field never exceeds the budget it is read against.\<close>

lemma ncount_field_bound:
  assumes fb: "0 < fb" "fb \<le> 16" "t = 2 ^ (fb - 1)" and rem: "t \<le> rem" "rem < 2 * t"
    and f: "ncount_field t rem fb peeked = (value, width)"
  shows "0 \<le> value" "value \<le> rem" "width \<le> fb"
proof -
  have m: "uint (peeked AND of_int (2 ^ k - 1)) = uint peeked mod 2 ^ k" for k
  proof -
    have k: "of_int (2 ^ k - 1) = (mask k :: u32)" by (simp add: mask_eq_exp_minus_1)
    have "int (unat (peeked AND mask k)) = int (unat peeked mod 2 ^ k)" by (simp only: unat_and_mask)
    then show ?thesis unfolding k uint_nat by (simp only: zmod_int of_nat_power of_nat_numeral)
  qed
  have t2: "2 * t = 2 ^ fb" using fb by (cases fb) auto
  define narrow where "narrow = uint peeked mod t"
  define wide where "wide = uint peeked mod (2 * t)"
  have t0: "0 < t" using fb by simp
  have n: "0 \<le> narrow" "narrow < t" "0 \<le> wide" "wide < 2 * t"
    using t0 by (simp_all add: narrow_def wide_def)
  have e1: "uint (peeked AND of_int (t - 1)) = narrow" unfolding narrow_def fb(3) by (rule m)
  have e2: "uint (peeked AND of_int (2 * t - 1)) = wide" unfolding wide_def t2 by (rule m)
  have "ncount_field t rem fb peeked =
    (if narrow < 2 * t - 1 - rem then (narrow, fb - 1)
     else (if wide \<ge> t then wide - (2 * t - 1 - rem) else wide, fb))"
    by (simp only: ncount_field_def Let_def e1 e2)
  then show "0 \<le> value" "value \<le> rem" "width \<le> fb"
    using f n rem by (auto split: if_splits)
qed


definition magnitude :: "int \<Rightarrow> int" where
  "magnitude p = (if p < 0 then 1 else p)"

text \<open>The budget spent on the symbols so far and the budget left make the whole table.\<close>

definition budget_ok :: "nat \<Rightarrow> nat \<Rightarrow> nat \<Rightarrow> int list \<Rightarrow> int \<Rightarrow> bool" where
  "budget_ok L mc sc counts remaining \<longleftrightarrow> mc \<le> length counts \<and> sc \<le> mc \<and>
     (\<forall>i<mc. - 1 \<le> counts ! i \<and> counts ! i \<le> 2 ^ L \<and> (sc \<le> i \<longrightarrow> counts ! i = 0)) \<and>
     (\<Sum>i<mc. magnitude (counts ! i)) + remaining = 2 ^ L + 1"

lemma budget_step:
  assumes b: "budget_ok L mc sc counts remaining" and sc: "sc < mc"
    and p: "- 1 \<le> p" "p \<le> 2 ^ L"
  shows "budget_ok L mc (Suc sc) (counts[sc := p]) (remaining - magnitude p)"
proof -
  have z: "counts ! sc = 0" and l: "sc < length counts" using b sc by (auto simp: budget_ok_def)
  have "(\<Sum>i<mc. magnitude (counts[sc := p] ! i)) =
      (\<Sum>i<mc. magnitude (counts ! i) + (if i = sc then magnitude p else 0))"
    using z l by (intro sum.cong) (auto simp: nth_list_update magnitude_def)
  also have "\<dots> = (\<Sum>i<mc. magnitude (counts ! i)) + magnitude p" using sc by (simp add: sum.distrib)
  finally show ?thesis using b sc p l by (auto simp: budget_ok_def nth_list_update)
qed

lemma budget_skip: "budget_ok L mc sc counts remaining \<Longrightarrow> sc \<le> sc' \<Longrightarrow> sc' \<le> mc \<Longrightarrow> budget_ok L mc sc' counts remaining"
  by (auto simp: budget_ok_def)

lemma budget_remaining: "budget_ok L mc sc counts remaining \<Longrightarrow> remaining \<le> 2 ^ L + 1"
proof -
  assume b: "budget_ok L mc sc counts remaining"
  have "0 \<le> (\<Sum>i<mc. magnitude (counts ! i))" by (intro sum_nonneg) (simp add: magnitude_def)
  then show ?thesis using b by (simp add: budget_ok_def)
qed

lemma to_int16_small: "- 32768 \<le> x \<Longrightarrow> x < 32768 \<Longrightarrow> to_int16 x = x"
  by (simp add: to_int16_def signed_take_bit_int_eq_self)

text \<open>The window of the next field: the threshold is the highest power of two in the budget.\<close>

lemma next_field:
  fixes rem :: int
  assumes "2 \<le> rem" "rem < 2 ^ (fb - 1)" "fb \<le> 16"
  defines "fb' \<equiv> zstd_fse_highest_set_bit (of_int rem) + 1"
  shows "2 ^ (fb' - 1) \<le> rem" "rem < 2 * 2 ^ (fb' - 1)" "fb' < fb"
proof -
  have "(2::int) ^ (fb - 1) \<le> 2 ^ 15" using assms(3) by (intro power_increasing) auto
  then have lt: "rem < 2 ^ 15" using assms(2) by linarith
  have "unat (of_int rem :: u32) = unat (of_nat (nat rem) :: u32)" using assms(1) by simp
  also have "\<dots> = nat rem" using lt assms(1) by (intro unat_of_nat_less) simp
  finally have u: "unat (of_int rem :: u32) = nat rem" .
  have "0 < unat (of_int rem :: u32)" using u assms(1) by simp
  note h = fse_highest_set_bit[OF this]
  let ?h = "zstd_fse_highest_set_bit (of_int rem)"
  have "2 ^ ?h \<le> nat rem" "nat rem < 2 ^ Suc ?h" using h u by auto
  then have "int (2 ^ ?h) \<le> rem" "rem < int (2 ^ Suc ?h)" using assms(1) by linarith+
  then show r: "2 ^ (fb' - 1) \<le> rem" "rem < 2 * 2 ^ (fb' - 1)" by (simp_all add: fb'_def)
  have "(2::int) ^ (fb' - 1) < 2 ^ (fb - 1)" using r(1) assms(2) by linarith
  then have "fb' - 1 < fb - 1" by (simp add: power_strict_increasing_iff)
  then show "fb' < fb" by linarith
qed

text \<open>The invariant of a turn: the field's window around the budget.\<close>

definition window_ok :: "nat \<Rightarrow> int \<Rightarrow> int \<Rightarrow> nat \<Rightarrow> bool" where
  "window_ok L remaining threshold fb \<longleftrightarrow> 0 < fb \<and> fb \<le> Suc L \<and> L \<le> 14 \<and> threshold = 2 ^ (fb - 1) \<and>
     threshold \<le> remaining \<and> remaining < 2 * threshold \<and> 2 \<le> remaining"

lemma ncount_symbol_contract:
  assumes r: "desc_ok r" and bud: "budget_ok L mc sc counts remaining" and sc: "sc < mc"
    and w: "window_ok L remaining threshold fb"
  shows "wp (ncount_symbol r remaining threshold fb sc counts) (\<lambda>res. case res of
     Inl e \<Rightarrow> fst e = CUDEC_ERR_CORRUPT_INPUT
   | Inr (r', remaining', p, counts') \<Rightarrow> desc_ok r' \<and> desc_same r r' \<and> 1 \<le> remaining' \<and>
       remaining' \<le> remaining \<and> budget_ok L mc (Suc sc) counts' remaining')"
  unfolding ncount_symbol_def
proof (rule wp_bindI[OF desc_peek_bound[OF r]])
  show "fb \<le> 32" using w by (simp add: window_ok_def)
  fix peeked :: u32
  obtain v width where f: "ncount_field threshold remaining fb peeked = (v, width)"
    by (cases "ncount_field threshold remaining fb peeked")
  have vb: "0 \<le> v" "v \<le> remaining"
    using ncount_field_bound[OF _ _ _ _ _ f] w by (auto simp: window_ok_def)
  let ?p = "v - 1"
  have "remaining \<le> 2 ^ L + 1" by (rule budget_remaining[OF bud])
  then have p: "- 1 \<le> ?p" "?p \<le> 2 ^ L" "?p \<le> remaining - 1" "2 \<le> remaining"
    using vb w by (auto simp: window_ok_def)
  have "(2::int) ^ L \<le> 2 ^ 14" using w by (intro power_increasing) (auto simp: window_ok_def)
  then have p16: "to_int16 ?p = ?p" using p by (intro to_int16_small) simp_all
  have l: "sc < length counts" using bud sc by (auto simp: budget_ok_def)
  have m: "(if ?p < 0 then - ?p else ?p) = magnitude ?p" using vb by (simp add: magnitude_def)
  have "1 \<le> remaining - magnitude ?p" "remaining - magnitude ?p \<le> remaining"
    using p by (auto simp: magnitude_def)
  then show "wp (do {
     let (value, width) = ncount_field threshold remaining fb peeked;
     if \<not> desc_available r width
     then Some (Inl (CUDEC_ERR_CORRUPT_INPUT, kZstdFseRejectDescriptionTruncated))
     else do {
       let probability = value - 1;
       let remaining = remaining - (if probability < 0 then - probability else probability);
       counts \<leftarrow> put counts sc (to_int16 probability);
       Some (Inr (desc_advance width r, remaining, probability, counts))
     }
   }) (\<lambda>res. case res of
     Inl e \<Rightarrow> fst e = CUDEC_ERR_CORRUPT_INPUT
   | Inr (r', remaining', p, counts') \<Rightarrow> desc_ok r' \<and> desc_same r r' \<and> 1 \<le> remaining' \<and>
       remaining' \<le> remaining \<and> budget_ok L mc (Suc sc) counts' remaining')"
    unfolding f Let_def prod.case m p16
    using l desc_advance_ok[OF r] budget_step[OF bud sc p(1,2)] by (simp add: wp_rules)
qed

lemma ncount_window_ok:
  assumes w: "window_ok L remaining threshold fb" and r: "remaining' \<le> remaining" "2 \<le> remaining' \<or> threshold \<le> remaining'"
    and e: "ncount_window remaining' threshold fb = (threshold', fb')"
  shows "window_ok L remaining' threshold' fb'"
proof (cases "remaining' < threshold")
  case True
  then have "2 \<le> remaining'" using r by simp
  moreover have "fb \<le> 16" "remaining' < 2 ^ (fb - 1)" using w True by (auto simp: window_ok_def)
  ultimately show ?thesis using next_field[of remaining' fb] True e w
    by (auto simp: ncount_window_def window_ok_def Let_def)
next
  case False
  then show ?thesis using w r e by (auto simp: ncount_window_def window_ok_def)
qed

lemma ncount_loop_contract:
  assumes "desc_ok r" "budget_ok L mc sc counts remaining" "sc < mc" "window_ok L remaining threshold fb"
  shows "wp (ncount_loop it mc r remaining threshold fb sc pz counts) (\<lambda>res. case res of
     Inl e \<Rightarrow> fst e = CUDEC_ERR_CORRUPT_INPUT
   | Inr (r', remaining', sc', counts') \<Rightarrow> desc_ok r' \<and> desc_same r r' \<and> 1 \<le> remaining' \<and>
       (remaining' = 1 \<longrightarrow> 0 < sc') \<and> budget_ok L mc sc' counts' remaining')"
  using assms
proof (induction it arbitrary: r remaining threshold fb sc pz counts)
  case 0
  then show ?case by (simp add: ncount_loop.simps wp_rules window_ok_def)
next
  case (Suc it)
  let ?Q = "\<lambda>res. case res of
     Inl e \<Rightarrow> fst e = CUDEC_ERR_CORRUPT_INPUT
   | Inr (r', remaining', sc', counts') \<Rightarrow> desc_ok r' \<and> desc_same r r' \<and> 1 \<le> remaining' \<and>
       (remaining' = 1 \<longrightarrow> 0 < sc') \<and> budget_ok L mc sc' counts' remaining'"
  have run: "wp (if pz then ncount_run mc r mc sc else Some (Inr (r, sc))) (\<lambda>res. case res of
     Inl e \<Rightarrow> fst e = CUDEC_ERR_CORRUPT_INPUT | Inr (r', sc') \<Rightarrow> desc_ok r' \<and> desc_same r r' \<and> sc \<le> sc' \<and> sc' < mc)"
    using ncount_run_contract[OF Suc.prems(1)] Suc.prems(1,3) by (auto simp: wp_rules)
  show ?case
  proof (subst ncount_loop.simps, rule wp_bind_sum[OF run])
    fix x :: "zstd_fse_desc_reader \<times> nat"
    assume "case x of (r', sc') \<Rightarrow> desc_ok r' \<and> desc_same r r' \<and> sc \<le> sc' \<and> sc' < mc"
    then obtain r1 s1 where x: "x = (r1, s1)"
      and r1: "desc_ok r1" "desc_same r r1" "sc \<le> s1" "s1 < mc" by (cases x) auto
    have "budget_ok L mc s1 counts remaining" using budget_skip[OF Suc.prems(2) r1(3)] r1(4) by simp
    note sym = ncount_symbol_contract[OF r1(1) this r1(4) Suc.prems(4)]
    have cont: "wp (if rem' < threshold \<and> rem' \<le> 1 then Some (Inr (r2, rem', s1 + 1, c2))
             else
               let (threshold, field_bits) = ncount_window rem' threshold fb
               in if s1 + 1 \<ge> mc then Some (Inr (r2, rem', s1 + 1, c2))
                  else ncount_loop it mc r2 rem' threshold field_bits (s1 + 1) (p = 0) c2) ?Q"
      if h: "desc_ok r2" "desc_same r1 r2" "1 \<le> rem'" "rem' \<le> remaining" "budget_ok L mc (Suc s1) c2 rem'"
      for r2 rem' p c2
    proof (cases "rem' < threshold \<and> rem' \<le> 1 \<or> s1 + 1 \<ge> mc")
      case True
      then show ?thesis using h desc_same_trans[OF r1(2) h(2)]
        by (auto simp: wp_rules split: prod.splits)
    next
      case False
      obtain t2 f2 where e: "ncount_window rem' threshold fb = (t2, f2)" by (cases "ncount_window rem' threshold fb")
      have "2 \<le> rem' \<or> threshold \<le> rem'" using False by auto
      note w2 = ncount_window_ok[OF Suc.prems(4) h(4) this e]
      have "wp (ncount_loop it mc r2 rem' t2 f2 (Suc s1) (p = 0) c2) ?Q"
        by (rule wp_mono[OF Suc.IH[OF h(1,5) _ w2]])
          (use False desc_same_trans[OF r1(2) h(2)] in \<open>auto intro: desc_same_trans split: sum.splits\<close>)
      then show ?thesis using False e by auto
    qed
    show "wp (case x of (r, sc) \<Rightarrow> do {
         sym \<leftarrow> ncount_symbol r remaining threshold fb sc counts;
         case sym of
           Inl e \<Rightarrow> Some (Inl e)
         | Inr (r, remaining, probability, counts) \<Rightarrow>
             if remaining < threshold \<and> remaining \<le> 1 then Some (Inr (r, remaining, sc + 1, counts))
             else
               let (threshold, field_bits) = ncount_window remaining threshold fb
               in if sc + 1 \<ge> mc then Some (Inr (r, remaining, sc + 1, counts))
                  else ncount_loop it mc r remaining threshold field_bits (sc + 1)
                         (probability = 0) counts
       }) ?Q"
      unfolding x prod.case
      by (rule wp_bind_sum[OF sym], simp add: wp_rules, elim case_prodE conjE, hypsubst,
          simp only: prod.case, rule cont)
  qed (simp add: wp_rules)
qed

section \<open>An accepted description is a normalized distribution\<close>

lemma zero_counts_contract:
  "n \<le> length cs \<Longrightarrow> wp (zero_counts n cs) (\<lambda>cs'. length cs' = length cs \<and>
     (\<forall>i < length cs. cs' ! i = (if i < n then 0 else cs ! i)))"
proof (induction n arbitrary: cs)
  case (Suc n)
  then show ?case by (auto simp: wp_rules nth_list_update intro!: wp_mono[OF Suc.IH])
qed (simp add: wp_rules)

text \<open>A distribution the format allows: magnitudes that fill the table of the accuracy log.\<close>

definition normalized :: "int list \<Rightarrow> nat \<Rightarrow> nat \<Rightarrow> bool" where
  "normalized counts max_symbol L \<longleftrightarrow> max_symbol < length counts \<and>
     (\<forall>i\<le>max_symbol. - 1 \<le> counts ! i \<and> counts ! i \<le> 2 ^ L) \<and>
     (\<Sum>i\<le>max_symbol. magnitude (counts ! i)) = 2 ^ L"

lemma budget_normalized:
  assumes "budget_ok L mc sc counts 1" "0 < sc"
  shows "normalized counts (sc - 1) L" "sc - 1 < mc" "\<forall>i<mc. sc - 1 < i \<longrightarrow> counts ! i = 0"
proof -
  have mc: "sc \<le> mc" "mc \<le> length counts" using assms(1) by (auto simp: budget_ok_def)
  have "(\<Sum>i<mc. magnitude (counts ! i)) = (\<Sum>i\<in>{..<sc}. magnitude (counts ! i))"
    using assms(1) mc by (intro sum.mono_neutral_right) (auto simp: budget_ok_def magnitude_def)
  moreover have "{..<sc} = {..sc - 1}" using assms(2) by auto
  ultimately show "normalized counts (sc - 1) L" "sc - 1 < mc"
    using assms mc by (auto simp: normalized_def budget_ok_def)
  show "\<forall>i<mc. sc - 1 < i \<longrightarrow> counts ! i = 0" using assms by (auto simp: budget_ok_def)
qed

lemma read_ncount_contract:
  assumes n: "n \<le> length s" and c: "max_symbol_value < length counts" and l: "max_accuracy_log \<le> 14"
  shows "wp (zstd_fse_read_ncount s n max_symbol_value max_accuracy_log counts) (\<lambda>res. case res of
     Inl (st, rej) \<Rightarrow> st \<in> {CUDEC_ERR_CORRUPT_INPUT, CUDEC_ERR_INVALID_ARGUMENT} \<and>
       (st = CUDEC_ERR_INVALID_ARGUMENT \<longleftrightarrow> max_symbol_value > 255 \<or> max_accuracy_log < 5)
   | Inr d \<Rightarrow> fd_max_symbol d \<le> max_symbol_value \<and> 5 \<le> fd_accuracy_log d \<and>
       fd_accuracy_log d \<le> max_accuracy_log \<and> fd_consumed d \<le> n \<and>
       normalized (fd_counts d) (fd_max_symbol d) (fd_accuracy_log d) \<and>
       (\<forall>i\<le>max_symbol_value. fd_max_symbol d < i \<longrightarrow> fd_counts d ! i = 0))"
proof (cases "max_symbol_value > 255 \<or> max_accuracy_log < 5 \<or> n = 0")
  case True
  then show ?thesis using l by (auto simp: zstd_fse_read_ncount_def fse_consts wp_rules)
next
  case False
  let ?mc = "max_symbol_value + 1"
  let ?r = "\<lparr>dr_src = s, dr_size = n, byte_pos = 0, bit_pos = 0\<rparr>"
  have r: "desc_ok ?r" using n by (simp add: desc_ok_def desc_bytes_consumed_def)
  let ?Q = "\<lambda>res. case res of
     Inl (st, rej) \<Rightarrow> st = CUDEC_ERR_CORRUPT_INPUT
   | Inr d \<Rightarrow> fd_max_symbol d \<le> max_symbol_value \<and> 5 \<le> fd_accuracy_log d \<and>
       fd_accuracy_log d \<le> max_accuracy_log \<and> fd_consumed d \<le> n \<and>
       normalized (fd_counts d) (fd_max_symbol d) (fd_accuracy_log d) \<and>
       (\<forall>i\<le>max_symbol_value. fd_max_symbol d < i \<longrightarrow> fd_counts d ! i = 0)"
  have body: "wp (do { res \<leftarrow> ncount_loop ?mc ?mc (desc_advance 4 ?r) (2 ^ L + 1) (2 ^ L) (L + 1) 0 False cs;
            case res of
              Inl e \<Rightarrow> Some (Inl e)
            | Inr (r, remaining, sc, counts) \<Rightarrow>
                if remaining \<noteq> 1
                then Some (Inl (CUDEC_ERR_CORRUPT_INPUT, kZstdFseRejectSymbolPastMax))
                else Some (Inr \<lparr>fd_max_symbol = sc - 1, fd_accuracy_log = L,
                                fd_consumed = desc_bytes_consumed r, fd_counts = counts\<rparr>) }) ?Q"
    if av: "desc_available ?r 4" and L: "5 \<le> L" "L \<le> max_accuracy_log"
      and cs: "length cs = length counts" "\<forall>i<?mc. cs ! i = 0" for L cs
  proof -
    have "(\<Sum>i<?mc. magnitude (cs ! i)) = 0" using cs(2) by (intro sum.neutral) (auto simp: magnitude_def)
    then have b: "budget_ok L ?mc 0 cs (2 ^ L + 1)" using c cs by (auto simp: budget_ok_def)
    have "(2::int) ^ 1 \<le> 2 ^ L" using L(1) by (intro power_increasing) auto
    then have w: "window_ok L (2 ^ L + 1) (2 ^ L) (L + 1)" using L l by (auto simp: window_ok_def)
    note adv = desc_advance_ok[OF r av]
    have fin: "?Q (if rem \<noteq> 1 then Inl (CUDEC_ERR_CORRUPT_INPUT, kZstdFseRejectSymbolPastMax)
        else Inr \<lparr>fd_max_symbol = sc - 1, fd_accuracy_log = L, fd_consumed = desc_bytes_consumed r', fd_counts = cs'\<rparr>)"
      if "desc_ok r'" "desc_same (desc_advance 4 ?r) r'" "rem = 1 \<longrightarrow> 0 < sc" "budget_ok L ?mc sc cs' rem" for r' rem sc cs'
    proof (cases "rem = 1")
      case True
      have "desc_bytes_consumed r' \<le> n" using that(1,2) adv(2) by (auto simp: desc_ok_def desc_same_def)
      then show ?thesis using True that L budget_normalized[of L ?mc sc cs'] by auto
    qed simp
    show ?thesis
      by (rule wp_bind_sum[OF ncount_loop_contract[OF adv(1) b _ w]], simp, force simp: wp_rules,
          elim case_prodE conjE, hypsubst, simp only: prod.case if_distrib[of Some, symmetric] wp_Some, rule fin, assumption+)
  qed
  have "wp (zstd_fse_read_ncount s n max_symbol_value max_accuracy_log counts) ?Q"
  proof (cases "desc_available ?r 4")
    case True
    have "wp (zero_counts ?mc counts) (\<lambda>cs. length cs = length counts \<and> (\<forall>i<?mc. cs ! i = 0))"
      using c by (intro wp_mono[OF zero_counts_contract]) auto
    then obtain cs where cs: "zero_counts ?mc counts = Some cs" "length cs = length counts" "\<forall>i<?mc. cs ! i = 0"
      by (auto simp: wp_iff)
    obtain v where v: "desc_peek ?r 4 = Some v" using desc_peek_bound[OF r, of 4] by (auto simp: wp_iff)
    show ?thesis
    proof (cases "unat v + 5 > max_accuracy_log")
      case True
      then show ?thesis using False \<open>desc_available ?r 4\<close> l cs v
        by (simp add: zstd_fse_read_ncount_def fse_consts Let_def wp_rules del: zero_counts.simps)
    next
      case log: False
      have "zstd_fse_read_ncount s n max_symbol_value max_accuracy_log counts =
        do { res \<leftarrow> ncount_loop ?mc ?mc (desc_advance 4 ?r) (2 ^ (unat v + 5) + 1) (2 ^ (unat v + 5)) (unat v + 5 + 1) 0 False cs;
            case res of
              Inl e \<Rightarrow> Some (Inl e)
            | Inr (r, remaining, sc, counts) \<Rightarrow>
                if remaining \<noteq> 1
                then Some (Inl (CUDEC_ERR_CORRUPT_INPUT, kZstdFseRejectSymbolPastMax))
                else Some (Inr \<lparr>fd_max_symbol = sc - 1, fd_accuracy_log = unat v + 5,
                                fd_consumed = desc_bytes_consumed r, fd_counts = counts\<rparr>) }"
        using False \<open>desc_available ?r 4\<close> l log cs v
        by (simp add: zstd_fse_read_ncount_def fse_consts Let_def del: zero_counts.simps)
      then show ?thesis using log by (simp only:) (rule body[OF \<open>desc_available ?r 4\<close> _ _ cs(2,3)]; simp)
    qed
  next
    case False
    then show ?thesis using l \<open>\<not> (max_symbol_value > 255 \<or> max_accuracy_log < 5 \<or> n = 0)\<close>
        and c
      unfolding zstd_fse_read_ncount_def fse_consts by (auto simp: wp_rules Let_def simp del: zero_counts.simps intro!: wp_mono[OF zero_counts_contract])
  qed
  then show ?thesis by (rule wp_mono) (use False in \<open>auto split: sum.splits\<close>)
qed

end
