(* ===== verification/Zstd_Fse_Table.thy ===== *)
theory Zstd_Fse_Table
  imports Zstd_Fse_Desc
begin

text \<open>
  The decoding table, \<open>ZstdFseBuildDTable\<close> of \<open>src/zstd_fse.h\<close>: the validation of
  the count vector, the symbols placed from the top of the table, the spread, the states. The
  table is characterised cell by cell, and shown to be one the reverse automaton needs: every
  symbol's cells partition the states.
\<close>

record zstd_fse_cell =
  fc_new_state :: u16
  fc_symbol :: u8
  fc_nb_bits :: u8

definition set_symbol :: "zstd_fse_cell list \<Rightarrow> nat \<Rightarrow> nat \<Rightarrow> zstd_fse_cell list option" where
  "set_symbol cells i symbol = do { c \<leftarrow> at cells i; put cells i (c\<lparr>fc_symbol := of_nat symbol\<rparr>) }"

text \<open>The magnitudes have to sum to the table size; checked before anything is written.\<close>

fun fse_claim :: "int list \<Rightarrow> u32 \<Rightarrow> nat list \<Rightarrow> u32 \<Rightarrow> (fse_error + u32) option" where
  "fse_claim counts table_size [] claimed = Some (Inr claimed)"
| "fse_claim counts table_size (symbol # symbols) claimed = do {
     probability \<leftarrow> at counts symbol;
     if probability < - 1
     then Some (Inl (CUDEC_ERR_CORRUPT_INPUT, kZstdFseRejectBuildCountsNotNormalized))
     else do {
       let m = (if probability < 0 then 1 else of_int probability);
       if m > table_size - claimed
       then Some (Inl (CUDEC_ERR_CORRUPT_INPUT, kZstdFseRejectBuildCountsNotNormalized))
       else fse_claim counts table_size symbols (claimed + m)
     }
   }"

text \<open>The symbols of probability less than one take the top cells, one each.\<close>

fun fse_low :: "int list \<Rightarrow> nat list \<Rightarrow> u32 \<Rightarrow> zstd_fse_cell list \<Rightarrow> u16 list \<Rightarrow>
    (u32 \<times> zstd_fse_cell list \<times> u16 list) option" where
  "fse_low counts [] high cells symbol_next = Some (high, cells, symbol_next)"
| "fse_low counts (symbol # symbols) high cells symbol_next = do {
     c \<leftarrow> at counts symbol;
     if c < 0 then do {
       cells \<leftarrow> set_symbol cells (unat high) symbol;
       symbol_next \<leftarrow> put symbol_next symbol 1;
       fse_low counts symbols (high - 1) cells symbol_next
     } else do {
       symbol_next \<leftarrow> put symbol_next symbol (of_int c);
       fse_low counts symbols high cells symbol_next
     }
   }"

text \<open>The spread: a fixed stride through the table, the reserved top skipped.\<close>

fun fse_skip :: "nat \<Rightarrow> u32 \<Rightarrow> u32 \<Rightarrow> u32 \<Rightarrow> u32 \<Rightarrow> fse_error + u32" where
  "fse_skip fuel high step table_mask position =
     (if position > high
      then (case fuel of
              0 \<Rightarrow> Inl (CUDEC_ERR_CORRUPT_INPUT, kZstdFseRejectBuildCountsNotNormalized)
            | Suc fuel \<Rightarrow> fse_skip fuel high step table_mask ((position + step) AND table_mask))
      else Inr position)"

fun fse_slots :: "nat \<Rightarrow> nat \<Rightarrow> u32 \<Rightarrow> u32 \<Rightarrow> u32 \<Rightarrow> u32 \<Rightarrow> zstd_fse_cell list \<Rightarrow> u32 \<Rightarrow>
    (fse_error + (zstd_fse_cell list \<times> u32)) option" where
  "fse_slots 0 symbol table_size high step table_mask cells position = Some (Inr (cells, position))"
| "fse_slots (Suc slots) symbol table_size high step table_mask cells position = do {
     cells \<leftarrow> set_symbol cells (unat position) symbol;
     case fse_skip (unat table_size) high step table_mask ((position + step) AND table_mask) of
       Inl e \<Rightarrow> Some (Inl e)
     | Inr position \<Rightarrow> fse_slots slots symbol table_size high step table_mask cells position
   }"

fun fse_spread :: "int list \<Rightarrow> nat list \<Rightarrow> u32 \<Rightarrow> u32 \<Rightarrow> u32 \<Rightarrow> u32 \<Rightarrow> zstd_fse_cell list \<Rightarrow> u32 \<Rightarrow>
    (fse_error + zstd_fse_cell list) option" where
  "fse_spread counts [] table_size high step table_mask cells position = Some (Inr cells)"
| "fse_spread counts (symbol # symbols) table_size high step table_mask cells position = do {
     probability \<leftarrow> at counts symbol;
     res \<leftarrow> fse_slots (nat probability) symbol table_size high step table_mask cells position;
     case res of
       Inl e \<Rightarrow> Some (Inl e)
     | Inr (cells, position) \<Rightarrow>
         fse_spread counts symbols table_size high step table_mask cells position
   }"

text \<open>
  The states. An accuracy log below the highest bit of a state would shift by a huge amount,
  which is undefined; it is the value \<open>None\<close> here.
\<close>

fun fse_states :: "nat \<Rightarrow> u32 \<Rightarrow> nat list \<Rightarrow> zstd_fse_cell list \<Rightarrow> u16 list \<Rightarrow> zstd_fse_cell list option" where
  "fse_states accuracy_log table_size [] cells symbol_next = Some cells"
| "fse_states accuracy_log table_size (cell # rest) cells symbol_next = do {
     c \<leftarrow> at cells cell;
     let symbol = unat (fc_symbol c);
     next_state \<leftarrow> at symbol_next symbol;
     symbol_next \<leftarrow> put symbol_next symbol (next_state + 1);
     let highest = zstd_fse_highest_set_bit (ucast next_state);
     if highest > accuracy_log then None
     else do {
       let bits = accuracy_log - highest;
       let new_state = ucast (push_bit bits (ucast next_state) - table_size :: u32);
       cells \<leftarrow> put cells cell (c\<lparr>fc_nb_bits := of_nat bits, fc_new_state := new_state\<rparr>);
       fse_states accuracy_log table_size rest cells symbol_next
     }
   }"

definition zstd_fse_build_dtable :: "int list \<Rightarrow> nat \<Rightarrow> nat \<Rightarrow> zstd_fse_cell list \<Rightarrow> u32 \<Rightarrow> u16 list \<Rightarrow>
    (fse_error + zstd_fse_cell list) option" where
  "zstd_fse_build_dtable counts max_symbol_value accuracy_log cells cell_capacity symbol_next =
     (if max_symbol_value > kZstdFseMaxSymbolValue \<or> accuracy_log < kZstdFseMinAccuracyLog \<or>
         accuracy_log > kZstdFseMaxAccuracyLog
      then Some (Inl (CUDEC_ERR_INVALID_ARGUMENT, kZstdFseRejectBadRequest))
      else do {
        let table_size = push_bit accuracy_log 1;
        if cell_capacity < table_size
        then Some (Inl (CUDEC_ERR_INVALID_ARGUMENT, kZstdFseRejectBuildCapacity))
        else do {
          let symbols = [0..<max_symbol_value + 1];
          claim \<leftarrow> fse_claim counts table_size symbols 0;
          case claim of
            Inl e \<Rightarrow> Some (Inl e)
          | Inr claimed \<Rightarrow>
              if claimed \<noteq> table_size
              then Some (Inl (CUDEC_ERR_CORRUPT_INPUT, kZstdFseRejectBuildCountsNotNormalized))
              else do {
                (high, cells, symbol_next) \<leftarrow>
                  fse_low counts symbols (table_size - 1) cells symbol_next;
                let step = drop_bit 1 table_size + drop_bit 3 table_size + kZstdFseSpreadStepBias;
                res \<leftarrow> fse_spread counts symbols table_size high step (table_size - 1) cells 0;
                case res of
                  Inl e \<Rightarrow> Some (Inl e)
                | Inr cells \<Rightarrow> do {
                    cells \<leftarrow> fse_states accuracy_log table_size [0..<unat table_size] cells symbol_next;
                    Some (Inr cells)
                  }
              }
        }
      })"

declare fse_skip.simps [simp del]

section \<open>The stride visits every cell once\<close>

definition stride :: "nat \<Rightarrow> nat" where
  "stride L = 2 ^ L div 2 + 2 ^ L div 8 + 3"

definition stop :: "nat \<Rightarrow> nat \<Rightarrow> nat" where
  "stop L k = k * stride L mod 2 ^ L"

lemma odd_stride: "5 \<le> L \<Longrightarrow> odd (stride L)"
proof -
  assume "5 \<le> L"
  then obtain m where L: "L = m + 5" by (metis add.commute le_Suc_ex)
  show ?thesis by (simp add: stride_def L power_add)
qed

lemma stop_inj: "5 \<le> L \<Longrightarrow> inj_on (stop L) {..<2 ^ L}"
proof (rule linorder_inj_onI)
  fix i j :: nat
  assume L: "5 \<le> L" and ij: "i < j" "i \<in> {..<2 ^ L}" "j \<in> {..<2 ^ L}"
  show "stop L i \<noteq> stop L j"
  proof
    assume "stop L i = stop L j"
    then have "2 ^ L dvd j * stride L - i * stride L"
      using ij(1) by (intro mod_eq_dvd_iff_nat[THEN iffD1]) (auto simp: stop_def)
    then have "2 ^ L dvd (j - i) * stride L" by (simp add: diff_mult_distrib)
    moreover have "coprime ((2::nat) ^ L) (stride L)" using odd_stride[OF L] by simp
    ultimately have "2 ^ L dvd j - i" by (simp add: coprime_dvd_mult_left_iff)
    then show False using ij by (auto dest!: dvd_imp_le)
  qed
qed auto

lemma stop_0 [simp]: "stop L 0 = 0" "stop L (2 ^ L) = 0"
  by (simp_all add: stop_def)

lemma stop_less [simp]: "stop L k < 2 ^ L"
  by (simp add: stop_def)

lemma stop_Suc: "stop L (Suc k) = (stop L k + stride L) mod 2 ^ L"
  by (simp add: stop_def mod_simps ac_simps)

lemma stop_onto: "5 \<le> L \<Longrightarrow> stop L ` {..<2 ^ L} = {..<2 ^ L}"
  by (rule card_subset_eq) (auto simp: card_image stop_inj)

section \<open>What each pass leaves\<close>

definition occ :: "zstd_fse_cell list \<Rightarrow> nat set \<Rightarrow> nat \<Rightarrow> nat" where
  "occ cells V t = card {p \<in> V. unat (fc_symbol (cells ! p)) = t}"

text \<open>The symbol of a cell.\<close>

definition cell_symbol :: "zstd_fse_cell list \<Rightarrow> nat \<Rightarrow> nat" where
  "cell_symbol cells c = unat (fc_symbol (cells ! c))"

definition with_symbol :: "zstd_fse_cell list \<Rightarrow> nat \<Rightarrow> nat \<Rightarrow> zstd_fse_cell list" where
  "with_symbol cells p symbol = cells[p := (cells ! p)\<lparr>fc_symbol := of_nat symbol\<rparr>]"

lemma set_symbol: "p < length cells \<Longrightarrow> set_symbol cells p symbol = Some (with_symbol cells p symbol)"
  by (simp add: set_symbol_def at_def put_def with_symbol_def)

lemma length_with_symbol [simp]: "length (with_symbol cells p symbol) = length cells"
  by (simp add: with_symbol_def)

lemma occ_with_symbol:
  assumes "finite V" "p \<notin> V" "p < length cells" "symbol < 256"
  shows "occ (with_symbol cells p symbol) (insert p V) t = occ cells V t + (if t = symbol then 1 else 0)"
proof -
  have u: "unat (of_nat symbol :: u8) = symbol" using assms(4) by (intro unat_of_nat_less) simp
  have "{q \<in> insert p V. unat (fc_symbol (with_symbol cells p symbol ! q)) = t} =
      (if t = symbol then insert p {q \<in> V. unat (fc_symbol (cells ! q)) = t}
       else {q \<in> V. unat (fc_symbol (cells ! q)) = t})"
    using assms u by (auto simp: with_symbol_def nth_list_update)
  then show ?thesis using assms by (simp add: occ_def)
qed

lemma with_symbol_at:
  assumes "p < length cells" "symbol < 256"
  shows "cell_symbol (with_symbol cells p symbol) q = (if q = p then symbol else cell_symbol cells q)"
proof -
  have "unat (of_nat symbol :: u8) = symbol" using assms(2) by (intro unat_of_nat_less) simp
  then show ?thesis using assms(1) by (auto simp: cell_symbol_def with_symbol_def nth_list_update)
qed

lemma with_symbol_other: "q \<noteq> p \<Longrightarrow> with_symbol cells p symbol ! q = cells ! q"
  by (simp add: with_symbol_def)

subsection \<open>The sum check\<close>

lemma fse_claim_contract:
  assumes "\<forall>s\<in>set ss. s < length counts \<and> counts ! s < 32768" "unat claimed \<le> unat T"
  shows "wp (fse_claim counts T ss claimed) (\<lambda>res. case res of
     Inl e \<Rightarrow> e = (CUDEC_ERR_CORRUPT_INPUT, kZstdFseRejectBuildCountsNotNormalized) \<and>
       ((\<exists>s\<in>set ss. counts ! s < - 1) \<or> int (unat T) < int (unat claimed) + (\<Sum>s\<leftarrow>ss. magnitude (counts ! s)))
   | Inr c \<Rightarrow> (\<forall>s\<in>set ss. - 1 \<le> counts ! s) \<and>
       int (unat c) = int (unat claimed) + (\<Sum>s\<leftarrow>ss. magnitude (counts ! s)))"
  using assms
proof (induction ss arbitrary: claimed)
  case Nil
  then show ?case by (simp add: wp_rules)
next
  case (Cons s ss)
  define m :: u32 where "m = (if counts ! s < 0 then 1 else of_int (counts ! s))"
  have m: "int (unat m) = magnitude (counts ! s)"
  proof (cases "counts ! s < 0")
    case False
    then have "m = of_nat (nat (counts ! s))" by (simp add: m_def)
    moreover have "nat (counts ! s) < 32768" using Cons.prems(1) by auto
    then have "nat (counts ! s) < 2 ^ LENGTH(32)" by simp
    ultimately have "unat m = nat (counts ! s)" using unat_of_nat_less by blast
    then show ?thesis using False by (simp add: magnitude_def)
  qed (simp add: m_def magnitude_def)
  have nn: "0 \<le> (\<Sum>s\<leftarrow>ss. magnitude (counts ! s))" by (intro sum_list_nonneg) (auto simp: magnitude_def)
  have d: "unat (T - claimed) = unat T - unat claimed" by (rule unat_minus[OF Cons.prems(2)])
  show ?case
  proof (cases "counts ! s < - 1 \<or> m > T - claimed")
    case True
    moreover have "int (unat T) < int (unat claimed) + (magnitude (counts ! s) + (\<Sum>s\<leftarrow>ss. magnitude (counts ! s)))"
      if "m > T - claimed"
    proof -
      have "unat T - unat claimed < unat m" using that d by (simp add: w2n)
      then show ?thesis using Cons.prems(2) m nn by linarith
    qed
    ultimately show ?thesis using Cons.prems(1) by (auto simp: at_def wp_rules m_def[symmetric])
  next
    case False
    then have le: "unat claimed + unat m \<le> unat T" using d Cons.prems(2) by (simp add: w2n not_less) linarith
    have u: "unat (claimed + m) = unat claimed + unat m" by (rule unat_plus_le[OF le])
    have "fse_claim counts T (s # ss) claimed = fse_claim counts T ss (claimed + m)"
      using Cons.prems(1) False by (simp add: at_def m_def[symmetric] Let_def)
    moreover have "wp (fse_claim counts T ss (claimed + m)) (\<lambda>res. case res of
       Inl e \<Rightarrow> e = (CUDEC_ERR_CORRUPT_INPUT, kZstdFseRejectBuildCountsNotNormalized) \<and>
         ((\<exists>s\<in>set ss. counts ! s < - 1) \<or> int (unat T) < int (unat (claimed + m)) + (\<Sum>s\<leftarrow>ss. magnitude (counts ! s)))
     | Inr c \<Rightarrow> (\<forall>s\<in>set ss. - 1 \<le> counts ! s) \<and>
         int (unat c) = int (unat (claimed + m)) + (\<Sum>s\<leftarrow>ss. magnitude (counts ! s)))"
      using Cons.prems(1) le by (intro Cons.IH) (auto simp: u)
    ultimately show ?thesis using False m
      by (simp only:) (erule wp_mono, auto simp: u split: sum.splits)
  qed
qed

subsection \<open>The reserved top\<close>

abbreviation low_count :: "int list \<Rightarrow> nat list \<Rightarrow> nat" where
  "low_count counts ss \<equiv> length (filter (\<lambda>s. counts ! s < 0) ss)"

lemma fse_low_contract:
  assumes "distinct ss" "\<forall>s\<in>set ss. s < length counts \<and> s < length sn \<and> s < 256"
    and "k + low_count counts ss \<le> T" "T \<le> length cells" "T < 2 ^ 32" "0 < T"
    and "\<forall>s\<in>set ss. - 1 \<le> counts ! s"
  shows "wp (fse_low counts ss (of_nat T - 1 - of_nat k) cells sn) (\<lambda>(high, cells', sn').
     high = of_nat T - 1 - of_nat (k + low_count counts ss) \<and>
     length cells' = length cells \<and> length sn' = length sn \<and>
     (\<forall>t. occ cells' {T - (k + low_count counts ss)..<T} t =
        occ cells {T - k..<T} t + (if t \<in> set ss \<and> counts ! t < 0 then 1 else 0)) \<and>
     (\<forall>t<length sn. sn' ! t = (if t \<in> set ss then of_int (magnitude (counts ! t)) else sn ! t)))"
  using assms
proof (induction ss arbitrary: k cells sn)
  case Nil
  then show ?case by (simp add: wp_rules)
next
  case (Cons s ss)
  show ?case
  proof (cases "counts ! s < 0")
    case True
    have k: "k < T" using Cons.prems(3) True by simp
    have high: "of_nat T - 1 - of_nat k = (of_nat (T - Suc k) :: u32)" using k by (simp add: of_nat_diff)
    have uh: "unat (of_nat T - 1 - of_nat k :: u32) = T - Suc k"
      unfolding high using Cons.prems(5) by (intro unat_of_nat_less) simp
    let ?cells = "with_symbol cells (T - Suc k) s"
    have next_high: "of_nat T - 1 - of_nat k - 1 = (of_nat T - 1 - of_nat (Suc k) :: u32)" by simp
    have ins: "{T - Suc k..<T} = insert (T - Suc k) {T - k..<T}" using k by auto
    have o: "occ ?cells {T - Suc k..<T} t = occ cells {T - k..<T} t + (if t = s then 1 else 0)" for t
      unfolding ins using k Cons.prems by (intro occ_with_symbol) auto
    have "fse_low counts (s # ss) (of_nat T - 1 - of_nat k) cells sn =
        fse_low counts ss (of_nat T - 1 - of_nat (Suc k)) ?cells (sn[s := 1])"
      using True k Cons.prems by (simp add: at_def uh set_symbol next_high[symmetric])
    moreover have "wp (fse_low counts ss (of_nat T - 1 - of_nat (Suc k)) ?cells (sn[s := 1])) (\<lambda>(high, cells', sn').
     high = of_nat T - 1 - of_nat (Suc k + low_count counts ss) \<and>
     length cells' = length ?cells \<and> length sn' = length (sn[s := 1]) \<and>
     (\<forall>t. occ cells' {T - (Suc k + low_count counts ss)..<T} t =
        occ ?cells {T - Suc k..<T} t + (if t \<in> set ss \<and> counts ! t < 0 then 1 else 0)) \<and>
     (\<forall>t<length (sn[s := 1]). sn' ! t = (if t \<in> set ss then of_int (magnitude (counts ! t)) else sn[s := 1] ! t)))"
      using Cons.prems True by (intro Cons.IH) auto
    moreover have "magnitude (counts ! s) = 1" using True by (simp add: magnitude_def)
    ultimately show ?thesis
      using Cons.prems(1,2) True by (simp only:) (erule wp_mono, clarsimp simp: o nth_list_update)
  next
    case False
    have "wp (fse_low counts ss (of_nat T - 1 - of_nat k) cells (sn[s := of_int (counts ! s)])) (\<lambda>(high, cells', sn').
     high = of_nat T - 1 - of_nat (k + low_count counts ss) \<and>
     length cells' = length cells \<and> length sn' = length (sn[s := of_int (counts ! s)]) \<and>
     (\<forall>t. occ cells' {T - (k + low_count counts ss)..<T} t =
        occ cells {T - k..<T} t + (if t \<in> set ss \<and> counts ! t < 0 then 1 else 0)) \<and>
     (\<forall>t<length (sn[s := of_int (counts ! s)]). sn' ! t = (if t \<in> set ss then of_int (magnitude (counts ! t)) else sn[s := of_int (counts ! s)] ! t)))"
      using Cons.prems False by (intro Cons.IH) auto
    moreover have "magnitude (counts ! s) = counts ! s" using False by (simp add: magnitude_def)
    moreover have "fse_low counts (s # ss) (of_nat T - 1 - of_nat k) cells sn =
        fse_low counts ss (of_nat T - 1 - of_nat k) cells (sn[s := of_int (counts ! s)])"
      using False Cons.prems by (simp add: at_def)
    ultimately show ?thesis
      using Cons.prems(1,2) False by (simp only:) (erule wp_mono, clarsimp simp: nth_list_update)
  qed
qed

text \<open>The symbols take the top in their order, downwards.\<close>

lemma fse_low_layout:
  assumes "\<forall>s\<in>set ss. s < length counts \<and> s < length sn \<and> s < 256"
    and "k + low_count counts ss \<le> T" "T \<le> length cells" "T < 2 ^ 32"
    and "fse_low counts ss (of_nat T - 1 - of_nat k) cells sn = Some (high, cells', sn')"
  shows "map (cell_symbol cells') (map (\<lambda>i. T - Suc (k + i)) [0..<low_count counts ss]) = filter (\<lambda>s. counts ! s < 0) ss"
    "\<And>p. T - k \<le> p \<Longrightarrow> cells' ! p = cells ! p"
proof -
  have "map (cell_symbol cells') (map (\<lambda>i. T - Suc (k + i)) [0..<low_count counts ss]) = filter (\<lambda>s. counts ! s < 0) ss \<and>
    (\<forall>p. T - k \<le> p \<longrightarrow> cells' ! p = cells ! p)"
    using assms
  proof (induction ss arbitrary: k cells sn)
    case (Cons s ss)
    show ?case
    proof (cases "counts ! s < 0")
      case True
      have k: "k < T" using Cons.prems(2) True by simp
      have high: "of_nat T - 1 - of_nat k = (of_nat (T - Suc k) :: u32)" using k by (simp add: of_nat_diff)
      have uh: "unat (of_nat T - 1 - of_nat k :: u32) = T - Suc k"
        unfolding high using Cons.prems(4) by (intro unat_of_nat_less) simp
      let ?cells = "with_symbol cells (T - Suc k) s"
      have next_high: "of_nat T - 1 - of_nat k - 1 = (of_nat T - 1 - of_nat (Suc k) :: u32)" by simp
      have r: "fse_low counts ss (of_nat T - 1 - of_nat (Suc k)) ?cells (sn[s := 1]) = Some (high, cells', sn')"
        using True k Cons.prems by (simp add: at_def uh set_symbol next_high[symmetric])
      have ih: "map (cell_symbol cells') (map (\<lambda>i. T - Suc (Suc k + i)) [0..<low_count counts ss]) = filter (\<lambda>s. counts ! s < 0) ss"
        "\<forall>p. T - Suc k \<le> p \<longrightarrow> cells' ! p = ?cells ! p"
        using Cons.IH[OF _ _ _ _ r] Cons.prems True by simp_all
      have "cell_symbol cells' (T - Suc k) = s"
        using ih(2) with_symbol_at[of "T - Suc k" cells s "T - Suc k"] k Cons.prems(1,3) by (simp add: cell_symbol_def)
      moreover have "map (\<lambda>i. T - Suc (k + i)) [0..<Suc n] = (T - Suc k) # map (\<lambda>i. T - Suc (Suc k + i)) [0..<n]" for n
        by (simp add: upt_conv_Cons map_Suc_upt[symmetric] comp_def del: upt_Suc)
      moreover have "cells' ! p = cells ! p" if "T - k \<le> p" for p
        using ih(2) that with_symbol_other[of p "T - Suc k" cells s] k by simp
      moreover have "low_count counts (s # ss) = Suc (low_count counts ss)" "filter (\<lambda>s. counts ! s < 0) (s # ss) = s # filter (\<lambda>s. counts ! s < 0) ss"
        using True by simp_all
      ultimately show ?thesis using ih(1) by (simp only: list.map) blast
    next
      case False
      have r: "fse_low counts ss (of_nat T - 1 - of_nat k) cells (sn[s := of_int (counts ! s)]) = Some (high, cells', sn')"
        using False Cons.prems by (simp add: at_def)
      show ?thesis using Cons.IH[OF _ _ _ _ r] Cons.prems False by simp
    qed
  qed simp
  then show "map (cell_symbol cells') (map (\<lambda>i. T - Suc (k + i)) [0..<low_count counts ss]) = filter (\<lambda>s. counts ! s < 0) ss"
    "\<And>p. T - k \<le> p \<Longrightarrow> cells' ! p = cells ! p" by blast+
qed

subsection \<open>The spread\<close>

text \<open>The cells below the reserved top, in the order the walk comes to them.\<close>

definition visited :: "nat \<Rightarrow> nat \<Rightarrow> nat \<Rightarrow> nat list" where
  "visited L low k = filter (\<lambda>p. p < 2 ^ L - low) (map (stop L) [0..<k])"

lemma visited_Suc: "visited L low (Suc k) = visited L low k @ (if stop L k < 2 ^ L - low then [stop L k] else [])"
  by (simp add: visited_def)

definition taken :: "nat \<Rightarrow> nat \<Rightarrow> nat \<Rightarrow> nat set" where
  "taken L low k = {2 ^ L - low..<2 ^ L} \<union> stop L ` {..<k}"

text \<open>The constants of the walk, as the code computes them from the accuracy log.\<close>

definition fse_top :: "nat \<Rightarrow> nat \<Rightarrow> u32" where
  "fse_top L low = of_nat (2 ^ L) - 1 - of_nat low"

definition fse_stride :: "nat \<Rightarrow> u32" where
  "fse_stride L = of_nat (stride L)"

definition fse_position :: "nat \<Rightarrow> nat \<Rightarrow> u32" where
  "fse_position L k = of_nat (stop L k)"

definition log_ok :: "nat \<Rightarrow> bool" where
  "log_ok L \<longleftrightarrow> 5 \<le> L \<and> L \<le> 15"

lemma log_ok_exp: "log_ok L \<Longrightarrow> (2::nat) ^ L \<le> 32768" "log_ok L \<Longrightarrow> (32::nat) \<le> 2 ^ L"
  using power_increasing[of L 15 "2::nat"] power_increasing[of 5 L "2::nat"] by (auto simp: log_ok_def)

lemma fse_table_size:
  assumes "log_ok L"
  shows "unat (push_bit L 1 :: u32) = 2 ^ L" "push_bit L (1 :: u32) = of_nat (2 ^ L)"
    "push_bit L 1 - 1 = (mask L :: u32)"
    "drop_bit 1 (push_bit L 1) + drop_bit 3 (push_bit L 1) + kZstdFseSpreadStepBias = fse_stride L"
proof -
  have e: "(2::nat) ^ L < 2 ^ LENGTH(32)" using log_ok_exp[OF assms] by simp
  show p: "push_bit L (1 :: u32) = of_nat (2 ^ L)" by (simp add: push_bit_eq_mult)
  show u: "unat (push_bit L 1 :: u32) = 2 ^ L" unfolding p by (rule unat_of_nat_less[OF e])
  show "push_bit L 1 - 1 = (mask L :: u32)" by (simp add: mask_eq_exp_minus_1 push_bit_eq_mult)
  have "drop_bit k (push_bit L (1 :: u32)) = of_nat (2 ^ L div 2 ^ k)" for k
  proof (rule unsigned_word_eqI)
    have "2 ^ L div 2 ^ k < (2::nat) ^ LENGTH(32)" using e div_le_dividend le_less_trans by blast
    then show "unat (drop_bit k (push_bit L (1 :: u32))) = unat (of_nat (2 ^ L div 2 ^ k) :: u32)"
      using unat_of_nat_less[of "2 ^ L div 2 ^ k", where 'a = 32] by (simp only: unat_drop_bit u)
  qed
  from this[of 1] this[of 3]
  show "drop_bit 1 (push_bit L 1) + drop_bit 3 (push_bit L 1) + kZstdFseSpreadStepBias = fse_stride L"
    by (simp add: fse_stride_def stride_def fse_consts)
qed

lemma unat_fse_position: "log_ok L \<Longrightarrow> unat (fse_position L k) = stop L k"
  using log_ok_exp[of L] order_less_trans[of "stop L k" "2 ^ L" "2 ^ LENGTH(32)"]
  unfolding fse_position_def by (intro unat_of_nat_less) simp

lemma fse_position_step:
  assumes "log_ok L"
  shows "(fse_position L k + fse_stride L) AND mask L = fse_position L (Suc k)"
proof (rule unsigned_word_eqI)
  have s: "stride L < 2 ^ LENGTH(32)" "stop L k + stride L < 2 ^ LENGTH(32)"
    using log_ok_exp[OF assms] stop_less[of L k] div_le_dividend[of "2 ^ L" 2] div_le_dividend[of "2 ^ L" 8]
    unfolding stride_def by (simp_all, linarith+)
  have "unat (fse_stride L) = stride L" unfolding fse_stride_def by (rule unat_of_nat_less[OF s(1)])
  then have "unat (fse_position L k + fse_stride L) = stop L k + stride L"
    using unat_plus[of "fse_position L k" "fse_stride L"] s(2) by (simp add: unat_fse_position[OF assms])
  then show "unat ((fse_position L k + fse_stride L) AND mask L) = unat (fse_position L (Suc k))"
    by (simp only: unat_and_mask stop_Suc unat_fse_position[OF assms])
qed

lemma fse_position_past:
  assumes "log_ok L" "low \<le> 2 ^ L"
  shows "fse_position L k > fse_top L low \<longleftrightarrow> low < 2 ^ L \<and> 2 ^ L - low \<le> stop L k"
proof (cases "low = 2 ^ L")
  case True
  have "fse_top L low = - 1" by (simp add: fse_top_def True)
  then show ?thesis using True by (simp add: not_less)
next
  case False
  then have "fse_top L low = of_nat (2 ^ L - 1 - low)" using assms(2) by (simp add: fse_top_def of_nat_diff)
  moreover have "2 ^ L - 1 - low < 2 ^ LENGTH(32)" using log_ok_exp[OF assms(1)] by simp
  ultimately have "unat (fse_top L low) = 2 ^ L - 1 - low" using unat_of_nat_less by metis
  then show ?thesis using False assms by (auto simp: w2n unat_fse_position)
qed

lemma finite_taken [simp]: "finite (taken L low k)"
  by (simp add: taken_def)

lemma taken_sub: "taken L low k \<subseteq> {..<2 ^ L}"
  by (auto simp: taken_def)

lemma taken_Suc: "taken L low (Suc k) = insert (stop L k) (taken L low k)"
  by (auto simp: taken_def less_Suc_eq)

lemma taken_full: "log_ok L \<Longrightarrow> taken L low (2 ^ L) = {..<2 ^ L}"
  using stop_onto[of L] by (auto simp: taken_def log_ok_def)

lemma fse_skip_contract:
  assumes "log_ok L" "low \<le> 2 ^ L" "k \<le> 2 ^ L" "2 ^ L \<le> fuel + k"
  shows "\<exists>k'. k \<le> k' \<and> k' \<le> 2 ^ L \<and> taken L low k' = taken L low k \<and> visited L low k' = visited L low k \<and>
     \<not> fse_position L k' > fse_top L low \<and>
     fse_skip fuel (fse_top L low) (fse_stride L) (mask L) (fse_position L k) = Inr (fse_position L k')"
  using assms(3,4)
proof (induction fuel arbitrary: k)
  case 0
  then have "k = 2 ^ L" by simp
  then have "fse_position L k = 0" by (simp add: fse_position_def)
  then show ?case using 0 by (auto simp: fse_skip.simps)
next
  case (Suc fuel)
  show ?case
  proof (cases "fse_position L k > fse_top L low")
    case True
    then have "k \<noteq> 2 ^ L" by (auto simp: fse_position_def)
    then have "\<exists>k'. Suc k \<le> k' \<and> k' \<le> 2 ^ L \<and> taken L low k' = taken L low (Suc k) \<and> visited L low k' = visited L low (Suc k) \<and>
     \<not> fse_position L k' > fse_top L low \<and>
     fse_skip fuel (fse_top L low) (fse_stride L) (mask L) (fse_position L (Suc k)) = Inr (fse_position L k')"
      using Suc.prems by (intro Suc.IH) auto
    moreover have "taken L low (Suc k) = taken L low k"
      using True fse_position_past[OF assms(1,2)] by (auto simp: taken_Suc) (auto simp: taken_def)
    moreover have "visited L low (Suc k) = visited L low k"
      using True fse_position_past[OF assms(1,2), of k] by (simp add: visited_Suc)
    moreover have "fse_skip (Suc fuel) (fse_top L low) (fse_stride L) (mask L) (fse_position L k) =
        fse_skip fuel (fse_top L low) (fse_stride L) (mask L) (fse_position L (Suc k))"
      using True by (simp add: fse_skip.simps[of "Suc fuel"] fse_position_step[OF assms(1)])
    ultimately show ?thesis using Suc_leD by metis
  next
    case False
    then show ?thesis using Suc.prems by (auto simp: fse_skip.simps)
  qed
qed

text \<open>What the walk has placed: the position, the number of cells taken, the symbols in them, and their order.\<close>

definition spread_ok :: "nat \<Rightarrow> nat \<Rightarrow> zstd_fse_cell list \<Rightarrow> zstd_fse_cell list \<Rightarrow> u32 \<Rightarrow> nat \<Rightarrow> (nat \<Rightarrow> nat) \<Rightarrow> nat list \<Rightarrow> bool" where
  "spread_ok L low g cells position n f ys \<longleftrightarrow> 2 ^ L \<le> length cells \<and>
     (\<forall>p. 2 ^ L - low \<le> p \<longrightarrow> cells ! p = g ! p) \<and>
     (\<exists>k\<le>2 ^ L. position = fse_position L k \<and> \<not> position > fse_top L low \<and> map (cell_symbol cells) (visited L low k) = ys \<and>
        card (taken L low k) = n \<and> (\<forall>t. occ cells (taken L low k) t = f t))"

lemma fse_slots_contract:
  assumes "log_ok L" "low \<le> 2 ^ L" "spread_ok L low g cells position n f ys" "n + slots \<le> 2 ^ L" "symbol < 256"
  shows "wp (fse_slots slots symbol (push_bit L 1) (fse_top L low) (fse_stride L) (mask L) cells position)
     (\<lambda>res. case res of Inl e \<Rightarrow> False
      | Inr (cells', position') \<Rightarrow> length cells' = length cells \<and>
          spread_ok L low g cells' position' (n + slots) (f(symbol := f symbol + slots)) (ys @ replicate slots symbol))"
  using assms(3,4)
proof (induction slots arbitrary: cells position n f ys)
  case 0
  then show ?case by (simp add: wp_rules)
next
  case (Suc slots)
  obtain k where k: "k \<le> 2 ^ L" "position = fse_position L k" "\<not> position > fse_top L low"
      "card (taken L low k) = n" "\<forall>t. occ cells (taken L low k) t = f t" and len: "2 ^ L \<le> length cells"
      and ys: "map (cell_symbol cells) (visited L low k) = ys" and top: "\<forall>p. 2 ^ L - low \<le> p \<longrightarrow> cells ! p = g ! p"
    using Suc.prems(1) by (auto simp: spread_ok_def)
  have "card (taken L low (2 ^ L)) = 2 ^ L" by (simp only: taken_full[OF assms(1)] card_lessThan)
  then have "k \<noteq> 2 ^ L" using k(4) Suc.prems(2) by (metis Suc_n_not_le_n add_Suc_right le_add1 order_trans)
  then have klt: "k < 2 ^ L" using k(1) by simp
  have "low \<noteq> 2 ^ L"
  proof
    assume "low = 2 ^ L"
    then have "{..<2 ^ L} \<subseteq> taken L low k" by (auto simp: taken_def)
    then have "2 ^ L \<le> n" using k(4) card_mono[of "taken L low k" "{..<2 ^ L}"] by simp
    then show False using Suc.prems(2) by simp
  qed
  then have below: "stop L k < 2 ^ L - low" using fse_position_past[OF assms(1,2), of k] assms(2) k(2,3) by auto
  have fresh: "stop L k \<notin> taken L low k"
  proof
    assume "stop L k \<in> taken L low k"
    then obtain j where j: "j < k" "stop L j = stop L k" using below by (auto simp: taken_def)
    have "inj_on (stop L) {..<2 ^ L}" using assms(1) by (intro stop_inj) (simp add: log_ok_def)
    from inj_onD[OF this j(2)] show False using j(1) klt by simp
  qed
  let ?c = "with_symbol cells (stop L k) symbol"
  have lt: "stop L k < length cells" using len less_le_trans[OF stop_less] by blast
  obtain k' where k': "Suc k \<le> k'" "k' \<le> 2 ^ L" "taken L low k' = taken L low (Suc k)"  "visited L low k' = visited L low (Suc k)"
      "\<not> fse_position L k' > fse_top L low"
      "fse_skip (2 ^ L) (fse_top L low) (fse_stride L) (mask L) (fse_position L (Suc k)) = Inr (fse_position L k')"
    using fse_skip_contract[OF assms(1,2), of "Suc k" "2 ^ L"] klt by auto
  have at_c: "cell_symbol ?c q = (if q = stop L k then symbol else cell_symbol cells q)" for q by (rule with_symbol_at[OF lt assms(5)])
  have "stop L k \<notin> set (visited L low k)" using fresh by (auto simp: visited_def taken_def)
  then have "map (cell_symbol ?c) (visited L low k) = ys" using ys by (auto simp: at_c map_eq_conv[symmetric] intro!: map_cong)
  then have ys': "map (cell_symbol ?c) (visited L low k') = ys @ [symbol]" using below by (simp add: k'(4) visited_Suc at_c)
  have top': "\<forall>p. 2 ^ L - low \<le> p \<longrightarrow> ?c ! p = g ! p" using top below with_symbol_other by auto
  have "occ ?c (taken L low k') t = (f(symbol := f symbol + 1)) t" for t
    using k(5) occ_with_symbol[OF finite_taken fresh lt assms(5), of t] by (simp add: k'(3) taken_Suc)
  then have "spread_ok L low g ?c (fse_position L k') (Suc n) (f(symbol := f symbol + 1)) (ys @ [symbol])"
    using k' len k(4) fresh ys' top' by (auto simp: spread_ok_def taken_Suc)
  note ih = Suc.IH[OF this]
  have "wp (fse_slots slots symbol (push_bit L 1) (fse_top L low) (fse_stride L) (mask L) ?c (fse_position L k'))
     (\<lambda>res. case res of Inl e \<Rightarrow> False
      | Inr (cells', position') \<Rightarrow> length cells' = length cells \<and>
          spread_ok L low g cells' position' (n + Suc slots) (f(symbol := f symbol + Suc slots)) (ys @ replicate (Suc slots) symbol))"
    using Suc.prems(2) by (intro wp_mono[OF ih]) (auto simp: fun_upd_def if_distrib cong: if_cong split: sum.splits)
  moreover have "fse_slots (Suc slots) symbol (push_bit L 1) (fse_top L low) (fse_stride L) (mask L) cells position =
      fse_slots slots symbol (push_bit L 1) (fse_top L low) (fse_stride L) (mask L) ?c (fse_position L k')"
    by (simp add: k(2) unat_fse_position[OF assms(1)] set_symbol lt fse_table_size(1)[OF assms(1)]
        fse_position_step[OF assms(1)] k'(6) del: push_bit_of_1)
  ultimately show ?case by (simp only:)
qed

lemma fse_spread_contract:
  assumes "log_ok L" "low \<le> 2 ^ L" "spread_ok L low g cells position n f ys" "distinct ss"
    and "n + (\<Sum>s\<leftarrow>ss. nat (counts ! s)) \<le> 2 ^ L" "\<forall>s\<in>set ss. s < 256 \<and> s < length counts"
  shows "wp (fse_spread counts ss (push_bit L 1) (fse_top L low) (fse_stride L) (mask L) cells position)
     (\<lambda>res. case res of Inl e \<Rightarrow> False
      | Inr cells' \<Rightarrow> length cells' = length cells \<and>
          (\<exists>position'. spread_ok L low g cells' position' (n + (\<Sum>s\<leftarrow>ss. nat (counts ! s)))
             (\<lambda>t. f t + (if t \<in> set ss then nat (counts ! t) else 0)) (ys @ concat (map (\<lambda>s. replicate (nat (counts ! s)) s) ss))))"
  using assms(3,4,5,6)
proof (induction ss arbitrary: cells position n f ys)
  case Nil
  then show ?case by (auto simp: wp_rules)
next
  case (Cons s ss)
  have "wp (fse_slots (nat (counts ! s)) s (push_bit L 1) (fse_top L low) (fse_stride L) (mask L) cells position)
     (\<lambda>res. case res of Inl e \<Rightarrow> False
      | Inr (cells', position') \<Rightarrow> length cells' = length cells \<and>
          spread_ok L low g cells' position' (n + nat (counts ! s)) (f(s := f s + nat (counts ! s))) (ys @ replicate (nat (counts ! s)) s))"
    using Cons.prems by (intro fse_slots_contract[OF assms(1,2)]) auto
  then obtain x where "fse_slots (nat (counts ! s)) s (push_bit L 1) (fse_top L low) (fse_stride L) (mask L) cells position = Some x"
    "case x of Inl e \<Rightarrow> False | Inr (cells', position') \<Rightarrow> length cells' = length cells \<and>
          spread_ok L low g cells' position' (n + nat (counts ! s)) (f(s := f s + nat (counts ! s))) (ys @ replicate (nat (counts ! s)) s)"
    by (auto simp only: wp_iff)
  then obtain c p where cp: "fse_slots (nat (counts ! s)) s (push_bit L 1) (fse_top L low) (fse_stride L) (mask L) cells position
      = Some (Inr (c, p))" "length c = length cells"
      "spread_ok L low g c p (n + nat (counts ! s)) (f(s := f s + nat (counts ! s))) (ys @ replicate (nat (counts ! s)) s)"
    by (cases x) auto
  have "(\<lambda>t. (f(s := f s + nat (counts ! s))) t + (if t \<in> set ss then nat (counts ! t) else 0)) =
      (\<lambda>t. f t + (if t \<in> set (s # ss) then nat (counts ! t) else 0))"
    using Cons.prems(2) by auto
  moreover have "fse_spread counts (s # ss) (push_bit L 1) (fse_top L low) (fse_stride L) (mask L) cells position =
      fse_spread counts ss (push_bit L 1) (fse_top L low) (fse_stride L) (mask L) c p"
    using Cons.prems(4) cp(1) by (simp add: at_def)
  moreover have le: "n + nat (counts ! s) + (\<Sum>s\<leftarrow>ss. nat (counts ! s)) \<le> 2 ^ L" using Cons.prems(3) by simp
  moreover have "distinct ss" "\<forall>s\<in>set ss. s < 256 \<and> s < length counts" using Cons.prems(2,4) by auto
  note ih = Cons.IH[OF cp(3) this(1) le this(2)]
  ultimately show ?case using cp(2) ih by (simp only: sum_list.Cons list.map add.assoc concat.simps append_assoc)
qed

subsection \<open>The states\<close>

text \<open>The state a cell stands for: how many cells of its symbol lie before it decides it.\<close>

definition cell_state :: "(nat \<Rightarrow> nat) \<Rightarrow> zstd_fse_cell list \<Rightarrow> nat \<Rightarrow> nat" where
  "cell_state m cells c = m (cell_symbol cells c) + occ cells {..<c} (cell_symbol cells c)"

definition cell_ok :: "nat \<Rightarrow> nat \<Rightarrow> zstd_fse_cell \<Rightarrow> bool" where
  "cell_ok L x cell \<longleftrightarrow> unat (fc_nb_bits cell) \<le> L \<and>
     unat (fc_new_state cell) + 2 ^ L = x * 2 ^ unat (fc_nb_bits cell) \<and>
     2 ^ L \<le> x * 2 ^ unat (fc_nb_bits cell) \<and> (x + 1) * 2 ^ unat (fc_nb_bits cell) \<le> 2 * 2 ^ L"

lemma occ_cong:
  "(\<And>p. p \<in> V \<Longrightarrow> fc_symbol (cells' ! p) = fc_symbol (cells ! p)) \<Longrightarrow> occ cells' V t = occ cells V t"
  unfolding occ_def by (rule arg_cong[of _ _ card]) auto

lemma occ_Suc: "occ cells {..<Suc c} t = occ cells {..<c} t + (if t = cell_symbol cells c then 1 else 0)"
proof -
  have "{p \<in> {..<Suc c}. unat (fc_symbol (cells ! p)) = t} =
      (if t = cell_symbol cells c then insert c {p \<in> {..<c}. unat (fc_symbol (cells ! p)) = t}
       else {p \<in> {..<c}. unat (fc_symbol (cells ! p)) = t})"
    by (auto simp: cell_symbol_def less_Suc_eq)
  then show ?thesis by (simp add: occ_def)
qed

lemma occ_mono: "finite W \<Longrightarrow> V \<subseteq> W \<Longrightarrow> occ cells V t \<le> occ cells W t"
  unfolding occ_def by (intro card_mono) auto

text \<open>A state below twice the table size, shifted to the table's width.\<close>

lemma cell_ok_built:
  assumes L: "log_ok L" and x: "0 < x" "x < 2 * 2 ^ L" and n: "n = (of_nat x :: u16)"
  defines "h \<equiv> zstd_fse_highest_set_bit (ucast n)"
  shows "h \<le> L" "cell_ok L x (c\<lparr>fc_nb_bits := of_nat (L - h),
     fc_new_state := ucast (push_bit (L - h) (ucast n) - push_bit L 1 :: u32)\<rparr>)"
proof -
  have e: "(2::nat) ^ L \<le> 32768" "L \<le> 15" using log_ok_exp[OF L] L by (auto simp: log_ok_def)
  have "unat n = x" unfolding n using x e by (intro unat_of_nat_less) simp
  then have u: "unat (ucast n :: u32) = x" by (simp add: unat_ucast_le)
  have "0 < unat (ucast n :: u32)" using u x by simp
  note h = fse_highest_set_bit[OF this, folded h_def, unfolded u]
  have "2 ^ h < (2::nat) ^ Suc L" using h(1) x(2) by simp
  then have "h < Suc L" by (rule power_less_imp_less_exp[rotated]) simp
  then show hL: "h \<le> L" by simp
  then obtain b where b: "L = h + b" using le_Suc_ex by blast
  have b15: "b \<le> 15" using b e by simp
  have lo: "2 ^ L \<le> x * 2 ^ b" using h(1) by (simp add: b power_add)
  have "(x + 1) * 2 ^ b \<le> 2 ^ Suc h * 2 ^ b" using h(2) by (intro mult_right_mono) auto
  then have hi: "(x + 1) * 2 ^ b \<le> 2 * 2 ^ L" by (simp add: b power_add)
  have nb: "unat (of_nat b :: u8) = b" using b15 by (intro unat_of_nat_less) simp
  have "x * 2 ^ b + 2 ^ b \<le> 2 * 2 ^ L" "0 < (2::nat) ^ b" using hi by (simp_all add: distrib_right)
  then have xb: "x * 2 ^ b < 65536" using e(1) by linarith
  have "ucast n = (of_nat x :: u32)"
  proof (rule unsigned_word_eqI)
    have "x < 2 ^ LENGTH(32)" using e x by simp
    then show "unat (ucast n :: u32) = unat (of_nat x :: u32)" by (simp only: u unat_of_nat_less)
  qed
  then have "push_bit b (ucast n :: u32) = of_nat (x * 2 ^ b)" by (simp add: push_bit_eq_mult)
  then have "unat (push_bit b (ucast n :: u32)) = x * 2 ^ b" using xb by (simp only:) (intro unat_of_nat_less, simp)
  then have "unat (push_bit b (ucast n) - push_bit L 1 :: u32) = x * 2 ^ b - 2 ^ L"
    using lo fse_table_size(1)[OF L] by (subst unat_minus) simp_all
  moreover have "x * 2 ^ b - 2 ^ L < 65536" using xb by simp
  ultimately have "unat (ucast (push_bit b (ucast n) - push_bit L 1 :: u32) :: u16) = x * 2 ^ b - 2 ^ L"
    by (simp add: unsigned_ucast_eq take_bit_nat_eq_self)
  then show "cell_ok L x (c\<lparr>fc_nb_bits := of_nat (L - h),
     fc_new_state := ucast (push_bit (L - h) (ucast n) - push_bit L 1 :: u32)\<rparr>)"
    using lo hi nb by (simp add: cell_ok_def b)
qed

lemma fse_states_contract:
  assumes L: "log_ok L" and c: "c \<le> 2 ^ L" and len: "2 ^ L \<le> length cells" and mx: "mx < length sn"
    and m: "\<forall>t\<le>mx. m t \<le> 2 ^ L" "\<forall>t. occ cells {..<2 ^ L} t = (if t \<le> mx then m t else 0)"
    and sn: "\<forall>t\<le>mx. sn ! t = of_nat (m t + occ cells {..<c} t)"
  shows "wp (fse_states L (push_bit L 1) [c..<2 ^ L] cells sn) (\<lambda>cells'. length cells' = length cells \<and>
     (\<forall>p<length cells. fc_symbol (cells' ! p) = fc_symbol (cells ! p)) \<and>
     (\<forall>p. p < c \<or> 2 ^ L \<le> p \<longrightarrow> cells' ! p = cells ! p) \<and>
     (\<forall>p<2 ^ L. c \<le> p \<longrightarrow> cell_ok L (cell_state m cells p) (cells' ! p)))"
  using c len mx m(2) sn
proof (induction "2 ^ L - c" arbitrary: c cells sn)
  case 0
  then show ?case by (simp add: wp_rules)
next
  case (Suc d)
  then have lt: "c < 2 ^ L" by simp
  define s where "s = cell_symbol cells c"
  have occ_c: "occ cells {..<c} s < occ cells {..<2 ^ L} s"
    using occ_mono[of "{..<2 ^ L}" "{..<Suc c}" cells s] lt by (simp add: occ_Suc s_def)
  then have s: "s \<le> mx" using Suc.prems(4) by (metis not_less_zero)
  then have om: "occ cells {..<c} s < m s" using occ_c Suc.prems(4) by simp
  let ?x = "cell_state m cells c"
  have x: "0 < ?x" "?x < 2 * 2 ^ L" "sn ! s = of_nat ?x" using om m(1) s Suc.prems(5)
    by (auto simp: cell_state_def s_def)
  let ?h = "zstd_fse_highest_set_bit (ucast (sn ! s))"
  define cell where "cell = (cells ! c)\<lparr>fc_nb_bits := of_nat (L - ?h),
     fc_new_state := ucast (push_bit (L - ?h) (ucast (sn ! s)) - push_bit L 1 :: u32)\<rparr>"
  note built = cell_ok_built(1)[OF L x] cell_ok_built(2)[OF L x, of "cells ! c", folded cell_def]
  let ?cells = "cells[c := cell]"
  let ?sn = "sn[s := sn ! s + 1]"
  have same: "fc_symbol (?cells ! p) = fc_symbol (cells ! p)" for p
    by (cases "p = c"; cases "c < length cells") (auto simp: nth_list_update list_update_beyond cell_def)
  have o: "occ ?cells V t = occ cells V t" for V t by (rule occ_cong) (rule same)
  have sy: "cell_symbol ?cells p = cell_symbol cells p" for p by (simp only: cell_symbol_def same)
  have cs: "cell_state m ?cells p = cell_state m cells p" for p
    by (simp only: cell_state_def cell_symbol_def same o)
  have "fse_states L (push_bit L 1) [c..<2 ^ L] cells sn = fse_states L (push_bit L 1) [Suc c..<2 ^ L] ?cells ?sn"
    using lt Suc.prems(2,3) s built(1)
    by (simp add: upt_conv_Cons at_def Let_def s_def[unfolded cell_symbol_def, symmetric] cell_def[symmetric] del: push_bit_of_1 of_nat_diff)
  moreover have "wp (fse_states L (push_bit L 1) [Suc c..<2 ^ L] ?cells ?sn) (\<lambda>cells'. length cells' = length ?cells \<and>
     (\<forall>p<length ?cells. fc_symbol (cells' ! p) = fc_symbol (?cells ! p)) \<and>
     (\<forall>p. p < Suc c \<or> 2 ^ L \<le> p \<longrightarrow> cells' ! p = ?cells ! p) \<and>
     (\<forall>p<2 ^ L. Suc c \<le> p \<longrightarrow> cell_ok L (cell_state m ?cells p) (cells' ! p)))"
  proof (rule Suc.hyps(1))
    show "\<forall>t\<le>mx. ?sn ! t = of_nat (m t + occ ?cells {..<Suc c} t)"
      using Suc.prems(3,5) s by (auto simp: o occ_Suc sy nth_list_update s_def)
  qed (use Suc.hyps(2) Suc.prems lt o in auto)
  ultimately show ?case
  proof (elim ssubst, elim wp_mono, intro conjI allI impI, goal_cases)
    case (4 cells' p)
    show ?case
    proof (cases "p = c")
      case True
      then have "cells' ! p = cell" using 4 lt Suc.prems(2) by simp
      then show ?thesis using built(2) True by simp
    next
      case False
      then show ?thesis using 4 by (simp only: cs)
    qed
  qed (use lt same in auto)
qed

section \<open>The table\<close>

abbreviation mags :: "int list \<Rightarrow> nat \<Rightarrow> nat" where
  "mags counts t \<equiv> nat (magnitude (counts ! t))"

text \<open>
  Which symbol a cell has: the symbols of probability less than one lie at the top, downwards, the
  others in the order in which the walk comes to the cells below.
\<close>

definition fse_layout :: "int list \<Rightarrow> nat \<Rightarrow> nat \<Rightarrow> zstd_fse_cell list \<Rightarrow> bool" where
  "fse_layout counts mx L cells \<longleftrightarrow> (let ss = [0..<mx + 1]; low = filter (\<lambda>s. counts ! s < 0) ss in
     map (cell_symbol cells) (map (\<lambda>i. 2 ^ L - Suc i) [0..<length low]) = low \<and>
     map (cell_symbol cells) (visited L (length low) (2 ^ L)) = concat (map (\<lambda>s. replicate (nat (counts ! s)) s) ss))"

lemma fse_layout_cong:
  assumes "fse_layout counts mx L cells" "\<And>p. p < 2 ^ L \<Longrightarrow> cell_symbol cells' p = cell_symbol cells p"
  shows "fse_layout counts mx L cells'"
proof -
  have "map (cell_symbol cells') (map (\<lambda>i. 2 ^ L - Suc i) xs) = map (cell_symbol cells) (map (\<lambda>i. 2 ^ L - Suc i) xs)" for xs
    using assms(2) by simp
  moreover have "map (cell_symbol cells') (visited L low k) = map (cell_symbol cells) (visited L low k)" for low k
    using assms(2) by (auto simp: visited_def)
  ultimately show ?thesis using assms(1) unfolding fse_layout_def Let_def by (simp only:)
qed

lemma fse_layout_counts:
  assumes "fse_layout counts mx L cells" "\<And>t. t \<le> mx \<Longrightarrow> counts ! t = counts' ! t"
  shows "fse_layout counts' mx L cells"
proof -
  have "filter (\<lambda>s. counts' ! s < 0) [0..<mx + 1] = filter (\<lambda>s. counts ! s < 0) [0..<mx + 1]"
    "map (\<lambda>s. replicate (nat (counts' ! s)) s) [0..<mx + 1] = map (\<lambda>s. replicate (nat (counts ! s)) s) [0..<mx + 1]"
    using assms(2) by (auto intro!: filter_cong map_cong simp del: upt_Suc)
  then show ?thesis using assms(1) unfolding fse_layout_def Let_def by (simp only:)
qed

lemma fse_layout_unique:
  assumes "fse_layout counts mx L cells" "fse_layout counts mx L cells'" "5 \<le> L" "p < 2 ^ L"
  shows "cell_symbol cells' p = cell_symbol cells p"
proof -
  define low where "low = filter (\<lambda>s. counts ! s < 0) [0..<mx + 1]"
  have m: "map (cell_symbol cells') (map (\<lambda>i. 2 ^ L - Suc i) [0..<length low]) = map (cell_symbol cells) (map (\<lambda>i. 2 ^ L - Suc i) [0..<length low])"
    "map (cell_symbol cells') (visited L (length low) (2 ^ L)) = map (cell_symbol cells) (visited L (length low) (2 ^ L))"
    using assms(1,2) unfolding fse_layout_def Let_def low_def[symmetric] by simp_all
  show ?thesis
  proof (cases "p < 2 ^ L - length low")
    case True
    moreover have "p \<in> stop L ` {..<2 ^ L}" using stop_onto[OF assms(3)] assms(4) by simp
    ultimately have "p \<in> set (visited L (length low) (2 ^ L))" by (auto simp: visited_def)
    then show ?thesis using m(2) by (simp only: map_eq_conv)
  next
    case False
    have i: "p = 2 ^ L - Suc (2 ^ L - Suc p)" "2 ^ L - Suc p < length low" using False assms(4) by simp_all
    have "p \<in> (\<lambda>i. 2 ^ L - Suc i) ` {0..<length low}" using i by (intro image_eqI[where x = "2 ^ L - Suc p"]) simp_all
    then have "p \<in> set (map (\<lambda>i. 2 ^ L - Suc i) [0..<length low])" by (simp only: set_map set_upt)
    then show ?thesis using m(1) by (simp only: map_eq_conv)
  qed
qed

definition table_ok :: "int list \<Rightarrow> nat \<Rightarrow> nat \<Rightarrow> zstd_fse_cell list \<Rightarrow> bool" where
  "table_ok counts mx L cells \<longleftrightarrow> 2 ^ L \<le> length cells \<and> fse_layout counts mx L cells \<and>
     (\<forall>t. occ cells {..<2 ^ L} t = (if t \<le> mx then mags counts t else 0)) \<and>
     (\<forall>c<2 ^ L. cell_ok L (cell_state (mags counts) cells c) (cells ! c))"

lemma sum_upto_list: "(\<Sum>t\<leftarrow>[0..<Suc mx]. f t) = (\<Sum>t\<in>{..mx}. f t)"
  by (simp only: interv_sum_list_conv_sum_set_nat set_upt atLeastLessThanSuc_atLeastAtMost atLeast0AtMost)

lemma int_sum_mags:
  "int (\<Sum>t\<leftarrow>ss. nat (magnitude (counts ! t))) = (\<Sum>t\<leftarrow>ss. magnitude (counts ! t))"
  by (induction ss) (auto simp: magnitude_def)

text \<open>Each occurrence of a symbol is a low one or one the spread places.\<close>

lemma low_and_spread:
  "\<forall>s\<in>set ss. - 1 \<le> counts ! s \<Longrightarrow>
   (\<Sum>s\<leftarrow>ss. nat (counts ! s)) + low_count counts ss = (\<Sum>t\<leftarrow>ss. nat (magnitude (counts ! t)))"
  by (induction ss) (auto simp: magnitude_def)

lemma spread_full:
  assumes "log_ok L" "spread_ok L low g cells position (2 ^ L) f ys"
  shows "occ cells {..<2 ^ L} t = f t" "map (cell_symbol cells) (visited L low (2 ^ L)) = ys"
    "\<forall>p. 2 ^ L - low \<le> p \<longrightarrow> cells ! p = g ! p"
proof -
  show "\<forall>p. 2 ^ L - low \<le> p \<longrightarrow> cells ! p = g ! p" using assms(2) by (simp add: spread_ok_def)
  obtain k where k: "card (taken L low k) = 2 ^ L" "\<forall>t. occ cells (taken L low k) t = f t" "k \<le> 2 ^ L"
    "map (cell_symbol cells) (visited L low k) = ys"
    using assms(2) by (auto simp: spread_ok_def)
  have "taken L low k = {..<2 ^ L}" using k(1) taken_sub by (intro card_subset_eq) auto
  then show "occ cells {..<2 ^ L} t = f t" using k(2) by simp
  have "visited L low (2 ^ L) = visited L low k"
  proof -
    have "\<not> stop L j < 2 ^ L - low" if "k \<le> j" "j < 2 ^ L" for j
    proof
      assume s: "stop L j < 2 ^ L - low"
      have "stop L j \<in> taken L low k" using \<open>taken L low k = {..<2 ^ L}\<close> by simp
      then obtain i where i: "i < k" "stop L i = stop L j" using s by (auto simp: taken_def)
      have "inj_on (stop L) {..<2 ^ L}" using assms(1) by (intro stop_inj) (simp add: log_ok_def)
      from inj_onD[OF this i(2)] show False using i(1) that k(3) by simp
    qed
    then have "filter (\<lambda>p. p < 2 ^ L - low) (map (stop L) [k..<2 ^ L]) = []" by (auto simp: filter_empty_conv)
    moreover have "[0..<2 ^ L] = [0..<k] @ [k..<2 ^ L]" using k(3) upt_add_eq_append[of 0 k "2 ^ L - k"] by simp
    ultimately show ?thesis by (simp add: visited_def)
  qed
  then show "map (cell_symbol cells) (visited L low (2 ^ L)) = ys" using k(4) by simp
qed

lemma normalized_list:
  assumes ss: "set ss = {..mx}" "distinct ss" and mx: "mx < length counts"
  shows "normalized counts mx L \<longleftrightarrow>
     (\<forall>s\<in>set ss. - 1 \<le> counts ! s) \<and> (\<Sum>t\<leftarrow>ss. magnitude (counts ! t)) = 2 ^ L"
proof -
  have s: "(\<Sum>t\<leftarrow>ss. magnitude (counts ! t)) = (\<Sum>t\<in>{..mx}. magnitude (counts ! t))"
    unfolding ss(1)[symmetric] by (rule sum_list_distinct_conv_sum_set[OF ss(2)])
  have "counts ! i \<le> 2 ^ L" if "i \<le> mx" "(\<Sum>t\<in>{..mx}. magnitude (counts ! t)) = 2 ^ L" for i
  proof -
    have "magnitude (counts ! i) \<le> (\<Sum>t\<in>{..mx}. magnitude (counts ! t))"
      using that(1) by (intro member_le_sum) (auto simp: magnitude_def)
    moreover have "counts ! i \<le> magnitude (counts ! i)" by (simp add: magnitude_def)
    ultimately show ?thesis using that(2) by linarith
  qed
  then show ?thesis using mx unfolding normalized_def s ss(1) by auto
qed

lemma build_states:
  assumes L: "log_ok L" and n: "normalized counts mx L" "2 ^ L \<le> length cells" "mx < length sn"
    and o: "\<forall>t. occ cells {..<2 ^ L} t = (if t \<le> mx then mags counts t else 0)" and lay: "fse_layout counts mx L cells"
    and sn: "\<forall>t\<le>mx. sn ! t = of_int (magnitude (counts ! t))"
  shows "wp (fse_states L (push_bit L 1) [0..<2 ^ L] cells sn)
     (\<lambda>cells'. length cells' = length cells \<and> table_ok counts mx L cells' \<and> (\<forall>p\<ge>2 ^ L. cells' ! p = cells ! p))"
proof -
  have "mags counts t \<le> 2 ^ L" if "t \<le> mx" for t
    using n(1) that by (auto simp: normalized_def magnitude_def nat_le_iff)
  moreover have "sn ! t = of_nat (mags counts t + occ cells {..<0} t)" if "t \<le> mx" for t
    using sn that by (simp add: occ_def magnitude_def)
  ultimately have "wp (fse_states L (push_bit L 1) [0..<2 ^ L] cells sn) (\<lambda>cells'. length cells' = length cells \<and>
     (\<forall>p<length cells. fc_symbol (cells' ! p) = fc_symbol (cells ! p)) \<and>
     (\<forall>p. p < 0 \<or> 2 ^ L \<le> p \<longrightarrow> cells' ! p = cells ! p) \<and>
     (\<forall>p<2 ^ L. 0 \<le> p \<longrightarrow> cell_ok L (cell_state (mags counts) cells p) (cells' ! p)))"
    using n o by (intro fse_states_contract[OF L]) auto
  then show ?thesis
  proof (rule wp_mono, elim conjE)
    fix c3 assume h: "length c3 = length cells" "\<forall>p<length cells. fc_symbol (c3 ! p) = fc_symbol (cells ! p)"
      "\<forall>p<2 ^ L. 0 \<le> p \<longrightarrow> cell_ok L (cell_state (mags counts) cells p) (c3 ! p)" "\<forall>p. p < 0 \<or> 2 ^ L \<le> p \<longrightarrow> c3 ! p = cells ! p"
    have o3: "occ c3 V t = occ cells V t" if "V \<subseteq> {..<2 ^ L}" for V t
    proof (rule occ_cong)
      fix p assume "p \<in> V"
      then have "p < length cells" using that n(2) by (meson lessThan_iff less_le_trans subsetD)
      then show "fc_symbol (c3 ! p) = fc_symbol (cells ! p)" using h(2) by blast
    qed
    have "cell_state (mags counts) c3 p = cell_state (mags counts) cells p" if "p < 2 ^ L" for p
    proof -
      have "{..<p} \<subseteq> {..<2 ^ L}" using that by auto
      moreover have "cell_symbol c3 p = cell_symbol cells p"
        using h(2) less_le_trans[OF that n(2)] by (simp add: cell_symbol_def)
      ultimately show ?thesis by (simp only: cell_state_def o3)
    qed
    moreover have "fse_layout counts mx L c3"
      using n(2) h(2) by (intro fse_layout_cong[OF lay]) (simp add: cell_symbol_def)
    ultimately show "length c3 = length cells \<and> table_ok counts mx L c3 \<and> (\<forall>p\<ge>2 ^ L. c3 ! p = cells ! p)"
      using h n(2) o o3[of "{..<2 ^ L}"] by (simp add: table_ok_def)
  qed
qed

lemma build_low_spread:
  assumes L: "log_ok L" and n: "normalized counts mx L" "mx \<le> 255" "mx < length sn" "2 ^ L \<le> length cells"
  defines "ss \<equiv> [0..<mx + 1]"
  shows "\<exists>high c1 n1. fse_low counts ss (push_bit L 1 - 1) cells sn = Some (high, c1, n1) \<and>
     length n1 = length sn \<and> (\<forall>t\<le>mx. n1 ! t = of_int (magnitude (counts ! t))) \<and>
     (\<exists>c2. fse_spread counts ss (push_bit L 1) high (fse_stride L) (mask L) c1 0 = Some (Inr c2) \<and>
        length c2 = length cells \<and> (\<forall>p\<ge>2 ^ L. c2 ! p = cells ! p) \<and> fse_layout counts mx L c2 \<and> (\<forall>t. occ c2 {..<2 ^ L} t = (if t \<le> mx then mags counts t else 0)))"
proof -
  have ss: "set ss = {..mx}" "distinct ss" by (auto simp: ss_def)
  define low where "low = low_count counts ss"
  have mx: "mx < length counts" using n(1) by (simp add: normalized_def)
  have ge: "\<forall>s\<in>set ss. - 1 \<le> counts ! s" and s: "(\<Sum>t\<leftarrow>ss. magnitude (counts ! t)) = 2 ^ L"
    using n(1) normalized_list[OF ss mx] by blast+
  have "int (\<Sum>t\<leftarrow>ss. nat (magnitude (counts ! t))) = int (2 ^ L)" using s by (simp add: int_sum_mags)
  then have sum: "(\<Sum>s\<leftarrow>ss. nat (counts ! s)) + low = 2 ^ L"
    unfolding low_def low_and_spread[OF ge] by (simp only: of_nat_eq_iff)
  then have low: "low \<le> 2 ^ L" by linarith
  have p: "0 < (2::nat) ^ L" "(2::nat) ^ L < 2 ^ 32" using log_ok_exp[OF L] by auto
  have r: "\<forall>s\<in>set ss. s < length counts \<and> s < length sn \<and> s < 256" using n ss mx by auto
  have "wp (fse_low counts ss (of_nat (2 ^ L) - 1 - of_nat 0) cells sn) (\<lambda>(high, cells', sn').
       high = of_nat (2 ^ L) - 1 - of_nat (0 + low_count counts ss) \<and> length cells' = length cells \<and> length sn' = length sn \<and>
       (\<forall>t. occ cells' {2 ^ L - (0 + low_count counts ss)..<2 ^ L} t =
          occ cells {2 ^ L - 0..<2 ^ L} t + (if t \<in> set ss \<and> counts ! t < 0 then 1 else 0)) \<and>
       (\<forall>t<length sn. sn' ! t = (if t \<in> set ss then of_int (magnitude (counts ! t)) else sn ! t)))"
    using low n(4) p ge r by (intro fse_low_contract[OF ss(2)]) (auto simp: low_def)
  then obtain high c1 n1 where c1: "fse_low counts ss (push_bit L 1 - 1) cells sn = Some (high, c1, n1)"
      "high = fse_top L low" "length c1 = length cells" "length n1 = length sn"
      "\<forall>t. occ c1 {2 ^ L - low..<2 ^ L} t = (if t \<in> set ss \<and> counts ! t < 0 then 1 else 0)"
      "\<forall>t<length sn. n1 ! t = (if t \<in> set ss then of_int (magnitude (counts ! t)) else sn ! t)"
    unfolding fse_table_size(2)[OF L] fse_top_def low_def[symmetric] wp_iff by (auto simp: occ_def)
  have kept: "c1 ! p = cells ! p" if "2 ^ L \<le> p" for p
    using fse_low_layout(2)[of ss counts sn 0 "2 ^ L" cells high c1 n1 p] r low n(4) p(2) c1(1) that
    unfolding fse_table_size(2)[OF L] low_def by simp
  have top: "map (cell_symbol c1) (map (\<lambda>i. 2 ^ L - Suc i) [0..<low]) = filter (\<lambda>s. counts ! s < 0) ss"
    using fse_low_layout(1)[of ss counts sn 0 "2 ^ L" cells high c1 n1] r low n(4) p(2) c1(1)
    unfolding fse_table_size(2)[OF L] low_def by simp
  have "spread_ok L low c1 c1 0 low (\<lambda>t. if t \<in> set ss \<and> counts ! t < 0 then 1 else 0) []"
    unfolding spread_ok_def using c1(3,5) n(4) low
    by (intro conjI exI[of _ 0]) (simp_all add: fse_position_def taken_def visited_def)
  then have "wp (fse_spread counts ss (push_bit L 1) (fse_top L low) (fse_stride L) (mask L) c1 0) (\<lambda>res. case res of Inl e \<Rightarrow> False
      | Inr cells' \<Rightarrow> length cells' = length c1 \<and> (\<exists>position'. spread_ok L low c1 cells' position' (low + (\<Sum>s\<leftarrow>ss. nat (counts ! s)))
          (\<lambda>t. (if t \<in> set ss \<and> counts ! t < 0 then 1 else 0) + (if t \<in> set ss then nat (counts ! t) else 0))
          ([] @ concat (map (\<lambda>s. replicate (nat (counts ! s)) s) ss))))"
    using sum r by (intro fse_spread_contract[OF L low _ ss(2)]) auto
  from wp_InrD[OF this] obtain c2 pos where c2: "fse_spread counts ss (push_bit L 1) (fse_top L low) (fse_stride L) (mask L) c1 0 = Some (Inr c2)"
      "length c2 = length c1" "spread_ok L low c1 c2 pos (2 ^ L)
        (\<lambda>t. (if t \<in> set ss \<and> counts ! t < 0 then 1 else 0) + (if t \<in> set ss then nat (counts ! t) else 0))
        (concat (map (\<lambda>s. replicate (nat (counts ! s)) s) ss))"
    using sum by (auto simp: add.commute simp del: push_bit_of_1)
  have "occ c2 {..<2 ^ L} t = (if t \<le> mx then mags counts t else 0)" for t
    unfolding spread_full(1)[OF L c2(3)] using ge ss(1) by (auto simp: magnitude_def)
  moreover have "map (cell_symbol c2) (map (\<lambda>i. 2 ^ L - Suc i) [0..<low]) = filter (\<lambda>s. counts ! s < 0) ss"
    unfolding top[symmetric] using spread_full(3)[OF L c2(3)] low by (auto simp: cell_symbol_def)
  then have "fse_layout counts mx L c2"
    using spread_full(2)[OF L c2(3)] unfolding fse_layout_def Let_def ss_def[symmetric] low_def[symmetric] by simp
  moreover have "\<forall>p\<ge>2 ^ L. c2 ! p = cells ! p" using spread_full(3)[OF L c2(3)] kept by auto
  ultimately show ?thesis using c1 c2 n(3) ss(1) by auto
qed

lemma build_dtable_contract:
  assumes L: "log_ok L" and mx: "mx \<le> 255" "mx < length counts" "mx < length sn"
    and cap: "2 ^ L \<le> unat cap" "unat cap \<le> length cells"
    and counts: "\<forall>t\<le>mx. counts ! t < 32768"
  shows "wp (zstd_fse_build_dtable counts mx L cells cap sn) (\<lambda>res. case res of
     Inl e \<Rightarrow> e = (CUDEC_ERR_CORRUPT_INPUT, kZstdFseRejectBuildCountsNotNormalized) \<and> \<not> normalized counts mx L
   | Inr cells' \<Rightarrow> normalized counts mx L \<and> length cells' = length cells \<and> table_ok counts mx L cells' \<and> drop (2 ^ L) cells' = drop (2 ^ L) cells)"
proof -
  define ss where "ss = [0..<mx + 1]"
  define T :: u32 where "T = push_bit L 1"
  note Ts = fse_table_size[OF L, folded T_def]
  have ss: "set ss = {..mx}" "distinct ss" by (auto simp: ss_def)
  have lens: "2 ^ L \<le> length cells" using cap by simp
  have claim: "wp (fse_claim counts T ss 0) (\<lambda>res. case res of
     Inl e \<Rightarrow> e = (CUDEC_ERR_CORRUPT_INPUT, kZstdFseRejectBuildCountsNotNormalized) \<and>
       ((\<exists>s\<in>set ss. counts ! s < - 1) \<or> int (unat T) < int (unat (0::u32)) + (\<Sum>s\<leftarrow>ss. magnitude (counts ! s)))
   | Inr c \<Rightarrow> (\<forall>s\<in>set ss. - 1 \<le> counts ! s) \<and>
       int (unat c) = int (unat (0::u32)) + (\<Sum>s\<leftarrow>ss. magnitude (counts ! s)))"
    using counts mx ss by (intro fse_claim_contract) auto
  note norm = normalized_list[OF ss mx(2), of L]
  have eq: "zstd_fse_build_dtable counts mx L cells cap sn = do {
      claim \<leftarrow> fse_claim counts T ss 0;
      case claim of
        Inl e \<Rightarrow> Some (Inl e)
      | Inr claimed \<Rightarrow>
          if claimed \<noteq> T
          then Some (Inl (CUDEC_ERR_CORRUPT_INPUT, kZstdFseRejectBuildCountsNotNormalized))
          else do {
            (high, cells, symbol_next) \<leftarrow> fse_low counts ss (T - 1) cells sn;
            res \<leftarrow> fse_spread counts ss T high (fse_stride L) (mask L) cells 0;
            case res of
              Inl e \<Rightarrow> Some (Inl e)
            | Inr cells \<Rightarrow> do {
                cells \<leftarrow> fse_states L T [0..<2 ^ L] cells symbol_next;
                Some (Inr cells)
              }
          }
    }"
    using mx L cap unfolding zstd_fse_build_dtable_def T_def[symmetric] ss_def[symmetric] Let_def Ts(1,3,4)
    by (auto simp: fse_consts log_ok_def w2n Ts(1) simp del: push_bit_of_1)
  have cont: "wp (if c \<noteq> T
          then Some (Inl (CUDEC_ERR_CORRUPT_INPUT, kZstdFseRejectBuildCountsNotNormalized))
          else do {
            (high, cells, symbol_next) \<leftarrow> fse_low counts ss (T - 1) cells sn;
            res \<leftarrow> fse_spread counts ss T high (fse_stride L) (mask L) cells 0;
            case res of
              Inl e \<Rightarrow> Some (Inl e)
            | Inr cells \<Rightarrow> do {
                cells \<leftarrow> fse_states L T [0..<2 ^ L] cells symbol_next;
                Some (Inr cells)
              }
          }) (\<lambda>res. case res of
     Inl e \<Rightarrow> e = (CUDEC_ERR_CORRUPT_INPUT, kZstdFseRejectBuildCountsNotNormalized) \<and> \<not> normalized counts mx L
   | Inr cells' \<Rightarrow> normalized counts mx L \<and> length cells' = length cells \<and> table_ok counts mx L cells' \<and> drop (2 ^ L) cells' = drop (2 ^ L) cells)"
    if c: "(\<forall>s\<in>set ss. - 1 \<le> counts ! s) \<and>
        int (unat c) = int (unat (0::u32)) + (\<Sum>s\<leftarrow>ss. magnitude (counts ! s))" for c
  proof -
    have "c = T \<longleftrightarrow> int (unat c) = int (unat T)" by (auto intro: unsigned_word_eqI)
    then have cT: "c = T \<longleftrightarrow> normalized counts mx L" using c Ts(1) norm by simp
    show ?thesis
    proof (cases "c = T")
      case True
      then have n: "normalized counts mx L" using cT by simp
      from build_low_spread[OF L n mx(1,3) lens, folded T_def ss_def]
      obtain high c1 n1 c2 where d: "fse_low counts ss (T - 1) cells sn = Some (high, c1, n1)"
        "length n1 = length sn" "\<forall>t\<le>mx. n1 ! t = of_int (magnitude (counts ! t))"
        "fse_spread counts ss T high (fse_stride L) (mask L) c1 0 = Some (Inr c2)"
        "length c2 = length cells" "\<forall>t. occ c2 {..<2 ^ L} t = (if t \<le> mx then mags counts t else 0)" "fse_layout counts mx L c2"
        "\<forall>p\<ge>2 ^ L. c2 ! p = cells ! p"
        by auto
      have "wp (fse_states L T [0..<2 ^ L] c2 n1) (\<lambda>cells'. length cells' = length c2 \<and> table_ok counts mx L cells' \<and> (\<forall>p\<ge>2 ^ L. cells' ! p = c2 ! p))"
        unfolding T_def using n lens d mx(3) by (intro build_states[OF L n]) simp_all
      moreover have "drop (2 ^ L) x = drop (2 ^ L) cells" if "length x = length c2" "\<forall>p\<ge>2 ^ L. x ! p = c2 ! p" for x
        using that d(5,8) by (intro nth_equalityI) simp_all
      ultimately show ?thesis using n d(5) True
        by (simp add: d(1,4)) (erule wp_bindI, simp add: wp_rules)
    next
      case False
      then show ?thesis using cT by (simp add: wp_rules)
    qed
  qed
  show ?thesis unfolding eq
  proof (rule wp_bind_sum[OF claim])
    fix e assume "e = (CUDEC_ERR_CORRUPT_INPUT, kZstdFseRejectBuildCountsNotNormalized) \<and>
       ((\<exists>s\<in>set ss. counts ! s < - 1) \<or> int (unat T) < int (unat (0::u32)) + (\<Sum>s\<leftarrow>ss. magnitude (counts ! s)))"
    moreover from this have "\<not> normalized counts mx L" unfolding norm using Ts(1) by (auto dest: leD)
    ultimately show "wp (Some (Inl e)) (\<lambda>res. case res of
     Inl e \<Rightarrow> e = (CUDEC_ERR_CORRUPT_INPUT, kZstdFseRejectBuildCountsNotNormalized) \<and> \<not> normalized counts mx L
   | Inr cells' \<Rightarrow> normalized counts mx L \<and> length cells' = length cells \<and> table_ok counts mx L cells' \<and> drop (2 ^ L) cells' = drop (2 ^ L) cells)"
      by (simp add: wp_rules)
  qed (rule cont)
qed

section \<open>What a table gives the decoder\<close>

lemma table_closed:
  assumes "table_ok counts mx L cells" "c < 2 ^ L" "b < 2 ^ unat (fc_nb_bits (cells ! c))"
  shows "unat (fc_new_state (cells ! c)) + b < 2 ^ L"
proof -
  have "cell_ok L (cell_state (mags counts) cells c) (cells ! c)" using assms(1,2) by (simp add: table_ok_def)
  then show ?thesis using assms(3) by (auto simp: cell_ok_def distrib_right)
qed

lemma table_bits: "table_ok counts mx L cells \<Longrightarrow> c < 2 ^ L \<Longrightarrow> unat (fc_nb_bits (cells ! c)) \<le> L"
  by (auto simp: table_ok_def cell_ok_def)

text \<open>The cells of a symbol carry the states from its magnitude to twice its magnitude, once each.\<close>

lemma rank_onto:
  "{occ cells {..<c} t | c. c < n \<and> cell_symbol cells c = t} = {..<occ cells {..<n} t}"
proof (induction n)
  case (Suc n)
  have "{occ cells {..<c} t | c. c < Suc n \<and> cell_symbol cells c = t} =
      {occ cells {..<c} t | c. c < n \<and> cell_symbol cells c = t} \<union>
      (if t = cell_symbol cells n then {occ cells {..<n} t} else {})"
    by (auto simp: less_Suc_eq)
  then show ?case unfolding Suc by (auto simp: occ_Suc)
qed (simp add: occ_def)

lemma rank_strict:
  "c < d \<Longrightarrow> cell_symbol cells c = t \<Longrightarrow> occ cells {..<c} t < occ cells {..<d} t"
  using occ_mono[of "{..<d}" "{..<Suc c}" cells t] by (simp add: occ_Suc Suc_le_eq)

lemma unique_shift:
  fixes x y m :: nat
  assumes x: "x * 2 ^ a \<le> t" "t < (x + 1) * 2 ^ a" "2 ^ L \<le> x * 2 ^ a" "(x + 1) * 2 ^ a \<le> 2 * 2 ^ L"
    and y: "y * 2 ^ b \<le> t" "t < (y + 1) * 2 ^ b" "2 ^ L \<le> y * 2 ^ b" "(y + 1) * 2 ^ b \<le> 2 * 2 ^ L"
    and m: "m \<le> x" "x < 2 * m" "m \<le> y" "y < 2 * m"
  shows "x = y"
proof -
  have one: "b' \<le> a' \<Longrightarrow> x' * 2 ^ a' \<le> t \<Longrightarrow> t < (x' + 1) * 2 ^ a' \<Longrightarrow> y' * 2 ^ b' \<le> t \<Longrightarrow> t < (y' + 1) * 2 ^ b' \<Longrightarrow>
      m \<le> x' \<Longrightarrow> x' < 2 * m \<Longrightarrow> m \<le> y' \<Longrightarrow> y' < 2 * m \<Longrightarrow> x' = y'" for x' y' a' b' :: nat
  proof -
    assume h: "b' \<le> a'" "x' * 2 ^ a' \<le> t" "t < (x' + 1) * 2 ^ a'" "y' * 2 ^ b' \<le> t" "t < (y' + 1) * 2 ^ b'"
      "m \<le> x'" "x' < 2 * m" "m \<le> y'" "y' < 2 * m"
    obtain d where a': "a' = b' + d" using h(1) le_Suc_ex by blast
    have q: "t div 2 ^ b' = y'" using h(4,5) by (intro div_nat_eqI) (simp_all add: mult.commute)
    have "t div 2 ^ a' = x'" using h(2,3) by (intro div_nat_eqI) (simp_all add: mult.commute)
    then have xy: "x' = y' div 2 ^ d" using q by (simp add: a' power_add div_mult2_eq)
    have "d = 0"
    proof (rule ccontr)
      assume "d \<noteq> 0"
      then have "2 ^ 1 \<le> (2::nat) ^ d" by (intro power_increasing) auto
      then have "x' \<le> y' div 2" unfolding xy by (intro div_le_mono2) auto
      then show False using h(6,9) by linarith
    qed
    then show "x' = y'" using xy by simp
  qed
  show ?thesis
  proof (cases "b \<le> a")
    case True
    then show ?thesis using one[of b a x y] x y m by simp
  next
    case False
    then show ?thesis using one[of a b y x] x y m by simp
  qed
qed

lemma shift_width:
  fixes x :: nat
  assumes "2 ^ h \<le> x" "x < 2 ^ Suc h" "h \<le> L" "2 ^ L \<le> x * 2 ^ w" "(x + 1) * 2 ^ w \<le> 2 * 2 ^ L"
  shows "w = L - h"
proof -
  have "x * 2 ^ w < 2 ^ Suc h * 2 ^ w" using assms(2) by simp
  then have "(2::nat) ^ L < 2 ^ (Suc h + w)" using assms(4) unfolding power_add by (rule order_le_less_trans[rotated])
  then have lo: "L < Suc h + w" by (rule power_less_imp_less_exp[rotated]) simp
  have "(2 ^ h + 1) * 2 ^ w \<le> (x + 1) * 2 ^ w" using assms(1) by (intro mult_right_mono) auto
  then have "(2 ^ h + 1) * 2 ^ w \<le> 2 * (2::nat) ^ L" using assms(5) by (rule order_trans)
  then have "2 ^ h * 2 ^ w + 2 ^ w \<le> 2 * (2::nat) ^ L" by (simp add: distrib_right)
  moreover have "0 < (2::nat) ^ w" by simp
  ultimately have "2 ^ h * 2 ^ w < (2::nat) ^ Suc L" unfolding power_Suc by linarith
  then have "(2::nat) ^ (h + w) < 2 ^ Suc L" by (simp only: power_add)
  then have "h + w < Suc L" by (rule power_less_imp_less_exp[rotated]) simp
  then show ?thesis using lo by linarith
qed

lemma some_shift:
  fixes m t :: nat
  assumes m: "0 < m" "m \<le> 2 ^ L" and t: "2 ^ L \<le> t" "t < 2 * 2 ^ L"
    and w: "\<And>x. m \<le> x \<Longrightarrow> x < 2 * m \<Longrightarrow> 2 ^ L \<le> x * 2 ^ w x \<and> (x + 1) * 2 ^ w x \<le> 2 * 2 ^ L"
  shows "\<exists>x. m \<le> x \<and> x < 2 * m \<and> x * 2 ^ w x \<le> t \<and> t < (x + 1) * 2 ^ w x"
proof -
  obtain j where j: "2 ^ j \<le> m" "m < 2 ^ Suc j"
    using ex_power_ivl1[of 2 m] m(1) by auto
  have "(2::nat) ^ j \<le> 2 ^ L" using j(1) m(2) by (rule order_trans)
  moreover have "(2::nat) ^ L < 2 ^ Suc L" by simp
  ultimately have "(2::nat) ^ j < 2 ^ Suc L" by (rule le_less_trans)
  then have "j < Suc L" by (rule power_less_imp_less_exp[rotated]) simp
  then have jL: "j \<le> L" by simp
  have pick: ?thesis if h: "h \<le> L" "m \<le> t div 2 ^ (L - h)" "t div 2 ^ (L - h) < 2 * m"
    "2 ^ h \<le> t div 2 ^ (L - h)" "t div 2 ^ (L - h) < 2 ^ Suc h" for h
  proof (intro exI conjI)
    let ?x = "t div 2 ^ (L - h)"
    have wx: "w ?x = L - h" using shift_width[OF h(4,5,1)] w[OF h(2,3)] by blast
    show "m \<le> ?x" "?x < 2 * m" by fact+
    show "?x * 2 ^ w ?x \<le> t" unfolding wx by (rule div_times_less_eq_dividend)
    have "t < ?x * 2 ^ (L - h) + 2 ^ (L - h)"
      using dividend_less_div_times[of "2 ^ (L - h)" t] by (simp add: add.commute)
    then show "t < (?x + 1) * 2 ^ w ?x" unfolding wx by simp
  qed
  have sz: "2 ^ h \<le> t div 2 ^ (L - h)" "t div 2 ^ (L - h) < 2 ^ Suc h" if "h \<le> L" for h
  proof -
    have L: "(2::nat) ^ L = 2 ^ h * 2 ^ (L - h)" using that by (simp add: power_add[symmetric])
    show "2 ^ h \<le> t div 2 ^ (L - h)" using t(1) unfolding L by (simp add: less_eq_div_iff_mult_less_eq)
    show "t div 2 ^ (L - h) < 2 ^ Suc h" using t(2) unfolding L by (simp add: div_less_iff_less_mult ac_simps)
  qed
  show ?thesis
  proof (cases "m \<le> t div 2 ^ (L - j)")
    case True
    then show ?thesis using sz[OF jL] j by (intro pick[OF jL]) auto
  next
    case False
    then have "j \<noteq> L" using t(1) m(2) by auto
    then have h: "Suc j \<le> L" using jL by simp
    have e: "L - j = Suc (L - Suc j)" using h by simp
    have "t div 2 ^ (L - j) = t div 2 ^ (L - Suc j) div 2" unfolding e power_Suc2 by (rule div_mult2_eq)
    then show ?thesis using sz[OF h] j False by (intro pick[OF h]) auto
  qed
qed

text \<open>
  The reverse automaton is deterministic: from every state, and for every symbol of the
  distribution, exactly one cell of that symbol leads there.
\<close>

lemma table_predecessor:
  assumes ok: "table_ok counts mx L cells" and s: "s \<le> mx" "0 < mags counts s" "mags counts s \<le> 2 ^ L" and t: "t < 2 ^ L"
  shows "\<exists>!c. c < 2 ^ L \<and> cell_symbol cells c = s \<and> unat (fc_new_state (cells ! c)) \<le> t \<and>
     t < unat (fc_new_state (cells ! c)) + 2 ^ unat (fc_nb_bits (cells ! c))"
proof -
  let ?m = "mags counts s"
  define nb where "nb c = unat (fc_nb_bits (cells ! c))" for c
  define x where "x c = cell_state (mags counts) cells c" for c
  have cell: "unat (fc_new_state (cells ! c)) + 2 ^ L = x c * 2 ^ nb c" "2 ^ L \<le> x c * 2 ^ nb c"
    "(x c + 1) * 2 ^ nb c \<le> 2 * 2 ^ L" if "c < 2 ^ L" for c
    using ok that by (auto simp: table_ok_def cell_ok_def nb_def x_def)
  have hit: "unat (fc_new_state (cells ! c)) \<le> t \<and> t < unat (fc_new_state (cells ! c)) + 2 ^ nb c \<longleftrightarrow>
      x c * 2 ^ nb c \<le> t + 2 ^ L \<and> t + 2 ^ L < (x c + 1) * 2 ^ nb c" if "c < 2 ^ L" for c
    using cell(1)[OF that] by (auto simp: distrib_right)
  have total: "occ cells {..<2 ^ L} s = ?m" using ok s by (simp add: table_ok_def)
  have rng: "?m \<le> x c" "x c < 2 * ?m" if "c < 2 ^ L" "cell_symbol cells c = s" for c
    using rank_strict[OF that] that(2) by (auto simp: x_def cell_state_def total)
  have inj: "c = d" if "c < 2 ^ L" "d < 2 ^ L" "cell_symbol cells c = s" "cell_symbol cells d = s" "x c = x d" for c d
    using rank_strict[of c d cells s] rank_strict[of d c cells s] that
    by (cases c d rule: linorder_cases) (auto simp: x_def cell_state_def)
  have onto: "\<exists>c<2 ^ L. cell_symbol cells c = s \<and> x c = y" if "?m \<le> y" "y < 2 * ?m" for y
  proof -
    have "y - ?m \<in> {occ cells {..<c} s | c. c < 2 ^ L \<and> cell_symbol cells c = s}"
      unfolding rank_onto total using that by auto
    then show ?thesis using that by (auto simp: x_def cell_state_def)
  qed
  define w where "w y = nb (SOME c. c < 2 ^ L \<and> cell_symbol cells c = s \<and> x c = y)" for y
  have w: "w (x c) = nb c" if "c < 2 ^ L" "cell_symbol cells c = s" for c
    unfolding w_def using inj that by (intro arg_cong[of _ _ nb] some_equality) auto
  obtain y where y: "?m \<le> y" "y < 2 * ?m" "y * 2 ^ w y \<le> t + 2 ^ L" "t + 2 ^ L < (y + 1) * 2 ^ w y"
    using some_shift[OF s(2,3), of "t + 2 ^ L" w] t cell onto w by (metis add_less_cancel_right le_add2 mult_2)
  then obtain c where c: "c < 2 ^ L" "cell_symbol cells c = s" "x c = y" using onto by blast
  show ?thesis
  proof (rule ex1I[of _ c])
    show "c < 2 ^ L \<and> cell_symbol cells c = s \<and> unat (fc_new_state (cells ! c)) \<le> t \<and>
        t < unat (fc_new_state (cells ! c)) + 2 ^ unat (fc_nb_bits (cells ! c))"
      using hit[OF c(1)] c y w[OF c(1,2)] by (simp add: nb_def)
  next
    fix d assume d: "d < 2 ^ L \<and> cell_symbol cells d = s \<and> unat (fc_new_state (cells ! d)) \<le> t \<and>
        t < unat (fc_new_state (cells ! d)) + 2 ^ unat (fc_nb_bits (cells ! d))"
    then have "x d * 2 ^ nb d \<le> t + 2 ^ L" "t + 2 ^ L < (x d + 1) * 2 ^ nb d" using hit[of d] by (auto simp: nb_def)
    moreover have "x c * 2 ^ nb c \<le> t + 2 ^ L" "t + 2 ^ L < (x c + 1) * 2 ^ nb c" using c y w[OF c(1,2)] by auto
    ultimately have "x d = x c"
      using unique_shift[OF _ _ cell(2,3)[of d] _ _ cell(2,3)[of c]] c d rng by metis
    then show "d = c" using inj c d by simp
  qed
qed

section \<open>There is one such table\<close>

lemma cell_ok_unique:
  assumes "cell_ok L x cell" "cell_ok L x cell'" "fc_symbol cell = fc_symbol cell'"
  shows "cell = cell'"
proof -
  let ?a = "unat (fc_nb_bits cell)" and ?b = "unat (fc_nb_bits cell')"
  have a: "2 ^ L \<le> x * 2 ^ ?a" "(x + 1) * 2 ^ ?a \<le> 2 * 2 ^ L" "unat (fc_new_state cell) + 2 ^ L = x * 2 ^ ?a"
    and b: "2 ^ L \<le> x * 2 ^ ?b" "(x + 1) * 2 ^ ?b \<le> 2 * 2 ^ L" "unat (fc_new_state cell') + 2 ^ L = x * 2 ^ ?b"
    using assms(1,2) by (simp_all add: cell_ok_def)
  have "0 < x" using a(1) by (cases x) simp_all
  then obtain h where h: "2 ^ h \<le> x" "x < 2 ^ Suc h" using ex_power_ivl1[of 2 x] by auto
  have "x < 2 ^ Suc L"
  proof -
    have "(x + 1) * 1 \<le> (x + 1) * 2 ^ ?a" by (intro mult_left_mono) simp_all
    then show ?thesis using a(2) by simp
  qed
  then have "(2::nat) ^ h < 2 ^ Suc L" using h(1) by (rule le_less_trans[rotated])
  then have "h < Suc L" by (rule power_less_imp_less_exp[rotated]) simp
  then have "?a = ?b" using shift_width[OF h _ a(1,2)] shift_width[OF h _ b(1,2)] by simp
  then have "fc_nb_bits cell = fc_nb_bits cell'" "fc_new_state cell = fc_new_state cell'"
    using a(3) b(3) by (auto simp: word_unat_eq_iff)
  then show ?thesis using assms(3) by simp
qed

lemma table_ok_unique:
  assumes "table_ok counts mx L cells" "table_ok counts mx L cells'" "5 \<le> L" "p < 2 ^ L"
  shows "cells' ! p = cells ! p"
proof -
  have sym: "cell_symbol cells' q = cell_symbol cells q" if "q < 2 ^ L" for q
    using fse_layout_unique[of counts mx L cells cells' q] assms that by (simp add: table_ok_def)
  have word: "fc_symbol (cells' ! q) = fc_symbol (cells ! q)" if "q < 2 ^ L" for q
    using sym[OF that] by (simp add: cell_symbol_def word_unat_eq_iff)
  have "occ cells' {..<p} t = occ cells {..<p} t" for t using assms(4) by (intro occ_cong word) simp
  then have "cell_state (mags counts) cells' p = cell_state (mags counts) cells p" by (simp add: cell_state_def sym[OF assms(4)])
  then show ?thesis
    using assms(1,2,4) word[OF assms(4)] by (intro cell_ok_unique[of L "cell_state (mags counts) cells p"]) (auto simp: table_ok_def)
qed

lemma table_ok_take:
  assumes "table_ok counts mx L cells" "table_ok counts mx L cells'" "5 \<le> L"
  shows "take (2 ^ L) cells' = take (2 ^ L) cells"
  using assms table_ok_unique[OF assms] by (intro nth_take_lemma) (auto simp: table_ok_def)

end
