(* ===== verification/Zstd_Fse_Core.thy ===== *)
theory Zstd_Fse_Core
  imports Zstd_Fse_Table Zstd_Bitstream
begin

text \<open>
  The cores that walk a built table over a backward bit stream (\<open>src/zstd_fse.h\<close>):
  \<open>ZstdFseInitState\<close>, \<open>ZstdFseNextSymbol\<close> and the two-state run the Huffman weights
  are written in. A step returns its error or its value, and the reader as it left it.
\<close>

type_synonym 'a fse_step = "((fse_error + 'a) \<times> zstd_bit_reader) option"

definition zstd_fse_init_state :: "zstd_bit_reader \<Rightarrow> nat \<Rightarrow> u32 fse_step" where
  "zstd_fse_init_state reader accuracy_log = do {
     (st, bits, reader) \<leftarrow> zstd_read_bits (of_nat accuracy_log) reader;
     if st \<noteq> CUDEC_OK
     then Some (Inl (CUDEC_ERR_CORRUPT_INPUT, kZstdFseRejectStateInitTruncated), reader)
     else Some (Inr (ucast bits), reader)
   }"

text \<open>One symbol: the symbol, whether its update could not be paid for, the state after it.\<close>

definition zstd_fse_next_symbol ::
    "zstd_bit_reader \<Rightarrow> zstd_fse_cell list \<Rightarrow> u32 \<Rightarrow> u32 \<Rightarrow> (u8 \<times> bool \<times> u32) fse_step" where
  "zstd_fse_next_symbol reader cells table_size state =
     (if state \<ge> table_size
      then Some (Inl (CUDEC_ERR_CORRUPT_INPUT, kZstdFseRejectStateOutOfTable), reader)
      else do {
        cell \<leftarrow> at cells (unat state);
        if ucast (fc_nb_bits cell) > zstd_bits_remaining reader
        then Some (Inr (fc_symbol cell, True, state), reader)
        else do {
          (st, bits, reader) \<leftarrow> zstd_read_bits (ucast (fc_nb_bits cell)) reader;
          if st \<noteq> CUDEC_OK then Some (Inl (st, kZstdFseRejectStateInitTruncated), reader)
          else Some (Inr (fc_symbol cell, False, ucast (fc_new_state cell) + ucast bits), reader)
        }
      })"

text \<open>
  The alternating run. \<open>budget\<close> counts the iterations the loop has left, the
  capacity at the start; an even step takes its symbol from the first state, an odd one from the
  second.
\<close>

fun fse_two_state_loop :: "nat \<Rightarrow> nat \<Rightarrow> nat \<Rightarrow> zstd_fse_cell list \<Rightarrow> u32 \<Rightarrow> nat \<Rightarrow> u32 \<Rightarrow> u32 \<Rightarrow> u8 list \<Rightarrow>
    zstd_bit_reader \<Rightarrow> (nat \<times> u8 list) fse_step" where
  "fse_two_state_loop 0 step capacity cells table_size produced first second out reader =
     Some (Inl (CUDEC_ERR_OUTPUT_TOO_SMALL, kZstdFseRejectOutputFull), reader)"
| "fse_two_state_loop (Suc budget) step capacity cells table_size produced first second out reader = do {
     let (active, other) = (if step mod 2 = 0 then (first, second) else (second, first));
     (res, reader) \<leftarrow> zstd_fse_next_symbol reader cells table_size active;
     case res of
       Inl e \<Rightarrow> Some (Inl e, reader)
     | Inr (symbol, spent, active) \<Rightarrow> do {
         out \<leftarrow> put out produced symbol;
         let produced = produced + 1;
         let (first, second) = (if step mod 2 = 0 then (active, other) else (other, active));
         if \<not> spent
         then fse_two_state_loop budget (step + 1) capacity cells table_size produced first second out reader
         else if produced = capacity
         then Some (Inl (CUDEC_ERR_OUTPUT_TOO_SMALL, kZstdFseRejectOutputFull), reader)
         else if other \<ge> table_size
         then Some (Inl (CUDEC_ERR_CORRUPT_INPUT, kZstdFseRejectStateOutOfTable), reader)
         else do {
           cell \<leftarrow> at cells (unat other);
           out \<leftarrow> put out produced (fc_symbol cell);
           Some (Inr (produced + 1, out), reader)
         }
       }
   }"

definition zstd_fse_decode_2state ::
    "zstd_bit_reader \<Rightarrow> zstd_fse_cell list \<Rightarrow> u32 \<Rightarrow> nat \<Rightarrow> u8 list \<Rightarrow> u32 \<Rightarrow> (nat \<times> u8 list) fse_step" where
  "zstd_fse_decode_2state reader cells table_size accuracy_log out out_capacity =
     (if accuracy_log < kZstdFseMinAccuracyLog \<or> accuracy_log > kZstdFseMaxAccuracyLog \<or>
         table_size \<noteq> push_bit accuracy_log 1
      then Some (Inl (CUDEC_ERR_INVALID_ARGUMENT, kZstdFseRejectBadRequest), reader)
      else do {
        (res, reader) \<leftarrow> zstd_fse_init_state reader accuracy_log;
        case res of
          Inl e \<Rightarrow> Some (Inl e, reader)
        | Inr first \<Rightarrow> do {
            (res, reader) \<leftarrow> zstd_fse_init_state reader accuracy_log;
            case res of
              Inl e \<Rightarrow> Some (Inl e, reader)
            | Inr second \<Rightarrow>
                fse_two_state_loop (unat out_capacity) 0 (unat out_capacity) cells table_size 0 first second out reader
          }
      })"

section \<open>The run on a list of bits\<close>

text \<open>
  The same run on the stream's bits, without a reader or a buffer: the states take turns, and a
  step that cannot be paid for ends the run with the other state's symbol. The first argument is
  the output still free.
\<close>

definition cell_next :: "zstd_fse_cell list \<Rightarrow> nat \<Rightarrow> bool list \<Rightarrow> nat" where
  "cell_next cells s bs = unat (fc_new_state (cells ! s)) + bits_value (take (unat (fc_nb_bits (cells ! s))) bs)"

fun two_state_spec :: "nat \<Rightarrow> zstd_fse_cell list \<Rightarrow> bool list \<Rightarrow> nat \<Rightarrow> nat \<Rightarrow> u8 list option" where
  "two_state_spec 0 cells bs a b = None"
| "two_state_spec (Suc free) cells bs a b =
     (if unat (fc_nb_bits (cells ! a)) > length bs
      then (if free = 0 then None else Some [fc_symbol (cells ! a), fc_symbol (cells ! b)])
      else map_option (Cons (fc_symbol (cells ! a)))
        (two_state_spec free cells (drop (unat (fc_nb_bits (cells ! a))) bs) b (cell_next cells a bs)))"

text \<open>A table whose states stay inside it.\<close>

definition closed_table :: "nat \<Rightarrow> zstd_fse_cell list \<Rightarrow> bool" where
  "closed_table L cells \<longleftrightarrow> log_ok L \<and> 2 ^ L \<le> length cells \<and>
     (\<forall>c<2 ^ L. unat (fc_nb_bits (cells ! c)) \<le> L \<and>
        unat (fc_new_state (cells ! c)) + 2 ^ unat (fc_nb_bits (cells ! c)) \<le> 2 ^ L)"

lemma table_ok_closed: "log_ok L \<Longrightarrow> table_ok counts mx L cells \<Longrightarrow> closed_table L cells"
proof -
  assume L: "log_ok L" and t: "table_ok counts mx L cells"
  have "unat (fc_new_state (cells ! c)) + 2 ^ unat (fc_nb_bits (cells ! c)) \<le> 2 ^ L" if "c < 2 ^ L" for c
    using table_closed[OF t that, of "2 ^ unat (fc_nb_bits (cells ! c)) - 1"] by simp
  then show "closed_table L cells"
    using L t table_bits[OF t] by (simp add: closed_table_def table_ok_def)
qed

definition live_reader :: "zstd_bit_reader \<Rightarrow> bool" where
  "live_reader r \<longleftrightarrow> reader_ok r \<and> started r \<and> \<not> overrun r"

lemma live_read:
  assumes "live_reader r" "unat c \<le> 57" "unat c \<le> length (live_bits r)"
  shows "\<exists>v r'. zstd_read_bits c r = Some (CUDEC_OK, v, r') \<and> live_reader r' \<and>
     live_bits r' = drop (unat c) (live_bits r) \<and> unat v = bits_value (take (unat c) (live_bits r)) \<and>
     unat v < 2 ^ unat c"
proof -
  have "wp (zstd_read_bits c r) (read_ok c r)" using assms(1) by (intro read_bits_contract) (simp add: live_reader_def)
  then show ?thesis using assms bits_take_less[OF assms(3)]
    by (auto simp: wp_iff read_ok_def live_reader_def w2n kZstdBitReadMax_def split: if_splits)
qed

lemma live_read_short:
  assumes "live_reader r" "unat c \<le> 57" "length (live_bits r) < unat c"
  shows "\<exists>v r'. zstd_read_bits c r = Some (CUDEC_ERR_CORRUPT_INPUT, v, r')"
proof -
  have "wp (zstd_read_bits c r) (read_ok c r)" using assms(1) by (intro read_bits_contract) (simp add: live_reader_def)
  then show ?thesis using assms
    by (auto simp: wp_iff read_ok_def live_reader_def w2n kZstdBitReadMax_def split: if_splits)
qed

lemma unat_ucast_u64_u32: "unat (v :: u64) < 2 ^ 32 \<Longrightarrow> unat (ucast v :: u32) = unat v"
  by (simp add: unsigned_ucast_eq take_bit_nat_eq_self)

lemma unat_ucast_u16_u32 [simp]: "unat (ucast (x::u16) :: u32) = unat x"
  by (rule unat_ucast_le) simp

lemma next_symbol_contract:
  assumes t: "closed_table L cells" and r: "live_reader r" and s: "unat state < 2 ^ L"
  defines "nb \<equiv> unat (fc_nb_bits (cells ! unat state))"
  shows "\<exists>r' state'. zstd_fse_next_symbol r cells (push_bit L 1) state =
      Some (Inr (fc_symbol (cells ! unat state), nb > length (live_bits r), state'), r') \<and>
     live_reader r' \<and> unat state' < 2 ^ L \<and>
     (nb > length (live_bits r) \<longrightarrow> state' = state \<and> r' = r) \<and>
     (nb \<le> length (live_bits r) \<longrightarrow> live_bits r' = drop nb (live_bits r) \<and>
        unat state' = cell_next cells (unat state) (live_bits r))"
proof -
  let ?c = "cells ! unat state"
  have L: "log_ok L" using t by (simp add: closed_table_def)
  note T = fse_table_size(1)[OF L]
  have c: "nb \<le> L" "unat (fc_new_state ?c) + 2 ^ nb \<le> 2 ^ L" "unat state < length cells"
    using t s by (auto simp: closed_table_def nb_def)
  have rem: "unat (zstd_bits_remaining r) = length (live_bits r)" using r by (simp add: live_reader_def remaining_live)
  have lt: "\<not> state \<ge> push_bit L 1" using s T by (simp add: w2n)
  show ?thesis
  proof (cases "nb > length (live_bits r)")
    case True
    then have "ucast (fc_nb_bits ?c) > zstd_bits_remaining r" using rem by (simp add: w2n nb_def)
    then show ?thesis using lt c(3) True r s by (simp add: zstd_fse_next_symbol_def at_def)
  next
    case False
    then have "\<not> ucast (fc_nb_bits ?c) > zstd_bits_remaining r" using rem by (simp add: w2n nb_def)
    moreover have "nb \<le> 57" using c(1) L by (simp add: log_ok_def)
    then obtain v r' where v: "zstd_read_bits (ucast (fc_nb_bits ?c)) r = Some (CUDEC_OK, v, r')"
        "live_reader r'" "live_bits r' = drop nb (live_bits r)" "unat v = bits_value (take nb (live_bits r))" "unat v < 2 ^ nb"
      using live_read[OF r, of "ucast (fc_nb_bits ?c)"] False by (auto simp: nb_def)
    have p: "(2::nat) ^ L \<le> 32768" using log_ok_exp[OF L] by simp
    have vn: "unat (fc_new_state ?c) + unat v < 2 ^ L" using c(2) v(5) by linarith
    have "unat (ucast v :: u32) = unat v" using vn p by (intro unat_ucast_u64_u32) simp
    then have "unat (ucast (fc_new_state ?c) + ucast v :: u32) = unat (fc_new_state ?c) + unat v"
      using vn p by (subst unat_plus) simp_all
    ultimately show ?thesis using lt c(3) v False vn
      by (simp add: zstd_fse_next_symbol_def at_def cell_next_def nb_def[symmetric])
  qed
qed


lemma two_state_loop_contract:
  assumes "closed_table L cells" "live_reader r" "unat first < 2 ^ L" "unat second < 2 ^ L"
    and "produced + free = capacity" "capacity \<le> length out"
  shows "wp (fse_two_state_loop free step capacity cells (push_bit L 1) produced first second out r) (\<lambda>(res, r').
     reader_ok r' \<and> (case two_state_spec free cells (live_bits r)
         (unat (if step mod 2 = 0 then first else second)) (unat (if step mod 2 = 0 then second else first)) of
       None \<Rightarrow> res = Inl (CUDEC_ERR_OUTPUT_TOO_SMALL, kZstdFseRejectOutputFull)
     | Some xs \<Rightarrow> (\<exists>out'. res = Inr (produced + length xs, out') \<and> length xs \<le> free \<and> length out' = length out \<and>
         out' = take produced out @ xs @ drop (produced + length xs) out)))"
  using assms(2-)
proof (induction free arbitrary: step produced first second out r)
  case 0
  then show ?case by (simp add: wp_rules live_reader_def)
next
  case (Suc free)
  define act oth where "act = (if step mod 2 = 0 then first else second)" and "oth = (if step mod 2 = 0 then second else first)"
  have st: "unat act < 2 ^ L" "unat oth < 2 ^ L" using Suc.prems by (auto simp: act_def oth_def)
  let ?nb = "unat (fc_nb_bits (cells ! unat act))"
  obtain r' act' where n: "zstd_fse_next_symbol r cells (push_bit L 1) act =
      Some (Inr (fc_symbol (cells ! unat act), ?nb > length (live_bits r), act'), r')"
     "live_reader r'" "unat act' < 2 ^ L" "?nb > length (live_bits r) \<longrightarrow> act' = act \<and> r' = r"
     "?nb \<le> length (live_bits r) \<longrightarrow> live_bits r' = drop ?nb (live_bits r) \<and>
        unat act' = cell_next cells (unat act) (live_bits r)"
    using next_symbol_contract[OF assms(1) Suc.prems(1) st(1)] by blast
  have len: "produced < length out" using Suc.prems by simp
  have L: "log_ok L" "2 ^ L \<le> length cells" using assms(1) by (auto simp: closed_table_def)
  let ?out = "out[produced := fc_symbol (cells ! unat act)]"
  have upd: "?out = take produced out @ fc_symbol (cells ! unat act) # drop (Suc produced) out"
    by (rule upd_conv_take_nth_drop[OF len])
  have eq: "fse_two_state_loop (Suc free) step capacity cells (push_bit L 1) produced first second out r =
     (if \<not> ?nb > length (live_bits r)
      then fse_two_state_loop free (step + 1) capacity cells (push_bit L 1) (produced + 1)
         (if step mod 2 = 0 then act' else oth) (if step mod 2 = 0 then oth else act') ?out r'
      else if produced + 1 = capacity
      then Some (Inl (CUDEC_ERR_OUTPUT_TOO_SMALL, kZstdFseRejectOutputFull), r')
      else do {
           cell \<leftarrow> at cells (unat oth);
           out \<leftarrow> put ?out (produced + 1) (fc_symbol cell);
           Some (Inr (produced + 1 + 1, out), r')
         })"
    using n(1) len st(2) fse_table_size(1)[OF L(1)]
    by (auto simp: act_def oth_def Let_def w2n simp del: push_bit_of_1)
  show ?case
  proof (cases "?nb > length (live_bits r)")
    case True
    then have spec: "two_state_spec (Suc free) cells (live_bits r) (unat act) (unat oth) =
        (if free = 0 then None else Some [fc_symbol (cells ! unat act), fc_symbol (cells ! unat oth)])" by simp
    show ?thesis
    proof (cases "free = 0")
      case True
      then show ?thesis using \<open>?nb > length (live_bits r)\<close> Suc.prems n(2) spec
        unfolding eq act_def[symmetric] oth_def[symmetric] spec by (simp add: wp_rules live_reader_def)
    next
      case False
      then have len2: "Suc produced < length out" using Suc.prems by simp
      have "?out[Suc produced := fc_symbol (cells ! unat oth)] =
          take produced out @ [fc_symbol (cells ! unat act), fc_symbol (cells ! unat oth)] @ drop (Suc (Suc produced)) out"
        using len2 unfolding upd by (simp add: list_update_append upd_conv_take_nth_drop min_def Cons_nth_drop_Suc[symmetric])
      then show ?thesis using True False Suc.prems n(2) st(2) L(2) len2
        unfolding eq act_def[symmetric] oth_def[symmetric] spec
        by (auto simp: at_def wp_rules live_reader_def)
    qed
  next
    case False
    let ?f = "if step mod 2 = 0 then act' else oth" and ?s = "if step mod 2 = 0 then oth else act'"
    have odd: "((step + 1) mod 2 = 0) = (step mod 2 \<noteq> 0)" by presburger
    have ao: "(if (step + 1) mod 2 = 0 then ?f else ?s) = oth" "(if (step + 1) mod 2 = 0 then ?s else ?f) = act'"
      unfolding odd by auto
    have "wp (fse_two_state_loop free (step + 1) capacity cells (push_bit L 1) (produced + 1) ?f ?s ?out r') (\<lambda>(res, r').
     reader_ok r' \<and> (case two_state_spec free cells (drop ?nb (live_bits r)) (unat oth) (cell_next cells (unat act) (live_bits r)) of
       None \<Rightarrow> res = Inl (CUDEC_ERR_OUTPUT_TOO_SMALL, kZstdFseRejectOutputFull)
     | Some xs \<Rightarrow> (\<exists>out'. res = Inr (produced + 1 + length xs, out') \<and> length xs \<le> free \<and> length out' = length ?out \<and>
         out' = take (produced + 1) ?out @ xs @ drop (produced + 1 + length xs) ?out)))"
      using Suc.IH[of r' ?f ?s "produced + 1" ?out "step + 1"] Suc.prems n st False unfolding ao
      by (simp add: not_less)
    moreover have "take (produced + 1) ?out = take produced out @ [fc_symbol (cells ! unat act)]"
      unfolding upd using len by simp
    moreover have "drop (produced + 1 + k) ?out = drop (produced + Suc k) out" for k by simp
    ultimately show ?thesis using False unfolding eq act_def[symmetric] oth_def[symmetric]
      by (simp only: if_True not_False_eq_True two_state_spec.simps if_False length_list_update)
        (erule wp_mono, clarsimp split: option.splits)
  qed
qed


lemma init_state_contract:
  assumes "live_reader r" "log_ok L"
  shows "if L \<le> length (live_bits r)
     then \<exists>s r'. zstd_fse_init_state r L = Some (Inr s, r') \<and> live_reader r' \<and> unat s < 2 ^ L \<and>
       unat s = bits_value (take L (live_bits r)) \<and> live_bits r' = drop L (live_bits r)
     else \<exists>r'. zstd_fse_init_state r L = Some (Inl (CUDEC_ERR_CORRUPT_INPUT, kZstdFseRejectStateInitTruncated), r')"
proof -
  have L: "L \<le> 15" using assms(2) by (simp add: log_ok_def)
  have u: "unat (of_nat L :: u32) = L" using L by (intro unat_of_nat_less) simp
  have p: "(2::nat) ^ L \<le> 32768" using log_ok_exp[OF assms(2)] by simp
  show ?thesis
    using live_read[OF assms(1), of "of_nat L"] live_read_short[OF assms(1), of "of_nat L"] L p
    by (auto simp: zstd_fse_init_state_def u unat_ucast_u64_u32)
qed

lemma decode_2state_contract:
  assumes t: "closed_table L cells" and r: "live_reader r" and cap: "unat cap \<le> length out"
  shows "wp (zstd_fse_decode_2state r cells (push_bit L 1) L out cap) (\<lambda>(res, r').
     if length (live_bits r) < 2 * L then res = Inl (CUDEC_ERR_CORRUPT_INPUT, kZstdFseRejectStateInitTruncated)
     else case two_state_spec (unat cap) cells (drop (2 * L) (live_bits r))
         (bits_value (take L (live_bits r))) (bits_value (take L (drop L (live_bits r)))) of
       None \<Rightarrow> res = Inl (CUDEC_ERR_OUTPUT_TOO_SMALL, kZstdFseRejectOutputFull)
     | Some xs \<Rightarrow> length xs \<le> unat cap \<and> res = Inr (length xs, xs @ drop (length xs) out))"
proof -
  have L: "log_ok L" using t by (simp add: closed_table_def)
  have guard: "\<not> (L < 5 \<or> 15 < L)" using L by (auto simp: log_ok_def)
  have def: "zstd_fse_decode_2state r cells (push_bit L 1) L out cap = do {
        (res, reader) \<leftarrow> zstd_fse_init_state r L;
        case res of
          Inl e \<Rightarrow> Some (Inl e, reader)
        | Inr first \<Rightarrow> do {
            (res, reader) \<leftarrow> zstd_fse_init_state reader L;
            case res of
              Inl e \<Rightarrow> Some (Inl e, reader)
            | Inr second \<Rightarrow>
                fse_two_state_loop (unat cap) 0 (unat cap) cells (push_bit L 1) 0 first second out reader
          } }"
    using guard by (simp add: zstd_fse_decode_2state_def fse_consts del: push_bit_of_1)
  show ?thesis
  proof (cases "L \<le> length (live_bits r)")
    case False
    then obtain r' where "zstd_fse_init_state r L = Some (Inl (CUDEC_ERR_CORRUPT_INPUT, kZstdFseRejectStateInitTruncated), r')"
      using init_state_contract[OF r L] by auto
    then show ?thesis using False unfolding def by (simp add: wp_rules)
  next
    case True
    then obtain s1 r1 where s1: "zstd_fse_init_state r L = Some (Inr s1, r1)" "live_reader r1" "unat s1 < 2 ^ L"
        "unat s1 = bits_value (take L (live_bits r))" "live_bits r1 = drop L (live_bits r)"
      using init_state_contract[OF r L] by auto
    show ?thesis
    proof (cases "L \<le> length (live_bits r1)")
      case False
      then obtain r' where "zstd_fse_init_state r1 L = Some (Inl (CUDEC_ERR_CORRUPT_INPUT, kZstdFseRejectStateInitTruncated), r')"
        using init_state_contract[OF s1(2) L] by auto
      then show ?thesis using False s1 \<open>L \<le> length (live_bits r)\<close> unfolding def by (auto simp: wp_rules)
    next
      case True
      then obtain s2 r2 where s2: "zstd_fse_init_state r1 L = Some (Inr s2, r2)" "live_reader r2" "unat s2 < 2 ^ L"
          "unat s2 = bits_value (take L (live_bits r1))" "live_bits r2 = drop L (live_bits r1)"
        using init_state_contract[OF s1(2) L] by auto
      have "wp (fse_two_state_loop (unat cap) 0 (unat cap) cells (push_bit L 1) 0 s1 s2 out r2) (\<lambda>(res, r').
         reader_ok r' \<and> (case two_state_spec (unat cap) cells (live_bits r2)
             (unat (if 0 mod 2 = (0::nat) then s1 else s2)) (unat (if 0 mod 2 = (0::nat) then s2 else s1)) of
           None \<Rightarrow> res = Inl (CUDEC_ERR_OUTPUT_TOO_SMALL, kZstdFseRejectOutputFull)
         | Some xs \<Rightarrow> (\<exists>out'. res = Inr (0 + length xs, out') \<and> length xs \<le> unat cap \<and> length out' = length out \<and>
             out' = take 0 out @ xs @ drop (0 + length xs) out)))"
        using s1 s2 cap by (intro two_state_loop_contract[OF t]) auto
      then show ?thesis unfolding def s1(1) using True s1 s2 guard
        by (simp add: s2(1)) (erule wp_mono, auto simp: mult_2 split: option.splits)
    qed
  qed
qed

end
