(* ===== verification/Zstd_Properties.thy ===== *)
theory Zstd_Properties
  imports Zstd_Bitstream Zstd_Repcode Zstd_Fse_Table Zstd_Fse_Core
begin

text \<open>
  What the pieces of the Zstandard decoder promise, each over its own inputs: the bit reader is a
  list of bits, the repeated offsets are the table of the format, the FSE tables are exact.
\<close>

section \<open>The backward bit reader\<close>

text \<open>C16: a read takes the next bits of the stream - its bytes read as one bit string backwards from
  below the start marker - most significant first, and refuses, without touching them and returning
  zero, when it is too wide, not started or past the start; past the start it refuses for good.\<close>

theorem bit_reader_refines_list:
  assumes "reader_ok r"
  shows "wp (zstd_read_bits count r) (\<lambda>(st, v, r'). reader_ok r' \<and>
     (if \<not> overrun r \<and> started r \<and> count \<le> kZstdBitReadMax \<and> unat count \<le> length (live_bits r)
      then st = CUDEC_OK \<and> unat v = bits_value (take (unat count) (live_bits r)) \<and>
        live_bits r' = drop (unat count) (live_bits r) \<and> \<not> overrun r'
      else st = CUDEC_ERR_CORRUPT_INPUT \<and> v = 0 \<and> live_bits r' = live_bits r \<and>
        overrun r' = (overrun r \<or> started r \<and> count \<le> kZstdBitReadMax)))"
  by (rule wp_mono[OF read_bits_contract[OF assms]]) (auto simp: read_ok_def)

theorem bit_reader_refines_list_witness:
  "wp (zstd_read_bits 3 (zstd_bit_reader_init [0x9F] 1)) (\<lambda>(st, v, r'). reader_ok r')"
  using bit_reader_refines_list[of "zstd_bit_reader_init [0x9F] 1" 3]
  by (rule wp_mono) (auto simp: reader_ok_def zstd_bit_reader_init_def)

section \<open>Repeated offsets\<close>

text \<open>C33: resolving an offset value against a history of three non-zero offsets is the table of RFC
  8878, section 3.1.1.5: the offset it names and the history after it, or a refusal, with the
  history untouched, when the table gives zero.\<close>

theorem repcode_resolves_table:
  assumes "ov \<noteq> 0" "0 \<notin> {a, b, c}"
  shows "zstd_repcode_resolve (Some [a, b, c]) ov ll =
    (case repcode_spec (a, b, c) ov (ll \<noteq> 0) of (r, (a', b', c')) \<Rightarrow>
       if r = 0 then Some (CUDEC_ERR_CORRUPT_INPUT, 0, kZstdRepcodeRejectResolvedToZero, Some [a, b, c])
       else Some (CUDEC_OK, r, kZstdRepcodeRejectNone, Some [a', b', c']))"
  by (rule resolve_spec[OF assms])

theorem repcode_resolves_table_witness:
  "zstd_repcode_resolve (Some [1, 4, 8]) 3 0 =
     Some (CUDEC_ERR_CORRUPT_INPUT, 0, kZstdRepcodeRejectResolvedToZero, Some [1, 4, 8])"
  using repcode_resolves_table[of 3 1 4 8 0] by (simp add: repcode_spec_def)

text \<open>A run of resolutions, with every answer and the history after it.\<close>

fun repcode_run :: "zstd_repcode_history \<Rightarrow> (u64 \<times> u32) list \<Rightarrow>
    (cudec_status \<times> u64 \<times> zstd_repcode_history) list option" where
  "repcode_run h [] = Some []"
| "repcode_run h ((ov, ll) # rs) = do {
     (st, off, rej, h') \<leftarrow> zstd_repcode_resolve (Some h) ov ll;
     h2 \<leftarrow> h';
     answers \<leftarrow> repcode_run h2 rs;
     Some ((st, off, h2) # answers)
   }"

fun answers_well :: "zstd_repcode_history \<Rightarrow> (u64 \<times> u32) list \<Rightarrow> (cudec_status \<times> u64 \<times> zstd_repcode_history) list \<Rightarrow> bool" where
  "answers_well h ((ov, ll) # rs) ((st, off, h2) # answers) \<longleftrightarrow>
     length h2 = 3 \<and> 0 \<notin> set h2 \<and>
     (if ov = 0 then st = CUDEC_ERR_INVALID_ARGUMENT \<and> off = 0 \<and> h2 = h
      else if ov = 3 \<and> ll = 0 \<and> hd h = 1 then st = CUDEC_ERR_CORRUPT_INPUT \<and> off = 0 \<and> h2 = h
      else st = CUDEC_OK \<and> off \<noteq> 0 \<and> hd h2 = off) \<and>
     answers_well h2 rs answers"
| "answers_well h rs answers \<longleftrightarrow> rs = [] \<and> answers = []"

lemma repcode_run_ok: "history_ok h \<Longrightarrow> wp (repcode_run h rs) (answers_well h rs)"
proof (induction rs arbitrary: h)
  case (Cons r rs)
  obtain ov ll where r: "r = (ov, ll)" by (cases r)
  from resolve_contract[OF Cons.prems, of ov ll] obtain st off rej h2 where
    e: "zstd_repcode_resolve (Some h) ov ll = Some (st, off, rej, Some h2)" and h2: "history_ok h2"
    "st = CUDEC_OK \<longleftrightarrow> off \<noteq> 0" "st \<noteq> CUDEC_OK \<longrightarrow> h2 = h" "st = CUDEC_OK \<longrightarrow> hd h2 = off"
    "st = CUDEC_ERR_CORRUPT_INPUT \<longleftrightarrow> ov = 3 \<and> ll = 0 \<and> hd h = 1" "st = CUDEC_ERR_INVALID_ARGUMENT \<longleftrightarrow> ov = 0"
    by (auto elim!: wpE)
  have st: "st \<in> {CUDEC_OK, CUDEC_ERR_CORRUPT_INPUT, CUDEC_ERR_INVALID_ARGUMENT}"
    using e by (auto simp: zstd_repcode_resolve_def split: if_splits bind_splits)
  show ?case unfolding r repcode_run.simps e bind.bind_lunit prod.case
    by (rule wp_bindI[OF Cons.IH[OF h2(1)]]) (use h2 st in \<open>auto simp: wp_Some history_ok_def\<close>)
qed (simp add: wp_rules)

text \<open>C34: in any run of resolutions from the initial history, the history has three non-zero offsets
  after every step; a zero offset value is refused as an invalid argument, the third value on a front
  of one without literals as corrupt, both with the history as it was; every other request succeeds
  with a non-zero offset, which is then the front of the history.\<close>

theorem repcode_history_never_zero:
  "wp (repcode_run zstd_repcode_init rs) (answers_well [1, 4, 8] rs)"
  using repcode_run_ok[OF init_ok] by (simp add: zstd_repcode_init_def repcode_consts)

theorem repcode_history_never_zero_witness:
  "wp (repcode_run zstd_repcode_init [(9, 2), (2, 0), (0, 1)]) (\<lambda>answers. \<exists>o1 h1 o2 h2.
     answers = [(CUDEC_OK, o1, h1), (CUDEC_OK, o2, h2), (CUDEC_ERR_INVALID_ARGUMENT, 0, h2)] \<and> hd h1 = o1 \<and> hd h2 = o2)"
proof (rule wp_mono[OF repcode_history_never_zero])
  fix answers assume "answers_well [1, 4, 8] [(9, 2), (2, 0), (0, 1)] answers"
  then show "\<exists>o1 h1 o2 h2. answers = [(CUDEC_OK, o1, h1), (CUDEC_OK, o2, h2), (CUDEC_ERR_INVALID_ARGUMENT, 0, h2)] \<and>
      hd h1 = o1 \<and> hd h2 = o2"
    by (auto elim!: answers_well.elims)
qed

section \<open>FSE tables\<close>

text \<open>C28: the description reader answers on every input; what it accepts, for the accuracy logs the
  format uses, lies in the bytes given, has its log and its symbols inside the caller's bounds, and is
  normalized: every count is at least minus one and the magnitudes sum to exactly the table
  size.\<close>

theorem fse_description_normalized:
  assumes "n \<le> length s" "max_symbol_value < length counts" "max_accuracy_log \<le> 14"
  shows "wp (zstd_fse_read_ncount s n max_symbol_value max_accuracy_log counts) (\<lambda>res. case res of
     Inl (st, rej) \<Rightarrow> st \<in> {CUDEC_ERR_CORRUPT_INPUT, CUDEC_ERR_INVALID_ARGUMENT} \<and>
       (st = CUDEC_ERR_INVALID_ARGUMENT \<longleftrightarrow> max_symbol_value > 255 \<or> max_accuracy_log < 5)
   | Inr d \<Rightarrow> fd_max_symbol d \<le> max_symbol_value \<and> 5 \<le> fd_accuracy_log d \<and>
       fd_accuracy_log d \<le> max_accuracy_log \<and> fd_consumed d \<le> n \<and>
       normalized (fd_counts d) (fd_max_symbol d) (fd_accuracy_log d) \<and>
       (\<forall>i\<le>max_symbol_value. fd_max_symbol d < i \<longrightarrow> fd_counts d ! i = 0))"
  by (rule read_ncount_contract[OF assms])

theorem fse_description_normalized_witness:
  "wp (zstd_fse_read_ncount [0xF0, 0x03] 2 1 9 [0, 0]) (\<lambda>res. case res of
     Inl (st, rej) \<Rightarrow> st \<noteq> CUDEC_OK | Inr d \<Rightarrow> fd_accuracy_log d \<le> 9)"
  using fse_description_normalized[of 2 "[0xF0, 0x03]" 1 "[0, 0]" 9]
  by (rule wp_mono) (auto split: sum.splits)


lemma fse_overflow_refused:
  assumes "2 ^ 15 \<le> unat cap" "unat cap \<le> length cells" "0 < length sn"
  shows "zstd_fse_build_dtable [- 32768] 0 15 cells cap sn = Some (Inl (CUDEC_ERR_CORRUPT_INPUT, kZstdFseRejectBuildCountsNotNormalized))"
proof -
  have "\<not> normalized [- 32768] 0 15" by (simp add: normalized_def)
  then have "wp (zstd_fse_build_dtable [- 32768] 0 15 cells cap sn) (\<lambda>res. res = Inl (CUDEC_ERR_CORRUPT_INPUT, kZstdFseRejectBuildCountsNotNormalized))"
    by (intro wp_mono[OF build_dtable_contract]) (use assms in \<open>auto simp: log_ok_def split: sum.splits\<close>)
  then show ?thesis by (auto elim: wpE)
qed

text \<open>C12: the table build, on a count vector of 16-bit values and buffers of the sizes it is told,
  accepts exactly the normalized vectors. The table it writes is the one of the format, cell by cell: the
  symbols of probability less than one at the top, downwards, the others in the order in which the stride
  comes to the cells below, each as often as its magnitude, and every cell with the bit count and the next
  state its place among the cells of its symbol gives it. No other table has these cells, and the cells past the table are kept.\<close>

theorem fse_build_exact:
  assumes "5 \<le> L" "L \<le> 15" "mx \<le> 255" "mx < length counts" "mx < length sn"
    and "2 ^ L \<le> unat cap" "unat cap \<le> length cells" "\<forall>t\<le>mx. counts ! t < 32768"
  shows "wp (zstd_fse_build_dtable counts mx L cells cap sn) (\<lambda>res. case res of
     Inl e \<Rightarrow> e = (CUDEC_ERR_CORRUPT_INPUT, kZstdFseRejectBuildCountsNotNormalized) \<and> \<not> normalized counts mx L
   | Inr cells' \<Rightarrow> normalized counts mx L \<and> length cells' = length cells \<and> table_ok counts mx L cells' \<and>
       drop (2 ^ L) cells' = drop (2 ^ L) cells \<and> (\<forall>other. table_ok counts mx L other \<longrightarrow> take (2 ^ L) other = take (2 ^ L) cells'))"
proof -
  have "log_ok L" using assms(1,2) by (simp add: log_ok_def)
  from build_dtable_contract[OF this assms(3-8)] show ?thesis
  proof (rule wp_mono, goal_cases)
    case (1 x)
    show ?case
    proof (cases x)
      case (Inr cells')
      have "take (2 ^ L) other = take (2 ^ L) cells'" if "table_ok counts mx L other" for other
        using 1 that unfolding Inr sum.case by (intro table_ok_take[of counts mx]) (use assms(1) in blast)+
      then show ?thesis using 1 unfolding Inr sum.case by blast
    qed (use 1 in simp)
  qed
qed

abbreviation blank_cell :: zstd_fse_cell where
  "blank_cell \<equiv> \<lparr>fc_new_state = 0, fc_symbol = 0, fc_nb_bits = 0\<rparr>"

theorem fse_build_exact_witness:
  "wp (zstd_fse_build_dtable [31, - 1] 1 5 (replicate 32 blank_cell) 32 [0, 0]) (\<lambda>res. case res of
     Inl e \<Rightarrow> \<not> normalized [31, - 1] 1 5
   | Inr cells' \<Rightarrow> normalized [31, - 1] 1 5 \<and> length cells' = 32)"
  using fse_build_exact[of 5 1 "[31, - 1]" "[0, 0]" 32 "replicate 32 blank_cell"]
  by (rule wp_mono) (auto simp: le_Suc_eq split: sum.splits)

text \<open>C30: the build accepts every normalized vector, and in the table it has then written the
  automaton run backwards is deterministic: for every symbol that occurs and every state of the table,
  exactly one cell of that symbol leads to that state, with exactly one value of its bits. A decoder
  step inverts exactly one encoder step.\<close>

theorem fse_table_unique_predecessor:
  assumes "5 \<le> L" "L \<le> 15" "mx \<le> 255" "mx < length counts" "mx < length sn"
    and "2 ^ L \<le> unat cap" "unat cap \<le> length cells" "\<forall>t\<le>mx. counts ! t < 32768"
  shows "wp (zstd_fse_build_dtable counts mx L cells cap sn) (\<lambda>res. case res of
     Inl _ \<Rightarrow> \<not> normalized counts mx L
   | Inr tab \<Rightarrow> \<forall>s t. s \<le> mx \<and> counts ! s \<noteq> 0 \<and> t < 2 ^ L \<longrightarrow>
       (\<exists>!c. c < 2 ^ L \<and> cell_symbol tab c = s \<and> unat (fc_new_state (tab ! c)) \<le> t \<and>
          t < unat (fc_new_state (tab ! c)) + 2 ^ unat (fc_nb_bits (tab ! c))))"
proof -
  have "log_ok L" using assms(1,2) by (simp add: log_ok_def)
  from build_dtable_contract[OF this assms(3-8)] show ?thesis
  proof (rule wp_mono, goal_cases)
    case (1 x)
    show ?case
    proof (cases x)
      case (Inr tab)
      then have ok: "table_ok counts mx L tab" "normalized counts mx L" using 1 by simp_all
      show ?thesis unfolding Inr sum.case
      proof (intro allI impI, elim conjE)
        fix s t :: nat assume "s \<le> mx" "counts ! s \<noteq> 0" "t < 2 ^ L"
        then show "\<exists>!c. c < 2 ^ L \<and> cell_symbol tab c = s \<and> unat (fc_new_state (tab ! c)) \<le> t \<and>
            t < unat (fc_new_state (tab ! c)) + 2 ^ unat (fc_nb_bits (tab ! c))"
          using ok by (intro table_predecessor) (auto simp: normalized_def magnitude_def nat_le_iff)
      qed
    qed (use 1 in \<open>simp split: prod.splits\<close>)
  qed
qed

theorem fse_table_unique_predecessor_witness:
  "wp (zstd_fse_build_dtable [31, - 1] 1 5 (replicate 32 blank_cell) 32 [0, 0]) (\<lambda>res. case res of
     Inl _ \<Rightarrow> False
   | Inr tab \<Rightarrow> \<exists>!c. c < 32 \<and> cell_symbol tab c = 1 \<and> unat (fc_new_state (tab ! c)) \<le> 7 \<and>
       7 < unat (fc_new_state (tab ! c)) + 2 ^ unat (fc_nb_bits (tab ! c)))"
proof -
  have n: "normalized [31, - 1] 1 5" by (simp add: normalized_def magnitude_def nth_Cons' le_Suc_eq)
  have c: "[31, - 1] ! t < (32768 :: int)" if "t \<le> 1" for t using that by (cases t) auto
  show ?thesis
  proof (rule wp_mono[OF fse_table_unique_predecessor], goal_cases)
    case (9 res)
    show ?case
    proof (cases res)
      case (Inr tab)
      show ?thesis using 9[unfolded Inr sum.case, rule_format, of 1 7] unfolding Inr sum.case by simp
    qed (use 9 n in simp)
  qed (use c in auto)
qed

section \<open>The two-state run\<close>

text \<open>C13: with a table whose states stay inside it, the two interleaved states give exactly the symbols
  of the specification, which walks the remaining bits as a list: two states initialised in order, a
  symbol and a step from each in turn until a step cannot be paid for, then the other state's
  symbol. A stream too short for the two states is corrupt, and one that gives more symbols than
  the output holds is reported as such; the run always ends.\<close>

theorem fse_two_state_exact:
  assumes "closed_table L cells" "live_reader r" "unat cap \<le> length out"
  shows "wp (zstd_fse_decode_2state r cells (push_bit L 1) L out cap) (\<lambda>(res, r').
     if length (live_bits r) < 2 * L then res = Inl (CUDEC_ERR_CORRUPT_INPUT, kZstdFseRejectStateInitTruncated)
     else case two_state_spec (unat cap) cells (drop (2 * L) (live_bits r))
         (bits_value (take L (live_bits r))) (bits_value (take L (drop L (live_bits r)))) of
       None \<Rightarrow> res = Inl (CUDEC_ERR_OUTPUT_TOO_SMALL, kZstdFseRejectOutputFull)
     | Some xs \<Rightarrow> length xs \<le> unat cap \<and> res = Inr (length xs, xs @ drop (length xs) out))"
  by (rule decode_2state_contract[OF assms])

theorem fse_two_state_exact_witness:
  "wp (zstd_fse_decode_2state \<lparr>br_src = [0, 0, 1], br_size = 3, bits_total = 16, bits_read = 0, marker_bits = 0, started = True,
       overrun = False, br_reject = kZstdBitRejectNone\<rparr>
      (replicate 32 \<lparr>fc_new_state = 3, fc_symbol = 7, fc_nb_bits = 1\<rparr>) 32 5 [0, 0, 0] 3)
     (\<lambda>(res, r'). res = Inl (CUDEC_ERR_OUTPUT_TOO_SMALL, kZstdFseRejectOutputFull))"
proof -
  let ?r = "\<lparr>br_src = [0, 0, 1], br_size = 3, bits_total = 16, bits_read = 0, marker_bits = 0, started = True,
       overrun = False, br_reject = kZstdBitRejectNone\<rparr>"
  have r: "live_reader ?r" 
  proof -
    have "zstd_highest_set_bit 1 = 0" by code_simp
    then show ?thesis by (simp add: live_reader_def reader_ok_def)
  qed
  have t: "closed_table 5 (replicate 32 \<lparr>fc_new_state = 3, fc_symbol = 7, fc_nb_bits = 1\<rparr>)"
    by (simp add: closed_table_def log_ok_def)
  have l: "length (live_bits ?r) = 16" by code_simp
  have s: "two_state_spec 3 (replicate 32 \<lparr>fc_new_state = 3, fc_symbol = 7, fc_nb_bits = 1\<rparr>) (drop 10 (live_bits ?r))
      (bits_value (take 5 (live_bits ?r))) (bits_value (take 5 (drop 5 (live_bits ?r)))) = None" by code_simp
  have z: "(32::u32) = push_bit 5 1" by simp
  have u: "unat (3::u64) = 3" "2 * (5::nat) = 10" by simp_all
  show ?thesis unfolding z by (rule wp_mono[OF fse_two_state_exact[OF t r]]) (auto simp: l s u split: if_splits)
qed

end
