(* ===== verification/Xxhash64.thy ===== *)
theory Xxhash64
  imports Prelude
begin

text \<open>
  XXH64, \<open>src/xxhash64.h\<close>, as the content checksum of a Zstandard frame uses it, and the
  specification of xxHash, written out over natural numbers with its own constants. A pointer is a position in the buffer; the code's counted loops
  are recursions on their counts.
\<close>

definition kXxh64Prime1 :: u64 where "kXxh64Prime1 = 11400714785074694791"
definition kXxh64Prime2 :: u64 where "kXxh64Prime2 = 14029467366897019727"
definition kXxh64Prime3 :: u64 where "kXxh64Prime3 = 1609587929392839161"
definition kXxh64Prime4 :: u64 where "kXxh64Prime4 = 9650029242287828579"
definition kXxh64Prime5 :: u64 where "kXxh64Prime5 = 2870177450012600261"
definition kXxh64AccumulatorBits :: nat where "kXxh64AccumulatorBits = 64"
definition kXxh64StripeBytes :: nat where "kXxh64StripeBytes = 32"
definition kXxh64FinalShift :: nat where "kXxh64FinalShift = 32"
definition kXxh64LaneBytes :: nat where "kXxh64LaneBytes = 8"
definition kXxh64HalfLaneBytes :: nat where "kXxh64HalfLaneBytes = 4"

lemmas xxh64_sizes = kXxh64StripeBytes_def kXxh64LaneBytes_def kXxh64HalfLaneBytes_def

definition xxh64_rotl :: "u64 \<Rightarrow> nat \<Rightarrow> u64" where
  "xxh64_rotl x r = push_bit r x OR drop_bit (kXxh64AccumulatorBits - r) x"

fun xxh64_gather :: "u8 list \<Rightarrow> nat \<Rightarrow> nat list \<Rightarrow> u64 \<Rightarrow> u64 option" where
  "xxh64_gather data p [] v = Some v"
| "xxh64_gather data p (i # is) v = do {
     b \<leftarrow> at data (p + i);
     xxh64_gather data p is (v OR push_bit (8 * i) (ucast b))
   }"

definition xxh64_read64 :: "u8 list \<Rightarrow> nat \<Rightarrow> u64 option" where
  "xxh64_read64 data p = xxh64_gather data p [0..<kXxh64LaneBytes] 0"

definition xxh64_read32 :: "u8 list \<Rightarrow> nat \<Rightarrow> u64 option" where
  "xxh64_read32 data p = xxh64_gather data p [0..<kXxh64HalfLaneBytes] 0"

definition xxh64_round :: "u64 \<Rightarrow> u64 \<Rightarrow> u64" where
  "xxh64_round acc input = xxh64_rotl (acc + input * kXxh64Prime2) 31 * kXxh64Prime1"

definition xxh64_merge_round :: "u64 \<Rightarrow> u64 \<Rightarrow> u64" where
  "xxh64_merge_round acc v = (acc XOR xxh64_round 0 v) * kXxh64Prime1 + kXxh64Prime4"

type_synonym xxh64_lanes = "u64 \<times> u64 \<times> u64 \<times> u64"

fun xxh64_stripe_loop :: "u8 list \<Rightarrow> nat \<Rightarrow> nat \<Rightarrow> nat \<Rightarrow> xxh64_lanes \<Rightarrow> (xxh64_lanes \<times> nat) option" where
  "xxh64_stripe_loop data p 0 offset vs = Some (vs, offset)"
| "xxh64_stripe_loop data p (Suc stripes) offset (v1, v2, v3, v4) = do {
     a \<leftarrow> xxh64_read64 data (p + offset);
     b \<leftarrow> xxh64_read64 data (p + offset + kXxh64LaneBytes);
     c \<leftarrow> xxh64_read64 data (p + offset + 2 * kXxh64LaneBytes);
     d \<leftarrow> xxh64_read64 data (p + offset + 3 * kXxh64LaneBytes);
     xxh64_stripe_loop data p stripes (offset + kXxh64StripeBytes)
       (xxh64_round v1 a, xxh64_round v2 b, xxh64_round v3 c, xxh64_round v4 d)
   }"

definition xxh64_merge :: "xxh64_lanes \<Rightarrow> u64" where
  "xxh64_merge = (\<lambda>(v1, v2, v3, v4).
     let hash = xxh64_rotl v1 1 + xxh64_rotl v2 7 + xxh64_rotl v3 12 + xxh64_rotl v4 18;
         hash = xxh64_merge_round hash v1; hash = xxh64_merge_round hash v2;
         hash = xxh64_merge_round hash v3
     in xxh64_merge_round hash v4)"

definition xxh64_lanes_init :: xxh64_lanes where
  "xxh64_lanes_init = (kXxh64Prime1 + kXxh64Prime2, kXxh64Prime2, 0, 0 - kXxh64Prime1)"

definition xxh64_lane_step :: "u64 \<Rightarrow> u64 \<Rightarrow> u64" where
  "xxh64_lane_step hash lane =
     xxh64_rotl (hash XOR xxh64_round 0 lane) 27 * kXxh64Prime1 + kXxh64Prime4"

fun xxh64_lane_loop :: "u8 list \<Rightarrow> nat \<Rightarrow> nat \<Rightarrow> nat \<Rightarrow> u64 \<Rightarrow> (u64 \<times> nat) option" where
  "xxh64_lane_loop data p 0 offset hash = Some (hash, offset)"
| "xxh64_lane_loop data p (Suc lanes) offset hash = do {
     lane \<leftarrow> xxh64_read64 data (p + offset);
     xxh64_lane_loop data p lanes (offset + kXxh64LaneBytes) (xxh64_lane_step hash lane)
   }"

definition xxh64_half_step :: "u64 \<Rightarrow> u64 \<Rightarrow> u64" where
  "xxh64_half_step hash half =
     xxh64_rotl (hash XOR half * kXxh64Prime1) 23 * kXxh64Prime2 + kXxh64Prime3"

definition xxh64_byte_step :: "u64 \<Rightarrow> u8 \<Rightarrow> u64" where
  "xxh64_byte_step hash b = xxh64_rotl (hash XOR ucast b * kXxh64Prime5) 11 * kXxh64Prime1"

fun xxh64_byte_loop :: "u8 list \<Rightarrow> nat \<Rightarrow> nat list \<Rightarrow> u64 \<Rightarrow> u64 option" where
  "xxh64_byte_loop data q [] hash = Some hash"
| "xxh64_byte_loop data q (i # is) hash = do {
     b \<leftarrow> at data (q + i);
     xxh64_byte_loop data q is (xxh64_byte_step hash b)
   }"

definition xxh64_avalanche :: "u64 \<Rightarrow> u64" where
  "xxh64_avalanche hash =
     (let hash = hash XOR drop_bit 33 hash; hash = hash * kXxh64Prime2;
          hash = hash XOR drop_bit 29 hash; hash = hash * kXxh64Prime3
      in hash XOR drop_bit kXxh64FinalShift hash)"

definition xxh64 :: "u8 list \<Rightarrow> nat \<Rightarrow> u64 \<Rightarrow> u64 option" where
  "xxh64 data p len = do {
     let stripes = unat len div kXxh64StripeBytes;
     (hash, offset) \<leftarrow> (if stripes \<noteq> 0 then do {
         (vs, offset) \<leftarrow> xxh64_stripe_loop data p stripes 0 xxh64_lanes_init;
         Some (xxh64_merge vs, offset)
       } else Some (kXxh64Prime5, 0));
     let hash = hash + len;
     let tail_lanes = (unat len - offset) div kXxh64LaneBytes;
     (hash, offset) \<leftarrow> xxh64_lane_loop data p tail_lanes offset hash;
     (hash, offset) \<leftarrow> (if unat len - offset \<ge> kXxh64HalfLaneBytes then do {
         half \<leftarrow> xxh64_read32 data (p + offset);
         Some (xxh64_half_step hash half, offset + kXxh64HalfLaneBytes)
       } else Some (hash, offset));
     hash \<leftarrow> xxh64_byte_loop data (p + offset) [0..<unat len - offset] hash;
     Some (xxh64_avalanche hash)
   }"

section \<open>The loops without offsets\<close>

definition le64 :: "u8 list \<Rightarrow> u64" where
  "le64 xs = of_nat (le_nat (take 8 xs))"

definition half64 :: "u8 list \<Rightarrow> u64" where
  "half64 xs = of_nat (le_nat (take 4 xs))"

function ref64_stripes :: "xxh64_lanes \<Rightarrow> u8 list \<Rightarrow> xxh64_lanes \<times> u8 list" where
  "ref64_stripes vs xs =
     (if length xs < 32 then (vs, xs)
      else let (v1, v2, v3, v4) = vs in
        ref64_stripes (xxh64_round v1 (le64 xs), xxh64_round v2 (le64 (drop 8 xs)),
          xxh64_round v3 (le64 (drop 16 xs)), xxh64_round v4 (le64 (drop 24 xs))) (drop 32 xs))"
  by pat_completeness auto
termination
  by (relation "measure (\<lambda>(_, xs). length xs)") auto

function ref64_lanes :: "u64 \<Rightarrow> u8 list \<Rightarrow> u64 \<times> u8 list" where
  "ref64_lanes h xs =
     (if length xs < 8 then (h, xs) else ref64_lanes (xxh64_lane_step h (le64 xs)) (drop 8 xs))"
  by pat_completeness auto
termination
  by (relation "measure (\<lambda>(_, xs). length xs)") auto

declare ref64_stripes.simps [simp del] ref64_lanes.simps [simp del]

definition xxh64_steps :: "u8 list \<Rightarrow> u64" where
  "xxh64_steps xs =
     (let (vs, ys) = ref64_stripes xxh64_lanes_init xs;
          h = (if length xs \<ge> 32 then xxh64_merge vs else kXxh64Prime5) + of_nat (length xs);
          (h, ys) = ref64_lanes h ys;
          (h, ys) = (if length ys \<ge> 4 then (xxh64_half_step h (half64 ys), drop 4 ys) else (h, ys))
      in xxh64_avalanche (foldl xxh64_byte_step h ys))"

section \<open>The loops compute it\<close>

lemma le_nat_snoc: "le_nat (bs @ [b]) = le_nat bs + unat b * 256 ^ length bs"
  by (induction bs) (auto simp: algebra_simps)

lemma gather_le:
  assumes "i \<le> n" "n \<le> 8" "p + n \<le> length data" "unat v = le_nat (take i (drop p data))"
  shows "\<exists>v'. xxh64_gather data p [i..<n] v = Some v' \<and> unat v' = le_nat (take n (drop p data))"
  using assms
proof (induction "n - i" arbitrary: i v)
  case (Suc k)
  then have lt: "i < n" by simp
  let ?b = "data ! (p + i)"
  have l: "length (take i (drop p data)) = i" using Suc.prems lt by simp
  have "le_nat (take i (drop p data)) < 256 ^ i" using le_nat_less[of "take i (drop p data)"] by (simp only: l)
  then have v: "unat v < 2 ^ (8 * i)" using Suc.prems(4) by (simp add: power_mult)
  have "8 * i + 8 \<le> 64" using lt Suc.prems(2) by simp
  then have "unat (v OR push_bit (8 * i) (ucast ?b)) = unat v + unat ?b * 2 ^ (8 * i)"
    using v by (intro unat_or_push_byte) simp_all
  also have "\<dots> = le_nat (take (Suc i) (drop p data))"
    using Suc.prems lt le_nat_snoc[of "take i (drop p data)" ?b]
    by (simp add: take_Suc_conv_app_nth l power_mult)
  finally have s: "unat (v OR push_bit (8 * i) (ucast ?b)) = le_nat (take (Suc i) (drop p data))" .
  have "k = n - Suc i" "Suc i \<le> n" using Suc.hyps(2) lt by simp_all
  from Suc.hyps(1)[OF this Suc.prems(2,3) s] show ?case
    using lt Suc.prems(3) by (simp add: upt_conv_Cons at_def)
qed simp

lemma read64_le: "p + 8 \<le> length data \<Longrightarrow> xxh64_read64 data p = Some (le64 (drop p data))"
  using gather_le[of 0 8 p data 0]
  by (auto simp: xxh64_read64_def xxh64_sizes le64_def)
    (metis of_nat_unat ucast_id)

lemma read32_le: "p + 4 \<le> length data \<Longrightarrow> xxh64_read32 data p = Some (half64 (drop p data))"
  using gather_le[of 0 4 p data 0]
  by (auto simp: xxh64_read32_def xxh64_sizes half64_def)
    (metis of_nat_unat ucast_id)


text \<open>The bytes hashed, and what a lane read inside them is.\<close>

definition window :: "u8 list \<Rightarrow> nat \<Rightarrow> nat \<Rightarrow> u8 list" where
  "window data p n = take n (drop p data)"

lemma window_read:
  assumes "p + n \<le> length data"
  shows "offset + 8 \<le> n \<Longrightarrow> xxh64_read64 data (p + offset) = Some (le64 (drop offset (window data p n)))"
    "offset + 4 \<le> n \<Longrightarrow> xxh64_read32 data (p + offset) = Some (half64 (drop offset (window data p n)))"
    "offset < n \<Longrightarrow> at data (p + offset) = Some (window data p n ! offset)"
    "length (window data p n) = n"
  using assms by (auto simp: read64_le read32_le window_def le64_def half64_def drop_take at_def add.commute)

lemma stripe_loop_ref64:
  assumes "p + n \<le> length data" "offset + 32 * k \<le> n" "n < offset + 32 * k + 32"
  shows "xxh64_stripe_loop data p k offset vs =
     Some (fst (ref64_stripes vs (drop offset (window data p n))), offset + 32 * k) \<and>
   snd (ref64_stripes vs (drop offset (window data p n))) = drop (offset + 32 * k) (window data p n)"
  using assms(2,3)
proof (induction k arbitrary: offset vs)
  case 0
  then have "length (drop offset (window data p n)) < 32" by (auto simp: window_read(4)[OF assms(1)])
  then show ?case by (simp add: ref64_stripes.simps[of vs])
next
  case (Suc k)
  obtain v1 v2 v3 v4 where vs: "vs = (v1, v2, v3, v4)" by (cases vs)
  note rd = window_read(1)[OF assms(1)]
  have "\<not> length (drop offset (window data p n)) < 32" using Suc.prems by (simp add: window_read(4)[OF assms(1)])
  then have "ref64_stripes vs (drop offset (window data p n)) = ref64_stripes
      (xxh64_round v1 (le64 (drop offset (window data p n))), xxh64_round v2 (le64 (drop (offset + 8) (window data p n))),
       xxh64_round v3 (le64 (drop (offset + 16) (window data p n))), xxh64_round v4 (le64 (drop (offset + 24) (window data p n))))
      (drop (offset + 32) (window data p n))"
    unfolding vs by (subst ref64_stripes.simps) (simp add: add.commute)
  then show ?case
    using Suc.IH[of "offset + 32"] Suc.prems rd[of offset] rd[of "offset + 8"] rd[of "offset + 16"] rd[of "offset + 24"]
    by (simp add: vs xxh64_sizes add.assoc algebra_simps)
qed

lemma lane_loop_ref64:
  assumes "p + n \<le> length data" "offset + 8 * k \<le> n" "n < offset + 8 * k + 8"
  shows "xxh64_lane_loop data p k offset h =
     Some (fst (ref64_lanes h (drop offset (window data p n))), offset + 8 * k) \<and>
   snd (ref64_lanes h (drop offset (window data p n))) = drop (offset + 8 * k) (window data p n)"
  using assms(2,3)
proof (induction k arbitrary: offset h)
  case 0
  then have "length (drop offset (window data p n)) < 8" by (auto simp: window_read(4)[OF assms(1)])
  then show ?case by (simp add: ref64_lanes.simps[of h])
next
  case (Suc k)
  have "ref64_lanes h (drop offset (window data p n)) =
      ref64_lanes (xxh64_lane_step h (le64 (drop offset (window data p n)))) (drop (offset + 8) (window data p n))"
    using Suc.prems by (subst ref64_lanes.simps) (auto simp: window_read(4)[OF assms(1)] add.commute)
  then show ?case using Suc.IH[of "offset + 8"] Suc.prems window_read(1)[OF assms(1), of offset]
    by (simp add: xxh64_sizes algebra_simps)
qed

lemma byte_loop_ref64:
  assumes "p + n \<le> length data" "offset \<le> n" "i \<le> n - offset"
  shows "xxh64_byte_loop data (p + offset) [i..<n - offset] h =
     Some (foldl xxh64_byte_step h (drop (offset + i) (window data p n)))"
  using assms(3)
proof (induction "n - offset - i" arbitrary: i h)
  case 0
  then show ?case by (simp add: window_read(4)[OF assms(1)])
next
  case (Suc k)
  then have lt: "i < n - offset" by simp
  then have "drop (offset + i) (window data p n) = window data p n ! (offset + i) # drop (offset + Suc i) (window data p n)"
    by (simp add: Cons_nth_drop_Suc window_read(4)[OF assms(1)])
  moreover have "k = n - offset - Suc i" "Suc i \<le> n - offset" using Suc.hyps(2) lt by simp_all
  ultimately show ?case using Suc.hyps(1) lt window_read(3)[OF assms(1), of "offset + i"]
    by (simp add: upt_conv_Cons add.assoc)
qed

lemma xxh64_computes_steps:
  assumes "p + unat len \<le> length data"
  shows "xxh64 data p len = Some (xxh64_steps (take (unat len) (drop p data)))"
proof -
  let ?n = "unat len" and ?xs = "window data p (unat len)"
  let ?o1 = "32 * (?n div 32)"
  have "?o1 + ?n mod 32 = ?n" "?n mod 32 < 32" by simp_all
  then have o1: "?o1 \<le> ?n" "?n < ?o1 + 32" by linarith+
  note lenx = window_read(4)[OF assms]
  define H where "H = (if ?n \<ge> 32 then xxh64_merge (fst (ref64_stripes xxh64_lanes_init ?xs)) else kXxh64Prime5)"
  have st: "(if ?n div kXxh64StripeBytes \<noteq> 0 then do {
         (vs, offset) \<leftarrow> xxh64_stripe_loop data p (?n div kXxh64StripeBytes) 0 xxh64_lanes_init;
         Some (xxh64_merge vs, offset)
       } else Some (kXxh64Prime5, 0)) = Some (H, ?o1)"
    using stripe_loop_ref64[OF assms, of 0 "?n div 32" xxh64_lanes_init] o1 by (simp add: H_def xxh64_sizes div_eq_0_iff)
  have sn: "snd (ref64_stripes xxh64_lanes_init ?xs) = drop ?o1 ?xs"
    using stripe_loop_ref64[OF assms, of 0 "?n div 32" xxh64_lanes_init] o1 by simp
  let ?o2 = "?o1 + 8 * ((?n - ?o1) div 8)"
  have "8 * ((?n - ?o1) div 8) + (?n - ?o1) mod 8 = ?n - ?o1" "(?n - ?o1) mod 8 < 8" by simp_all
  then have o2: "?o2 \<le> ?n" "?n < ?o2 + 8" using o1 by linarith+
  define L where "L = ref64_lanes (H + len) (drop ?o1 ?xs)"
  have ln: "xxh64_lane_loop data p ((?n - ?o1) div kXxh64LaneBytes) ?o1 (H + len) = Some (fst L, ?o2)" "snd L = drop ?o2 ?xs"
    using lane_loop_ref64[OF assms o2, of "H + len"] by (simp_all add: L_def xxh64_sizes)
  define o3 where "o3 = (if ?n - ?o2 \<ge> 4 then ?o2 + 4 else ?o2)"
  define h3 where "h3 = (if ?n - ?o2 \<ge> 4 then xxh64_half_step (fst L) (half64 (drop ?o2 ?xs)) else fst L)"
  have hf: "(if ?n - ?o2 \<ge> kXxh64HalfLaneBytes then do {
         half \<leftarrow> xxh64_read32 data (p + ?o2);
         Some (xxh64_half_step (fst L) half, ?o2 + kXxh64HalfLaneBytes)
       } else Some (fst L, ?o2)) = Some (h3, o3)"
    using window_read(2)[OF assms, of ?o2] by (simp add: h3_def o3_def xxh64_sizes)
  have o3: "o3 \<le> ?n" using o2 unfolding o3_def by (cases "4 \<le> ?n - ?o2") (simp_all only: if_True if_False, linarith+)
  have "xxh64 data p len = Some (xxh64_avalanche (foldl xxh64_byte_step h3 (drop o3 ?xs)))"
    unfolding xxh64_def Let_def st using ln(1) hf byte_loop_ref64[OF assms o3, of 0 h3]
    by simp
  also have "\<dots> = Some (xxh64_steps ?xs)"
    unfolding xxh64_steps_def Let_def split_beta lenx sn H_def[symmetric]
    by (simp add: L_def[symmetric] ln(2) lenx h3_def o3_def add.commute[of 4])
  finally show ?thesis by (simp add: window_def)
qed

section \<open>The specification\<close>

definition add64 :: "nat \<Rightarrow> nat \<Rightarrow> nat" where "add64 a b = (a + b) mod 2 ^ 64"
definition mul64 :: "nat \<Rightarrow> nat \<Rightarrow> nat" where "mul64 a b = a * b mod 2 ^ 64"
definition rot64 :: "nat \<Rightarrow> nat \<Rightarrow> nat" where "rot64 r x = x * 2 ^ r mod 2 ^ 64 + x div 2 ^ (64 - r)"

definition spec64_round :: "nat \<Rightarrow> nat \<Rightarrow> nat" where
  "spec64_round acc lane = mul64 (rot64 31 (add64 acc (mul64 lane 0xC2B2AE3D27D4EB4F))) 0x9E3779B185EBCA87"

definition spec64_merge :: "nat \<Rightarrow> nat \<Rightarrow> nat" where
  "spec64_merge acc v = add64 (mul64 (acc XOR spec64_round 0 v) 0x9E3779B185EBCA87) 0x85EBCA77C2B2AE63"

fun spec64_stripes :: "nat \<Rightarrow> nat \<times> nat \<times> nat \<times> nat \<Rightarrow> u8 list \<Rightarrow> nat \<times> nat \<times> nat \<times> nat" where
  "spec64_stripes 0 (a, b, c, d) xs = (a, b, c, d)"
| "spec64_stripes (Suc k) (a, b, c, d) xs = spec64_stripes k
     (spec64_round a (le_nat (take 8 xs)), spec64_round b (le_nat (take 8 (drop 8 xs))),
      spec64_round c (le_nat (take 8 (drop 16 xs))), spec64_round d (le_nat (take 8 (drop 24 xs)))) (drop 32 xs)"

fun spec64_lanes :: "nat \<Rightarrow> nat \<Rightarrow> u8 list \<Rightarrow> nat" where
  "spec64_lanes 0 h xs = h"
| "spec64_lanes (Suc k) h xs = spec64_lanes k
     (add64 (mul64 (rot64 27 (h XOR spec64_round 0 (le_nat (take 8 xs)))) 0x9E3779B185EBCA87) 0x85EBCA77C2B2AE63) (drop 8 xs)"

fun spec64_tail :: "nat \<Rightarrow> u8 list \<Rightarrow> nat" where
  "spec64_tail h (b0 # b1 # b2 # b3 # xs) = spec64_tail
     (add64 (mul64 (rot64 23 (h XOR mul64 (le_nat [b0, b1, b2, b3]) 0x9E3779B185EBCA87)) 0xC2B2AE3D27D4EB4F) 0x165667B19E3779F9) xs"
| "spec64_tail h (b # xs) = spec64_tail (mul64 (rot64 11 (h XOR mul64 (unat b) 0x27D4EB2F165667C5)) 0x9E3779B185EBCA87) xs"
| "spec64_tail h [] = h"

definition spec64_avalanche :: "nat \<Rightarrow> nat" where
  "spec64_avalanche h =
     (let h = mul64 (h XOR h div 2 ^ 33) 0xC2B2AE3D27D4EB4F; h = mul64 (h XOR h div 2 ^ 29) 0x165667B19E3779F9
      in h XOR h div 2 ^ 32)"

definition xxh64_spec :: "u8 list \<Rightarrow> nat" where
  "xxh64_spec xs =
     (let n = length xs;
          start = (if n < 32 then 0x27D4EB2F165667C5
            else case spec64_stripes (n div 32) (0x60EA27EEADC0B5D6, 0xC2B2AE3D27D4EB4F, 0, 0x61C8864E7A143579) xs of (a, b, c, d) \<Rightarrow>
              spec64_merge (spec64_merge (spec64_merge (spec64_merge
                (add64 (add64 (add64 (rot64 1 a) (rot64 7 b)) (rot64 12 c)) (rot64 18 d)) a) b) c) d);
          rest = drop (32 * (n div 32)) xs; k = length rest div 8
      in spec64_avalanche (spec64_tail (spec64_lanes k (add64 start n) rest) (drop (8 * k) rest)))"

lemma unat64: "unat (a + b :: u64) = add64 (unat a) (unat b)" "unat (a * b :: u64) = mul64 (unat a) (unat b)"
  "r \<le> 64 \<Longrightarrow> unat (xxh64_rotl x r) = rot64 r (unat x)" "unat (x XOR y :: u64) = unat x XOR unat y"
  by (simp_all add: add64_def mul64_def rot64_def xxh64_rotl_def kXxh64AccumulatorBits_def unat_word_ariths
      unat_rotate[where 'a = 64, simplified] unsigned_xor_eq)

lemma primes64: "unat kXxh64Prime1 = 0x9E3779B185EBCA87" "unat kXxh64Prime2 = 0xC2B2AE3D27D4EB4F" "unat kXxh64Prime3 = 0x165667B19E3779F9"
  "unat kXxh64Prime4 = 0x85EBCA77C2B2AE63" "unat kXxh64Prime5 = 0x27D4EB2F165667C5"
  by (simp_all add: kXxh64Prime1_def kXxh64Prime2_def kXxh64Prime3_def kXxh64Prime4_def kXxh64Prime5_def)

lemma round_spec64: "unat (xxh64_round acc w) = spec64_round (unat acc) (unat w)"
  by (simp add: xxh64_round_def spec64_round_def unat64 primes64)

lemma merge_round_spec64: "unat (xxh64_merge_round acc v) = spec64_merge (unat acc) (unat v)"
  by (simp add: xxh64_merge_round_def spec64_merge_def unat64 primes64 round_spec64)

lemma lane_step_spec64: "unat (xxh64_lane_step h w) =
    add64 (mul64 (rot64 27 (unat h XOR spec64_round 0 (unat w))) 0x9E3779B185EBCA87) 0x85EBCA77C2B2AE63"
  by (simp add: xxh64_lane_step_def unat64 primes64 round_spec64)

lemma le64_value: "unat (le64 xs) = le_nat (take 8 xs)" "unat (half64 xs) = le_nat (take 4 xs)"
proof -
  have "le_nat (take k xs) < 2 ^ 64" if "k \<le> 8" for k
  proof -
    have "le_nat (take k xs) < 256 ^ length (take k xs)" by (rule le_nat_less)
    also have "\<dots> \<le> 256 ^ 8" using that by (intro power_increasing) auto
    finally show ?thesis by simp
  qed
  then show "unat (le64 xs) = le_nat (take 8 xs)" "unat (half64 xs) = le_nat (take 4 xs)"
    unfolding le64_def half64_def by (intro unat_of_nat_less, simp)+
qed

definition lanes64_nat :: "xxh64_lanes \<Rightarrow> nat \<times> nat \<times> nat \<times> nat" where
  "lanes64_nat = (\<lambda>(a, b, c, d). (unat a, unat b, unat c, unat d))"

lemma stripes_spec64:
  "length xs div 32 = k \<Longrightarrow> lanes64_nat (fst (ref64_stripes vs xs)) = spec64_stripes k (lanes64_nat vs) xs \<and>
   snd (ref64_stripes vs xs) = drop (32 * k) xs"
proof (induction k arbitrary: vs xs)
  case 0
  then have "length xs < 32" by (simp add: div_eq_0_iff)
  then have "ref64_stripes vs xs = (vs, xs)" by (simp add: ref64_stripes.simps[of vs])
  then show ?case by (cases vs) (simp add: lanes64_nat_def)
next
  case (Suc k)
  then have "\<not> length xs < 32" by auto
  moreover have "length (drop 32 xs) div 32 = k" using Suc.prems by simp
  moreover obtain a b c d where "vs = (a, b, c, d)" by (cases vs)
  ultimately show ?case using Suc.IH[of "drop 32 xs"]
    by (simp add: ref64_stripes.simps[of "(a, b, c, d)"] lanes64_nat_def round_spec64 le64_value add.commute)
qed

lemma lanes_spec64:
  "length xs div 8 = k \<Longrightarrow> unat (fst (ref64_lanes h xs)) = spec64_lanes k (unat h) xs \<and> snd (ref64_lanes h xs) = drop (8 * k) xs"
proof (induction k arbitrary: h xs)
  case 0
  then have "length xs < 8" by (simp add: div_eq_0_iff)
  then show ?case by (simp add: ref64_lanes.simps[of h])
next
  case (Suc k)
  then have "\<not> length xs < 8" by auto
  moreover have "length (drop 8 xs) div 8 = k" using Suc.prems by simp
  ultimately show ?case using Suc.IH[of "drop 8 xs"]
    by (simp add: ref64_lanes.simps[of h] lane_step_spec64 le64_value add.commute)
qed

lemma bytes_spec64: "length xs < 4 \<Longrightarrow> unat (foldl xxh64_byte_step h xs) = spec64_tail (unat h) xs"
  by (induction "unat h" xs arbitrary: h rule: spec64_tail.induct)
    (auto simp: xxh64_byte_step_def unat64 primes64)

lemma tail_spec64:
  assumes "length xs < 8"
  shows "unat (foldl xxh64_byte_step (if 4 \<le> length xs then xxh64_half_step h (half64 xs) else h) (if 4 \<le> length xs then drop 4 xs else xs)) =
    spec64_tail (unat h) xs"
proof (cases "4 \<le> length xs")
  case True
  then obtain b0 b1 b2 b3 ys where xs: "xs = b0 # b1 # b2 # b3 # ys"
    by (metis (no_types, lifting) Suc_le_length_iff numeral_eq_Suc pred_numeral_simps(1,2,3) semiring_norm(26,27,28))
  then show ?thesis using assms bytes_spec64[of ys] by (simp add: xxh64_half_step_def unat64 primes64 le64_value)
next
  case False
  then show ?thesis using bytes_spec64[of xs h] by simp
qed

lemma avalanche_spec64: "unat (xxh64_avalanche h) = spec64_avalanche (unat h)"
  by (simp add: xxh64_avalanche_def spec64_avalanche_def Let_def unat64 primes64 unat_drop_bit kXxh64FinalShift_def)

lemma merge_spec64: "lanes64_nat vs = (a, b, c, d) \<Longrightarrow> unat (xxh64_merge vs) = spec64_merge (spec64_merge (spec64_merge (spec64_merge
     (add64 (add64 (add64 (rot64 1 a) (rot64 7 b)) (rot64 12 c)) (rot64 18 d)) a) b) c) d"
  by (cases vs) (simp add: xxh64_merge_def lanes64_nat_def Let_def merge_round_spec64 unat64(1,3))

lemma init_spec64: "lanes64_nat xxh64_lanes_init = (0x60EA27EEADC0B5D6, 0xC2B2AE3D27D4EB4F, 0, 0x61C8864E7A143579)"
  by (simp add: xxh64_lanes_init_def lanes64_nat_def kXxh64Prime1_def kXxh64Prime2_def)

lemma steps_spec64: "unat (xxh64_steps xs) = xxh64_spec xs"
proof -
  let ?R = "ref64_stripes xxh64_lanes_init xs" and ?rest = "drop (32 * (length xs div 32)) xs"
  have st: "lanes64_nat (fst ?R) = spec64_stripes (length xs div 32) (0x60EA27EEADC0B5D6, 0xC2B2AE3D27D4EB4F, 0, 0x61C8864E7A143579) xs"
    "snd ?R = ?rest"
    using stripes_spec64[OF refl, of xxh64_lanes_init xs] by (simp_all add: init_spec64)
  obtain a b c d where s: "spec64_stripes (length xs div 32) (0x60EA27EEADC0B5D6, 0xC2B2AE3D27D4EB4F, 0, 0x61C8864E7A143579) xs = (a, b, c, d)"
    by (cases rule: prod_cases4)
  define H where "H = (if 32 \<le> length xs then xxh64_merge (fst ?R) else kXxh64Prime5)"
  have H: "unat H = (if length xs < 32 then 0x27D4EB2F165667C5 else case (a, b, c, d) of (a, b, c, d) \<Rightarrow>
      spec64_merge (spec64_merge (spec64_merge (spec64_merge
        (add64 (add64 (add64 (rot64 1 a) (rot64 7 b)) (rot64 12 c)) (rot64 18 d)) a) b) c) d)"
    using merge_spec64[of "fst ?R" a b c d] by (simp add: H_def st(1) s primes64)
  have ad: "unat (H + of_nat (length xs)) = add64 (unat H) (length xs)"
    by (simp add: unat64 add64_def unsigned_of_nat take_bit_eq_mod mod_simps)
  let ?L = "ref64_lanes (H + of_nat (length xs)) ?rest" and ?k = "length ?rest div 8"
  have L: "unat (fst ?L) = spec64_lanes ?k (add64 (unat H) (length xs)) ?rest" "snd ?L = drop (8 * ?k) ?rest"
    using lanes_spec64[OF refl, of "H + of_nat (length xs)" ?rest] ad by simp_all
  obtain q ys where qy: "?L = (q, ys)" by (cases ?L)
  have "length (snd ?L) < 8" unfolding L(2) length_drop[of "8 * ?k"] by (simp add: minus_mult_div_eq_mod del: length_drop)
  then have "length ys < 8" by (simp add: qy)
  note T = tail_spec64[OF this, of q]
  have "xxh64_steps xs = xxh64_avalanche (foldl xxh64_byte_step (if 4 \<le> length ys then xxh64_half_step q (half64 ys) else q)
      (if 4 \<le> length ys then drop 4 ys else ys))"
    unfolding xxh64_steps_def Let_def split_beta H_def[symmetric] st(2) by (simp add: qy)
  then have "unat (xxh64_steps xs) = spec64_avalanche (spec64_tail (unat q) ys)" by (simp only: avalanche_spec64 T)
  then show ?thesis using L H unfolding xxh64_spec_def Let_def s qy fst_conv snd_conv by (simp only:)
qed

lemma xxh64_computes_spec:
  assumes "p + unat len \<le> length data"
  shows "wp (xxh64 data p len) (\<lambda>h. unat h = xxh64_spec (take (unat len) (drop p data)))"
  using xxh64_computes_steps[OF assms] by (simp add: wp_Some steps_spec64)

text \<open>The published digests of the one byte \<open>a\<close> and of nothing.\<close>

lemma xxh64_known: "xxh64_spec [97] = 0xD24EC4F1A98C6E5B" "xxh64_spec [] = 0xEF46DB3751D8E999"
  by ((simp add: xxh64_spec_def add64_def mul64_def rot64_def spec64_round_def, simp add: spec64_avalanche_def, simp add: mul64_def)+)

end
