(* ===== verification/Zstd_Frame.thy ===== *)
theory Zstd_Frame
  imports Xxhash64 Xxhash32
begin

text \<open>
  The headers of a Zstandard frame, \<open>src/zstd_frame.h\<close>: the frame header with its gate on the
  subset, the block header, and the check of the content checksum. A refusal is its status with the
  rung that refused. The code's pointer is an offset into the list here.
\<close>

definition kZstdMagic :: u32 where "kZstdMagic = 0xFD2FB528"
definition kZstdSkippableMagicMin :: u32 where "kZstdSkippableMagicMin = 0x184D2A50"
definition kZstdSkippableMagicMax :: u32 where "kZstdSkippableMagicMax = 0x184D2A5F"
definition kZstdMaxWindowSize :: u64 where "kZstdMaxWindowSize = 8 * 1024 * 1024"
definition kZstdBlockSizeCeiling :: u64 where "kZstdBlockSizeCeiling = 128 * 1024"
definition kZstdBlockTypeRaw :: u8 where "kZstdBlockTypeRaw = 0"
definition kZstdBlockTypeRle :: u8 where "kZstdBlockTypeRle = 1"
definition kZstdBlockTypeCompressed :: u8 where "kZstdBlockTypeCompressed = 2"
definition kZstdBlockTypeReserved :: u8 where "kZstdBlockTypeReserved = 3"

lemmas zstd_frame_consts = kZstdMagic_def kZstdSkippableMagicMin_def kZstdSkippableMagicMax_def kZstdMaxWindowSize_def
  kZstdBlockSizeCeiling_def kZstdBlockTypeRaw_def kZstdBlockTypeRle_def kZstdBlockTypeCompressed_def kZstdBlockTypeReserved_def

datatype zstd_frame_reject =
    kZstdFrameRejectNone
  | kZstdFrameRejectMagicTruncated
  | kZstdFrameRejectMagicWrong
  | kZstdFrameRejectSkippableFrame
  | kZstdFrameRejectDescriptorTruncated
  | kZstdFrameRejectReservedBitSet
  | kZstdFrameRejectDictionaryId
  | kZstdFrameRejectContentSizeAbsent
  | kZstdFrameRejectHeaderTruncated
  | kZstdFrameRejectWindowTooLarge
  | kZstdFrameRejectBlockHeaderTruncated
  | kZstdFrameRejectBlockTypeReserved
  | kZstdFrameRejectBlockTooLarge
  | kZstdFrameRejectBlockBodyTruncated
  | kZstdFrameRejectChecksumTruncated
  | kZstdFrameRejectChecksumMismatch

type_synonym zstd_frame_error = "cudec_status \<times> zstd_frame_reject"

record zstd_frame_header =
  zf_content_size :: u64
  zf_window_size :: u64
  zf_header_size :: u32
  zf_single_segment :: bool
  zf_content_checksum :: bool

definition zstd_read32 :: "u8 list \<Rightarrow> nat \<Rightarrow> u32 option" where
  "zstd_read32 s p = do {
     b0 \<leftarrow> at s p; b1 \<leftarrow> at s (p + 1); b2 \<leftarrow> at s (p + 2); b3 \<leftarrow> at s (p + 3);
     Some (((ucast b0 OR push_bit 8 (ucast b1)) OR push_bit 16 (ucast b2)) OR push_bit 24 (ucast b3))
   }"

fun zstd_read_le_loop :: "u8 list \<Rightarrow> nat \<Rightarrow> nat list \<Rightarrow> u64 \<Rightarrow> u64 option" where
  "zstd_read_le_loop s p [] v = Some v"
| "zstd_read_le_loop s p (i # is) v = do {
     b \<leftarrow> at s (p + i);
     zstd_read_le_loop s p is (v OR push_bit (8 * i) (ucast b))
   }"

definition zstd_read_le :: "u8 list \<Rightarrow> nat \<Rightarrow> nat \<Rightarrow> u64 option" where
  "zstd_read_le s p bytes = zstd_read_le_loop s p [0..<bytes] 0"

definition zstd_window_size :: "u8 \<Rightarrow> u64" where
  "zstd_window_size descriptor =
     (let exponent = (ucast (drop_bit 3 descriptor) :: u64);
          mantissa = (ucast (descriptor AND 0x07) :: u64);
          base = push_bit (10 + unat exponent) 1
      in base + (base div 8) * mantissa)"

definition zstd_fcs_field_size :: "u32 \<Rightarrow> bool \<Rightarrow> nat" where
  "zstd_fcs_field_size flag single_segment =
     (if flag = 0 then (if single_segment then 1 else 0) else push_bit (unat flag) 1)"

definition zstd_did_field_size :: "u32 \<Rightarrow> nat" where
  "zstd_did_field_size flag = (if flag = 0 then 0 else push_bit (unat (flag - 1)) 1)"

definition zstd_parse_frame_header :: "u8 list \<Rightarrow> u64 \<Rightarrow> (zstd_frame_error + zstd_frame_header) option" where
  "zstd_parse_frame_header s n =
     (if n < 4 then Some (Inl (CUDEC_ERR_CORRUPT_INPUT, kZstdFrameRejectMagicTruncated))
      else do {
        magic \<leftarrow> zstd_read32 s 0;
        if magic \<noteq> kZstdMagic then
          (if magic \<ge> kZstdSkippableMagicMin \<and> magic \<le> kZstdSkippableMagicMax
           then Some (Inl (CUDEC_ERR_UNSUPPORTED, kZstdFrameRejectSkippableFrame))
           else Some (Inl (CUDEC_ERR_CORRUPT_INPUT, kZstdFrameRejectMagicWrong)))
        else if n < 5 then Some (Inl (CUDEC_ERR_CORRUPT_INPUT, kZstdFrameRejectDescriptorTruncated))
        else do {
          d \<leftarrow> at s 4;
          let descriptor = (ucast d :: u32);
          let fcs_flag = drop_bit 6 descriptor;
          let single_segment = descriptor AND 0x20 \<noteq> 0;
          let reserved_bit = descriptor AND 0x08 \<noteq> 0;
          let content_checksum = descriptor AND 0x04 \<noteq> 0;
          let did_flag = descriptor AND 0x03;
          if reserved_bit then Some (Inl (CUDEC_ERR_CORRUPT_INPUT, kZstdFrameRejectReservedBitSet))
          else if did_flag \<noteq> 0 then Some (Inl (CUDEC_ERR_UNSUPPORTED, kZstdFrameRejectDictionaryId))
          else do {
            let fcs_size = zstd_fcs_field_size fcs_flag single_segment;
            if fcs_size = 0 then Some (Inl (CUDEC_ERR_UNSUPPORTED, kZstdFrameRejectContentSizeAbsent))
            else do {
              let window_size_bytes = (if single_segment then 0 else 1);
              let did_bytes = zstd_did_field_size did_flag;
              let header_size = (of_nat (5 + window_size_bytes + did_bytes + fcs_size) :: u32);
              if n < ucast header_size then Some (Inl (CUDEC_ERR_CORRUPT_INPUT, kZstdFrameRejectHeaderTruncated))
              else do {
                content_size \<leftarrow> zstd_read_le s (5 + window_size_bytes + did_bytes) fcs_size;
                let content_size = (if fcs_size = 2 then content_size + 256 else content_size);
                window_size \<leftarrow> (if single_segment then Some content_size else do {
                    w \<leftarrow> at s 5; Some (zstd_window_size w) });
                if \<not> single_segment \<and> window_size > kZstdMaxWindowSize
                then Some (Inl (CUDEC_ERR_UNSUPPORTED, kZstdFrameRejectWindowTooLarge))
                else Some (Inr \<lparr>zf_content_size = content_size, zf_window_size = window_size, zf_header_size = header_size,
                       zf_single_segment = single_segment, zf_content_checksum = content_checksum\<rparr>)
              }
            }
          }
        }
      })"

record zstd_block_header =
  zb_block_size :: u32
  zb_body_size :: u32
  zb_block_type :: u8
  zb_last_block :: bool

definition zstd_parse_block_header :: "u8 list \<Rightarrow> nat \<Rightarrow> u64 \<Rightarrow> u64 \<Rightarrow> (zstd_frame_error + zstd_block_header) option" where
  "zstd_parse_block_header s p available window_size =
     (if available < 3 then Some (Inl (CUDEC_ERR_CORRUPT_INPUT, kZstdFrameRejectBlockHeaderTruncated))
      else do {
        b0 \<leftarrow> at s p; b1 \<leftarrow> at s (p + 1); b2 \<leftarrow> at s (p + 2);
        let raw = ((ucast b0 OR push_bit 8 (ucast b1)) OR push_bit 16 (ucast b2) :: u32);
        let last_block = raw AND 0x01 \<noteq> 0;
        let block_type = (ucast (drop_bit 1 raw AND 0x03) :: u8);
        let block_size = drop_bit 3 raw;
        if block_type = kZstdBlockTypeReserved
        then Some (Inl (CUDEC_ERR_CORRUPT_INPUT, kZstdFrameRejectBlockTypeReserved))
        else do {
          let block_max = (if window_size < kZstdBlockSizeCeiling then window_size else kZstdBlockSizeCeiling);
          if ucast block_size > block_max then Some (Inl (CUDEC_ERR_CORRUPT_INPUT, kZstdFrameRejectBlockTooLarge))
          else do {
            let body_size = (if block_type = kZstdBlockTypeRle then 1 else block_size);
            if available < 3 + ucast body_size
            then Some (Inl (CUDEC_ERR_CORRUPT_INPUT, kZstdFrameRejectBlockBodyTruncated))
            else Some (Inr \<lparr>zb_block_size = block_size, zb_body_size = body_size, zb_block_type = block_type,
                   zb_last_block = last_block\<rparr>)
          }
        }
      })"

definition zstd_verify_content_checksum :: "u8 list \<Rightarrow> nat \<Rightarrow> u64 \<Rightarrow> u64 \<Rightarrow> (zstd_frame_error + unit) option" where
  "zstd_verify_content_checksum s trailer available content_digest =
     (if available < 4 then Some (Inl (CUDEC_ERR_CORRUPT_INPUT, kZstdFrameRejectChecksumTruncated))
      else do {
        stored \<leftarrow> zstd_read32 s trailer;
        let computed = (ucast content_digest :: u32);
        if stored \<noteq> computed then Some (Inl (CUDEC_ERR_CORRUPT_INPUT, kZstdFrameRejectChecksumMismatch))
        else Some (Inr ())
      })"

section \<open>Reading\<close>

lemma zstd_read32_le: "p + 4 \<le> length s \<Longrightarrow> zstd_read32 s p = Some (le32 (drop p s))"
  using xxh_read32_le32[of p s] by (simp add: zstd_read32_def xxh_read32_def)

lemma zstd_read_le_gather: "zstd_read_le_loop s p is v = xxh64_gather s p is v"
  by (induction "is" arbitrary: v) simp_all

lemma zstd_read_le_value:
  "n \<le> 8 \<Longrightarrow> p + n \<le> length s \<Longrightarrow> \<exists>v. zstd_read_le s p n = Some v \<and> unat v = le_nat (take n (drop p s))"
  using gather_le[of 0 n p s 0] by (simp add: zstd_read_le_def zstd_read_le_gather)

section \<open>What a frame header says\<close>

text \<open>The fields of the format, RFC 8878 section 3.1.1.1, over the bytes.\<close>

definition zh_descriptor :: "u8 list \<Rightarrow> u8" where
  "zh_descriptor s = s ! 4"

definition zh_single :: "u8 list \<Rightarrow> bool" where
  "zh_single s \<longleftrightarrow> bit (zh_descriptor s) 5"

definition zh_fcs_bytes :: "u8 list \<Rightarrow> nat" where
  "zh_fcs_bytes s = (let flag = unat (zh_descriptor s) div 64 in if flag = 0 then of_bool (zh_single s) else 2 ^ flag)"

definition zh_bytes :: "u8 list \<Rightarrow> nat" where
  "zh_bytes s = 5 + of_bool (\<not> zh_single s) + zh_fcs_bytes s"

definition zh_content :: "u8 list \<Rightarrow> nat" where
  "zh_content s = le_nat (take (zh_fcs_bytes s) (drop (5 + of_bool (\<not> zh_single s)) s)) + (if zh_fcs_bytes s = 2 then 256 else 0)"

definition zh_window :: "u8 list \<Rightarrow> nat" where
  "zh_window s = (if zh_single s then zh_content s
     else (8 + unat (s ! 5) mod 8) * 2 ^ (7 + unat (s ! 5) div 8))"

text \<open>A frame of the format, and what of it is in the subset.\<close>

definition zh_magic :: "u8 list \<Rightarrow> nat \<Rightarrow> bool" where
  "zh_magic s n \<longleftrightarrow> 4 \<le> n \<and> le_nat (take 4 s) = 0xFD2FB528"

definition zh_skippable :: "u8 list \<Rightarrow> nat \<Rightarrow> bool" where
  "zh_skippable s n \<longleftrightarrow> 4 \<le> n \<and> le_nat (take 4 s) div 16 = 0x184D2A5"

definition zh_declined :: "u8 list \<Rightarrow> nat \<Rightarrow> bool" where
  "zh_declined s n \<longleftrightarrow> zh_magic s n \<and> 5 \<le> n \<and> \<not> bit (zh_descriptor s) 3 \<and>
     (unat (zh_descriptor s) mod 4 \<noteq> 0 \<or> zh_fcs_bytes s = 0 \<or> zh_bytes s \<le> n \<and> \<not> zh_single s \<and> 2 ^ 23 < zh_window s)"

definition zh_accepted :: "u8 list \<Rightarrow> nat \<Rightarrow> bool" where
  "zh_accepted s n \<longleftrightarrow> zh_magic s n \<and> 5 \<le> n \<and> \<not> bit (zh_descriptor s) 3 \<and> unat (zh_descriptor s) mod 4 = 0 \<and>
     zh_fcs_bytes s \<noteq> 0 \<and> zh_bytes s \<le> n \<and> (zh_single s \<or> zh_window s \<le> 2 ^ 23)"

definition zh_fields :: "u8 list \<Rightarrow> zstd_frame_header \<Rightarrow> bool" where
  "zh_fields s h \<longleftrightarrow> unat (zf_content_size h) = zh_content s \<and> unat (zf_window_size h) = zh_window s \<and>
     unat (zf_header_size h) = zh_bytes s \<and> zf_single_segment h = zh_single s \<and>
     zf_content_checksum h = bit (zh_descriptor s) 2"

section \<open>The parse is exact\<close>

lemma bit_test: "(x :: u32) AND 0x20 \<noteq> 0 \<longleftrightarrow> bit x 5" "x AND 0x08 \<noteq> 0 \<longleftrightarrow> bit x 3" "x AND 0x04 \<noteq> 0 \<longleftrightarrow> bit x 2"
  "x AND 0x01 \<noteq> 0 \<longleftrightarrow> bit x 0"
  using bit_iff_and_push_bit_not_eq_0[of x 5] bit_iff_and_push_bit_not_eq_0[of x 3] bit_iff_and_push_bit_not_eq_0[of x 2]
    bit_iff_and_push_bit_not_eq_0[of x 0] by (simp_all add: push_bit_of_1)

lemma bit_byte: "bit (ucast (b :: u8) :: u32) k \<longleftrightarrow> bit b k"
  using bit_imp_le_length[of b k] by (auto simp: bit_simps)

lemma and_low: "unat (x AND 0x03 :: u32) = unat x mod 4" "unat (y AND 0x07 :: u8) = unat y mod 8"
  using unat_and_mask[of x 2] unat_and_mask[of y 3] by (simp_all add: mask_eq_exp_minus_1)

lemma window_size_value: "unat (zstd_window_size d) = (8 + unat d mod 8) * 2 ^ (7 + unat d div 8)"
proof -
  define e where "e = unat d div 8"
  define m where "m = unat d mod 8"
  have e: "e < 32" using unat_u8_less[of d] by (simp add: e_def)
  have m: "m < 8" by (simp add: m_def)
  have ue: "unat (ucast (drop_bit 3 d) :: u64) = e" using unat_drop_bit[of 3 d] by (simp add: e_def)
  have um: "unat (ucast (d AND 0x07) :: u64) = m" by (simp add: m_def and_low)
  obtain B where B: "B = (2::nat) ^ (7 + e)" "B \<le> 2 ^ 38" using e power_increasing[of "7 + e" 38 "2::nat"] by simp
  have b8: "2 ^ (10 + e) = 8 * B" by (simp add: B(1) power_add)
  have base: "push_bit (10 + e) 1 = (of_nat (8 * B) :: u64)" unfolding b8[symmetric] push_bit_of_1 of_nat_power of_nat_numeral ..
  have u8: "unat (of_nat (8 * B) :: u64) = 8 * B" using B(2) by (intro unat_of_nat_less) simp
  have "unat (of_nat (8 * B) div 8 :: u64) = B" by (simp only: unat_div u8) simp
  then have d8: "of_nat (8 * B) div 8 = (of_nat B :: u64)" by (metis of_nat_unat ucast_id)
  have um': "ucast (d AND 0x07) = (of_nat m :: u64)" using um by (metis of_nat_unat ucast_id)
  have "B * m \<le> 2 ^ 38 * 8" using B(2) m by (intro mult_le_mono) auto
  then have "unat (of_nat (8 * B + B * m) :: u64) = 8 * B + B * m" using B(2) by (intro unat_of_nat_less) simp
  then have "unat (of_nat (8 * B) + of_nat B * of_nat m :: u64) = (8 + m) * B" by (simp add: algebra_simps)
  then show ?thesis unfolding zstd_window_size_def Let_def ue base d8 um' by (simp only: B(1) e_def m_def)
qed

text \<open>The content size, at the width the code keeps it in.\<close>

lemma content_value:
  assumes "zh_fcs_bytes s \<in> {1, 2, 4, 8}" "p + zh_fcs_bytes s \<le> length s"
  shows "\<exists>v. zstd_read_le s p (zh_fcs_bytes s) = Some v \<and>
    unat (if zh_fcs_bytes s = 2 then v + 256 else v) = le_nat (take (zh_fcs_bytes s) (drop p s)) + (if zh_fcs_bytes s = 2 then 256 else 0)"
proof -
  obtain v where v: "zstd_read_le s p (zh_fcs_bytes s) = Some v" "unat v = le_nat (take (zh_fcs_bytes s) (drop p s))"
    using zstd_read_le_value[of "zh_fcs_bytes s" p s] assms by auto
  have "unat (v + 256) = unat v + 256" if "zh_fcs_bytes s = 2"
  proof -
    have "length (take 2 (drop p s)) = 2" using assms(2) that by simp
    then have "unat v < 65536" using le_nat_less[of "take 2 (drop p s)"] v(2) that by simp
    then show ?thesis by (subst unat_plus) simp_all
  qed
  then show ?thesis using v by auto
qed

lemma fcs_size: "zstd_fcs_field_size (drop_bit 6 (ucast (d :: u8))) (bit d 5) = (let flag = unat d div 64 in if flag = 0 then of_bool (bit d 5) else 2 ^ flag)"
proof -
  have u: "unat (drop_bit 6 (ucast d :: u32)) = unat d div 64" using unat_drop_bit[of 6 "ucast d :: u32"] by simp
  then have "drop_bit 6 (ucast d :: u32) = 0 \<longleftrightarrow> unat d div 64 = 0" by (metis unat_eq_0)
  then show ?thesis by (auto simp: zstd_fcs_field_size_def u Let_def push_bit_of_1)
qed

lemma fcs_bytes_cases: "zh_fcs_bytes s \<in> {0, 1, 2, 4, 8}"
proof -
  have "unat (zh_descriptor s) div 64 < 4" using unat_u8_less[of "zh_descriptor s"] by simp
  then have "unat (zh_descriptor s) div 64 \<in> {0, 1, 2, 3}" by auto
  then show ?thesis by (auto simp: zh_fcs_bytes_def Let_def)
qed

text \<open>
  The parse takes exactly the frames of the subset, and tells a legal frame outside it from a
  corrupt one.
\<close>

lemma frame_header_contract:
  assumes n: "unat n \<le> length s"
  shows "wp (zstd_parse_frame_header s n) (\<lambda>res. case res of
      Inl (st, _) \<Rightarrow> \<not> zh_accepted s (unat n) \<and>
        st = (if zh_skippable s (unat n) \<or> zh_declined s (unat n) then CUDEC_ERR_UNSUPPORTED else CUDEC_ERR_CORRUPT_INPUT)
    | Inr h \<Rightarrow> zh_accepted s (unat n) \<and> zh_fields s h)"
proof (cases "n < 4")
  case True
  then show ?thesis using n by (simp add: zstd_parse_frame_header_def wp_Some zh_accepted_def zh_magic_def zh_skippable_def zh_declined_def w2n)
next
  case False
  then have n4: "4 \<le> unat n" "\<not> n < 4" by (simp_all add: w2n not_less)
  have m: "zstd_read32 s 0 = Some (le32 s)" using zstd_read32_le[of 0 s] n n4 by simp
  have mv: "unat (le32 s) = le_nat (take 4 s)" by (rule le32_value)
  have magic: "le32 s = kZstdMagic \<longleftrightarrow> zh_magic s (unat n)"
    using n4 mv by (auto simp: zh_magic_def kZstdMagic_def word_unat_eq_iff)
  have skip: "le32 s \<ge> kZstdSkippableMagicMin \<and> le32 s \<le> kZstdSkippableMagicMax \<longleftrightarrow> zh_skippable s (unat n)"
    using n4 mv by (auto simp: zh_skippable_def zstd_frame_consts w2n)
  have excl: "zh_magic s (unat n) \<Longrightarrow> \<not> zh_skippable s (unat n)" by (simp add: zh_magic_def zh_skippable_def)
  show ?thesis
  proof (cases "zh_magic s (unat n)")
    case nm: False
    then show ?thesis using skip magic unfolding zstd_parse_frame_header_def if_not_P[OF n4(2)] m bind.bind_lunit
      by (simp add: wp_Some zh_accepted_def zh_declined_def)
  next
    case mg: True
    show ?thesis
    proof (cases "n < 5")
      case True
      then show ?thesis using mg excl magic unfolding zstd_parse_frame_header_def if_not_P[OF n4(2)] m bind.bind_lunit
        by (simp add: wp_Some zh_accepted_def zh_declined_def w2n)
    next
      case False
      then have n5: "5 \<le> unat n" by (simp add: w2n not_less)
      define d where "d = s ! 4"
      have d: "at s 4 = Some d" "zh_descriptor s = d" using n n5 by (simp_all add: d_def zh_descriptor_def)
      have sg: "zh_single s = bit d 5" by (simp add: zh_single_def d)
      have did: "(ucast d AND 0x03 :: u32) = 0 \<longleftrightarrow> unat d mod 4 = 0" using and_low(1)[of "ucast d"] by (simp add: word_unat_eq_iff)
      have fcs: "zstd_fcs_field_size (drop_bit 6 (ucast d)) (bit d 5) = zh_fcs_bytes s"
        by (simp only: fcs_size zh_fcs_bytes_def sg d)
      have m': "\<not> le32 s \<noteq> kZstdMagic" using magic mg by simp
      have hs: "unat (of_nat (zh_bytes s) :: u32) = zh_bytes s"
        using fcs_bytes_cases[of s] by (intro unat_of_nat_less) (auto simp: zh_bytes_def)
      let ?w = "of_bool (\<not> zh_single s) :: nat"
      have w: "(if bit d 5 then 0 else 1 :: nat) = ?w" by (simp add: sg)
      note start = zstd_parse_frame_header_def if_not_P[OF n4(2)] m bind.bind_lunit if_not_P[OF m'] if_not_P[OF False] d(1) Let_def
        bit_test bit_byte
      consider "bit d 3" | "\<not> bit d 3" "unat d mod 4 \<noteq> 0" | "\<not> bit d 3" "unat d mod 4 = 0" "zh_fcs_bytes s = 0"
        | (go) "\<not> bit d 3" "unat d mod 4 = 0" "zh_fcs_bytes s \<noteq> 0" by blast
      then show ?thesis
      proof cases
        case 1
        then show ?thesis using mg excl d by (simp add: start wp_Some zh_accepted_def zh_declined_def)
      next
        case 2
        then show ?thesis using mg excl d did n5 by (simp add: start wp_Some zh_accepted_def zh_declined_def)
      next
        case 3
        then show ?thesis using mg excl d did fcs n5 by (simp add: start wp_Some zh_accepted_def zh_declined_def)
      next
        case go
        have b: "zh_bytes s = 5 + ?w + zh_fcs_bytes s" by (simp add: zh_bytes_def)
        have did0: "zstd_did_field_size (ucast d AND 0x03) = 0" using did go(2) by (simp add: zstd_did_field_size_def)
        have hdr: "(of_nat (5 + ?w + zh_fcs_bytes s) :: u32) = of_nat (zh_bytes s)" by (simp only: b)
        have lt: "n < ucast (of_nat (zh_bytes s) :: u32) \<longleftrightarrow> unat n < zh_bytes s" by (simp add: w2n hs)
        have off: "5 + (if bit d 5 then 0 else 1) + zstd_did_field_size (ucast d AND 0x03) = 5 + ?w" by (simp only: did0 w add_0_right)
        have did': "\<not> (ucast d AND 0x03 :: u32) \<noteq> 0" using did go(2) by simp
        note rest = start if_not_P[OF go(1)] if_not_P[OF did'] fcs if_not_P[OF go(3)] off hdr lt
        show ?thesis
        proof (cases "unat n < zh_bytes s")
          case True
          then show ?thesis unfolding rest if_P[OF True] using go mg excl d n5 by (auto simp: wp_Some zh_accepted_def zh_declined_def)
        next
          case ge: False
          obtain v where v: "zstd_read_le s (5 + ?w) (zh_fcs_bytes s) = Some v"
            "unat (if zh_fcs_bytes s = 2 then v + 256 else v) = zh_content s"
            using content_value[of s "5 + ?w"] fcs_bytes_cases[of s] go(3) ge n b by (auto simp: zh_content_def)
          define c where "c = (if zh_fcs_bytes s = 2 then v + 256 else v)"
          have win: "(if bit d 5 then Some c else do { w \<leftarrow> at s 5; Some (zstd_window_size w) }) =
              Some (if bit d 5 then c else zstd_window_size (s ! 5))"
            using ge n b go(3) by (auto simp: sg)
          have wv: "unat (if bit d 5 then c else zstd_window_size (s ! 5)) = zh_window s"
            using v(2) by (simp add: zh_window_def sg c_def window_size_value)
          have big: "(if bit d 5 then c else zstd_window_size (s ! 5)) > kZstdMaxWindowSize \<longleftrightarrow> 2 ^ 23 < zh_window s"
            by (simp only: w2n wv) (simp add: kZstdMaxWindowSize_def)
          show ?thesis unfolding rest if_not_P[OF ge] v(1) bind.bind_lunit c_def[symmetric] win big
            using go mg excl d n5 ge wv v(2) hs
            by (auto simp: wp_Some zh_accepted_def zh_declined_def zh_fields_def sg not_less c_def[symmetric])
        qed
      qed
    qed
  qed
qed

section \<open>Block headers and the checksum\<close>

definition zb_raw :: "u8 list \<Rightarrow> nat \<Rightarrow> nat" where
  "zb_raw s p = le_nat (take 3 (drop p s))"

definition zb_type :: "u8 list \<Rightarrow> nat \<Rightarrow> nat" where
  "zb_type s p = zb_raw s p div 2 mod 4"

definition zb_size :: "u8 list \<Rightarrow> nat \<Rightarrow> nat" where
  "zb_size s p = zb_raw s p div 8"

definition zb_body :: "u8 list \<Rightarrow> nat \<Rightarrow> nat" where
  "zb_body s p = (if zb_type s p = 1 then 1 else zb_size s p)"

definition zb_accepted :: "u8 list \<Rightarrow> nat \<Rightarrow> nat \<Rightarrow> nat \<Rightarrow> bool" where
  "zb_accepted s p avail wsize \<longleftrightarrow> 3 \<le> avail \<and> zb_type s p \<noteq> 3 \<and> zb_size s p \<le> min wsize 131072 \<and> 3 + zb_body s p \<le> avail"

definition zb_fields :: "u8 list \<Rightarrow> nat \<Rightarrow> zstd_block_header \<Rightarrow> bool" where
  "zb_fields s p h \<longleftrightarrow> unat (zb_block_size h) = zb_size s p \<and> unat (zb_body_size h) = zb_body s p \<and>
     unat (zb_block_type h) = zb_type s p \<and> zb_last_block h = odd (zb_raw s p)"

lemma take3: "p + 3 \<le> length xs \<Longrightarrow> take 3 (drop p xs) = [xs ! p, xs ! (p + 1), xs ! (p + 2)]"
  by (simp add: numeral_3_eq_3 take_Suc_conv_app_nth)

lemma unat_byte_triple:
  "unat ((ucast (b0 :: u8) OR push_bit 8 (ucast (b1 :: u8))) OR push_bit 16 (ucast (b2 :: u8)) :: u32) = le_nat [b0, b1, b2]"
proof -
  have p: "unat (ucast b0 OR push_bit 8 (ucast b1) :: u32) = unat b0 + unat b1 * 256" by (rule unat_byte_pair) simp
  have "unat b0 + unat b1 * 256 < 2 ^ 16" using unat_u8_less[of b0] unat_u8_less[of b1] by simp
  then show ?thesis using unat_or_push_byte[of "ucast b0 OR push_bit 8 (ucast b1) :: u32" 16 b2] by (simp add: p)
qed

lemma block_header_contract:
  assumes n: "p + unat avail \<le> length s"
  shows "wp (zstd_parse_block_header s p avail wsize) (\<lambda>res. case res of
      Inl (st, _) \<Rightarrow> st = CUDEC_ERR_CORRUPT_INPUT \<and> \<not> zb_accepted s p (unat avail) (unat wsize)
    | Inr h \<Rightarrow> zb_accepted s p (unat avail) (unat wsize) \<and> zb_fields s p h)"
proof (cases "avail < 3")
  case True
  then show ?thesis by (simp add: zstd_parse_block_header_def wp_Some zb_accepted_def w2n)
next
  case False
  then have a: "3 \<le> unat avail" by (simp add: w2n not_less)
  define raw :: u32 where "raw = (ucast (s ! p) OR push_bit 8 (ucast (s ! (p + 1)))) OR push_bit 16 (ucast (s ! (p + 2)))"
  have rv: "unat raw = zb_raw s p" using take3[of p s] a n unat_byte_triple by (simp add: raw_def zb_raw_def)
  have rb: "zb_raw s p < 2 ^ 24"
    using le_nat_less[of "take 3 (drop p s)"] take3[of p s] a n by (simp add: zb_raw_def)
  define ty :: u8 where "ty = ucast (drop_bit 1 raw AND 0x03)"
  have "unat (drop_bit 1 raw AND 0x03) = zb_type s p" using and_low(1)[of "drop_bit 1 raw"] unat_drop_bit[of 1 raw] by (simp add: rv zb_type_def)
  then have tv: "unat ty = zb_type s p" by (simp add: ty_def unsigned_ucast_eq take_bit_nat_eq_self zb_type_def)
  have sv: "unat (drop_bit 3 raw) = zb_size s p" using unat_drop_bit[of 3 raw] by (simp add: rv zb_size_def)
  have t3: "ty = kZstdBlockTypeReserved \<longleftrightarrow> zb_type s p = 3" "ty = kZstdBlockTypeRle \<longleftrightarrow> zb_type s p = 1"
    using tv by (auto simp: zstd_frame_consts word_unat_eq_iff)
  define body where "body = (if ty = kZstdBlockTypeRle then 1 else drop_bit 3 raw)"
  have bv: "unat body = zb_body s p" using t3 sv by (simp add: body_def zb_body_def)
  have mx: "ucast (drop_bit 3 raw) > (if wsize < kZstdBlockSizeCeiling then wsize else kZstdBlockSizeCeiling) \<longleftrightarrow> min (unat wsize) 131072 < zb_size s p"
    by (simp add: w2n sv zstd_frame_consts min_def)
  have bl: "unat (3 + ucast body :: u64) = 3 + zb_body s p"
    using bv rb by (subst unat_plus) (auto simp: zb_body_def zb_size_def)
  have lb: "raw AND 1 \<noteq> 0 \<longleftrightarrow> odd (zb_raw s p)"
  proof -
    have "unat (raw AND 1) = zb_raw s p mod 2" using unat_and_mask[of raw 1] by (simp add: rv)
    then show ?thesis by (metis odd_iff_mod_2_eq_one unat_eq_0 not_mod_2_eq_0_eq_1 zero_neq_one)
  qed
  have ab: "avail < 3 + ucast body \<longleftrightarrow> unat avail < 3 + zb_body s p" by (simp add: w2n bl)
  have eq: "zstd_parse_block_header s p avail wsize =
      (if ty = kZstdBlockTypeReserved then Some (Inl (CUDEC_ERR_CORRUPT_INPUT, kZstdFrameRejectBlockTypeReserved))
       else if ucast (drop_bit 3 raw) > (if wsize < kZstdBlockSizeCeiling then wsize else kZstdBlockSizeCeiling)
       then Some (Inl (CUDEC_ERR_CORRUPT_INPUT, kZstdFrameRejectBlockTooLarge))
       else if avail < 3 + ucast body then Some (Inl (CUDEC_ERR_CORRUPT_INPUT, kZstdFrameRejectBlockBodyTruncated))
       else Some (Inr \<lparr>zb_block_size = drop_bit 3 raw, zb_body_size = body, zb_block_type = ty, zb_last_block = raw AND 1 \<noteq> 0\<rparr>))"
    using False a n unfolding zstd_parse_block_header_def body_def ty_def raw_def by (simp add: Let_def cong: if_cong)
  show ?thesis unfolding eq mx ab t3 lb
    using a tv sv bv by (auto simp: wp_Some zb_accepted_def zb_fields_def)
qed

lemma content_checksum_contract:
  assumes "p + unat avail \<le> length s"
  shows "wp (zstd_verify_content_checksum s p avail digest) (\<lambda>res. case res of
      Inl (st, _) \<Rightarrow> st = CUDEC_ERR_CORRUPT_INPUT \<and> \<not> (4 \<le> unat avail \<and> le_nat (take 4 (drop p s)) = unat digest mod 2 ^ 32)
    | Inr _ \<Rightarrow> 4 \<le> unat avail \<and> le_nat (take 4 (drop p s)) = unat digest mod 2 ^ 32)"
proof (cases "avail < 4")
  case True
  then show ?thesis by (simp add: zstd_verify_content_checksum_def wp_Some w2n)
next
  case False
  then have a: "4 \<le> unat avail" by (simp add: w2n not_less)
  have "unat (ucast digest :: u32) = unat digest mod 2 ^ 32" by (simp add: unsigned_ucast_eq take_bit_eq_mod)
  then have "le32 (drop p s) = ucast digest \<longleftrightarrow> le_nat (take 4 (drop p s)) = unat digest mod 2 ^ 32"
    by (simp add: word_unat_eq_iff le32_value)
  then show ?thesis using False a assms zstd_read32_le[of p s]
    by (auto simp: zstd_verify_content_checksum_def wp_Some)
qed

end
