(* ===== verification/Zstd_Exec.thy ===== *)
theory Zstd_Exec
  imports Chunk_Decode Zstd_Frame
begin

text \<open>
  The execution of a block's sequences, \<open>src/zstd_exec.h\<close>: the prefix sum that gives every sequence
  its destination, a tile at a time or whole, and the copies that follow it. A pointer the callers
  always supply is not tested for null here. What a refused call has already written is kept.
\<close>

datatype zstd_exec_reject =
    kZstdExecRejectNone
  | kZstdExecRejectBadRequest
  | kZstdExecRejectLiteralsExhausted
  | kZstdExecRejectBlockTooLarge
  | kZstdExecRejectPlanInconsistent
  | kZstdExecRejectOffsetZero
  | kZstdExecRejectOffsetPastWindow
  | kZstdExecRejectOffsetBeforeOutput
  | kZstdExecRejectBlockPastDeclaration

type_synonym zstd_exec_error = "cudec_status \<times> zstd_exec_reject"

record zstd_sequence =
  sq_literals_length :: u32
  sq_match_length :: u32
  sq_offset_value :: u64

record zstd_exec_plan =
  pl_block_size :: u64
  pl_literals_used :: u64

record zstd_exec_carry =
  ca_at :: u64
  ca_literals_used :: u64

section \<open>The prefix sum\<close>

fun exec_prefix_loop :: "zstd_sequence list \<Rightarrow> u64 \<Rightarrow> u64 \<Rightarrow> nat list \<Rightarrow> u64 \<Rightarrow> u64 \<Rightarrow> u64 list \<Rightarrow> u64 list option \<Rightarrow>
    ((zstd_exec_error + (u64 \<times> u64)) \<times> u64 list \<times> u64 list option) option" where
  "exec_prefix_loop sequences literals_size block_maximum [] pos used dests cursors = Some (Inr (pos, used), dests, cursors)"
| "exec_prefix_loop sequences literals_size block_maximum (i # is) pos used dests cursors = do {
     dests \<leftarrow> put dests i pos;
     cursors \<leftarrow> (case cursors of None \<Rightarrow> Some None | Some cs \<Rightarrow> map_option Some (put cs i used));
     q \<leftarrow> at sequences i;
     let literals_length = (ucast (sq_literals_length q) :: u64);
     let match_length = (ucast (sq_match_length q) :: u64);
     let span = literals_length + match_length;
     if span > block_maximum - pos
     then Some (Inl (CUDEC_ERR_CORRUPT_INPUT, kZstdExecRejectBlockTooLarge), dests, cursors)
     else do {
       let pos = pos + span;
       if literals_length > literals_size - used
       then Some (Inl (CUDEC_ERR_CORRUPT_INPUT, kZstdExecRejectLiteralsExhausted), dests, cursors)
       else exec_prefix_loop sequences literals_size block_maximum is pos (used + literals_length) dests cursors
     }
   }"

definition zstd_exec_prefix_sum_tile :: "zstd_sequence list \<Rightarrow> u32 \<Rightarrow> u64 \<Rightarrow> u64 \<Rightarrow> zstd_exec_carry \<Rightarrow> u64 list \<Rightarrow>
    u64 list option \<Rightarrow> u32 \<Rightarrow> ((zstd_exec_error + zstd_exec_carry) \<times> u64 list \<times> u64 list option) option" where
  "zstd_exec_prefix_sum_tile sequences sequence_count literals_size block_maximum carry dests cursors dests_capacity =
     (if dests_capacity < sequence_count \<or> block_maximum > kZstdBlockSizeCeiling \<or> literals_size > kZstdBlockSizeCeiling \<or>
         ca_at carry > block_maximum \<or> ca_literals_used carry > literals_size
      then Some (Inl (CUDEC_ERR_INVALID_ARGUMENT, kZstdExecRejectBadRequest), dests, cursors)
      else do {
        (res, dests, cursors) \<leftarrow> exec_prefix_loop sequences literals_size block_maximum [0..<unat sequence_count]
          (ca_at carry) (ca_literals_used carry) dests cursors;
        case res of
          Inl e \<Rightarrow> Some (Inl e, dests, cursors)
        | Inr (pos, used) \<Rightarrow> Some (Inr \<lparr>ca_at = pos, ca_literals_used = used\<rparr>, dests, cursors)
      })"

text \<open>The last destination and the plan; the destination is written before the tail is refused.\<close>

definition zstd_exec_prefix_sum_finish :: "zstd_exec_carry \<Rightarrow> u64 \<Rightarrow> u64 \<Rightarrow> (zstd_exec_error + zstd_exec_plan) \<times> u64 option" where
  "zstd_exec_prefix_sum_finish carry literals_size block_maximum =
     (if block_maximum > kZstdBlockSizeCeiling \<or> literals_size > kZstdBlockSizeCeiling \<or>
         ca_at carry > block_maximum \<or> ca_literals_used carry > literals_size
      then (Inl (CUDEC_ERR_INVALID_ARGUMENT, kZstdExecRejectBadRequest), None)
      else let tail = literals_size - ca_literals_used carry in
        if tail > block_maximum - ca_at carry
        then (Inl (CUDEC_ERR_CORRUPT_INPUT, kZstdExecRejectBlockTooLarge), Some (ca_at carry))
        else (Inr \<lparr>pl_block_size = ca_at carry + tail, pl_literals_used = ca_literals_used carry\<rparr>, Some (ca_at carry)))"

definition zstd_exec_prefix_sum :: "zstd_sequence list \<Rightarrow> u32 \<Rightarrow> u64 \<Rightarrow> u64 \<Rightarrow> u64 list \<Rightarrow> u32 \<Rightarrow>
    ((zstd_exec_error + zstd_exec_plan) \<times> u64 list) option" where
  "zstd_exec_prefix_sum sequences sequence_count literals_size block_maximum dests dests_capacity =
     (if dests_capacity < 1 \<or> dests_capacity - 1 < sequence_count
      then Some (Inl (CUDEC_ERR_INVALID_ARGUMENT, kZstdExecRejectBadRequest), dests)
      else do {
        (summed, dests, _) \<leftarrow> zstd_exec_prefix_sum_tile sequences sequence_count literals_size block_maximum
          \<lparr>ca_at = 0, ca_literals_used = 0\<rparr> dests None (dests_capacity - 1);
        case summed of
          Inl e \<Rightarrow> Some (Inl e, dests)
        | Inr carry \<Rightarrow> (case zstd_exec_prefix_sum_finish carry literals_size block_maximum of
              (res, None) \<Rightarrow> Some (res, dests)
            | (res, Some last_dest) \<Rightarrow> do { dests \<leftarrow> put dests (unat sequence_count) last_dest; Some (res, dests) })
      })"

section \<open>The copies\<close>

fun exec_literal_copy :: "u8 list \<Rightarrow> u64 \<Rightarrow> u64 \<Rightarrow> nat list \<Rightarrow> u8 list \<Rightarrow> u8 list option" where
  "exec_literal_copy literals literal_at to [] dst = Some dst"
| "exec_literal_copy literals literal_at to (i # is) dst = do {
     b \<leftarrow> rd literals (literal_at + of_nat i);
     dst \<leftarrow> wr dst (to + of_nat i) b;
     exec_literal_copy literals literal_at to is dst
   }"

fun exec_match_copy :: "u64 \<Rightarrow> u64 \<Rightarrow> nat list \<Rightarrow> u8 list \<Rightarrow> u8 list option" where
  "exec_match_copy from_pos to [] dst = Some dst"
| "exec_match_copy from_pos to (i # is) dst = do {
     b \<leftarrow> rd dst (from_pos + of_nat i);
     dst \<leftarrow> wr dst (to + of_nat i) b;
     exec_match_copy from_pos to is dst
   }"

definition zstd_execute_sequence :: "zstd_sequence \<Rightarrow> u64 \<Rightarrow> u64 \<Rightarrow> u64 \<Rightarrow> u8 list \<Rightarrow> u64 \<Rightarrow> u64 \<Rightarrow> u64 \<Rightarrow> u64 \<Rightarrow> u8 list \<Rightarrow> u64 \<Rightarrow>
    ((zstd_exec_error + unit) \<times> u8 list) option" where
  "zstd_execute_sequence q destination next_destination offset literals literals_size literal_at block_size window_size dst base =
     (if literal_at > literals_size then Some (Inl (CUDEC_ERR_INVALID_ARGUMENT, kZstdExecRejectBadRequest), dst)
      else
        let literals_length = (ucast (sq_literals_length q) :: u64);
            match_length = (ucast (sq_match_length q) :: u64)
        in if destination > block_size \<or> literals_length + match_length > block_size - destination \<or>
              destination + literals_length + match_length \<noteq> next_destination
           then Some (Inl (CUDEC_ERR_CORRUPT_INPUT, kZstdExecRejectPlanInconsistent), dst)
           else if literals_length > literals_size - literal_at
           then Some (Inl (CUDEC_ERR_CORRUPT_INPUT, kZstdExecRejectLiteralsExhausted), dst)
           else do {
             let to = base + destination;
             dst \<leftarrow> exec_literal_copy literals literal_at to [0..<unat literals_length] dst;
             let to = to + literals_length;
             if offset = 0 then Some (Inl (CUDEC_ERR_CORRUPT_INPUT, kZstdExecRejectOffsetZero), dst)
             else if offset > window_size then Some (Inl (CUDEC_ERR_CORRUPT_INPUT, kZstdExecRejectOffsetPastWindow), dst)
             else if offset > to then Some (Inl (CUDEC_ERR_CORRUPT_INPUT, kZstdExecRejectOffsetBeforeOutput), dst)
             else do {
               dst \<leftarrow> exec_match_copy (to - offset) to [0..<unat match_length] dst;
               Some (Inr (), dst)
             }
           })"

fun exec_block_loop :: "zstd_sequence list \<Rightarrow> u64 list \<Rightarrow> u64 list \<Rightarrow> u8 list \<Rightarrow> u64 \<Rightarrow> u64 \<Rightarrow> u64 \<Rightarrow> u64 \<Rightarrow> nat list \<Rightarrow> u64 \<Rightarrow> u8 list \<Rightarrow>
    ((zstd_exec_error + u64) \<times> u8 list) option" where
  "exec_block_loop sequences dests offs literals literals_size block_size window_size base [] literal_at dst = Some (Inr literal_at, dst)"
| "exec_block_loop sequences dests offs literals literals_size block_size window_size base (i # is) literal_at dst = do {
     q \<leftarrow> at sequences i; d \<leftarrow> at dests i; d' \<leftarrow> at dests (i + 1); off \<leftarrow> at offs i;
     (res, dst) \<leftarrow> zstd_execute_sequence q d d' off literals literals_size literal_at block_size window_size dst base;
     case res of
       Inl e \<Rightarrow> Some (Inl e, dst)
     | Inr _ \<Rightarrow> exec_block_loop sequences dests offs literals literals_size block_size window_size base is
                 (literal_at + ucast (sq_literals_length q)) dst
   }"

text \<open>The new produced count is part of the success; a refusal leaves the old one.\<close>

definition zstd_execute_block :: "zstd_sequence list \<Rightarrow> u32 \<Rightarrow> u64 list \<Rightarrow> u64 list \<Rightarrow> u8 list \<Rightarrow> u64 \<Rightarrow> zstd_exec_plan \<Rightarrow> u64 \<Rightarrow>
    u8 list \<Rightarrow> u64 \<Rightarrow> u64 \<Rightarrow> ((zstd_exec_error + u64) \<times> u8 list) option" where
  "zstd_execute_block sequences sequence_count dests offs literals literals_size plan window_size dst dst_cap base =
     (if base > dst_cap \<or> pl_block_size plan > dst_cap - base
      then Some (Inl (CUDEC_ERR_CORRUPT_INPUT, kZstdExecRejectBlockPastDeclaration), dst)
      else do {
        (res, dst) \<leftarrow> exec_block_loop sequences dests offs literals literals_size (pl_block_size plan) window_size base
          [0..<unat sequence_count] 0 dst;
        case res of
          Inl e \<Rightarrow> Some (Inl e, dst)
        | Inr literal_at \<Rightarrow> do {
            tail_at \<leftarrow> at dests (unat sequence_count);
            if literal_at \<noteq> pl_literals_used plan \<or> tail_at > pl_block_size plan \<or>
               literals_size - literal_at \<noteq> pl_block_size plan - tail_at
            then Some (Inl (CUDEC_ERR_CORRUPT_INPUT, kZstdExecRejectPlanInconsistent), dst)
            else do {
              dst \<leftarrow> exec_literal_copy literals literal_at (base + tail_at) [0..<unat (literals_size - literal_at)] dst;
              Some (Inr (base + pl_block_size plan), dst)
            }
          }
      })"

section \<open>The sum is exact\<close>

definition seq_lits :: "zstd_sequence \<Rightarrow> nat" where
  "seq_lits q = unat (sq_literals_length q)"

definition seq_match :: "zstd_sequence \<Rightarrow> nat" where
  "seq_match q = unat (sq_match_length q)"

text \<open>What the sequences from \<open>i\<close> up to \<open>k\<close> regenerate, and the literals they consume.\<close>

definition span_sum :: "zstd_sequence list \<Rightarrow> nat \<Rightarrow> nat \<Rightarrow> nat" where
  "span_sum qs i k = (\<Sum>j\<in>{i..<k}. seq_lits (qs ! j) + seq_match (qs ! j))"

definition lit_sum :: "zstd_sequence list \<Rightarrow> nat \<Rightarrow> nat \<Rightarrow> nat" where
  "lit_sum qs i k = (\<Sum>j\<in>{i..<k}. seq_lits (qs ! j))"

lemma sums_empty [simp]: "span_sum qs i i = 0" "lit_sum qs i i = 0"
  by (simp_all add: span_sum_def lit_sum_def)

lemma sums_first:
  "i < k \<Longrightarrow> span_sum qs i k = seq_lits (qs ! i) + seq_match (qs ! i) + span_sum qs (Suc i) k"
  "i < k \<Longrightarrow> lit_sum qs i k = seq_lits (qs ! i) + lit_sum qs (Suc i) k"
  by (simp_all add: span_sum_def lit_sum_def sum.atLeast_Suc_lessThan)

lemma unat_lens [simp]:
  "unat (sq_literals_length q) = seq_lits q" "unat (sq_match_length q) = seq_match q"
  by (simp_all only: seq_lits_def seq_match_def)

lemma lens_less: "seq_lits q < 4294967296" "seq_match q < 4294967296"
  by (simp_all only: seq_lits_def seq_match_def unat_u32_less)

lemma unat_span: "unat (ucast (sq_literals_length q) + ucast (sq_match_length q) :: u64) = seq_lits q + seq_match q"
  using lens_less[of q] by (subst unat_plus) simp_all

definition cursors_ok :: "nat \<Rightarrow> nat \<Rightarrow> (nat \<Rightarrow> nat) \<Rightarrow> u64 list option \<Rightarrow> u64 list option \<Rightarrow> bool" where
  "cursors_ok i n f cursors cursors' \<longleftrightarrow> (case cursors of None \<Rightarrow> cursors' = None
     | Some cs \<Rightarrow> \<exists>cs'. cursors' = Some cs' \<and> length cs' = length cs \<and> (\<forall>k. k < i \<or> n \<le> k \<longrightarrow> cs' ! k = cs ! k) \<and>
         (\<forall>k. i \<le> k \<and> k < n \<longrightarrow> unat (cs' ! k) = f k))"

lemma prefix_loop_contract:
  assumes "i \<le> n" "n \<le> length qs" "n \<le> length dests" "\<forall>cs. cursors = Some cs \<longrightarrow> n \<le> length cs"
    and "unat pos \<le> unat bm" "unat bm \<le> 131072" "unat used \<le> unat ls"
  shows "wp (exec_prefix_loop qs ls bm [i..<n] pos used dests cursors) (\<lambda>(res, dests', cursors').
     length dests' = length dests \<and> (\<forall>k. k < i \<or> n \<le> k \<longrightarrow> dests' ! k = dests ! k) \<and>
     (case res of
        Inl (st, _) \<Rightarrow> st = CUDEC_ERR_CORRUPT_INPUT \<and> (unat bm < unat pos + span_sum qs i n \<or> unat ls < unat used + lit_sum qs i n)
      | Inr (pos', used') \<Rightarrow> unat pos' = unat pos + span_sum qs i n \<and> unat pos' \<le> unat bm \<and>
          unat used' = unat used + lit_sum qs i n \<and> unat used' \<le> unat ls \<and>
          (\<forall>k. i \<le> k \<and> k < n \<longrightarrow> unat (dests' ! k) = unat pos + span_sum qs i k) \<and>
          cursors_ok i n (\<lambda>k. unat used + lit_sum qs i k) cursors cursors'))"
  using assms
proof (induction "n - i" arbitrary: i pos used dests cursors)
  case 0
  then have e: "i = n" by simp
  show ?case using 0 by (auto simp: e wp_Some cursors_ok_def split: option.splits)
next
  case (Suc m)
  then have lt: "i < n" by simp
  have up: "[i..<n] = i # [Suc i..<n]" using lt by (simp add: upt_conv_Cons)
  let ?q = "qs ! i" and ?d = "dests[i := pos]"
  let ?ll = "ucast (sq_literals_length ?q) :: u64" and ?ml = "ucast (sq_match_length ?q) :: u64"
  define cu where "cu = map_option (\<lambda>cs. cs[i := used]) cursors"
  have cu: "(case cursors of None \<Rightarrow> Some None | Some cs \<Rightarrow> map_option Some (put cs i used)) = Some cu"
    using Suc.prems(4) lt by (auto simp: cu_def split: option.splits)
  have bp: "unat (bm - pos) = unat bm - unat pos" by (rule unat_minus[OF Suc.prems(5)])
  have lu: "unat (ls - used) = unat ls - unat used" by (rule unat_minus[OF Suc.prems(7)])
  have big: "?ll + ?ml > bm - pos \<longleftrightarrow> unat bm < unat pos + (seq_lits ?q + seq_match ?q)"
    by (simp only: w2n unat_span bp) (use Suc.prems(5) in linarith)
  have ex: "?ll > ls - used \<longleftrightarrow> unat ls < unat used + seq_lits ?q"
    by (simp only: w2n unat_ucast_u32_u64 unat_lens lu) (use Suc.prems(7) in linarith)
  have eq: "exec_prefix_loop qs ls bm [i..<n] pos used dests cursors =
      (if unat bm < unat pos + (seq_lits ?q + seq_match ?q) then Some (Inl (CUDEC_ERR_CORRUPT_INPUT, kZstdExecRejectBlockTooLarge), ?d, cu)
       else if unat ls < unat used + seq_lits ?q then Some (Inl (CUDEC_ERR_CORRUPT_INPUT, kZstdExecRejectLiteralsExhausted), ?d, cu)
       else exec_prefix_loop qs ls bm [Suc i..<n] (pos + (?ll + ?ml)) (used + ?ll) ?d cu)"
    using lt Suc.prems(2,3) by (simp only: up exec_prefix_loop.simps cu big ex Let_def put_Some at_Some bind.bind_lunit)
  show ?case
  proof (cases "unat bm < unat pos + (seq_lits ?q + seq_match ?q) \<or> unat ls < unat used + seq_lits ?q")
    case True
    then show ?thesis using Suc.prems lt by (auto simp: eq wp_Some sums_first)
  next
    case False
    have p': "unat (pos + (?ll + ?ml)) = unat pos + (seq_lits ?q + seq_match ?q)"
      using False Suc.prems(6) by (subst unat_plus) (simp_all add: unat_span)
    have u': "unat (used + ?ll) = unat used + seq_lits ?q"
      using False unat_u64_less[of ls] by (subst unat_plus) simp_all
    have "wp (exec_prefix_loop qs ls bm [Suc i..<n] (pos + (?ll + ?ml)) (used + ?ll) ?d cu) (\<lambda>(res, dests', cursors').
     length dests' = length ?d \<and> (\<forall>k. k < Suc i \<or> n \<le> k \<longrightarrow> dests' ! k = ?d ! k) \<and>
     (case res of
        Inl (st, _) \<Rightarrow> st = CUDEC_ERR_CORRUPT_INPUT \<and> (unat bm < unat (pos + (?ll + ?ml)) + span_sum qs (Suc i) n \<or> unat ls < unat (used + ?ll) + lit_sum qs (Suc i) n)
      | Inr (pos', used') \<Rightarrow> unat pos' = unat (pos + (?ll + ?ml)) + span_sum qs (Suc i) n \<and> unat pos' \<le> unat bm \<and>
          unat used' = unat (used + ?ll) + lit_sum qs (Suc i) n \<and> unat used' \<le> unat ls \<and>
          (\<forall>k. Suc i \<le> k \<and> k < n \<longrightarrow> unat (dests' ! k) = unat (pos + (?ll + ?ml)) + span_sum qs (Suc i) k) \<and>
          cursors_ok (Suc i) n (\<lambda>k. unat (used + ?ll) + lit_sum qs (Suc i) k) cu cursors'))"
      by (rule Suc.hyps(1)) (use Suc.hyps(2) Suc.prems lt False p' u' in \<open>auto simp: cu_def\<close>)
    then have "wp (exec_prefix_loop qs ls bm [Suc i..<n] (pos + (?ll + ?ml)) (used + ?ll) ?d cu) (\<lambda>(res, dests', cursors').
       length dests' = length dests \<and> (\<forall>k. k < i \<or> n \<le> k \<longrightarrow> dests' ! k = dests ! k) \<and>
       (case res of
          Inl (st, _) \<Rightarrow> st = CUDEC_ERR_CORRUPT_INPUT \<and> (unat bm < unat pos + span_sum qs i n \<or> unat ls < unat used + lit_sum qs i n)
        | Inr (pos', used') \<Rightarrow> unat pos' = unat pos + span_sum qs i n \<and> unat pos' \<le> unat bm \<and>
            unat used' = unat used + lit_sum qs i n \<and> unat used' \<le> unat ls \<and>
            (\<forall>k. i \<le> k \<and> k < n \<longrightarrow> unat (dests' ! k) = unat pos + span_sum qs i k) \<and>
            cursors_ok i n (\<lambda>k. unat used + lit_sum qs i k) cursors cursors'))"
    proof (rule wp_mono, goal_cases)
      case (1 x)
      obtain res dests' cursors' where x: "x = (res, dests', cursors')" by (cases x)
      have dk: "dests' ! i = pos" "k < i \<or> n \<le> k \<Longrightarrow> dests' ! k = dests ! k" for k
        using 1 lt Suc.prems(3) by (auto simp: x)
      show ?case
      proof (cases res)
        case (Inl e)
        then show ?thesis using 1 dk lt by (auto simp: x p' u' sums_first)
      next
        case (Inr r)
        have dv: "unat (dests' ! k) = unat pos + span_sum qs i k" if "i \<le> k" "k < n" for k
          using that 1 dk(1) Inr by (cases "i = k") (auto simp: x p' sums_first)
        have co: "cursors_ok i n (\<lambda>k. unat used + lit_sum qs i k) cursors cursors'"
        proof (cases cursors)
          case None
          then show ?thesis using 1 Inr by (auto simp: x cursors_ok_def cu_def)
        next
          case (Some cs)
          then obtain cs' where cs': "cursors' = Some cs'" "length cs' = length cs" "\<forall>k. k < Suc i \<or> n \<le> k \<longrightarrow> cs' ! k = cs[i := used] ! k"
            "\<forall>k. Suc i \<le> k \<and> k < n \<longrightarrow> unat (cs' ! k) = unat (used + ?ll) + lit_sum qs (Suc i) k"
            using 1 Inr by (auto simp: x cursors_ok_def cu_def)
          have "unat (cs' ! k) = unat used + lit_sum qs i k" if "i \<le> k" "k < n" for k
            using that cs' Suc.prems(4) Some by (cases "i = k") (auto simp: u' sums_first)
          then show ?thesis using cs' Some lt by (auto simp: cursors_ok_def)
        qed
        show ?thesis using 1 dk(2) dv co lt Inr by (auto simp: x p' u' sums_first)
      qed
    qed
    then show ?thesis using False by (simp add: eq)
  qed
qed

definition carry_bound :: "zstd_exec_carry \<Rightarrow> nat \<Rightarrow> nat \<Rightarrow> bool" where
  "carry_bound c ls bm \<longleftrightarrow> bm \<le> 131072 \<and> ls \<le> 131072 \<and> unat (ca_at c) \<le> bm \<and> unat (ca_literals_used c) \<le> ls"

lemma carry_bound_test:
  "(block_max > kZstdBlockSizeCeiling \<or> ls > kZstdBlockSizeCeiling \<or> ca_at c > block_max \<or> ca_literals_used c > ls) \<longleftrightarrow>
   \<not> carry_bound c (unat ls) (unat block_max)"
  by (auto simp: carry_bound_def w2n zstd_frame_consts not_le)

lemma prefix_tile_contract:
  assumes "unat n \<le> unat dcap" "unat dcap \<le> length dests" "unat n \<le> length qs" "\<forall>cs. cursors = Some cs \<longrightarrow> unat n \<le> length cs"
    and c: "carry_bound carry (unat ls) (unat bm)"
  shows "wp (zstd_exec_prefix_sum_tile qs n ls bm carry dests cursors dcap) (\<lambda>(res, dests', cursors').
     length dests' = length dests \<and> (\<forall>k\<ge>unat n. dests' ! k = dests ! k) \<and>
     (case res of
        Inl (st, _) \<Rightarrow> st = CUDEC_ERR_CORRUPT_INPUT \<and> (unat bm < unat (ca_at carry) + span_sum qs 0 (unat n) \<or>
          unat ls < unat (ca_literals_used carry) + lit_sum qs 0 (unat n))
      | Inr c' \<Rightarrow> carry_bound c' (unat ls) (unat bm) \<and> unat (ca_at c') = unat (ca_at carry) + span_sum qs 0 (unat n) \<and>
          unat (ca_literals_used c') = unat (ca_literals_used carry) + lit_sum qs 0 (unat n) \<and>
          (\<forall>k<unat n. unat (dests' ! k) = unat (ca_at carry) + span_sum qs 0 k) \<and>
          cursors_ok 0 (unat n) (\<lambda>k. unat (ca_literals_used carry) + lit_sum qs 0 k) cursors cursors'))"
proof -
  have g: "\<not> (dcap < n \<or> bm > kZstdBlockSizeCeiling \<or> ls > kZstdBlockSizeCeiling \<or> ca_at carry > bm \<or> ca_literals_used carry > ls)"
    using assms(1) c carry_bound_test[of bm ls carry] by (auto simp: w2n)
  have b: "unat (ca_at carry) \<le> unat bm" "unat bm \<le> 131072" "unat (ca_literals_used carry) \<le> unat ls" "unat ls \<le> 131072"
    using c by (simp_all add: carry_bound_def)
  show ?thesis unfolding zstd_exec_prefix_sum_tile_def if_not_P[OF g]
  proof (rule wp_bind3[OF prefix_loop_contract[where i = 0 and n = "unat n"]], goal_cases)
    case (8 res dests' cursors')
    then show ?case using b(2,4) by (auto simp: wp_Some carry_bound_def split: sum.splits prod.splits)
  qed (use assms(1-4) b in auto)
qed

text \<open>The whole block: where every sequence writes, where the tail starts, and what the block regenerates.\<close>

definition plan_ok :: "zstd_sequence list \<Rightarrow> nat \<Rightarrow> nat \<Rightarrow> u64 list \<Rightarrow> zstd_exec_plan \<Rightarrow> bool" where
  "plan_ok qs n ls dests plan \<longleftrightarrow> (\<forall>k\<le>n. unat (dests ! k) = span_sum qs 0 k) \<and>
     unat (pl_literals_used plan) = lit_sum qs 0 n \<and> lit_sum qs 0 n \<le> ls \<and>
     unat (pl_block_size plan) = span_sum qs 0 n + (ls - lit_sum qs 0 n)"

lemma prefix_sum_contract:
  assumes "unat n < unat dcap" "unat dcap \<le> length dests" "unat n \<le> length qs" "unat ls \<le> 131072" "unat bm \<le> 131072"
  shows "wp (zstd_exec_prefix_sum qs n ls bm dests dcap) (\<lambda>(res, dests'). length dests' = length dests \<and> (case res of
      Inl (st, _) \<Rightarrow> st = CUDEC_ERR_CORRUPT_INPUT \<and>
        \<not> (lit_sum qs 0 (unat n) \<le> unat ls \<and> span_sum qs 0 (unat n) + (unat ls - lit_sum qs 0 (unat n)) \<le> unat bm)
    | Inr plan \<Rightarrow> plan_ok qs (unat n) (unat ls) dests' plan \<and> unat (pl_block_size plan) \<le> unat bm))"
proof -
  let ?c0 = "\<lparr>ca_at = 0, ca_literals_used = 0\<rparr>"
  have d1: "unat (dcap - 1) = unat dcap - 1" using assms(1) by (subst unat_minus) simp_all
  have g: "\<not> (dcap < 1 \<or> dcap - 1 < n)" using assms(1) d1 by (auto simp: w2n)
  have c0: "carry_bound ?c0 (unat ls) (unat bm)" using assms(4,5) by (simp add: carry_bound_def)
  show ?thesis unfolding zstd_exec_prefix_sum_def if_not_P[OF g]
  proof (rule wp_bind3[OF prefix_tile_contract[OF _ _ assms(3) _ c0]], goal_cases)
    case (4 res dests' cursors')
    show ?case
    proof (cases res)
      case (Inl e)
      then show ?thesis using 4 by (cases e) (auto simp: wp_Some)
    next
      case (Inr c)
      have c: "carry_bound c (unat ls) (unat bm)" "unat (ca_at c) = span_sum qs 0 (unat n)" "unat (ca_literals_used c) = lit_sum qs 0 (unat n)"
        "\<forall>k<unat n. unat (dests' ! k) = span_sum qs 0 k" "length dests' = length dests" using 4 Inr by simp_all
      have cb: "unat (ca_at c) \<le> unat bm" "unat (ca_literals_used c) \<le> unat ls" using c(1) by (simp_all add: carry_bound_def)
      have tl: "unat (ls - ca_literals_used c) = unat ls - unat (ca_literals_used c)" by (rule unat_minus[OF cb(2)])
      have room: "unat (bm - ca_at c) = unat bm - unat (ca_at c)" by (rule unat_minus[OF cb(1)])
      have ng: "\<not> (bm > kZstdBlockSizeCeiling \<or> ls > kZstdBlockSizeCeiling \<or> ca_at c > bm \<or> ca_literals_used c > ls)"
        using carry_bound_test[of bm ls c] c(1) by blast
      have len: "unat n < length dests'" using assms(1,2) c(5) by simp
      show ?thesis
      proof (cases "ls - ca_literals_used c > bm - ca_at c")
        case True
        then have "unat bm < unat (ca_at c) + (unat ls - unat (ca_literals_used c))" using cb by (simp add: w2n tl room)
        then show ?thesis using True c len
          by (simp add: Inr zstd_exec_prefix_sum_finish_def if_not_P[OF ng] wp_Some)
      next
        case False
        then have le: "unat (ca_at c) + (unat ls - unat (ca_literals_used c)) \<le> unat bm" using cb by (simp add: w2n tl room not_less)
        then have "unat (ca_at c + (ls - ca_literals_used c)) = unat (ca_at c) + (unat ls - unat (ca_literals_used c))"
          using assms(5) by (subst unat_plus) (simp_all add: tl)
        then show ?thesis using False c len cb le
          by (auto simp: Inr zstd_exec_prefix_sum_finish_def if_not_P[OF ng] wp_Some plan_ok_def nth_list_update)
      qed
    qed
  qed (use assms(1,2) d1 in auto)
qed

section \<open>The copies produce the sequences' bytes\<close>

text \<open>The format's reading: the literals are appended, the match is copied from what is there.\<close>

fun block_bytes :: "nat \<Rightarrow> (zstd_sequence \<times> nat) list \<Rightarrow> u8 list \<Rightarrow> u8 list \<Rightarrow> u8 list option" where
  "block_bytes win [] lits out = Some (out @ lits)"
| "block_bytes win ((q, off) # qs) lits out =
     (if length lits < seq_lits q \<or> off = 0 \<or> win < off \<or> length out + seq_lits q < off then None
      else block_bytes win qs (drop (seq_lits q) lits) (lz_copy off (seq_match q) (out @ take (seq_lits q) lits)))"

lemma literal_copy_contract:
  assumes "i \<le> n" "unat la + n \<le> length lits" "unat la + n < 2 ^ 64" "length out = unat to + i" "length out + (n - i) \<le> length dst"
    "length dst < 2 ^ 64" "take (length out) dst = out"
  shows "\<exists>dst'. exec_literal_copy lits la to [i..<n] dst = Some dst' \<and> length dst' = length dst \<and>
     take (unat to + n) dst' = out @ take (n - i) (drop (unat la + i) lits) \<and> drop (unat to + n) dst' = drop (unat to + n) dst"
  using assms
proof (induction "n - i" arbitrary: i dst out)
  case 0
  then show ?case by simp
next
  case (Suc m)
  then have lt: "i < n" and m: "m = n - Suc i" by simp_all
  have u: "unat (la + of_nat i) = unat la + i" "unat (to + of_nat i) = unat to + i"
    using Suc.prems lt by (subst unat_plus; simp add: unat_of_nat_less)+
  let ?b = "lits ! (unat la + i)" and ?d = "dst[unat to + i := lits ! (unat la + i)]"
  have r: "rd lits (la + of_nat i) = Some ?b" "wr dst (to + of_nat i) ?b = Some ?d"
    using Suc.prems lt by (simp_all add: rd_def wr_def u)
  have "take (length (out @ [?b])) ?d = out @ [?b]"
    using Suc.prems lt by (simp add: take_Suc_conv_app_nth take_update_cancel)
  then obtain dst' where d: "exec_literal_copy lits la to [Suc i..<n] ?d = Some dst'" "length dst' = length dst"
     "take (unat to + n) dst' = (out @ [?b]) @ take (n - Suc i) (drop (unat la + Suc i) lits)"
     "drop (unat to + n) dst' = drop (unat to + n) ?d"
    using Suc.hyps(1)[of "Suc i" "out @ [?b]" ?d, OF m] Suc.prems lt by auto
  have "drop (unat la + i) lits = ?b # drop (unat la + Suc i) lits" "n - i = Suc (n - Suc i)"
    using Suc.prems lt by (simp_all add: Cons_nth_drop_Suc)
  then show ?case using d lt by (simp add: upt_conv_Cons r)
qed

lemma lz_copy_suffix: "lz_copy off (Suc n) out = lz_copy off n (out @ [out ! (length out - off)])" if "0 < off" "off \<le> length out"
proof (induction n)
  case (Suc n)
  show ?case unfolding lz_copy.simps(2)[of off "Suc n" out] Suc by simp
qed simp

lemma match_copy_contract:
  assumes "i \<le> n" "0 < off" "off \<le> unat to" "unat from_pos = unat to - off" "length out = unat to + i" "length out + (n - i) \<le> length dst"
    "length dst < 2 ^ 64" "take (length out) dst = out"
  shows "\<exists>dst'. exec_match_copy from_pos to [i..<n] dst = Some dst' \<and> length dst' = length dst \<and>
     take (unat to + n) dst' = lz_copy off (n - i) out \<and> drop (unat to + n) dst' = drop (unat to + n) dst"
  using assms
proof (induction "n - i" arbitrary: i dst out)
  case 0
  then show ?case by simp
next
  case (Suc m)
  then have lt: "i < n" and m: "m = n - Suc i" by simp_all
  have u: "unat (from_pos + of_nat i) = unat to - off + i" "unat (to + of_nat i) = unat to + i"
    using Suc.prems lt by (subst unat_plus; simp add: unat_of_nat_less)+
  have src: "dst ! (unat to - off + i) = out ! (length out - off)"
  proof -
    have "unat to - off + i < length out" "length out - off = unat to - off + i" using Suc.prems by auto
    then show ?thesis using Suc.prems(8) by (metis nth_take)
  qed
  let ?b = "out ! (length out - off)" and ?d = "dst[unat to + i := out ! (length out - off)]"
  have r: "rd dst (from_pos + of_nat i) = Some ?b" "wr dst (to + of_nat i) ?b = Some ?d"
    using Suc.prems lt src by (simp_all add: rd_def wr_def u)
  have "take (length (out @ [?b])) ?d = out @ [?b]"
    using Suc.prems lt by (simp add: take_Suc_conv_app_nth take_update_cancel)
  then obtain dst' where d: "exec_match_copy from_pos to [Suc i..<n] ?d = Some dst'" "length dst' = length dst"
     "take (unat to + n) dst' = lz_copy off (n - Suc i) (out @ [?b])" "drop (unat to + n) dst' = drop (unat to + n) ?d"
    using Suc.hyps(1)[of "Suc i" "out @ [?b]" ?d, OF m] Suc.prems lt by auto
  have "n - i = Suc (n - Suc i)" using lt by simp
  then have "lz_copy off (n - i) out = lz_copy off (n - Suc i) (out @ [?b])"
    using lz_copy_suffix[of off out "n - Suc i"] Suc.prems by simp
  then show ?case using d lt by (simp add: upt_conv_Cons r)
qed

text \<open>One sequence writes only its own part of the block, and succeeds exactly when it is legal.\<close>

definition sequence_fits :: "zstd_sequence \<Rightarrow> nat \<Rightarrow> nat \<Rightarrow> nat \<Rightarrow> nat \<Rightarrow> nat \<Rightarrow> nat \<Rightarrow> nat \<Rightarrow> nat \<Rightarrow> bool" where
  "sequence_fits q dest nxt off ls la bsz win base \<longleftrightarrow> dest + seq_lits q + seq_match q = nxt \<and> nxt \<le> bsz \<and> la + seq_lits q \<le> ls \<and>
     0 < off \<and> off \<le> win \<and> off \<le> base + dest + seq_lits q"

lemma execute_sequence_contract:
  assumes len: "unat base + unat bsz \<le> length dst" "length dst < 2 ^ 64" and lits: "unat ls \<le> length lits" and la: "unat la \<le> unat ls"
  shows "wp (zstd_execute_sequence q dest nxt off lits ls la bsz win dst base) (\<lambda>(res, dst').
     length dst' = length dst \<and> take (unat base + unat dest) dst' = take (unat base + unat dest) dst \<and>
     drop (unat base + unat bsz) dst' = drop (unat base + unat bsz) dst \<and>
     (case res of
        Inl (st, _) \<Rightarrow> st = CUDEC_ERR_CORRUPT_INPUT \<and> \<not> sequence_fits q (unat dest) (unat nxt) (unat off) (unat ls) (unat la) (unat bsz) (unat win) (unat base)
      | Inr _ \<Rightarrow> sequence_fits q (unat dest) (unat nxt) (unat off) (unat ls) (unat la) (unat bsz) (unat win) (unat base) \<and>
          take (unat base + unat nxt) dst' = lz_copy (unat off) (seq_match q) (take (unat base + unat dest) dst @ take (seq_lits q) (drop (unat la) lits))))"
proof -
  let ?ll = "ucast (sq_literals_length q) :: u64" and ?ml = "ucast (sq_match_length q) :: u64"
  have g: "\<not> la > ls" using la by (simp add: w2n)
  have ll: "unat (ls - la) = unat ls - unat la" by (rule unat_minus[OF la])
  have more: "?ll > ls - la \<longleftrightarrow> unat ls < unat la + seq_lits q" by (simp only: w2n unat_ucast_u32_u64 unat_lens ll) (use la in linarith)
  note start = zstd_execute_sequence_def if_not_P[OF g] Let_def
  define bad where "bad \<longleftrightarrow> dest > bsz \<or> ?ll + ?ml > bsz - dest \<or> dest + ?ll + ?ml \<noteq> nxt"
  have bad: "\<not> bad \<longleftrightarrow> unat dest + seq_lits q + seq_match q = unat nxt \<and> unat nxt \<le> unat bsz"
  proof (cases "dest > bsz")
    case True
    then show ?thesis by (auto simp: bad_def w2n)
  next
    case False
    then have d: "unat dest \<le> unat bsz" by (simp add: w2n not_less)
    have r: "unat (bsz - dest) = unat bsz - unat dest" by (rule unat_minus[OF d])
    have c: "?ll + ?ml > bsz - dest \<longleftrightarrow> unat bsz < unat dest + (seq_lits q + seq_match q)"
      by (simp only: w2n unat_span r) (use d in linarith)
    show ?thesis
    proof (cases "unat bsz < unat dest + (seq_lits q + seq_match q)")
      case True
      then show ?thesis using c by (auto simp: bad_def)
    next
      case ok: False
      have "unat (dest + ?ll + ?ml) = unat dest + seq_lits q + seq_match q"
      proof -
        have "unat (dest + (?ll + ?ml)) = unat dest + unat (?ll + ?ml)"
          using ok unat_u64_less[of bsz] by (intro unat_plus) (simp add: unat_span)
        then show ?thesis by (simp add: unat_span add.assoc)
      qed
      then have "dest + ?ll + ?ml = nxt \<longleftrightarrow> unat dest + seq_lits q + seq_match q = unat nxt" by (simp add: word_unat_eq_iff)
      then show ?thesis using False ok c by (auto simp: bad_def)
    qed
  qed
  show ?thesis
  proof (cases "bad")
    case True
    then have "\<not> sequence_fits q (unat dest) (unat nxt) (unat off) (unat ls) (unat la) (unat bsz) (unat win) (unat base)"
      using bad by (auto simp: sequence_fits_def)
    then show ?thesis unfolding start bad_def[symmetric] if_P[OF True] by (simp add: wp_Some)
  next
    case False
    then have fit: "unat dest + seq_lits q + seq_match q = unat nxt" "unat nxt \<le> unat bsz" using bad by blast+
    show ?thesis
    proof (cases "unat ls < unat la + seq_lits q")
      case True
      then show ?thesis unfolding start bad_def[symmetric] if_not_P[OF False] more if_P[OF True]
        by (simp add: wp_Some sequence_fits_def)
    next
      case lok: False
      let ?out = "take (unat base + unat dest) dst"
      have to: "unat (base + dest) = unat base + unat dest" using fit len by (intro unat_plus) simp
      have to2: "unat (base + dest + ?ll) = unat base + unat dest + seq_lits q" using fit len to by (subst unat_plus) simp_all
      obtain d1 where d1: "exec_literal_copy lits la (base + dest) [0..<unat ?ll] dst = Some d1" "length d1 = length dst"
        "take (unat (base + dest) + seq_lits q) d1 = ?out @ take (seq_lits q) (drop (unat la) lits)"
        "drop (unat (base + dest) + seq_lits q) d1 = drop (unat (base + dest) + seq_lits q) dst"
        using literal_copy_contract[of 0 "seq_lits q" la lits ?out "base + dest" dst] lok lits len fit to unat_u64_less[of ls] by auto
      let ?o1 = "?out @ take (seq_lits q) (drop (unat la) lits)"
      have lo: "length ?o1 = unat base + unat dest + seq_lits q" using lok lits len fit by simp
      have fr1: "take (unat base + unat dest) d1 = ?out" "drop (unat base + unat bsz) d1 = drop (unat base + unat bsz) dst"
      proof -
        have "take (unat base + unat dest) (take (unat base + unat dest + seq_lits q) d1) = ?out" using d1(3) len fit by (simp add: to)
        then show "take (unat base + unat dest) d1 = ?out" by simp
        have "drop (unat bsz - unat dest - seq_lits q) (drop (unat base + unat dest + seq_lits q) d1) =
            drop (unat bsz - unat dest - seq_lits q) (drop (unat base + unat dest + seq_lits q) dst)" using d1(4) by (simp add: to)
        then show "drop (unat base + unat bsz) d1 = drop (unat base + unat bsz) dst" using fit by (simp add: add.commute add.left_commute)
      qed
      note body = start bad_def[symmetric] if_not_P[OF False] more if_not_P[OF lok] d1(1) bind.bind_lunit
      have iff: "off = 0 \<or> off > win \<or> off > base + dest + ?ll \<longleftrightarrow>
          \<not> sequence_fits q (unat dest) (unat nxt) (unat off) (unat ls) (unat la) (unat bsz) (unat win) (unat base)"
        using fit lok by (auto simp: sequence_fits_def w2n to2 unat_eq_0 unat_gt_0)
      show ?thesis
      proof (cases "off = 0 \<or> off > win \<or> off > base + dest + ?ll")
        case True
        then show ?thesis unfolding body using iff fr1 d1(2) by (auto simp: wp_Some)
      next
        case ok: False
        then have off: "0 < unat off" "unat off \<le> unat base + unat dest + seq_lits q" by (auto simp: w2n to2 unat_gt_0)
        have from_u: "unat (base + dest + ?ll - off) = unat base + unat dest + seq_lits q - unat off"
          using off(2) to2 by (subst unat_minus) simp_all
        obtain d2 where d2: "exec_match_copy (base + dest + ?ll - off) (base + dest + ?ll) [0..<unat ?ml] d1 = Some d2" "length d2 = length d1"
          "take (unat (base + dest + ?ll) + seq_match q) d2 = lz_copy (unat off) (seq_match q) ?o1"
          "drop (unat (base + dest + ?ll) + seq_match q) d2 = drop (unat (base + dest + ?ll) + seq_match q) d1"
          using match_copy_contract[of 0 "seq_match q" "unat off" "base + dest + ?ll" "base + dest + ?ll - off" ?o1 d1]
            off from_u to2 lo d1(2,3) len fit to by auto
        have e: "unat base + unat nxt = unat (base + dest + ?ll) + seq_match q" using fit to2 by simp
        have fr2: "take (unat base + unat dest) d2 = ?out" "drop (unat base + unat bsz) d2 = drop (unat base + unat bsz) dst"
        proof -
          obtain t where "lz_copy (unat off) (seq_match q) ?o1 = ?o1 @ t"
            using lz_copy_closed[of "unat off" ?o1 "seq_match q"] off lo by auto
          then have "take (unat base + unat dest) (lz_copy (unat off) (seq_match q) ?o1) = take (unat base + unat dest) ?o1"
            using lo by simp
          then have "take (unat base + unat dest) (take (unat base + unat nxt) d2) = ?out" using d2(3) e len fit by simp
          then show "take (unat base + unat dest) d2 = ?out" using fit by (simp add: min_def split: if_splits)
          have "drop (unat bsz - unat nxt) (drop (unat base + unat nxt) d2) = drop (unat bsz - unat nxt) (drop (unat base + unat nxt) d1)"
            using d2(4) e by simp
          then show "drop (unat base + unat bsz) d2 = drop (unat base + unat bsz) dst" using fit fr1(2) by (simp add: add.commute add.left_commute)
        qed
        show ?thesis unfolding body using ok d2 iff fr2 d1(2) e by (auto simp: wp_Some)
      qed
    qed
  qed
qed

section \<open>A block\<close>

text \<open>The same reading with the literals left over, for a loop that stops before the tail.\<close>

fun block_run :: "nat \<Rightarrow> (zstd_sequence \<times> nat) list \<Rightarrow> u8 list \<Rightarrow> u8 list \<Rightarrow> (u8 list \<times> u8 list) option" where
  "block_run win [] lits out = Some (lits, out)"
| "block_run win ((q, off) # qs) lits out =
     (if length lits < seq_lits q \<or> off = 0 \<or> win < off \<or> length out + seq_lits q < off then None
      else block_run win qs (drop (seq_lits q) lits) (lz_copy off (seq_match q) (out @ take (seq_lits q) lits)))"

lemma block_bytes_run: "block_bytes win qs lits out = map_option (\<lambda>(l, o'). o' @ l) (block_run win qs lits out)"
  by (induction win qs lits out rule: block_run.induct) simp_all

definition dests_chain :: "zstd_sequence list \<Rightarrow> nat \<Rightarrow> nat \<Rightarrow> nat \<Rightarrow> u64 list \<Rightarrow> bool" where
  "dests_chain qs bsz i n dests \<longleftrightarrow> (\<forall>k. i \<le> k \<and> k < n \<longrightarrow>
     unat (dests ! k) + seq_lits (qs ! k) + seq_match (qs ! k) = unat (dests ! (k + 1)) \<and> unat (dests ! (k + 1)) \<le> bsz)"

lemma dests_chain_first:
  "i < n \<Longrightarrow> dests_chain qs bsz i n dests \<longleftrightarrow> (unat (dests ! i) + seq_lits (qs ! i) + seq_match (qs ! i) = unat (dests ! (i + 1)) \<and>
     unat (dests ! (i + 1)) \<le> bsz) \<and> dests_chain qs bsz (Suc i) n dests"
  unfolding dests_chain_def by (metis Suc_leD Suc_leI le_eq_less_or_eq order_refl)

definition seqs_from :: "zstd_sequence list \<Rightarrow> u64 list \<Rightarrow> nat \<Rightarrow> nat \<Rightarrow> (zstd_sequence \<times> nat) list" where
  "seqs_from qs offs i n = map (\<lambda>k. (qs ! k, unat (offs ! k))) [i..<n]"

lemma seqs_from_simps [simp]: "seqs_from qs offs n n = []"
  "i < n \<Longrightarrow> seqs_from qs offs i n = (qs ! i, unat (offs ! i)) # seqs_from qs offs (Suc i) n"
  by (simp_all add: seqs_from_def upt_conv_Cons)

lemma block_loop_contract:
  assumes "i \<le> n" "n \<le> length qs" "n < length dests" "n \<le> length offs"
    and "unat base + unat bsz \<le> length dst" "length dst < 2 ^ 64" "unat ls \<le> length lits" "unat la \<le> unat ls"
    and "unat (dests ! i) \<le> unat bsz"
  shows "wp (exec_block_loop qs dests offs lits ls bsz win base [i..<n] la dst) (\<lambda>(res, dst').
     length dst' = length dst \<and> take (unat base + unat (dests ! i)) dst' = take (unat base + unat (dests ! i)) dst \<and>
     drop (unat base + unat bsz) dst' = drop (unat base + unat bsz) dst \<and>
     (case res of
        Inl (st, _) \<Rightarrow> st = CUDEC_ERR_CORRUPT_INPUT \<and>
          \<not> (dests_chain qs (unat bsz) i n dests \<and> block_run (unat win) (seqs_from qs offs i n) (drop (unat la) (take (unat ls) lits))
                (take (unat base + unat (dests ! i)) dst) \<noteq> None)
      | Inr la' \<Rightarrow> dests_chain qs (unat bsz) i n dests \<and> unat la' \<le> unat ls \<and> unat la' = unat la + lit_sum qs i n \<and>
          block_run (unat win) (seqs_from qs offs i n) (drop (unat la) (take (unat ls) lits)) (take (unat base + unat (dests ! i)) dst) =
            Some (drop (unat la') (take (unat ls) lits), take (unat base + unat (dests ! n)) dst')))"
  using assms
proof (induction "n - i" arbitrary: i la dst)
  case 0
  then have "i = n" by simp
  then show ?case using 0 by (simp add: wp_Some dests_chain_def)
next
  case (Suc m)
  then have lt: "i < n" and m: "m = n - Suc i" by simp_all
  let ?q = "qs ! i" and ?d = "dests ! i" and ?d' = "dests ! (i + 1)" and ?off = "offs ! i"
  let ?out = "take (unat base + unat ?d) dst" and ?lits = "drop (unat la) (take (unat ls) lits)"
  let ?la' = "la + ucast (sq_literals_length ?q)"
  let ?Q = "\<lambda>(res, dst'). length dst' = length dst \<and> take (unat base + unat (dests ! i)) dst' = take (unat base + unat (dests ! i)) dst \<and>
     drop (unat base + unat bsz) dst' = drop (unat base + unat bsz) dst \<and>
     (case res of
        Inl (st, _) \<Rightarrow> st = CUDEC_ERR_CORRUPT_INPUT \<and>
          \<not> (dests_chain qs (unat bsz) i n dests \<and> block_run (unat win) (seqs_from qs offs i n) ?lits ?out \<noteq> None)
      | Inr la' \<Rightarrow> dests_chain qs (unat bsz) i n dests \<and> unat la' \<le> unat ls \<and> unat la' = unat la + lit_sum qs i n \<and>
          block_run (unat win) (seqs_from qs offs i n) ?lits ?out =
            Some (drop (unat la') (take (unat ls) lits), take (unat base + unat (dests ! n)) dst'))"
  define fits where "fits \<longleftrightarrow> sequence_fits ?q (unat ?d) (unat ?d') (unat ?off) (unat ls) (unat la) (unat bsz) (unat win) (unat base)"
  have ll: "length ?lits = unat ls - unat la" using Suc.prems by simp
  have lo: "length ?out = unat base + unat ?d" using Suc.prems by simp
  have fits: "fits \<longleftrightarrow> (unat ?d + seq_lits ?q + seq_match ?q = unat ?d' \<and> unat ?d' \<le> unat bsz) \<and>
      \<not> (length ?lits < seq_lits ?q \<or> unat ?off = 0 \<or> unat win < unat ?off \<or> length ?out + seq_lits ?q < unat ?off)"
    unfolding fits_def sequence_fits_def ll lo using Suc.prems(8) by auto
  have run: "block_run (unat win) (seqs_from qs offs i n) ?lits ?out =
      (if length ?lits < seq_lits ?q \<or> unat ?off = 0 \<or> unat win < unat ?off \<or> length ?out + seq_lits ?q < unat ?off then None
       else block_run (unat win) (seqs_from qs offs (Suc i) n) (drop (seq_lits ?q) ?lits) (lz_copy (unat ?off) (seq_match ?q) (?out @ take (seq_lits ?q) ?lits)))"
    using lt by simp
  have "wp (do { (res, dst') \<leftarrow> zstd_execute_sequence ?q ?d ?d' ?off lits ls la bsz win dst base;
      case res of Inl e \<Rightarrow> Some (Inl e, dst')
      | Inr _ \<Rightarrow> exec_block_loop qs dests offs lits ls bsz win base [Suc i..<n] ?la' dst' }) ?Q"
  proof (rule wp_bind2[OF execute_sequence_contract[OF Suc.prems(5-8), of ?q ?d ?d' ?off win, folded fits_def]], goal_cases)
    case (1 res d1)
    show ?case
    proof (cases res)
      case (Inl e)
      then have "\<not> fits" using 1 by (cases e) simp
      then have "\<not> (dests_chain qs (unat bsz) i n dests \<and> block_run (unat win) (seqs_from qs offs i n) ?lits ?out \<noteq> None)"
        unfolding fits run dests_chain_first[OF lt] by auto
      then show ?thesis using 1 Inl by (cases e) (simp add: wp_Some)
    next
      case (Inr u)
      then have f: "fits" "take (unat base + unat ?d') d1 = lz_copy (unat ?off) (seq_match ?q) (?out @ take (seq_lits ?q) (drop (unat la) lits))"
        "length d1 = length dst" "take (unat base + unat ?d) d1 = ?out" "drop (unat base + unat bsz) d1 = drop (unat base + unat bsz) dst"
        using 1 by simp_all
      have ok: "unat ?d' \<le> unat bsz" "unat ?d \<le> unat ?d'" "unat la + seq_lits ?q \<le> unat ls" using f(1) by (auto simp: fits_def sequence_fits_def)
      have lu: "unat ?la' = unat la + seq_lits ?q" using ok(3) unat_u64_less[of ls] by (subst unat_plus) simp_all
      have tk: "take (seq_lits ?q) ?lits = take (seq_lits ?q) (drop (unat la) lits)"
        using ok(3) by (simp add: take_drop min_def)
      have dk: "drop (seq_lits ?q) ?lits = drop (unat ?la') (take (unat ls) lits)" by (simp add: lu add.commute)
      have run': "block_run (unat win) (seqs_from qs offs i n) ?lits ?out =
          block_run (unat win) (seqs_from qs offs (Suc i) n) (drop (unat ?la') (take (unat ls) lits)) (take (unat base + unat ?d') d1)"
        using fits f(1,2) unfolding run by (simp add: tk lu add.commute)
      have chain: "dests_chain qs (unat bsz) i n dests \<longleftrightarrow> dests_chain qs (unat bsz) (Suc i) n dests"
        using fits f(1) dests_chain_first[OF lt] by blast
      have "wp (exec_block_loop qs dests offs lits ls bsz win base [Suc i..<n] ?la' d1) (\<lambda>(res, dst').
         length dst' = length d1 \<and> take (unat base + unat (dests ! Suc i)) dst' = take (unat base + unat (dests ! Suc i)) d1 \<and>
         drop (unat base + unat bsz) dst' = drop (unat base + unat bsz) d1 \<and>
         (case res of
            Inl (st, _) \<Rightarrow> st = CUDEC_ERR_CORRUPT_INPUT \<and>
              \<not> (dests_chain qs (unat bsz) (Suc i) n dests \<and> block_run (unat win) (seqs_from qs offs (Suc i) n) (drop (unat ?la') (take (unat ls) lits))
                    (take (unat base + unat (dests ! Suc i)) d1) \<noteq> None)
          | Inr la' \<Rightarrow> dests_chain qs (unat bsz) (Suc i) n dests \<and> unat la' \<le> unat ls \<and> unat la' = unat ?la' + lit_sum qs (Suc i) n \<and>
              block_run (unat win) (seqs_from qs offs (Suc i) n) (drop (unat ?la') (take (unat ls) lits)) (take (unat base + unat (dests ! Suc i)) d1) =
                Some (drop (unat la') (take (unat ls) lits), take (unat base + unat (dests ! n)) dst')))"
        by (rule Suc.hyps(1)[OF m]) (use Suc.prems lt ok lu f(3) in auto)
      then have "wp (exec_block_loop qs dests offs lits ls bsz win base [Suc i..<n] ?la' d1) ?Q"
      proof (rule wp_mono, goal_cases)
        case (1 x)
        obtain r d2 where x: "x = (r, d2)" by (cases x)
        have "take (unat base + unat ?d) (take (unat base + unat ?d') d2) = take (unat base + unat ?d) (take (unat base + unat ?d') d1)"
          using 1 by (simp add: x)
        then have fr: "take (unat base + unat ?d) d2 = ?out" using f(4) ok(2) by (simp add: min_def)
        show ?case unfolding x prod.case run' chain using 1[unfolded x prod.case] fr f(3,5) lu sums_first(2)[OF lt, of qs]
          by (auto split: sum.splits prod.splits)
      qed
      then show ?thesis by (simp add: Inr)
    qed
  qed
  then show ?case using lt Suc.prems by (simp add: upt_conv_Cons)
qed

definition plan_fits :: "zstd_sequence list \<Rightarrow> nat \<Rightarrow> nat \<Rightarrow> u64 list \<Rightarrow> zstd_exec_plan \<Rightarrow> bool" where
  "plan_fits qs n ls dests plan \<longleftrightarrow> dests_chain qs (unat (pl_block_size plan)) 0 n dests \<and>
     unat (pl_literals_used plan) = lit_sum qs 0 n \<and> unat (dests ! n) \<le> unat (pl_block_size plan) \<and>
     ls - lit_sum qs 0 n = unat (pl_block_size plan) - unat (dests ! n)"

lemma execute_block_contract:
  assumes l: "unat n \<le> length qs" "unat n < length dests" "unat n \<le> length offs"
    and b: "unat cap \<le> length dst" "length dst < 2 ^ 64" "unat ls \<le> length lits" and d0: "dests ! 0 = 0"
  shows "wp (zstd_execute_block qs n dests offs lits ls plan win dst cap base) (\<lambda>(res, dst').
     length dst' = length dst \<and> take (unat base) dst' = take (unat base) dst \<and>
     (if unat base + unat (pl_block_size plan) \<le> unat cap
      then drop (unat base + unat (pl_block_size plan)) dst' = drop (unat base + unat (pl_block_size plan)) dst else dst' = dst) \<and>
     (case res of
        Inl (st, _) \<Rightarrow> st = CUDEC_ERR_CORRUPT_INPUT \<and>
          \<not> (unat base + unat (pl_block_size plan) \<le> unat cap \<and> plan_fits qs (unat n) (unat ls) dests plan \<and>
             block_bytes (unat win) (seqs_from qs offs 0 (unat n)) (take (unat ls) lits) (take (unat base) dst) \<noteq> None)
      | Inr p' \<Rightarrow> unat p' = unat base + unat (pl_block_size plan) \<and> unat p' \<le> unat cap \<and>
          block_bytes (unat win) (seqs_from qs offs 0 (unat n)) (take (unat ls) lits) (take (unat base) dst) = Some (take (unat p') dst')))"
proof -
  let ?bs = "pl_block_size plan" and ?n = "unat n"
  have cr: "unat (cap - base) = unat cap - unat base" if "unat base \<le> unat cap" by (rule unat_minus[OF that])
  have past: "base > cap \<or> ?bs > cap - base \<longleftrightarrow> \<not> unat base + unat ?bs \<le> unat cap"
  proof (cases "unat base \<le> unat cap")
    case True
    then show ?thesis by (auto simp: w2n cr)
  qed (auto simp: w2n)
  show ?thesis
  proof (cases "unat base + unat ?bs \<le> unat cap")
    case False
    then show ?thesis unfolding zstd_execute_block_def past by (simp add: wp_Some)
  next
    case True
    then have np: "\<not> \<not> unat base + unat ?bs \<le> unat cap" by simp
    have u0: "unat (dests ! 0) = 0" by (simp add: d0)
    have loop: "wp (exec_block_loop qs dests offs lits ls ?bs win base [0..<?n] 0 dst) (\<lambda>(res, d1).
       length d1 = length dst \<and> take (unat base) d1 = take (unat base) dst \<and> drop (unat base + unat ?bs) d1 = drop (unat base + unat ?bs) dst \<and>
       (case res of
          Inl (st, _) \<Rightarrow> st = CUDEC_ERR_CORRUPT_INPUT \<and>
            \<not> (dests_chain qs (unat ?bs) 0 ?n dests \<and> block_run (unat win) (seqs_from qs offs 0 ?n) (take (unat ls) lits) (take (unat base) dst) \<noteq> None)
        | Inr la' \<Rightarrow> dests_chain qs (unat ?bs) 0 ?n dests \<and> unat la' \<le> unat ls \<and> unat la' = lit_sum qs 0 ?n \<and>
            block_run (unat win) (seqs_from qs offs 0 ?n) (take (unat ls) lits) (take (unat base) dst) =
              Some (drop (unat la') (take (unat ls) lits), take (unat base + unat (dests ! ?n)) d1)))"
      by (rule wp_mono[OF block_loop_contract[where i = 0 and la = 0]]) (use l b True u0 in \<open>auto simp: u0 split: sum.splits\<close>)
    show ?thesis unfolding zstd_execute_block_def past if_not_P[OF np] if_P[OF True]
    proof (rule wp_bind2[OF loop], goal_cases)
      case (1 res d1)
      show ?case
      proof (cases res)
        case (Inl e)
        then show ?thesis using 1 by (cases e) (auto simp: wp_Some plan_fits_def block_bytes_run)
      next
        case (Inr la')
        have q: "dests_chain qs (unat ?bs) 0 ?n dests" "unat la' \<le> unat ls" "unat la' = lit_sum qs 0 ?n"
          "block_run (unat win) (seqs_from qs offs 0 ?n) (take (unat ls) lits) (take (unat base) dst) =
              Some (drop (unat la') (take (unat ls) lits), take (unat base + unat (dests ! ?n)) d1)"
          "length d1 = length dst" "take (unat base) d1 = take (unat base) dst" "drop (unat base + unat ?bs) d1 = drop (unat base + unat ?bs) dst"
          using 1 Inr by simp_all
        have tl: "unat (ls - la') = unat ls - unat la'" by (rule unat_minus[OF q(2)])
        define bad where "bad \<longleftrightarrow> la' \<noteq> pl_literals_used plan \<or> dests ! ?n > ?bs \<or> ls - la' \<noteq> ?bs - dests ! ?n"
        have bad: "\<not> bad \<longleftrightarrow> plan_fits qs ?n (unat ls) dests plan"
        proof (cases "dests ! ?n > ?bs")
          case True
          then show ?thesis by (auto simp: bad_def plan_fits_def w2n)
        next
          case False
          then have "unat (?bs - dests ! ?n) = unat ?bs - unat (dests ! ?n)" by (intro unat_minus) (simp add: w2n not_less)
          then have "ls - la' = ?bs - dests ! ?n \<longleftrightarrow> unat ls - unat la' = unat ?bs - unat (dests ! ?n)" by (simp add: word_unat_eq_iff tl)
          moreover have "la' = pl_literals_used plan \<longleftrightarrow> unat (pl_literals_used plan) = lit_sum qs 0 ?n" by (auto simp: word_unat_eq_iff q(3))
          ultimately show ?thesis using False q(1,3) by (auto simp: bad_def plan_fits_def w2n not_less)
        qed
        have tail_at: "at dests ?n = Some (dests ! ?n)" using l(2) by simp
        show ?thesis
        proof (cases bad)
          case True
          then show ?thesis unfolding Inr prod.case sum.case tail_at bind.bind_lunit bad_def[symmetric] if_P[OF True] wp_Some
            using q bad by simp
        next
          case False
          then have f: "unat (dests ! ?n) \<le> unat ?bs" "unat ls - unat la' = unat ?bs - unat (dests ! ?n)"
            using bad q(3) by (auto simp: plan_fits_def)
          let ?to = "base + dests ! ?n" and ?out = "take (unat base + unat (dests ! ?n)) d1"
          have to: "unat ?to = unat base + unat (dests ! ?n)"
            using f True b by (intro unat_plus) simp
          have "\<exists>d2. exec_literal_copy lits la' ?to [0..<unat (ls - la')] d1 = Some d2 \<and> length d2 = length d1 \<and>
             take (unat ?to + unat (ls - la')) d2 = ?out @ take (unat (ls - la')) (drop (unat la') lits) \<and>
             drop (unat ?to + unat (ls - la')) d2 = drop (unat ?to + unat (ls - la')) d1"
            using literal_copy_contract[of 0 "unat (ls - la')" la' lits ?out ?to d1] b q(2,5) tl to f True unat_u64_less[of ls]
            by (simp add: min_def)
          then obtain d2 where d2: "exec_literal_copy lits la' ?to [0..<unat (ls - la')] d1 = Some d2" "length d2 = length d1"
             "take (unat base + unat ?bs) d2 = ?out @ take (unat (ls - la')) (drop (unat la') lits)"
             "drop (unat base + unat ?bs) d2 = drop (unat base + unat ?bs) d1"
            using to tl f by (auto simp: add.assoc)
          have tk: "take (unat (ls - la')) (drop (unat la') lits) = drop (unat la') (take (unat ls) lits)"
            using q(2) by (simp add: tl take_drop)
          have pu: "unat (base + ?bs) = unat base + unat ?bs" using True b by (intro unat_plus) simp
          have fr: "take (unat base) d2 = take (unat base) dst"
          proof -
            have "take (unat base) (take (unat base + unat ?bs) d2) = take (unat base) (?out @ take (unat (ls - la')) (drop (unat la') lits))"
              using d2(3) by simp
            moreover have "unat base \<le> length ?out" using True b q(5) f by simp
            ultimately show ?thesis using q(6) by (simp add: min_def)
          qed
          show ?thesis unfolding Inr prod.case sum.case tail_at bind.bind_lunit bad_def[symmetric] if_not_P[OF False] d2(1) wp_Some
            using q d2 pu fr True tk by (simp add: block_bytes_run)
        qed
      qed
    qed
  qed
qed

text \<open>The plan the prefix sum gives always fits, so only the offsets and the declared size can refuse the block.\<close>

lemma plan_ok_fits:
  assumes "plan_ok qs n ls dests plan"
  shows "plan_fits qs n ls dests plan"
proof -
  have last: "span_sum qs 0 (Suc k) = span_sum qs 0 k + (seq_lits (qs ! k) + seq_match (qs ! k))" for k
    by (simp add: span_sum_def)
  have mono: "span_sum qs 0 k \<le> span_sum qs 0 n" if "k \<le> n" for k
    unfolding span_sum_def using that by (intro sum_mono2) auto
  have "span_sum qs 0 k + (seq_lits (qs ! k) + seq_match (qs ! k)) \<le> unat (pl_block_size plan)" if "k < n" for k
    using mono[of "Suc k"] that assms unfolding plan_ok_def last by linarith
  then show ?thesis using assms by (auto simp: plan_ok_def plan_fits_def dests_chain_def last add.assoc)
qed

section \<open>A block from its sequences\<close>

lemma block_run_lengths:
  "block_run win xs lits out = Some (l, r) \<Longrightarrow>
     length r = length out + (\<Sum>(q, off)\<leftarrow>xs. seq_lits q + seq_match q) \<and> length l + (\<Sum>(q, off)\<leftarrow>xs. seq_lits q) = length lits"
proof (induction win xs lits out rule: block_run.induct)
  case (2 win q off qs lits out)
  then show ?case by (auto split: if_splits)
qed simp

lemma block_bytes_length:
  assumes "block_bytes win (seqs_from qs offs 0 n) lits out = Some r"
  shows "length r = length out + span_sum qs 0 n + (length lits - lit_sum qs 0 n)" "lit_sum qs 0 n \<le> length lits"
proof -
  obtain l o' where r: "block_run win (seqs_from qs offs 0 n) lits out = Some (l, o')" "r = o' @ l"
    using assms by (auto simp: block_bytes_run)
  have s: "(\<Sum>(q, off)\<leftarrow>seqs_from qs offs 0 n. seq_lits q + seq_match q) = span_sum qs 0 n"
    "(\<Sum>(q, off)\<leftarrow>seqs_from qs offs 0 n. seq_lits q) = lit_sum qs 0 n"
    by (simp_all add: seqs_from_def span_sum_def lit_sum_def comp_def interv_sum_list_conv_sum_set_nat)
  show "length r = length out + span_sum qs 0 n + (length lits - lit_sum qs 0 n)" "lit_sum qs 0 n \<le> length lits"
    using block_run_lengths[OF r(1)] by (auto simp: s r(2))
qed

text \<open>The prefix sum and the execution, one after the other, as the block decode calls them.\<close>

definition exec_whole_block :: "zstd_sequence list \<Rightarrow> u32 \<Rightarrow> u64 list \<Rightarrow> u8 list \<Rightarrow> u64 \<Rightarrow> u64 \<Rightarrow> u64 list \<Rightarrow> u32 \<Rightarrow> u64 \<Rightarrow> u8 list \<Rightarrow> u64 \<Rightarrow> u64 \<Rightarrow>
    ((zstd_exec_error + u64) \<times> u8 list) option" where
  "exec_whole_block qs n offs lits ls bm dests dcap win dst cap base = do {
     (summed, dests) \<leftarrow> zstd_exec_prefix_sum qs n ls bm dests dcap;
     case summed of
       Inl e \<Rightarrow> Some (Inl e, dst)
     | Inr plan \<Rightarrow> zstd_execute_block qs n dests offs lits ls plan win dst cap base
   }"

lemma whole_block_contract:
  fixes win base :: u64
  assumes l: "unat n < unat dcap" "unat dcap \<le> length dests" "unat n \<le> length qs" "unat n \<le> length offs"
    and b: "unat ls \<le> 131072" "unat bm \<le> 131072" "unat ls \<le> length lits" "unat cap \<le> length dst" "length dst < 2 ^ 64" "unat base \<le> unat cap"
  defines "spec \<equiv> block_bytes (unat win) (seqs_from qs offs 0 (unat n)) (take (unat ls) lits) (take (unat base) dst)"
  shows "wp (exec_whole_block qs n offs lits ls bm dests dcap win dst cap base) (\<lambda>(res, dst').
     length dst' = length dst \<and> take (unat base) dst' = take (unat base) dst \<and>
     (case res of
        Inl (st, _) \<Rightarrow> st = CUDEC_ERR_CORRUPT_INPUT \<and> drop (min (unat cap) (unat base + unat bm)) dst' = drop (min (unat cap) (unat base + unat bm)) dst \<and>
          (\<forall>out. spec = Some out \<longrightarrow> unat cap < length out \<or> unat base + unat bm < length out)
      | Inr p' \<Rightarrow> unat p' \<le> unat cap \<and> unat p' \<le> unat base + unat bm \<and> spec = Some (take (unat p') dst') \<and> drop (unat p') dst' = drop (unat p') dst))"
  unfolding exec_whole_block_def
proof (rule wp_bind2[OF prefix_sum_contract[OF l(1,2,3) b(1,2)]], goal_cases)
  case (1 res d)
  have lo: "length (take (unat base) dst) = unat base" using b by simp
  have ll: "length (take (unat ls) lits) = unat ls" using b by simp
  note bl = block_bytes_length[of "unat win" qs offs "unat n" "take (unat ls) lits" "take (unat base) dst", folded spec_def, unfolded lo ll]
  show ?case
  proof (cases res)
    case (Inl e)
    then show ?thesis using 1 bl by (cases e) (auto simp: wp_Some)
  next
    case (Inr plan)
    have p: "plan_ok qs (unat n) (unat ls) d plan" "unat (pl_block_size plan) \<le> unat bm" "length d = length dests" using 1 Inr by simp_all
    have d0: "d ! 0 = 0" using p(1) by (auto simp: plan_ok_def word_unat_eq_iff)
    have nd: "unat n < length d" using l p(3) by simp
    have size: "unat (pl_block_size plan) = span_sum qs 0 (unat n) + (unat ls - lit_sum qs 0 (unat n))" using p(1) by (simp add: plan_ok_def)
    note ex = execute_block_contract[OF l(3) nd l(4) b(4,5,3) d0, of plan win base, folded spec_def]
    show ?thesis unfolding Inr prod.case sum.case
    proof (rule wp_mono[OF ex], goal_cases)
      case (1 x)
      obtain r d2 where x: "x = (r, d2)" by (cases x)
      show ?case
      proof (cases r)
        case (Inl e)
        let ?m = "min (unat cap) (unat base + unat bm)"
        have fr: "drop ?m d2 = drop ?m dst"
        proof (cases "unat base + unat (pl_block_size plan) \<le> unat cap")
          case True
          then have e: "drop (unat base + unat (pl_block_size plan)) d2 = drop (unat base + unat (pl_block_size plan)) dst" using 1 by (simp add: x)
          have "unat base + unat (pl_block_size plan) \<le> ?m" using True p(2) by simp
          then have "drop ?m d2 = drop (?m - (unat base + unat (pl_block_size plan))) (drop (unat base + unat (pl_block_size plan)) d2)" for d2 :: "u8 list"
            by simp
          then show ?thesis using e by metis
        next
          case False
          then show ?thesis using 1 by (simp add: x)
        qed
        have "\<forall>out. spec = Some out \<longrightarrow> unat cap < length out"
          using 1 Inl plan_ok_fits[OF p(1)] bl size by (cases e) (auto simp: x)
        then show ?thesis using 1 Inl fr by (cases e) (simp add: x)
      next
        case (Inr p')
        then show ?thesis using 1 p(2) by (auto simp: x split: if_splits)
      qed
    qed
  qed
qed

end
