(* ===== verification/Zstd_Huf.thy ===== *)
theory Zstd_Huf
  imports Zstd_Fse_Core
begin

text \<open>
  The Huffman tree of a literals section, \<open>src/zstd_huf.h\<close>: the description in its two spellings, the
  last weight that is never written. The counters are natural numbers, the budget is a word of the
  code's width. The decoding table is in \<open>Zstd_Huf_Table\<close>.
\<close>

definition kZstdHufMaxSymbolValue :: nat where "kZstdHufMaxSymbolValue = 255"
definition kZstdHufMaxTableLog :: nat where "kZstdHufMaxTableLog = 12"
definition kZstdHufWeightAccuracyLogMax :: nat where "kZstdHufWeightAccuracyLogMax = 6"
definition kZstdHufDirectHeaderBase :: nat where "kZstdHufDirectHeaderBase = 128"

lemmas huf_consts = kZstdHufMaxSymbolValue_def kZstdHufMaxTableLog_def kZstdHufWeightAccuracyLogMax_def kZstdHufDirectHeaderBase_def

datatype zstd_huf_reject =
    kZstdHufRejectNone
  | kZstdHufRejectBadRequest
  | kZstdHufRejectEmptyDescription
  | kZstdHufRejectDescriptionTruncated
  | kZstdHufRejectTooManyWeights
  | kZstdHufRejectWeightTooLarge
  | kZstdHufRejectWeightSumZero
  | kZstdHufRejectLastWeightNotClean
  | kZstdHufRejectTableLogTooLarge
  | kZstdHufRejectDeepestRankEmpty
  | kZstdHufRejectBuildCapacity
  | kZstdHufRejectBuildWeightsNotClean

type_synonym huf_error = "cudec_status \<times> zstd_huf_reject"

definition zstd_huf_highest_set_bit :: "u32 \<Rightarrow> nat" where
  "zstd_huf_highest_set_bit v =
     foldl (\<lambda>highest i. if drop_bit i v AND 1 \<noteq> 0 then i else highest) 0 [0..<32]"

record zstd_huf_cell =
  hc_symbol :: u8
  hc_nb_bits :: u8

record zstd_huf_scratch =
  ws_counts :: "int list"
  ws_cells :: "zstd_fse_cell list"
  ws_symbol_next :: "u16 list"

section \<open>The description\<close>

text \<open>The nibbles of the direct spelling, the high one first.\<close>

fun huf_direct :: "u8 list \<Rightarrow> nat list \<Rightarrow> u8 list \<Rightarrow> u8 list option" where
  "huf_direct s [] weights = Some weights"
| "huf_direct s (i # is) weights = do {
     byte \<leftarrow> at s (1 + i div 2);
     weights \<leftarrow> put weights i (if i mod 2 = 0 then drop_bit 4 byte else byte AND 0x0F);
     huf_direct s is weights
   }"

definition huf_written_direct :: "u8 list \<Rightarrow> u64 \<Rightarrow> nat \<Rightarrow> nat \<Rightarrow> u8 list \<Rightarrow> (huf_error + nat \<times> u64 \<times> u8 list) option" where
  "huf_written_direct s n header max_symbol_count weights = do {
     let written = header - (kZstdHufDirectHeaderBase - 1);
     let payload = (of_nat ((written + 1) div 2) :: u64);
     if payload + 1 > n then Some (Inl (CUDEC_ERR_CORRUPT_INPUT, kZstdHufRejectDescriptionTruncated))
     else if written + 1 > max_symbol_count then Some (Inl (CUDEC_ERR_CORRUPT_INPUT, kZstdHufRejectTooManyWeights))
     else do {
       weights \<leftarrow> huf_direct s [0..<written] weights;
       Some (Inr (written, payload + 1, weights))
     }
   }"

definition huf_written_fse :: "u8 list \<Rightarrow> u64 \<Rightarrow> nat \<Rightarrow> nat \<Rightarrow> zstd_huf_scratch \<Rightarrow> u8 list \<Rightarrow>
    (huf_error + nat \<times> u64 \<times> u8 list) option" where
  "huf_written_fse s n header max_symbol_count scr weights = do {
     let payload = (of_nat header :: u64);
     if payload + 1 > n then Some (Inl (CUDEC_ERR_CORRUPT_INPUT, kZstdHufRejectDescriptionTruncated))
     else do {
       described \<leftarrow> zstd_fse_read_ncount (drop 1 s) header kZstdHufMaxTableLog kZstdHufWeightAccuracyLogMax (ws_counts scr);
       case described of
         Inl (st, _) \<Rightarrow> Some (Inl (st, kZstdHufRejectDescriptionTruncated))
       | Inr d \<Rightarrow> do {
           built \<leftarrow> zstd_fse_build_dtable (fd_counts d) (fd_max_symbol d) (fd_accuracy_log d) (ws_cells scr)
                   (push_bit (fd_accuracy_log d) 1) (ws_symbol_next scr);
           case built of
             Inl (st, _) \<Rightarrow> Some (Inl (st, kZstdHufRejectDescriptionTruncated))
           | Inr cells \<Rightarrow> do {
               (st, reader) \<leftarrow> zstd_bit_start (zstd_bit_reader_init (drop (1 + fd_consumed d) s) (payload - of_nat (fd_consumed d)));
               if st \<noteq> CUDEC_OK then Some (Inl (st, kZstdHufRejectDescriptionTruncated))
               else do {
                 (decoded, _) \<leftarrow> zstd_fse_decode_2state reader cells (push_bit (fd_accuracy_log d) 1) (fd_accuracy_log d) weights
                     (of_nat (max_symbol_count - 1));
                 case decoded of
                   Inl (_, rung) \<Rightarrow>
                     (if rung = kZstdFseRejectOutputFull
                      then Some (Inl (CUDEC_ERR_CORRUPT_INPUT, kZstdHufRejectTooManyWeights))
                      else Some (Inl (CUDEC_ERR_CORRUPT_INPUT, kZstdHufRejectDescriptionTruncated)))
                 | Inr (produced, weights) \<Rightarrow> Some (Inr (produced, payload + 1, weights))
               }
             }
         }
     }
   }"

text \<open>What the written weights spend, and how many symbols sit at the deepest rank.\<close>

fun huf_budget :: "u8 list \<Rightarrow> nat \<Rightarrow> nat list \<Rightarrow> u32 \<Rightarrow> (huf_error + u32) option" where
  "huf_budget weights max_table_log [] spent = Some (Inr spent)"
| "huf_budget weights max_table_log (i # is) spent = do {
     w \<leftarrow> at weights i;
     if unat w > max_table_log then Some (Inl (CUDEC_ERR_CORRUPT_INPUT, kZstdHufRejectWeightTooLarge))
     else huf_budget weights max_table_log is (spent + drop_bit 1 (push_bit (unat w) 1))
   }"

fun huf_deepest :: "u8 list \<Rightarrow> nat list \<Rightarrow> nat \<Rightarrow> nat option" where
  "huf_deepest weights [] deepest = Some deepest"
| "huf_deepest weights (i # is) deepest = do {
     w \<leftarrow> at weights i;
     huf_deepest weights is (if w = 1 then deepest + 1 else deepest)
   }"

record zstd_huf_tree =
  ht_count :: nat
  ht_table_log :: nat
  ht_consumed :: u64
  ht_weights :: "u8 list"

definition huf_close :: "nat \<Rightarrow> nat \<Rightarrow> u64 \<Rightarrow> u8 list \<Rightarrow> (huf_error + zstd_huf_tree) option" where
  "huf_close max_table_log written consumed weights = do {
     budget \<leftarrow> huf_budget weights max_table_log [0..<written] 0;
     case budget of
       Inl e \<Rightarrow> Some (Inl e)
     | Inr spent \<Rightarrow>
         if spent = 0 then Some (Inl (CUDEC_ERR_CORRUPT_INPUT, kZstdHufRejectWeightSumZero))
         else do {
           let table_log = zstd_huf_highest_set_bit spent + 1;
           if table_log > max_table_log then Some (Inl (CUDEC_ERR_CORRUPT_INPUT, kZstdHufRejectTableLogTooLarge))
           else do {
             let rest = push_bit table_log 1 - spent;
             let last_weight = zstd_huf_highest_set_bit rest + 1;
             if push_bit (last_weight - 1) 1 \<noteq> rest then Some (Inl (CUDEC_ERR_CORRUPT_INPUT, kZstdHufRejectLastWeightNotClean))
             else do {
               weights \<leftarrow> put weights written (of_nat last_weight);
               deepest \<leftarrow> huf_deepest weights [0..<written + 1] 0;
               if deepest < 2 then Some (Inl (CUDEC_ERR_CORRUPT_INPUT, kZstdHufRejectDeepestRankEmpty))
               else Some (Inr \<lparr>ht_count = written + 1, ht_table_log = table_log, ht_consumed = consumed, ht_weights = weights\<rparr>)
             }
           }
         }
   }"

definition zstd_huf_read_weights :: "u8 list \<Rightarrow> u64 \<Rightarrow> nat \<Rightarrow> nat \<Rightarrow> zstd_huf_scratch \<Rightarrow> u8 list \<Rightarrow>
    (huf_error + zstd_huf_tree) option" where
  "zstd_huf_read_weights s n max_symbol_count max_table_log scr weights =
     (if max_symbol_count < 2 \<or> max_symbol_count > kZstdHufMaxSymbolValue + 1 \<or> max_table_log = 0 \<or> max_table_log > kZstdHufMaxTableLog
      then Some (Inl (CUDEC_ERR_INVALID_ARGUMENT, kZstdHufRejectBadRequest))
      else if n = 0 then Some (Inl (CUDEC_ERR_CORRUPT_INPUT, kZstdHufRejectEmptyDescription))
      else do {
        b \<leftarrow> at s 0;
        let header = unat b;
        spelled \<leftarrow> (if header \<ge> kZstdHufDirectHeaderBase then huf_written_direct s n header max_symbol_count weights
                    else huf_written_fse s n header max_symbol_count scr weights);
        case spelled of
          Inl e \<Rightarrow> Some (Inl e)
        | Inr (written, consumed, weights) \<Rightarrow> huf_close max_table_log written consumed weights
      })"

section \<open>The budget\<close>

text \<open>A weight owns this many cells; a tree closes when its cells fill a power of two and its deepest
  rank is not empty.\<close>

definition leaf :: "u8 \<Rightarrow> nat" where
  "leaf w = (if w = 0 then 0 else 2 ^ (unat w - 1))"

definition huf_sum :: "u8 list \<Rightarrow> nat" where
  "huf_sum ws = (\<Sum>w\<leftarrow>ws. leaf w)"

definition huf_tree :: "u8 list \<Rightarrow> nat \<Rightarrow> bool" where
  "huf_tree ws L \<longleftrightarrow> huf_sum ws = 2 ^ L \<and> 2 \<le> count_list ws 1"

lemma huf_sum_simps [simp]: "huf_sum [] = 0" "huf_sum (w # ws) = leaf w + huf_sum ws" "huf_sum (xs @ ys) = huf_sum xs + huf_sum ys"
  by (simp_all add: huf_sum_def)

lemma leaf_pos: "w \<noteq> 0 \<Longrightarrow> 0 < leaf w"
  by (simp add: leaf_def)

lemma leaf_in_sum: "w \<in> set ws \<Longrightarrow> leaf w \<le> huf_sum ws"
  by (auto simp: huf_sum_def intro!: member_le_sum_list)

lemma leaf_less: "leaf w < 2 ^ M \<Longrightarrow> unat w \<le> M"
  using power_less_imp_less_exp[of "2::nat" "unat w - 1" M] by (auto simp: leaf_def split: if_splits)

lemma leaf_bound: "unat w \<le> 12 \<Longrightarrow> leaf w \<le> 2048"
  using power_increasing[of "unat w - 1" 11 "2::nat"] by (simp add: leaf_def)

lemma leaf_word:
  assumes "unat w < 32"
  shows "unat (drop_bit 1 (push_bit (unat w) 1) :: u32) = leaf w"
proof -
  have "(2::nat) ^ unat w < 2 ^ 32" using assms by (intro power_strict_increasing) auto
  then have "unat (push_bit (unat w) 1 :: u32) = 2 ^ unat w"
    using unat_of_nat_less[where 'a = 32, of "2 ^ unat w"] by (simp add: push_bit_of_1)
  moreover have "(2::nat) ^ unat w div 2 = leaf w"
  proof (cases "w = 0")
    case False
    then have "0 < unat w" by (simp add: unat_gt_0)
    then have "(2::nat) ^ unat w = 2 * 2 ^ (unat w - 1)" using power_Suc[of "2::nat" "unat w - 1"] by simp
    then show ?thesis using False by (simp add: leaf_def)
  qed (simp add: leaf_def)
  ultimately show ?thesis by (simp add: unat_drop_bit)
qed

lemma huf_sum_bound: "(\<And>w. w \<in> set ws \<Longrightarrow> unat w \<le> 12) \<Longrightarrow> huf_sum ws \<le> 2048 * length ws"
  by (induction ws) (use leaf_bound in fastforce)+

lemma huf_budget_contract:
  assumes "i \<le> n" "n \<le> length W" "n \<le> 256" "M \<le> 12" "unat spent = huf_sum (take i W)" "\<forall>k<i. unat (W ! k) \<le> M"
  shows "wp (huf_budget W M [i..<n] spent) (\<lambda>res. case res of
     Inl (st, _) \<Rightarrow> st = CUDEC_ERR_CORRUPT_INPUT \<and> (\<exists>k<n. M < unat (W ! k))
   | Inr t \<Rightarrow> unat t = huf_sum (take n W) \<and> (\<forall>k<n. unat (W ! k) \<le> M))"
  using assms
proof (induction "n - i" arbitrary: i spent)
  case 0
  then show ?case by (auto simp: wp_Some)
next
  case (Suc m)
  then have lt: "i < n" "i < length W" by simp_all
  have u: "[i..<n] = i # [Suc i..<n]" using lt by (simp add: upt_conv_Cons)
  show ?case
  proof (cases "M < unat (W ! i)")
    case True
    then show ?thesis using lt by (auto simp: u wp_Some)
  next
    case False
    have b: "huf_sum (take i W) \<le> 2048 * length (take i W)"
      using Suc.prems by (intro huf_sum_bound) (auto simp: in_set_conv_nth intro: order_trans)
    have l: "leaf (W ! i) \<le> 2048" using False Suc.prems by (intro leaf_bound) simp
    have t: "huf_sum (take (Suc i) W) = huf_sum (take i W) + leaf (W ! i)" using lt by (simp add: take_Suc_conv_app_nth)
    have b': "huf_sum (take i W) \<le> 2048 * 256" using b Suc.prems by simp
    have lw: "unat (drop_bit 1 (push_bit (unat (W ! i)) 1) :: u32) = leaf (W ! i)" using False Suc.prems by (intro leaf_word) simp
    define x :: u32 where "x = drop_bit 1 (push_bit (unat (W ! i)) 1)"
    have "unat spent + unat x < 2 ^ LENGTH(32)" using b' l lw[folded x_def] Suc.prems(5) by simp
    then have "unat (spent + drop_bit 1 (push_bit (unat (W ! i)) 1)) = huf_sum (take (Suc i) W)"
      unfolding t lw[symmetric] Suc.prems(5)[symmetric] x_def[symmetric] by (rule unat_plus)
    then have "wp (huf_budget W M [Suc i..<n] (spent + drop_bit 1 (push_bit (unat (W ! i)) 1))) (\<lambda>res. case res of
       Inl (st, _) \<Rightarrow> st = CUDEC_ERR_CORRUPT_INPUT \<and> (\<exists>k<n. M < unat (W ! k))
     | Inr t \<Rightarrow> unat t = huf_sum (take n W) \<and> (\<forall>k<n. unat (W ! k) \<le> M))"
      using Suc.prems Suc.hyps(2) lt False by (intro Suc.hyps(1)) (auto simp: less_Suc_eq)
    then show ?thesis using False lt by (simp add: u)
  qed
qed

lemma huf_deepest_count:
  "(\<forall>i\<in>set is. i < length W) \<Longrightarrow> huf_deepest W is d = Some (d + count_list (map ((!) W) is) 1)"
  by (induction "is" arbitrary: d) simp_all

lemma huf_highest:
  assumes "0 < unat v"
  shows "2 ^ zstd_huf_highest_set_bit v \<le> unat v" "unat v < 2 ^ Suc (zstd_huf_highest_set_bit v)" "zstd_huf_highest_set_bit v < 32"
  using fse_highest_set_bit[OF assms] by (simp_all add: zstd_huf_highest_set_bit_def zstd_fse_highest_set_bit_def)

text \<open>The budget decides the depth and the last weight.\<close>

lemma closing_depth:
  assumes "(2::nat) ^ H \<le> t" "t < 2 ^ Suc H" "t + 2 ^ k = 2 ^ L"
  shows "L = Suc H"
proof -
  have "0 < (2::nat) ^ k" "0 < (2::nat) ^ H" by simp_all
  then have "(2::nat) ^ H < 2 ^ L" "(2::nat) ^ k < 2 ^ L" using assms by linarith+
  then have "H < L" "k < L" using power_less_imp_less_exp[of "2::nat" H L] power_less_imp_less_exp[of "2::nat" k L] by simp_all
  then have "(2::nat) ^ k \<le> 2 ^ (L - 1)" "(2::nat) ^ L = 2 * 2 ^ (L - 1)"
    using power_increasing[of k "L - 1" "2::nat"] power_Suc[of "2::nat" "L - 1"] by simp_all
  then have "(2::nat) ^ (L - 1) < 2 ^ Suc H" using assms by linarith
  then have "L - 1 < Suc H" by (rule power_less_imp_less_exp[rotated]) simp
  then show ?thesis using \<open>H < L\<close> by simp
qed

lemma huf_close_contract:
  assumes n: "written < length W" "written \<le> 255" and M: "M \<le> 12"
  defines "ws \<equiv> take written W"
  shows "wp (huf_close M written c W) (\<lambda>res. case res of
     Inl (st, _) \<Rightarrow> st = CUDEC_ERR_CORRUPT_INPUT \<and> \<not> (\<exists>w L. w \<noteq> 0 \<and> L \<le> M \<and> huf_tree (ws @ [w]) L)
   | Inr t \<Rightarrow> \<exists>w. w \<noteq> 0 \<and> ht_table_log t \<le> M \<and> huf_tree (ws @ [w]) (ht_table_log t) \<and> ht_count t = written + 1 \<and>
       ht_consumed t = c \<and> ht_weights t = W[written := w])"
proof -
  have large: "\<not> huf_tree (ws @ [w]) L" if "k < written" "M < unat (W ! k)" "w \<noteq> 0" "L \<le> M" for k w L
  proof
    assume t: "huf_tree (ws @ [w]) L"
    have "W ! k \<in> set ws" using that n by (auto simp: ws_def in_set_conv_nth)
    then have "leaf (W ! k) + leaf w \<le> 2 ^ L" using t leaf_in_sum[of "W ! k" ws] by (simp add: huf_tree_def)
    then have "leaf (W ! k) < 2 ^ L" using leaf_pos[OF that(3)] by simp
    then show False using leaf_less[of "W ! k" L] that by simp
  qed
  have b: "wp (huf_budget W M [0..<written] 0) (\<lambda>res. case res of
     Inl (st, _) \<Rightarrow> st = CUDEC_ERR_CORRUPT_INPUT \<and> (\<exists>k<written. M < unat (W ! k))
   | Inr t \<Rightarrow> unat t = huf_sum ws \<and> (\<forall>k<written. unat (W ! k) \<le> M))"
    using n M huf_budget_contract[of 0 written W M 0] unfolding ws_def by simp
  show ?thesis unfolding huf_close_def
  proof (rule wp_bindI[OF b], goal_cases)
    case (1 res)
    show ?case
    proof (cases res)
      case (Inl e)
      then show ?thesis using 1 large by (cases e) (auto simp: wp_Some)
    next
      case (Inr spent)
      have sp: "unat spent = huf_sum ws" "\<forall>k<written. unat (W ! k) \<le> M" using 1 Inr by simp_all
      have nz: "huf_sum ws \<noteq> 0" if "2 \<le> count_list (ws @ [w]) 1" for w
      proof -
        have "count_list ws 1 \<noteq> 0" using that by (simp split: if_splits)
        then have "1 \<in> set ws" by (simp add: count_list_0_iff)
        from leaf_in_sum[OF this] show ?thesis by (simp add: leaf_def)
      qed
      show ?thesis
      proof (cases "spent = 0")
        case True
        then have "\<not> huf_tree (ws @ [w]) L" for w L using nz[of w] sp(1) unfolding huf_tree_def by auto
        then show ?thesis using Inr True by (simp add: wp_Some)
      next
        case False
        define H where "H = zstd_huf_highest_set_bit spent"
        have p: "0 < unat spent" using False by (simp add: unat_gt_0)
        note H = huf_highest[OF p, folded H_def, unfolded sp(1)]
        have depth: "L = Suc H" if "huf_sum ws + leaf w = 2 ^ L" "w \<noteq> 0" for w L
          using closing_depth[OF H(1,2), of "unat w - 1" L] that by (simp add: leaf_def)
        show ?thesis
        proof (cases "M < Suc H")
          case True
          then show ?thesis using Inr False depth by (auto simp: wp_Some Let_def huf_tree_def H_def[symmetric])
        next
          case le: False
          define rest where "rest = push_bit (Suc H) 1 - spent"
          have r: "unat rest = 2 ^ Suc H - huf_sum ws" 
            using le M H(2) unat_push_1[of "Suc H"] sp(1) by (simp add: rest_def unat_minus del: power_Suc push_bit_Suc)
          have rp: "0 < unat rest" using H(2) r by simp
          define K where "K = zstd_huf_highest_set_bit rest"
          note K = huf_highest[OF rp, folded K_def]
          have only: "leaf w = unat rest" if "huf_sum ws + leaf w = 2 ^ L" "w \<noteq> 0" for w L
            using depth[OF that] that r by simp
          have good: "push_bit (K + 1 - 1) 1 = rest \<longleftrightarrow> unat rest = 2 ^ K"
            using unat_push_1[OF K(3)] by (auto simp: word_unat_eq_iff)
          show ?thesis
          proof (cases "unat rest = 2 ^ K")
            case False
            have "\<not> huf_tree (ws @ [w]) L" if "w \<noteq> 0" for w L
            proof
              assume "huf_tree (ws @ [w]) L"
              then have "2 ^ (unat w - 1) = unat rest" using only[of w L] that by (simp add: huf_tree_def leaf_def)
              then have "(2::nat) ^ K \<le> 2 ^ (unat w - 1)" "(2::nat) ^ (unat w - 1) < 2 ^ Suc K" using K by simp_all
              then have "K = unat w - 1" using power_le_imp_le_exp[of "2::nat" K "unat w - 1"] power_less_imp_less_exp[of "2::nat" "unat w - 1" "Suc K"] by simp
              then show False using False \<open>2 ^ (unat w - 1) = unat rest\<close> by simp
            qed
            then show ?thesis using Inr \<open>spent \<noteq> 0\<close> le False good
              by (simp add: wp_Some Let_def H_def[symmetric] rest_def[symmetric] K_def[symmetric] del: push_bit_Suc push_bit_of_1 push_bit_numeral) blast
          next
            case True
            define w :: u8 where "w = of_nat (K + 1)"
            have "(2::nat) ^ K < 2 ^ Suc H" using True r H(1) zero_less_power[of "2::nat" H] by (simp, linarith)
            then have KH: "K \<le> H" using power_less_imp_less_exp[of "2::nat" K "Suc H"] by simp
            then have uw: "unat w = K + 1" using le M unfolding w_def by (intro unat_of_nat_less) simp
            have wk: "1 + of_nat K = w" by (simp add: w_def)
            from uw have w: "w \<noteq> 0" "leaf w = unat rest" by (auto simp: leaf_def True)
            have sum: "huf_sum (ws @ [w]) = 2 ^ Suc H" using w r H(2) by simp
            have same: "w' = w" if "huf_sum ws + leaf w' = 2 ^ L" "w' \<noteq> 0" for w' L
            proof -
              have "(2::nat) ^ (unat w' - 1) = 2 ^ K" using only[OF that] that True by (simp add: leaf_def)
              then have "unat w' - 1 = K" by simp
              moreover have "0 < unat w'" using that by (simp add: unat_gt_0)
              ultimately show ?thesis by (simp add: word_unat_eq_iff uw)
            qed
            have tk: "map ((!) (W[written := w])) [0..<written + 1] = ws @ [w]"
              using n by (intro nth_equalityI) (auto simp: ws_def nth_append less_Suc_eq)
            have dp: "huf_deepest (W[written := w]) [0..<written + 1] 0 = Some (count_list (ws @ [w]) 1)"
              using huf_deepest_count[of "[0..<written + 1]" "W[written := w]" 0] n unfolding tk by (auto simp del: upt_Suc split del: if_split)
            show ?thesis
            proof (cases "count_list (ws @ [w]) 1 < 2")
              case True
              have "\<not> huf_tree (ws @ [w']) L" if "w' \<noteq> 0" for w' L
                using same[of w' L] that True by (auto simp: huf_tree_def)
              then show ?thesis using Inr \<open>spent \<noteq> 0\<close> le \<open>unat rest = 2 ^ K\<close> good True n dp
                by (simp add: wp_Some Let_def H_def[symmetric] rest_def[symmetric] K_def[symmetric] wk del: push_bit_Suc push_bit_of_1 push_bit_numeral upt_Suc) blast
            next
              case False
              then have "huf_tree (ws @ [w]) (Suc H)" using sum by (simp add: huf_tree_def)
              then show ?thesis using Inr \<open>spent \<noteq> 0\<close> le \<open>unat rest = 2 ^ K\<close> good False n dp w
                by (simp add: wp_Some Let_def H_def[symmetric] rest_def[symmetric] K_def[symmetric] wk del: push_bit_Suc push_bit_of_1 push_bit_numeral upt_Suc) blast
            qed
          qed
        qed
      qed
    qed
  qed
qed


section \<open>The two spellings\<close>

definition nibble :: "u8 list \<Rightarrow> nat \<Rightarrow> u8" where
  "nibble s i = (if even i then drop_bit 4 (s ! (1 + i div 2)) else s ! (1 + i div 2) AND 0x0F)"

lemma huf_direct_contract:
  assumes "i \<le> n" "(n + 1) div 2 < length s" "n \<le> length W"
  shows "huf_direct s [i..<n] W = Some (take i W @ map (nibble s) [i..<n] @ drop n W)"
  using assms
proof (induction "n - i" arbitrary: i W)
  case 0
  then show ?case by simp
next
  case (Suc m)
  then have lt: "i < n" "i < length W" by simp_all
  then have "1 + i div 2 \<le> (n + 1) div 2" by linarith
  then have lt: "i < n" "i < length W" "1 + i div 2 < length s" using lt Suc.prems by linarith+
  have "huf_direct s [Suc i..<n] (W[i := nibble s i]) =
      Some (take (Suc i) (W[i := nibble s i]) @ map (nibble s) [Suc i..<n] @ drop n (W[i := nibble s i]))"
    using Suc.prems Suc.hyps(2) lt by (intro Suc.hyps(1)) auto
  moreover have "take (Suc i) (W[i := nibble s i]) = take i W @ [nibble s i]"
    using lt by (simp add: take_Suc_conv_app_nth)
  moreover have "(if i mod 2 = 0 then drop_bit 4 (s ! (1 + i div 2)) else s ! (1 + i div 2) AND 0x0F) = nibble s i"
    by (simp add: nibble_def even_iff_mod_2_eq_zero)
  moreover have "at s (1 + i div 2) = Some (s ! (1 + i div 2))" using lt by simp
  ultimately show ?case unfolding upt_conv_Cons[OF lt(1)] using lt by (simp del: One_nat_def add_Suc)
qed

text \<open>
  The weights a description spells, over its bytes. The compressed spelling is a distribution, its
  table, and what the two-state run of the specification gives on the bits after it.
\<close>

definition spells_direct :: "u8 list \<Rightarrow> nat \<Rightarrow> nat \<Rightarrow> u8 list \<Rightarrow> bool" where
  "spells_direct s n maxc ws \<longleftrightarrow> (let k = unat (s ! 0) - 127 in
     128 \<le> unat (s ! 0) \<and> 1 + (k + 1) div 2 \<le> n \<and> k < maxc \<and> ws = map (nibble s) [0..<k])"

definition spells_fse :: "u8 list \<Rightarrow> nat \<Rightarrow> nat \<Rightarrow> zstd_huf_scratch \<Rightarrow> u8 list \<Rightarrow> bool" where
  "spells_fse s n maxc scr ws \<longleftrightarrow> (let h = unat (s ! 0) in h < 128 \<and> 1 + h \<le> n \<and>
     (\<exists>d cells. zstd_fse_read_ncount (drop 1 s) h 12 6 (ws_counts scr) = Some (Inr d) \<and>
        zstd_fse_build_dtable (fd_counts d) (fd_max_symbol d) (fd_accuracy_log d) (ws_cells scr)
          (push_bit (fd_accuracy_log d) 1) (ws_symbol_next scr) = Some (Inr cells) \<and>
        (let L = fd_accuracy_log d; run = take (h - fd_consumed d) (drop (1 + fd_consumed d) s); bits = stream_bits run in
           run \<noteq> [] \<and> last run \<noteq> 0 \<and> 2 * L \<le> length bits \<and>
           two_state_spec (maxc - 1) cells (drop (2 * L) bits) (bits_value (take L bits)) (bits_value (take L (drop L bits))) = Some ws)))"

definition scratch_ok :: "zstd_huf_scratch \<Rightarrow> bool" where
  "scratch_ok scr \<longleftrightarrow> length (ws_counts scr) = 13 \<and> length (ws_cells scr) = 64 \<and> length (ws_symbol_next scr) = 13"

lemma written_direct_contract:
  assumes h: "unat (s ! 0) = h" "128 \<le> h" and n: "unat n \<le> length s" and W: "maxc \<le> length W"
  shows "wp (huf_written_direct s n h maxc W) (\<lambda>res. case res of
     Inl (st, _) \<Rightarrow> st = CUDEC_ERR_CORRUPT_INPUT \<and> \<not> (\<exists>ws. spells_direct s (unat n) maxc ws)
   | Inr (k, c, W') \<Rightarrow> \<exists>ws. spells_direct s (unat n) maxc ws \<and> k = length ws \<and> k < maxc \<and>
       unat c = 1 + (k + 1) div 2 \<and> W' = ws @ drop k W)"
proof -
  have h256: "h < 256" using unat_u8_less[of "s ! 0"] h by simp
  define k where "k = h - 127"
  have k: "h - (kZstdHufDirectHeaderBase - 1) = k" by (simp add: k_def huf_consts)
  have up: "unat (of_nat ((k + 1) div 2) :: u64) = (k + 1) div 2" using h256 by (intro unat_of_nat_less) (simp add: k_def)
  have up1: "unat (of_nat ((k + 1) div 2) + 1 :: u64) = 1 + (k + 1) div 2" using h256 up by (subst unat_plus) (auto simp: k_def)
  have long: "n < of_nat ((k + 1) div 2) + 1 \<longleftrightarrow> unat n < 1 + (k + 1) div 2" by (simp only: w2n up1)
  have sp: "spells_direct s (unat n) maxc ws \<longleftrightarrow> 1 + (k + 1) div 2 \<le> unat n \<and> k < maxc \<and> ws = map (nibble s) [0..<k]" for ws
    using h by (simp add: spells_direct_def k_def Let_def)
  show ?thesis
  proof (cases "unat n < 1 + (k + 1) div 2 \<or> maxc < k + 1")
    case True
    then show ?thesis unfolding huf_written_direct_def Let_def k long by (auto simp: sp wp_Some)
  next
    case False
    then have f: "\<not> unat n < 1 + (k + 1) div 2" "\<not> maxc < k + 1" by simp_all
    have "huf_direct s [0..<k] W = Some (map (nibble s) [0..<k] @ drop k W)"
      using huf_direct_contract[of 0 k s W] n W f by simp
    then show ?thesis unfolding huf_written_direct_def Let_def k long if_not_P[OF f(1)] if_not_P[OF f(2)]
      using f up1 by (simp add: sp wp_Some)
  qed
qed


lemma written_fse_contract:
  assumes h: "unat (s ! 0) = h" "h < 128" and n: "unat n \<le> length s" and W: "maxc \<le> length W" and m: "2 \<le> maxc" "maxc \<le> 256"
    and scr: "scratch_ok scr"
  shows "wp (huf_written_fse s n h maxc scr W) (\<lambda>res. case res of
     Inl (st, _) \<Rightarrow> st = CUDEC_ERR_CORRUPT_INPUT \<and> \<not> (\<exists>ws. spells_fse s (unat n) maxc scr ws)
   | Inr (k, c, W') \<Rightarrow> \<exists>ws. spells_fse s (unat n) maxc scr ws \<and> k = length ws \<and> k < maxc \<and>
       unat c = 1 + h \<and> W' = ws @ drop k W)"
proof -
  have uh: "unat (of_nat h :: u64) = h" using h(2) by (intro unat_of_nat_less) simp
  have uh1: "unat (of_nat h + 1 :: u64) = 1 + h" using h(2) uh by (subst unat_plus) auto
  have short: "of_nat h + 1 > n \<longleftrightarrow> unat n < 1 + h" by (simp only: w2n uh1)
  let ?spells = "\<lambda>ws. spells_fse s (unat n) maxc scr ws"
  show ?thesis
  proof (cases "unat n < 1 + h")
    case True
    then show ?thesis unfolding huf_written_fse_def Let_def short by (auto simp: wp_Some spells_fse_def h)
  next
    case False
    then have hl: "h \<le> length (drop 1 s)" using n by simp
    have nc: "wp (zstd_fse_read_ncount (drop 1 s) h 12 6 (ws_counts scr)) (\<lambda>res. case res of
       Inl (st, _) \<Rightarrow> st = CUDEC_ERR_CORRUPT_INPUT
     | Inr d \<Rightarrow> fd_max_symbol d \<le> 12 \<and> 5 \<le> fd_accuracy_log d \<and> fd_accuracy_log d \<le> 6 \<and> fd_consumed d \<le> h \<and>
         normalized (fd_counts d) (fd_max_symbol d) (fd_accuracy_log d))"
      by (rule wp_mono[OF read_ncount_contract[OF hl]]) (use scr in \<open>auto simp: scratch_ok_def split: sum.splits\<close>)
    from nc obtain dres where dres: "zstd_fse_read_ncount (drop 1 s) h 12 6 (ws_counts scr) = Some dres" by (rule wpE)
    note nc' = wpD[OF nc dres]
    show ?thesis
    proof (cases dres)
      case (Inl e)
      then have "\<not> ?spells ws" for ws using dres h by (simp add: spells_fse_def Let_def)
      then show ?thesis unfolding huf_written_fse_def Let_def short if_not_P[OF False] huf_consts dres bind.bind_lunit
        using nc' Inl by (cases e) (simp add: wp_Some)
    next
      case (Inr d)
      let ?L = "fd_accuracy_log d"
      have d: "fd_max_symbol d \<le> 12" "5 \<le> ?L" "?L \<le> 6" "fd_consumed d \<le> h" "normalized (fd_counts d) (fd_max_symbol d) ?L"
        using nc' Inr by simp_all
      have L: "log_ok ?L" using d by (simp add: log_ok_def)
      have two: "(2::nat) ^ ?L \<le> 64" "(2::int) ^ ?L \<le> 64"
        using d power_increasing[of ?L 6 "2::nat"] power_increasing[of ?L 6 "2::int"] by simp_all
      have cn: "\<forall>t\<le>fd_max_symbol d. fd_counts d ! t < 32768"
        
        using d(5) two(2) unfolding normalized_def by (auto dest: spec order_trans)
      have cap: "unat (push_bit ?L 1 :: u32) = 2 ^ ?L" using d by (intro unat_push_1) simp
      have bt: "wp (zstd_fse_build_dtable (fd_counts d) (fd_max_symbol d) ?L (ws_cells scr) (push_bit ?L 1) (ws_symbol_next scr))
          (\<lambda>res. case res of Inl e \<Rightarrow> False | Inr cells \<Rightarrow> closed_table ?L cells)"
        by (rule wp_mono[OF build_dtable_contract[OF L]])
          (use d scr two cap cn in \<open>auto simp: scratch_ok_def normalized_def split: sum.splits intro: table_ok_closed[OF L]\<close>)
      from wp_InrD[OF bt] obtain cells where cells: "zstd_fse_build_dtable (fd_counts d) (fd_max_symbol d) ?L (ws_cells scr) (push_bit ?L 1)
          (ws_symbol_next scr) = Some (Inr cells)" "closed_table ?L cells" by blast
      let ?src = "drop (1 + fd_consumed d) s" and ?sz = "of_nat h - of_nat (fd_consumed d) :: u64"
      define k where "k = h - fd_consumed d"
      have uc: "unat (of_nat (fd_consumed d) :: u64) = fd_consumed d" using d h(2) by (intro unat_of_nat_less) simp
      have sz: "unat ?sz = k" using uh uc d by (simp add: unat_minus k_def)
      let ?run = "take k ?src"
      have lr: "length ?run = k" using hl n False d(4) by (simp add: k_def)
      let ?rd = "zstd_bit_reader_init ?src ?sz"
      have ok: "reader_ok ?rd" using lr h(2) by (simp add: reader_ok_def zstd_bit_reader_init_def sz k_def) linarith
      have sp: "?spells ws \<longleftrightarrow> ?run \<noteq> [] \<and> last ?run \<noteq> 0 \<and> 2 * ?L \<le> length (stream_bits ?run) \<and>
           two_state_spec (maxc - 1) cells (drop (2 * ?L) (stream_bits ?run)) (bits_value (take ?L (stream_bits ?run)))
             (bits_value (take ?L (drop ?L (stream_bits ?run)))) = Some ws" for ws
        using False h dres Inr cells(1) by (simp add: spells_fse_def Let_def k_def)
      have start: "wp (zstd_bit_start ?rd) (\<lambda>(st, r). (st = CUDEC_OK \<longleftrightarrow> ?run \<noteq> [] \<and> last ?run \<noteq> 0) \<and>
          (st \<noteq> CUDEC_OK \<longrightarrow> st = CUDEC_ERR_CORRUPT_INPUT) \<and> (st = CUDEC_OK \<longrightarrow> live_reader r \<and> live_bits r = stream_bits ?run))"
      proof (rule wp_mono[OF start_contract[OF ok]], goal_cases)
        case (1 x)
        define z where "z = ?sz"
        define src where "src = ?src"
        define run where "run = take k src"
        have z: "unat z = k" "z = 0 \<longleftrightarrow> k = 0" using sz by (auto simp: z_def word_unat_eq_iff)
        have r: "run = [] \<longleftrightarrow> k = 0" using lr by (auto simp: run_def src_def simp flip: length_0_conv)
        have "last run = src ! (k - 1)" if "k \<noteq> 0" using that lr unfolding run_def src_def by (subst last_conv_nth) auto
        then show ?case using 1 r unfolding zstd_bit_reader_init_def z_def[symmetric] src_def[symmetric] run_def[symmetric]
          by (auto simp: z live_reader_def run_def[symmetric])
      qed
      have um: "unat (of_nat (maxc - 1) :: u32) = maxc - 1" using m by (intro unat_of_nat_less) simp
      show ?thesis unfolding huf_written_fse_def Let_def short if_not_P[OF False] huf_consts dres Inr bind.bind_lunit sum.case cells(1)
      proof (rule wp_bind2[OF start], goal_cases)
        case (1 st r)
        show ?case
        proof (cases "st = CUDEC_OK")
          case False
          then show ?thesis using 1 by (auto simp: wp_Some sp)
        next
          case True
          then have lv: "live_reader r" "live_bits r = stream_bits ?run" "?run \<noteq> [] \<and> last ?run \<noteq> 0" using 1 by blast+
          have t: "\<not> st \<noteq> CUDEC_OK" using True by simp
          have mW: "unat (of_nat (maxc - 1) :: u32) \<le> length W" using um W by simp
          show ?thesis unfolding if_not_P[OF t]
          proof (rule wp_bind2[OF decode_2state_contract[OF cells(2) lv(1) mW, unfolded lv(2) um]], goal_cases)
            case (1 res r')
            define bits where "bits = stream_bits ?run"
            have s1: "?spells ws \<longleftrightarrow> 2 * ?L \<le> length bits \<and> two_state_spec (maxc - 1) cells (drop (2 * ?L) bits) (bits_value (take ?L bits))
                (bits_value (take ?L (drop ?L bits))) = Some ws" for ws using sp lv(3) unfolding bits_def by blast
            show ?case
            proof (cases "length bits < 2 * ?L")
              case True
              then show ?thesis using 1 unfolding bits_def[symmetric] by (simp add: s1 wp_Some)
            next
              case False
              then show ?thesis using 1 m uh1 unfolding bits_def[symmetric] 
                by (cases "two_state_spec (maxc - 1) cells (drop (2 * ?L) bits) (bits_value (take ?L bits)) (bits_value (take ?L (drop ?L bits)))")
                  (auto simp: s1 wp_Some)
            qed
          qed
        qed
      qed
    qed
  qed
qed


section \<open>The description is read exactly\<close>

text \<open>
  What a description stands for: its weights, then the weight that closes the tree; the depth;
  the bytes it occupies.
\<close>

definition huf_described :: "u8 list \<Rightarrow> nat \<Rightarrow> nat \<Rightarrow> nat \<Rightarrow> zstd_huf_scratch \<Rightarrow> u8 list \<Rightarrow> nat \<Rightarrow> bool" where
  "huf_described s n maxc M scr ws L \<longleftrightarrow> n \<noteq> 0 \<and> ws \<noteq> [] \<and> last ws \<noteq> 0 \<and> L \<le> M \<and> huf_tree ws L \<and>
     (spells_direct s n maxc (butlast ws) \<or> spells_fse s n maxc scr (butlast ws))"

definition huf_description_bytes :: "u8 list \<Rightarrow> nat" where
  "huf_description_bytes s = (let h = unat (s ! 0) in 1 + (if h < 128 then h else (h - 126) div 2))"

lemma read_weights_contract:
  assumes n: "unat n \<le> length s" and W: "maxc \<le> length W" and m: "2 \<le> maxc" "maxc \<le> 256" and M: "0 < M" "M \<le> 12"
    and scr: "scratch_ok scr"
  shows "wp (zstd_huf_read_weights s n maxc M scr W) (\<lambda>res. case res of
     Inl (st, _) \<Rightarrow> st = CUDEC_ERR_CORRUPT_INPUT \<and> \<not> (\<exists>ws L. huf_described s (unat n) maxc M scr ws L)
   | Inr t \<Rightarrow> huf_described s (unat n) maxc M scr (take (ht_count t) (ht_weights t)) (ht_table_log t) \<and>
       2 \<le> ht_count t \<and> ht_count t \<le> maxc \<and> unat (ht_consumed t) = huf_description_bytes s \<and> huf_description_bytes s \<le> unat n \<and>
       length (ht_weights t) = length W \<and> drop (ht_count t) (ht_weights t) = drop (ht_count t) W)"
proof (cases "n = 0")
  case True
  then show ?thesis using m M by (auto simp: zstd_huf_read_weights_def huf_consts wp_Some huf_described_def)
next
  case False
  then have n0: "0 < unat n" by (simp add: unat_gt_0)
  let ?h = "unat (s ! 0)" and ?n = "unat n"
  define spells where "spells = (\<lambda>ws. spells_direct s ?n maxc ws \<or> spells_fse s ?n maxc scr ws)"
  define written where "written = (if kZstdHufDirectHeaderBase \<le> ?h then huf_written_direct s n ?h maxc W else huf_written_fse s n ?h maxc scr W)"
  have sp: "wp written (\<lambda>res. case res of
     Inl (st, _) \<Rightarrow> st = CUDEC_ERR_CORRUPT_INPUT \<and> \<not> (\<exists>ws. spells ws)
   | Inr (k, c, W') \<Rightarrow> \<exists>ws. spells ws \<and> k = length ws \<and> k < maxc \<and> unat c = huf_description_bytes s \<and>
       huf_description_bytes s \<le> ?n \<and> W' = ws @ drop k W)"
  proof (cases "128 \<le> ?h")
    case True
    have no: "\<not> spells_fse s ?n maxc scr ws" for ws using True by (simp add: spells_fse_def Let_def)
    have byt: "1 + (length ws + 1) div 2 = huf_description_bytes s" "huf_description_bytes s \<le> ?n" if "spells_direct s ?n maxc ws" for ws
      using that True by (auto simp: spells_direct_def huf_description_bytes_def Let_def)
    have w: "written = huf_written_direct s n ?h maxc W" using True by (simp add: written_def huf_consts)
    show ?thesis unfolding w
      by (rule wp_mono[OF written_direct_contract[OF refl True n W]]) (auto simp: spells_def no split: sum.splits dest: byt[simplified])
  next
    case lt: False
    then have h: "?h < 128" by simp
    have no: "\<not> spells_direct s ?n maxc ws" for ws using h by (simp add: spells_direct_def Let_def)
    have byt: "huf_description_bytes s = 1 + ?h" using h by (simp add: huf_description_bytes_def)
    have le: "1 + ?h \<le> ?n" if "spells_fse s ?n maxc scr ws" for ws using that by (simp add: spells_fse_def Let_def)
    have w: "written = huf_written_fse s n ?h maxc scr W" using h by (simp add: written_def huf_consts)
    show ?thesis unfolding w
      by (rule wp_mono[OF written_fse_contract[OF refl h n W m scr]]) (auto simp: spells_def no byt split: sum.splits dest: le[simplified])
  qed
  have args: "\<not> (maxc < 2 \<or> kZstdHufMaxSymbolValue + 1 < maxc \<or> M = 0 \<or> kZstdHufMaxTableLog < M)" using m M by (simp add: huf_consts)
  have at0: "at s 0 = Some (s ! 0)" using n n0 by (intro at_Some) linarith
  have one: "ws = ws'" if "spells ws" "spells ws'" for ws ws'
    using that by (auto simp: spells_def spells_direct_def spells_fse_def Let_def)
  have desc: "huf_described s ?n maxc M scr ws L \<longleftrightarrow> ws \<noteq> [] \<and> last ws \<noteq> 0 \<and> L \<le> M \<and> huf_tree ws L \<and> spells (butlast ws)" for ws L
    using n0 by (simp add: huf_described_def spells_def)
  show ?thesis unfolding zstd_huf_read_weights_def if_not_P[OF args] if_not_P[OF False] at0 bind.bind_lunit Let_def written_def[symmetric]
  proof (rule wp_bindI[OF sp], goal_cases)
    case (1 x)
    show ?case
    proof (cases x)
      case (Inl e)
      then show ?thesis using 1 by (cases e) (auto simp: wp_Some desc)
    next
      case (Inr y)
      obtain k c W' where y: "y = (k, c, W')" by (cases y)
      from 1 obtain ws where ws: "spells ws" "k = length ws" "k < maxc" "unat c = huf_description_bytes s"
          "huf_description_bytes s \<le> ?n" "W' = ws @ drop k W" unfolding Inr y by auto
      have lW: "length W' = length W" "k < length W'" "take k W' = ws" using ws W by auto
      have k: "k \<le> 255" using ws(3) m by simp
      show ?thesis unfolding Inr y sum.case prod.case
      proof (rule wp_mono[OF huf_close_contract[OF lW(2) k M(2), of c, unfolded lW(3)]], goal_cases)
        case (1 r)
        show ?case
        proof (cases r)
          case (Inl e)
          have "\<not> huf_described s ?n maxc M scr vs L" for vs L
          proof
            assume "huf_described s ?n maxc M scr vs L"
            then have v: "vs \<noteq> []" "last vs \<noteq> 0" "L \<le> M" "huf_tree vs L" "butlast vs = ws" using desc one ws(1) by auto
            then have "huf_tree (ws @ [last vs]) L" using append_butlast_last_id[of vs] by simp
            then show False using 1 Inl v by (cases e) auto
          qed
          then show ?thesis using 1 Inl by (cases e) auto
        next
          case (Inr t)
          then obtain w where w: "w \<noteq> 0" "ht_table_log t \<le> M" "huf_tree (ws @ [w]) (ht_table_log t)" "ht_count t = k + 1"
            "ht_consumed t = c" "ht_weights t = W'[k := w]" using 1 by auto
          have tk: "take (k + 1) (W'[k := w]) = ws @ [w]" using lW by (simp add: take_Suc_conv_app_nth)
          have dr: "drop (k + 1) (W'[k := w]) = drop (k + 1) W" using ws(2,3,6) by simp
          have "k \<noteq> 0"
          proof
            assume "k = 0"
            then have "ws = []" using ws(2) by simp
            then show False using w(3) by (simp add: huf_tree_def split: if_splits)
          qed
          then show ?thesis using Inr w ws lW tk dr by (simp add: desc Suc_le_eq)
        qed
      qed
    qed
  qed
qed

end
