(* ===== verification/Zstd_Huf_Table.thy ===== *)
theory Zstd_Huf_Table
  imports Zstd_Huf
begin

text \<open>
  The decoding table of a Huffman tree, \<open>ZstdHufBuildDTable\<close> of \<open>src/zstd_huf.h\<close>: the symbols of each
  weight are counted, each weight gets its first cell, and the symbols are placed in their order.
  The order of the cells is the canonical code. The array of first cells is not initialised
  beyond what the loop writes: it is an argument here.
\<close>

fun huf_rank_counts :: "u8 list \<Rightarrow> nat \<Rightarrow> nat list \<Rightarrow> u32 list \<Rightarrow> u32 \<Rightarrow> (huf_error + u32 list \<times> u32) option" where
  "huf_rank_counts weights table_log [] rank_count claimed = Some (Inr (rank_count, claimed))"
| "huf_rank_counts weights table_log (i # is) rank_count claimed = do {
     w \<leftarrow> at weights i;
     if unat w > table_log then Some (Inl (CUDEC_ERR_CORRUPT_INPUT, kZstdHufRejectWeightTooLarge))
     else do {
       c \<leftarrow> at rank_count (unat w);
       rank_count \<leftarrow> put rank_count (unat w) (c + 1);
       huf_rank_counts weights table_log is rank_count (claimed + drop_bit 1 (push_bit (unat w) 1))
     }
   }"

fun huf_rank_starts :: "u32 list \<Rightarrow> nat list \<Rightarrow> u32 list \<Rightarrow> u32 \<Rightarrow> u32 list option" where
  "huf_rank_starts rank_count [] rank_start nxt = Some rank_start"
| "huf_rank_starts rank_count (w # ws) rank_start nxt = do {
     rank_start \<leftarrow> put rank_start w nxt;
     c \<leftarrow> at rank_count w;
     huf_rank_starts rank_count ws rank_start (nxt + c * drop_bit 1 (push_bit w 1))
   }"

fun huf_span :: "u8 \<Rightarrow> u8 \<Rightarrow> u32 \<Rightarrow> nat list \<Rightarrow> zstd_huf_cell list \<Rightarrow> zstd_huf_cell list option" where
  "huf_span symbol nb_bits cell [] cells = Some cells"
| "huf_span symbol nb_bits cell (i # is) cells = do {
     cells \<leftarrow> put cells (unat (cell + of_nat i)) \<lparr>hc_symbol = symbol, hc_nb_bits = nb_bits\<rparr>;
     huf_span symbol nb_bits cell is cells
   }"

fun huf_place :: "u8 list \<Rightarrow> nat \<Rightarrow> nat list \<Rightarrow> u32 list \<Rightarrow> zstd_huf_cell list \<Rightarrow> zstd_huf_cell list option" where
  "huf_place weights table_log [] rank_start cells = Some cells"
| "huf_place weights table_log (symbol # ss) rank_start cells = do {
     w \<leftarrow> at weights symbol;
     let weight = unat w;
     if weight = 0 then huf_place weights table_log ss rank_start cells
     else do {
       let span = (drop_bit 1 (push_bit weight 1) :: u32);
       let nb_bits = (of_nat (table_log + 1 - weight) :: u8);
       cell \<leftarrow> at rank_start weight;
       cells \<leftarrow> huf_span (of_nat symbol) nb_bits cell [0..<unat span] cells;
       rank_start \<leftarrow> put rank_start weight (cell + span);
       huf_place weights table_log ss rank_start cells
     }
   }"

definition zstd_huf_build_dtable :: "u8 list \<Rightarrow> nat \<Rightarrow> nat \<Rightarrow> zstd_huf_cell list \<Rightarrow> u32 \<Rightarrow> u32 list \<Rightarrow>
    (huf_error + zstd_huf_cell list) option" where
  "zstd_huf_build_dtable weights count table_log cells cell_capacity stale =
     (if count = 0 \<or> count > kZstdHufMaxSymbolValue + 1 \<or> table_log = 0 \<or> table_log > kZstdHufMaxTableLog
      then Some (Inl (CUDEC_ERR_INVALID_ARGUMENT, kZstdHufRejectBadRequest))
      else do {
        let table_size = (push_bit table_log 1 :: u32);
        if cell_capacity < table_size then Some (Inl (CUDEC_ERR_INVALID_ARGUMENT, kZstdHufRejectBuildCapacity))
        else do {
          counted \<leftarrow> huf_rank_counts weights table_log [0..<count] (replicate (kZstdHufMaxTableLog + 1) 0) 0;
          case counted of
            Inl e \<Rightarrow> Some (Inl e)
          | Inr (rank_count, claimed) \<Rightarrow>
              if claimed \<noteq> table_size then Some (Inl (CUDEC_ERR_CORRUPT_INPUT, kZstdHufRejectBuildWeightsNotClean))
              else do {
                rank_start \<leftarrow> put stale 0 0;
                rank_start \<leftarrow> huf_rank_starts rank_count [1..<table_log + 1] rank_start 0;
                cells \<leftarrow> huf_place weights table_log [0..<count] rank_start cells;
                Some (Inr cells)
              }
        }
      })"

section \<open>Counting\<close>

text \<open>The cells of the symbols of one weight, among the first symbols.\<close>

definition rank_cells :: "u8 list \<Rightarrow> nat \<Rightarrow> nat" where
  "rank_cells ws k = (\<Sum>w\<leftarrow>ws. if unat w = k then leaf w else 0)"

definition rank_symbols :: "u8 list \<Rightarrow> nat \<Rightarrow> nat" where
  "rank_symbols ws k = length (filter (\<lambda>w. unat w = k) ws)"

lemma rank_cells_simps [simp]: "rank_cells [] k = 0" "rank_cells (xs @ ys) k = rank_cells xs k + rank_cells ys k"
  "rank_cells [w] k = (if unat w = k then leaf w else 0)"
  by (simp_all add: rank_cells_def)

lemma rank_symbols_cells: "0 < k \<Longrightarrow> rank_symbols ws k * 2 ^ (k - 1) = rank_cells ws k"
  by (induction ws) (auto simp: rank_symbols_def rank_cells_def leaf_def)

lemma rank_symbols_length: "rank_symbols ws k \<le> length ws"
  by (simp add: rank_symbols_def)

lemma rank_counts_contract:
  assumes "i \<le> n" "n \<le> length W" "n \<le> 256" "L \<le> 12" "unat cl = huf_sum (take i W)" "\<forall>k<i. unat (W ! k) \<le> L"
    "length rc = 13" "\<forall>k<13. unat (rc ! k) = rank_symbols (take i W) k"
  shows "wp (huf_rank_counts W L [i..<n] rc cl) (\<lambda>res. case res of
     Inl (st, _) \<Rightarrow> st = CUDEC_ERR_CORRUPT_INPUT \<and> (\<exists>k<n. L < unat (W ! k))
   | Inr (rc', t) \<Rightarrow> unat t = huf_sum (take n W) \<and> (\<forall>k<n. unat (W ! k) \<le> L) \<and> length rc' = 13 \<and>
       (\<forall>k<13. unat (rc' ! k) = rank_symbols (take n W) k))"
  using assms
proof (induction "n - i" arbitrary: i cl rc)
  case 0
  then show ?case by (auto simp: wp_Some)
next
  case (Suc m)
  then have lt: "i < n" "i < length W" by simp_all
  have u: "[i..<n] = i # [Suc i..<n]" using lt by (simp add: upt_conv_Cons)
  show ?case
  proof (cases "L < unat (W ! i)")
    case True
    then show ?thesis using lt by (auto simp: u wp_Some)
  next
    case False
    define w where "w = W ! i"
    define x :: u32 where "x = drop_bit 1 (push_bit (unat w) 1)"
    have w: "unat w \<le> 12" using False Suc.prems by (simp add: w_def)
    have b: "huf_sum (take i W) \<le> 2048 * length (take i W)"
      using Suc.prems by (intro huf_sum_bound) (auto simp: in_set_conv_nth intro: order_trans)
    then have b': "huf_sum (take i W) \<le> 2048 * 256" using Suc.prems by simp
    have tk: "take (Suc i) W = take i W @ [w]" using lt by (simp add: take_Suc_conv_app_nth w_def)
    have lw: "unat x = leaf w" using w unfolding x_def by (intro leaf_word) simp
    have "unat cl + unat x < 2 ^ LENGTH(32)" using b' lw leaf_bound[OF w] Suc.prems(5) by simp
    then have cl: "unat (cl + x) = huf_sum (take (Suc i) W)" using lw Suc.prems(5) by (simp add: tk unat_plus)
    have "rank_symbols (take i W) (unat w) \<le> 256" using rank_symbols_length[of "take i W" "unat w"] Suc.prems by simp
    then have r1: "unat (rc ! unat w + 1) = rank_symbols (take i W) (unat w) + 1"
      using Suc.prems(8) w by (subst unat_plus) auto
    have rc: "\<forall>k<13. unat (rc[unat w := rc ! unat w + 1] ! k) = rank_symbols (take (Suc i) W) k"
      using Suc.prems(7,8) w r1 by (auto simp: tk rank_symbols_def nth_list_update)
    have "wp (huf_rank_counts W L [Suc i..<n] (rc[unat w := rc ! unat w + 1]) (cl + x)) (\<lambda>res. case res of
       Inl (st, _) \<Rightarrow> st = CUDEC_ERR_CORRUPT_INPUT \<and> (\<exists>k<n. L < unat (W ! k))
     | Inr (rc', t) \<Rightarrow> unat t = huf_sum (take n W) \<and> (\<forall>k<n. unat (W ! k) \<le> L) \<and> length rc' = 13 \<and>
         (\<forall>k<13. unat (rc' ! k) = rank_symbols (take n W) k))"
      using Suc.prems(2,3,4,6,7) Suc.hyps(2) lt False cl rc by (intro Suc.hyps(1)) (auto simp: less_Suc_eq)
    moreover have "drop_bit (Suc 0) (2 ^ unat w) = x" by (simp add: x_def)
    ultimately show ?thesis using False lt w Suc.prems(7) by (simp add: u w_def[symmetric])
  qed
qed

text \<open>The first cell of a weight: the cells of all smaller weights come before.\<close>

definition rank_first :: "u8 list \<Rightarrow> nat \<Rightarrow> nat" where
  "rank_first ws k = (\<Sum>j<k. rank_cells ws j)"

lemma rank_cells_0 [simp]: "rank_cells ws 0 = 0"
proof -
  have "(if unat w = 0 then leaf w else 0) = 0" for w :: u8 by (simp add: leaf_def unat_eq_0)
  then show ?thesis unfolding rank_cells_def by simp
qed

lemma rank_first_Suc [simp]: "rank_first ws 0 = 0" "rank_first ws (Suc k) = rank_first ws k + rank_cells ws k"
  by (simp_all add: rank_first_def)

lemma rank_first_total: "(\<forall>w\<in>set ws. unat w < k) \<Longrightarrow> rank_first ws k = huf_sum ws"
proof (induction ws)
  case (Cons w ws)
  have "rank_first (w # ws) k = (\<Sum>j<k. if unat w = j then leaf w else 0) + rank_first ws k"
    by (simp add: rank_first_def rank_cells_def sum.distrib)
  also have "(\<Sum>j<k. if unat w = j then leaf w else 0) = leaf w" using Cons.prems by (simp add: sum.delta')
  finally show ?case using Cons by simp
qed (simp add: rank_first_def)

lemma rank_first_mono: "j \<le> k \<Longrightarrow> rank_first ws j \<le> rank_first ws k"
  unfolding rank_first_def by (intro sum_mono2) auto

lemma rank_starts_contract:
  assumes "1 \<le> k" "k \<le> Suc L" "L \<le> 12" "length rc = 13" "\<forall>k<13. unat (rc ! k) = rank_symbols ws k" "length rs = 13"
    "unat nxt = rank_first ws k" "rank_first ws (Suc L) \<le> 4096" "\<forall>j<k. 0 < j \<longrightarrow> unat (rs ! j) = rank_first ws j"
  shows "\<exists>rs'. huf_rank_starts rc [k..<Suc L] rs nxt = Some rs' \<and> length rs' = 13 \<and>
    (\<forall>j\<le>L. 0 < j \<longrightarrow> unat (rs' ! j) = rank_first ws j)"
  using assms
proof (induction "Suc L - k" arbitrary: k rs nxt)
  case 0
  then show ?case by (simp add: less_Suc_eq_le)
next
  case (Suc m)
  then have lt: "k < Suc L" "k \<le> 12" "0 < k" by simp_all
  define x :: u32 where "x = drop_bit 1 (push_bit k 1)"
  have x: "unat x = 2 ^ (k - 1)"
    using leaf_word[of "of_nat k"] lt unat_of_nat_less[where 'a = 8, of k] by (simp add: x_def leaf_def unat_eq_0[symmetric] del: unat_eq_0)
  have "rank_cells ws k \<le> 4096" using rank_first_mono[of "Suc k" "Suc L" ws] lt Suc.prems(8) by simp
  then have "unat (rc ! k * x) = rank_cells ws k"
    using Suc.prems(5) lt x rank_symbols_cells[OF lt(3), of ws] by (subst unat_mult_lem[THEN iffD1]) auto
  moreover have "rank_first ws (Suc k) \<le> 4096" using rank_first_mono[of "Suc k" "Suc L" ws] lt Suc.prems(8) by simp
  ultimately have nx: "unat (nxt + rc ! k * x) = rank_first ws (Suc k)"
    using Suc.prems(7) by (subst unat_plus) auto
  have "\<exists>rs'. huf_rank_starts rc [Suc k..<Suc L] (rs[k := nxt]) (nxt + rc ! k * x) = Some rs' \<and> length rs' = 13 \<and>
    (\<forall>j\<le>L. 0 < j \<longrightarrow> unat (rs' ! j) = rank_first ws j)"
    using Suc.prems Suc.hyps(2) lt nx by (intro Suc.hyps(1)) (auto simp: nth_list_update less_Suc_eq)
  moreover have "drop_bit (Suc 0) (2 ^ k) = x" by (simp add: x_def)
  ultimately show ?case using lt Suc.prems by (simp add: upt_conv_Cons del: upt_Suc)
qed

section \<open>The cells of a symbol\<close>

text \<open>
  The canonical order: first the cells of all symbols of smaller weight, then those of the earlier
  symbols of the same weight.
\<close>

definition huf_first :: "u8 list \<Rightarrow> nat \<Rightarrow> nat" where
  "huf_first ws t = rank_first ws (unat (ws ! t)) + rank_cells (take t ws) (unat (ws ! t))"

definition huf_block :: "u8 list \<Rightarrow> nat \<Rightarrow> nat set" where
  "huf_block ws t = {huf_first ws t..<huf_first ws t + leaf (ws ! t)}"

definition huf_cell_of :: "u8 list \<Rightarrow> nat \<Rightarrow> nat \<Rightarrow> zstd_huf_cell" where
  "huf_cell_of ws L t = \<lparr>hc_symbol = of_nat t, hc_nb_bits = of_nat (L + 1 - unat (ws ! t))\<rparr>"

definition huf_table :: "u8 list \<Rightarrow> nat \<Rightarrow> zstd_huf_cell list \<Rightarrow> bool" where
  "huf_table ws L cells \<longleftrightarrow> (\<forall>t<length ws. \<forall>p\<in>huf_block ws t. cells ! p = huf_cell_of ws L t)"

lemma rank_cells_take_mono: "t \<le> u \<Longrightarrow> rank_cells (take t ws) k \<le> rank_cells (take u ws) k"
  using take_add[of t "u - t" ws] by (simp add: rank_cells_def)

lemma rank_cells_take_le: "rank_cells (take t ws) k \<le> rank_cells ws k"
  using append_take_drop_id[of t ws] rank_cells_simps(2)[of "take t ws" "drop t ws" k] by simp

lemma rank_cells_own: "t < length ws \<Longrightarrow> rank_cells (take (Suc t) ws) (unat (ws ! t)) = rank_cells (take t ws) (unat (ws ! t)) + leaf (ws ! t)"
  by (simp add: take_Suc_conv_app_nth)

lemma block_end:
  assumes "t < length ws"
  shows "huf_first ws t + leaf (ws ! t) \<le> rank_first ws (Suc (unat (ws ! t)))"
  using rank_cells_own[OF assms] rank_cells_take_le[of "Suc t" ws "unat (ws ! t)"] by (simp add: huf_first_def)

lemma block_order:
  assumes "t < length ws" "u < length ws" "unat (ws ! t) < unat (ws ! u) \<or> ws ! t = ws ! u \<and> t < u"
  shows "huf_first ws t + leaf (ws ! t) \<le> huf_first ws u"
  using assms(3)
proof
  assume "unat (ws ! t) < unat (ws ! u)"
  then have "rank_first ws (Suc (unat (ws ! t))) \<le> rank_first ws (unat (ws ! u))" by (intro rank_first_mono) simp
  then show ?thesis using block_end[OF assms(1)] by (simp add: huf_first_def)
next
  assume "ws ! t = ws ! u \<and> t < u"
  then show ?thesis using rank_cells_own[OF assms(1)] rank_cells_take_mono[of "Suc t" u ws "unat (ws ! u)"] by (simp add: huf_first_def)
qed

lemma blocks_disjoint:
  assumes "t < length ws" "u < length ws" "t \<noteq> u"
  shows "huf_block ws t \<inter> huf_block ws u = {}"
proof -
  have "(unat (ws ! t) < unat (ws ! u) \<or> ws ! t = ws ! u \<and> t < u) \<or> (unat (ws ! u) < unat (ws ! t) \<or> ws ! u = ws ! t \<and> u < t)"
    using assms(3) by (auto simp: word_unat_eq_iff)
  then show ?thesis using block_order[of t ws u] block_order[of u ws t] assms by (auto simp: huf_block_def)
qed

lemma block_inside:
  assumes "t < length ws" "\<forall>w\<in>set ws. unat w \<le> L"
  shows "huf_first ws t + leaf (ws ! t) \<le> huf_sum ws"
proof -
  have "rank_first ws (Suc (unat (ws ! t))) \<le> rank_first ws (Suc L)" using assms by (intro rank_first_mono) simp
  also have "\<dots> = huf_sum ws" using assms(2) by (intro rank_first_total) (simp add: less_Suc_eq_le)
  finally show ?thesis using block_end[OF assms(1)] by simp
qed

lemma huf_span_contract:
  assumes "i \<le> n" "unat c + n \<le> length cells" "unat c + n < 2 ^ 32"
  shows "\<exists>cells'. huf_span s b c [i..<n] cells = Some cells' \<and> length cells' = length cells \<and>
    (\<forall>p. cells' ! p = (if unat c + i \<le> p \<and> p < unat c + n then \<lparr>hc_symbol = s, hc_nb_bits = b\<rparr> else cells ! p))"
  using assms
proof (induction "n - i" arbitrary: i cells)
  case 0
  then show ?case by auto
next
  case (Suc m)
  then have lt: "i < n" by simp
  have u: "unat (c + of_nat i) = unat c + i" using Suc.prems lt unat_of_nat_less[where 'a = 32, of i] by (subst unat_plus) auto
  let ?c = "cells[unat c + i := \<lparr>hc_symbol = s, hc_nb_bits = b\<rparr>]"
  have "\<exists>cells'. huf_span s b c [Suc i..<n] ?c = Some cells' \<and> length cells' = length ?c \<and>
    (\<forall>p. cells' ! p = (if unat c + Suc i \<le> p \<and> p < unat c + n then \<lparr>hc_symbol = s, hc_nb_bits = b\<rparr> else ?c ! p))"
    using Suc.prems Suc.hyps(2) lt by (intro Suc.hyps(1)) auto
  then show ?case using lt Suc.prems by (auto simp: upt_conv_Cons u nth_list_update)
qed

lemma huf_place_contract:
  assumes "s \<le> length ws" "length ws \<le> 256" "length ws \<le> length W" "take (length ws) W = ws" "\<forall>w\<in>set ws. unat w \<le> L" "L \<le> 12"
    "huf_sum ws = 2 ^ L" "2 ^ L \<le> length cells" "length rs = 13"
    "\<forall>k\<le>L. 0 < k \<longrightarrow> unat (rs ! k) = rank_first ws k + rank_cells (take s ws) k"
  shows "\<exists>cells'. huf_place W L [s..<length ws] rs cells = Some cells' \<and> length cells' = length cells \<and>
    (\<forall>p. cells' ! p = cells ! p \<or> (\<exists>t. s \<le> t \<and> t < length ws \<and> p \<in> huf_block ws t)) \<and>
    (\<forall>t<length ws. s \<le> t \<longrightarrow> (\<forall>p\<in>huf_block ws t. cells' ! p = huf_cell_of ws L t))"
  using assms
proof (induction "length ws - s" arbitrary: s cells rs)
  case 0
  then show ?case by simp
next
  case (Suc m)
  then have lt: "s < length ws" by simp
  have ups: "[s..<length ws] = s # [Suc s..<length ws]" using lt by (simp add: upt_conv_Cons)
  have Ws: "W ! s = ws ! s" using Suc.prems(4) lt by (metis nth_take)
  define w where "w = ws ! s"
  have ats: "at W s = Some w" using lt Suc.prems(3) Ws by (simp add: w_def)
  have wL: "unat w \<le> L" using Suc.prems(5) lt by (simp add: w_def)
  have step: "rank_cells (take (Suc s) ws) k = rank_cells (take s ws) k + (if unat w = k then leaf w else 0)" for k
    using lt by (simp add: take_Suc_conv_app_nth w_def)
  show ?case
  proof (cases "unat w = 0")
    case True
    then have l0: "leaf w = 0" by (simp add: leaf_def unat_eq_0)
    then have e: "huf_block ws s = {}" by (simp add: huf_block_def w_def)
    have "\<exists>cells'. huf_place W L [Suc s..<length ws] rs cells = Some cells' \<and> length cells' = length cells \<and>
      (\<forall>p. cells' ! p = cells ! p \<or> (\<exists>t. Suc s \<le> t \<and> t < length ws \<and> p \<in> huf_block ws t)) \<and>
      (\<forall>t<length ws. Suc s \<le> t \<longrightarrow> (\<forall>p\<in>huf_block ws t. cells' ! p = huf_cell_of ws L t))"
      using Suc.prems Suc.hyps(2) lt step l0 by (intro Suc.hyps(1)) auto
    then show ?thesis unfolding ups huf_place.simps ats bind.bind_lunit Let_def if_P[OF True]
      using e by (metis Suc_leD empty_iff le_antisym not_less_eq_eq)
  next
    case False
    define x :: u32 where "x = drop_bit 1 (push_bit (unat w) 1)"
    have x: "unat x = leaf w" using wL Suc.prems(6) unfolding x_def by (intro leaf_word) simp
    have rsw: "unat (rs ! unat w) = huf_first ws s" using Suc.prems(10) False wL by (simp add: huf_first_def w_def)
    have ins: "huf_first ws s + leaf w \<le> 2 ^ L" using block_inside[OF lt Suc.prems(5)] Suc.prems(7) by (simp add: w_def)
    have two: "(2::nat) ^ L \<le> 4096" using power_increasing[OF Suc.prems(6), of "2::nat"] by simp
    obtain c1 where c1: "huf_span (of_nat s) (of_nat (L + 1 - unat w)) (rs ! unat w) [0..<unat x] cells = Some c1" "length c1 = length cells"
       "\<forall>p. c1 ! p = (if p \<in> huf_block ws s then huf_cell_of ws L s else cells ! p)"
      using huf_span_contract[of 0 "unat x" "rs ! unat w" cells "of_nat s" "of_nat (L + 1 - unat w)"] x rsw ins two Suc.prems(8)
      by (auto simp: huf_block_def huf_cell_of_def w_def[symmetric])
    have r12: "unat w < length rs" using wL Suc.prems(6,9) by simp
    have nx: "unat (rs ! unat w + x) = huf_first ws s + leaf w" using rsw x ins two by (subst unat_plus) auto
    have rs': "\<forall>k\<le>L. 0 < k \<longrightarrow> unat (rs[unat w := rs ! unat w + x] ! k) = rank_first ws k + rank_cells (take (Suc s) ws) k"
      using Suc.prems(10) r12 nx by (auto simp: nth_list_update step huf_first_def w_def[symmetric])
    have "\<exists>cells'. huf_place W L [Suc s..<length ws] (rs[unat w := rs ! unat w + x]) c1 = Some cells' \<and> length cells' = length c1 \<and>
      (\<forall>p. cells' ! p = c1 ! p \<or> (\<exists>t. Suc s \<le> t \<and> t < length ws \<and> p \<in> huf_block ws t)) \<and>
      (\<forall>t<length ws. Suc s \<le> t \<longrightarrow> (\<forall>p\<in>huf_block ws t. cells' ! p = huf_cell_of ws L t))"
      using Suc.prems Suc.hyps(2) lt c1(2) rs' by (intro Suc.hyps(1)) auto
    then obtain c2 where c2: "huf_place W L [Suc s..<length ws] (rs[unat w := rs ! unat w + x]) c1 = Some c2" "length c2 = length c1"
      "\<And>p. c2 ! p = c1 ! p \<or> (\<exists>t. Suc s \<le> t \<and> t < length ws \<and> p \<in> huf_block ws t)"
      "\<And>t p. t < length ws \<Longrightarrow> Suc s \<le> t \<Longrightarrow> p \<in> huf_block ws t \<Longrightarrow> c2 ! p = huf_cell_of ws L t" by blast
    have own: "c2 ! p = huf_cell_of ws L s" if "p \<in> huf_block ws s" for p
      using c2(3)[of p] c1(3) that blocks_disjoint[OF lt] by (metis IntI Suc_n_not_le_n empty_iff)
    have run: "huf_place W L [s..<length ws] rs cells = Some c2"
      unfolding ups huf_place.simps ats bind.bind_lunit Let_def if_not_P[OF False] at_Some[OF r12] x_def[symmetric] c1(1) put_Some[OF r12] by (rule c2(1))
    have fr: "c2 ! p = cells ! p \<or> (\<exists>t. s \<le> t \<and> t < length ws \<and> p \<in> huf_block ws t)" for p
      using c2(3)[of p] c1(3) lt by (metis Suc_leD order_refl)
    have all: "c2 ! p = huf_cell_of ws L t" if "t < length ws" "s \<le> t" "p \<in> huf_block ws t" for t p
      using own c2(4) that by (metis Suc_leI le_neq_implies_less)
    show ?thesis by (rule exI[of _ c2]) (use run fr all c1(2) c2(2) in simp)
  qed
qed

section \<open>The table is the canonical prefix code\<close>

text \<open>Weights that fill the table of a depth.\<close>

definition huf_fits :: "u8 list \<Rightarrow> nat \<Rightarrow> bool" where
  "huf_fits ws L \<longleftrightarrow> huf_sum ws = 2 ^ L \<and> (\<forall>w\<in>set ws. unat w \<le> L)"

lemma tree_fits:
  assumes "huf_tree ws L"
  shows "huf_fits ws L"
proof -
  have "unat w \<le> L" if w: "w \<in> set ws" for w
  proof (rule leaf_less, rule ccontr)
    assume "\<not> leaf w < 2 ^ L"
    then have full: "huf_sum ws \<le> leaf w" using assms by (simp add: huf_tree_def)
    obtain xs ys where s: "ws = xs @ w # ys" using split_list[OF w] by blast
    have ones: "count_list zs 1 \<le> huf_sum zs" for zs by (induction zs) (simp_all add: leaf_def)
    have "count_list xs 1 = 0" "count_list ys 1 = 0" using full ones[of xs] ones[of ys] by (simp_all add: s)
    then show False using assms by (simp add: huf_tree_def s split: if_splits)
  qed
  then show ?thesis using assms by (simp add: huf_fits_def huf_tree_def)
qed

lemma build_table_contract:
  assumes W: "n \<le> length W" and cap: "unat cap \<le> length cells" and st: "length stale = 13"
  shows "wp (zstd_huf_build_dtable W n L cells cap stale) (\<lambda>res. case res of
     Inl (st, _) \<Rightarrow> (if n = 0 \<or> 256 < n \<or> L = 0 \<or> 12 < L \<or> unat cap < 2 ^ L then st = CUDEC_ERR_INVALID_ARGUMENT
                    else st = CUDEC_ERR_CORRUPT_INPUT \<and> \<not> huf_fits (take n W) L)
   | Inr cells' \<Rightarrow> n \<noteq> 0 \<and> n \<le> 256 \<and> L \<noteq> 0 \<and> L \<le> 12 \<and> 2 ^ L \<le> unat cap \<and> huf_fits (take n W) L \<and>
       huf_table (take n W) L cells' \<and> length cells' = length cells \<and> drop (2 ^ L) cells' = drop (2 ^ L) cells)"
proof (cases "n = 0 \<or> 256 < n \<or> L = 0 \<or> 12 < L")
  case True
  then show ?thesis by (auto simp: zstd_huf_build_dtable_def huf_consts wp_Some)
next
  case False
  let ?ws = "take n W"
  have g: "\<not> (n = 0 \<or> kZstdHufMaxSymbolValue + 1 < n \<or> L = 0 \<or> kZstdHufMaxTableLog < L)" using False by (simp add: huf_consts)
  have n: "n \<noteq> 0" "n \<le> 256" "L \<noteq> 0" "L \<le> 12" "length ?ws = n" using False W by auto
  have sz: "unat (push_bit L 1 :: u32) = 2 ^ L" using n by (intro unat_push_1) simp
  have small: "cap < push_bit L 1 \<longleftrightarrow> unat cap < 2 ^ L" by (simp only: w2n sz)
  show ?thesis
  proof (cases "unat cap < 2 ^ L")
    case True
    then show ?thesis unfolding zstd_huf_build_dtable_def if_not_P[OF g] Let_def small using n by (simp add: wp_Some)
  next
    case ncap: False
    have rc: "wp (huf_rank_counts W L [0..<n] (replicate 13 0) 0) (\<lambda>res. case res of
       Inl (st, _) \<Rightarrow> st = CUDEC_ERR_CORRUPT_INPUT \<and> (\<exists>k<n. L < unat (W ! k))
     | Inr (rc', t) \<Rightarrow> unat t = huf_sum ?ws \<and> (\<forall>k<n. unat (W ! k) \<le> L) \<and> length rc' = 13 \<and>
         (\<forall>k<13. unat (rc' ! k) = rank_symbols ?ws k))"
      using n W by (intro rank_counts_contract) (auto simp: rank_symbols_def)
    have k13: "kZstdHufMaxTableLog + 1 = 13" by (simp add: huf_consts)
    show ?thesis unfolding zstd_huf_build_dtable_def if_not_P[OF g] Let_def small if_not_P[OF ncap] k13
    proof (rule wp_bindI[OF rc], goal_cases)
      case (1 x)
      show ?case
      proof (cases x)
        case (Inl e)
        then obtain k where k: "k < n" "L < unat (W ! k)" using 1 by (cases e) auto
        then have "W ! k \<in> set ?ws" using W by (auto simp: in_set_conv_nth)
        then have "\<not> huf_fits ?ws L" using k leD unfolding huf_fits_def by blast
        then show ?thesis using 1 Inl n ncap by (cases e) (simp add: wp_Some)
      next
        case (Inr y)
        obtain rc t where y: "y = (rc, t)" by (cases y)
        have q: "unat t = huf_sum ?ws" "\<forall>k<n. unat (W ! k) \<le> L" "length rc = 13" "\<forall>k<13. unat (rc ! k) = rank_symbols ?ws k"
          using 1 Inr y by simp_all
        have le: "\<forall>w\<in>set ?ws. unat w \<le> L" using q(2) by (auto simp: in_set_conv_nth)
        have clean: "t \<noteq> push_bit L 1 \<longleftrightarrow> huf_sum ?ws \<noteq> 2 ^ L" by (simp only: word_unat_eq_iff sz q(1))
        show ?thesis
        proof (cases "huf_sum ?ws = 2 ^ L")
          case False
          then show ?thesis unfolding Inr y sum.case prod.case clean using n ncap by (simp add: wp_Some huf_fits_def)
        next
          case True
          then have c: "\<not> huf_sum ?ws \<noteq> 2 ^ L" by simp
          have two: "(2::nat) ^ L \<le> 4096" using power_increasing[OF n(4), of "2::nat"] by simp
          have tot: "rank_first ?ws (Suc L) = 2 ^ L" using rank_first_total[of ?ws "Suc L"] le True by (simp add: less_Suc_eq_le)
          obtain rs where rs: "huf_rank_starts rc [1..<L + 1] (stale[0 := 0]) 0 = Some rs" "length rs = 13"
             "\<forall>j\<le>L. 0 < j \<longrightarrow> unat (rs ! j) = rank_first ?ws j"
            using rank_starts_contract[of 1 L rc ?ws "stale[0 := 0]" 0] n q(3,4) st two tot by auto
          obtain cells' where c': "huf_place W L [0..<n] rs cells = Some cells'" "length cells' = length cells"
             "\<And>p. cells' ! p = cells ! p \<or> (\<exists>t. t < n \<and> p \<in> huf_block ?ws t)"
             "\<And>t p. t < n \<Longrightarrow> p \<in> huf_block ?ws t \<Longrightarrow> cells' ! p = huf_cell_of ?ws L t"
            using huf_place_contract[of 0 ?ws W L cells rs] n W le True ncap cap rs by auto
          have out: "drop (2 ^ L) cells' = drop (2 ^ L) cells"
          proof (rule nth_equalityI)
            show "length (drop (2 ^ L) cells') = length (drop (2 ^ L) cells)" using c'(2) by simp
            show "drop (2 ^ L) cells' ! i = drop (2 ^ L) cells ! i" if "i < length (drop (2 ^ L) cells')" for i
              using c'(3)[of "2 ^ L + i"] block_inside[of _ ?ws L] le n(5) True that c'(2) by (fastforce simp: huf_block_def)
          qed
          have put0: "put stale 0 0 = Some (stale[0 := 0])" using st by simp
          show ?thesis unfolding Inr y sum.case prod.case clean if_not_P[OF c] put0 bind.bind_lunit rs(1) c'(1)
            using n ncap le True c'(2,4) out by (simp add: wp_Some huf_fits_def huf_table_def)
        qed
      qed
    qed
  qed
qed

text \<open>The code of a symbol: the leading bits its cells share.\<close>

definition huf_code :: "u8 list \<Rightarrow> nat \<Rightarrow> nat" where
  "huf_code ws t = huf_first ws t div leaf (ws ! t)"

lemma blocks_cover:
  assumes "huf_fits ws L" "i < 2 ^ L"
  shows "\<exists>t<length ws. i \<in> huf_block ws t"
proof -
  have "card (\<Union>t\<in>{..<length ws}. huf_block ws t) = (\<Sum>t<length ws. card (huf_block ws t))"
    using blocks_disjoint by (intro card_UN_disjoint) (auto simp: huf_block_def)
  also have "\<dots> = huf_sum ws" by (simp add: huf_block_def huf_sum_def sum_list_sum_nth lessThan_atLeast0)
  also have "\<dots> = card {..<(2::nat) ^ L}" using assms(1) by (simp add: huf_fits_def)
  finally have "(\<Union>t\<in>{..<length ws}. huf_block ws t) = {..<2 ^ L}"
    using block_inside[of _ ws L] assms(1) by (intro card_subset_eq) (auto simp: huf_block_def huf_fits_def intro: less_le_trans)
  then show ?thesis using assms(2) by auto
qed

lemma leaf_dvd_first:
  assumes "huf_fits ws L" "t < length ws" "ws ! t \<noteq> 0"
  shows "leaf (ws ! t) dvd huf_first ws t"
proof -
  define k where "k = unat (ws ! t)"
  have k: "0 < k" "k \<le> L" using assms by (auto simp: k_def unat_gt_0 huf_fits_def)
  let ?d = "(2::nat) ^ (k - 1)"
  have l: "leaf (ws ! t) = ?d" using assms(3) by (simp add: leaf_def k_def)
  have div: "?d dvd rank_cells xs j" if "k \<le> j" for xs j
    using that k by (induction xs) (auto simp: rank_cells_def leaf_def intro!: le_imp_power_dvd dvd_add)
  have tot: "rank_first ws (Suc L) = 2 ^ L" using rank_first_total[of ws "Suc L"] assms(1) by (simp add: huf_fits_def less_Suc_eq_le)
  have "rank_first ws (Suc L) = rank_first ws k + (\<Sum>j\<in>{k..<Suc L}. rank_cells ws j)"
    using sum.atLeastLessThan_concat[of 0 k "Suc L" "rank_cells ws"] k by (simp add: rank_first_def lessThan_atLeast0)
  moreover have "?d dvd (\<Sum>j\<in>{k..<Suc L}. rank_cells ws j)" using div by (intro dvd_sum) simp
  moreover have "?d dvd 2 ^ L" using k by (intro le_imp_power_dvd) simp
  ultimately have "?d dvd rank_first ws k" using tot by (metis dvd_add_left_iff)
  then show ?thesis unfolding l huf_first_def k_def[symmetric] using div[of k "take t ws"] by (intro dvd_add) auto
qed

lemma in_block_code:
  assumes "huf_fits ws L" "t < length ws" "ws ! t \<noteq> 0"
  shows "i \<in> huf_block ws t \<longleftrightarrow> i div leaf (ws ! t) = huf_code ws t"
proof -
  obtain c where c: "huf_first ws t = leaf (ws ! t) * c" using leaf_dvd_first[OF assms] by (auto elim: dvdE)
  have p: "0 < leaf (ws ! t)" by (rule leaf_pos[OF assms(3)])
  have "huf_code ws t = c" using p by (simp add: huf_code_def c)
  moreover have "i div leaf (ws ! t) = c \<longleftrightarrow> leaf (ws ! t) * c \<le> i \<and> i < leaf (ws ! t) * c + leaf (ws ! t)"
    using p by (metis div_nat_eqI dividend_less_times_div mult.commute mult_Suc_right times_div_less_eq_dividend add.commute)
  ultimately show ?thesis by (simp add: huf_block_def c)
qed

lemma table_decodes:
  assumes "huf_fits ws L" "huf_table ws L cells" "length ws \<le> 256" "L \<le> 12" "i < 2 ^ L" "t < length ws" "ws ! t \<noteq> 0"
  shows "hc_symbol (cells ! i) = of_nat t \<longleftrightarrow> i div 2 ^ (unat (ws ! t) - 1) = huf_code ws t"
    "hc_symbol (cells ! i) = of_nat t \<Longrightarrow> unat (hc_nb_bits (cells ! i)) = L + 1 - unat (ws ! t)"
proof -
  obtain u where u: "u < length ws" "i \<in> huf_block ws u" using blocks_cover[OF assms(1,5)] by blast
  have cell: "cells ! i = huf_cell_of ws L u" using assms(2) u by (simp add: huf_table_def)
  have "hc_symbol (cells ! i) = of_nat t \<longleftrightarrow> u = t"
    using assms(3,6) u(1) by (auto simp: cell huf_cell_of_def word_unat_eq_iff unat_of_nat_less)
  moreover have "u = t \<longleftrightarrow> i \<in> huf_block ws t" using u blocks_disjoint[OF u(1) assms(6)] by auto
  ultimately have eq: "hc_symbol (cells ! i) = of_nat t \<longleftrightarrow> u = t" "u = t \<longleftrightarrow> i div leaf (ws ! t) = huf_code ws t"
    using in_block_code[OF assms(1,6,7)] by simp_all
  then show "hc_symbol (cells ! i) = of_nat t \<longleftrightarrow> i div 2 ^ (unat (ws ! t) - 1) = huf_code ws t"
    using assms(7) by (simp add: leaf_def)
  show "unat (hc_nb_bits (cells ! i)) = L + 1 - unat (ws ! t)" if "hc_symbol (cells ! i) = of_nat t"
    using that eq(1) assms(4) by (simp add: cell huf_cell_of_def unat_of_nat_less)
qed

lemma table_covers:
  assumes "huf_fits ws L" "huf_table ws L cells" "i < 2 ^ L"
  shows "\<exists>t<length ws. ws ! t \<noteq> 0 \<and> hc_symbol (cells ! i) = of_nat t"
proof -
  obtain t where t: "t < length ws" "i \<in> huf_block ws t" using blocks_cover[OF assms(1,3)] by blast
  then have "ws ! t \<noteq> 0" by (auto simp: huf_block_def leaf_def)
  moreover have "cells ! i = huf_cell_of ws L t" using assms(2) t by (simp add: huf_table_def)
  ultimately show ?thesis using t(1) by (auto simp: huf_cell_of_def)
qed

end
