(* ===== verification/Zstd_Literals.thy ===== *)
theory Zstd_Literals
  imports Zstd_Huf_Table Zstd_Frame
begin

text \<open>
  The literals section of a block, \<open>src/zstd_literals.h\<close>: the section header, the Huffman streams, and
  the four block types. The table is the caller's and outlives the section; the scratch and the
  array of first cells are not initialised, and are arguments. A pointer into the section is an
  offset into its list, and so is the place in the destination.
\<close>

definition kZstdLiteralsTypeRaw :: nat where "kZstdLiteralsTypeRaw = 0"
definition kZstdLiteralsTypeRle :: nat where "kZstdLiteralsTypeRle = 1"
definition kZstdLiteralsTypeCompressed :: nat where "kZstdLiteralsTypeCompressed = 2"
definition kZstdLiteralsTypeTreeless :: nat where "kZstdLiteralsTypeTreeless = 3"
definition kZstdLiteralsMaxTableLog :: nat where "kZstdLiteralsMaxTableLog = 11"
definition kZstdLiteralsStreamCount :: nat where "kZstdLiteralsStreamCount = 4"
definition kZstdLiteralsJumpTableBytes :: u64 where "kZstdLiteralsJumpTableBytes = 6"
definition kZstdLiteralsMinFourStreamPayload :: u64 where
  "kZstdLiteralsMinFourStreamPayload = kZstdLiteralsJumpTableBytes + of_nat kZstdLiteralsStreamCount"
definition kZstdLiteralsMinFourStreamRegenerated :: u64 where "kZstdLiteralsMinFourStreamRegenerated = 6"

lemmas lit_consts = kZstdLiteralsTypeRaw_def kZstdLiteralsTypeRle_def kZstdLiteralsTypeCompressed_def kZstdLiteralsTypeTreeless_def
  kZstdLiteralsMaxTableLog_def kZstdLiteralsStreamCount_def kZstdLiteralsJumpTableBytes_def kZstdLiteralsMinFourStreamPayload_def
  kZstdLiteralsMinFourStreamRegenerated_def

definition zstd_literals_block_maximum :: "u64 \<Rightarrow> u64" where
  "zstd_literals_block_maximum window_size = (if window_size < kZstdBlockSizeCeiling then window_size else kZstdBlockSizeCeiling)"

datatype zstd_literals_reject =
    kZstdLiteralsRejectNone
  | kZstdLiteralsRejectBadRequest
  | kZstdLiteralsRejectHeaderTruncated
  | kZstdLiteralsRejectRegeneratedTooLarge
  | kZstdLiteralsRejectRegeneratedPastCapacity
  | kZstdLiteralsRejectContentTruncated
  | kZstdLiteralsRejectPayloadTruncated
  | kZstdLiteralsRejectNoPreviousTable
  | kZstdLiteralsRejectTreeDescription
  | kZstdLiteralsRejectStreamsAbsent
  | kZstdLiteralsRejectFourStreamPayloadTooShort
  | kZstdLiteralsRejectFourStreamTooFewLiterals
  | kZstdLiteralsRejectJumpTableOverruns
  | kZstdLiteralsRejectStreamTruncated
  | kZstdLiteralsRejectStreamNotConsumed

type_synonym lit_error = "cudec_status \<times> zstd_literals_reject"

record zstd_literals_header =
  lh_regenerated_size :: u64
  lh_compressed_size :: u64
  lh_header_size :: nat
  lh_block_type :: nat
  lh_size_format :: nat
  lh_stream_count :: nat

record zstd_literals_table =
  lt_cells :: "zstd_huf_cell list"
  lt_capacity :: u32
  lt_table_log :: nat
  lt_present :: bool

record zstd_literals_scratch =
  ls_weights_scratch :: zstd_huf_scratch
  ls_weights :: "u8 list"

definition zstd_parse_literals_header :: "u8 list \<Rightarrow> u64 \<Rightarrow> (lit_error + zstd_literals_header) option" where
  "zstd_parse_literals_header s n =
     (if n = 0 then Some (Inl (CUDEC_ERR_CORRUPT_INPUT, kZstdLiteralsRejectHeaderTruncated))
      else do {
        b \<leftarrow> at s 0;
        let block_type = unat (b AND 0x03);
        let size_format = unat (drop_bit 2 b AND 0x03);
        if block_type = kZstdLiteralsTypeRaw \<or> block_type = kZstdLiteralsTypeRle
        then do {
          let header_size = (if size_format = 1 then 2 else if size_format = 3 then 3 else 1);
          let size_bits_shift = (if size_format = 1 \<or> size_format = 3 then 4 else 3);
          if n < of_nat header_size then Some (Inl (CUDEC_ERR_CORRUPT_INPUT, kZstdLiteralsRejectHeaderTruncated))
          else do {
            v \<leftarrow> zstd_read_le s 0 header_size;
            Some (Inr \<lparr>lh_regenerated_size = drop_bit size_bits_shift v, lh_compressed_size = 0, lh_header_size = header_size,
              lh_block_type = block_type, lh_size_format = size_format, lh_stream_count = 0\<rparr>)
          }
        }
        else do {
          let header_size = (if size_format = 2 then 4 else if size_format = 3 then 5 else 3);
          let field_bits = (if size_format = 2 then 14 else if size_format = 3 then 18 else 10);
          if n < of_nat header_size then Some (Inl (CUDEC_ERR_CORRUPT_INPUT, kZstdLiteralsRejectHeaderTruncated))
          else do {
            raw \<leftarrow> zstd_read_le s 0 header_size;
            let field_mask = push_bit field_bits 1 - 1;
            Some (Inr \<lparr>lh_regenerated_size = drop_bit 4 raw AND field_mask, lh_compressed_size = drop_bit (4 + field_bits) raw AND field_mask,
              lh_header_size = header_size, lh_block_type = block_type, lh_size_format = size_format,
              lh_stream_count = (if size_format = 0 then 1 else kZstdLiteralsStreamCount)\<rparr>)
          }
        }
      })"

section \<open>A stream\<close>

fun lit_peek_loop :: "zstd_bit_reader \<Rightarrow> u64 \<Rightarrow> nat list \<Rightarrow> u32 \<Rightarrow> u32 option" where
  "lit_peek_loop r remaining [] accumulated = Some accumulated"
| "lit_peek_loop r remaining (i # is) accumulated = do {
     b \<leftarrow> (if of_nat i < remaining then zstd_bit_at r (bits_read r + of_nat i) else Some 0);
     lit_peek_loop r remaining is (push_bit 1 accumulated OR ucast b)
   }"

definition zstd_literals_peek_bits :: "zstd_bit_reader \<Rightarrow> nat \<Rightarrow> u32 option" where
  "zstd_literals_peek_bits r count = lit_peek_loop r (zstd_bits_remaining r) [0..<count] 0"

fun lit_symbols :: "zstd_literals_table \<Rightarrow> nat list \<Rightarrow> nat \<Rightarrow> zstd_bit_reader \<Rightarrow> u8 list \<Rightarrow>
    ((lit_error + zstd_bit_reader) \<times> u8 list) option" where
  "lit_symbols table [] out r dst = Some (Inr r, dst)"
| "lit_symbols table (i # is) out r dst = do {
     index \<leftarrow> zstd_literals_peek_bits r (lt_table_log table);
     cell \<leftarrow> at (lt_cells table) (unat index);
     (st, _, r) \<leftarrow> zstd_read_bits (ucast (hc_nb_bits cell)) r;
     if st \<noteq> CUDEC_OK then Some (Inl (CUDEC_ERR_CORRUPT_INPUT, kZstdLiteralsRejectStreamTruncated), dst)
     else do {
       dst \<leftarrow> put dst (out + i) (hc_symbol cell);
       lit_symbols table is out r dst
     }
   }"

definition zstd_literals_decode_stream :: "u8 list \<Rightarrow> nat \<Rightarrow> u64 \<Rightarrow> zstd_literals_table \<Rightarrow> u8 list \<Rightarrow> nat \<Rightarrow> u64 \<Rightarrow>
    ((lit_error + unit) \<times> u8 list) option" where
  "zstd_literals_decode_stream s p n table dst out count = do {
     (st, r) \<leftarrow> zstd_bit_start (zstd_bit_reader_init (drop p s) n);
     if st \<noteq> CUDEC_OK then Some (Inl (CUDEC_ERR_CORRUPT_INPUT, kZstdLiteralsRejectStreamTruncated), dst)
     else do {
       (res, dst) \<leftarrow> lit_symbols table [0..<unat count] out r dst;
       case res of
         Inl e \<Rightarrow> Some (Inl e, dst)
       | Inr r \<Rightarrow>
           if \<not> zstd_at_end r then Some (Inl (CUDEC_ERR_CORRUPT_INPUT, kZstdLiteralsRejectStreamNotConsumed), dst)
           else Some (Inr (), dst)
     }
   }"

section \<open>The section\<close>

fun lit_raw :: "u8 list \<Rightarrow> nat \<Rightarrow> nat list \<Rightarrow> u8 list \<Rightarrow> u8 list option" where
  "lit_raw s p [] dst = Some dst"
| "lit_raw s p (i # is) dst = do { b \<leftarrow> at s (p + i); dst \<leftarrow> put dst i b; lit_raw s p is dst }"

fun lit_rle :: "u8 \<Rightarrow> nat list \<Rightarrow> u8 list \<Rightarrow> u8 list option" where
  "lit_rle symbol [] dst = Some dst"
| "lit_rle symbol (i # is) dst = do { dst \<leftarrow> put dst i symbol; lit_rle symbol is dst }"

text \<open>The four streams one after the other: each with its compressed and its regenerated size.\<close>

fun lit_streams :: "u8 list \<Rightarrow> zstd_literals_table \<Rightarrow> (u64 \<times> u64) list \<Rightarrow> nat \<Rightarrow> nat \<Rightarrow> u8 list \<Rightarrow>
    ((lit_error + unit) \<times> u8 list) option" where
  "lit_streams s table [] stream out dst = Some (Inr (), dst)"
| "lit_streams s table ((compressed, regenerated) # ss) stream out dst = do {
     (res, dst) \<leftarrow> zstd_literals_decode_stream s stream compressed table dst out regenerated;
     case res of
       Inl e \<Rightarrow> Some (Inl e, dst)
     | Inr _ \<Rightarrow> lit_streams s table ss (stream + unat compressed) (out + unat regenerated) dst
   }"

definition lit_four :: "u8 list \<Rightarrow> nat \<Rightarrow> u64 \<Rightarrow> u64 \<Rightarrow> zstd_literals_table \<Rightarrow> u8 list \<Rightarrow>
    ((lit_error + unit) \<times> u8 list) option" where
  "lit_four s payload payload_size regenerated_size table dst =
     (if payload_size < kZstdLiteralsMinFourStreamPayload
      then Some (Inl (CUDEC_ERR_CORRUPT_INPUT, kZstdLiteralsRejectFourStreamPayloadTooShort), dst)
      else if regenerated_size < kZstdLiteralsMinFourStreamRegenerated
      then Some (Inl (CUDEC_ERR_CORRUPT_INPUT, kZstdLiteralsRejectFourStreamTooFewLiterals), dst)
      else do {
        c0 \<leftarrow> zstd_read_le s payload 2;
        c1 \<leftarrow> zstd_read_le s (payload + 2) 2;
        c2 \<leftarrow> zstd_read_le s (payload + 4) 2;
        let declared_total = c0 + c1 + c2;
        let stream_bytes = payload_size - kZstdLiteralsJumpTableBytes;
        if declared_total \<ge> stream_bytes
        then Some (Inl (CUDEC_ERR_CORRUPT_INPUT, kZstdLiteralsRejectJumpTableOverruns), dst)
        else do {
          let c3 = stream_bytes - declared_total;
          let segment = (regenerated_size + 3) div 4;
          let rest = regenerated_size - 3 * segment;
          lit_streams s table [(c0, segment), (c1, segment), (c2, segment), (c3, rest)]
            (payload + unat kZstdLiteralsJumpTableBytes) 0 dst
        }
      })"

text \<open>The table the streams decode through: the section's own, or the one left behind.\<close>

definition lit_table :: "u8 list \<Rightarrow> zstd_literals_header \<Rightarrow> zstd_literals_table \<Rightarrow> zstd_literals_scratch \<Rightarrow> u32 list \<Rightarrow>
    ((lit_error + u64) \<times> zstd_literals_table) option" where
  "lit_table s h table scr stale =
     (if lh_block_type h = kZstdLiteralsTypeCompressed then do {
        described \<leftarrow> zstd_huf_read_weights (drop (lh_header_size h) s) (lh_compressed_size h) (kZstdHufMaxSymbolValue + 1)
            kZstdLiteralsMaxTableLog (ls_weights_scratch scr) (ls_weights scr);
        case described of
          Inl (st, _) \<Rightarrow> Some (Inl (st, kZstdLiteralsRejectTreeDescription), table)
        | Inr t \<Rightarrow> do {
            built \<leftarrow> zstd_huf_build_dtable (ht_weights t) (ht_count t) (ht_table_log t) (lt_cells table) (lt_capacity table) stale;
            case built of
              Inl (st, _) \<Rightarrow> Some (Inl (st, kZstdLiteralsRejectTreeDescription), table)
            | Inr cells \<Rightarrow> Some (Inr (ht_consumed t), table\<lparr>lt_cells := cells, lt_table_log := ht_table_log t, lt_present := True\<rparr>)
          }
      }
      else if \<not> lt_present table then Some (Inl (CUDEC_ERR_CORRUPT_INPUT, kZstdLiteralsRejectNoPreviousTable), table)
      else Some (Inr 0, table))"

definition lit_compressed :: "u8 list \<Rightarrow> zstd_literals_header \<Rightarrow> zstd_literals_table \<Rightarrow> zstd_literals_scratch \<Rightarrow> u32 list \<Rightarrow> u8 list \<Rightarrow>
    ((lit_error + unit) \<times> zstd_literals_table \<times> u8 list) option" where
  "lit_compressed s h table scr stale dst = do {
     (res, table) \<leftarrow> lit_table s h table scr stale;
     case res of
       Inl e \<Rightarrow> Some (Inl e, table, dst)
     | Inr description_size \<Rightarrow> do {
         let payload = lh_header_size h + unat description_size;
         let payload_size = lh_compressed_size h - description_size;
         if lt_table_log table = 0 \<or> lt_table_log table > kZstdLiteralsMaxTableLog
         then Some (Inl (CUDEC_ERR_INVALID_ARGUMENT, kZstdLiteralsRejectBadRequest), table, dst)
         else if payload_size = 0 then Some (Inl (CUDEC_ERR_CORRUPT_INPUT, kZstdLiteralsRejectStreamsAbsent), table, dst)
         else do {
           (res, dst) \<leftarrow> (if lh_stream_count h = 1
             then zstd_literals_decode_stream s payload payload_size table dst 0 (lh_regenerated_size h)
             else lit_four s payload payload_size (lh_regenerated_size h) table dst);
           Some (res, table, dst)
         }
       }
   }"

text \<open>The results of a section: the bytes produced and the bytes of the block consumed.\<close>

definition zstd_decode_literals :: "u8 list \<Rightarrow> u64 \<Rightarrow> u64 \<Rightarrow> zstd_literals_table \<Rightarrow> zstd_literals_scratch \<Rightarrow> u32 list \<Rightarrow> u8 list \<Rightarrow> u64 \<Rightarrow>
    ((lit_error + u64 \<times> u64) \<times> zstd_literals_table \<times> u8 list) option" where
  "zstd_decode_literals s n window_size table scr stale dst capacity =
     (if lt_capacity table < push_bit kZstdLiteralsMaxTableLog 1
      then Some (Inl (CUDEC_ERR_INVALID_ARGUMENT, kZstdLiteralsRejectBadRequest), table, dst)
      else do {
        parsed \<leftarrow> zstd_parse_literals_header s n;
        case parsed of
          Inl e \<Rightarrow> Some (Inl e, table, dst)
        | Inr h \<Rightarrow>
            let regenerated = lh_regenerated_size h; hs = lh_header_size h; after_header = n - of_nat hs in
            if regenerated > zstd_literals_block_maximum window_size
            then Some (Inl (CUDEC_ERR_CORRUPT_INPUT, kZstdLiteralsRejectRegeneratedTooLarge), table, dst)
            else if regenerated > capacity
            then Some (Inl (CUDEC_ERR_OUTPUT_TOO_SMALL, kZstdLiteralsRejectRegeneratedPastCapacity), table, dst)
            else if lh_block_type h = kZstdLiteralsTypeRaw then
              (if regenerated > after_header
               then Some (Inl (CUDEC_ERR_CORRUPT_INPUT, kZstdLiteralsRejectContentTruncated), table, dst)
               else do {
                 dst \<leftarrow> lit_raw s hs [0..<unat regenerated] dst;
                 Some (Inr (regenerated, of_nat hs + regenerated), table, dst)
               })
            else if lh_block_type h = kZstdLiteralsTypeRle then
              (if after_header < 1
               then Some (Inl (CUDEC_ERR_CORRUPT_INPUT, kZstdLiteralsRejectContentTruncated), table, dst)
               else do {
                 symbol \<leftarrow> at s hs;
                 dst \<leftarrow> lit_rle symbol [0..<unat regenerated] dst;
                 Some (Inr (regenerated, of_nat hs + 1), table, dst)
               })
            else if lh_compressed_size h > after_header
            then Some (Inl (CUDEC_ERR_CORRUPT_INPUT, kZstdLiteralsRejectPayloadTruncated), table, dst)
            else do {
              (res, table, dst) \<leftarrow> lit_compressed s h table scr stale dst;
              case res of
                Inl e \<Rightarrow> Some (Inl e, table, dst)
              | Inr _ \<Rightarrow> Some (Inr (regenerated, of_nat hs + lh_compressed_size h), table, dst)
            }
      })"

section \<open>The header is parsed exactly\<close>

definition lit_type :: "u8 list \<Rightarrow> nat" where
  "lit_type s = unat (s ! 0) mod 4"

definition lit_format :: "u8 list \<Rightarrow> nat" where
  "lit_format s = unat (s ! 0) div 4 mod 4"

definition lit_header_bytes :: "u8 list \<Rightarrow> nat" where
  "lit_header_bytes s = (if lit_type s < 2 then (if lit_format s = 1 then 2 else if lit_format s = 3 then 3 else 1)
     else if lit_format s = 2 then 4 else if lit_format s = 3 then 5 else 3)"

definition lit_field_bits :: "u8 list \<Rightarrow> nat" where
  "lit_field_bits s = (if lit_format s = 2 then 14 else if lit_format s = 3 then 18 else 10)"

definition lit_regenerated :: "u8 list \<Rightarrow> nat" where
  "lit_regenerated s = (let v = le_nat (take (lit_header_bytes s) s) in
     if lit_type s < 2 then v div 2 ^ (if odd (lit_format s) then 4 else 3) else v div 2 ^ 4 mod 2 ^ lit_field_bits s)"

definition lit_payload :: "u8 list \<Rightarrow> nat" where
  "lit_payload s = (if lit_type s < 2 then 0 else le_nat (take (lit_header_bytes s) s) div 2 ^ (4 + lit_field_bits s) mod 2 ^ lit_field_bits s)"

definition lit_fields :: "u8 list \<Rightarrow> zstd_literals_header \<Rightarrow> bool" where
  "lit_fields s h \<longleftrightarrow> unat (lh_regenerated_size h) = lit_regenerated s \<and> unat (lh_compressed_size h) = lit_payload s \<and>
     lh_header_size h = lit_header_bytes s \<and> lh_block_type h = lit_type s \<and>
     lh_stream_count h = (if lit_type s < 2 then 0 else if lit_format s = 0 then 1 else 4)"

lemma lit_header_small: "lit_header_bytes s \<le> 5" "lit_field_bits s \<le> 18" "0 < lit_header_bytes s"
  by (simp_all add: lit_header_bytes_def lit_field_bits_def)

lemma lit_sizes_small: "lit_regenerated s < 1048576" "lit_payload s < 262144"
proof -
  have b: "(2::nat) ^ lit_field_bits s \<le> 2 ^ 18" using lit_header_small(2)[of s] by (intro power_increasing) auto
  have "le_nat (take (lit_header_bytes s) s) < 256 ^ length (take (lit_header_bytes s) s)" by (rule le_nat_less)
  moreover have "lit_type s < 2 \<Longrightarrow> length (take (lit_header_bytes s) s) \<le> 3"
    by (auto simp: lit_header_bytes_def)
  then have "lit_type s < 2 \<Longrightarrow> (256::nat) ^ length (take (lit_header_bytes s) s) \<le> 256 ^ 3" by (intro power_increasing) auto
  ultimately have "le_nat (take (lit_header_bytes s) s) < 256 ^ 3" if "lit_type s < 2" using that by (meson less_le_trans)
  then have "le_nat (take (lit_header_bytes s) s) div 16 < 1048576" if "lit_type s < 2" using that by simp
  moreover have "le_nat (take (lit_header_bytes s) s) div 8 < 1048576" if "lit_type s < 2" "even (lit_format s)"
  proof -
    have "length (take (lit_header_bytes s) s) \<le> 1" using that by (auto simp: lit_header_bytes_def)
    then have "(256::nat) ^ length (take (lit_header_bytes s) s) \<le> 256 ^ 1" by (intro power_increasing) auto
    then show ?thesis using \<open>le_nat (take (lit_header_bytes s) s) < 256 ^ length (take (lit_header_bytes s) s)\<close> by simp
  qed
  moreover have small: "x mod 2 ^ lit_field_bits s < 262144" for x :: nat
    using less_le_trans[OF mod_less_divisor[of "2 ^ lit_field_bits s" x] b] by simp
  moreover have "x mod 2 ^ lit_field_bits s < 1048576" for x :: nat
    by (rule less_trans[OF small]) simp
  ultimately show "lit_regenerated s < 1048576" "lit_payload s < 262144"
    by (auto simp: lit_regenerated_def lit_payload_def Let_def)
qed

lemma and_push_minus:
  assumes "k < 64"
  shows "unat (x AND (push_bit k 1 - 1) :: u64) = unat x mod 2 ^ k"
proof -
  have "push_bit k 1 - 1 = (mask k :: u64)" by (simp add: mask_eq_exp_minus_1 push_bit_of_1)
  then show ?thesis by (simp only: unat_and_mask)
qed

lemma literals_header_contract:
  assumes n: "unat n \<le> length s"
  shows "wp (zstd_parse_literals_header s n) (\<lambda>res. case res of
     Inl (st, _) \<Rightarrow> st = CUDEC_ERR_CORRUPT_INPUT \<and> \<not> (n \<noteq> 0 \<and> lit_header_bytes s \<le> unat n)
   | Inr h \<Rightarrow> n \<noteq> 0 \<and> lit_header_bytes s \<le> unat n \<and> lit_fields s h)"
proof (cases "n = 0")
  case True
  then show ?thesis by (simp add: zstd_parse_literals_header_def wp_Some)
next
  case False
  then have n0: "0 < unat n" by (simp add: unat_gt_0)
  have a0: "at s 0 = Some (s ! 0)" using n n0 by (intro at_Some) linarith
  have ty: "unat (s ! 0 AND 0x03) = lit_type s" using unat_and_mask[of "s ! 0" 2] by (simp add: lit_type_def mask_eq_exp_minus_1)
  have fm: "unat (drop_bit 2 (s ! 0) AND 0x03) = lit_format s"
    using unat_and_mask[of "drop_bit 2 (s ! 0)" 2] by (simp add: lit_format_def mask_eq_exp_minus_1 unat_drop_bit)
  have f4: "lit_format s < 4" "lit_type s < 4" by (simp_all add: lit_format_def lit_type_def)
  define hb where "hb = lit_header_bytes s"
  define fb where "fb = lit_field_bits s"
  have hb: "hb \<le> 5" "0 < hb" and fb: "fb \<le> 18" using lit_header_small by (simp_all add: hb_def fb_def)
  have uh: "unat (of_nat hb :: u64) = hb" using hb by (intro unat_of_nat_less) simp
  have short: "n < of_nat hb \<longleftrightarrow> unat n < hb" by (simp only: w2n uh)
  have raw: "lit_type s = kZstdLiteralsTypeRaw \<or> lit_type s = kZstdLiteralsTypeRle \<longleftrightarrow> lit_type s < 2" by (auto simp: lit_consts)
  have hb1: "(if lit_format s = 1 then 2 else if lit_format s = 3 then 3 else 1) = hb" if "lit_type s < 2"
    using that by (simp add: hb_def lit_header_bytes_def)
  have hb2: "(if lit_format s = 2 then 4 else if lit_format s = 3 then 5 else 3) = hb" if "\<not> lit_type s < 2"
    using that by (simp add: hb_def lit_header_bytes_def)
  have sh: "lit_format s = 1 \<or> lit_format s = 3 \<longleftrightarrow> odd (lit_format s)"
  proof -
    have "lit_format s \<in> {0, 1, 2, 3}" using f4 by auto
    then show ?thesis by auto
  qed
  have fb': "(if lit_format s = 2 then 14 else if lit_format s = 3 then 18 else 10) = fb" by (simp add: fb_def lit_field_bits_def)
  show ?thesis
  proof (cases "unat n < hb")
    case True
    then have no: "\<not> lit_header_bytes s \<le> unat n" by (simp add: hb_def)
    show ?thesis
      unfolding zstd_parse_literals_header_def if_not_P[OF False] a0 bind.bind_lunit Let_def ty fm raw
      by (cases "lit_type s < 2") (simp_all add: hb1 hb2 short True no wp_Some del: One_nat_def)
  next
    case long: False
    then have "hb \<le> length s" using n by simp
    then obtain v where v: "zstd_read_le s 0 hb = Some v" "unat v = le_nat (take hb s)"
      using zstd_read_le_value[of hb 0 s] hb by auto
    have yes: "n \<noteq> 0" "lit_header_bytes s \<le> unat n" using long False by (simp_all add: hb_def)
    show ?thesis
    proof (cases "lit_type s < 2")
      case True
      then show ?thesis
        unfolding zstd_parse_literals_header_def if_not_P[OF False] a0 bind.bind_lunit Let_def ty fm raw if_P[OF True] hb1[OF True] short
          if_not_P[OF long] v(1) wp_Some sum.case sh
        using yes v(2) True by (simp add: lit_fields_def unat_drop_bit lit_regenerated_def lit_payload_def hb_def Let_def)
    next
      case cmp: False
      have ur: "unat (drop_bit 4 v AND (push_bit fb 1 - 1)) = le_nat (take hb s) div 2 ^ 4 mod 2 ^ fb"
        "unat (drop_bit (4 + fb) v AND (push_bit fb 1 - 1)) = le_nat (take hb s) div 2 ^ (4 + fb) mod 2 ^ fb"
        using fb by (simp_all only: and_push_minus unat_drop_bit v(2))
      show ?thesis
        unfolding zstd_parse_literals_header_def if_not_P[OF False] a0 bind.bind_lunit Let_def ty fm raw if_not_P[OF cmp] hb2[OF cmp] short
          if_not_P[OF long] v(1) wp_Some sum.case fb'
        using yes ur cmp by (simp add: lit_fields_def lit_regenerated_def lit_payload_def hb_def fb_def Let_def lit_consts)
    qed
  qed
qed

section \<open>A stream through the prefix code\<close>

text \<open>
  The format's reading of a stream, from the weights alone: the symbol whose code the bits start
  with, again and again; the stream ends with its last symbol.
\<close>

definition huf_bits :: "u8 list \<Rightarrow> nat \<Rightarrow> nat \<Rightarrow> nat" where
  "huf_bits ws L t = L + 1 - unat (ws ! t)"

definition huf_starts :: "u8 list \<Rightarrow> nat \<Rightarrow> bool list \<Rightarrow> nat \<Rightarrow> bool" where
  "huf_starts ws L bits t \<longleftrightarrow> ws ! t \<noteq> 0 \<and> huf_bits ws L t \<le> length bits \<and> bits_value (take (huf_bits ws L t) bits) = huf_code ws t"

fun huf_symbols :: "u8 list \<Rightarrow> nat \<Rightarrow> nat \<Rightarrow> bool list \<Rightarrow> u8 list option" where
  "huf_symbols ws L 0 bits = (if bits = [] then Some [] else None)"
| "huf_symbols ws L (Suc n) bits = (case find (huf_starts ws L bits) [0..<length ws] of
     None \<Rightarrow> None
   | Some t \<Rightarrow> map_option ((#) (of_nat t)) (huf_symbols ws L n (drop (huf_bits ws L t) bits)))"

definition huf_stream :: "u8 list \<Rightarrow> nat \<Rightarrow> nat \<Rightarrow> u8 list \<Rightarrow> u8 list option" where
  "huf_stream ws L n s = (if s = [] \<or> last s = 0 then None else huf_symbols ws L n (stream_bits s))"

text \<open>The window of a look-up is the bits left, padded with zeros.\<close>

definition padded :: "nat \<Rightarrow> bool list \<Rightarrow> bool list" where
  "padded n bits = take n (bits @ replicate n False)"

lemma padded_simps [simp]: "length (padded n bits) = n" "padded 0 bits = []"
  by (simp_all add: padded_def)

lemma padded_take: "k \<le> n \<Longrightarrow> k \<le> length bits \<Longrightarrow> take k (padded n bits) = take k bits"
  by (simp add: padded_def min_def)

lemma padded_nth: "i < n \<Longrightarrow> padded n bits ! i = (if i < length bits then bits ! i else False)"
  by (auto simp: padded_def nth_append)

lemma peek_loop_value:
  assumes r: "live_reader r" and rem: "unat remaining = length (live_bits r)" and i: "i \<le> n" "n \<le> 31"
    and acc: "unat acc = bits_value (take i (padded n (live_bits r)))"
  shows "\<exists>v. lit_peek_loop r remaining [i..<n] acc = Some v \<and> unat v = bits_value (padded n (live_bits r))"
  using i(1) acc
proof (induction "n - i" arbitrary: i acc)
  case 0
  then show ?case by simp
next
  case (Suc k)
  have ok: "reader_ok r" "started r" using r by (simp_all add: live_reader_def)
  have lt: "i < n" using Suc by simp
  let ?P = "padded n (live_bits r)"
  have ui: "unat (of_nat i :: u64) = i" using lt i(2) by (intro unat_of_nat_less) simp
  have inb: "of_nat i < remaining \<longleftrightarrow> i < length (live_bits r)" by (simp only: w2n ui rem)
  have bit: "(if of_nat i < remaining then zstd_bit_at r (bits_read r + of_nat i) else Some 0) = Some (of_bool (?P ! i))"
  proof (cases "i < length (live_bits r)")
    case True
    then have lt2: "unat (bits_read r) + i < unat (bits_total r)" using live_length[OF ok] by simp
    have "unat (bits_read r + of_nat i) = unat (bits_read r) + i" using ui lt2 unat_less_exp[of "bits_total r"]
      by (subst unat_plus) auto
    then have "zstd_bit_at r (bits_read r + of_nat i) = Some (of_bool (live_bits r ! i))"
      using bit_at_value[OF ok, of "bits_read r + of_nat i"] lt2 True by (simp add: live_bits_def)
    then show ?thesis using True inb lt by (simp add: padded_nth)
  next
    case False
    then show ?thesis using inb lt by (simp add: padded_nth)
  qed
  have "unat acc < 2 ^ 31"
  proof -
    have "unat acc < 2 ^ i" using bits_take_less[of i ?P] lt Suc.prems by simp
    also have "(2::nat) ^ i \<le> 2 ^ 31" using lt i(2) by (intro power_increasing) auto
    finally show ?thesis .
  qed
  then have "unat (ucast (of_bool (?P ! i) :: u8) OR push_bit 1 acc) = of_bool (?P ! i) + unat acc * 2 ^ 1"
    by (subst unat_or_push) auto
  then have ua: "unat (push_bit 1 acc OR ucast (of_bool (?P ! i) :: u8)) = bits_value (take (Suc i) ?P)"
    using Suc.prems lt by (simp add: or.commute take_Suc_conv_app_nth bits_value_append bits_value_def[of "[_]"])
  have "\<exists>v. lit_peek_loop r remaining [Suc i..<n] (push_bit 1 acc OR ucast (of_bool (?P ! i) :: u8)) = Some v \<and> unat v = bits_value ?P"
    using Suc.hyps lt ua by (intro Suc.hyps(1)) auto
  then show ?case unfolding upt_conv_Cons[OF lt] lit_peek_loop.simps bit bind.bind_lunit .
qed

lemma peek_value:
  assumes "live_reader r" "n \<le> 31"
  shows "\<exists>v. zstd_literals_peek_bits r n = Some v \<and> unat v = bits_value (padded n (live_bits r))"
  unfolding zstd_literals_peek_bits_def
  by (rule peek_loop_value[OF assms(1) _ _ assms(2)]) (use assms(1) in \<open>simp_all add: live_reader_def remaining_live bits_value_def\<close>)


text \<open>A table the streams can be decoded through.\<close>

definition lit_tree :: "zstd_literals_table \<Rightarrow> u8 list \<Rightarrow> bool" where
  "lit_tree table ws \<longleftrightarrow> 0 < lt_table_log table \<and> lt_table_log table \<le> 11 \<and> length ws \<le> 256 \<and> 2 ^ lt_table_log table \<le> length (lt_cells table) \<and>
     huf_fits ws (lt_table_log table) \<and> huf_table ws (lt_table_log table) (lt_cells table)"

lemma bits_value_div: "bits_value xs div 2 ^ k = bits_value (take (length xs - k) xs)"
proof (cases "k \<le> length xs")
  case True
  have "bits_value (drop (length xs - k) xs) < 2 ^ k" using bits_value_less[of "drop (length xs - k) xs"] True by simp
  moreover have "bits_value xs = bits_value (take (length xs - k) xs) * 2 ^ k + bits_value (drop (length xs - k) xs)"
    using bits_value_append[of "take (length xs - k) xs" "drop (length xs - k) xs"] True by simp
  ultimately show ?thesis by simp
next
  case False
  then have "bits_value xs < 2 ^ k" by (intro less_le_trans[OF bits_value_less power_increasing]) simp_all
  then show ?thesis using False by (simp add: bits_value_def)
qed

lemma lookup:
  assumes t: "lit_tree table ws" and L: "L = lt_table_log table" and i: "i = bits_value (padded L bits)"
  shows "case find (huf_starts ws L bits) [0..<length ws] of
     None \<Rightarrow> length bits < unat (hc_nb_bits (lt_cells table ! i)) \<and> unat (hc_nb_bits (lt_cells table ! i)) \<le> L
   | Some t \<Rightarrow> hc_symbol (lt_cells table ! i) = of_nat t \<and> unat (hc_nb_bits (lt_cells table ! i)) = huf_bits ws L t \<and>
       huf_bits ws L t \<le> length bits \<and> huf_bits ws L t \<le> L"
proof -
  have i2: "i < 2 ^ L" using bits_value_less[of "padded L bits"] by (simp add: i)
  have L12: "L \<le> 12" using t by (simp add: lit_tree_def L)
  have f: "huf_fits ws L" "huf_table ws L (lt_cells table)" "length ws \<le> 256" using t by (simp_all add: lit_tree_def L)
  note dec = table_decodes[OF f L12 i2]
  have le: "0 < unat (ws ! u)" "unat (ws ! u) \<le> L" if "u < length ws" "ws ! u \<noteq> 0" for u
    using f(1) that by (auto simp: huf_fits_def unat_gt_0)
  have top: "i div 2 ^ (unat (ws ! u) - 1) = bits_value (take (huf_bits ws L u) (padded L bits))" if "u < length ws" "ws ! u \<noteq> 0" for u
    using le[OF that] by (simp add: i bits_value_div huf_bits_def) 
  have hb: "huf_bits ws L u \<le> L" if "u < length ws" "ws ! u \<noteq> 0" for u using le[OF that] by (simp add: huf_bits_def)
  have st: "hc_symbol (lt_cells table ! i) = of_nat u \<longleftrightarrow> bits_value (take (huf_bits ws L u) (padded L bits)) = huf_code ws u"
    if "u < length ws" "ws ! u \<noteq> 0" for u using dec(1)[OF that] top[OF that] by simp
  show ?thesis
  proof (cases "find (huf_starts ws L bits) [0..<length ws]")
    case (Some u)
    then have u: "u < length ws" "huf_starts ws L bits u" by (auto simp: find_Some_iff)
    then have "hc_symbol (lt_cells table ! i) = of_nat u"
      using st[of u] padded_take[of "huf_bits ws L u" L bits] hb[of u] by (simp add: huf_starts_def)
    then show ?thesis using Some u dec(2)[of u] hb[of u] by (simp add: huf_starts_def huf_bits_def)
  next
    case None
    obtain u where u: "u < length ws" "i \<in> huf_block ws u" using blocks_cover[OF f(1) i2] by blast
    have nz: "ws ! u \<noteq> 0" using u(2) by (auto simp: huf_block_def leaf_def)
    have "lt_cells table ! i = huf_cell_of ws L u" using f(2) u by (simp add: huf_table_def)
    then have sy: "hc_symbol (lt_cells table ! i) = of_nat u" by (simp add: huf_cell_of_def)
    have "\<not> huf_starts ws L bits u" using None u(1) by (auto simp: find_None_iff)
    then have "length bits < huf_bits ws L u"
      using st[OF u(1) nz] sy nz padded_take[of "huf_bits ws L u" L bits] hb[OF u(1) nz] unfolding huf_starts_def by (metis not_le)
    then show ?thesis using None dec(2)[OF u(1) nz sy] hb[OF u(1) nz] by (simp add: huf_bits_def)
  qed
qed

lemma lit_symbols_contract:
  assumes t: "lit_tree table ws" and L: "L = lt_table_log table"
    and "live_reader r" "i \<le> n" "out + n \<le> length dst"
  shows "wp (lit_symbols table [i..<n] out r dst) (\<lambda>(res, dst'). length dst' = length dst \<and> take (out + i) dst' = take (out + i) dst \<and>
     drop (out + n) dst' = drop (out + n) dst \<and>
     (case res of
        Inl (st, _) \<Rightarrow> st = CUDEC_ERR_CORRUPT_INPUT \<and> huf_symbols ws L (n - i) (live_bits r) = None
      | Inr r' \<Rightarrow> live_reader r' \<and> huf_symbols ws L (n - i) (live_bits r) =
          (if live_bits r' = [] then Some (take (n - i) (drop (out + i) dst')) else None)))"
  using assms(3-5)
proof (induction "n - i" arbitrary: i r dst)
  case 0
  then show ?case by (simp add: wp_Some)
next
  case (Suc m)
  then have lt: "i < n" and ni: "n - i = Suc (n - Suc i)" by simp_all
  obtain v where v: "zstd_literals_peek_bits r L = Some v" "unat v = bits_value (padded L (live_bits r))"
    using peek_value[OF Suc.prems(1), of L] t by (auto simp: lit_tree_def L)
  define c where "c = lt_cells table ! unat v"
  have "unat v < length (lt_cells table)" using v(2) bits_value_less[of "padded L (live_bits r)"] t by (simp add: lit_tree_def L)
  then have ac: "at (lt_cells table) (unat v) = Some c" by (simp add: c_def)
  note look = lookup[OF t L v(2), folded c_def]
  have L11: "L \<le> 11" using t by (simp add: lit_tree_def L)
  show ?case
  proof (cases "find (huf_starts ws L (live_bits r)) [0..<length ws]")
    case None
    then have c: "length (live_bits r) < unat (hc_nb_bits c)" "unat (hc_nb_bits c) \<le> L" using look by simp_all
    obtain x r' where "zstd_read_bits (ucast (hc_nb_bits c)) r = Some (CUDEC_ERR_CORRUPT_INPUT, x, r')"
      using live_read_short[OF Suc.prems(1), of "ucast (hc_nb_bits c)"] c L11 by auto
    then show ?thesis unfolding upt_conv_Cons[OF lt] lit_symbols.simps L[symmetric] v(1) ac bind.bind_lunit ni
      using None by (simp add: wp_Some)
  next
    case (Some u)
    then have c: "hc_symbol c = of_nat u" "unat (hc_nb_bits c) = huf_bits ws L u" "huf_bits ws L u \<le> length (live_bits r)" "huf_bits ws L u \<le> L"
      using look by simp_all
    obtain x r' where r': "zstd_read_bits (ucast (hc_nb_bits c)) r = Some (CUDEC_OK, x, r')" "live_reader r'"
      "live_bits r' = drop (huf_bits ws L u) (live_bits r)"
      using live_read[OF Suc.prems(1), of "ucast (hc_nb_bits c)"] c L11 by auto
    have pd: "put dst (out + i) (hc_symbol c) = Some (dst[out + i := of_nat u])" using Suc.prems(3) lt c by simp
    have "wp (lit_symbols table [Suc i..<n] out r' (dst[out + i := of_nat u])) (\<lambda>(res, dst'). length dst' = length (dst[out + i := of_nat u]) \<and>
       take (out + Suc i) dst' = take (out + Suc i) (dst[out + i := of_nat u]) \<and> drop (out + n) dst' = drop (out + n) (dst[out + i := of_nat u]) \<and>
       (case res of
          Inl (st, _) \<Rightarrow> st = CUDEC_ERR_CORRUPT_INPUT \<and> huf_symbols ws L (n - Suc i) (live_bits r') = None
        | Inr r'' \<Rightarrow> live_reader r'' \<and> huf_symbols ws L (n - Suc i) (live_bits r') =
            (if live_bits r'' = [] then Some (take (n - Suc i) (drop (out + Suc i) dst')) else None)))"
      using Suc.prems Suc.hyps(2) lt r'(2) by (intro Suc.hyps(1)) auto
    then have "wp (lit_symbols table [Suc i..<n] out r' (dst[out + i := of_nat u])) (\<lambda>(res, dst'). length dst' = length dst \<and>
       take (out + i) dst' = take (out + i) dst \<and> drop (out + n) dst' = drop (out + n) dst \<and>
       (case res of
          Inl (st, _) \<Rightarrow> st = CUDEC_ERR_CORRUPT_INPUT \<and> huf_symbols ws L (n - i) (live_bits r) = None
        | Inr r'' \<Rightarrow> live_reader r'' \<and> huf_symbols ws L (n - i) (live_bits r) =
            (if live_bits r'' = [] then Some (take (n - i) (drop (out + i) dst')) else None)))"
    proof (rule wp_mono, goal_cases)
      case (1 y)
      obtain res dst' where y: "y = (res, dst')" by (cases y)
      have l: "out + i < length dst" using Suc.prems(3) lt by simp
      have tk: "take (out + Suc i) dst' = take (out + i) dst @ [of_nat u]" and ld: "length dst' = length dst"
        using 1 l by (simp_all add: y take_Suc_conv_app_nth)
      have "take (out + i) (take (out + Suc i) dst') = take (out + i) dst" unfolding tk using l by simp
      then have pre: "take (out + i) dst' = take (out + i) dst" by (simp add: min_def)
      have "take (out + Suc i) dst' ! (out + i) = of_nat u" unfolding tk using l by (simp add: nth_append)
      then have at_i: "dst' ! (out + i) = of_nat u" by simp
      have "drop (out + i) dst' = of_nat u # drop (out + Suc i) dst'" using Cons_nth_drop_Suc[of "out + i" dst'] l ld at_i by simp
      then have tl: "take (n - i) (drop (out + i) dst') = of_nat u # take (n - Suc i) (drop (out + Suc i) dst')" by (simp add: ni)
      have hs: "huf_symbols ws L (n - i) (live_bits r) = map_option ((#) (of_nat u)) (huf_symbols ws L (n - Suc i) (live_bits r'))"
        by (simp add: ni Some r'(3))
      show ?case using 1 pre lt unfolding y prod.case hs tl ld by (auto split: sum.splits)
    qed
    then show ?thesis unfolding upt_conv_Cons[OF lt] lit_symbols.simps L[symmetric] v(1) ac bind.bind_lunit r'(1) prod.case
      using pd by simp
  qed
qed

lemma decode_stream_contract:
  assumes t: "lit_tree table ws" and n: "unat n < 2 ^ 60" "p + unat n \<le> length s" and o: "out + unat count \<le> length dst"
  defines "spec \<equiv> huf_stream ws (lt_table_log table) (unat count) (take (unat n) (drop p s))"
  shows "wp (zstd_literals_decode_stream s p n table dst out count) (\<lambda>(res, dst'). length dst' = length dst \<and> take out dst' = take out dst \<and>
     drop (out + unat count) dst' = drop (out + unat count) dst \<and>
     (case res of
        Inl (st, _) \<Rightarrow> st = CUDEC_ERR_CORRUPT_INPUT \<and> spec = None
      | Inr _ \<Rightarrow> spec = Some (take (unat count) (drop out dst'))))"
proof -
  define run where "run = take (unat n) (drop p s)"
  let ?rd = "zstd_bit_reader_init (drop p s) n"
  have lr: "length run = unat n" using n(2) by (simp add: run_def)
  have ok: "reader_ok ?rd" using n by (simp add: reader_ok_def zstd_bit_reader_init_def)
  have start: "wp (zstd_bit_start ?rd) (\<lambda>(st, r). (st = CUDEC_OK \<longleftrightarrow> run \<noteq> [] \<and> last run \<noteq> 0) \<and>
      (st = CUDEC_OK \<longrightarrow> live_reader r \<and> live_bits r = stream_bits run))"
  proof (rule wp_mono[OF start_contract[OF ok]], goal_cases)
    case (1 x)
    have r: "run = [] \<longleftrightarrow> n = 0" using lr by (auto simp: word_unat_eq_iff simp flip: length_0_conv)
    have "last run = drop p s ! (unat n - 1)" if "n \<noteq> 0"
    proof -
      have "0 < unat n" using that by (simp add: unat_gt_0)
      then have "last run = run ! (unat n - 1)" using lr by (subst last_conv_nth) auto
      then show ?thesis using \<open>0 < unat n\<close> by (simp add: run_def)
    qed
    then show ?case using 1 r unfolding zstd_bit_reader_init_def by (auto simp: live_reader_def run_def)
  qed
  show ?thesis unfolding zstd_literals_decode_stream_def
  proof (rule wp_bind2[OF start], goal_cases)
    case (1 st r)
    show ?case
    proof (cases "st = CUDEC_OK")
      case False
      then show ?thesis using 1 by (simp add: wp_Some spec_def huf_stream_def run_def[symmetric])
    next
      case True
      then have lv: "live_reader r" "live_bits r = stream_bits run" "run \<noteq> [] \<and> last run \<noteq> 0" using 1 by auto
      then have ro: "reader_ok r" "started r" by (simp_all add: live_reader_def)
      have sp: "spec = huf_symbols ws (lt_table_log table) (unat count) (stream_bits run)"
        using lv(3) by (simp add: spec_def huf_stream_def run_def[symmetric])
      have ok: "\<not> st \<noteq> CUDEC_OK" using True by simp
      show ?thesis unfolding if_not_P[OF ok]
      proof (rule wp_bind2[OF lit_symbols_contract[OF t refl lv(1), of 0 "unat count" out dst]], goal_cases)
        case (3 res d)
        then show ?case using lv(2) sp by (cases res) (auto simp: wp_Some at_end_live live_reader_def split: if_splits)
      qed (use o in simp_all)
    qed
  qed
qed

section \<open>The section is decoded exactly\<close>

text \<open>Streams one after the other, each with its size and the symbols it holds.\<close>

fun streams_spec :: "u8 list \<Rightarrow> nat \<Rightarrow> (nat \<times> nat) list \<Rightarrow> u8 list \<Rightarrow> u8 list option" where
  "streams_spec ws L [] body = Some []"
| "streams_spec ws L ((c, g) # ss) body = do {
     a \<leftarrow> huf_stream ws L g (take c body);
     b \<leftarrow> streams_spec ws L ss (drop c body);
     Some (a @ b)
   }"

text \<open>Four streams behind a jump table of three sizes; three take a quarter of the literals, rounded up.\<close>

definition four_spec :: "u8 list \<Rightarrow> nat \<Rightarrow> nat \<Rightarrow> u8 list \<Rightarrow> u8 list option" where
  "four_spec ws L regen ps =
     (let c0 = le_nat (take 2 ps); c1 = le_nat (take 2 (drop 2 ps)); c2 = le_nat (take 2 (drop 4 ps)); seg = (regen + 3) div 4 in
      if length ps < 10 \<or> regen < 6 \<or> length ps - 6 \<le> c0 + c1 + c2 then None
      else streams_spec ws L [(c0, seg), (c1, seg), (c2, seg), (length ps - 6 - (c0 + c1 + c2), regen - 3 * seg)] (drop 6 ps))"

definition lit_section :: "u8 list \<Rightarrow> nat \<Rightarrow> nat \<Rightarrow> zstd_huf_scratch \<Rightarrow> (u8 list \<times> nat) option \<Rightarrow> u8 list \<Rightarrow> (u8 list \<times> nat) option \<Rightarrow> bool" where
  "lit_section s n win scr prev out left \<longleftrightarrow> n \<noteq> 0 \<and> lit_header_bytes s \<le> n \<and> lit_regenerated s \<le> min win 131072 \<and>
     (if lit_type s = 0 then lit_header_bytes s + lit_regenerated s \<le> n \<and> out = take (lit_regenerated s) (drop (lit_header_bytes s) s) \<and> left = prev
      else if lit_type s = 1 then lit_header_bytes s + 1 \<le> n \<and> out = replicate (lit_regenerated s) (s ! lit_header_bytes s) \<and> left = prev
      else lit_header_bytes s + lit_payload s \<le> n \<and> (\<exists>ws L used. left = Some (ws, L) \<and>
        (if lit_type s = 2 then huf_described (drop (lit_header_bytes s) s) (lit_payload s) 256 11 scr ws L \<and>
           used = huf_description_bytes (drop (lit_header_bytes s) s)
         else prev = Some (ws, L) \<and> used = 0) \<and>
        (let ps = take (lit_payload s - used) (drop (lit_header_bytes s + used) s) in
           (if lit_format s = 0 then huf_stream ws L (lit_regenerated s) ps else four_spec ws L (lit_regenerated s) ps) = Some out)))"

definition lit_consumed :: "u8 list \<Rightarrow> nat" where
  "lit_consumed s = lit_header_bytes s + (if lit_type s = 0 then lit_regenerated s else if lit_type s = 1 then 1 else lit_payload s)"

text \<open>The table as the caller keeps it: absent, or that of a tree.\<close>

definition lit_state :: "zstd_literals_table \<Rightarrow> (u8 list \<times> nat) option \<Rightarrow> bool" where
  "lit_state table prev \<longleftrightarrow> 2048 \<le> unat (lt_capacity table) \<and> unat (lt_capacity table) \<le> length (lt_cells table) \<and>
     (case prev of None \<Rightarrow> \<not> lt_present table
      | Some (ws, L) \<Rightarrow> lt_present table \<and> lt_table_log table = L \<and> lit_tree table ws)"

lemma streams_spec_take:
  "(\<Sum>(c, g)\<leftarrow>ss. c) \<le> k \<Longrightarrow> streams_spec ws L ss (take k body) = streams_spec ws L ss body"
proof (induction ss arbitrary: body k)
  case (Cons x ss)
  obtain c g where x: "x = (c, g)" by (cases x)
  have "streams_spec ws L ss (take (k - c) (drop c body)) = streams_spec ws L ss (drop c body)"
    using Cons.prems by (intro Cons.IH) (simp add: x)
  then show ?case using Cons.prems by (simp add: x min_def drop_take)
qed simp

lemma streams_contract:
  assumes t: "lit_tree table ws"
    and "\<forall>(c, g)\<in>set ps. unat c < 2 ^ 60" "stream + (\<Sum>(c, g)\<leftarrow>ps. unat c) \<le> length s" "out + (\<Sum>(c, g)\<leftarrow>ps. unat g) \<le> length dst"
  shows "wp (lit_streams s table ps stream out dst) (\<lambda>(res, dst'). length dst' = length dst \<and> take out dst' = take out dst \<and>
     drop (out + (\<Sum>(c, g)\<leftarrow>ps. unat g)) dst' = drop (out + (\<Sum>(c, g)\<leftarrow>ps. unat g)) dst \<and>
     (let spec = streams_spec ws (lt_table_log table) (map (\<lambda>(c, g). (unat c, unat g)) ps) (drop stream s) in
      case res of
        Inl (st, _) \<Rightarrow> st = CUDEC_ERR_CORRUPT_INPUT \<and> spec = None
      | Inr _ \<Rightarrow> spec = Some (take (\<Sum>(c, g)\<leftarrow>ps. unat g) (drop out dst'))))"
  using assms(2-4)
proof (induction ps arbitrary: stream out dst)
  case Nil
  then show ?case by (simp add: wp_Some)
next
  case (Cons x ps)
  obtain c g where x: "x = (c, g)" by (cases x)
  let ?G = "\<Sum>(c, g)\<leftarrow>ps. unat g"
  have len: "unat c < 2 ^ 60" "stream + unat c \<le> length s" "out + unat g \<le> length dst" using Cons.prems by (simp_all add: x)
  show ?case unfolding x lit_streams.simps
  proof (rule wp_bind2[OF decode_stream_contract[OF t len]], goal_cases)
    case (1 res d1)
    show ?case
    proof (cases res)
      case (Inl e)
      have "drop ?G (drop (out + unat g) d1) = drop ?G (drop (out + unat g) dst)" using 1 by simp
      then have "drop (out + (unat g + ?G)) d1 = drop (out + (unat g + ?G)) dst" by (simp add: add.assoc add.commute add.left_commute)
      then show ?thesis using 1 Inl by (cases e) (simp add: wp_Some Let_def)
    next
      case (Inr u)
      have ld: "length d1 = length dst" using 1 by simp
      have "wp (lit_streams s table ps (stream + unat c) (out + unat g) d1) (\<lambda>(res, dst'). length dst' = length d1 \<and>
         take (out + unat g) dst' = take (out + unat g) d1 \<and> drop (out + unat g + ?G) dst' = drop (out + unat g + ?G) d1 \<and>
         (let spec = streams_spec ws (lt_table_log table) (map (\<lambda>(c, g). (unat c, unat g)) ps) (drop (stream + unat c) s) in
          case res of
            Inl (st, _) \<Rightarrow> st = CUDEC_ERR_CORRUPT_INPUT \<and> spec = None
          | Inr _ \<Rightarrow> spec = Some (take ?G (drop (out + unat g) dst'))))"
        using Cons.prems ld by (intro Cons.IH) (auto simp: x)
      then show ?thesis unfolding Inr prod.case sum.case
      proof (rule wp_mono, goal_cases)
        case (1 y)
        obtain r d2 where y: "y = (r, d2)" by (cases y)
        have h: "huf_stream ws (lt_table_log table) (unat g) (take (unat c) (drop stream s)) = Some (take (unat g) (drop out d1))"
          "take out d1 = take out dst" "drop (out + unat g) d1 = drop (out + unat g) dst"
          using \<open>length d1 = length dst \<and> _\<close> Inr by simp_all
        have fr: "take (out + unat g) d2 = take (out + unat g) d1" and ld2: "length d2 = length dst" using 1 ld by (simp_all add: y)
        have "take out (take (out + unat g) d2) = take out (take (out + unat g) d1)" using fr by simp
        then have pre: "take out d2 = take out dst" using h(2) by (simp add: min_def)
        have "drop out (take (out + unat g) d2) = drop out (take (out + unat g) d1)" using fr by simp
        then have mid: "take (unat g) (drop out d2) = take (unat g) (drop out d1)" by (simp add: drop_take)
        have "drop ?G (drop (out + unat g) d1) = drop ?G (drop (out + unat g) dst)" using h(3) by simp
        then have post: "drop (out + (unat g + ?G)) d2 = drop (out + (unat g + ?G)) dst"
          using 1 by (simp add: y add.assoc add.commute add.left_commute)
        have tk: "take (unat g) (drop out d1) @ take ?G (drop (out + unat g) d2) = take (unat g + ?G) (drop out d2)"
          by (simp add: take_add mid add.commute)
        have sp: "streams_spec ws (lt_table_log table) (map (\<lambda>(c, g). (unat c, unat g)) ((c, g) # ps)) (drop stream s) =
           map_option ((@) (take (unat g) (drop out d1))) (streams_spec ws (lt_table_log table) (map (\<lambda>(c, g). (unat c, unat g)) ps) (drop (stream + unat c) s))"
          by (cases "streams_spec ws (lt_table_log table) (map (\<lambda>(c, g). (unat c, unat g)) ps) (drop (stream + unat c) s)")
            (simp_all add: h(1) add.commute)
        show ?case using 1 pre post ld2 unfolding y prod.case Let_def sp by (auto simp: tk split: sum.splits)
      qed
    qed
  qed
qed

lemma quarters: "6 \<le> r \<Longrightarrow> 3 * ((r + 3) div 4) \<le> (r :: nat)"
  by presburger

lemma read_pair:
  assumes "p + 2 \<le> length s"
  shows "\<exists>v. zstd_read_le s p 2 = Some v \<and> unat v = le_nat (take 2 (drop p s)) \<and> unat v < 65536"
proof -
  obtain v where v: "zstd_read_le s p 2 = Some v" "unat v = le_nat (take 2 (drop p s))" using zstd_read_le_value[of 2 p s] assms by auto
  have "length (take 2 (drop p s)) = 2" using assms by simp
  then show ?thesis using v le_nat_less[of "take 2 (drop p s)"] by simp
qed

lemma four_contract:
  assumes t: "lit_tree table ws" and n: "unat psz < 2 ^ 60" "p + unat psz \<le> length s" and r: "unat regen \<le> 131072" "unat regen \<le> length dst"
  defines "spec \<equiv> four_spec ws (lt_table_log table) (unat regen) (take (unat psz) (drop p s))"
  shows "wp (lit_four s p psz regen table dst) (\<lambda>(res, dst'). length dst' = length dst \<and> drop (unat regen) dst' = drop (unat regen) dst \<and>
     (case res of
        Inl (st, _) \<Rightarrow> st = CUDEC_ERR_CORRUPT_INPUT \<and> spec = None
      | Inr _ \<Rightarrow> spec = Some (take (unat regen) dst')))"
proof -
  define ps where "ps = take (unat psz) (drop p s)"
  have lp: "length ps = unat psz" using n by (simp add: ps_def)
  have u10: "unat (kZstdLiteralsMinFourStreamPayload) = 10" "unat kZstdLiteralsMinFourStreamRegenerated = 6" "unat kZstdLiteralsJumpTableBytes = 6"
    by (simp_all add: lit_consts)
  have c: "psz < kZstdLiteralsMinFourStreamPayload \<longleftrightarrow> unat psz < 10" "regen < kZstdLiteralsMinFourStreamRegenerated \<longleftrightarrow> unat regen < 6"
    by (simp_all only: w2n u10)
  show ?thesis
  proof (cases "unat psz < 10 \<or> unat regen < 6")
    case True
    then show ?thesis unfolding lit_four_def c using lp by (auto simp: wp_Some spec_def four_spec_def Let_def ps_def[symmetric])
  next
    case False
    then have f: "\<not> unat psz < 10" "\<not> unat regen < 6" by simp_all
    obtain c0 c1 c2 where c0: "zstd_read_le s p 2 = Some c0" "unat c0 = le_nat (take 2 (drop p s))" "unat c0 < 65536"
      and c1: "zstd_read_le s (p + 2) 2 = Some c1" "unat c1 = le_nat (take 2 (drop (p + 2) s))" "unat c1 < 65536"
      and c2: "zstd_read_le s (p + 4) 2 = Some c2" "unat c2 = le_nat (take 2 (drop (p + 4) s))" "unat c2 < 65536"
      using read_pair[of p s] read_pair[of "p + 2" s] read_pair[of "p + 4" s] n f by auto
    have cs: "take 2 ps = take 2 (drop p s)" "take 2 (drop 2 ps) = take 2 (drop (p + 2) s)" "take 2 (drop 4 ps) = take 2 (drop (p + 4) s)"
      using f by (simp_all add: ps_def drop_take min_def add.commute)
    define C where "C = unat c0 + unat c1 + unat c2"
    have "unat (c0 + c1) = unat c0 + unat c1" using c0 c1 by (intro unat_plus) simp
    then have uC: "unat (c0 + c1 + c2) = C" unfolding C_def using c0 c1 c2 by (subst unat_plus) auto
    have ub: "unat (psz - kZstdLiteralsJumpTableBytes) = unat psz - 6" using f u10 by (simp add: unat_minus)
    have over: "c0 + c1 + c2 \<ge> psz - kZstdLiteralsJumpTableBytes \<longleftrightarrow> unat psz - 6 \<le> C" by (simp only: w2n uC ub)
    define seg where "seg = (unat regen + 3) div 4"
    have sp: "spec = (if unat psz - 6 \<le> C then None
        else streams_spec ws (lt_table_log table) [(unat c0, seg), (unat c1, seg), (unat c2, seg), (unat psz - 6 - C, unat regen - 3 * seg)] (drop 6 ps))"
      unfolding spec_def ps_def[symmetric] four_spec_def Let_def cs lp c0(2)[symmetric] c1(2)[symmetric] c2(2)[symmetric] C_def[symmetric] seg_def[symmetric]
      using f by (simp only: de_Morgan_disj if_False if_True simp_thms)
    show ?thesis
    proof (cases "unat psz - 6 \<le> C")
      case True
      then show ?thesis unfolding lit_four_def c if_not_P[OF f(1)] if_not_P[OF f(2)] c0(1) c1(1) c2(1) bind.bind_lunit Let_def over sp
        by (simp add: wp_Some)
    next
      case no: False
      have useg: "unat ((regen + 3) div 4) = seg"
        using r(1) unfolding seg_def unat_div by (subst unat_plus) auto
      have s3: "3 * seg \<le> unat regen" using quarters[of "unat regen"] f by (simp add: seg_def)
      have "unat (3 * ((regen + 3) div 4)) = 3 * seg" using useg s3 r(1) by (subst unat_mult_lem[THEN iffD1]) auto
      then have urest: "unat (regen - 3 * ((regen + 3) div 4)) = unat regen - 3 * seg" using s3 by (simp add: unat_minus)
      have uc3: "unat (psz - kZstdLiteralsJumpTableBytes - (c0 + c1 + c2)) = unat psz - 6 - C" using no ub uC by (simp add: unat_minus)
      let ?ss = "[(c0, (regen + 3) div 4), (c1, (regen + 3) div 4), (c2, (regen + 3) div 4),
          (psz - kZstdLiteralsJumpTableBytes - (c0 + c1 + c2), regen - 3 * ((regen + 3) div 4))]"
      have sums: "(\<Sum>(c, g)\<leftarrow>?ss. unat c) = unat psz - 6" "(\<Sum>(c, g)\<leftarrow>?ss. unat g) = unat regen"
        using no s3 by (simp_all add: useg urest uc3 C_def)
      have small: "\<forall>(c, g)\<in>set ?ss. unat c < 2 ^ 60" using c0 c1 c2 uc3 n by auto
      have mp: "map (\<lambda>(c, g). (unat c, unat g)) ?ss = [(unat c0, seg), (unat c1, seg), (unat c2, seg), (unat psz - 6 - C, unat regen - 3 * seg)]"
        by (simp add: useg urest uc3)
      have d6: "drop 6 ps = take (unat psz - 6) (drop (p + 6) s)" by (simp add: ps_def drop_take add.commute)
      have "streams_spec ws (lt_table_log table) (map (\<lambda>(c, g). (unat c, unat g)) ?ss) (drop (p + 6) s) = spec"
        unfolding sp if_not_P[OF no] mp d6 using no by (intro streams_spec_take[symmetric]) (simp add: C_def)
      note sc = streams_contract[OF t small, of "p + 6" s 0 dst, unfolded sums, unfolded this]
      show ?thesis unfolding lit_four_def c if_not_P[OF f(1)] if_not_P[OF f(2)] c0(1) c1(1) c2(1) bind.bind_lunit Let_def over if_not_P[OF no] u10
        by (rule wp_mono[OF sc]) (use n f r in \<open>auto simp: Let_def split: sum.splits prod.splits\<close>)
    qed
  qed
qed

lemma lit_table_contract:
  assumes st: "lit_state table prev" and scr: "scratch_ok (ls_weights_scratch scr)" "length (ls_weights scr) = 256" "length stale = 13"
    and n: "lit_fields s h" "lit_header_bytes s + lit_payload s \<le> length s" and ty: "2 \<le> lit_type s"
  defines "desc \<equiv> (\<lambda>ws L. huf_described (drop (lit_header_bytes s) s) (lit_payload s) 256 11 (ls_weights_scratch scr) ws L)"
  shows "wp (lit_table s h table scr stale) (\<lambda>(res, table'). case res of
     Inl (st, _) \<Rightarrow> st = CUDEC_ERR_CORRUPT_INPUT \<and> (if lit_type s = 2 then \<not> (\<exists>ws L. desc ws L) else prev = None)
   | Inr used \<Rightarrow> \<exists>ws L. lit_state table' (Some (ws, L)) \<and> unat used \<le> lit_payload s \<and>
       (if lit_type s = 2 then desc ws L \<and> unat used = huf_description_bytes (drop (lit_header_bytes s) s)
        else prev = Some (ws, L) \<and> used = 0 \<and> table' = table))"
proof -
  have h: "unat (lh_compressed_size h) = lit_payload s" "lh_header_size h = lit_header_bytes s" "lh_block_type h = lit_type s"
    using n(1) by (simp_all add: lit_fields_def)
  have cap: "2048 \<le> unat (lt_capacity table)" "unat (lt_capacity table) \<le> length (lt_cells table)" using st by (simp_all add: lit_state_def)
  show ?thesis
  proof (cases "lit_type s = 2")
    case False
    then show ?thesis using st h by (auto simp: lit_table_def lit_consts lit_state_def wp_Some split: option.splits)
  next
    case True
    have c: "lh_block_type h = kZstdLiteralsTypeCompressed" using True h by (simp add: lit_consts)
    let ?s = "drop (lit_header_bytes s) s"
    have k: "kZstdHufMaxSymbolValue + 1 = 256" "kZstdLiteralsMaxTableLog = 11" by (simp_all add: huf_consts lit_consts)
    have rw: "wp (zstd_huf_read_weights ?s (lh_compressed_size h) 256 11 (ls_weights_scratch scr) (ls_weights scr)) (\<lambda>res. case res of
     Inl (st, _) \<Rightarrow> st = CUDEC_ERR_CORRUPT_INPUT \<and> \<not> (\<exists>ws L. desc ws L)
   | Inr t \<Rightarrow> desc (take (ht_count t) (ht_weights t)) (ht_table_log t) \<and>
       2 \<le> ht_count t \<and> ht_count t \<le> 256 \<and> unat (ht_consumed t) = huf_description_bytes ?s \<and> huf_description_bytes ?s \<le> lit_payload s \<and>
       length (ht_weights t) = 256)"
      by (rule wp_mono[OF read_weights_contract]) (use n scr h in \<open>auto simp: desc_def split: sum.splits\<close>)
    show ?thesis unfolding lit_table_def if_P[OF c] k h(2)
    proof (rule wp_bindI[OF rw], goal_cases)
      case (1 x)
      show ?case
      proof (cases x)
        case (Inl e)
        then show ?thesis using 1 True by (cases e) (simp add: wp_Some)
      next
        case (Inr t)
        let ?ws = "take (ht_count t) (ht_weights t)" and ?L = "ht_table_log t"
        have q: "desc ?ws ?L" "2 \<le> ht_count t" "ht_count t \<le> 256" "unat (ht_consumed t) = huf_description_bytes ?s"
          "huf_description_bytes ?s \<le> lit_payload s" "length (ht_weights t) = 256" using 1 Inr by simp_all
        have tree: "huf_tree ?ws ?L" "?L \<le> 11" using q(1) by (simp_all add: desc_def huf_described_def)
        have "count_list zs 1 \<le> huf_sum zs" for zs by (induction zs) (simp_all add: leaf_def)
        then have "2 \<le> (2::nat) ^ ?L" using tree(1) le_trans unfolding huf_tree_def by metis
        then have L: "0 < ?L" by (cases ?L) simp_all
        have two: "(2::nat) ^ ?L \<le> 2048" using power_increasing[OF tree(2), of "2::nat"] by simp
        have bt: "wp (zstd_huf_build_dtable (ht_weights t) (ht_count t) ?L (lt_cells table) (lt_capacity table) stale) (\<lambda>res. case res of
            Inl e \<Rightarrow> False | Inr cells' \<Rightarrow> huf_table ?ws ?L cells' \<and> length cells' = length (lt_cells table))"
          by (rule wp_mono[OF build_table_contract]) (use q scr cap two L tree tree_fits[OF tree(1)] in \<open>auto split: sum.splits if_splits\<close>)
        from wp_InrD[OF bt] obtain cells' where b: "zstd_huf_build_dtable (ht_weights t) (ht_count t) ?L (lt_cells table) (lt_capacity table) stale = Some (Inr cells')"
          "huf_table ?ws ?L cells'" "length cells' = length (lt_cells table)" by blast
        have "lit_state (table\<lparr>lt_cells := cells', lt_table_log := ?L, lt_present := True\<rparr>) (Some (?ws, ?L))"
          using b cap L tree tree_fits[OF tree(1)] two q by (simp add: lit_state_def lit_tree_def)
        then show ?thesis unfolding Inr sum.case b(1) bind.bind_lunit using q True by (auto simp: wp_Some)
      qed
    qed
  qed
qed

lemma lit_raw_value:
  assumes "i \<le> n" "p + n \<le> length s" "n \<le> length dst"
  shows "lit_raw s p [i..<n] dst = Some (take i dst @ take (n - i) (drop (p + i) s) @ drop n dst)"
  using assms
proof (induction "n - i" arbitrary: i dst)
  case (Suc m)
  then have lt: "i < n" "p + i < length s" "i < length dst" by simp_all
  have "lit_raw s p [Suc i..<n] (dst[i := s ! (p + i)]) = Some (take (Suc i) (dst[i := s ! (p + i)]) @
      take (n - Suc i) (drop (p + Suc i) s) @ drop n (dst[i := s ! (p + i)]))"
    using Suc.prems Suc.hyps(2) by (intro Suc.hyps(1)) auto
  moreover have "take (n - i) (drop (p + i) s) = s ! (p + i) # take (n - Suc i) (drop (p + Suc i) s)"
    using lt Cons_nth_drop_Suc[of "p + i" s] by (metis Suc_diff_Suc add_Suc_right take_Suc_Cons)
  ultimately show ?case using lt by (simp add: upt_conv_Cons take_Suc_conv_app_nth)
qed simp

lemma lit_rle_value:
  assumes "i \<le> n" "n \<le> length dst"
  shows "lit_rle b [i..<n] dst = Some (take i dst @ replicate (n - i) b @ drop n dst)"
  using assms
proof (induction "n - i" arbitrary: i dst)
  case (Suc m)
  then have lt: "i < n" "i < length dst" by simp_all
  have "lit_rle b [Suc i..<n] (dst[i := b]) = Some (take (Suc i) (dst[i := b]) @ replicate (n - Suc i) b @ drop n (dst[i := b]))"
    using Suc.prems Suc.hyps(2) by (intro Suc.hyps(1)) auto
  moreover have "replicate (n - i) b = b # replicate (n - Suc i) b" using lt by (simp add: Suc_diff_Suc flip: replicate_Suc)
  ultimately show ?case using lt by (simp add: upt_conv_Cons take_Suc_conv_app_nth)
qed simp

lemma huf_described_unique: "huf_described s n m M scr ws L \<Longrightarrow> huf_described s n m M scr ws' L' \<Longrightarrow> ws = ws' \<and> L = L'"
proof -
  assume a: "huf_described s n m M scr ws L" "huf_described s n m M scr ws' L'"
  have b: "butlast ws = butlast ws'"
    using a by (auto simp: huf_described_def spells_direct_def spells_fse_def Let_def)
  obtain vs w w' where ws: "ws = vs @ [w]" "ws' = vs @ [w']" "w \<noteq> 0" "w' \<noteq> 0"
    using a b unfolding huf_described_def by (metis append_butlast_last_id)
  have s: "huf_sum vs + leaf w = 2 ^ L" "huf_sum vs + leaf w' = 2 ^ L'" "2 \<le> count_list (vs @ [w]) 1"
    using a by (simp_all add: huf_described_def huf_tree_def ws)
  have "count_list vs 1 \<noteq> 0" using s(3) by (simp split: if_splits)
  then have "1 \<in> set vs" by (simp add: count_list_0_iff)
  from leaf_in_sum[OF this] have pos: "0 < huf_sum vs" by (simp add: leaf_def)
  obtain H where H: "2 ^ H \<le> huf_sum vs" "huf_sum vs < 2 ^ Suc H"
    using ex_power_ivl1[of 2 "huf_sum vs"] pos by auto
  have L: "L = Suc H" "L' = Suc H"
    using closing_depth[OF H, of "unat w - 1" L] closing_depth[OF H, of "unat w' - 1" L'] s(1,2) ws(3,4) by (simp_all add: leaf_def)
  then have "leaf w = leaf w'" using s(1,2) by simp
  then have "unat w - 1 = unat w' - 1" using ws(3,4) by (simp add: leaf_def)
  moreover have "0 < unat w" "0 < unat w'" using ws(3,4) by (simp_all add: unat_gt_0)
  ultimately have "w = w'" by (simp add: word_unat_eq_iff)
  then show "ws = ws' \<and> L = L'" using L ws by simp
qed

lemma compressed_contract:
  assumes st: "lit_state table prev" and scr: "scratch_ok (ls_weights_scratch scr)" "length (ls_weights scr) = 256" "length stale = 13"
    and h: "lit_fields s h" "lit_header_bytes s + lit_payload s \<le> length s" "2 \<le> lit_type s"
    and r: "lit_regenerated s \<le> 131072" "lit_regenerated s \<le> length dst"
  defines "good \<equiv> (\<lambda>out left. \<exists>ws L used. left = Some (ws, L) \<and>
        (if lit_type s = 2 then huf_described (drop (lit_header_bytes s) s) (lit_payload s) 256 11 (ls_weights_scratch scr) ws L \<and>
           used = huf_description_bytes (drop (lit_header_bytes s) s)
         else prev = Some (ws, L) \<and> used = 0) \<and>
        (let ps = take (lit_payload s - used) (drop (lit_header_bytes s + used) s) in
           (if lit_format s = 0 then huf_stream ws L (lit_regenerated s) ps else four_spec ws L (lit_regenerated s) ps) = Some out))"
  shows "wp (lit_compressed s h table scr stale dst) (\<lambda>(res, table', dst'). length dst' = length dst \<and>
     drop (lit_regenerated s) dst' = drop (lit_regenerated s) dst \<and>
     (case res of
        Inl (st, _) \<Rightarrow> st = CUDEC_ERR_CORRUPT_INPUT \<and> \<not> (\<exists>out left. good out left)
      | Inr _ \<Rightarrow> \<exists>left. good (take (lit_regenerated s) dst') left \<and> lit_state table' left))"
proof -
  have hf: "unat (lh_compressed_size h) = lit_payload s" "lh_header_size h = lit_header_bytes s" "lh_block_type h = lit_type s"
    "unat (lh_regenerated_size h) = lit_regenerated s" "lh_stream_count h = (if lit_format s = 0 then 1 else 4)"
    using h by (simp_all add: lit_fields_def)
  show ?thesis unfolding lit_compressed_def
  proof (rule wp_bind2[OF lit_table_contract[OF st scr h]], goal_cases)
    case (1 res table')
    show ?case
    proof (cases res)
      case (Inl e)
      then show ?thesis using 1 by (cases e) (auto simp: wp_Some good_def split: if_splits)
    next
      case (Inr used)
      obtain ws L where q: "lit_state table' (Some (ws, L))" "unat used \<le> lit_payload s"
         "if lit_type s = 2 then huf_described (drop (lit_header_bytes s) s) (lit_payload s) 256 11 (ls_weights_scratch scr) ws L \<and>
           unat used = huf_description_bytes (drop (lit_header_bytes s) s) else prev = Some (ws, L) \<and> used = 0 \<and> table' = table"
        using 1 Inr by auto
      have t: "lit_tree table' ws" "lt_table_log table' = L" using q(1) by (simp_all add: lit_state_def)
      have log: "\<not> (lt_table_log table' = 0 \<or> kZstdLiteralsMaxTableLog < lt_table_log table')" using t(1) by (simp add: lit_tree_def lit_consts)
      define p where "p = lit_header_bytes s + unat used"
      define psz where "psz = lh_compressed_size h - used"
      have psz: "unat psz = lit_payload s - unat used" using q(2) by (simp add: psz_def hf unat_minus)
      define ps where "ps = take (unat psz) (drop p s)"
      have fit: "p + unat psz \<le> length s" "unat psz < 2 ^ 60"
        using h(2) q(2) lit_sizes_small(2)[of s] by (simp_all add: p_def psz)
      define spec where "spec = (if lit_format s = 0 then huf_stream ws L (lit_regenerated s) ps else four_spec ws L (lit_regenerated s) ps)"
      have good: "good out left \<longleftrightarrow> left = Some (ws, L) \<and> spec = Some out" for out left
      proof
        assume "good out left"
        then obtain ws' L' used' where g: "left = Some (ws', L')" 
          "if lit_type s = 2 then huf_described (drop (lit_header_bytes s) s) (lit_payload s) 256 11 (ls_weights_scratch scr) ws' L' \<and>
             used' = huf_description_bytes (drop (lit_header_bytes s) s) else prev = Some (ws', L') \<and> used' = 0"
          "(let ps = take (lit_payload s - used') (drop (lit_header_bytes s + used') s) in
             (if lit_format s = 0 then huf_stream ws' L' (lit_regenerated s) ps else four_spec ws' L' (lit_regenerated s) ps)) = Some out"
          unfolding good_def Let_def by metis
        have "ws' = ws \<and> L' = L \<and> used' = unat used"
          using g(2) q(3) huf_described_unique by (cases "lit_type s = 2") (simp_all, blast)
        then have e: "ws' = ws" "L' = L" "used' = unat used" by simp_all
        show "left = Some (ws, L) \<and> spec = Some out" using g(1,3) unfolding e spec_def ps_def p_def psz Let_def by simp
      next
        assume "left = Some (ws, L) \<and> spec = Some out"
        then show "good out left" using q(3) unfolding good_def by (intro exI[of _ ws] exI[of _ L] exI[of _ "unat used"])
            (auto simp: spec_def ps_def p_def psz split: if_splits)
      qed
      show ?thesis
      proof (cases "psz = 0")
        case True
        then have "ps = []" by (simp add: ps_def)
        then have "spec = None" by (simp add: spec_def huf_stream_def four_spec_def Let_def)
        then show ?thesis unfolding Inr prod.case sum.case Let_def if_not_P[OF log] psz_def[symmetric] hf(2) p_def[symmetric] if_P[OF True]
          using good by (simp add: wp_Some)
      next
        case False
        have dec: "wp (if lh_stream_count h = 1 then zstd_literals_decode_stream s p psz table' dst 0 (lh_regenerated_size h)
             else lit_four s p psz (lh_regenerated_size h) table' dst)
           (\<lambda>(res, dst'). length dst' = length dst \<and> drop (lit_regenerated s) dst' = drop (lit_regenerated s) dst \<and>
             (case res of Inl (st, _) \<Rightarrow> st = CUDEC_ERR_CORRUPT_INPUT \<and> spec = None | Inr _ \<Rightarrow> spec = Some (take (lit_regenerated s) dst')))"
        proof (cases "lit_format s = 0")
          case True
          then show ?thesis using hf(5)
            by (simp, intro wp_mono[OF decode_stream_contract[OF t(1) fit(2,1), of 0 "lh_regenerated_size h" dst, unfolded hf(4) t(2)]])
              (use r in \<open>auto simp: spec_def ps_def split: sum.splits\<close>)
        next
          case four: False
          have rr: "unat (lh_regenerated_size h) \<le> 131072" "unat (lh_regenerated_size h) \<le> length dst" using r hf(4) by simp_all
          show ?thesis using hf(5) four
            by (simp, intro wp_mono[OF four_contract[OF t(1) fit(2,1) rr, unfolded hf(4) t(2)]]) (auto simp: spec_def ps_def split: sum.splits)
        qed
        show ?thesis unfolding Inr prod.case sum.case Let_def if_not_P[OF log] psz_def[symmetric] hf(2) p_def[symmetric] if_not_P[OF False]
        proof (rule wp_bind2[OF dec], goal_cases)
          case (1 res dst')
          then show ?case using good q(1) by (auto simp: wp_Some split: sum.splits)
        qed
      qed
    qed
  qed
qed

lemma decode_literals_contract:
  assumes n: "unat n \<le> length s" and st: "lit_state table prev"
    and scr: "scratch_ok (ls_weights_scratch scr)" "length (ls_weights scr) = 256" "length stale = 13" and d: "unat cap \<le> length dst"
  shows "wp (zstd_decode_literals s n win table scr stale dst cap) (\<lambda>(res, table', dst'). length dst' = length dst \<and> drop (unat cap) dst' = drop (unat cap) dst \<and>
     (case res of
        Inl (st, _) \<Rightarrow> if st = CUDEC_ERR_OUTPUT_TOO_SMALL then unat cap < lit_regenerated s \<and> lit_regenerated s \<le> min (unat win) 131072
          else st = CUDEC_ERR_CORRUPT_INPUT \<and> \<not> (\<exists>out left. lit_section s (unat n) (unat win) (ls_weights_scratch scr) prev out left)
      | Inr (produced, consumed) \<Rightarrow> unat produced = lit_regenerated s \<and> unat produced \<le> unat cap \<and> unat consumed = lit_consumed s \<and> unat consumed \<le> unat n \<and>
          drop (unat produced) dst' = drop (unat produced) dst \<and>
          (\<exists>left. lit_section s (unat n) (unat win) (ls_weights_scratch scr) prev (take (unat produced) dst') left \<and> lit_state table' left)))"
proof -
  have uc: "unat (push_bit kZstdLiteralsMaxTableLog 1 :: u32) = 2048" using unat_push_1[of 11] by (simp add: lit_consts)
  have c: "\<not> lt_capacity table < push_bit kZstdLiteralsMaxTableLog 1" using st unfolding w2n uc lit_state_def by linarith
  define sec where "sec = lit_section s (unat n) (unat win) (ls_weights_scratch scr) prev"
  show ?thesis unfolding zstd_decode_literals_def if_not_P[OF c] sec_def[symmetric]
  proof (rule wp_bindI[OF literals_header_contract[OF n]], goal_cases)
    case (1 x)
    show ?case
    proof (cases x)
      case (Inl e)
      then show ?thesis using 1 by (cases e) (auto simp: wp_Some sec_def lit_section_def word_unat_eq_iff)
    next
      case (Inr h)
      let ?hs = "lit_header_bytes s"
      have q: "n \<noteq> 0" "?hs \<le> unat n" "lit_fields s h" using 1 Inr by simp_all
      have hf: "unat (lh_compressed_size h) = lit_payload s" "lh_header_size h = ?hs" "lh_block_type h = lit_type s"
        "unat (lh_regenerated_size h) = lit_regenerated s" using q(3) by (simp_all add: lit_fields_def)
      have n0: "unat n \<noteq> 0" using q(1) by (simp add: word_unat_eq_iff)
      have uh: "unat (of_nat ?hs :: u64) = ?hs" using lit_header_small(1)[of s] by (intro unat_of_nat_less) simp
      have ua: "unat (n - of_nat ?hs) = unat n - ?hs" using q(2) uh by (simp add: unat_minus)
      have ubm: "unat (zstd_literals_block_maximum win) = min (unat win) 131072"
        by (auto simp: zstd_literals_block_maximum_def kZstdBlockSizeCeiling_def w2n min_def)
      have w: "zstd_literals_block_maximum win < lh_regenerated_size h \<longleftrightarrow> \<not> lit_regenerated s \<le> min (unat win) 131072"
        "cap < lh_regenerated_size h \<longleftrightarrow> \<not> lit_regenerated s \<le> unat cap"
        "n - of_nat ?hs < lh_regenerated_size h \<longleftrightarrow> \<not> ?hs + lit_regenerated s \<le> unat n"
        "n - of_nat ?hs < 1 \<longleftrightarrow> \<not> ?hs + 1 \<le> unat n"
        "n - of_nat ?hs < lh_compressed_size h \<longleftrightarrow> \<not> ?hs + lit_payload s \<le> unat n"
        using q(2) by (auto simp: w2n ubm ua hf)
      have ty: "lit_type s = kZstdLiteralsTypeRaw \<longleftrightarrow> lit_type s = 0" "lit_type s = kZstdLiteralsTypeRle \<longleftrightarrow> lit_type s = 1"
        by (simp_all add: lit_consts)
      have sm: "lit_regenerated s < 1048576" "lit_payload s < 262144" "?hs \<le> 5" using lit_sizes_small lit_header_small by auto
      have uz: "unat (of_nat ?hs + lh_regenerated_size h) = ?hs + lit_regenerated s" "unat (of_nat ?hs + 1 :: u64) = ?hs + 1"
        "unat (of_nat ?hs + lh_compressed_size h) = ?hs + lit_payload s"
        using sm by (simp_all add: unat_plus uh hf)
      show ?thesis
      proof (cases "lit_regenerated s \<le> min (unat win) 131072")
        case False
        then have "\<not> sec out left" for out left unfolding sec_def lit_section_def by blast
        then show ?thesis unfolding Inr sum.case Let_def hf(2,3) w using False by (simp add: wp_Some)
      next
        case fits: True
        then have f1: "\<not> \<not> lit_regenerated s \<le> min (unat win) 131072" by simp
        show ?thesis
        proof (cases "lit_regenerated s \<le> unat cap")
          case False
          then show ?thesis unfolding Inr sum.case Let_def hf(2,3) w if_not_P[OF f1] using fits by (simp add: wp_Some)
        next
          case room: True
          then have f2: "\<not> \<not> lit_regenerated s \<le> unat cap" by simp
          note head = Inr sum.case Let_def hf(2,3) w if_not_P[OF f1] if_not_P[OF f2] ty
          have base: "n \<noteq> 0" "?hs \<le> unat n" "lit_regenerated s \<le> unat win" "lit_regenerated s \<le> 131072" using q fits by simp_all
          consider "lit_type s = 0" | "lit_type s = 1" | "2 \<le> lit_type s" by linarith
          then show ?thesis
          proof cases
            case 1
            show ?thesis
            proof (cases "?hs + lit_regenerated s \<le> unat n")
              case False
              then show ?thesis unfolding head using 1 by (simp add: wp_Some sec_def lit_section_def)
            next
              case True
              have "lit_raw s ?hs [0..<lit_regenerated s] dst = Some (take (lit_regenerated s) (drop ?hs s) @ drop (lit_regenerated s) dst)"
                using lit_raw_value[of 0 "lit_regenerated s" ?hs s dst] True n room d by simp
              moreover have "sec (take (lit_regenerated s) (drop ?hs s)) prev" using 1 base True n0 by (simp add: sec_def lit_section_def)
              moreover have "length (take (lit_regenerated s) (drop ?hs s)) = lit_regenerated s" using True n by simp
              ultimately show ?thesis unfolding head using 1 True room st d by (auto simp: wp_Some hf(4) uz lit_consumed_def)
            qed
          next
            case 2
            show ?thesis
            proof (cases "?hs + 1 \<le> unat n")
              case False
              then show ?thesis unfolding head using 2 by (simp add: wp_Some sec_def lit_section_def)
            next
              case True
              have "lit_rle (s ! ?hs) [0..<lit_regenerated s] dst = Some (replicate (lit_regenerated s) (s ! ?hs) @ drop (lit_regenerated s) dst)"
                using lit_rle_value[of 0 "lit_regenerated s" dst "s ! ?hs"] room d by simp
              moreover have "sec (replicate (lit_regenerated s) (s ! ?hs)) prev" using 2 base True n0 by (simp add: sec_def lit_section_def)
              moreover have "at s ?hs = Some (s ! ?hs)" using True n by (intro at_Some) simp
              ultimately show ?thesis unfolding head using 2 True room st d by (auto simp: wp_Some hf(4) uz lit_consumed_def)
            qed
          next
            case 3
            then have nt: "\<not> lit_type s = 0" "\<not> lit_type s = 1" by simp_all
            show ?thesis
            proof (cases "?hs + lit_payload s \<le> unat n")
              case False
              then show ?thesis unfolding head if_not_P[OF nt(1)] if_not_P[OF nt(2)] using nt by (simp add: wp_Some sec_def lit_section_def)
            next
              case True
              then have f3: "\<not> \<not> ?hs + lit_payload s \<le> unat n" by simp
              have le: "?hs + lit_payload s \<le> length s" using True n by simp
              have rd: "lit_regenerated s \<le> length dst" using room d by simp
              have secs: "sec out left \<longleftrightarrow> (\<exists>ws L used. left = Some (ws, L) \<and>
                  (if lit_type s = 2 then huf_described (drop ?hs s) (lit_payload s) 256 11 (ls_weights_scratch scr) ws L \<and>
                     used = huf_description_bytes (drop ?hs s)
                   else prev = Some (ws, L) \<and> used = 0) \<and>
                  (let ps = take (lit_payload s - used) (drop (?hs + used) s) in
                     (if lit_format s = 0 then huf_stream ws L (lit_regenerated s) ps else four_spec ws L (lit_regenerated s) ps) = Some out))" for out left
                using base nt True n0 by (simp add: sec_def lit_section_def)
              show ?thesis unfolding head if_not_P[OF nt(1)] if_not_P[OF nt(2)] if_not_P[OF f3]
              proof (rule wp_bind3[OF compressed_contract[OF st scr q(3) le 3 base(4) rd, folded secs]], goal_cases)
                case (1 res table' dst')
                have "drop (unat cap) dst' = drop (unat cap - lit_regenerated s) (drop (lit_regenerated s) dst')" using room by simp
                also have "\<dots> = drop (unat cap - lit_regenerated s) (drop (lit_regenerated s) dst)" using 1 by simp
                finally have fr: "drop (unat cap) dst' = drop (unat cap) dst" using room by simp
                show ?case using 1 fr room nt True by (cases res) (auto simp: wp_Some hf(4) uz lit_consumed_def)
              qed
            qed
          qed
        qed
      qed
    qed
  qed
qed

end
