(* ===== verification/Zstd_Block_Properties.thy ===== *)
theory Zstd_Block_Properties
  imports Zstd_Frame Zstd_Exec Zstd_Literals
begin

text \<open>
  The properties of the Zstandard headers, of the Huffman tree and of the execution of a block, each
  with a witness.
\<close>

section \<open>The headers\<close>

text \<open>C31: the frame header is parsed exactly. A frame that the subset takes gives the content size, the
  window, the header length and the two flags of the format; everything else is refused, as
  unsupported exactly when it is a skippable frame or a well-formed frame outside the subset, and as
  corrupt otherwise. The bytes read are those of the frame.\<close>

theorem zstd_frame_header_exact:
  assumes "unat n \<le> length s"
  shows "wp (zstd_parse_frame_header s n) (\<lambda>res. case res of
      Inl (st, _) \<Rightarrow> \<not> zh_accepted s (unat n) \<and>
        st = (if zh_skippable s (unat n) \<or> zh_declined s (unat n) then CUDEC_ERR_UNSUPPORTED else CUDEC_ERR_CORRUPT_INPUT)
    | Inr h \<Rightarrow> zh_accepted s (unat n) \<and> zh_fields s h)"
  using assms by (rule frame_header_contract)

theorem zstd_frame_header_exact_witness:
  "wp (zstd_parse_frame_header [0x28, 0xB5, 0x2F, 0xFD, 0x20, 5] 6) (\<lambda>res.
     case res of Inl _ \<Rightarrow> False | Inr h \<Rightarrow> unat (zf_content_size h) = 5 \<and> unat (zf_window_size h) = 5)"
proof -
  let ?s = "[0x28, 0xB5, 0x2F, 0xFD, 0x20, 5] :: u8 list"
  have b: "bit (0x20 :: u8) 5" "\<not> bit (0x20 :: u8) 3" by code_simp+
  have a: "zh_accepted ?s 6"
    by (simp add: zh_accepted_def zh_magic_def zh_descriptor_def zh_fcs_bytes_def zh_single_def zh_bytes_def b)
  have c: "zh_content ?s = 5" "zh_window ?s = 5"
    by (simp_all add: zh_content_def zh_window_def zh_descriptor_def zh_fcs_bytes_def zh_single_def b)
  show ?thesis by (rule wp_mono[OF zstd_frame_header_exact[of 6 ?s]]) (auto simp: a c zh_fields_def split: sum.splits)
qed

text \<open>C32: the block header is parsed exactly: it is accepted when the three bytes and the body they
  announce are there, the type is one the format defines and the size is within the window and the
  ceiling of a block; it then gives the fields of the format. Everything else is corrupt.\<close>

theorem zstd_block_header_exact:
  assumes "p + unat avail \<le> length s"
  shows "wp (zstd_parse_block_header s p avail win) (\<lambda>res. case res of
      Inl (st, _) \<Rightarrow> st = CUDEC_ERR_CORRUPT_INPUT \<and> \<not> zb_accepted s p (unat avail) (unat win)
    | Inr h \<Rightarrow> zb_accepted s p (unat avail) (unat win) \<and> zb_fields s p h)"
  using assms by (rule block_header_contract)

theorem zstd_block_header_exact_witness:
  "wp (zstd_parse_block_header [7, 0x23, 0, 0, 9] 1 4 8388608) (\<lambda>res.
     case res of Inl _ \<Rightarrow> False | Inr h \<Rightarrow> unat (zb_block_size h) = 4 \<and> zb_last_block h)"
proof -
  let ?s = "[7, 0x23, 0, 0, 9] :: u8 list"
  have r: "zb_raw ?s 1 = 35" by (simp add: zb_raw_def)
  have a: "zb_accepted ?s 1 4 8388608" "zb_size ?s 1 = 4"
    by (simp_all add: zb_accepted_def zb_type_def zb_size_def zb_body_def r[simplified])
  show ?thesis by (rule wp_mono[OF zstd_block_header_exact[of 1 4 ?s]]) (auto simp: a[simplified] zb_fields_def r[simplified] split: sum.splits)
qed

text \<open>C17: a block is executed exactly: the sum over its sequences and the copies after it give the bytes
  of the format, in which each sequence appends its literals and then copies its match from the
  output so far, overlapping or not, and the literals left over end the block. A block is refused
  only when the format gives it no meaning, or when its bytes do not fit the capacity or exceed the
  maximum of a block; nothing before the block is changed and nothing is written past its end.\<close>

theorem zstd_block_execution_exact:
  assumes "unat n < unat dcap" "unat dcap \<le> length dests" "unat n \<le> length qs" "unat n \<le> length offs"
    and "unat ls \<le> 131072" "unat bm \<le> 131072" "unat ls \<le> length lits" "unat cap \<le> length dst" "length dst < 2 ^ 64" "unat base \<le> unat cap"
  shows "wp (exec_whole_block qs n offs lits ls bm dests dcap win dst cap base) (\<lambda>(res, dst').
     let spec = block_bytes (unat win) (seqs_from qs offs 0 (unat n)) (take (unat ls) lits) (take (unat base) dst) in
     length dst' = length dst \<and> take (unat base) dst' = take (unat base) dst \<and>
     (case res of
        Inl (st, _) \<Rightarrow> st = CUDEC_ERR_CORRUPT_INPUT \<and> drop (min (unat cap) (unat base + unat bm)) dst' = drop (min (unat cap) (unat base + unat bm)) dst \<and>
          (\<forall>out. spec = Some out \<longrightarrow> unat cap < length out \<or> unat base + unat bm < length out)
      | Inr p' \<Rightarrow> unat p' \<le> unat cap \<and> unat p' \<le> unat base + unat bm \<and> spec = Some (take (unat p') dst') \<and> drop (unat p') dst' = drop (unat p') dst))"
  unfolding Let_def using assms by (rule whole_block_contract)

theorem zstd_block_execution_exact_witness:
  "wp (exec_whole_block [\<lparr>sq_literals_length = 2, sq_match_length = 3, sq_offset_value = 4\<rparr>] 1 [1] [65, 66, 67] 3 131072
       [0, 0] 2 1024 [9, 0, 0, 0, 0, 0, 0, 8] 8 1) (\<lambda>(res, dst').
     case res of Inl _ \<Rightarrow> False | Inr p' \<Rightarrow> unat p' = 7 \<and> dst' = [9, 65, 66, 66, 66, 66, 67, 8])"
proof -
  let ?q = "\<lparr>sq_literals_length = 2, sq_match_length = 3, sq_offset_value = 4\<rparr> :: zstd_sequence"
  let ?d = "[9, 0, 0, 0, 0, 0, 0, 8] :: u8 list"
  have s: "block_bytes 1024 (seqs_from [?q] [1] 0 1) [65, 66, 67] [9] = Some [9, 65, 66, 66, 66, 66, 67]" by code_simp
  have l: "length dst' = 8 \<Longrightarrow> k \<le> 8 \<Longrightarrow> Some [9, 65, 66, 66, 66, 66, 67 :: u8] = Some (take k dst') \<Longrightarrow> drop k dst' = drop k ?d \<Longrightarrow>
      k = 7 \<and> dst' = [9, 65, 66, 66, 66, 66, 67, 8]" for k dst'
  proof -
    assume a: "length dst' = 8" "k \<le> 8" "Some [9, 65, 66, 66, 66, 66, 67] = Some (take k dst')" "drop k dst' = drop k ?d"
    have k: "k = 7" using arg_cong[OF a(3), of "\<lambda>x. length (the x)"] a(1,2) by simp
    have "dst' = the (Some (take k dst')) @ drop k dst'" by simp
    then have "dst' = [9, 65, 66, 66, 66, 66, 67] @ drop 7 ?d" unfolding a(3)[symmetric] a(4) unfolding k by simp
    then show ?thesis by (simp add: k)
  qed
  note x = zstd_block_execution_exact[where n = 1 and dcap = 2 and dests = "[0, 0]" and qs = "[?q]" and offs = "[1]" and ls = 3
      and bm = 131072 and lits = "[65, 66, 67]" and cap = 8 and dst = ?d and base = 1 and win = 1024]
  have u: "unat (1 :: u64) = 1" "unat (3 :: u64) = 3" "unat (8 :: u64) = 8" "unat (131072 :: u64) = 131072" "unat (1 :: u32) = 1"
    "unat (2 :: u32) = 2" "unat (1024 :: u64) = 1024" "take 1 ?d = [9]" "length ?d = 8" "take 3 [65, 66, 67] = [65, 66, 67 :: u8]" by simp_all
  show ?thesis
    by (rule wp_mono[OF x]) (simp_all only: u s Let_def, auto dest: l split: sum.splits)
qed

section \<open>The Huffman tree\<close>

text \<open>C23: a tree description is read exactly. It is accepted when it spells weights, directly or through a
  distribution and its two-state run, that some last weight closes: the cells of all weights then fill
  the table of a depth within the bound, with two leaves at least at the deepest rank. What is
  given back is those weights, that depth, and the bytes the description occupies, all of them
  inside the section; the slots after the weights are kept. Everything else is corrupt.\<close>

theorem huf_description_exact:
  assumes "unat n \<le> length s" "maxc \<le> length weights" "2 \<le> maxc" "maxc \<le> 256" "0 < max_log" "max_log \<le> 12" "scratch_ok scr"
  shows "wp (zstd_huf_read_weights s n maxc max_log scr weights) (\<lambda>res. case res of
     Inl (st, _) \<Rightarrow> st = CUDEC_ERR_CORRUPT_INPUT \<and> \<not> (\<exists>ws L. huf_described s (unat n) maxc max_log scr ws L)
   | Inr t \<Rightarrow> huf_described s (unat n) maxc max_log scr (take (ht_count t) (ht_weights t)) (ht_table_log t) \<and>
       2 \<le> ht_count t \<and> ht_count t \<le> maxc \<and> unat (ht_consumed t) = huf_description_bytes s \<and> huf_description_bytes s \<le> unat n \<and>
       length (ht_weights t) = length weights \<and> drop (ht_count t) (ht_weights t) = drop (ht_count t) weights)"
  using assms by (rule read_weights_contract)

abbreviation blank_scratch :: zstd_huf_scratch where
  "blank_scratch \<equiv> \<lparr>ws_counts = replicate 13 0, ws_cells = replicate 64 \<lparr>fc_new_state = 0, fc_symbol = 0, fc_nb_bits = 0\<rparr>,
     ws_symbol_next = replicate 13 0\<rparr>"

theorem huf_description_exact_witness:
  "wp (zstd_huf_read_weights [128, 0x10] 2 8 11 blank_scratch [0, 0, 0, 0, 0, 0, 0, 0]) (\<lambda>res. case res of
     Inl _ \<Rightarrow> False | Inr t \<Rightarrow> unat (ht_consumed t) = 2)"
proof -
  let ?s = "[128, 0x10] :: u8 list"
  have n: "nibble ?s 0 = 1" by (simp add: nibble_def)
  have "spells_direct ?s 2 8 [1]" by (simp add: spells_direct_def Let_def n)
  moreover have "huf_tree [1, 1] 1" by (simp add: huf_tree_def leaf_def)
  ultimately have "huf_described ?s 2 8 11 blank_scratch [1, 1] 1" by (simp add: huf_described_def)
  moreover have "huf_description_bytes ?s = 2" by (simp add: huf_description_bytes_def)
  ultimately show ?thesis
    by (intro wp_mono[OF huf_description_exact[of 2 ?s 8 "[0, 0, 0, 0, 0, 0, 0, 0]" 11 blank_scratch]])
      (auto simp: scratch_ok_def split: sum.splits)
qed

text \<open>C24: the decoding table is built exactly when the weights fit: none above the depth, and their cells
  fill it. Every symbol then has its cells where the canonical order puts them, after those of
  all smaller weights and of the earlier symbols of its own, each with the length of its code;
  the cells past the table are kept. A request outside the format or a table too small for the depth is
  an invalid argument; weights that do not fit are corrupt.\<close>

theorem huf_table_exact:
  assumes "n \<le> length weights" "unat cap \<le> length cells" "length stale = 13"
  shows "wp (zstd_huf_build_dtable weights n L cells cap stale) (\<lambda>res. case res of
     Inl (st, _) \<Rightarrow> (if n = 0 \<or> 256 < n \<or> L = 0 \<or> 12 < L \<or> unat cap < 2 ^ L then st = CUDEC_ERR_INVALID_ARGUMENT
                    else st = CUDEC_ERR_CORRUPT_INPUT \<and> \<not> huf_fits (take n weights) L)
   | Inr cells' \<Rightarrow> n \<noteq> 0 \<and> n \<le> 256 \<and> L \<noteq> 0 \<and> L \<le> 12 \<and> 2 ^ L \<le> unat cap \<and> huf_fits (take n weights) L \<and>
       huf_table (take n weights) L cells' \<and> length cells' = length cells \<and> drop (2 ^ L) cells' = drop (2 ^ L) cells)"
  using assms by (rule build_table_contract)

theorem huf_table_exact_witness:
  "wp (zstd_huf_build_dtable [2, 1, 1] 3 2 (replicate 4 \<lparr>hc_symbol = 9, hc_nb_bits = 9\<rparr>) 4 (replicate 13 7)) (\<lambda>res. case res of
     Inl _ \<Rightarrow> False | Inr cells \<Rightarrow> huf_table [2, 1, 1] 2 cells)"
proof -
  have "huf_fits [2, 1, 1] 2" by (simp add: huf_fits_def leaf_def)
  then show ?thesis
    by (intro wp_mono[OF huf_table_exact[of 3 "[2, 1, 1]" 4 _ "replicate 13 7"]]) (auto split: sum.splits)
qed

text \<open>C29: the build accepts every vector of weights that fits a depth in bounds, into a table large
  enough, and what it has then written is a prefix code: every window of as many bits as the depth looks
  up one symbol that occurs; a symbol of weight w is looked up exactly when the leading depth + 1 - w
  bits of the window are its canonical code, and the lookup gives that length.\<close>

theorem huf_table_prefix_code:
  assumes "n \<le> length weights" "unat cap \<le> length cells" "length stale = 13"
  shows "wp (zstd_huf_build_dtable weights n L cells cap stale) (\<lambda>res. case res of
     Inl _ \<Rightarrow> \<not> (1 \<le> n \<and> n \<le> 256 \<and> 1 \<le> L \<and> L \<le> 12 \<and> 2 ^ L \<le> unat cap \<and> huf_fits (take n weights) L)
   | Inr tab \<Rightarrow> \<forall>i<2 ^ L. (\<exists>t<n. weights ! t \<noteq> 0 \<and> hc_symbol (tab ! i) = of_nat t) \<and>
       (\<forall>t<n. weights ! t \<noteq> 0 \<longrightarrow>
         (hc_symbol (tab ! i) = of_nat t \<longleftrightarrow> i div 2 ^ (unat (weights ! t) - 1) = huf_code (take n weights) t) \<and>
         (hc_symbol (tab ! i) = of_nat t \<longrightarrow> unat (hc_nb_bits (tab ! i)) = L + 1 - unat (weights ! t))))"
proof (rule wp_mono[OF build_table_contract[OF assms, of L]])
  fix res
  assume c: "case res of
     Inl (st, _) \<Rightarrow> (if n = 0 \<or> 256 < n \<or> L = 0 \<or> 12 < L \<or> unat cap < 2 ^ L then st = CUDEC_ERR_INVALID_ARGUMENT
                    else st = CUDEC_ERR_CORRUPT_INPUT \<and> \<not> huf_fits (take n weights) L)
   | Inr cells' \<Rightarrow> n \<noteq> 0 \<and> n \<le> 256 \<and> L \<noteq> 0 \<and> L \<le> 12 \<and> 2 ^ L \<le> unat cap \<and> huf_fits (take n weights) L \<and>
       huf_table (take n weights) L cells' \<and> length cells' = length cells \<and> drop (2 ^ L) cells' = drop (2 ^ L) cells"
  show "case res of
     Inl _ \<Rightarrow> \<not> (1 \<le> n \<and> n \<le> 256 \<and> 1 \<le> L \<and> L \<le> 12 \<and> 2 ^ L \<le> unat cap \<and> huf_fits (take n weights) L)
   | Inr tab \<Rightarrow> \<forall>i<2 ^ L. (\<exists>t<n. weights ! t \<noteq> 0 \<and> hc_symbol (tab ! i) = of_nat t) \<and>
       (\<forall>t<n. weights ! t \<noteq> 0 \<longrightarrow>
         (hc_symbol (tab ! i) = of_nat t \<longleftrightarrow> i div 2 ^ (unat (weights ! t) - 1) = huf_code (take n weights) t) \<and>
         (hc_symbol (tab ! i) = of_nat t \<longrightarrow> unat (hc_nb_bits (tab ! i)) = L + 1 - unat (weights ! t)))"
  proof (cases res)
    case (Inl e)
    then show ?thesis using c by (auto split: if_splits)
  next
    case (Inr tab)
    then have b: "huf_fits (take n weights) L" "huf_table (take n weights) L tab" "length (take n weights) \<le> 256" "L \<le> 12"
      and len: "length (take n weights) = n" using c assms(1) by simp_all
    show ?thesis unfolding Inr sum.case
    proof (intro allI impI conjI)
      fix i assume i: "i < (2 :: nat) ^ L"
      show "\<exists>t<n. weights ! t \<noteq> 0 \<and> hc_symbol (tab ! i) = of_nat t" using table_covers[OF b(1,2) i] by (auto simp: len)
      fix t assume t: "t < n" "weights ! t \<noteq> 0"
      show "hc_symbol (tab ! i) = of_nat t \<longleftrightarrow> i div 2 ^ (unat (weights ! t) - 1) = huf_code (take n weights) t"
        using table_decodes(1)[OF b i, of t] t by (simp only: len nth_take) simp
      show "unat (hc_nb_bits (tab ! i)) = L + 1 - unat (weights ! t)" if "hc_symbol (tab ! i) = of_nat t"
        using table_decodes(2)[OF b i, of t] t that by (simp only: len nth_take) simp
    qed
  qed
qed

theorem huf_table_prefix_code_witness:
  "wp (zstd_huf_build_dtable [2, 1, 1] 3 2 (replicate 4 \<lparr>hc_symbol = 9, hc_nb_bits = 9\<rparr>) 4 (replicate 13 7)) (\<lambda>res. case res of
     Inl _ \<Rightarrow> False | Inr tab \<Rightarrow> hc_symbol (tab ! 3) = 0 \<and> hc_nb_bits (tab ! 3) = 1)"
proof -
  have f: "huf_fits [2, 1, 1] 2" by (simp add: huf_fits_def leaf_def)
  have c: "huf_code [2, 1, 1] 0 = 1" by code_simp
  show ?thesis
  proof (rule wp_mono[OF huf_table_prefix_code], goal_cases)
    case (4 res)
    show ?case
    proof (cases res)
      case (Inr tab)
      have "hc_symbol (tab ! 3) = of_nat 0 \<and> unat (hc_nb_bits (tab ! 3)) = 1"
        using 4[unfolded Inr sum.case, THEN spec[of _ 3], simplified, THEN conjunct2, THEN spec[of _ 0]] c by simp
      then show ?thesis unfolding Inr by (simp add: word_unat_eq_iff)
    qed (use 4 f in simp)
  qed simp_all
qed


section \<open>The literals section\<close>

text \<open>C20: a literals section is decoded exactly. The four types give the literals of the format: the
  bytes themselves, one byte repeated, or one or four streams read through the prefix code of the
  section's own tree, or of the tree an earlier section left behind; the streams are read from the
  weights, not from the table, and end with their last symbol. The table afterwards is the one
  the format leaves behind, and the bytes consumed are those of the section. Only literals that fit a block but not the
  capacity are too many for the output; everything else the format gives no meaning is corrupt, and
  nothing past the capacity is written.\<close>

theorem zstd_literals_exact:
  assumes "unat n \<le> length s" "lit_state table prev" "scratch_ok (ls_weights_scratch scr)" "length (ls_weights scr) = 256"
    and "length stale = 13" "unat cap \<le> length dst"
  shows "wp (zstd_decode_literals s n win table scr stale dst cap) (\<lambda>(res, table', dst'). length dst' = length dst \<and> drop (unat cap) dst' = drop (unat cap) dst \<and>
     (case res of
        Inl (st, _) \<Rightarrow> if st = CUDEC_ERR_OUTPUT_TOO_SMALL then unat cap < lit_regenerated s \<and> lit_regenerated s \<le> min (unat win) 131072
          else st = CUDEC_ERR_CORRUPT_INPUT \<and> \<not> (\<exists>out left. lit_section s (unat n) (unat win) (ls_weights_scratch scr) prev out left)
      | Inr (produced, consumed) \<Rightarrow> unat produced = lit_regenerated s \<and> unat produced \<le> unat cap \<and> unat consumed = lit_consumed s \<and> unat consumed \<le> unat n \<and>
          drop (unat produced) dst' = drop (unat produced) dst \<and>
          (\<exists>left. lit_section s (unat n) (unat win) (ls_weights_scratch scr) prev (take (unat produced) dst') left \<and> lit_state table' left)))"
  using assms by (rule decode_literals_contract)

theorem zstd_literals_exact_witness:
  "wp (zstd_decode_literals [0x22, 0xC0, 0, 128, 0x10, 5] 6 1024 \<lparr>lt_cells = replicate 2048 \<lparr>hc_symbol = 0, hc_nb_bits = 0\<rparr>, lt_capacity = 2048,
       lt_table_log = 0, lt_present = False\<rparr> \<lparr>ls_weights_scratch = blank_scratch, ls_weights = replicate 256 0\<rparr> (replicate 13 7) [7, 7, 7, 7] 4)
     (\<lambda>(res, table', dst'). case res of Inl _ \<Rightarrow> False | Inr (produced, consumed) \<Rightarrow> unat produced = 2 \<and> unat consumed = 6)"
proof -
  let ?s = "[0x22, 0xC0, 0, 128, 0x10, 5] :: u8 list" and ?p = "[128, 0x10, 5] :: u8 list"
  let ?t = "\<lparr>lt_cells = replicate 2048 \<lparr>hc_symbol = 0, hc_nb_bits = 0\<rparr>, lt_capacity = 2048, lt_table_log = 0, lt_present = False\<rparr>"
  have ty: "lit_type ?s = 2" "lit_format ?s = 0" by (simp_all add: lit_type_def lit_format_def)
  have sz: "lit_header_bytes ?s = 3" "lit_regenerated ?s = 2" "lit_payload ?s = 3"
    by (simp_all add: lit_header_bytes_def lit_regenerated_def lit_payload_def lit_field_bits_def Let_def ty[simplified])
  have "nibble ?p 0 = 1" by (simp add: nibble_def)
  then have "spells_direct ?p 3 256 [1]" by (simp add: spells_direct_def Let_def)
  moreover have "huf_tree [1, 1] 1" by (simp add: huf_tree_def leaf_def)
  ultimately have d: "huf_described ?p 3 256 11 blank_scratch [1, 1] 1" by (simp add: huf_described_def)
  have b: "huf_description_bytes ?p = 2" by (simp add: huf_description_bytes_def)
  have st: "huf_stream [1, 1] 1 2 [5] = Some [0, 1]" by code_simp
  have "lit_section ?s 6 1024 blank_scratch None [0, 1] (Some ([1, 1], 1))"
    unfolding lit_section_def sz ty using d b st by (auto simp: Let_def)
  then have sec: "\<exists>out left. lit_section ?s (unat (6 :: u64)) (unat (1024 :: u64)) blank_scratch None out left" by auto
  have lc: "lit_consumed ?s = 6" by (simp add: lit_consumed_def sz ty)
  have state: "lit_state ?t None" by (simp add: lit_state_def)
  note x = zstd_literals_exact[where n = 6 and s = ?s and table = ?t and prev = None and scr = "\<lparr>ls_weights_scratch = blank_scratch, ls_weights = replicate 256 0\<rparr>"
      and stale = "replicate 13 7" and cap = 4 and dst = "[7, 7, 7, 7]" and win = 1024]
  have f: "(6 :: u64) = 6" by simp
  show ?thesis
  proof (rule wp_mono[OF x], goal_cases)
    case (7 y)
    then show ?case using sec sz lc by (cases y) (auto split: sum.splits if_splits)
  qed (simp_all add: state scratch_ok_def)
qed

end
