(* ===== verification/Zstd_Seq.thy ===== *)
theory Zstd_Seq
  imports Zstd_Fse_Core Zstd_Exec
begin

text \<open>
  The sequences section of a block, \<open>src/zstd_seq.h\<close>: the section header and the tables of the three
  fields in their four modes. A table is passed and returned; the counts and the symbol states of the
  scratch are arguments.
\<close>

definition kZstdSeqFieldLitLen :: nat where "kZstdSeqFieldLitLen = 0"
definition kZstdSeqFieldOffset :: nat where "kZstdSeqFieldOffset = 1"
definition kZstdSeqFieldMatchLen :: nat where "kZstdSeqFieldMatchLen = 2"
definition kZstdSeqModePredefined :: nat where "kZstdSeqModePredefined = 0"
definition kZstdSeqModeRle :: nat where "kZstdSeqModeRle = 1"
definition kZstdSeqModeCompressed :: nat where "kZstdSeqModeCompressed = 2"
definition kZstdSeqModeRepeat :: nat where "kZstdSeqModeRepeat = 3"
definition kZstdSeqLitLenSymbolCount :: nat where "kZstdSeqLitLenSymbolCount = 36"
definition kZstdSeqMatchLenSymbolCount :: nat where "kZstdSeqMatchLenSymbolCount = 53"
definition kZstdSeqOffsetSymbolCount :: nat where "kZstdSeqOffsetSymbolCount = 32"
definition kZstdSeqOffsetPredefinedCount :: nat where "kZstdSeqOffsetPredefinedCount = 29"
definition kZstdSeqMaxAlphabet :: nat where "kZstdSeqMaxAlphabet = 53"
definition kZstdSeqLitLenPredefinedLog :: nat where "kZstdSeqLitLenPredefinedLog = 6"
definition kZstdSeqOffsetPredefinedLog :: nat where "kZstdSeqOffsetPredefinedLog = 5"
definition kZstdSeqMatchLenPredefinedLog :: nat where "kZstdSeqMatchLenPredefinedLog = 6"
definition kZstdSeqMinMatchLength :: nat where "kZstdSeqMinMatchLength = 3"
definition kZstdSeqCountTwoByteMin :: u32 where "kZstdSeqCountTwoByteMin = 128"
definition kZstdSeqCountThreeByteMark :: u32 where "kZstdSeqCountThreeByteMark = 255"
definition kZstdSeqCountThreeByteBias :: u32 where "kZstdSeqCountThreeByteBias = 0x7F00"
definition kZstdSeqLitLenDirectCodes :: nat where "kZstdSeqLitLenDirectCodes = 16"
definition kZstdSeqMatchLenDirectCodes :: nat where "kZstdSeqMatchLenDirectCodes = 32"

lemmas seq_consts = kZstdSeqFieldLitLen_def kZstdSeqFieldOffset_def kZstdSeqFieldMatchLen_def kZstdSeqModePredefined_def
  kZstdSeqModeRle_def kZstdSeqModeCompressed_def kZstdSeqModeRepeat_def kZstdSeqLitLenSymbolCount_def
  kZstdSeqMatchLenSymbolCount_def kZstdSeqOffsetSymbolCount_def kZstdSeqOffsetPredefinedCount_def kZstdSeqMaxAlphabet_def
  kZstdSeqLitLenPredefinedLog_def kZstdSeqOffsetPredefinedLog_def kZstdSeqMatchLenPredefinedLog_def kZstdSeqMinMatchLength_def
  kZstdSeqCountTwoByteMin_def kZstdSeqCountThreeByteMark_def kZstdSeqCountThreeByteBias_def kZstdSeqLitLenDirectCodes_def
  kZstdSeqMatchLenDirectCodes_def

datatype zstd_seq_reject =
    kZstdSeqRejectNone
  | kZstdSeqRejectBadRequest
  | kZstdSeqRejectCountTruncated
  | kZstdSeqRejectCountTooLarge
  | kZstdSeqRejectBlockNotConsumed
  | kZstdSeqRejectModesTruncated
  | kZstdSeqRejectModesReserved
  | kZstdSeqRejectRleTruncated
  | kZstdSeqRejectSymbolPastMax
  | kZstdSeqRejectDecodedSymbolPastMax
  | kZstdSeqRejectTableDescription
  | kZstdSeqRejectRepeatWithoutTable
  | kZstdSeqRejectBitstreamMissing
  | kZstdSeqRejectStateInitTruncated
  | kZstdSeqRejectStateOutOfTable
  | kZstdSeqRejectSequenceTruncated
  | kZstdSeqRejectBitstreamNotConsumed
  | kZstdSeqRejectTableCapacity

type_synonym seq_error = "cudec_status \<times> zstd_seq_reject"

definition zstd_seq_field_symbol_max :: "nat \<Rightarrow> nat" where
  "zstd_seq_field_symbol_max field =
     (if field = kZstdSeqFieldLitLen then kZstdSeqLitLenSymbolCount - 1
      else if field = kZstdSeqFieldOffset then kZstdSeqOffsetSymbolCount - 1
      else kZstdSeqMatchLenSymbolCount - 1)"

definition zstd_seq_field_accuracy_log_max :: "nat \<Rightarrow> nat" where
  "zstd_seq_field_accuracy_log_max field =
     (if field = kZstdSeqFieldLitLen then kZstdLitLenAccuracyLogMax
      else if field = kZstdSeqFieldOffset then kZstdOffsetAccuracyLogMax
      else kZstdMatchLenAccuracyLogMax)"

definition zstd_seq_litlen_extra_bits :: "nat \<Rightarrow> nat" where
  "zstd_seq_litlen_extra_bits code =
     (let middle = [1, 1, 1, 1, 2, 2, 3, 3, 4] in
      if code < kZstdSeqLitLenDirectCodes then 0
      else if code \<ge> kZstdSeqLitLenDirectCodes + length middle then code - 19
      else middle ! (code - kZstdSeqLitLenDirectCodes))"

definition zstd_seq_matchlen_extra_bits :: "nat \<Rightarrow> nat" where
  "zstd_seq_matchlen_extra_bits code =
     (let middle = [1, 1, 1, 1, 2, 2, 3, 3, 4, 4, 5] in
      if code < kZstdSeqMatchLenDirectCodes then 0
      else if code \<ge> kZstdSeqMatchLenDirectCodes + length middle then code - 36
      else middle ! (code - kZstdSeqMatchLenDirectCodes))"

definition zstd_seq_litlen_baseline :: "nat \<Rightarrow> u32" where
  "zstd_seq_litlen_baseline code = foldl (\<lambda>base below. base + push_bit (zstd_seq_litlen_extra_bits below) 1) 0 [0..<code]"

definition zstd_seq_matchlen_baseline :: "nat \<Rightarrow> u32" where
  "zstd_seq_matchlen_baseline code =
     foldl (\<lambda>base below. base + push_bit (zstd_seq_matchlen_extra_bits below) 1) (of_nat kZstdSeqMinMatchLength) [0..<code]"

record zstd_seq_table =
  sqt_cells :: "zstd_fse_cell list"
  sqt_capacity :: u32
  sqt_table_size :: u32
  sqt_accuracy_log :: nat
  sqt_present :: bool

record zstd_seq_scratch =
  sqs_counts :: "int list"
  sqs_symbol_next :: "u16 list"

fun put_counts :: "int list \<Rightarrow> nat \<Rightarrow> int list \<Rightarrow> int list option" where
  "put_counts [] symbol counts = Some counts"
| "put_counts (c # cs) symbol counts = do { counts \<leftarrow> put counts symbol c; put_counts cs (symbol + 1) counts }"

definition litlen_predefined :: "int list" where
  "litlen_predefined = [
     4, 3, 2, 2, 2, 2, 2, 2, 2, 2, 2, 2, 2, 1, 1, 1, 2, 2,
     2, 2, 2, 2, 2, 2, 2, 3, 2, 1, 1, 1, 1, 1, -1, -1, -1, -1]"

definition offset_predefined :: "int list" where
  "offset_predefined = [
     1, 1, 1, 1, 1, 1, 2, 2, 2, 1, 1, 1, 1, 1,
     1, 1, 1, 1, 1, 1, 1, 1, 1, 1, -1, -1, -1, -1, -1]"

definition matchlen_predefined :: "int list" where
  "matchlen_predefined = [
     1, 4, 3, 2, 2, 2, 2, 2, 2, 1, 1, 1, 1, 1, 1, 1, 1, 1,
     1, 1, 1, 1, 1, 1, 1, 1, 1, 1, 1, 1, 1, 1, 1, 1, 1, 1,
     1, 1, 1, 1, 1, 1, 1, 1, 1, 1, -1, -1, -1, -1, -1, -1, -1]"

text \<open>The counts, the highest symbol, the accuracy log.\<close>

definition zstd_seq_predefined_counts :: "nat \<Rightarrow> int list \<Rightarrow> (int list \<times> nat \<times> nat) option" where
  "zstd_seq_predefined_counts field counts =
     (if field = kZstdSeqFieldLitLen then do {
        counts \<leftarrow> put_counts litlen_predefined 0 counts;
        Some (counts, kZstdSeqLitLenSymbolCount - 1, kZstdSeqLitLenPredefinedLog)
      }
      else if field = kZstdSeqFieldOffset then do {
        counts \<leftarrow> put_counts offset_predefined 0 counts;
        Some (counts, kZstdSeqOffsetPredefinedCount - 1, kZstdSeqOffsetPredefinedLog)
      }
      else do {
        counts \<leftarrow> put_counts matchlen_predefined 0 counts;
        Some (counts, kZstdSeqMatchLenSymbolCount - 1, kZstdSeqMatchLenPredefinedLog)
      })"

record zstd_seq_section_header =
  sh_sequence_count :: u32
  sh_litlen_mode :: nat
  sh_offset_mode :: nat
  sh_matchlen_mode :: nat

section \<open>The section header\<close>

text \<open>The number of sequences, in one, two or three bytes, and the bytes it took.\<close>

definition seq_count :: "u8 list \<Rightarrow> u64 \<Rightarrow> (seq_error + u32 \<times> u64) option" where
  "seq_count s n = do {
     b0 \<leftarrow> at s 0;
     let leading = (ucast b0 :: u32);
     if leading < kZstdSeqCountTwoByteMin then Some (Inr (leading, 1))
     else if leading < kZstdSeqCountThreeByteMark then
       (if n < 2 then Some (Inl (CUDEC_ERR_CORRUPT_INPUT, kZstdSeqRejectCountTruncated))
        else do {
          b1 \<leftarrow> at s 1;
          Some (Inr (push_bit 8 (leading - kZstdSeqCountTwoByteMin) + ucast b1, 2))
        })
     else if n < 3 then Some (Inl (CUDEC_ERR_CORRUPT_INPUT, kZstdSeqRejectCountTruncated))
     else do {
       b1 \<leftarrow> at s 1; b2 \<leftarrow> at s 2;
       Some (Inr (ucast b1 + push_bit 8 (ucast b2) + kZstdSeqCountThreeByteBias, 3))
     }
   }"

definition zstd_parse_seq_section_header :: "u8 list \<Rightarrow> u64 \<Rightarrow> u64 \<Rightarrow> (seq_error + zstd_seq_section_header \<times> u64) option" where
  "zstd_parse_seq_section_header s n block_size_max =
     (if n = 0 then Some (Inl (CUDEC_ERR_CORRUPT_INPUT, kZstdSeqRejectCountTruncated))
      else do {
        counted \<leftarrow> seq_count s n;
        case counted of
          Inl e \<Rightarrow> Some (Inl e)
        | Inr (number, consumed) \<Rightarrow>
            if number = 0 then
              (if n \<noteq> consumed then Some (Inl (CUDEC_ERR_CORRUPT_INPUT, kZstdSeqRejectBlockNotConsumed))
               else Some (Inr (\<lparr>sh_sequence_count = 0, sh_litlen_mode = kZstdSeqModePredefined, sh_offset_mode = kZstdSeqModePredefined,
                 sh_matchlen_mode = kZstdSeqModePredefined\<rparr>, consumed)))
            else if ucast number > block_size_max div of_nat kZstdSeqMinMatchLength
            then Some (Inl (CUDEC_ERR_CORRUPT_INPUT, kZstdSeqRejectCountTooLarge))
            else if n \<le> consumed then Some (Inl (CUDEC_ERR_CORRUPT_INPUT, kZstdSeqRejectModesTruncated))
            else do {
              modes \<leftarrow> at s (unat consumed);
              if modes AND 3 \<noteq> 0 then Some (Inl (CUDEC_ERR_CORRUPT_INPUT, kZstdSeqRejectModesReserved))
              else Some (Inr (\<lparr>sh_sequence_count = number, sh_litlen_mode = unat (drop_bit 6 modes AND 3),
                sh_offset_mode = unat (drop_bit 4 modes AND 3), sh_matchlen_mode = unat (drop_bit 2 modes AND 3)\<rparr>, consumed + 1))
            }
      })"

section \<open>The table of a field\<close>

definition seq_build :: "(int list \<times> nat \<times> nat) \<Rightarrow> u64 \<Rightarrow> zstd_seq_scratch \<Rightarrow> zstd_seq_table \<Rightarrow>
    ((seq_error + u64) \<times> zstd_seq_table) option" where
  "seq_build described consumed scr table = (case described of (counts, symbol_max, accuracy_log) \<Rightarrow> do {
     built \<leftarrow> zstd_fse_build_dtable counts symbol_max accuracy_log (sqt_cells table) (sqt_capacity table) (sqs_symbol_next scr);
     case built of
       Inl (st, _) \<Rightarrow> Some (Inl (st, kZstdSeqRejectTableDescription), table)
     | Inr cells \<Rightarrow> Some (Inr consumed, table\<lparr>sqt_cells := cells, sqt_table_size := push_bit accuracy_log 1,
         sqt_accuracy_log := accuracy_log, sqt_present := True\<rparr>)
   })"

definition zstd_seq_load_table :: "nat \<Rightarrow> nat \<Rightarrow> u8 list \<Rightarrow> nat \<Rightarrow> u64 \<Rightarrow> zstd_seq_scratch \<Rightarrow> zstd_seq_table \<Rightarrow>
    ((seq_error + u64) \<times> zstd_seq_table) option" where
  "zstd_seq_load_table field mode s p n scr table =
     (if field > kZstdSeqFieldMatchLen \<or> mode > kZstdSeqModeRepeat
      then Some (Inl (CUDEC_ERR_INVALID_ARGUMENT, kZstdSeqRejectBadRequest), table)
      else do {
        let symbol_max = zstd_seq_field_symbol_max field;
        if mode = kZstdSeqModeRepeat then
          (if \<not> sqt_present table then Some (Inl (CUDEC_ERR_CORRUPT_INPUT, kZstdSeqRejectRepeatWithoutTable), table)
           else Some (Inr 0, table))
        else if mode = kZstdSeqModeRle then
          (if n = 0 then Some (Inl (CUDEC_ERR_CORRUPT_INPUT, kZstdSeqRejectRleTruncated), table)
           else if sqt_capacity table = 0 then Some (Inl (CUDEC_ERR_INVALID_ARGUMENT, kZstdSeqRejectBadRequest), table)
           else do {
             symbol \<leftarrow> at s p;
             if unat symbol > symbol_max then Some (Inl (CUDEC_ERR_CORRUPT_INPUT, kZstdSeqRejectSymbolPastMax), table)
             else do {
               cells \<leftarrow> put (sqt_cells table) 0 \<lparr>fc_new_state = 0, fc_symbol = symbol, fc_nb_bits = 0\<rparr>;
               Some (Inr 1, table\<lparr>sqt_cells := cells, sqt_table_size := 1, sqt_accuracy_log := 0, sqt_present := True\<rparr>)
             }
           })
        else if mode = kZstdSeqModePredefined then do {
          described \<leftarrow> zstd_seq_predefined_counts field (sqs_counts scr);
          seq_build described 0 scr table
        }
        else do {
          res \<leftarrow> zstd_fse_read_ncount (drop p s) (unat n) symbol_max (zstd_seq_field_accuracy_log_max field) (sqs_counts scr);
          case res of
            Inl (st, rej) \<Rightarrow> Some (Inl (st, if rej = kZstdFseRejectSymbolPastMax then kZstdSeqRejectSymbolPastMax
                else kZstdSeqRejectTableDescription), table)
          | Inr d \<Rightarrow> seq_build (fd_counts d, fd_max_symbol d, fd_accuracy_log d) (of_nat (fd_consumed d)) scr table
        }
      })"

section \<open>The header is parsed exactly\<close>

definition sec_count_bytes :: "u8 list \<Rightarrow> nat" where
  "sec_count_bytes s = (if unat (s ! 0) < 128 then 1 else if unat (s ! 0) < 255 then 2 else 3)"

definition sec_count :: "u8 list \<Rightarrow> nat" where
  "sec_count s = (if unat (s ! 0) < 128 then unat (s ! 0)
     else if unat (s ! 0) < 255 then (unat (s ! 0) - 128) * 256 + unat (s ! 1)
     else unat (s ! 1) + unat (s ! 2) * 256 + 0x7F00)"

definition sec_modes :: "u8 list \<Rightarrow> nat" where
  "sec_modes s = unat (s ! sec_count_bytes s)"

definition sec_accepted :: "u8 list \<Rightarrow> nat \<Rightarrow> nat \<Rightarrow> bool" where
  "sec_accepted s n bm \<longleftrightarrow> n \<noteq> 0 \<and> sec_count_bytes s \<le> n \<and>
     (if sec_count s = 0 then n = sec_count_bytes s else 3 * sec_count s \<le> bm \<and> sec_count_bytes s < n \<and> sec_modes s mod 4 = 0)"

definition sec_bytes :: "u8 list \<Rightarrow> nat" where
  "sec_bytes s = (if sec_count s = 0 then sec_count_bytes s else sec_count_bytes s + 1)"

definition sec_fields :: "u8 list \<Rightarrow> zstd_seq_section_header \<Rightarrow> bool" where
  "sec_fields s h \<longleftrightarrow> unat (sh_sequence_count h) = sec_count s \<and>
     (sec_count s \<noteq> 0 \<longrightarrow> sh_litlen_mode h = sec_modes s div 64 \<and> sh_offset_mode h = sec_modes s div 16 mod 4 \<and>
        sh_matchlen_mode h = sec_modes s div 4 mod 4)"

lemma sec_count_bytes_small: "1 \<le> sec_count_bytes s" "sec_count_bytes s \<le> 3"
  by (simp_all add: sec_count_bytes_def)

lemma sec_count_small: "sec_count s < 131072"
  using unat_u8_less[of "s ! 0"] unat_u8_less[of "s ! 1"] unat_u8_less[of "s ! 2"] by (auto simp: sec_count_def)

lemma unat_push_8: "unat (push_bit 8 x :: u32) = unat x * 256" if "unat x < 65536" for x :: u32
proof -
  have "push_bit 8 x = x * 256" by (simp add: push_bit_eq_mult)
  then show ?thesis using that by (simp only: unat_mult_lem[THEN iffD1]) (subst unat_mult_lem[THEN iffD1], simp_all)
qed

lemma seq_count_contract:
  assumes n: "unat n \<le> length s" "n \<noteq> 0"
  shows "wp (seq_count s n) (\<lambda>res. case res of
     Inl (st, _) \<Rightarrow> st = CUDEC_ERR_CORRUPT_INPUT \<and> unat n < sec_count_bytes s
   | Inr (c, k) \<Rightarrow> unat c = sec_count s \<and> unat k = sec_count_bytes s \<and> sec_count_bytes s \<le> unat n)"
proof -
  have n0: "0 < unat n" using n(2) by (simp add: unat_gt_0)
  have a0: "at s 0 = Some (s ! 0)" using n n0 by (intro at_Some) linarith
  have c: "(ucast (s ! 0) :: u32) < kZstdSeqCountTwoByteMin \<longleftrightarrow> unat (s ! 0) < 128"
    "(ucast (s ! 0) :: u32) < kZstdSeqCountThreeByteMark \<longleftrightarrow> unat (s ! 0) < 255" by (simp_all add: w2n seq_consts)
  have l: "n < 2 \<longleftrightarrow> unat n < 2" "n < 3 \<longleftrightarrow> unat n < 3" by (simp_all add: w2n)
  show ?thesis unfolding seq_count_def a0 bind.bind_lunit Let_def c l
  proof (intro wp_ifI, goal_cases)
    case 1
    then show ?case using n0 by (simp add: wp_Some sec_count_def sec_count_bytes_def Suc_le_eq)
  next
    case 2
    then show ?case by (simp add: wp_Some sec_count_bytes_def)
  next
    case 3
    have u: "unat ((ucast (s ! 0) :: u32) - kZstdSeqCountTwoByteMin) = unat (s ! 0) - 128"
      using 3 by (simp add: unat_minus seq_consts)
    have "unat (push_bit 8 ((ucast (s ! 0) :: u32) - kZstdSeqCountTwoByteMin) + ucast (s ! 1)) = (unat (s ! 0) - 128) * 256 + unat (s ! 1)"
      using 3 u unat_push_8[of "(ucast (s ! 0) :: u32) - kZstdSeqCountTwoByteMin"] unat_u8_less[of "s ! 1"]
      by (subst unat_plus) auto
    then show ?case using 3 n by (auto simp: wp_rules sec_count_def sec_count_bytes_def)
  next
    case 4
    then show ?case by (simp add: wp_Some sec_count_bytes_def)
  next
    case 5
    have p: "unat (push_bit 8 (ucast (s ! 2)) :: u32) = unat (s ! 2) * 256"
      using unat_push_8[of "ucast (s ! 2)"] unat_u8_less[of "s ! 2"] by simp
    have "unat (ucast (s ! 1) + push_bit 8 (ucast (s ! 2)) :: u32) = unat (s ! 1) + unat (s ! 2) * 256"
      using p unat_u8_less[of "s ! 1"] unat_u8_less[of "s ! 2"] by (subst unat_plus) auto
    then have "unat (ucast (s ! 1) + push_bit 8 (ucast (s ! 2)) + kZstdSeqCountThreeByteBias :: u32) = unat (s ! 1) + unat (s ! 2) * 256 + 0x7F00"
      using unat_u8_less[of "s ! 1"] unat_u8_less[of "s ! 2"] by (subst unat_plus) (auto simp: seq_consts)
    then show ?case using 5 n by (auto simp: wp_rules sec_count_def sec_count_bytes_def)
  qed
qed

lemma byte_mod_4: "unat (x AND 3 :: u8) = unat x mod 4"
  using unat_and_mask[of x 2] by (simp add: mask_eq_exp_minus_1)

lemma seq_header_contract:
  assumes n: "unat n \<le> length s"
  shows "wp (zstd_parse_seq_section_header s n bm) (\<lambda>res. case res of
     Inl (st, _) \<Rightarrow> st = CUDEC_ERR_CORRUPT_INPUT \<and> \<not> sec_accepted s (unat n) (unat bm)
   | Inr (h, k) \<Rightarrow> sec_accepted s (unat n) (unat bm) \<and> sec_fields s h \<and> unat k = sec_bytes s \<and> sec_bytes s \<le> unat n)"
proof (cases "n = 0")
  case True
  then show ?thesis by (simp add: zstd_parse_seq_section_header_def wp_Some sec_accepted_def)
next
  case False
  then have n0: "unat n \<noteq> 0" by (simp add: unat_eq_0)
  show ?thesis unfolding zstd_parse_seq_section_header_def if_not_P[OF False]
  proof (rule wp_bindI[OF seq_count_contract[OF n False]], goal_cases)
    case (1 x)
    show ?case
    proof (cases x)
      case (Inl e)
      then show ?thesis using 1 by (cases e) (simp add: wp_Some sec_accepted_def)
    next
      case (Inr y)
      obtain c k where y: "y = (c, k)" by (cases y)
      have q: "unat c = sec_count s" "unat k = sec_count_bytes s" "sec_count_bytes s \<le> unat n" using 1 Inr y by simp_all
      have t: "c = 0 \<longleftrightarrow> sec_count s = 0" "n \<noteq> k \<longleftrightarrow> unat n \<noteq> sec_count_bytes s" "n \<le> k \<longleftrightarrow> unat n \<le> sec_count_bytes s"
        by (simp_all add: word_unat_eq_iff w2n q)
      have "unat (bm div of_nat kZstdSeqMinMatchLength) = unat bm div 3" by (simp add: unat_div seq_consts)
      then have big: "ucast c > bm div of_nat kZstdSeqMinMatchLength \<longleftrightarrow> \<not> 3 * sec_count s \<le> unat bm"
        by (auto simp: w2n q)
      show ?thesis
      proof (cases "sec_count s = 0")
        case True
        then show ?thesis unfolding Inr y sum.case prod.case t if_P[OF True]
          using q n0 by (simp add: wp_Some sec_accepted_def sec_fields_def sec_bytes_def)
      next
        case nz: False
        show ?thesis
        proof (cases "3 * sec_count s \<le> unat bm \<and> sec_count_bytes s < unat n")
          case False
          then show ?thesis unfolding Inr y sum.case prod.case t if_not_P[OF nz] big using nz by (auto simp: wp_Some sec_accepted_def)
        next
          case True
          then have f: "\<not> \<not> 3 * sec_count s \<le> unat bm" "\<not> unat n \<le> sec_count_bytes s" by simp_all
          have am: "at s (unat k) = Some (s ! sec_count_bytes s)" unfolding q(2) using True n by (intro at_Some) linarith
          have m0: "s ! sec_count_bytes s AND 3 \<noteq> 0 \<longleftrightarrow> sec_modes s mod 4 \<noteq> 0" by (simp add: word_unat_eq_iff byte_mod_4 sec_modes_def)
          have "unat (s ! sec_count_bytes s) < 256" by (rule unat_u8_less)
          then have ms: "unat (drop_bit 6 (s ! sec_count_bytes s) AND 3) = sec_modes s div 64"
            "unat (drop_bit 4 (s ! sec_count_bytes s) AND 3) = sec_modes s div 16 mod 4"
            "unat (drop_bit 2 (s ! sec_count_bytes s) AND 3) = sec_modes s div 4 mod 4"
            by (simp_all add: byte_mod_4 unat_drop_bit sec_modes_def)
          have k1: "unat (k + 1) = sec_count_bytes s + 1" using q(2) sec_count_bytes_small(2)[of s] by (subst unat_plus) simp_all
          show ?thesis unfolding Inr y sum.case prod.case t if_not_P[OF nz] big if_not_P[OF f(1)] if_not_P[OF f(2)] am bind.bind_lunit m0
            using nz True n0 q k1 ms by (auto simp: wp_Some sec_accepted_def sec_fields_def sec_bytes_def)
        qed
      qed
    qed
  qed
qed

section \<open>The codes of the format\<close>

text \<open>The tables of RFC 8878, section 3.1.1.3.2.1.1: where a code begins, and how many bits follow it.\<close>

definition rfc_litlen :: "(u32 \<times> nat) list" where
  "rfc_litlen = map (\<lambda>c. (of_nat c, 0)) [0..<16] @ [(16, 1), (18, 1), (20, 1), (22, 1), (24, 2), (28, 2), (32, 3), (40, 3), (48, 4), (64, 6),
     (128, 7), (256, 8), (512, 9), (1024, 10), (2048, 11), (4096, 12), (8192, 13), (16384, 14), (32768, 15), (65536, 16)]"

definition rfc_matchlen :: "(u32 \<times> nat) list" where
  "rfc_matchlen = map (\<lambda>c. (of_nat c + 3, 0)) [0..<32] @ [(35, 1), (37, 1), (39, 1), (41, 1), (43, 2), (47, 2), (51, 3), (59, 3), (67, 4), (83, 4),
     (99, 5), (131, 7), (259, 8), (515, 9), (1027, 10), (2051, 11), (4099, 12), (8195, 13), (16387, 14), (32771, 15), (65539, 16)]"

lemma litlen_codes: "c < 36 \<Longrightarrow> (zstd_seq_litlen_baseline c, zstd_seq_litlen_extra_bits c) = rfc_litlen ! c"
proof -
  have "list_all (\<lambda>c. (zstd_seq_litlen_baseline c, zstd_seq_litlen_extra_bits c) = rfc_litlen ! c) [0..<36]" by code_simp
  then show "c < 36 \<Longrightarrow> ?thesis" by (simp add: list_all_iff)
qed

lemma matchlen_codes: "c < 53 \<Longrightarrow> (zstd_seq_matchlen_baseline c, zstd_seq_matchlen_extra_bits c) = rfc_matchlen ! c"
proof -
  have "list_all (\<lambda>c. (zstd_seq_matchlen_baseline c, zstd_seq_matchlen_extra_bits c) = rfc_matchlen ! c) [0..<53]" by code_simp
  then show "c < 53 \<Longrightarrow> ?thesis" by (simp add: list_all_iff)
qed

lemma extra_small: "c < 36 \<Longrightarrow> zstd_seq_litlen_extra_bits c \<le> 16" "c < 53 \<Longrightarrow> zstd_seq_matchlen_extra_bits c \<le> 16"
proof -
  have "list_all (\<lambda>c. zstd_seq_litlen_extra_bits c \<le> 16) [0..<36]" "list_all (\<lambda>c. zstd_seq_matchlen_extra_bits c \<le> 16) [0..<53]" by code_simp+
  then show "c < 36 \<Longrightarrow> zstd_seq_litlen_extra_bits c \<le> 16" "c < 53 \<Longrightarrow> zstd_seq_matchlen_extra_bits c \<le> 16" by (simp_all add: list_all_iff)
qed

section \<open>The table of a field, in its four modes\<close>

definition field_table :: "nat \<Rightarrow> zstd_seq_table \<Rightarrow> bool" where
  "field_table mx table \<longleftrightarrow> sqt_present table \<and> sqt_accuracy_log table \<le> 9 \<and>
     sqt_table_size table = push_bit (sqt_accuracy_log table) 1 \<and> 2 ^ sqt_accuracy_log table \<le> unat (sqt_capacity table) \<and>
     unat (sqt_capacity table) \<le> length (sqt_cells table) \<and>
     (\<forall>c<2 ^ sqt_accuracy_log table. cell_symbol (sqt_cells table) c \<le> mx \<and>
        unat (fc_nb_bits (sqt_cells table ! c)) \<le> sqt_accuracy_log table \<and>
        unat (fc_new_state (sqt_cells table ! c)) + 2 ^ unat (fc_nb_bits (sqt_cells table ! c)) \<le> 2 ^ sqt_accuracy_log table)"

text \<open>What a caller keeps of a table between blocks.\<close>

definition table_slot :: "nat \<Rightarrow> zstd_seq_table \<Rightarrow> bool" where
  "table_slot mx table \<longleftrightarrow> 512 \<le> unat (sqt_capacity table) \<and> unat (sqt_capacity table) \<le> length (sqt_cells table) \<and>
     (sqt_present table \<longrightarrow> field_table mx table)"

definition seq_scratch_ok :: "zstd_seq_scratch \<Rightarrow> bool" where
  "seq_scratch_ok scr \<longleftrightarrow> length (sqs_counts scr) = 53 \<and> length (sqs_symbol_next scr) = 53"

definition predefined :: "nat \<Rightarrow> int list \<times> nat" where
  "predefined field = (if field = 0 then (litlen_predefined, 6) else if field = 1 then (offset_predefined, 5) else (matchlen_predefined, 6))"

definition with_table :: "zstd_seq_table \<Rightarrow> nat \<Rightarrow> zstd_fse_cell list \<Rightarrow> zstd_seq_table" where
  "with_table table L cells = table\<lparr>sqt_cells := cells, sqt_table_size := push_bit L 1, sqt_accuracy_log := L, sqt_present := True\<rparr>"

text \<open>The table a mode names, and the bytes of its description.\<close>

definition table_named :: "nat \<Rightarrow> nat \<Rightarrow> u8 list \<Rightarrow> nat \<Rightarrow> zstd_seq_scratch \<Rightarrow> zstd_seq_table \<Rightarrow> zstd_seq_table \<Rightarrow> nat \<Rightarrow> bool" where
  "table_named field mode s n scr table table' used \<longleftrightarrow>
     (if mode = 3 then sqt_present table \<and> table' = table \<and> used = 0
      else if mode = 1 then n \<noteq> 0 \<and> unat (s ! 0) \<le> zstd_seq_field_symbol_max field \<and> used = 1 \<and>
        table' = with_table table 0 ((sqt_cells table)[0 := \<lparr>fc_new_state = 0, fc_symbol = s ! 0, fc_nb_bits = 0\<rparr>])
      else \<exists>counts mx L cells. table_ok counts mx L cells \<and> table' = with_table table L cells \<and> length cells = length (sqt_cells table) \<and>
        drop (2 ^ L) cells = drop (2 ^ L) (sqt_cells table) \<and>
        (if mode = 0 then (counts, L) = predefined field \<and> mx = length counts - 1 \<and> used = 0
         else \<exists>d. zstd_fse_read_ncount s n (zstd_seq_field_symbol_max field) (zstd_seq_field_accuracy_log_max field) (sqs_counts scr) = Some (Inr d) \<and>
           counts = fd_counts d \<and> mx = fd_max_symbol d \<and> L = fd_accuracy_log d \<and> used = fd_consumed d))"

lemma put_counts_value:
  "i + length cs \<le> length counts \<Longrightarrow> put_counts cs i counts = Some (take i counts @ cs @ drop (i + length cs) counts)"
proof (induction cs arbitrary: i counts)
  case (Cons c cs)
  then have "i < length counts" by simp
  then show ?case using Cons by (simp add: take_Suc_conv_app_nth)
qed simp

lemma predefined_normalized:
  "normalized litlen_predefined 35 6" "normalized offset_predefined 28 5" "normalized matchlen_predefined 52 6"
proof -
  have a: "list_all (\<lambda>x. - 1 \<le> x) litlen_predefined" "list_all (\<lambda>x. - 1 \<le> x) offset_predefined" "list_all (\<lambda>x. - 1 \<le> x) matchlen_predefined"
    by (simp_all add: litlen_predefined_def offset_predefined_def matchlen_predefined_def)
  have s: "(\<Sum>x\<leftarrow>litlen_predefined. magnitude x) = 64" "(\<Sum>x\<leftarrow>offset_predefined. magnitude x) = 32" "(\<Sum>x\<leftarrow>matchlen_predefined. magnitude x) = 64"
    by (simp_all add: litlen_predefined_def offset_predefined_def matchlen_predefined_def magnitude_def)
  have l: "length litlen_predefined = 36" "length offset_predefined = 29" "length matchlen_predefined = 53"
    by (simp_all add: litlen_predefined_def offset_predefined_def matchlen_predefined_def)
  have n: "normalized xs mx L" if "list_all (\<lambda>x. - 1 \<le> x) xs" "(\<Sum>x\<leftarrow>xs. magnitude x) = 2 ^ L" "length xs = Suc mx" for xs mx L
  proof -
    have idx: "map ((!) xs) [0..<Suc mx] = xs" unfolding that(3)[symmetric] by (rule map_nth)
    have "(\<Sum>t\<leftarrow>[0..<Suc mx]. magnitude (xs ! t)) = (\<Sum>x\<leftarrow>map ((!) xs) [0..<Suc mx]. magnitude x)"
      by (simp only: map_map comp_def)
    then have "(\<Sum>t\<leftarrow>[0..<Suc mx]. magnitude (xs ! t)) = 2 ^ L" unfolding idx that(2) .
    moreover have "set [0..<Suc mx] = {..mx}" "mx < length xs" "\<forall>s\<in>set [0..<Suc mx]. - 1 \<le> xs ! s"
      using that by (auto simp: list_all_length less_Suc_eq_le)
    ultimately show ?thesis using normalized_list[of "[0..<Suc mx]" mx xs L] distinct_upt[of 0 "Suc mx"] by blast
  qed
  show "normalized litlen_predefined 35 6" "normalized offset_predefined 28 5" "normalized matchlen_predefined 52 6"
    using n[OF a(1)] n[OF a(2)] n[OF a(3)] s l by simp_all
qed

lemma table_symbol_max:
  assumes "table_ok counts mx L cells" "c < 2 ^ L"
  shows "cell_symbol cells c \<le> mx"
proof (rule ccontr)
  assume "\<not> cell_symbol cells c \<le> mx"
  then have "occ cells {..<2 ^ L} (cell_symbol cells c) = 0" using assms(1) by (simp add: table_ok_def)
  moreover have "occ cells {..<Suc c} (cell_symbol cells c) \<le> occ cells {..<2 ^ L} (cell_symbol cells c)" using assms(2) by (intro occ_mono) auto
  ultimately show False by (simp add: occ_Suc)
qed

lemma table_ok_cong:
  assumes "table_ok counts mx L cells" "\<And>t. t \<le> mx \<Longrightarrow> counts ! t = counts' ! t"
  shows "table_ok counts' mx L cells"
  using assms table_symbol_max[OF assms(1)] fse_layout_counts[of counts mx L cells counts'] by (auto simp: table_ok_def cell_state_def)

lemma built_table:
  assumes "table_ok counts mx L cells" "mx \<le> mx'" "L \<le> 9" "512 \<le> unat (sqt_capacity table)" "unat (sqt_capacity table) \<le> length cells"
  shows "field_table mx' (with_table table L cells)"
proof -
  have "(2::nat) ^ L \<le> 2 ^ 9" using assms(3) by (intro power_increasing) auto
  moreover have "unat (fc_new_state (cells ! c)) + 2 ^ unat (fc_nb_bits (cells ! c)) \<le> 2 ^ L" if "c < 2 ^ L" for c
    using table_closed[OF assms(1) that, of "2 ^ unat (fc_nb_bits (cells ! c)) - 1"] by simp
  ultimately show ?thesis using assms table_symbol_max[OF assms(1)] table_bits[OF assms(1)]
    by (auto simp: field_table_def with_table_def intro: le_trans)
qed

lemma named_field_table:
  assumes "table_named field mode s n scr table table' used" "table_slot (zstd_seq_field_symbol_max field) table" "field \<le> 2"
    "n \<le> length s" "length (sqs_counts scr) = 53"
  shows "field_table (zstd_seq_field_symbol_max field) table'" "table_slot (zstd_seq_field_symbol_max field) table'" "used \<le> n"
proof -
  have slot: "512 \<le> unat (sqt_capacity table)" "unat (sqt_capacity table) \<le> length (sqt_cells table)" using assms(2) by (simp_all add: table_slot_def)
  have mx: "zstd_seq_field_symbol_max field < 53" "zstd_seq_field_accuracy_log_max field \<le> 9"
    by (simp_all add: zstd_seq_field_symbol_max_def zstd_seq_field_accuracy_log_max_def seq_consts kZstdLitLenAccuracyLogMax_def
      kZstdOffsetAccuracyLogMax_def kZstdMatchLenAccuracyLogMax_def)
  have pd: "length (fst (predefined field)) - 1 \<le> zstd_seq_field_symbol_max field" "snd (predefined field) \<le> 9"
    using assms(3) by (auto simp: predefined_def zstd_seq_field_symbol_max_def seq_consts litlen_predefined_def offset_predefined_def matchlen_predefined_def)
  have nc: "fd_max_symbol d \<le> zstd_seq_field_symbol_max field \<and> fd_accuracy_log d \<le> 9 \<and> fd_consumed d \<le> n"
    if "zstd_fse_read_ncount s n (zstd_seq_field_symbol_max field) (zstd_seq_field_accuracy_log_max field) (sqs_counts scr) = Some (Inr d)" for d
    using wpD[OF read_ncount_contract[OF assms(4), of "zstd_seq_field_symbol_max field" "sqs_counts scr" "zstd_seq_field_accuracy_log_max field"] that] mx assms(5)
    by simp
  consider "mode = 3" | "mode = 1" | "mode \<noteq> 3" "mode \<noteq> 1" by blast
  then have "field_table (zstd_seq_field_symbol_max field) table' \<and> used \<le> n \<and> sqt_capacity table' = sqt_capacity table"
  proof cases
    case 1
    then show ?thesis using assms(1,2) by (simp add: table_named_def table_slot_def)
  next
    case 2
    then show ?thesis using assms(1) slot
      by (cases "sqt_cells table") (auto simp: table_named_def field_table_def with_table_def cell_symbol_def)
  next
    case 3
    then obtain counts mx L cells where c: "table_ok counts mx L cells" "table' = with_table table L cells" "length cells = length (sqt_cells table)"
        "if mode = 0 then (counts, L) = predefined field \<and> mx = length counts - 1 \<and> used = 0
         else \<exists>d. zstd_fse_read_ncount s n (zstd_seq_field_symbol_max field) (zstd_seq_field_accuracy_log_max field) (sqs_counts scr) = Some (Inr d) \<and>
           counts = fd_counts d \<and> mx = fd_max_symbol d \<and> L = fd_accuracy_log d \<and> used = fd_consumed d"
      using assms(1) by (auto simp: table_named_def)
    have "mx \<le> zstd_seq_field_symbol_max field \<and> L \<le> 9 \<and> used \<le> n"
    proof (cases "mode = 0")
      case True
      then have "(counts, L) = predefined field" "mx = length counts - 1" "used = 0" using c(4) by simp_all
      then show ?thesis using pd by (metis fst_conv snd_conv zero_le)
    next
      case False
      then show ?thesis using c(4) nc by auto
    qed
    then show ?thesis using built_table[OF c(1)] slot c(2,3) by (simp add: with_table_def)
  qed
  then show "field_table (zstd_seq_field_symbol_max field) table'" "used \<le> n" "table_slot (zstd_seq_field_symbol_max field) table'"
    using slot by (auto simp: table_slot_def field_table_def)
qed

lemma seq_build_contract:
  assumes n: "normalized counts mx L" "mx \<le> 52" "5 \<le> L" "L \<le> 9" and t: "table_slot m table" and s: "seq_scratch_ok scr"
  shows "wp (seq_build (counts, mx, L) k scr table) (\<lambda>(res, table'). res = Inr k \<and>
     (\<exists>cells. table_ok counts mx L cells \<and> table' = with_table table L cells \<and> length cells = length (sqt_cells table) \<and>
        drop (2 ^ L) cells = drop (2 ^ L) (sqt_cells table)))"
proof -
  have L: "log_ok L" using n by (simp add: log_ok_def)
  have two: "(2::nat) ^ L \<le> 512" "(2::int) ^ L \<le> 512" using n(4) power_increasing[of L 9 "2::nat"] power_increasing[of L 9 "2::int"] by simp_all
  have cn: "\<forall>t\<le>mx. counts ! t < 32768" using n(1) two(2) unfolding normalized_def by (auto dest: spec order_trans)
  have lens: "mx \<le> 255" "mx < length counts" "mx < length (sqs_symbol_next scr)" "2 ^ L \<le> unat (sqt_capacity table)" "unat (sqt_capacity table) \<le> length (sqt_cells table)"
    using n(1,2) s t two by (auto simp: normalized_def seq_scratch_ok_def table_slot_def)
  have "wp (zstd_fse_build_dtable counts mx L (sqt_cells table) (sqt_capacity table) (sqs_symbol_next scr)) (\<lambda>res. case res of
      Inl e \<Rightarrow> False | Inr cells \<Rightarrow> table_ok counts mx L cells \<and> length cells = length (sqt_cells table) \<and>
        drop (2 ^ L) cells = drop (2 ^ L) (sqt_cells table))"
    by (rule wp_mono[OF build_dtable_contract[OF L lens cn]]) (use n(1) in \<open>auto split: sum.splits\<close>)
  from wp_InrD[OF this] show ?thesis by (auto simp: seq_build_def wp_Some with_table_def)
qed

lemma predefined_counts_value:
  assumes "field \<le> 2" "length counts = 53"
  shows "\<exists>cs. zstd_seq_predefined_counts field counts = Some (cs, length (fst (predefined field)) - 1, snd (predefined field)) \<and>
     normalized cs (length (fst (predefined field)) - 1) (snd (predefined field)) \<and>
     (\<forall>t \<le> length (fst (predefined field)) - 1. cs ! t = fst (predefined field) ! t)"
proof -
  let ?p = "fst (predefined field)" and ?cs = "fst (predefined field) @ drop (length (fst (predefined field))) counts"
  have l: "length litlen_predefined = 36" "length offset_predefined = 29" "length matchlen_predefined = 53"
    by (simp_all add: litlen_predefined_def offset_predefined_def matchlen_predefined_def)
  have v: "zstd_seq_predefined_counts field counts = Some (?cs, length ?p - 1, snd (predefined field))"
    using assms l by (auto simp: zstd_seq_predefined_counts_def put_counts_value predefined_def seq_consts)
  have pos: "0 < length ?p" by (simp add: predefined_def litlen_predefined_def offset_predefined_def matchlen_predefined_def)
  have nth: "?cs ! t = ?p ! t" if "t \<le> length ?p - 1" for t using that pos by (simp add: nth_append less_Suc_eq_le[symmetric])
  have "normalized ?p (length ?p - 1) (snd (predefined field))" using predefined_normalized l by (simp add: predefined_def)
  then have "normalized ?cs (length ?p - 1) (snd (predefined field))" using nth pos unfolding normalized_def by (simp add: trans_less_add1)
  then show ?thesis using v nth by blast
qed

lemma load_table_contract:
  assumes f: "field \<le> 2" "mode \<le> 3" and n: "p + unat n \<le> length s" "unat n < 2 ^ 60" and t: "table_slot (zstd_seq_field_symbol_max field) table" and s: "seq_scratch_ok scr"
  shows "wp (zstd_seq_load_table field mode s p n scr table) (\<lambda>(res, table'). case res of
     Inl (st, _) \<Rightarrow> st = CUDEC_ERR_CORRUPT_INPUT \<and> \<not> (\<exists>table' used. table_named field mode (drop p s) (unat n) scr table table' used)
   | Inr used \<Rightarrow> table_named field mode (drop p s) (unat n) scr table table' (unat used))"
proof -
  let ?mx = "zstd_seq_field_symbol_max field"
  have mx: "?mx < 53" "zstd_seq_field_accuracy_log_max field \<le> 9" "5 \<le> zstd_seq_field_accuracy_log_max field"
    by (simp_all add: zstd_seq_field_symbol_max_def zstd_seq_field_accuracy_log_max_def seq_consts kZstdLitLenAccuracyLogMax_def
      kZstdOffsetAccuracyLogMax_def kZstdMatchLenAccuracyLogMax_def)
  have args: "\<not> (kZstdSeqFieldMatchLen < field \<or> kZstdSeqModeRepeat < mode)" using f by (simp add: seq_consts)
  have modes: "mode = kZstdSeqModeRepeat \<longleftrightarrow> mode = 3" "mode = kZstdSeqModeRle \<longleftrightarrow> mode = 1" "mode = kZstdSeqModePredefined \<longleftrightarrow> mode = 0"
    by (simp_all add: seq_consts)
  have nz: "n = 0 \<longleftrightarrow> unat n = 0" by (simp add: unat_eq_0)
  have cap: "sqt_capacity table \<noteq> 0" "sqt_cells table \<noteq> []" using t by (auto simp: table_slot_def)
  note def = zstd_seq_load_table_def if_not_P[OF args] Let_def modes
  consider "mode = 3" | "mode = 1" | "mode = 0" | "mode = 2" using f by linarith
  then show ?thesis
  proof cases
    case 1
    then show ?thesis unfolding def by (auto simp: wp_Some table_named_def)
  next
    case 2
    show ?thesis
    proof (cases "unat n = 0")
      case True
      then show ?thesis unfolding def using 2 nz by (simp add: wp_Some table_named_def)
    next
      case False
      then have p: "p < length s" using n by simp
      then show ?thesis unfolding def using 2 False nz cap(1,2) by (auto simp: wp_rules table_named_def with_table_def)
    qed
  next
    case 3
    obtain cs where cs: "zstd_seq_predefined_counts field (sqs_counts scr) = Some (cs, length (fst (predefined field)) - 1, snd (predefined field))"
      "normalized cs (length (fst (predefined field)) - 1) (snd (predefined field))"
      "\<And>t. t \<le> length (fst (predefined field)) - 1 \<Longrightarrow> cs ! t = fst (predefined field) ! t"
      using predefined_counts_value[OF f(1), of "sqs_counts scr"] s by (auto simp: seq_scratch_ok_def)
    have pd: "length (fst (predefined field)) - 1 \<le> 52" "5 \<le> snd (predefined field)" "snd (predefined field) \<le> 9"
      by (auto simp: predefined_def litlen_predefined_def offset_predefined_def matchlen_predefined_def)
    have nm: "\<not> mode = 3" "\<not> mode = 1" using 3 by simp_all
    show ?thesis unfolding def if_not_P[OF nm(1)] if_not_P[OF nm(2)] if_P[OF 3] cs(1) bind.bind_lunit
    proof (rule wp_mono[OF seq_build_contract[OF cs(2) pd t s]], goal_cases)
      case (1 x)
      then obtain cells where c: "x = (Inr 0, with_table table (snd (predefined field)) cells)" "table_ok cs (length (fst (predefined field)) - 1) (snd (predefined field)) cells"
        "length cells = length (sqt_cells table)" "drop (2 ^ snd (predefined field)) cells = drop (2 ^ snd (predefined field)) (sqt_cells table)"
        by (cases x) auto
      have "table_ok (fst (predefined field)) (length (fst (predefined field)) - 1) (snd (predefined field)) cells"
        using table_ok_cong[OF c(2)] cs(3) by simp
      then show ?case using c 3 by (auto simp: table_named_def intro!: exI[of _ "fst (predefined field)"] exI[of _ "snd (predefined field)"] exI[of _ cells])
    qed
  next
    case 4
    have nm: "\<not> mode = 3" "\<not> mode = 1" "\<not> mode = 0" using 4 by simp_all
    have le: "unat n \<le> length (drop p s)" using n by simp
    have nc: "wp (zstd_fse_read_ncount (drop p s) (unat n) ?mx (zstd_seq_field_accuracy_log_max field) (sqs_counts scr)) (\<lambda>res. case res of
       Inl (st, _) \<Rightarrow> st = CUDEC_ERR_CORRUPT_INPUT
     | Inr d \<Rightarrow> fd_max_symbol d \<le> ?mx \<and> 5 \<le> fd_accuracy_log d \<and> fd_accuracy_log d \<le> 9 \<and> fd_consumed d \<le> unat n \<and>
         normalized (fd_counts d) (fd_max_symbol d) (fd_accuracy_log d))"
      by (rule wp_mono[OF read_ncount_contract[OF le]]) (use mx s in \<open>auto simp: seq_scratch_ok_def split: sum.splits\<close>)
    from nc obtain r where r: "zstd_fse_read_ncount (drop p s) (unat n) ?mx (zstd_seq_field_accuracy_log_max field) (sqs_counts scr) = Some r" by (rule wpE)
    note q = wpD[OF nc r]
    show ?thesis unfolding def if_not_P[OF nm(1)] if_not_P[OF nm(2)] if_not_P[OF nm(3)] r bind.bind_lunit
    proof (cases r)
      case (Inl e)
      then show "wp (case r of Inl (st, rej) \<Rightarrow> Some (Inl (st, if rej = kZstdFseRejectSymbolPastMax then kZstdSeqRejectSymbolPastMax else kZstdSeqRejectTableDescription), table)
          | Inr d \<Rightarrow> seq_build (fd_counts d, fd_max_symbol d, fd_accuracy_log d) (of_nat (fd_consumed d)) scr table) (\<lambda>(res, table'). case res of
         Inl (st, _) \<Rightarrow> st = CUDEC_ERR_CORRUPT_INPUT \<and> \<not> (\<exists>table' used. table_named field mode (drop p s) (unat n) scr table table' used)
       | Inr used \<Rightarrow> table_named field mode (drop p s) (unat n) scr table table' (unat used))"
        using q r 4 by (cases e) (auto simp: wp_Some table_named_def)
    next
      case (Inr d)
      have d: "fd_max_symbol d \<le> 52" "5 \<le> fd_accuracy_log d" "fd_accuracy_log d \<le> 9" "fd_consumed d \<le> unat n" "normalized (fd_counts d) (fd_max_symbol d) (fd_accuracy_log d)"
        using q Inr mx by simp_all
      have uc: "unat (of_nat (fd_consumed d) :: u64) = fd_consumed d" using d(4) n(2) by (intro unat_of_nat_less) simp
      show "wp (case r of Inl (st, rej) \<Rightarrow> Some (Inl (st, if rej = kZstdFseRejectSymbolPastMax then kZstdSeqRejectSymbolPastMax else kZstdSeqRejectTableDescription), table)
          | Inr d \<Rightarrow> seq_build (fd_counts d, fd_max_symbol d, fd_accuracy_log d) (of_nat (fd_consumed d)) scr table) (\<lambda>(res, table'). case res of
         Inl (st, _) \<Rightarrow> st = CUDEC_ERR_CORRUPT_INPUT \<and> \<not> (\<exists>table' used. table_named field mode (drop p s) (unat n) scr table table' used)
       | Inr used \<Rightarrow> table_named field mode (drop p s) (unat n) scr table table' (unat used))"
        unfolding Inr sum.case
        by (rule wp_mono[OF seq_build_contract[OF d(5,1,2,3) t s]]) (use r Inr 4 uc in \<open>auto simp: table_named_def\<close>)
    qed
  qed
qed

text \<open>A mode names one table.\<close>

lemma table_named_unique:
  assumes "table_named field mode s n scr table t1 u1" "table_named field mode s n scr table t2 u2" "field \<le> 2" "n \<le> length s" "length (sqs_counts scr) = 53"
  shows "t1 = t2 \<and> u1 = u2"
proof (cases "mode = 3 \<or> mode = 1")
  case True
  then show ?thesis using assms(1,2) by (auto simp: table_named_def)
next
  case False
  have mx: "zstd_seq_field_symbol_max field < 53" "zstd_seq_field_accuracy_log_max field \<le> 9" "5 \<le> zstd_seq_field_accuracy_log_max field"
    by (simp_all add: zstd_seq_field_symbol_max_def zstd_seq_field_accuracy_log_max_def seq_consts kZstdLitLenAccuracyLogMax_def
      kZstdOffsetAccuracyLogMax_def kZstdMatchLenAccuracyLogMax_def)
  have nc: "5 \<le> fd_accuracy_log d"
    if "zstd_fse_read_ncount s n (zstd_seq_field_symbol_max field) (zstd_seq_field_accuracy_log_max field) (sqs_counts scr) = Some (Inr d)" for d
    using wpD[OF read_ncount_contract[OF assms(4), of "zstd_seq_field_symbol_max field" "sqs_counts scr" "zstd_seq_field_accuracy_log_max field"] that] mx assms(5)
    by simp
  define one where "one t u L cells counts mx \<longleftrightarrow> table_ok counts mx L cells \<and> t = with_table table L cells \<and>
     length cells = length (sqt_cells table) \<and> drop (2 ^ L) cells = drop (2 ^ L) (sqt_cells table) \<and> 5 \<le> L \<and>
     (if mode = 0 then (counts, L) = predefined field \<and> mx = length counts - 1 \<and> u = 0
      else \<exists>d. zstd_fse_read_ncount s n (zstd_seq_field_symbol_max field) (zstd_seq_field_accuracy_log_max field) (sqs_counts scr) = Some (Inr d) \<and>
        counts = fd_counts d \<and> mx = fd_max_symbol d \<and> L = fd_accuracy_log d \<and> u = fd_consumed d)" for t u L cells counts mx
  have pd: "(counts, L) = predefined field \<Longrightarrow> 5 \<le> L" for counts L using assms(3) by (auto simp: predefined_def split: if_splits)
  have ex: "\<exists>L cells counts mx. one t u L cells counts mx" if "table_named field mode s n scr table t u" for t u
  proof -
    from that False obtain counts mx L cells where c: "table_ok counts mx L cells" "t = with_table table L cells" "length cells = length (sqt_cells table)"
      "drop (2 ^ L) cells = drop (2 ^ L) (sqt_cells table)"
      "if mode = 0 then (counts, L) = predefined field \<and> mx = length counts - 1 \<and> u = 0
       else \<exists>d. zstd_fse_read_ncount s n (zstd_seq_field_symbol_max field) (zstd_seq_field_accuracy_log_max field) (sqs_counts scr) = Some (Inr d) \<and>
         counts = fd_counts d \<and> mx = fd_max_symbol d \<and> L = fd_accuracy_log d \<and> u = fd_consumed d"
      unfolding table_named_def by (simp only: de_Morgan_disj if_False) blast
    have "5 \<le> L"
    proof (cases "mode = 0")
      case True
      then show ?thesis using c(5) pd[of counts L] by simp
    next
      case False
      then show ?thesis using c(5) nc by auto
    qed
    then show ?thesis using c unfolding one_def by blast
  qed
  obtain L cells counts mx where 1: "one t1 u1 L cells counts mx" using ex[OF assms(1)] by blast
  obtain L' cells' counts' mx' where 2: "one t2 u2 L' cells' counts' mx'" using ex[OF assms(2)] by blast
  have same: "L' = L \<and> counts' = counts \<and> mx' = mx \<and> u1 = u2"
  proof (cases "mode = 0")
    case True
    then have p: "(counts, L) = predefined field" "(counts', L') = predefined field"
      and r: "mx = length counts - 1" "mx' = length counts' - 1" "u1 = 0" "u2 = 0"
      using 1 2 unfolding one_def by simp_all
    have "(counts', L') = (counts, L)" by (rule trans[OF p(2) p(1)[symmetric]])
    then show ?thesis unfolding r by simp
  next
    case False
    have "\<exists>d. zstd_fse_read_ncount s n (zstd_seq_field_symbol_max field) (zstd_seq_field_accuracy_log_max field) (sqs_counts scr) = Some (Inr d) \<and>
        counts = fd_counts d \<and> mx = fd_max_symbol d \<and> L = fd_accuracy_log d \<and> u1 = fd_consumed d"
      using 1 False unfolding one_def by (simp only: if_False)
    then obtain d where d: "zstd_fse_read_ncount s n (zstd_seq_field_symbol_max field) (zstd_seq_field_accuracy_log_max field) (sqs_counts scr) = Some (Inr d)"
      "counts = fd_counts d" "mx = fd_max_symbol d" "L = fd_accuracy_log d" "u1 = fd_consumed d" by (elim exE conjE)
    have "\<exists>d. zstd_fse_read_ncount s n (zstd_seq_field_symbol_max field) (zstd_seq_field_accuracy_log_max field) (sqs_counts scr) = Some (Inr d) \<and>
        counts' = fd_counts d \<and> mx' = fd_max_symbol d \<and> L' = fd_accuracy_log d \<and> u2 = fd_consumed d"
      using 2 False unfolding one_def by (simp only: if_False)
    then obtain d' where d': "zstd_fse_read_ncount s n (zstd_seq_field_symbol_max field) (zstd_seq_field_accuracy_log_max field) (sqs_counts scr) = Some (Inr d')"
      "counts' = fd_counts d'" "mx' = fd_max_symbol d'" "L' = fd_accuracy_log d'" "u2 = fd_consumed d'" by (elim exE conjE)
    have "Some (Inr d') = Some (Inr d :: fse_error + _)" by (rule trans[OF d'(1)[symmetric] d(1)])
    then show ?thesis unfolding d(2-5) d'(2-5) by simp
  qed
  have "take (2 ^ L) cells' = take (2 ^ L) cells" using 1 2 by (intro table_ok_take[of counts mx]) (simp_all add: one_def same)
  then have "cells' = cells" using 1 2 append_take_drop_id[of "2 ^ L" cells] append_take_drop_id[of "2 ^ L" cells'] by (simp add: one_def same)
  then show ?thesis using 1 2 by (simp add: one_def same)
qed

end
