(* ===== verification/Zstd_Seq_Decode.thy ===== *)
theory Zstd_Seq_Decode
  imports Zstd_Seq
begin

text \<open>
  The resumable decode of a sequences bitstream, \<open>src/zstd_seq.h\<close>: three interleaved states, a cursor that is
  passed and returned, and the whole block as one tile.
\<close>

section \<open>The decode\<close>

definition zstd_seq_peek_symbol :: "zstd_seq_table \<Rightarrow> u32 \<Rightarrow> (seq_error + nat) option" where
  "zstd_seq_peek_symbol table state =
     (if state \<ge> sqt_table_size table then Some (Inl (CUDEC_ERR_CORRUPT_INPUT, kZstdSeqRejectStateOutOfTable))
      else do { cell \<leftarrow> at (sqt_cells table) (unat state); Some (Inr (unat (fc_symbol cell))) })"

definition zstd_seq_update_state :: "zstd_bit_reader \<Rightarrow> zstd_seq_table \<Rightarrow> u32 \<Rightarrow> ((seq_error + u32) \<times> zstd_bit_reader) option" where
  "zstd_seq_update_state reader table state =
     (if state \<ge> sqt_table_size table then Some (Inl (CUDEC_ERR_CORRUPT_INPUT, kZstdSeqRejectStateOutOfTable), reader)
      else do {
        cell \<leftarrow> at (sqt_cells table) (unat state);
        (st, bits, reader) \<leftarrow> zstd_read_bits (ucast (fc_nb_bits cell)) reader;
        if st \<noteq> CUDEC_OK then Some (Inl (CUDEC_ERR_CORRUPT_INPUT, kZstdSeqRejectSequenceTruncated), reader)
        else Some (Inr (ucast (fc_new_state cell) + ucast bits), reader)
      })"

record zstd_seq_cursor =
  cu_reader :: zstd_bit_reader
  cu_litlen :: zstd_seq_table
  cu_offset :: zstd_seq_table
  cu_matchlen :: zstd_seq_table
  cu_litlen_state :: u32
  cu_offset_state :: u32
  cu_matchlen_state :: u32
  cu_total :: u32
  cu_emitted :: u32
  cu_finished :: bool

text \<open>The three initial states, in the order of the format.\<close>

definition zstd_seq_begin :: "u8 list \<Rightarrow> nat \<Rightarrow> u64 \<Rightarrow> u32 \<Rightarrow> zstd_seq_table \<Rightarrow> zstd_seq_table \<Rightarrow> zstd_seq_table \<Rightarrow>
    (seq_error + zstd_seq_cursor) option" where
  "zstd_seq_begin s p n sequence_count litlen offset matchlen =
     (if sequence_count = 0 \<or> \<not> sqt_present litlen \<or> \<not> sqt_present offset \<or> \<not> sqt_present matchlen
      then Some (Inl (CUDEC_ERR_INVALID_ARGUMENT, kZstdSeqRejectBadRequest))
      else if sqt_table_size litlen > sqt_capacity litlen \<or> sqt_table_size offset > sqt_capacity offset \<or>
              sqt_table_size matchlen > sqt_capacity matchlen
      then Some (Inl (CUDEC_ERR_INVALID_ARGUMENT, kZstdSeqRejectTableCapacity))
      else if n = 0 then Some (Inl (CUDEC_ERR_CORRUPT_INPUT, kZstdSeqRejectBitstreamMissing))
      else do {
        (st, r) \<leftarrow> zstd_bit_start (zstd_bit_reader_init (drop p s) n);
        if st \<noteq> CUDEC_OK then Some (Inl (CUDEC_ERR_CORRUPT_INPUT, kZstdSeqRejectBitstreamMissing))
        else do {
          (a, r) \<leftarrow> zstd_fse_init_state r (sqt_accuracy_log litlen);
          case a of
            Inl _ \<Rightarrow> Some (Inl (CUDEC_ERR_CORRUPT_INPUT, kZstdSeqRejectStateInitTruncated))
          | Inr litlen_state \<Rightarrow> do {
              (b, r) \<leftarrow> zstd_fse_init_state r (sqt_accuracy_log offset);
              case b of
                Inl _ \<Rightarrow> Some (Inl (CUDEC_ERR_CORRUPT_INPUT, kZstdSeqRejectStateInitTruncated))
              | Inr offset_state \<Rightarrow> do {
                  (c, r) \<leftarrow> zstd_fse_init_state r (sqt_accuracy_log matchlen);
                  case c of
                    Inl _ \<Rightarrow> Some (Inl (CUDEC_ERR_CORRUPT_INPUT, kZstdSeqRejectStateInitTruncated))
                  | Inr matchlen_state \<Rightarrow> Some (Inr \<lparr>cu_reader = r, cu_litlen = litlen, cu_offset = offset, cu_matchlen = matchlen,
                      cu_litlen_state = litlen_state, cu_offset_state = offset_state, cu_matchlen_state = matchlen_state,
                      cu_total = sequence_count, cu_emitted = 0, cu_finished = False\<rparr>)
                }
            }
        }
      })"

text \<open>One sequence: three symbols, the extra bits in the order offset, match, literals.\<close>

definition seq_extra :: "zstd_bit_reader \<Rightarrow> nat \<Rightarrow> nat \<Rightarrow> nat \<Rightarrow> ((seq_error + zstd_sequence) \<times> zstd_bit_reader) option" where
  "seq_extra r litlen_code offset_code matchlen_code = do {
     (st, offset_extra, r) \<leftarrow> zstd_read_bits (of_nat offset_code) r;
     if st \<noteq> CUDEC_OK then Some (Inl (CUDEC_ERR_CORRUPT_INPUT, kZstdSeqRejectSequenceTruncated), r)
     else do {
       (st, matchlen_extra, r) \<leftarrow> zstd_read_bits (of_nat (zstd_seq_matchlen_extra_bits matchlen_code)) r;
       if st \<noteq> CUDEC_OK then Some (Inl (CUDEC_ERR_CORRUPT_INPUT, kZstdSeqRejectSequenceTruncated), r)
       else do {
         (st, litlen_extra, r) \<leftarrow> zstd_read_bits (of_nat (zstd_seq_litlen_extra_bits litlen_code)) r;
         if st \<noteq> CUDEC_OK then Some (Inl (CUDEC_ERR_CORRUPT_INPUT, kZstdSeqRejectSequenceTruncated), r)
         else Some (Inr \<lparr>sq_literals_length = zstd_seq_litlen_baseline litlen_code + ucast litlen_extra,
                sq_match_length = zstd_seq_matchlen_baseline matchlen_code + ucast matchlen_extra,
                sq_offset_value = push_bit offset_code 1 + offset_extra\<rparr>, r)
       }
     }
   }"

definition seq_codes :: "zstd_seq_cursor \<Rightarrow> (seq_error + nat \<times> nat \<times> nat) option" where
  "seq_codes cu = do {
     l \<leftarrow> zstd_seq_peek_symbol (cu_litlen cu) (cu_litlen_state cu);
     case l of
       Inl e \<Rightarrow> Some (Inl e)
     | Inr litlen_code \<Rightarrow> do {
         oc \<leftarrow> zstd_seq_peek_symbol (cu_offset cu) (cu_offset_state cu);
         case oc of
           Inl e \<Rightarrow> Some (Inl e)
         | Inr offset_code \<Rightarrow> do {
             m \<leftarrow> zstd_seq_peek_symbol (cu_matchlen cu) (cu_matchlen_state cu);
             case m of
               Inl e \<Rightarrow> Some (Inl e)
             | Inr matchlen_code \<Rightarrow>
                 if litlen_code > zstd_seq_field_symbol_max kZstdSeqFieldLitLen \<or>
                    offset_code > zstd_seq_field_symbol_max kZstdSeqFieldOffset \<or>
                    matchlen_code > zstd_seq_field_symbol_max kZstdSeqFieldMatchLen
                 then Some (Inl (CUDEC_ERR_CORRUPT_INPUT, kZstdSeqRejectDecodedSymbolPastMax))
                 else Some (Inr (litlen_code, offset_code, matchlen_code))
           }
       }
   }"

text \<open>The states move on in the order literals, match, offset.\<close>

definition seq_advance :: "zstd_seq_cursor \<Rightarrow> ((seq_error + unit) \<times> zstd_seq_cursor) option" where
  "seq_advance cu = do {
     (l, r) \<leftarrow> zstd_seq_update_state (cu_reader cu) (cu_litlen cu) (cu_litlen_state cu);
     case l of
       Inl e \<Rightarrow> Some (Inl e, cu\<lparr>cu_reader := r\<rparr>)
     | Inr litlen_state \<Rightarrow> do {
         (m, r) \<leftarrow> zstd_seq_update_state r (cu_matchlen cu) (cu_matchlen_state cu);
         case m of
           Inl e \<Rightarrow> Some (Inl e, cu\<lparr>cu_reader := r, cu_litlen_state := litlen_state\<rparr>)
         | Inr matchlen_state \<Rightarrow> do {
             (oc, r) \<leftarrow> zstd_seq_update_state r (cu_offset cu) (cu_offset_state cu);
             case oc of
               Inl e \<Rightarrow> Some (Inl e, cu\<lparr>cu_reader := r, cu_litlen_state := litlen_state, cu_matchlen_state := matchlen_state\<rparr>)
             | Inr offset_state \<Rightarrow> Some (Inr (), cu\<lparr>cu_reader := r, cu_litlen_state := litlen_state,
                 cu_matchlen_state := matchlen_state, cu_offset_state := offset_state\<rparr>)
           }
       }
   }"

fun seq_tile_loop :: "nat list \<Rightarrow> zstd_seq_cursor \<Rightarrow> zstd_sequence list \<Rightarrow> ((seq_error + unit) \<times> zstd_seq_cursor \<times> zstd_sequence list) option" where
  "seq_tile_loop [] cu out = Some (Inr (), cu, out)"
| "seq_tile_loop (i # is) cu out = do {
     codes \<leftarrow> seq_codes cu;
     case codes of
       Inl e \<Rightarrow> Some (Inl e, cu, out)
     | Inr (litlen_code, offset_code, matchlen_code) \<Rightarrow> do {
         (extra, r) \<leftarrow> seq_extra (cu_reader cu) litlen_code offset_code matchlen_code;
         let cu = cu\<lparr>cu_reader := r\<rparr>;
         case extra of
           Inl e \<Rightarrow> Some (Inl e, cu, out)
         | Inr q \<Rightarrow> do {
             out \<leftarrow> put out i q;
             let cu = cu\<lparr>cu_emitted := cu_emitted cu + 1\<rparr>;
             if cu_emitted cu = cu_total cu then seq_tile_loop is cu out
             else do {
               (advanced, cu) \<leftarrow> seq_advance cu;
               case advanced of
                 Inl e \<Rightarrow> Some (Inl e, cu, out)
               | Inr _ \<Rightarrow> seq_tile_loop is cu out
             }
           }
       }
   }"

definition zstd_seq_decode_tile :: "zstd_seq_cursor \<Rightarrow> zstd_sequence list \<Rightarrow> u32 \<Rightarrow> u32 \<Rightarrow>
    ((seq_error + u32) \<times> zstd_seq_cursor \<times> zstd_sequence list) option" where
  "zstd_seq_decode_tile cu out out_capacity want =
     (if want = 0 \<or> out_capacity < want \<or> cu_finished cu \<or> cu_emitted cu \<ge> cu_total cu
      then Some (Inl (CUDEC_ERR_INVALID_ARGUMENT, kZstdSeqRejectBadRequest), cu, out)
      else do {
        let remaining = cu_total cu - cu_emitted cu;
        let number = (if want < remaining then want else remaining);
        (res, cu, out) \<leftarrow> seq_tile_loop [0..<unat number] cu out;
        case res of
          Inl e \<Rightarrow> Some (Inl e, cu, out)
        | Inr _ \<Rightarrow>
            if cu_emitted cu = cu_total cu then
              (if \<not> zstd_at_end (cu_reader cu) then Some (Inl (CUDEC_ERR_CORRUPT_INPUT, kZstdSeqRejectBitstreamNotConsumed), cu, out)
               else Some (Inr number, cu\<lparr>cu_finished := True\<rparr>, out))
            else Some (Inr number, cu, out)
      })"

definition zstd_decode_sequences :: "u8 list \<Rightarrow> nat \<Rightarrow> u64 \<Rightarrow> u32 \<Rightarrow> zstd_seq_table \<Rightarrow> zstd_seq_table \<Rightarrow> zstd_seq_table \<Rightarrow>
    zstd_sequence list \<Rightarrow> u32 \<Rightarrow> ((seq_error + unit) \<times> zstd_sequence list) option" where
  "zstd_decode_sequences s p n sequence_count litlen offset matchlen out out_capacity =
     (if sequence_count = 0 \<or> out_capacity < sequence_count
      then Some (Inl (CUDEC_ERR_INVALID_ARGUMENT, kZstdSeqRejectBadRequest), out)
      else do {
        begun \<leftarrow> zstd_seq_begin s p n sequence_count litlen offset matchlen;
        case begun of
          Inl e \<Rightarrow> Some (Inl e, out)
        | Inr cu \<Rightarrow> do {
            (res, _, out) \<leftarrow> zstd_seq_decode_tile cu out out_capacity sequence_count;
            case res of
              Inl e \<Rightarrow> Some (Inl e, out)
            | Inr _ \<Rightarrow> Some (Inr (), out)
          }
      })"

section \<open>The bits of a sequence\<close>

text \<open>
  The format: the codes are the symbols of the three states; the extra bits come in the order offset, match,
  literals; the states move on in the order literals, match, offset, except after the last sequence.
\<close>

type_synonym seq_cells = "zstd_fse_cell list \<times> zstd_fse_cell list \<times> zstd_fse_cell list"

fun seq_here :: "seq_cells \<Rightarrow> nat \<times> nat \<times> nat \<Rightarrow> bool list \<Rightarrow> (zstd_sequence \<times> bool list) option" where
  "seq_here (lc, oc, mc) (a, b, c) bs =
     (let (lbase, lw) = rfc_litlen ! cell_symbol lc a; (mbase, mw) = rfc_matchlen ! cell_symbol mc c; ow = cell_symbol oc b in
      if length bs < ow + mw + lw then None
      else Some (\<lparr>sq_literals_length = lbase + of_nat (bits_value (take lw (drop (ow + mw) bs))),
          sq_match_length = mbase + of_nat (bits_value (take mw (drop ow bs))),
          sq_offset_value = of_nat (2 ^ ow + bits_value (take ow bs))\<rparr>, drop (ow + mw + lw) bs))"

fun seq_move :: "seq_cells \<Rightarrow> nat \<times> nat \<times> nat \<Rightarrow> bool list \<Rightarrow> ((nat \<times> nat \<times> nat) \<times> bool list) option" where
  "seq_move (lc, oc, mc) (a, b, c) bs =
     (let lw = unat (fc_nb_bits (lc ! a)); mw = unat (fc_nb_bits (mc ! c)); ow = unat (fc_nb_bits (oc ! b)) in
      if length bs < lw + mw + ow then None
      else Some ((cell_next lc a bs, cell_next oc b (drop (lw + mw) bs), cell_next mc c (drop lw bs)), drop (lw + mw + ow) bs))"

text \<open>The first \<open>k\<close> of the \<open>left\<close> sequences a stream still holds.\<close>

fun seq_walk :: "nat \<Rightarrow> nat \<Rightarrow> seq_cells \<Rightarrow> nat \<times> nat \<times> nat \<Rightarrow> bool list \<Rightarrow>
    (zstd_sequence list \<times> (nat \<times> nat \<times> nat) \<times> bool list) option" where
  "seq_walk 0 left T st bs = Some ([], st, bs)"
| "seq_walk (Suc k) left T st bs = (case seq_here T st bs of None \<Rightarrow> None
     | Some (q, bs) \<Rightarrow> (case if left = 1 then Some (st, bs) else seq_move T st bs of None \<Rightarrow> None
         | Some (st, bs) \<Rightarrow> map_option (\<lambda>(qs, rest). (q # qs, rest)) (seq_walk k (left - 1) T st bs)))"

definition seq_start :: "nat \<times> nat \<times> nat \<Rightarrow> bool list \<Rightarrow> ((nat \<times> nat \<times> nat) \<times> bool list) option" where
  "seq_start logs bs = (case logs of (l, f, m) \<Rightarrow> if length bs < l + f + m then None
     else Some ((bits_value (take l bs), bits_value (take f (drop l bs)), bits_value (take m (drop (l + f) bs))), drop (l + f + m) bs))"

text \<open>The sequences of a whole bitstream, which they must use up to the last bit.\<close>

definition seq_stream :: "nat \<Rightarrow> seq_cells \<Rightarrow> nat \<times> nat \<times> nat \<Rightarrow> u8 list \<Rightarrow> zstd_sequence list option" where
  "seq_stream number T logs s = (if s = [] \<or> last s = 0 then None
     else case seq_start logs (stream_bits s) of None \<Rightarrow> None
     | Some (st, bs) \<Rightarrow> (case seq_walk number number T st bs of
         Some (qs, _, []) \<Rightarrow> Some qs
       | _ \<Rightarrow> None))"

lemma seq_walk_split:
  "seq_walk (j + k) left T st bs = (case seq_walk j left T st bs of None \<Rightarrow> None
     | Some (qs, st, bs) \<Rightarrow> map_option (\<lambda>(qs', rest). (qs @ qs', rest)) (seq_walk k (left - j) T st bs))"
proof (induction j arbitrary: left st bs)
  case (Suc j)
  then show ?case by (auto simp: option.map_comp comp_def split: option.splits prod.splits intro!: option.map_cong0)
next
  case 0
  have "(\<lambda>(qs :: zstd_sequence list, rest :: (nat \<times> nat \<times> nat) \<times> bool list). (qs, rest)) = id" by auto
  then show ?case by (simp add: option.map_id)
qed

lemma seq_walk_length: "seq_walk k left T st bs = Some (qs, rest) \<Longrightarrow> length qs = k"
  by (induction k arbitrary: left st bs qs rest) (auto split: option.splits)

section \<open>The steps of the decode\<close>

lemma table_size: "field_table mx t \<Longrightarrow> unat (sqt_table_size t) = 2 ^ sqt_accuracy_log t"
  "field_table mx t \<Longrightarrow> 2 ^ sqt_accuracy_log t \<le> length (sqt_cells t)" "field_table mx t \<Longrightarrow> (2::nat) ^ sqt_accuracy_log t \<le> 512"
proof -
  assume t: "field_table mx t"
  show "(2::nat) ^ sqt_accuracy_log t \<le> 512" using t power_increasing[of "sqt_accuracy_log t" 9 "2::nat"] by (simp add: field_table_def)
  show "unat (sqt_table_size t) = 2 ^ sqt_accuracy_log t" using t unat_push_1[of "sqt_accuracy_log t"] unfolding field_table_def by simp
  show "2 ^ sqt_accuracy_log t \<le> length (sqt_cells t)" using t by (simp add: field_table_def)
qed

lemma seq_peek_value:
  assumes "field_table mx t" "unat s < 2 ^ sqt_accuracy_log t"
  shows "zstd_seq_peek_symbol t s = Some (Inr (cell_symbol (sqt_cells t) (unat s)))" "cell_symbol (sqt_cells t) (unat s) \<le> mx"
proof -
  have "\<not> s \<ge> sqt_table_size t" using table_size(1)[OF assms(1)] assms(2) by (simp add: w2n)
  then show "zstd_seq_peek_symbol t s = Some (Inr (cell_symbol (sqt_cells t) (unat s)))"
    using table_size(2)[OF assms(1)] assms(2) by (simp add: zstd_seq_peek_symbol_def at_def cell_symbol_def)
  show "cell_symbol (sqt_cells t) (unat s) \<le> mx" using assms by (simp add: field_table_def)
qed

lemma update_contract:
  assumes t: "field_table mx t" and s: "unat s < 2 ^ sqt_accuracy_log t" and r: "live_reader r"
  defines "nb \<equiv> unat (fc_nb_bits (sqt_cells t ! unat s))"
  shows "if nb \<le> length (live_bits r)
     then \<exists>s' r'. zstd_seq_update_state r t s = Some (Inr s', r') \<and> live_reader r' \<and> unat s' < 2 ^ sqt_accuracy_log t \<and>
       unat s' = cell_next (sqt_cells t) (unat s) (live_bits r) \<and> live_bits r' = drop nb (live_bits r)
     else \<exists>rej r'. zstd_seq_update_state r t s = Some (Inl (CUDEC_ERR_CORRUPT_INPUT, rej), r')"
proof -
  let ?c = "sqt_cells t ! unat s"
  have lt: "\<not> s \<ge> sqt_table_size t" using table_size(1)[OF t] s by (simp add: w2n)
  have a: "at (sqt_cells t) (unat s) = Some ?c" using table_size(2)[OF t] s by (simp add: at_def)
  have c: "nb \<le> 9" "unat (fc_new_state ?c) + 2 ^ nb \<le> 2 ^ sqt_accuracy_log t"
    using t s unfolding field_table_def nb_def by (auto intro: le_trans)
  note def = zstd_seq_update_state_def if_not_P[OF lt] a bind.bind_lunit
  show ?thesis
  proof (cases "nb \<le> length (live_bits r)")
    case False
    then show ?thesis using live_read_short[OF r, of "ucast (fc_nb_bits ?c)"] c(1) unfolding def by (auto simp: nb_def)
  next
    case True
    then obtain v r' where v: "zstd_read_bits (ucast (fc_nb_bits ?c)) r = Some (CUDEC_OK, v, r')"
        "live_reader r'" "live_bits r' = drop nb (live_bits r)" "unat v = bits_value (take nb (live_bits r))" "unat v < 2 ^ nb"
      using live_read[OF r, of "ucast (fc_nb_bits ?c)"] c(1) by (auto simp: nb_def)
    have vn: "unat (fc_new_state ?c) + unat v < 2 ^ sqt_accuracy_log t" using c(2) v(5) by linarith
    have small: "unat (fc_new_state ?c) + unat v < 512" using vn table_size(3)[OF t] by linarith
    then have "unat (ucast v :: u32) = unat v" by (intro unat_ucast_u64_u32) simp
    then have "unat (ucast (fc_new_state ?c) + ucast v :: u32) = unat (fc_new_state ?c) + unat v"
      using small by (subst unat_plus) simp_all
    then show ?thesis using True v vn unfolding def by (simp add: cell_next_def nb_def[symmetric])
  qed
qed

definition cursor_cells :: "zstd_seq_cursor \<Rightarrow> seq_cells" where
  "cursor_cells cu = (sqt_cells (cu_litlen cu), sqt_cells (cu_offset cu), sqt_cells (cu_matchlen cu))"

definition cursor_states :: "zstd_seq_cursor \<Rightarrow> nat \<times> nat \<times> nat" where
  "cursor_states cu = (unat (cu_litlen_state cu), unat (cu_offset_state cu), unat (cu_matchlen_state cu))"

definition cursor_ok :: "zstd_seq_cursor \<Rightarrow> bool" where
  "cursor_ok cu \<longleftrightarrow> live_reader (cu_reader cu) \<and> field_table 35 (cu_litlen cu) \<and> field_table 31 (cu_offset cu) \<and>
     field_table 52 (cu_matchlen cu) \<and> unat (cu_litlen_state cu) < 2 ^ sqt_accuracy_log (cu_litlen cu) \<and>
     unat (cu_offset_state cu) < 2 ^ sqt_accuracy_log (cu_offset cu) \<and> unat (cu_matchlen_state cu) < 2 ^ sqt_accuracy_log (cu_matchlen cu)"

lemma codes_value:
  assumes "cursor_ok cu"
  shows "seq_codes cu = Some (Inr (cell_symbol (sqt_cells (cu_litlen cu)) (unat (cu_litlen_state cu)),
     cell_symbol (sqt_cells (cu_offset cu)) (unat (cu_offset_state cu)), cell_symbol (sqt_cells (cu_matchlen cu)) (unat (cu_matchlen_state cu))))"
proof -
  note c = assms[unfolded cursor_ok_def]
  note l = seq_peek_value[of 35 "cu_litlen cu" "cu_litlen_state cu"] and oc = seq_peek_value[of 31 "cu_offset cu" "cu_offset_state cu"]
    and m = seq_peek_value[of 52 "cu_matchlen cu" "cu_matchlen_state cu"]
  show ?thesis using c l oc m by (simp add: seq_codes_def zstd_seq_field_symbol_max_def seq_consts)
qed

lemma extra_contract:
  assumes r: "live_reader r" and lc: "l \<le> 35" and oc: "f \<le> 31" and mc: "m \<le> 52" and lw: "rfc_litlen ! l = (lb, lw)" and mw: "rfc_matchlen ! m = (mb, mw)"
  shows "if f + mw + lw \<le> length (live_bits r)
     then \<exists>r'. seq_extra r l f m = Some (Inr \<lparr>sq_literals_length = lb + of_nat (bits_value (take lw (drop (f + mw) (live_bits r)))),
          sq_match_length = mb + of_nat (bits_value (take mw (drop f (live_bits r)))),
          sq_offset_value = of_nat (2 ^ f + bits_value (take f (live_bits r)))\<rparr>, r') \<and> live_reader r' \<and> live_bits r' = drop (f + mw + lw) (live_bits r)
     else \<exists>rej r'. seq_extra r l f m = Some (Inl (CUDEC_ERR_CORRUPT_INPUT, rej), r')"
proof -
  have L: "zstd_seq_litlen_baseline l = lb" "zstd_seq_litlen_extra_bits l = lw" "lw \<le> 16" using litlen_codes[of l] lw lc extra_small(1)[of l] by simp_all
  have M: "zstd_seq_matchlen_baseline m = mb" "zstd_seq_matchlen_extra_bits m = mw" "mw \<le> 16" using matchlen_codes[of m] mw mc extra_small(2)[of m] by simp_all
  have u: "unat (of_nat f :: u32) = f" "unat (of_nat mw :: u32) = mw" "unat (of_nat lw :: u32) = lw"
    using L M oc by (auto intro!: unat_of_nat_less)
  note def = seq_extra_def L(1,2) M(1,2)
  show ?thesis
  proof (cases "f \<le> length (live_bits r)")
    case False
    then show ?thesis using live_read_short[OF r, of "of_nat f"] oc u unfolding def by auto
  next
    case f: True
    then obtain v r1 where v: "zstd_read_bits (of_nat f) r = Some (CUDEC_OK, v, r1)" "live_reader r1" "live_bits r1 = drop f (live_bits r)"
        "unat v = bits_value (take f (live_bits r))" using live_read[OF r, of "of_nat f"] oc u by auto
    have ov: "push_bit f 1 + v = of_nat (2 ^ f + bits_value (take f (live_bits r)))" unfolding v(4)[symmetric] by (simp add: push_bit_of_1)
    show ?thesis
    proof (cases "mw \<le> length (live_bits r1)")
      case False
      then show ?thesis using live_read_short[OF v(2), of "of_nat mw"] M u v(3) f unfolding def v(1) by auto
    next
      case m: True
      then obtain w r2 where w: "zstd_read_bits (of_nat mw) r1 = Some (CUDEC_OK, w, r2)" "live_reader r2" "live_bits r2 = drop mw (live_bits r1)"
          "unat w = bits_value (take mw (live_bits r1))" using live_read[OF v(2), of "of_nat mw"] M u by auto
      have ow: "ucast w = (of_nat (bits_value (take mw (drop f (live_bits r)))) :: u32)" unfolding v(3)[symmetric] w(4)[symmetric] by simp
      show ?thesis
      proof (cases "lw \<le> length (live_bits r2)")
        case False
        then show ?thesis using live_read_short[OF w(2), of "of_nat lw"] L u v(3) w(3) f m unfolding def v(1) by (auto simp: w(1))
      next
        case l: True
        then obtain x r3 where x: "zstd_read_bits (of_nat lw) r2 = Some (CUDEC_OK, x, r3)" "live_reader r3" "live_bits r3 = drop lw (live_bits r2)"
            "unat x = bits_value (take lw (live_bits r2))" using live_read[OF w(2), of "of_nat lw"] L u by auto
        have b: "live_bits r2 = drop (f + mw) (live_bits r)" using v(3) w(3) by (simp add: add.commute)
        have ox: "ucast x = (of_nat (bits_value (take lw (drop (f + mw) (live_bits r)))) :: u32)" unfolding b[symmetric] x(4)[symmetric] by simp
        show ?thesis using v(3) w(3) x f m l ov ow ox unfolding def v(1) by (auto simp: w(1) add.commute)
      qed
    qed
  qed
qed

definition same_decode :: "zstd_seq_cursor \<Rightarrow> zstd_seq_cursor \<Rightarrow> bool" where
  "same_decode cu cu' \<longleftrightarrow> cu_litlen cu' = cu_litlen cu \<and> cu_offset cu' = cu_offset cu \<and> cu_matchlen cu' = cu_matchlen cu \<and>
     cu_total cu' = cu_total cu \<and> cu_finished cu' = cu_finished cu"

lemma advance_contract:
  assumes ok: "cursor_ok cu"
  shows "case seq_move (cursor_cells cu) (cursor_states cu) (live_bits (cu_reader cu)) of
     None \<Rightarrow> \<exists>rej cu'. seq_advance cu = Some (Inl (CUDEC_ERR_CORRUPT_INPUT, rej), cu')
   | Some (st, bs) \<Rightarrow> \<exists>cu'. seq_advance cu = Some (Inr (), cu') \<and> cursor_ok cu' \<and> same_decode cu cu' \<and> cu_emitted cu' = cu_emitted cu \<and>
       cursor_states cu' = st \<and> live_bits (cu_reader cu') = bs"
proof -
  let ?r = "cu_reader cu" and ?l = "cu_litlen cu" and ?o = "cu_offset cu" and ?m = "cu_matchlen cu"
  let ?a = "cu_litlen_state cu" and ?b = "cu_offset_state cu" and ?c = "cu_matchlen_state cu"
  define lw mw ow where "lw = unat (fc_nb_bits (sqt_cells ?l ! unat ?a))" and "mw = unat (fc_nb_bits (sqt_cells ?m ! unat ?c))"
    and "ow = unat (fc_nb_bits (sqt_cells ?o ! unat ?b))"
  have c: "live_reader ?r" "field_table 35 ?l" "field_table 31 ?o" "field_table 52 ?m" "unat ?a < 2 ^ sqt_accuracy_log ?l"
    "unat ?b < 2 ^ sqt_accuracy_log ?o" "unat ?c < 2 ^ sqt_accuracy_log ?m" using ok by (simp_all add: cursor_ok_def)
  have spec: "seq_move (cursor_cells cu) (cursor_states cu) (live_bits ?r) = (if length (live_bits ?r) < lw + mw + ow then None
      else Some ((cell_next (sqt_cells ?l) (unat ?a) (live_bits ?r), cell_next (sqt_cells ?o) (unat ?b) (drop (lw + mw) (live_bits ?r)),
        cell_next (sqt_cells ?m) (unat ?c) (drop lw (live_bits ?r))), drop (lw + mw + ow) (live_bits ?r)))"
    by (simp add: cursor_cells_def cursor_states_def Let_def lw_def mw_def ow_def)
  note L = update_contract[OF c(2,5,1), folded lw_def]
  show ?thesis
  proof (cases "lw \<le> length (live_bits ?r)")
    case False
    then show ?thesis using L unfolding spec seq_advance_def by auto
  next
    case l: True
    then obtain a' r1 where a': "zstd_seq_update_state ?r ?l ?a = Some (Inr a', r1)" "live_reader r1" "unat a' < 2 ^ sqt_accuracy_log ?l"
      "unat a' = cell_next (sqt_cells ?l) (unat ?a) (live_bits ?r)" "live_bits r1 = drop lw (live_bits ?r)" using L by auto
    note M = update_contract[OF c(4,7) a'(2), folded mw_def]
    show ?thesis
    proof (cases "mw \<le> length (live_bits r1)")
      case False
      then show ?thesis using M l a'(5) unfolding spec seq_advance_def a'(1) by auto
    next
      case m: True
      then obtain c' r2 where c': "zstd_seq_update_state r1 ?m ?c = Some (Inr c', r2)" "live_reader r2" "unat c' < 2 ^ sqt_accuracy_log ?m"
        "unat c' = cell_next (sqt_cells ?m) (unat ?c) (live_bits r1)" "live_bits r2 = drop mw (live_bits r1)" using M by auto
      note O = update_contract[OF c(3,6) c'(2), folded ow_def]
      show ?thesis
      proof (cases "ow \<le> length (live_bits r2)")
        case False
        then show ?thesis using O l m a'(5) c'(5) unfolding spec seq_advance_def a'(1) by (auto simp: c'(1))
      next
        case o: True
        then obtain b' r3 where b': "zstd_seq_update_state r2 ?o ?b = Some (Inr b', r3)" "live_reader r3" "unat b' < 2 ^ sqt_accuracy_log ?o"
          "unat b' = cell_next (sqt_cells ?o) (unat ?b) (live_bits r2)" "live_bits r3 = drop ow (live_bits r2)" using O by auto
        have "seq_advance cu = Some (Inr (), cu\<lparr>cu_reader := r3, cu_litlen_state := a', cu_matchlen_state := c', cu_offset_state := b'\<rparr>)"
          by (simp add: seq_advance_def a'(1) c'(1) b'(1))
        then show ?thesis using l m o a' b' c' c(2-4) unfolding spec
          by (simp add: cursor_ok_def same_decode_def cursor_states_def add.commute add.left_commute)
      qed
    qed
  qed
qed

lemma seq_loop_contract:
  assumes "cursor_ok cu" "i + k \<le> length out" "k \<le> unat (cu_total cu) - unat (cu_emitted cu)"
  shows "wp (seq_tile_loop [i..<i + k] cu out) (\<lambda>(res, cu', out').
     case seq_walk k (unat (cu_total cu) - unat (cu_emitted cu)) (cursor_cells cu) (cursor_states cu) (live_bits (cu_reader cu)) of
       None \<Rightarrow> (\<exists>rej. res = Inl (CUDEC_ERR_CORRUPT_INPUT, rej))
     | Some (qs, st, bs) \<Rightarrow> res = Inr () \<and> cursor_ok cu' \<and> same_decode cu cu' \<and> cursor_states cu' = st \<and> live_bits (cu_reader cu') = bs \<and>
         unat (cu_emitted cu') = unat (cu_emitted cu) + k \<and> out' = take i out @ qs @ drop (i + k) out)"
  using assms
proof (induction k arbitrary: i cu out)
  case 0
  then show ?case by (simp add: wp_Some same_decode_def)
next
  case (Suc k)
  define l f m where "l = cell_symbol (sqt_cells (cu_litlen cu)) (unat (cu_litlen_state cu))"
    and "f = cell_symbol (sqt_cells (cu_offset cu)) (unat (cu_offset_state cu))"
    and "m = cell_symbol (sqt_cells (cu_matchlen cu)) (unat (cu_matchlen_state cu))"
  obtain lb lw mb mw where w: "rfc_litlen ! l = (lb, lw)" "rfc_matchlen ! m = (mb, mw)" by (metis surj_pair)
  let ?bs = "live_bits (cu_reader cu)" and ?left = "unat (cu_total cu) - unat (cu_emitted cu)"
  have codes: "seq_codes cu = Some (Inr (l, f, m))" "l \<le> 35" "f \<le> 31" "m \<le> 52"
    using codes_value[OF Suc.prems(1)] Suc.prems(1) by (simp_all add: l_def f_def m_def cursor_ok_def field_table_def)
  have live: "live_reader (cu_reader cu)" using Suc.prems(1) by (simp add: cursor_ok_def)
  define q where "q = \<lparr>sq_literals_length = lb + of_nat (bits_value (take lw (drop (f + mw) ?bs))),
     sq_match_length = mb + of_nat (bits_value (take mw (drop f ?bs))), sq_offset_value = of_nat (2 ^ f + bits_value (take f ?bs))\<rparr>"
  have here: "seq_here (cursor_cells cu) (cursor_states cu) ?bs = (if length ?bs < f + mw + lw then None else Some (q, drop (f + mw + lw) ?bs))"
    by (simp add: cursor_cells_def cursor_states_def w Let_def q_def flip: l_def f_def m_def)
  have up: "[i..<i + Suc k] = i # [Suc i..<Suc i + k]" by (simp add: upt_rec)
  note X = extra_contract[OF live codes(2,3,4) w, folded q_def]
  note def = up seq_tile_loop.simps codes(1) bind.bind_lunit sum.case prod.case Let_def
  show ?case
  proof (cases "f + mw + lw \<le> length ?bs")
    case False
    then obtain rej r' where "seq_extra (cu_reader cu) l f m = Some (Inl (CUDEC_ERR_CORRUPT_INPUT, rej), r')" using X by auto
    then show ?thesis using False unfolding def by (simp add: wp_Some here)
  next
    case True
    then obtain r' where r': "seq_extra (cu_reader cu) l f m = Some (Inr q, r')" "live_reader r'" "live_bits r' = drop (f + mw + lw) ?bs" using X by auto
    define cu1 where "cu1 = cu\<lparr>cu_reader := r', cu_emitted := cu_emitted cu + 1\<rparr>"
    have e1: "unat (cu_emitted cu + 1) = unat (cu_emitted cu) + 1" using Suc.prems(3) unat_less_exp[of "cu_total cu"] by (subst unat_plus) simp_all
    have c1: "cursor_ok cu1" "same_decode cu cu1" "cursor_states cu1 = cursor_states cu" "cursor_cells cu1 = cursor_cells cu"
      "unat (cu_emitted cu1) = unat (cu_emitted cu) + 1" "cu_total cu1 = cu_total cu" "live_bits (cu_reader cu1) = drop (f + mw + lw) ?bs"
      using Suc.prems(1) r'(2,3) e1 by (simp_all add: cu1_def cursor_ok_def same_decode_def cursor_states_def cursor_cells_def)
    have fin: "cu_emitted cu1 = cu_total cu1 \<longleftrightarrow> ?left = 1" using c1(5,6) Suc.prems(3) by (auto simp: word_unat_eq_iff)
    have pt: "put out i q = Some (out[i := q])" using Suc.prems(2) by (simp add: put_def)
    have unf: "seq_tile_loop [i..<i + Suc k] cu out = (if ?left = 1 then seq_tile_loop [Suc i..<Suc i + k] cu1 (out[i := q])
       else do { (advanced, cu) \<leftarrow> seq_advance cu1; case advanced of Inl e \<Rightarrow> Some (Inl e, cu, out[i := q])
         | Inr _ \<Rightarrow> seq_tile_loop [Suc i..<Suc i + k] cu (out[i := q]) })"
      unfolding def r'(1) pt fin[symmetric] by (simp add: cu1_def)
    have app: "take (Suc i) (out[i := q]) @ qs @ drop (Suc i + k) (out[i := q]) = take i out @ (q # qs) @ drop (i + Suc k) out" for qs
      using Suc.prems(2) by (simp add: take_Suc_conv_app_nth)
    have room: "Suc i + k \<le> length (out[i := q])" using Suc.prems(2) by simp
    have step: "wp (seq_tile_loop [Suc i..<Suc i + k] cu2 (out[i := q])) (\<lambda>(res, cu', out').
       case seq_walk (Suc k) ?left (cursor_cells cu) (cursor_states cu) ?bs of
         None \<Rightarrow> (\<exists>rej. res = Inl (CUDEC_ERR_CORRUPT_INPUT, rej))
       | Some (qs, st, bs) \<Rightarrow> res = Inr () \<and> cursor_ok cu' \<and> same_decode cu cu' \<and> cursor_states cu' = st \<and> live_bits (cu_reader cu') = bs \<and>
           unat (cu_emitted cu') = unat (cu_emitted cu) + Suc k \<and> out' = take i out @ qs @ drop (i + Suc k) out)"
      if c2: "cursor_ok cu2" "same_decode cu1 cu2" "cu_emitted cu2 = cu_emitted cu1"
        and mv: "(if ?left = 1 then Some (cursor_states cu, drop (f + mw + lw) ?bs) else seq_move (cursor_cells cu) (cursor_states cu) (drop (f + mw + lw) ?bs))
          = Some (cursor_states cu2, live_bits (cu_reader cu2))" for cu2
    proof -
      have s2: "cursor_cells cu2 = cursor_cells cu" "unat (cu_total cu2) - unat (cu_emitted cu2) = ?left - 1"
        "unat (cu_emitted cu2) = unat (cu_emitted cu) + 1" "k \<le> unat (cu_total cu2) - unat (cu_emitted cu2)"
        using c2 c1 Suc.prems(3) by (simp_all add: same_decode_def cursor_cells_def)
      have walk: "seq_walk (Suc k) ?left (cursor_cells cu) (cursor_states cu) ?bs = map_option (\<lambda>(qs, rest). (q # qs, rest))
          (seq_walk k (?left - 1) (cursor_cells cu) (cursor_states cu2) (live_bits (cu_reader cu2)))"
        using True mv by (simp add: here split: if_splits)
      have sd: "same_decode cu2 x \<Longrightarrow> same_decode cu x" for x using c2(2) c1(2) by (simp add: same_decode_def)
      show ?thesis
      proof (rule wp_mono[OF Suc.IH[OF c2(1) room s2(4)]], goal_cases)
        case (1 x)
        obtain res cu' out' where x: "x = (res, cu', out')" by (cases x)
        show ?case
        proof (cases "seq_walk k (?left - 1) (cursor_cells cu) (cursor_states cu2) (live_bits (cu_reader cu2))")
          case None
          then show ?thesis using 1 unfolding x walk s2(1,2) by simp
        next
          case (Some y)
          obtain qs st bs where y: "y = (qs, st, bs)" by (cases y)
          then show ?thesis using 1 Some sd[of cu'] app[of qs] s2(3) unfolding x walk s2(1,2) by simp
        qed
      qed
    qed
    show ?thesis
    proof (cases "?left = 1")
      case True
      show ?thesis unfolding unf if_P[OF True] using c1 True by (intro step) (simp_all add: same_decode_def)
    next
      case False
      show ?thesis
      proof (cases "seq_move (cursor_cells cu) (cursor_states cu) (drop (f + mw + lw) ?bs)")
        case None
        then obtain rej cu' where "seq_advance cu1 = Some (Inl (CUDEC_ERR_CORRUPT_INPUT, rej), cu')"
          using advance_contract[OF c1(1)] c1(3,4,7) by auto
        then show ?thesis unfolding unf if_not_P[OF False] using None True False by (simp add: wp_Some here)
      next
        case (Some y)
        obtain st bs where y: "y = (st, bs)" by (cases y)
        obtain cu2 where cu2: "seq_advance cu1 = Some (Inr (), cu2)" "cursor_ok cu2" "same_decode cu1 cu2" "cu_emitted cu2 = cu_emitted cu1"
            "cursor_states cu2 = st" "live_bits (cu_reader cu2) = bs"
          using advance_contract[OF c1(1)] c1(3,4,7) Some y by auto
        show ?thesis unfolding unf if_not_P[OF False] cu2(1) bind.bind_lunit prod.case sum.case
          using cu2 Some y False by (intro step) simp_all
      qed
    qed
  qed
qed

section \<open>Tiles, and the whole block\<close>

lemma tile_contract:
  assumes ok: "cursor_ok cu" "\<not> cu_finished cu" "cu_emitted cu < cu_total cu" and w: "want \<noteq> 0" "want \<le> cap" "unat cap \<le> length out"
  defines "left \<equiv> unat (cu_total cu) - unat (cu_emitted cu)"
  defines "k \<equiv> min (unat want) left"
  shows "wp (zstd_seq_decode_tile cu out cap want) (\<lambda>(res, cu', out').
     case seq_walk k left (cursor_cells cu) (cursor_states cu) (live_bits (cu_reader cu)) of
       None \<Rightarrow> (\<exists>rej. res = Inl (CUDEC_ERR_CORRUPT_INPUT, rej))
     | Some (qs, st, bs) \<Rightarrow>
         if k = left \<and> bs \<noteq> [] then \<exists>rej. res = Inl (CUDEC_ERR_CORRUPT_INPUT, rej)
         else res = Inr (of_nat k) \<and> out' = qs @ drop k out \<and> cursor_ok cu' \<and> cursor_cells cu' = cursor_cells cu \<and>
           cursor_states cu' = st \<and> live_bits (cu_reader cu') = bs \<and> cu_total cu' = cu_total cu \<and>
           unat (cu_emitted cu') = unat (cu_emitted cu) + k \<and> cu_finished cu' = (k = left))"
proof -
  have guard: "\<not> (want = 0 \<or> cap < want \<or> cu_finished cu \<or> cu_emitted cu \<ge> cu_total cu)" using ok w by auto
  have rem: "unat (cu_total cu - cu_emitted cu) = left" using unat_minus[of "cu_emitted cu" "cu_total cu"] ok(3) by (simp add: left_def w2n)
  define number where "number = (if want < cu_total cu - cu_emitted cu then want else cu_total cu - cu_emitted cu)"
  have nk: "unat number = k" using rem by (auto simp: number_def k_def w2n min_def)
  then have num: "number = of_nat k" by (metis word_unat_eq_iff unat_of_nat_less unat_less_exp)
  have k: "k \<le> length out" "k \<le> left" using w unfolding k_def by (auto simp: w2n)
  have fin: "unat (cu_emitted cu) + k = unat (cu_total cu) \<longleftrightarrow> k = left" using ok(3) by (auto simp: left_def w2n)
  have loop: "wp (seq_tile_loop [0..<k] cu out) (\<lambda>(res, cu', out').
     case seq_walk k left (cursor_cells cu) (cursor_states cu) (live_bits (cu_reader cu)) of
       None \<Rightarrow> (\<exists>rej. res = Inl (CUDEC_ERR_CORRUPT_INPUT, rej))
     | Some (qs, st, bs) \<Rightarrow> res = Inr () \<and> cursor_ok cu' \<and> same_decode cu cu' \<and> cursor_states cu' = st \<and> live_bits (cu_reader cu') = bs \<and>
         unat (cu_emitted cu') = unat (cu_emitted cu) + k \<and> out' = qs @ drop k out)"
    using seq_loop_contract[of cu 0 k out, unfolded add_0 take_0 append_Nil, folded left_def] ok(1) k by simp
  show ?thesis unfolding zstd_seq_decode_tile_def if_not_P[OF guard] Let_def number_def[symmetric] nk
  proof (rule wp_bindI[OF loop], goal_cases)
    case (1 x)
    obtain res cu' out' where x: "x = (res, cu', out')" by (cases x)
    show ?case
    proof (cases "seq_walk k left (cursor_cells cu) (cursor_states cu) (live_bits (cu_reader cu))")
      case None
      then show ?thesis using 1 unfolding x by (auto simp: wp_Some)
    next
      case (Some y)
      obtain qs st bs where y: "y = (qs, st, bs)" by (cases y)
      have r: "res = Inr ()" "cursor_ok cu'" "same_decode cu cu'" "cursor_states cu' = st" "live_bits (cu_reader cu') = bs"
        "unat (cu_emitted cu') = unat (cu_emitted cu) + k" "out' = qs @ drop k out" using 1 Some y unfolding x by simp_all
      have e: "cu_emitted cu' = cu_total cu' \<longleftrightarrow> k = left" using r(3,6) fin by (simp add: same_decode_def word_unat_eq_iff)
      have at_end: "zstd_at_end (cu_reader cu') \<longleftrightarrow> bs = []" using r(2,5) by (auto simp: cursor_ok_def live_reader_def at_end_live)
      have cells: "cursor_cells cu' = cursor_cells cu" "cu_finished cu' = False" "cu_total cu' = cu_total cu" "cursor_ok (cu'\<lparr>cu_finished := True\<rparr>)"
        "cursor_cells (cu'\<lparr>cu_finished := True\<rparr>) = cursor_cells cu" "cursor_states (cu'\<lparr>cu_finished := True\<rparr>) = st"
        using r(2,3,4) ok(2) by (simp_all add: same_decode_def cursor_cells_def cursor_ok_def cursor_states_def)
      show ?thesis using r cells unfolding x Some y prod.case sum.case r(1) e at_end option.case by (simp add: wp_Some num)
    qed
  qed
qed

lemma small_init:
  assumes "live_reader r" "L \<le> 9"
  shows "if L \<le> length (live_bits r)
     then \<exists>s r'. zstd_fse_init_state r L = Some (Inr s, r') \<and> live_reader r' \<and> unat s < 2 ^ L \<and>
       unat s = bits_value (take L (live_bits r)) \<and> live_bits r' = drop L (live_bits r)
     else \<exists>r' e. zstd_fse_init_state r L = Some (Inl e, r')"
proof -
  have u: "unat (of_nat L :: u32) = L" using assms(2) by (intro unat_of_nat_less) simp
  have p: "(2::nat) ^ L \<le> 512" using assms(2) power_increasing[of L 9 "2::nat"] by simp
  show ?thesis
    using live_read[OF assms(1), of "of_nat L"] live_read_short[OF assms(1), of "of_nat L"] assms(2) p
    by (auto simp: zstd_fse_init_state_def u unat_ucast_u64_u32)
qed

definition cursor_logs :: "zstd_seq_table \<Rightarrow> zstd_seq_table \<Rightarrow> zstd_seq_table \<Rightarrow> nat \<times> nat \<times> nat" where
  "cursor_logs l f m = (sqt_accuracy_log l, sqt_accuracy_log f, sqt_accuracy_log m)"

lemma begin_contract:
  assumes t: "field_table 35 l" "field_table 31 f" "field_table 52 m" and c: "number \<noteq> 0" and n: "p + unat n \<le> length s" "unat n < 2 ^ 60"
  defines "body \<equiv> take (unat n) (drop p s)"
  shows "wp (zstd_seq_begin s p n number l f m) (\<lambda>res.
     case if body = [] \<or> last body = 0 then None else seq_start (cursor_logs l f m) (stream_bits body) of
       None \<Rightarrow> (\<exists>rej. res = Inl (CUDEC_ERR_CORRUPT_INPUT, rej))
     | Some (st, bs) \<Rightarrow> \<exists>cu. res = Inr cu \<and> cursor_ok cu \<and> cursor_cells cu = (sqt_cells l, sqt_cells f, sqt_cells m) \<and> cursor_states cu = st \<and>
         live_bits (cu_reader cu) = bs \<and> cu_total cu = number \<and> cu_emitted cu = 0 \<and> \<not> cu_finished cu)"
proof -
  let ?l = "sqt_accuracy_log l" and ?f = "sqt_accuracy_log f" and ?m = "sqt_accuracy_log m"
  have present: "\<not> (number = 0 \<or> \<not> sqt_present l \<or> \<not> sqt_present f \<or> \<not> sqt_present m)" using t c by (simp add: field_table_def)
  have fits: "\<not> (sqt_table_size l > sqt_capacity l \<or> sqt_table_size f > sqt_capacity f \<or> sqt_table_size m > sqt_capacity m)"
    using table_size(1)[OF t(1)] table_size(1)[OF t(2)] table_size(1)[OF t(3)] t by (simp add: w2n field_table_def not_less)
  have logs: "?l \<le> 9" "?f \<le> 9" "?m \<le> 9" using t by (simp_all add: field_table_def)
  have len: "length body = unat n" using n(1) by (simp add: body_def)
  note def = zstd_seq_begin_def if_not_P[OF present] if_not_P[OF fits]
  show ?thesis
  proof (cases "n = 0")
    case True
    then have "body = []" by (simp add: body_def)
    then show ?thesis unfolding def if_P[OF True] by (simp add: wp_Some)
  next
    case n0: False
    then have bn: "body \<noteq> []" using len by (auto simp: unat_eq_0)
    let ?rd = "zstd_bit_reader_init (drop p s) n"
    have ok: "reader_ok ?rd" using n by (simp add: reader_ok_def zstd_bit_reader_init_def)
    have start: "wp (zstd_bit_start ?rd) (\<lambda>(st, r). if last body = 0 then st \<noteq> CUDEC_OK
        else st = CUDEC_OK \<and> live_reader r \<and> live_bits r = stream_bits body)"
    proof (rule wp_mono[OF start_contract[OF ok]], goal_cases)
      case (1 x)
      obtain st r where x: "x = (st, r)" by (cases x)
      have "drop p s ! (unat n - 1) = last body" using bn len n(1) n0 by (simp add: last_conv_nth body_def unat_gt_0)
      then show ?case using 1 n0 x unfolding zstd_bit_reader_init_def by (auto simp: live_reader_def body_def)
    qed
    from start obtain st r where sr: "zstd_bit_start ?rd = Some (st, r)" by (rule wpE) auto
    note start' = wpD[OF start sr, unfolded prod.case]
    show ?thesis
    proof (cases "last body = 0")
      case True
      then show ?thesis using start' unfolding def if_not_P[OF n0] sr by (simp add: wp_Some)
    next
      case False
      then have r: "st = CUDEC_OK" "live_reader r" "live_bits r = stream_bits body" using start' by simp_all
      define bs where "bs = stream_bits body"
      have spec: "(if body = [] \<or> last body = 0 then None else seq_start (cursor_logs l f m) (stream_bits body)) =
          (if length bs < ?l + ?f + ?m then None else Some ((bits_value (take ?l bs), bits_value (take ?f (drop ?l bs)),
            bits_value (take ?m (drop (?l + ?f) bs))), drop (?l + ?f + ?m) bs))"
        using bn False by (simp add: seq_start_def cursor_logs_def bs_def)
      note def2 = spec def if_not_P[OF n0] sr bind.bind_lunit prod.case r(1)
      show ?thesis
      proof (cases "?l \<le> length (live_bits r)")
        case False
        then obtain r' e where "zstd_fse_init_state r ?l = Some (Inl e, r')" using small_init[OF r(2) logs(1)] by auto
        then show ?thesis using False r(3) unfolding def2 by (simp add: wp_Some bs_def)
      next
        case l: True
        then obtain a ra where a: "zstd_fse_init_state r ?l = Some (Inr a, ra)" "live_reader ra" "unat a < 2 ^ ?l"
          "unat a = bits_value (take ?l bs)" "live_bits ra = drop ?l bs" using small_init[OF r(2) logs(1)] r(3) by (auto simp: bs_def)
        show ?thesis
        proof (cases "?f \<le> length (live_bits ra)")
          case False
          then obtain r' e where "zstd_fse_init_state ra ?f = Some (Inl e, r')" using small_init[OF a(2) logs(2)] by auto
          then show ?thesis using False a(5) l r(3) unfolding def2 by (auto simp: wp_Some a(1) bs_def)
        next
          case f: True
          then obtain b rb where b: "zstd_fse_init_state ra ?f = Some (Inr b, rb)" "live_reader rb" "unat b < 2 ^ ?f"
            "unat b = bits_value (take ?f (drop ?l bs))" "live_bits rb = drop (?l + ?f) bs"
            using small_init[OF a(2) logs(2)] a(5) by (auto simp: add.commute)
          show ?thesis
          proof (cases "?m \<le> length (live_bits rb)")
            case False
            then obtain r' e where "zstd_fse_init_state rb ?m = Some (Inl e, r')" using small_init[OF b(2) logs(3)] by auto
            then show ?thesis using False a(5) b(5) l f r(3) unfolding def2 by (auto simp: wp_Some a(1) b(1) bs_def)
          next
            case m: True
            then obtain c rc where c: "zstd_fse_init_state rb ?m = Some (Inr c, rc)" "live_reader rc" "unat c < 2 ^ ?m"
              "unat c = bits_value (take ?m (drop (?l + ?f) bs))" "live_bits rc = drop (?l + ?f + ?m) bs"
              using small_init[OF b(2) logs(3)] b(5) by (auto simp: add.commute add.left_commute)
            have "\<not> length bs < ?l + ?f + ?m" using l f m a(5) b(5) r(3) by (simp add: bs_def)
            then show ?thesis using a b c t unfolding def2
              by (simp add: wp_Some cursor_ok_def cursor_cells_def cursor_states_def)
          qed
        qed
      qed
    qed
  qed
qed

lemma sequences_contract:
  assumes t: "field_table 35 l" "field_table 31 f" "field_table 52 m" and c: "number \<noteq> 0" "number \<le> cap" "unat cap \<le> length out"
    and n: "p + unat n \<le> length s" "unat n < 2 ^ 60"
  shows "wp (zstd_decode_sequences s p n number l f m out cap) (\<lambda>(res, out').
     case seq_stream (unat number) (sqt_cells l, sqt_cells f, sqt_cells m) (cursor_logs l f m) (take (unat n) (drop p s)) of
       None \<Rightarrow> (\<exists>rej. res = Inl (CUDEC_ERR_CORRUPT_INPUT, rej))
     | Some qs \<Rightarrow> res = Inr () \<and> length qs = unat number \<and> out' = qs @ drop (unat number) out)"
proof -
  have guard: "\<not> (number = 0 \<or> cap < number)" using c by auto
  define body where "body = take (unat n) (drop p s)"
  note B = begin_contract[OF t c(1) n, folded body_def]
  from B obtain res where res: "zstd_seq_begin s p n number l f m = Some res" by (rule wpE)
  note q = wpD[OF B res]
  note def = zstd_decode_sequences_def if_not_P[OF guard] res bind.bind_lunit
  let ?T = "(sqt_cells l, sqt_cells f, sqt_cells m)"
  show ?thesis
  proof (cases "if body = [] \<or> last body = 0 then None else seq_start (cursor_logs l f m) (stream_bits body)")
    case None
    then show ?thesis using q unfolding def body_def[symmetric] by (auto simp: wp_Some seq_stream_def split: if_splits)
  next
    case (Some y)
    obtain st bs where y: "y = (st, bs)" by (cases y)
    obtain cu where cu: "res = Inr cu" "cursor_ok cu" "cursor_cells cu = ?T" "cursor_states cu = st" "live_bits (cu_reader cu) = bs"
      "cu_total cu = number" "cu_emitted cu = 0" "\<not> cu_finished cu" using q Some y by auto
    have spec: "seq_stream (unat number) ?T (cursor_logs l f m) body = (case seq_walk (unat number) (unat number) ?T st bs of Some (qs, _, []) \<Rightarrow> Some qs | _ \<Rightarrow> None)"
      using Some y by (simp add: seq_stream_def split: if_splits)
    have pos: "cu_emitted cu < cu_total cu" using c(1) cu(6,7) by (simp add: word_gt_0)
    note T = tile_contract[OF cu(2,8) pos c(1,2,3), unfolded cu(3,4,5,6,7)]
    show ?thesis unfolding def cu(1) sum.case body_def[symmetric] spec
    proof (rule wp_bindI[OF T], goal_cases)
      case (1 x)
      obtain r cu' out' where x: "x = (r, cu', out')" by (cases x)
      show ?case
      proof (cases "seq_walk (unat number) (unat number) ?T st bs")
        case None
        then show ?thesis using 1 unfolding x by (auto simp: wp_Some)
      next
        case (Some y)
        obtain qs st' bs' where y: "y = (qs, st', bs')" by (cases y)
        have len: "length qs = unat number" using Some y seq_walk_length by blast
        show ?thesis using 1 Some y len unfolding x by (cases bs') (auto simp: wp_Some)
      qed
    qed
  qed
qed

section \<open>The tiles of a decode\<close>

lemma tiles_compose:
  assumes "cursor_ok cu" "\<not> cu_finished cu" "j \<noteq> 0" "k \<noteq> 0" "unat j + unat k \<le> unat (cu_total cu) - unat (cu_emitted cu)"
    and "j + k \<le> cap" "unat cap \<le> length out" "unat cap \<le> length out'"
  shows "wp (zstd_seq_decode_tile cu out cap (j + k)) (\<lambda>(whole, cu0, out0).
     wp (zstd_seq_decode_tile cu out cap j) (\<lambda>(a, cu1, out1). case a of
       Inl _ \<Rightarrow> \<exists>rej. whole = Inl (CUDEC_ERR_CORRUPT_INPUT, rej)
     | Inr _ \<Rightarrow> wp (zstd_seq_decode_tile cu1 out' cap k) (\<lambda>(b, cu2, out2). case b of
         Inl _ \<Rightarrow> \<exists>rej. whole = Inl (CUDEC_ERR_CORRUPT_INPUT, rej)
       | Inr _ \<Rightarrow> whole = Inr (j + k) \<and> take (unat j + unat k) out0 = take (unat j) out1 @ take (unat k) out2 \<and>
           cursor_states cu0 = cursor_states cu2 \<and> live_bits (cu_reader cu0) = live_bits (cu_reader cu2) \<and>
           cu_emitted cu0 = cu_emitted cu2 \<and> cu_finished cu0 = cu_finished cu2)))"
proof -
  define left where "left = unat (cu_total cu) - unat (cu_emitted cu)"
  let ?T = "cursor_cells cu" and ?s = "cursor_states cu" and ?bs = "live_bits (cu_reader cu)"
  have jk: "unat (j + k) = unat j + unat k" using assms(5) unat_less_exp[of "cu_total cu"] by (intro unat_plus) linarith
  have pos: "0 < unat j" "0 < unat k" using assms(3,4) by (simp_all add: unat_gt_0)
  have lt: "cu_emitted cu < cu_total cu" using assms(5) pos by (simp add: w2n)
  have nz: "j + k \<noteq> 0" "j \<le> cap" "k \<le> cap" using jk pos assms(6) by (auto simp: w2n word_unat_eq_iff)
  have mins: "min (unat (j + k)) left = unat j + unat k" "min (unat j) left = unat j" using jk assms(5) by (simp_all add: left_def)
  note W = tile_contract[OF assms(1,2) lt nz(1) assms(6,7), folded left_def, unfolded mins]
  note A = tile_contract[OF assms(1,2) lt assms(3) nz(2) assms(7), folded left_def, unfolded mins]
  have split: "seq_walk (unat j + unat k) left ?T ?s ?bs = (case seq_walk (unat j) left ?T ?s ?bs of None \<Rightarrow> None
     | Some (qs, st, bs) \<Rightarrow> map_option (\<lambda>(qs', rest). (qs @ qs', rest)) (seq_walk (unat k) (left - unat j) ?T st bs))"
    by (rule seq_walk_split)
  show ?thesis
  proof (rule wp_mono[OF W], goal_cases)
    case (1 w)
    obtain whole cu0 out0 where w: "w = (whole, cu0, out0)" by (cases w)
    note whole = 1[unfolded w prod.case split]
    show ?case unfolding w prod.case
    proof (rule wp_mono[OF A], goal_cases)
      case (1 x)
      obtain a cu1 out1 where x: "x = (a, cu1, out1)" by (cases x)
      note first = 1[unfolded x prod.case]
      show ?case
      proof (cases "seq_walk (unat j) left ?T ?s ?bs")
        case None
        then show ?thesis using first whole unfolding x by auto
      next
        case (Some y)
        obtain qs st bs where y: "y = (qs, st, bs)" by (cases y)
        have lq: "length qs = unat j" using Some y seq_walk_length by blast
        have jl: "unat j \<noteq> left" using pos assms(5) by (simp add: left_def)
        have f: "a = Inr (of_nat (unat j))" "out1 = qs @ drop (unat j) out" "cursor_ok cu1" "cursor_cells cu1 = ?T" "cursor_states cu1 = st"
          "live_bits (cu_reader cu1) = bs" "cu_total cu1 = cu_total cu" "unat (cu_emitted cu1) = unat (cu_emitted cu) + unat j" "\<not> cu_finished cu1"
          using first Some y jl by simp_all
        have lt1: "cu_emitted cu1 < cu_total cu1" using f(7,8) assms(5) pos by (simp add: w2n)
        have left1: "unat (cu_total cu1) - unat (cu_emitted cu1) = left - unat j" using f(7,8) by (simp add: left_def)
        have min1: "min (unat k) (left - unat j) = unat k" using assms(5) by (simp add: left_def)
        have last1: "unat k = left - unat j \<longleftrightarrow> unat j + unat k = left" using assms(5) by (auto simp: left_def)
        note B = tile_contract[OF f(3,9) lt1 assms(4) nz(3) assms(8), unfolded left1 min1, unfolded f(4-8) last1]
        show ?thesis unfolding x prod.case f(1) sum.case
        proof (rule wp_mono[OF B], goal_cases)
          case (1 z)
          obtain b cu2 out2 where z: "z = (b, cu2, out2)" by (cases z)
          show ?case
          proof (cases "seq_walk (unat k) (left - unat j) ?T st bs")
            case None
            then show ?thesis using 1 whole Some y unfolding z by auto
          next
            case s2: (Some y2)
            obtain qs2 st2 bs2 where y2: "y2 = (qs2, st2, bs2)" by (cases y2)
            have lq2: "length qs2 = unat k" using s2 y2 seq_walk_length by blast
            show ?thesis
            proof (cases "unat j + unat k = left \<and> bs2 \<noteq> []")
              case True
              then show ?thesis using 1 whole Some y s2 y2 unfolding z by auto
            next
              case False
              then show ?thesis using 1 whole Some y s2 y2 lq lq2 f(2) unfolding z by (auto simp: word_unat_eq_iff)
            qed
          qed
        qed
      qed
    qed
  qed
qed

end
