(* ===== verification/Zstd_Blocks.thy ===== *)
theory Zstd_Blocks
  imports Zstd_Seq_Decode Zstd_Literals Zstd_Frame Zstd_Repcode
begin

text \<open>
  The blocks of a frame, \<open>src/zstd_blocks.h\<close>: the state carried across them, the decode of a compressed block
  through the sections, the loop over the blocks. The state is passed and returned. What earlier work left in
  the scratch of the sections is an argument, one for every block, named by its position.
\<close>

datatype zstd_blocks_stage =
    kZstdBlocksStageNone
  | kZstdBlocksStageBlockHeader
  | kZstdBlocksStageLiterals
  | kZstdBlocksStageSequenceHeader
  | kZstdBlocksStageSequenceTable
  | kZstdBlocksStageSequences
  | kZstdBlocksStageRepcode
  | kZstdBlocksStageExecute
  | kZstdBlocksStageContentSize

datatype zstd_blocks_reject =
    kZstdBlocksRejectNone
  | kZstdBlocksRejectBadRequest
  | kZstdBlocksRejectContentPastCapacity
  | kZstdBlocksRejectBlockPastDeclaration
  | kZstdBlocksRejectContentSizeMismatch
  | kZstdBlocksRejectSequenceStorageTooSmall
  | kZstdBlocksRejectLiteralsStorageTooSmall

type_synonym blocks_error = "cudec_status \<times> zstd_blocks_reject"

record zstd_frame_state =
  fs_literals_table :: zstd_literals_table
  fs_litlen :: zstd_seq_table
  fs_offset :: zstd_seq_table
  fs_matchlen :: zstd_seq_table
  fs_repcodes :: zstd_repcode_history
  fs_literals :: "u8 list"
  fs_literals_capacity :: u64
  fs_sequences :: "zstd_sequence list"
  fs_sequences_capacity :: u32
  fs_offsets :: "u64 list"
  fs_offsets_capacity :: u32
  fs_destinations :: "u64 list"
  fs_destinations_capacity :: u32

text \<open>The scratch as a block finds it; the sequences scratch for each of the three fields.\<close>

record block_scratch =
  bs_literals :: zstd_literals_scratch
  bs_starts :: "u32 list"
  bs_seq :: "nat \<Rightarrow> zstd_seq_scratch"

definition absent_table :: "zstd_seq_table \<Rightarrow> zstd_seq_table" where
  "absent_table table = table\<lparr>sqt_table_size := 0, sqt_accuracy_log := 0, sqt_present := False\<rparr>"

definition zstd_frame_state_init :: "zstd_frame_state \<Rightarrow> zstd_frame_state" where
  "zstd_frame_state_init state = state\<lparr>
     fs_literals_table := (fs_literals_table state)\<lparr>lt_table_log := 0, lt_present := False\<rparr>,
     fs_litlen := absent_table (fs_litlen state), fs_offset := absent_table (fs_offset state),
     fs_matchlen := absent_table (fs_matchlen state), fs_repcodes := zstd_repcode_init\<rparr>"

text \<open>The rung of a stop is the stage's own.\<close>

datatype blocks_rung =
    Rung_None
  | Rung_Frame zstd_frame_reject
  | Rung_Literals zstd_literals_reject
  | Rung_Seq zstd_seq_reject
  | Rung_Repcode zstd_repcode_reject
  | Rung_Exec zstd_exec_reject

record zstd_blocks_report =
  rp_stage :: zstd_blocks_stage
  rp_rung :: blocks_rung
  rp_blocks :: u64
  rp_sequences :: u64
  rp_repeats :: u64
  rp_path :: "zstd_repcode_path \<Rightarrow> u64"

definition zstd_blocks_report_init :: zstd_blocks_report where
  "zstd_blocks_report_init = \<lparr>rp_stage = kZstdBlocksStageNone, rp_rung = Rung_None, rp_blocks = 0, rp_sequences = 0, rp_repeats = 0,
     rp_path = (\<lambda>_. 0)\<rparr>"

definition zstd_blocks_stop :: "zstd_blocks_report \<Rightarrow> zstd_blocks_stage \<Rightarrow> blocks_rung \<Rightarrow> zstd_blocks_report" where
  "zstd_blocks_stop report stage rung = report\<lparr>rp_stage := stage, rp_rung := rung\<rparr>"

section \<open>A compressed block\<close>

text \<open>The three targets of the table loop.\<close>

definition field_of :: "nat \<Rightarrow> zstd_frame_state \<Rightarrow> zstd_seq_table" where
  "field_of field state = (if field = kZstdSeqFieldLitLen then fs_litlen state
     else if field = kZstdSeqFieldOffset then fs_offset state else fs_matchlen state)"

definition set_field :: "nat \<Rightarrow> zstd_seq_table \<Rightarrow> zstd_frame_state \<Rightarrow> zstd_frame_state" where
  "set_field field table state = (if field = kZstdSeqFieldLitLen then state\<lparr>fs_litlen := table\<rparr>
     else if field = kZstdSeqFieldOffset then state\<lparr>fs_offset := table\<rparr> else state\<lparr>fs_matchlen := table\<rparr>)"

fun block_tables :: "u8 list \<Rightarrow> (nat \<Rightarrow> zstd_seq_scratch) \<Rightarrow> (nat \<times> nat) list \<Rightarrow> nat \<Rightarrow> u64 \<Rightarrow> zstd_frame_state \<Rightarrow>
    ((seq_error + nat \<times> u64) \<times> zstd_frame_state) option" where
  "block_tables s scr [] sec remaining state = Some (Inr (sec, remaining), state)"
| "block_tables s scr ((field, mode) # rest) sec remaining state = do {
     (loaded, table) \<leftarrow> zstd_seq_load_table field mode s sec remaining (scr field) (field_of field state);
     let state = set_field field table state;
     case loaded of
       Inl e \<Rightarrow> Some (Inl e, state)
     | Inr consumed \<Rightarrow> block_tables s scr rest (sec + unat consumed) (remaining - consumed) state
   }"

text \<open>The tables and the sequences of a block that has some; the stage with a refusal.\<close>

definition block_sequences :: "u8 list \<Rightarrow> (nat \<Rightarrow> zstd_seq_scratch) \<Rightarrow> zstd_seq_section_header \<Rightarrow> nat \<Rightarrow> u64 \<Rightarrow> zstd_frame_state \<Rightarrow>
    (((zstd_blocks_stage \<times> seq_error) + unit) \<times> zstd_frame_state) option" where
  "block_sequences s scr h sec remaining state = do {
     (loaded, state) \<leftarrow> block_tables s scr [(kZstdSeqFieldLitLen, sh_litlen_mode h), (kZstdSeqFieldOffset, sh_offset_mode h),
       (kZstdSeqFieldMatchLen, sh_matchlen_mode h)] sec remaining state;
     case loaded of
       Inl e \<Rightarrow> Some (Inl (kZstdBlocksStageSequenceTable, e), state)
     | Inr (sec, remaining) \<Rightarrow> do {
         (decoded, sequences) \<leftarrow> zstd_decode_sequences s sec remaining (sh_sequence_count h) (fs_litlen state) (fs_offset state) (fs_matchlen state)
           (fs_sequences state) (fs_sequences_capacity state);
         let state = state\<lparr>fs_sequences := sequences\<rparr>;
         case decoded of
           Inl e \<Rightarrow> Some (Inl (kZstdBlocksStageSequences, e), state)
         | Inr _ \<Rightarrow> Some (Inr (), state)
       }
   }"

definition count_sequence :: "zstd_sequence \<Rightarrow> zstd_blocks_report \<Rightarrow> zstd_blocks_report option" where
  "count_sequence q report = do {
     path \<leftarrow> zstd_repcode_classify (sq_offset_value q) (sq_literals_length q);
     let report = report\<lparr>rp_sequences := rp_sequences report + 1, rp_path := (rp_path report)(path := rp_path report path + 1)\<rparr>;
     Some (if sq_offset_value q \<le> kZstdRepcodeMaxSlotValue then report\<lparr>rp_repeats := rp_repeats report + 1\<rparr> else report)
   }"

fun block_resolve :: "nat list \<Rightarrow> zstd_frame_state \<Rightarrow> zstd_blocks_report \<Rightarrow>
    (((cudec_status \<times> zstd_repcode_reject) + unit) \<times> zstd_frame_state \<times> zstd_blocks_report) option" where
  "block_resolve [] state report = Some (Inr (), state, report)"
| "block_resolve (i # is) state report = do {
     q \<leftarrow> at (fs_sequences state) i;
     (st, off, rung, history) \<leftarrow> zstd_repcode_resolve (Some (fs_repcodes state)) (sq_offset_value q) (sq_literals_length q);
     offsets \<leftarrow> put (fs_offsets state) i off;
     let state = state\<lparr>fs_repcodes := (case history of None \<Rightarrow> fs_repcodes state | Some h \<Rightarrow> h), fs_offsets := offsets\<rparr>;
     if st \<noteq> CUDEC_OK then Some (Inl (st, rung), state, report)
     else do { report \<leftarrow> count_sequence q report; block_resolve is state report }
   }"

text \<open>The offsets, the sum and the copies.\<close>

definition block_execute :: "u32 \<Rightarrow> u64 \<Rightarrow> u64 \<Rightarrow> zstd_frame_state \<Rightarrow> u64 \<Rightarrow> u8 list \<Rightarrow> u64 \<Rightarrow> u64 \<Rightarrow> zstd_blocks_report \<Rightarrow>
    ((blocks_error + u64) \<times> zstd_frame_state \<times> u8 list \<times> zstd_blocks_report) option" where
  "block_execute number literals_size block_max state win dst capacity produced report = do {
     (resolved, state, report) \<leftarrow> block_resolve [0..<unat number] state report;
     case resolved of
       Inl (st, rung) \<Rightarrow> Some (Inl (st, kZstdBlocksRejectNone), state, dst, zstd_blocks_stop report kZstdBlocksStageRepcode (Rung_Repcode rung))
     | Inr _ \<Rightarrow> do {
         (executed, dst) \<leftarrow> exec_whole_block (fs_sequences state) number (fs_offsets state) (fs_literals state) literals_size block_max
           (fs_destinations state) (number + 1) win dst capacity produced;
         case executed of
           Inl (st, rung) \<Rightarrow> Some (Inl (st, kZstdBlocksRejectNone), state, dst, zstd_blocks_stop report kZstdBlocksStageExecute (Rung_Exec rung))
         | Inr produced \<Rightarrow> Some (Inr produced, state, dst, report)
       }
   }"

definition zstd_decode_compressed_block :: "u8 list \<Rightarrow> nat \<Rightarrow> u64 \<Rightarrow> u64 \<Rightarrow> block_scratch \<Rightarrow> zstd_frame_state \<Rightarrow> u64 \<Rightarrow> u8 list \<Rightarrow> u64 \<Rightarrow>
    u64 \<Rightarrow> zstd_blocks_report \<Rightarrow> ((blocks_error + u64) \<times> zstd_frame_state \<times> u8 list \<times> zstd_blocks_report) option" where
  "zstd_decode_compressed_block s body body_size win scr state block_max dst capacity produced report = do {
     (lit, table, literals) \<leftarrow> zstd_decode_literals (drop body s) body_size win (fs_literals_table state) (bs_literals scr) (bs_starts scr)
       (fs_literals state) (fs_literals_capacity state);
     let state = state\<lparr>fs_literals_table := table, fs_literals := literals\<rparr>;
     case lit of
       Inl (st, rung) \<Rightarrow> Some (Inl (st, kZstdBlocksRejectNone), state, dst, zstd_blocks_stop report kZstdBlocksStageLiterals (Rung_Literals rung))
     | Inr (literals_size, consumed) \<Rightarrow> do {
         let sec = body + unat consumed; let remaining = body_size - consumed;
         parsed \<leftarrow> zstd_parse_seq_section_header (drop sec s) remaining block_max;
         case parsed of
           Inl (st, rung) \<Rightarrow> Some (Inl (st, kZstdBlocksRejectNone), state, dst, zstd_blocks_stop report kZstdBlocksStageSequenceHeader (Rung_Seq rung))
         | Inr (h, seq_consumed) \<Rightarrow>
             if sh_sequence_count h > fs_sequences_capacity state
             then Some (Inl (CUDEC_ERR_OUTPUT_TOO_SMALL, kZstdBlocksRejectSequenceStorageTooSmall), state, dst,
               zstd_blocks_stop report kZstdBlocksStageSequences Rung_None)
             else do {
               (sequenced, state) \<leftarrow> (if sh_sequence_count h = 0 then Some (Inr (), state)
                 else block_sequences s (bs_seq scr) h (sec + unat seq_consumed) (remaining - seq_consumed) state);
               case sequenced of
                 Inl (stage, st, rung) \<Rightarrow> Some (Inl (st, kZstdBlocksRejectNone), state, dst, zstd_blocks_stop report stage (Rung_Seq rung))
               | Inr _ \<Rightarrow> block_execute (sh_sequence_count h) literals_size block_max state win dst capacity produced report
             }
       }
   }"

section \<open>The blocks\<close>

text \<open>The bytes of a raw block, or one byte of an RLE block again and again.\<close>

fun block_copy :: "u8 list \<Rightarrow> bool \<Rightarrow> nat \<Rightarrow> nat list \<Rightarrow> nat \<Rightarrow> u8 list \<Rightarrow> u8 list option" where
  "block_copy s raw body [] produced dst = Some dst"
| "block_copy s raw body (i # is) produced dst = do {
     v \<leftarrow> at s (if raw then body + i else body);
     dst \<leftarrow> put dst (produced + i) v;
     block_copy s raw body is produced dst
   }"

fun blocks_loop :: "nat \<Rightarrow> u8 list \<Rightarrow> u64 \<Rightarrow> u64 \<Rightarrow> (nat \<Rightarrow> block_scratch) \<Rightarrow> u64 \<Rightarrow> u64 \<Rightarrow> u64 \<Rightarrow> u64 \<Rightarrow> zstd_frame_state \<Rightarrow> u8 list \<Rightarrow>
    zstd_blocks_report \<Rightarrow> ((blocks_error + u64 \<times> u64) \<times> zstd_frame_state \<times> u8 list \<times> zstd_blocks_report) option" where
  "blocks_loop 0 s n win scr block_max declared pos produced state dst report =
     Some (Inl (CUDEC_ERR_CORRUPT_INPUT, kZstdBlocksRejectNone), state, dst,
       zstd_blocks_stop report kZstdBlocksStageBlockHeader (Rung_Frame kZstdFrameRejectBlockHeaderTruncated))"
| "blocks_loop (Suc fuel) s n win scr block_max declared pos produced state dst report = do {
     parsed \<leftarrow> zstd_parse_block_header s (unat pos) (n - pos) win;
     case parsed of
       Inl (st, rung) \<Rightarrow> Some (Inl (st, kZstdBlocksRejectNone), state, dst, zstd_blocks_stop report kZstdBlocksStageBlockHeader (Rung_Frame rung))
     | Inr block \<Rightarrow> do {
         let report = report\<lparr>rp_blocks := rp_blocks report + 1\<rparr>; let body = unat pos + 3;
         (res, state, dst, report) \<leftarrow>
           (if zb_block_type block = kZstdBlockTypeRaw \<or> zb_block_type block = kZstdBlockTypeRle then do {
              let regenerated = ucast (zb_block_size block);
              if regenerated > declared - produced
              then Some (Inl (CUDEC_ERR_CORRUPT_INPUT, kZstdBlocksRejectBlockPastDeclaration), state, dst,
                zstd_blocks_stop report kZstdBlocksStageContentSize Rung_None)
              else do {
                dst \<leftarrow> block_copy s (zb_block_type block = kZstdBlockTypeRaw) body [0..<unat regenerated] (unat produced) dst;
                Some (Inr (produced + regenerated), state, dst, report)
              }
            }
            else zstd_decode_compressed_block s body (ucast (zb_body_size block)) win (scr (unat pos)) state block_max dst declared produced report);
         case res of
           Inl e \<Rightarrow> Some (Inl e, state, dst, report)
         | Inr produced \<Rightarrow> do {
             let pos = pos + (3 + ucast (zb_body_size block));
             if zb_last_block block then Some (Inr (produced, pos), state, dst, report)
             else blocks_loop fuel s n win scr block_max declared pos produced state dst report
           }
       }
   }"

definition blocks_fuel :: "u64 \<Rightarrow> nat" where
  "blocks_fuel n = unat (n div 3 + 1)"

definition zstd_decode_blocks :: "u8 list \<Rightarrow> u64 \<Rightarrow> zstd_frame_header \<Rightarrow> (nat \<Rightarrow> block_scratch) \<Rightarrow> zstd_frame_state \<Rightarrow> u8 list \<Rightarrow> u64 \<Rightarrow>
    ((blocks_error + u64 \<times> u64) \<times> zstd_frame_state \<times> u8 list \<times> zstd_blocks_report) option" where
  "zstd_decode_blocks s n header scr state dst room =
     (let report = zstd_blocks_report_init in
      if fs_destinations_capacity state = 0 \<or> fs_offsets_capacity state < fs_sequences_capacity state \<or>
         fs_destinations_capacity state - 1 < fs_sequences_capacity state
      then Some (Inl (CUDEC_ERR_INVALID_ARGUMENT, kZstdBlocksRejectBadRequest), state, dst, report)
      else do {
        let block_max = zstd_literals_block_maximum (zf_window_size header); let declared = zf_content_size header;
        if fs_literals_capacity state < block_max
        then Some (Inl (CUDEC_ERR_INVALID_ARGUMENT, kZstdBlocksRejectLiteralsStorageTooSmall), state, dst, report)
        else if declared > room
        then Some (Inl (CUDEC_ERR_OUTPUT_TOO_SMALL, kZstdBlocksRejectContentPastCapacity), state, dst,
          zstd_blocks_stop report kZstdBlocksStageContentSize Rung_None)
        else do {
          (res, state, dst, report) \<leftarrow> blocks_loop (blocks_fuel n) s n (zf_window_size header) scr block_max declared 0 0 state dst report;
          case res of
            Inl e \<Rightarrow> Some (Inl e, state, dst, report)
          | Inr (produced, pos) \<Rightarrow>
              if produced \<noteq> declared
              then Some (Inl (CUDEC_ERR_CORRUPT_INPUT, kZstdBlocksRejectContentSizeMismatch), state, dst,
                zstd_blocks_stop report kZstdBlocksStageContentSize Rung_None)
              else Some (Inr (produced, pos), state, dst, report)
        }
      })"

section \<open>What the sections mean\<close>

type_synonym history = "u64 \<times> u64 \<times> u64"

text \<open>The sequences with their offsets, and the history after them.\<close>

fun resolve_all :: "history \<Rightarrow> zstd_sequence list \<Rightarrow> ((zstd_sequence \<times> nat) list \<times> history) option" where
  "resolve_all h [] = Some ([], h)"
| "resolve_all h (q # qs) = (let (off, h') = repcode_spec h (sq_offset_value q) (sq_literals_length q \<noteq> 0) in
     if off = 0 then None else map_option (\<lambda>(qs', h''). ((q, unat off) # qs', h'')) (resolve_all h' qs))"

type_synonym seq_tables = "zstd_seq_table \<times> zstd_seq_table \<times> zstd_seq_table"

fun tables_named :: "(nat \<Rightarrow> zstd_seq_scratch) \<Rightarrow> nat \<times> nat \<times> nat \<Rightarrow> u8 list \<Rightarrow> nat \<Rightarrow> seq_tables \<Rightarrow> seq_tables \<Rightarrow> nat \<Rightarrow> bool" where
  "tables_named scr (ml, mo, mm) s n (l, f, m) (l', f', m') used \<longleftrightarrow> (\<exists>u1 u2 u3. table_named 0 ml s n (scr 0) l l' u1 \<and>
     table_named 1 mo (drop u1 s) (n - u1) (scr 1) f f' u2 \<and>
     table_named 2 mm (drop (u1 + u2) s) (n - (u1 + u2)) (scr 2) m m' u3 \<and> used = u1 + u2 + u3)"

fun tables_ok :: "seq_tables \<Rightarrow> bool" where
  "tables_ok (l, f, m) \<longleftrightarrow> table_slot 35 l \<and> table_slot 31 f \<and> table_slot 52 m"

fun tables_cells :: "seq_tables \<Rightarrow> seq_cells" where
  "tables_cells (l, f, m) = (sqt_cells l, sqt_cells f, sqt_cells m)"

fun tables_logs :: "seq_tables \<Rightarrow> nat \<times> nat \<times> nat" where
  "tables_logs (l, f, m) = cursor_logs l f m"

definition sec_three_modes :: "u8 list \<Rightarrow> nat \<times> nat \<times> nat" where
  "sec_three_modes s = (sec_modes s div 64, sec_modes s div 16 mod 4, sec_modes s div 4 mod 4)"

text \<open>The sequences section: its sequences and the tables it leaves behind.\<close>

definition seq_section :: "u8 list \<Rightarrow> nat \<Rightarrow> nat \<Rightarrow> (nat \<Rightarrow> zstd_seq_scratch) \<Rightarrow> seq_tables \<Rightarrow> zstd_sequence list \<Rightarrow> seq_tables \<Rightarrow> bool" where
  "seq_section s n bm scr ts qs ts' \<longleftrightarrow> sec_accepted s n bm \<and>
     (if sec_count s = 0 then qs = [] \<and> ts' = ts
      else \<exists>used. tables_named scr (sec_three_modes s) (drop (sec_bytes s) s) (n - sec_bytes s) ts ts' used \<and>
        seq_stream (sec_count s) (tables_cells ts') (tables_logs ts')
          (take (n - sec_bytes s - used) (drop (sec_bytes s + used) s)) = Some qs)"

text \<open>What is carried from block to block: the tree, the tables, the history.\<close>

type_synonym carried = "(u8 list \<times> nat) option \<times> seq_tables \<times> history"

fun block_means :: "nat \<Rightarrow> nat \<Rightarrow> block_scratch \<Rightarrow> u8 list \<Rightarrow> nat \<Rightarrow> carried \<Rightarrow> u8 list \<Rightarrow> carried \<Rightarrow> u8 list \<Rightarrow> bool" where
  "block_means win bm scr s n (tree, ts, h) out (tree', ts', h') out' \<longleftrightarrow>
     (\<exists>lits qs qos. lit_section s n win (ls_weights_scratch (bs_literals scr)) tree lits tree' \<and>
       seq_section (drop (lit_consumed s) s) (n - lit_consumed s) bm (bs_seq scr) ts qs ts' \<and>
       resolve_all h qs = Some (qos, h') \<and> block_bytes win qos lits out = Some out' \<and> length out' \<le> length out + bm)"

lemma lit_section_unique:
  "lit_section s n win scr prev out left \<Longrightarrow> lit_section s n win scr prev out' left' \<Longrightarrow> out = out' \<and> left = left'"
proof -
  assume a: "lit_section s n win scr prev out left" "lit_section s n win scr prev out' left'"
  show ?thesis
  proof (cases "lit_type s = 0 \<or> lit_type s = 1")
    case True
    then show ?thesis using a by (auto simp: lit_section_def)
  next
    case False
    define ok where "ok o' l ws L used \<longleftrightarrow> l = Some (ws, L) \<and>
        (if lit_type s = 2 then huf_described (drop (lit_header_bytes s) s) (lit_payload s) 256 11 scr ws L \<and>
           used = huf_description_bytes (drop (lit_header_bytes s) s)
         else prev = Some (ws, L) \<and> used = 0) \<and>
        (let ps = take (lit_payload s - used) (drop (lit_header_bytes s + used) s) in
           (if lit_format s = 0 then huf_stream ws L (lit_regenerated s) ps else four_spec ws L (lit_regenerated s) ps) = Some o')" for o' l ws L used
    have "\<exists>ws L used. ok out left ws L used" using a(1) False unfolding lit_section_def ok_def by (simp only: if_False de_Morgan_disj)
    then obtain ws L used where 1: "ok out left ws L used" by blast
    have "\<exists>ws L used. ok out' left' ws L used" using a(2) False unfolding lit_section_def ok_def by (simp only: if_False de_Morgan_disj)
    then obtain ws' L' used' where 2: "ok out' left' ws' L' used'" by blast
    have same: "ws' = ws \<and> L' = L \<and> used' = used"
    proof (cases "lit_type s = 2")
      case True
      then show ?thesis using 1 2 huf_described_unique[of "drop (lit_header_bytes s) s" "lit_payload s" 256 11 scr ws L ws' L']
        unfolding ok_def by (simp only: if_True)
    next
      case False
      then have "prev = Some (ws, L)" "prev = Some (ws', L')" "used = 0" "used' = 0" using 1 2 unfolding ok_def by (simp_all only: if_False)
      then show ?thesis by simp
    qed
    show ?thesis using 1 2 unfolding same[THEN conjunct1] same[THEN conjunct2, THEN conjunct1] same[THEN conjunct2, THEN conjunct2] ok_def Let_def
      by (simp only:) simp
  qed
qed

section \<open>The sections are decoded\<close>

lemma count_sequence_some: "sq_offset_value q \<noteq> 0 \<Longrightarrow> \<exists>r. count_sequence q report = Some r"
proof -
  assume nz: "sq_offset_value q \<noteq> 0"
  have "\<exists>p. zstd_repcode_classify (sq_offset_value q) (sq_literals_length q) = Some p"
  proof (cases "sq_offset_value q > 3")
    case True
    then show ?thesis by (simp add: zstd_repcode_classify_def repcode_consts)
  next
    case False
    from offset_value_cases[OF nz False] show ?thesis
      by (elim disjE) (simp_all add: zstd_repcode_classify_def repcode_consts repcode_path_of_def at_def)
  qed
  then show ?thesis by (auto simp: count_sequence_def Let_def)
qed

lemma block_resolve_contract:
  assumes "fs_repcodes state = [a, b, c]" "0 \<notin> {a, b, c}" "i \<le> n" "n \<le> length (fs_sequences state)" "n \<le> length (fs_offsets state)"
    and "\<forall>q\<in>set (take n (fs_sequences state)). sq_offset_value q \<noteq> 0"
  shows "wp (block_resolve [i..<n] state report) (\<lambda>(res, state', report').
     \<exists>h os. state' = state\<lparr>fs_repcodes := h, fs_offsets := os\<rparr> \<and> length os = length (fs_offsets state) \<and> take i os = take i (fs_offsets state) \<and>
     (case resolve_all (a, b, c) (drop i (take n (fs_sequences state))) of
        None \<Rightarrow> (\<exists>rung. res = Inl (CUDEC_ERR_CORRUPT_INPUT, rung))
      | Some (qos, (a', b', c')) \<Rightarrow> res = Inr () \<and> h = [a', b', c'] \<and> 0 \<notin> {a', b', c'} \<and>
          seqs_from (fs_sequences state) os i n = qos))"
  using assms
proof (induction "n - i" arbitrary: i state report a b c)
  case 0
  then show ?case by (auto simp: wp_Some intro!: exI[of _ "fs_repcodes state"] exI[of _ "fs_offsets state"])
next
  case (Suc d)
  let ?q = "fs_sequences state ! i"
  have lt: "i < n" "i < length (fs_sequences state)" "i < length (fs_offsets state)" using Suc by simp_all
  have "?q \<in> set (take n (fs_sequences state))" using lt Suc.prems(4) by (auto simp: in_set_conv_nth intro!: exI[of _ i])
  then have q0: "sq_offset_value ?q \<noteq> 0" using Suc.prems(6) by blast
  obtain off a' b' c' where sp: "repcode_spec (a, b, c) (sq_offset_value ?q) (sq_literals_length ?q \<noteq> 0) = (off, (a', b', c'))" by (metis surj_pair)
  have dr: "drop i (take n (fs_sequences state)) = ?q # drop (Suc i) (take n (fs_sequences state))"
    using lt Suc.prems(4) by (simp add: Cons_nth_drop_Suc[symmetric])
  have up: "[i..<n] = i # [Suc i..<n]" using lt(1) by (rule upt_conv_Cons)
  note rs = resolve_spec[OF q0 Suc.prems(2), of "sq_literals_length ?q", unfolded sp prod.case]
  note at_q = at_Some[OF lt(2)] and put_q = put_Some[OF lt(3)]
  show ?case
  proof (cases "off = 0")
    case True
    then show ?thesis unfolding up block_resolve.simps at_q bind.bind_lunit Suc.prems(1) rs dr using lt sp
      by (simp add: wp_Some put_q) (rule exI[of _ "[a, b, c]"], rule exI[of _ "(fs_offsets state)[i := 0]"], simp)
  next
    case False
    obtain r where r: "count_sequence ?q report = Some r" using count_sequence_some[OF q0] by blast
    define st where "st = state\<lparr>fs_repcodes := [a', b', c'], fs_offsets := (fs_offsets state)[i := off]\<rparr>"
    have run: "block_resolve [i..<n] state report = block_resolve [Suc i..<n] st r"
      unfolding up block_resolve.simps at_q bind.bind_lunit Suc.prems(1) rs using False by (simp add: put_q r st_def)
    have nz: "0 \<notin> {a', b', c'}" using sp Suc.prems(2) False by (auto simp: repcode_spec_def split: if_splits)
    have "wp (block_resolve [Suc i..<n] st r) (\<lambda>(res, state', report').
     \<exists>h os. state' = st\<lparr>fs_repcodes := h, fs_offsets := os\<rparr> \<and> length os = length (fs_offsets st) \<and> take (Suc i) os = take (Suc i) (fs_offsets st) \<and>
     (case resolve_all (a', b', c') (drop (Suc i) (take n (fs_sequences st))) of
        None \<Rightarrow> (\<exists>rung. res = Inl (CUDEC_ERR_CORRUPT_INPUT, rung))
      | Some (qos, (a', b', c')) \<Rightarrow> res = Inr () \<and> h = [a', b', c'] \<and> 0 \<notin> {a', b', c'} \<and>
          seqs_from (fs_sequences st) os (Suc i) n = qos))"
      using Suc nz by (intro Suc.hyps(1)) (simp_all add: st_def)
    then show ?thesis unfolding run
    proof (rule wp_mono, goal_cases)
      case (1 x)
      obtain res st' rep' where x: "x = (res, st', rep')" by (cases x) auto
      have stf: "st\<lparr>fs_repcodes := h, fs_offsets := os\<rparr> = state\<lparr>fs_repcodes := h, fs_offsets := os\<rparr>"
        "fs_sequences st = fs_sequences state" "fs_offsets st = (fs_offsets state)[i := off]" "length ((fs_offsets state)[i := off]) = length (fs_offsets state)" for h os
        by (simp_all add: st_def)
      obtain h os where ho: "st' = state\<lparr>fs_repcodes := h, fs_offsets := os\<rparr>" "length os = length (fs_offsets state)"
        "take (Suc i) os = take (Suc i) ((fs_offsets state)[i := off])"
        "case resolve_all (a', b', c') (drop (Suc i) (take n (fs_sequences state))) of None \<Rightarrow> (\<exists>rung. res = Inl (CUDEC_ERR_CORRUPT_INPUT, rung))
         | Some (qos, (a', b', c')) \<Rightarrow> res = Inr () \<and> h = [a', b', c'] \<and> 0 \<notin> {a', b', c'} \<and> seqs_from (fs_sequences state) os (Suc i) n = qos"
        using 1 unfolding x prod.case stf by blast
      have k: "take i os = take i (fs_offsets state)" "os ! i = off"
        using arg_cong[OF ho(3), of "take i"] arg_cong[OF ho(3), of "\<lambda>l. l ! i"] lt ho(2) by (simp_all add: min_def)
      have "case resolve_all (a, b, c) (drop i (take n (fs_sequences state))) of None \<Rightarrow> (\<exists>rung. res = Inl (CUDEC_ERR_CORRUPT_INPUT, rung))
         | Some (qos, (a', b', c')) \<Rightarrow> res = Inr () \<and> h = [a', b', c'] \<and> 0 \<notin> {a', b', c'} \<and> seqs_from (fs_sequences state) os i n = qos"
        using ho(4) k(2) lt(1) sp False unfolding dr by (auto split: option.splits prod.splits)
      then show ?case unfolding x prod.case using ho(1,2) k(1) by blast
    qed
  qed
qed

lemma load_full:
  assumes "field \<le> 2" "mode \<le> 3" "p + unat n \<le> length s" "unat n < 2 ^ 60" "table_slot (zstd_seq_field_symbol_max field) table" "seq_scratch_ok scr"
  shows "wp (zstd_seq_load_table field mode s p n scr table) (\<lambda>(res, table'). case res of
     Inl (st, _) \<Rightarrow> st = CUDEC_ERR_CORRUPT_INPUT \<and> (\<forall>t u. \<not> table_named field mode (drop p s) (unat n) scr table t u)
   | Inr used \<Rightarrow> unat used \<le> unat n \<and> field_table (zstd_seq_field_symbol_max field) table' \<and> table_slot (zstd_seq_field_symbol_max field) table' \<and>
       (\<forall>t u. table_named field mode (drop p s) (unat n) scr table t u \<longleftrightarrow> t = table' \<and> u = unat used))"
proof (rule wp_mono[OF load_table_contract[OF assms]], goal_cases)
  case (1 x)
  have n: "unat n \<le> length (drop p s)" "length (sqs_counts scr) = 53" using assms by (simp_all add: seq_scratch_ok_def)
  obtain res t' where x: "x = (res, t')" by (cases x)
  show ?case
  proof (cases res)
    case (Inl e)
    then show ?thesis using 1 unfolding x by (cases e) simp
  next
    case (Inr used)
    then have named: "table_named field mode (drop p s) (unat n) scr table t' (unat used)" using 1 unfolding x by simp
    have "table_named field mode (drop p s) (unat n) scr table t u \<longleftrightarrow> t = t' \<and> u = unat used" for t u
      using table_named_unique[OF _ named assms(1) n] named by blast
    then show ?thesis using named_field_table[OF named assms(5,1) n] unfolding x Inr by simp
  qed
qed

lemma symbol_max: "zstd_seq_field_symbol_max 0 = 35" "zstd_seq_field_symbol_max 1 = 31" "zstd_seq_field_symbol_max 2 = 52"
  "zstd_seq_field_symbol_max (Suc 0) = 31"
  by (simp_all add: zstd_seq_field_symbol_max_def seq_consts)

definition state_tables :: "zstd_frame_state \<Rightarrow> seq_tables" where
  "state_tables state = (fs_litlen state, fs_offset state, fs_matchlen state)"

definition with_tables :: "zstd_frame_state \<Rightarrow> seq_tables \<Rightarrow> zstd_frame_state" where
  "with_tables state ts = (case ts of (l, f, m) \<Rightarrow> state\<lparr>fs_litlen := l, fs_offset := f, fs_matchlen := m\<rparr>)"

fun field_tables :: "seq_tables \<Rightarrow> bool" where
  "field_tables (l, f, m) \<longleftrightarrow> field_table 35 l \<and> field_table 31 f \<and> field_table 52 m"

lemma block_tables_contract:
  assumes ts: "tables_ok (state_tables state)" and m: "ml \<le> 3" "mo \<le> 3" "mm \<le> 3" and n: "p + unat n \<le> length s" "unat n < 2 ^ 60"
    and scr: "\<And>i. seq_scratch_ok (scr i)"
  shows "wp (block_tables s scr [(kZstdSeqFieldLitLen, ml), (kZstdSeqFieldOffset, mo), (kZstdSeqFieldMatchLen, mm)] p n state) (\<lambda>(res, state').
     case res of
       Inl (st, _) \<Rightarrow> st = CUDEC_ERR_CORRUPT_INPUT \<and> (\<forall>ts' u. \<not> tables_named scr (ml, mo, mm) (drop p s) (unat n) (state_tables state) ts' u)
     | Inr (p', n') \<Rightarrow> \<exists>ts used. state' = with_tables state ts \<and> tables_ok ts \<and> field_tables ts \<and> used \<le> unat n \<and> p' = p + used \<and>
         unat n' = unat n - used \<and>
         (\<forall>ts' u. tables_named scr (ml, mo, mm) (drop p s) (unat n) (state_tables state) ts' u \<longleftrightarrow> ts' = ts \<and> u = used))"
proof -
  let ?l = "fs_litlen state" and ?f = "fs_offset state" and ?m = "fs_matchlen state"
  have slots: "table_slot 35 ?l" "table_slot 31 ?f" "table_slot 52 ?m" using ts by (simp_all add: state_tables_def)
  have fl: "field_of 0 st = fs_litlen st" "field_of 1 st = fs_offset st" "field_of 2 st = fs_matchlen st"
    "set_field 0 t st = st\<lparr>fs_litlen := t\<rparr>" "set_field 1 t st = st\<lparr>fs_offset := t\<rparr>" "set_field 2 t st = st\<lparr>fs_matchlen := t\<rparr>" for st t
    by (simp_all add: field_of_def set_field_def seq_consts)
  have named: "tables_named scr (ml, mo, mm) (drop p s) (unat n) (state_tables state) ts' u \<longleftrightarrow> (\<exists>l' f' m' u1 u2 u3. ts' = (l', f', m') \<and>
      table_named 0 ml (drop p s) (unat n) (scr 0) ?l l' u1 \<and> table_named 1 mo (drop (p + u1) s) (unat n - u1) (scr 1) ?f f' u2 \<and>
      table_named 2 mm (drop (p + u1 + u2) s) (unat n - u1 - u2) (scr 2) ?m m' u3 \<and> u = u1 + u2 + u3)" for ts' u
    by (cases ts') (simp add: state_tables_def add.commute add.left_commute)
  note L = load_full[of 0 ml p n s ?l "scr 0", unfolded symbol_max, OF _ m(1) n slots(1) scr]
  show ?thesis unfolding block_tables.simps seq_consts named fl
  proof (rule wp_bind2[OF L], goal_cases)
    case (2 res t)
    show ?case
    proof (cases res)
      case (Inl e)
      then show ?thesis using 2 by (cases e) (auto simp: wp_Some)
    next
      case (Inr k1)
      have l: "unat k1 \<le> unat n" "field_table 35 t" "table_slot 35 t" "\<And>t' u. table_named 0 ml (drop p s) (unat n) (scr 0) ?l t' u \<longleftrightarrow> t' = t \<and> u = unat k1"
        using 2 Inr by simp_all
      have n1: "p + unat k1 + unat (n - k1) \<le> length s" "unat (n - k1) < 2 ^ 60" "unat (n - k1) = unat n - unat k1"
        using l(1) n unat_minus[of k1 n] by simp_all
      note F = load_full[of 1 mo "p + unat k1" "n - k1" s ?f "scr 1", unfolded symbol_max, OF _ m(2) n1(1,2) slots(2) scr]
      have f1: "fs_offset (state\<lparr>fs_litlen := t\<rparr>) = ?f" "fs_matchlen (state\<lparr>fs_litlen := t, fs_offset := t2\<rparr>) = ?m" for t2 by simp_all
      show ?thesis unfolding Inr sum.case Let_def f1 l(4)
      proof (rule wp_bind2[OF F], goal_cases)
        case (2 res2 t2)
        show ?case
        proof (cases res2)
          case (Inl e)
          then show ?thesis using 2 n1(3) by (cases e) (auto simp: wp_Some)
        next
          case (Inr k2)
          have f: "unat k2 \<le> unat n - unat k1" "field_table 31 t2" "table_slot 31 t2"
            "\<And>t' u. table_named 1 mo (drop (p + unat k1) s) (unat n - unat k1) (scr 1) ?f t' u \<longleftrightarrow> t' = t2 \<and> u = unat k2"
            using 2 Inr n1(3) by simp_all
          have n2: "p + unat k1 + unat k2 + unat (n - k1 - k2) \<le> length s" "unat (n - k1 - k2) < 2 ^ 60" "unat (n - k1 - k2) = unat n - unat k1 - unat k2"
            using f(1) n1 unat_minus[of k2 "n - k1"] by simp_all
          note M = load_full[of 2 mm "p + unat k1 + unat k2" "n - k1 - k2" s ?m "scr 2", unfolded symbol_max, OF _ m(3) n2(1,2) slots(3) scr]
          show ?thesis unfolding Inr sum.case Let_def f1
          proof (rule wp_bind2[OF M], goal_cases)
            case (2 res3 t3)
            show ?case
            proof (cases res3)
              case (Inl e)
              then show ?thesis using 2 n2(3) f(4) by (cases e) (auto simp: wp_Some)
            next
              case (Inr k3)
              have g: "unat k3 \<le> unat n - unat k1 - unat k2" "field_table 52 t3" "table_slot 52 t3"
                "\<And>t' u. table_named 2 mm (drop (p + unat k1 + unat k2) s) (unat n - unat k1 - unat k2) (scr 2) ?m t' u \<longleftrightarrow> t' = t3 \<and> u = unat k3"
                using 2 Inr n2(3) by simp_all
              have n3: "unat (n - k1 - k2 - k3) = unat n - (unat k1 + unat k2 + unat k3)" using g(1) n2 unat_minus[of k3 "n - k1 - k2"] by simp
              have uniq: "(\<exists>l' f' m' u1 u2 u3. ts' = (l', f', m') \<and> (l' = t \<and> u1 = unat k1) \<and>
                  table_named 1 mo (drop (p + u1) s) (unat n - u1) (scr 1) ?f f' u2 \<and>
                  table_named 2 mm (drop (p + u1 + u2) s) (unat n - u1 - u2) (scr 2) ?m m' u3 \<and> u = u1 + u2 + u3) \<longleftrightarrow>
                ts' = (t, t2, t3) \<and> u = unat k1 + unat k2 + unat k3" for ts' u
                using f(4) g(4) by (auto simp del: One_nat_def)
              show ?thesis unfolding Inr sum.case Let_def block_tables.simps wp_Some prod.case
                by (rule exI[of _ "(t, t2, t3)"], rule exI[of _ "unat k1 + unat k2 + unat k3"], unfold uniq)
                  (use l(1-3) f(1-3) g(1-3) n3 in \<open>simp add: with_tables_def\<close>)
            qed
          qed simp
        qed
      qed simp
    qed
  qed simp
qed

text \<open>The offset value of a decoded sequence is never zero.\<close>

lemma here_offset:
  assumes "field_table 31 f" "b < 2 ^ sqt_accuracy_log f" "seq_here (lc, sqt_cells f, mc) (a, b, c) bs = Some (q, bs')"
  shows "sq_offset_value q \<noteq> 0"
proof -
  define k where "k = cell_symbol (sqt_cells f) b"
  have k: "k \<le> 31" using assms(1,2) by (simp add: field_table_def k_def)
  have q: "sq_offset_value q = of_nat (2 ^ k + bits_value (take k bs))" "k \<le> length bs"
    using assms(3) by (auto simp: k_def Let_def split: prod.splits if_splits)
  have "(2::nat) ^ k \<le> 2 ^ 31" using k by (intro power_increasing) simp_all
  then have "2 ^ k + bits_value (take k bs) < 2 ^ 64" using bits_take_less[OF q(2)] by simp
  then have "unat (of_nat (2 ^ k + bits_value (take k bs)) :: u64) = 2 ^ k + bits_value (take k bs)" by (intro unat_of_nat_less) simp
  then have "unat (sq_offset_value q) \<noteq> 0" unfolding q(1) by simp
  then show ?thesis by (auto simp: unat_eq_0)
qed

lemma move_offset:
  assumes "field_table 31 f" "b < 2 ^ sqt_accuracy_log f" "seq_move (lc, sqt_cells f, mc) (a, b, c) bs = Some ((a', b', c'), bs')"
  shows "b' < 2 ^ sqt_accuracy_log f"
proof -
  define w k where "w = unat (fc_nb_bits (lc ! a)) + unat (fc_nb_bits (mc ! c))" and "k = unat (fc_nb_bits (sqt_cells f ! b))"
  have b: "b' = cell_next (sqt_cells f) b (drop w bs)" "k \<le> length (drop w bs)"
    using assms(3) by (auto simp: Let_def w_def k_def split: if_splits)
  have "unat (fc_new_state (sqt_cells f ! b)) + 2 ^ k \<le> 2 ^ sqt_accuracy_log f" using assms(1,2) by (simp add: field_table_def k_def)
  then show ?thesis using bits_take_less[OF b(2)] unfolding b(1) cell_next_def k_def by simp
qed

lemma walk_offsets:
  assumes "field_table 31 f" "b < 2 ^ sqt_accuracy_log f" "seq_walk k left (lc, sqt_cells f, mc) (a, b, c) bs = Some (qs, rest)"
  shows "\<forall>q\<in>set qs. sq_offset_value q \<noteq> 0"
  using assms(2,3)
proof (induction k arbitrary: left a b c bs qs rest)
  case (Suc k)
  let ?T = "(lc, sqt_cells f, mc)"
  obtain q bs1 where q: "seq_here ?T (a, b, c) bs = Some (q, bs1)" using Suc.prems(2) by (auto split: option.splits)
  have "(if left = 1 then Some ((a, b, c), bs1) else seq_move ?T (a, b, c) bs1) \<noteq> None"
    using Suc.prems(2) by (simp only: seq_walk.simps q) (auto split: option.splits)
  then obtain a' b' c' bs2 where st: "(if left = 1 then Some ((a, b, c), bs1) else seq_move ?T (a, b, c) bs1) = Some ((a', b', c'), bs2)"
    by auto
  have "b' < 2 ^ sqt_accuracy_log f" using st Suc.prems(1) move_offset[OF assms(1) Suc.prems(1)] by (cases "left = 1") auto
  moreover obtain qs' where "seq_walk k (left - 1) ?T (a', b', c') bs2 = Some (qs', rest)" "qs = q # qs'"
    using Suc.prems(2) by (simp only: seq_walk.simps q option.case prod.case st) auto
  ultimately show ?case using Suc.IH here_offset[OF assms(1) Suc.prems(1) q] by auto
qed simp

lemma stream_offsets:
  assumes "field_tables ts" "seq_stream k (tables_cells ts) (tables_logs ts) s = Some qs"
  shows "\<forall>q\<in>set qs. sq_offset_value q \<noteq> 0" "length qs = k"
proof -
  obtain l f m where ts: "ts = (l, f, m)" by (cases ts)
  obtain a b c bs rest where st: "seq_start (tables_logs ts) (stream_bits s) = Some ((a, b, c), bs)"
    "seq_walk k k (tables_cells ts) (a, b, c) bs = Some (qs, rest)"
    using assms(2) by (auto simp: seq_stream_def split: if_splits option.splits list.splits)
  have "b < 2 ^ sqt_accuracy_log f"
    using st(1) by (auto simp: seq_start_def ts cursor_logs_def split: if_splits intro!: bits_take_less)
  then show "\<forall>q\<in>set qs. sq_offset_value q \<noteq> 0" using walk_offsets[of f b k k "sqt_cells l" "sqt_cells m" a c bs qs rest] assms(1) st(2) by (simp add: ts)
  show "length qs = k" using st(2) by (rule seq_walk_length)
qed

lemma block_sequences_contract:
  assumes ts: "tables_ok (state_tables state)" and m: "sh_litlen_mode h \<le> 3" "sh_offset_mode h \<le> 3" "sh_matchlen_mode h \<le> 3"
    and n: "p + unat n \<le> length s" "unat n < 2 ^ 60" and scr: "\<And>i. seq_scratch_ok (scr i)"
    and c: "sh_sequence_count h \<noteq> 0" "sh_sequence_count h \<le> fs_sequences_capacity state" "unat (fs_sequences_capacity state) \<le> length (fs_sequences state)"
  defines "N \<equiv> unat (sh_sequence_count h)"
  defines "meant \<equiv> \<lambda>ts' qs. \<exists>used. tables_named scr (sh_litlen_mode h, sh_offset_mode h, sh_matchlen_mode h) (drop p s) (unat n) (state_tables state) ts' used \<and>
     seq_stream N (tables_cells ts') (tables_logs ts') (take (unat n - used) (drop (p + used) s)) = Some qs"
  shows "wp (block_sequences s scr h p n state) (\<lambda>(res, state'). case res of
     Inl (stage, st, _) \<Rightarrow> st = CUDEC_ERR_CORRUPT_INPUT \<and> (\<forall>ts' qs. \<not> meant ts' qs)
   | Inr _ \<Rightarrow> \<exists>ts qs. state' = (with_tables state ts)\<lparr>fs_sequences := qs @ drop N (fs_sequences state)\<rparr> \<and> tables_ok ts \<and> length qs = N \<and>
       (\<forall>q\<in>set qs. sq_offset_value q \<noteq> 0) \<and> (\<forall>ts' qs'. meant ts' qs' \<longleftrightarrow> ts' = ts \<and> qs' = qs))"
  unfolding block_sequences_def
proof (rule wp_bind2[OF block_tables_contract[OF ts m n scr]], goal_cases)
  case (1 res st)
  show ?case
  proof (cases res)
    case (Inl e)
    then show ?thesis using 1 by (cases e) (auto simp: wp_Some meant_def)
  next
    case (Inr y)
    obtain p' n' where y: "y = (p', n')" by (cases y)
    obtain ts used where t: "st = with_tables state ts" "tables_ok ts" "field_tables ts" "used \<le> unat n" "p' = p + used" "unat n' = unat n - used"
      "\<And>ts' u. tables_named scr (sh_litlen_mode h, sh_offset_mode h, sh_matchlen_mode h) (drop p s) (unat n) (state_tables state) ts' u \<longleftrightarrow> ts' = ts \<and> u = used"
      using 1 Inr y by auto
    obtain l f m where lfm: "ts = (l, f, m)" by (cases ts)
    have ft: "field_table 35 l" "field_table 31 f" "field_table 52 m" using t(3) by (simp_all add: lfm)
    have n': "p' + unat n' \<le> length s" "unat n' < 2 ^ 60" using t(4,5,6) n by simp_all
    have fs: "fs_litlen st = l" "fs_offset st = f" "fs_matchlen st = m" "fs_sequences st = fs_sequences state" "fs_sequences_capacity st = fs_sequences_capacity state"
      by (simp_all add: t(1) lfm with_tables_def)
    define run where "run = take (unat n - used) (drop (p + used) s)"
    have meant: "meant ts' qs \<longleftrightarrow> ts' = ts \<and> seq_stream N (tables_cells ts) (tables_logs ts) run = Some qs" for ts' qs
      unfolding meant_def t(7) run_def by auto
    note S = sequences_contract[OF ft c n', folded N_def, unfolded t(5,6), folded run_def]
    show ?thesis unfolding Inr y prod.case sum.case fs t(5)
    proof (rule wp_bind2[OF S], goal_cases)
      case (1 r out)
      show ?case
      proof (cases "seq_stream N (tables_cells ts) (tables_logs ts) run")
        case None
        then show ?thesis using 1 by (auto simp: wp_Some meant lfm)
      next
        case (Some qs)
        then have q: "r = Inr ()" "length qs = N" "out = qs @ drop N (fs_sequences state)" using 1 by (auto simp: lfm)
        show ?thesis unfolding q(1) Let_def sum.case wp_Some prod.case meant
          by (rule exI[of _ ts], rule exI[of _ qs]) (use Some q t(1,2) stream_offsets(1)[OF t(3) Some] in auto)
      qed
    qed
  qed
qed

section \<open>A compressed block means what it decodes to\<close>

definition storage_ok :: "zstd_frame_state \<Rightarrow> bool" where
  "storage_ok state \<longleftrightarrow> unat (fs_literals_capacity state) \<le> length (fs_literals state) \<and>
     unat (fs_sequences_capacity state) \<le> length (fs_sequences state) \<and> unat (fs_sequences_capacity state) \<le> length (fs_offsets state) \<and>
     unat (fs_sequences_capacity state) < unat (fs_destinations_capacity state) \<and>
     unat (fs_destinations_capacity state) \<le> length (fs_destinations state)"

definition same_capacities :: "zstd_frame_state \<Rightarrow> zstd_frame_state \<Rightarrow> bool" where
  "same_capacities state state' \<longleftrightarrow> fs_literals_capacity state' = fs_literals_capacity state \<and> fs_sequences_capacity state' = fs_sequences_capacity state"

fun carries :: "zstd_frame_state \<Rightarrow> carried \<Rightarrow> bool" where
  "carries state (tree, ts, (a, b, c)) \<longleftrightarrow> lit_state (fs_literals_table state) tree \<and> state_tables state = ts \<and> tables_ok ts \<and>
     fs_repcodes state = [a, b, c] \<and> 0 \<notin> {a, b, c}"

definition block_scratch_ok :: "block_scratch \<Rightarrow> bool" where
  "block_scratch_ok scr \<longleftrightarrow> scratch_ok (ls_weights_scratch (bs_literals scr)) \<and> length (ls_weights (bs_literals scr)) = 256 \<and>
     length (bs_starts scr) = 13 \<and> (\<forall>i. seq_scratch_ok (bs_seq scr i))"

lemma drop_further: "drop k xs = drop k ys \<Longrightarrow> k \<le> m \<Longrightarrow> drop m xs = drop m ys"
  by (metis drop_drop le_add_diff_inverse2)

lemma block_bytes_grows: "block_bytes win qos lits out = Some out' \<Longrightarrow> length out \<le> length out'"
proof (induction qos arbitrary: lits out)
  case (Cons x qos)
  then show ?case by (cases x) (fastforce split: if_splits simp: length_lz_copy)
qed auto

lemma block_execute_contract:
  fixes win :: u64
  assumes h: "fs_repcodes state = [a, b, c]" "0 \<notin> {a, b, c}" and st: "storage_ok state" and N: "number \<le> fs_sequences_capacity state"
    and q: "\<forall>q\<in>set (take (unat number) (fs_sequences state)). sq_offset_value q \<noteq> 0"
    and l: "unat ls \<le> 131072" "unat bm \<le> 131072" "unat ls \<le> length (fs_literals state)"
    and d: "unat cap \<le> length dst" "length dst < 2 ^ 64" "unat base \<le> unat cap"
  defines "means \<equiv> \<lambda>qos h' out. resolve_all (a, b, c) (take (unat number) (fs_sequences state)) = Some (qos, h') \<and>
     block_bytes (unat win) qos (take (unat ls) (fs_literals state)) (take (unat base) dst) = Some out"
  shows "wp (block_execute number ls bm state win dst cap base report) (\<lambda>(res, state', dst', report').
     length dst' = length dst \<and> take (unat base) dst' = take (unat base) dst \<and> drop (unat cap) dst' = drop (unat cap) dst \<and>
     (case res of
        Inl (st, rej) \<Rightarrow> st = CUDEC_ERR_CORRUPT_INPUT \<and> rej = kZstdBlocksRejectNone \<and>
          (\<forall>qos h' out. means qos h' out \<longrightarrow> unat cap < length out \<or> unat base + unat bm < length out)
      | Inr p' \<Rightarrow> unat p' \<le> unat cap \<and> unat p' \<le> unat base + unat bm \<and> drop (unat p') dst' = drop (unat p') dst \<and>
          (\<exists>qos a' b' c' os. state' = state\<lparr>fs_repcodes := [a', b', c'], fs_offsets := os\<rparr> \<and> length os = length (fs_offsets state) \<and>
             0 \<notin> {a', b', c'} \<and> means qos (a', b', c') (take (unat p') dst'))))"
  unfolding block_execute_def
proof (rule wp_bind3, rule block_resolve_contract[OF h], goal_cases)
  case 1
  show ?case by simp
next
  case 2
  then show ?case using st N by (simp add: storage_ok_def w2n)
next
  case 3
  then show ?case using st N by (simp add: storage_ok_def w2n)
next
  case 4
  then show ?case by (rule q)
next
  case (5 res st' rep')
  let ?qs = "take (unat number) (fs_sequences state)"
  obtain hh os where st': "st' = state\<lparr>fs_repcodes := hh, fs_offsets := os\<rparr>" "length os = length (fs_offsets state)"
    and r: "case resolve_all (a, b, c) ?qs of None \<Rightarrow> (\<exists>rung. res = Inl (CUDEC_ERR_CORRUPT_INPUT, rung))
      | Some (qos, (a', b', c')) \<Rightarrow> res = Inr () \<and> hh = [a', b', c'] \<and> 0 \<notin> {a', b', c'} \<and> seqs_from (fs_sequences state) os 0 (unat number) = qos"
    using 5 by auto
  show ?case
  proof (cases "resolve_all (a, b, c) ?qs")
    case None
    then show ?thesis using r d by (auto simp: wp_Some means_def)
  next
    case (Some y)
    obtain qos a' b' c' where y: "y = (qos, (a', b', c'))" by (cases y) auto
    have q: "res = Inr ()" "hh = [a', b', c']" "0 \<notin> {a', b', c'}" "seqs_from (fs_sequences state) os 0 (unat number) = qos" using r Some y by simp_all
    have n1: "unat (number + 1) = unat number + 1" using st N unat_less_exp[of "fs_destinations_capacity state"]
      by (subst unat_plus) (simp_all add: storage_ok_def w2n)
    have caps: "unat number < unat (number + 1)" "unat (number + 1) \<le> length (fs_destinations state)" "unat number \<le> length (fs_sequences state)" "unat number \<le> length os"
      using st N st'(2) unfolding n1 by (simp_all add: storage_ok_def w2n)
    have f: "fs_sequences st' = fs_sequences state" "fs_offsets st' = os" "fs_literals st' = fs_literals state" "fs_destinations st' = fs_destinations state"
      by (simp_all add: st'(1))
    have means: "means qos' h' out \<longleftrightarrow> qos' = qos \<and> h' = (a', b', c') \<and> block_bytes (unat win) qos (take (unat ls) (fs_literals state)) (take (unat base) dst) = Some out"
      for qos' h' out using Some y by (auto simp: means_def)
    note W = whole_block_contract[OF caps l(1,2,3) d, where win = win, unfolded q(4)]
    show ?thesis unfolding q(1) sum.case f means
    proof (rule wp_bind2[OF W], goal_cases)
      case (1 e dst')
      show ?case
      proof (cases e)
        case (Inl x)
        then show ?thesis using 1 drop_further[of "min (unat cap) (unat base + unat bm)" dst' dst "unat cap"] by (cases x) (auto simp: wp_Some)
      next
        case (Inr p')
        have p: "unat p' \<le> unat cap" "unat p' \<le> unat base + unat bm" "drop (unat p') dst' = drop (unat p') dst" "length dst' = length dst" "take (unat base) dst' = take (unat base) dst"
          "block_bytes (unat win) qos (take (unat ls) (fs_literals state)) (take (unat base) dst) = Some (take (unat p') dst')"
          using 1 Inr by simp_all
        have "drop (unat cap) dst' = drop (unat cap) dst" using drop_further[OF p(3,1)] .
        moreover have "st' = state\<lparr>fs_repcodes := [a', b', c'], fs_offsets := os\<rparr>" using st'(1) q(2) by simp
        ultimately show ?thesis using p st'(2) q(3) unfolding Inr by (auto simp: wp_Some)
      qed
    qed
  qed
qed

lemma compressed_block_contract:
  fixes win :: u64
  defines "bm \<equiv> zstd_literals_block_maximum win"
  assumes n: "body + unat n \<le> length s" "unat n < 2 ^ 60" and c: "carries state cr" and st: "storage_ok state" and scr: "block_scratch_ok scr"
    and lc: "unat bm \<le> unat (fs_literals_capacity state)" and d: "unat cap \<le> length dst" "length dst < 2 ^ 64" "unat base \<le> unat cap"
  defines "means \<equiv> block_means (unat win) (unat bm) scr (drop body s) (unat n) cr (take (unat base) dst)"
  shows "wp (zstd_decode_compressed_block s body n win scr state bm dst cap base report) (\<lambda>(res, state', dst', report').
     length dst' = length dst \<and> take (unat base) dst' = take (unat base) dst \<and> drop (unat cap) dst' = drop (unat cap) dst \<and>
     (case res of
        Inl (st, rej) \<Rightarrow> (rej = kZstdBlocksRejectSequenceStorageTooSmall \<and> st = CUDEC_ERR_OUTPUT_TOO_SMALL \<and> 3 * unat (fs_sequences_capacity state) < unat bm) \<or>
          (rej = kZstdBlocksRejectNone \<and> st = CUDEC_ERR_CORRUPT_INPUT \<and> (\<forall>cr' out. means cr' out \<longrightarrow> unat cap < length out))
      | Inr p' \<Rightarrow> unat base \<le> unat p' \<and> unat p' \<le> unat cap \<and> drop (unat p') dst' = drop (unat p') dst \<and> storage_ok state' \<and> same_capacities state state' \<and>
          (\<exists>cr'. carries state' cr' \<and> (\<forall>cr'' out. means cr'' out \<longleftrightarrow> cr'' = cr' \<and> out = take (unat p') dst'))))"
proof -
  obtain tree ts a b cc where cr: "cr = (tree, ts, (a, b, cc))" by (cases cr) auto
  have cs: "lit_state (fs_literals_table state) tree" "state_tables state = ts" "tables_ok ts" "fs_repcodes state = [a, b, cc]" "0 \<notin> {a, b, cc}"
    using c by (simp_all add: cr)
  let ?s = "drop body s" and ?o = "take (unat base) dst"
  have ubm: "unat bm = min (unat win) 131072"
    by (auto simp: bm_def zstd_literals_block_maximum_def kZstdBlockSizeCeiling_def w2n min_def)
  have sc: "scratch_ok (ls_weights_scratch (bs_literals scr))" "length (ls_weights (bs_literals scr)) = 256" "length (bs_starts scr) = 13" "\<And>i. seq_scratch_ok (bs_seq scr i)"
    using scr by (simp_all add: block_scratch_ok_def)
  have ln: "unat n \<le> length ?s" using n(1) by simp
  have lcap: "unat (fs_literals_capacity state) \<le> length (fs_literals state)" using st by (simp add: storage_ok_def)
  define lit where "lit = lit_section ?s (unat n) (unat win) (ls_weights_scratch (bs_literals scr)) tree"
  note L = decode_literals_contract[OF ln cs(1) sc(1,2,3) lcap, of win, folded lit_def]
  define sect where "sect = seq_section (drop (lit_consumed ?s) ?s) (unat n - lit_consumed ?s) (unat bm) (bs_seq scr) ts"
  have means: "means (tree', ts', h') out \<longleftrightarrow> (\<exists>lits qs qos. lit lits tree' \<and> sect qs ts' \<and> resolve_all (a, b, cc) qs = Some (qos, h') \<and>
      block_bytes (unat win) qos lits ?o = Some out \<and> length out \<le> length ?o + unat bm)" for tree' ts' h' out
    by (simp add: means_def cr lit_def sect_def)
  have lo: "length ?o = unat base" using d by simp
  show ?thesis unfolding zstd_decode_compressed_block_def
  proof (rule wp_bind3[OF L], goal_cases)
    case (1 res table lits)
    show ?case
    proof (cases res)
      case (Inl e)
      obtain e1 rung where e: "e = (e1, rung)" by (cases e)
      have "e1 \<noteq> CUDEC_ERR_OUTPUT_TOO_SMALL" using 1 lc ubm unfolding Inl e by auto
      then have "e1 = CUDEC_ERR_CORRUPT_INPUT" "\<not> means cr' out" for cr' out
        using 1 unfolding Inl e by (simp, cases cr') (auto simp: means)
      then show ?thesis unfolding Inl e by (simp add: wp_Some)
    next
      case (Inr y)
      obtain ls k where y: "y = (ls, k)" by (cases y)
      obtain left where q: "unat ls = lit_regenerated ?s" "unat ls \<le> unat (fs_literals_capacity state)" "unat k = lit_consumed ?s" "unat k \<le> unat n"
        "length lits = length (fs_literals state)" "lit (take (unat ls) lits) left" "lit_state table left"
        using 1 unfolding Inr y by auto
      have lsm: "unat ls \<le> 131072" using q(1,6) by (simp add: lit_def lit_section_def)
      have uniq: "lit l' t' \<longleftrightarrow> l' = take (unat ls) lits \<and> t' = left" for l' t' using q(6) lit_section_unique unfolding lit_def by blast
      define state1 where "state1 = state\<lparr>fs_literals_table := table, fs_literals := lits\<rparr>"
      have f1: "fs_sequences_capacity state1 = fs_sequences_capacity state" "state_tables state1 = ts" "fs_sequences state1 = fs_sequences state"
        "fs_repcodes state1 = [a, b, cc]" "storage_ok state1" "fs_literals state1 = lits" "fs_literals_capacity state1 = fs_literals_capacity state"
        using st cs(2,4) q(5) by (simp_all add: state1_def storage_ok_def state_tables_def)
      define sec m where "sec = body + unat k" and "m = n - k"
      have um: "unat m = unat n - lit_consumed ?s" using q(3,4) by (simp add: m_def unat_minus)
      have msec: "sec + unat m \<le> length s" "unat m \<le> length (drop sec s)" "unat m < 2 ^ 60" using n q(3,4) um by (simp_all add: sec_def)
      have ds: "drop (lit_consumed ?s) ?s = drop sec s" by (simp add: sec_def q(3) add.commute)
      note H = seq_header_contract[OF msec(2), of bm]
      show ?thesis unfolding Inr y sum.case prod.case Let_def state1_def[symmetric] sec_def[symmetric] m_def[symmetric]
      proof (rule wp_bindI[OF H], goal_cases)
        case (1 parsed)
        show ?case
        proof (cases parsed)
          case (Inl e)
          then have "\<not> sec_accepted (drop sec s) (unat m) (unat bm)" "fst e = CUDEC_ERR_CORRUPT_INPUT" using 1 by (cases e, simp)+
          then have "\<not> sect qs ts'" for qs ts' unfolding sect_def seq_section_def ds um[symmetric] by blast
          then have "\<not> means cr' out" for cr' out by (cases cr') (simp add: means)
          then show ?thesis using \<open>fst e = CUDEC_ERR_CORRUPT_INPUT\<close> unfolding Inl by (cases e) (simp add: wp_Some)
        next
          case (Inr z)
          obtain h used where z: "z = (h, used)" by (cases z)
          define t where "t = drop sec s"
          have hq: "sec_accepted t (unat m) (unat bm)" "sec_fields t h" "unat used = sec_bytes t" "sec_bytes t \<le> unat m"
            using 1 unfolding Inr z t_def by simp_all
          have N: "unat (sh_sequence_count h) = sec_count t" using hq(2) by (simp add: sec_fields_def)
          have n3: "3 * sec_count t \<le> unat bm" using hq(1) by (auto simp: sec_accepted_def split: if_splits)
          show ?thesis
          proof (cases "sh_sequence_count h > fs_sequences_capacity state1")
            case True
            then have "3 * unat (fs_sequences_capacity state) < unat bm" using n3 N f1(1) by (simp add: w2n)
            then show ?thesis unfolding Inr z sum.case prod.case if_P[OF True] by (simp add: wp_Some)
          next
            case fits: False
            define R where "R = unat m - sec_bytes t"
            have sect: "sect qs ts' \<longleftrightarrow> (if sec_count t = 0 then qs = [] \<and> ts' = ts
                else \<exists>u. tables_named (bs_seq scr) (sec_three_modes t) (drop (sec_bytes t) t) R ts ts' u \<and>
                  seq_stream (sec_count t) (tables_cells ts') (tables_logs ts') (take (R - u) (drop (sec_bytes t + u) t)) = Some qs)" for qs ts'
              using hq(1) unfolding sect_def seq_section_def ds um[symmetric] t_def[symmetric] R_def[symmetric] by (simp only: simp_thms)
            have S: "wp (if sh_sequence_count h = 0 then Some (Inr (), state1)
                else block_sequences s (bs_seq scr) h (sec + unat used) (m - used) state1) (\<lambda>(r, state'). case r of
                Inl (stage, st, _) \<Rightarrow> st = CUDEC_ERR_CORRUPT_INPUT \<and> (\<forall>ts' qs. \<not> sect qs ts')
              | Inr _ \<Rightarrow> \<exists>ts' qs. state' = (with_tables state1 ts')\<lparr>fs_sequences := qs @ drop (sec_count t) (fs_sequences state)\<rparr> \<and> tables_ok ts' \<and>
                  length qs = sec_count t \<and> (\<forall>q\<in>set qs. sq_offset_value q \<noteq> 0) \<and> (\<forall>ts'' qs'. sect qs' ts'' \<longleftrightarrow> ts'' = ts' \<and> qs' = qs))"
            proof (cases "sh_sequence_count h = 0")
              case True
              then have z0: "sec_count t = 0" using N by simp
              have "state1 = (with_tables state1 ts)\<lparr>fs_sequences := [] @ drop (sec_count t) (fs_sequences state)\<rparr>"
                using f1(2,3) z0 by (cases ts) (simp add: with_tables_def state_tables_def state1_def)
              then show ?thesis unfolding if_P[OF True] wp_Some prod.case sum.case
                by - (rule exI[of _ ts], rule exI[of _ "[]"], use cs(3) z0 in \<open>auto simp: sect\<close>)
            next
              case False
              then have nz: "sec_count t \<noteq> 0" using N by (simp add: word_unat_eq_iff)
              have modes: "sh_litlen_mode h = sec_modes t div 64" "sh_offset_mode h = sec_modes t div 16 mod 4" "sh_matchlen_mode h = sec_modes t div 4 mod 4"
                using hq(2) nz by (simp_all add: sec_fields_def)
              have "sec_modes t < 256" unfolding sec_modes_def by (rule unat_u8_less)
              then have m3: "sh_litlen_mode h \<le> 3" "sh_offset_mode h \<le> 3" "sh_matchlen_mode h \<le> 3" unfolding modes by simp_all
              have um2: "unat (m - used) = R" using hq(3,4) by (simp add: R_def unat_minus)
              have n2: "sec + unat used + unat (m - used) \<le> length s" "unat (m - used) < 2 ^ 60" using hq(3,4) um2 msec by (simp_all add: R_def)
              have tok: "tables_ok (state_tables state1)" using f1(2) cs(3) by simp
              have cap: "sh_sequence_count h \<le> fs_sequences_capacity state1" "unat (fs_sequences_capacity state1) \<le> length (fs_sequences state1)"
                using fits st f1 by (simp_all add: storage_ok_def)
              have dt: "drop (sec + unat used) s = drop (sec_bytes t) t" "drop (sec + unat used + u) s = drop (sec_bytes t + u) t" for u
                by (simp_all add: t_def hq(3) add.commute add.left_commute)
              note B = block_sequences_contract[where scr = "bs_seq scr", OF tok m3 n2 sc(4) False cap, unfolded N um2 dt f1(2,3) modes]
              have eq: "(\<exists>used. tables_named (bs_seq scr) (sec_modes t div 64, sec_modes t div 16 mod 4, sec_modes t div 4 mod 4) (drop (sec_bytes t) t) R ts ts' used \<and>
                  seq_stream (sec_count t) (tables_cells ts') (tables_logs ts') (take (R - used) (drop (sec_bytes t + used) t)) = Some qs) \<longleftrightarrow> sect qs ts'" for ts' qs
                unfolding sect sec_three_modes_def by (simp only: nz if_False)
              show ?thesis unfolding if_not_P[OF False] by (rule B[unfolded eq])
            qed
            show ?thesis unfolding Inr z sum.case prod.case if_not_P[OF fits]
            proof (rule wp_bind2[OF S], goal_cases)
              case (1 r state2)
              show ?case
              proof (cases r)
                case (Inl e)
                obtain stage e1 rung where e: "e = (stage, e1, rung)" by (cases e) auto
                have "e1 = CUDEC_ERR_CORRUPT_INPUT" "\<not> means cr' out" for cr' out using 1 unfolding Inl e by (simp, cases cr') (auto simp: means)
                then show ?thesis unfolding Inl e by (simp add: wp_Some)
              next
                case (Inr u)
                obtain ts' qs where s2: "state2 = (with_tables state1 ts')\<lparr>fs_sequences := qs @ drop (sec_count t) (fs_sequences state)\<rparr>" "tables_ok ts'"
                  "length qs = sec_count t" "\<forall>q\<in>set qs. sq_offset_value q \<noteq> 0" "\<And>ts'' qs'. sect qs' ts'' \<longleftrightarrow> ts'' = ts' \<and> qs' = qs"
                  using 1 Inr by auto
                obtain l' f' m' where ts': "ts' = (l', f', m')" by (cases ts')
                have f2: "fs_repcodes state2 = [a, b, cc]" "fs_sequences state2 = qs @ drop (sec_count t) (fs_sequences state)" "fs_literals state2 = lits"
                  "fs_sequences_capacity state2 = fs_sequences_capacity state" "fs_literals_table state2 = table" "state_tables state2 = ts'"
                  "fs_literals_capacity state2 = fs_literals_capacity state" "fs_offsets state2 = fs_offsets state1" "fs_destinations state2 = fs_destinations state1"
                  "fs_destinations_capacity state2 = fs_destinations_capacity state1"
                  using f1(1,4) by (simp_all add: s2(1) ts' with_tables_def state1_def state_tables_def)
                have nc: "sh_sequence_count h \<le> fs_sequences_capacity state2" using fits f1(1) f2(4) by simp
                have "sec_count t \<le> length (fs_sequences state)" using fits N st f1(1) by (simp add: storage_ok_def w2n)
                then have so2: "storage_ok state2" using f1(5) f2 s2(3) f1(1,3,6,7) by (simp add: storage_ok_def)
                have tk: "take (unat (sh_sequence_count h)) (fs_sequences state2) = qs" using f2(2) s2(3) N by simp
                have ll: "unat ls \<le> length (fs_literals state2)" using f2(3) q(2,5) lcap by simp
                have bm2: "unat bm \<le> 131072" using ubm by simp
                have nzq: "\<forall>q\<in>set (take (unat (sh_sequence_count h)) (fs_sequences state2)). sq_offset_value q \<noteq> 0" unfolding tk by (rule s2(4))
                note E = block_execute_contract[OF f2(1) cs(5) so2 nc nzq lsm bm2 ll d, where win = win and report = report, unfolded tk f2(3)]
                have means2: "means (tree', ts'', h') out \<longleftrightarrow> tree' = left \<and> ts'' = ts' \<and> (\<exists>qos. resolve_all (a, b, cc) qs = Some (qos, h') \<and>
                    block_bytes (unat win) qos (take (unat ls) lits) ?o = Some out) \<and> length out \<le> unat base + unat bm" for tree' ts'' h' out
                  unfolding means uniq s2(5) lo by blast
                show ?thesis unfolding Inr sum.case
                proof (rule wp_mono[OF E], goal_cases)
                  case (1 x)
                  obtain r3 st3 dst' rep' where x: "x = (r3, st3, dst', rep')" by (cases x) auto
                  show ?case
                  proof (cases r3)
                    case (Inl e)
                    obtain e1 rej where e: "e = (e1, rej)" by (cases e)
                    have "means cr' out \<longrightarrow> unat cap < length out" for cr' out
                      using 1 unfolding x Inl e by (cases cr') (fastforce simp: means2)
                    then show ?thesis using 1 unfolding x Inl e by simp
                  next
                    case (Inr p')
                    obtain qos a' b' c' os where p: "unat p' \<le> unat cap" "unat p' \<le> unat base + unat bm" "drop (unat p') dst' = drop (unat p') dst"
                      "st3 = state2\<lparr>fs_repcodes := [a', b', c'], fs_offsets := os\<rparr>" "length os = length (fs_offsets state2)" "0 \<notin> {a', b', c'}"
                      "resolve_all (a, b, cc) qs = Some (qos, (a', b', c'))" "block_bytes (unat win) qos (take (unat ls) lits) ?o = Some (take (unat p') dst')"
                      "length dst' = length dst" "take (unat base) dst' = take (unat base) dst" "drop (unat cap) dst' = drop (unat cap) dst"
                      using 1 unfolding x Inr by auto
                    have lp: "length (take (unat p') dst') = unat p'" using p(1,9) d by simp
                    have grow: "unat base \<le> unat p'" using block_bytes_grows[OF p(8)] lp lo by simp
                    have keep: "storage_ok st3" "same_capacities state st3" using so2 p(5) f2 by (simp_all add: p(4) storage_ok_def same_capacities_def)
                    have car: "carries st3 (left, ts', (a', b', c'))" using q(7) s2(2) p(6) f2 by (simp add: p(4) state_tables_def)
                    have uq: "means cr'' out \<longleftrightarrow> cr'' = (left, ts', (a', b', c')) \<and> out = take (unat p') dst'" for cr'' out
                      using p(2,7,8) lp by (cases cr'') (auto simp: means2)
                    show ?thesis unfolding x Inr prod.case sum.case using p grow keep car uq by blast
                  qed
                qed
              qed
            qed
          qed
        qed
      qed
    qed
  qed
qed

section \<open>The blocks of a frame mean what they decode to\<close>

definition step_means :: "nat \<Rightarrow> nat \<Rightarrow> (nat \<Rightarrow> block_scratch) \<Rightarrow> u8 list \<Rightarrow> nat \<Rightarrow> nat \<Rightarrow> carried \<Rightarrow> u8 list \<Rightarrow> carried \<Rightarrow> u8 list \<Rightarrow> bool" where
  "step_means win bm scr s n pos cr out cr' out' \<longleftrightarrow> zb_accepted s pos (n - pos) win \<and>
     (if zb_type s pos = 0 then cr' = cr \<and> out' = out @ take (zb_size s pos) (drop (pos + 3) s)
      else if zb_type s pos = 1 then cr' = cr \<and> out' = out @ replicate (zb_size s pos) (s ! (pos + 3))
      else block_means win bm (scr pos) (drop (pos + 3) s) (zb_body s pos) cr out cr' out')"

text \<open>From a block on, up to the last one: where the blocks end, and all that they regenerate.\<close>

inductive frame_means :: "nat \<Rightarrow> nat \<Rightarrow> (nat \<Rightarrow> block_scratch) \<Rightarrow> u8 list \<Rightarrow> nat \<Rightarrow> nat \<Rightarrow> carried \<Rightarrow> u8 list \<Rightarrow> nat \<Rightarrow> u8 list \<Rightarrow> bool"
  for win bm scr s n where
  last_block: "step_means win bm scr s n pos cr out cr' out' \<Longrightarrow> odd (zb_raw s pos) \<Longrightarrow>
     frame_means win bm scr s n pos cr out (pos + 3 + zb_body s pos) out'"
| next_block: "step_means win bm scr s n pos cr out cr1 out1 \<Longrightarrow> even (zb_raw s pos) \<Longrightarrow>
     frame_means win bm scr s n (pos + 3 + zb_body s pos) cr1 out1 pos' out' \<Longrightarrow> frame_means win bm scr s n pos cr out pos' out'"

inductive_cases frame_means_E: "frame_means win bm scr s n pos cr out pos' out'"

lemma frame_means_iff:
  "frame_means win bm scr s n pos cr out pos' out' \<longleftrightarrow> (\<exists>cr1 out1. step_means win bm scr s n pos cr out cr1 out1 \<and>
     (if odd (zb_raw s pos) then pos' = pos + 3 + zb_body s pos \<and> out' = out1
      else frame_means win bm scr s n (pos + 3 + zb_body s pos) cr1 out1 pos' out'))"
  (is "?L \<longleftrightarrow> ?R")
proof
  assume ?L
  then show ?R
  proof (rule frame_means_E, goal_cases)
    case (1 cr')
    then show ?case by (intro exI[of _ cr'] exI[of _ out']) simp
  next
    case (2 cr1 out1)
    then show ?case by (intro exI[of _ cr1] exI[of _ out1]) simp
  qed
next
  assume ?R
  then obtain cr1 out1 where S: "step_means win bm scr s n pos cr out cr1 out1"
    and r: "if odd (zb_raw s pos) then pos' = pos + 3 + zb_body s pos \<and> out' = out1
      else frame_means win bm scr s n (pos + 3 + zb_body s pos) cr1 out1 pos' out'" by blast
  show ?L
  proof (cases "odd (zb_raw s pos)")
    case True
    then show ?thesis using last_block[OF S] r by simp
  next
    case False
    then show ?thesis using next_block[OF S] r by simp
  qed
qed

lemma block_means_grows: "block_means win bm scr s n cr out cr' out' \<Longrightarrow> length out \<le> length out'"
  by (cases cr; cases cr') (auto dest: block_bytes_grows)

lemma step_means_grows: "step_means win bm scr s n pos cr out cr' out' \<Longrightarrow> length out \<le> length out'"
  unfolding step_means_def by (auto simp del: block_means.simps dest: block_means_grows split: if_splits)

lemma frame_means_grows: "frame_means win bm scr s n pos cr out pos' out' \<Longrightarrow> length out \<le> length out'"
  by (induction rule: frame_means.induct) (auto dest: step_means_grows)

lemma block_copy_value:
  assumes "i \<le> k" "body + (if raw then k else 1) \<le> length s \<or> k = 0" "p + k \<le> length dst"
  shows "block_copy s raw body [i..<k] p dst = Some (take (p + i) dst @
     (if raw then take (k - i) (drop (body + i) s) else replicate (k - i) (s ! body)) @ drop (p + k) dst)"
  using assms
proof (induction "k - i" arbitrary: i dst)
  case (Suc d)
  then have i: "i < k" "body + (if raw then k else 1) \<le> length s" by auto
  let ?v = "if raw then s ! (body + i) else s ! body"
  have at_v: "at s (if raw then body + i else body) = Some ?v" using i by (auto simp: at_def split: if_splits)
  have p: "put dst (p + i) ?v = Some (dst[p + i := ?v])" using i(1) Suc.prems(3) by (intro put_Some) simp
  have ih: "block_copy s raw body [Suc i..<k] p (dst[p + i := ?v]) = Some (take (p + Suc i) (dst[p + i := ?v]) @
     (if raw then take (k - Suc i) (drop (body + Suc i) s) else replicate (k - Suc i) (s ! body)) @ drop (p + k) (dst[p + i := ?v]))"
    using Suc i by (intro Suc.hyps(1)) auto
  have one: "take (p + Suc i) (dst[p + i := ?v]) = take (p + i) dst @ [?v]" using i(1) Suc.prems(3) by (simp add: take_Suc_conv_app_nth)
  have two: "drop (p + k) (dst[p + i := ?v]) = drop (p + k) dst" using i(1) by simp
  have three: "take (k - i) (drop (body + i) s) = s ! (body + i) # take (k - Suc i) (drop (body + Suc i) s)" if raw
    using i that by (simp add: Cons_nth_drop_Suc[symmetric] Suc_diff_Suc[symmetric])
  have four: "replicate (k - i) (s ! body) = s ! body # replicate (k - Suc i) (s ! body)" using i(1) by (simp add: Suc_diff_Suc[symmetric])
  have up: "[i..<k] = i # [Suc i..<k]" using i(1) by (rule upt_conv_Cons)
  show ?case unfolding up block_copy.simps at_v bind.bind_lunit p ih one two using three four by simp
qed simp

lemma blocks_loop_contract:
  fixes win :: u64
  defines "bm \<equiv> zstd_literals_block_maximum win"
  assumes n: "unat n \<le> length s" "unat n < 2 ^ 60" and scr: "\<And>i. block_scratch_ok (scr i)"
    and pos: "unat pos \<le> unat n" "unat n - unat pos < 3 * fuel"
    and c: "carries state cr" and st: "storage_ok state" "unat bm \<le> unat (fs_literals_capacity state)"
    and d: "unat declared \<le> length dst" "length dst < 2 ^ 64" "unat produced \<le> unat declared"
  shows "wp (blocks_loop fuel s n win scr bm declared pos produced state dst report) (\<lambda>(res, state', dst', report').
     length dst' = length dst \<and> take (unat produced) dst' = take (unat produced) dst \<and> drop (unat declared) dst' = drop (unat declared) dst \<and>
     (case res of
        Inl (st, rej) \<Rightarrow> (rej = kZstdBlocksRejectSequenceStorageTooSmall \<and> st = CUDEC_ERR_OUTPUT_TOO_SMALL \<and> 3 * unat (fs_sequences_capacity state) < unat bm) \<or>
          (rej \<in> {kZstdBlocksRejectNone, kZstdBlocksRejectBlockPastDeclaration} \<and> st = CUDEC_ERR_CORRUPT_INPUT \<and>
           (\<forall>pos' out. frame_means (unat win) (unat bm) scr s (unat n) (unat pos) cr (take (unat produced) dst) pos' out \<longrightarrow> unat declared < length out))
      | Inr (p', pos') \<Rightarrow> unat produced \<le> unat p' \<and> unat p' \<le> unat declared \<and> unat pos' \<le> unat n \<and> drop (unat p') dst' = drop (unat p') dst \<and>
          (\<forall>pos'' out. frame_means (unat win) (unat bm) scr s (unat n) (unat pos) cr (take (unat produced) dst) pos'' out \<longleftrightarrow>
             pos'' = unat pos' \<and> out = take (unat p') dst')))"
  using pos c st d
proof (induction fuel arbitrary: pos produced state dst report cr)
  case (Suc fuel)
  let ?P = "unat pos" and ?out = "take (unat produced) dst"
  define F where "F = frame_means (unat win) (unat bm) scr s (unat n)"
  define S where "S = step_means (unat win) (unat bm) scr s (unat n) ?P cr ?out"
  have F_iff: "F ?P cr ?out pos' out' \<longleftrightarrow> (\<exists>cr1 out1. S cr1 out1 \<and> (if odd (zb_raw s ?P) then pos' = ?P + 3 + zb_body s ?P \<and> out' = out1
      else F (?P + 3 + zb_body s ?P) cr1 out1 pos' out'))" for pos' out' unfolding F_def S_def by (rule frame_means_iff)
  have F_grows: "F p c o' pos' out' \<Longrightarrow> length o' \<le> length out'" for p c o' pos' out' unfolding F_def by (rule frame_means_grows)
  have avail: "unat (n - pos) = unat n - ?P" using Suc.prems(1) by (rule unat_minus)
  then have av: "?P + unat (n - pos) \<le> length s" using n(1) Suc.prems(1) by simp
  note H = block_header_contract[OF av, of win, unfolded avail]
  show ?case unfolding blocks_loop.simps F_def[symmetric]
  proof (rule wp_bindI[OF H], goal_cases)
    case (1 parsed)
    show ?case
    proof (cases parsed)
      case (Inl e)
      then have "fst e = CUDEC_ERR_CORRUPT_INPUT" "\<not> S cr1 out1" for cr1 out1 using 1 by (cases e, simp add: S_def step_means_def)+
      then have "\<not> F ?P cr ?out pos' out'" for pos' out' unfolding F_iff by blast
      then show ?thesis using \<open>fst e = CUDEC_ERR_CORRUPT_INPUT\<close> unfolding Inl by (cases e) (simp add: wp_Some)
    next
      case (Inr b)
      have acc: "zb_accepted s ?P (unat n - ?P) (unat win)" and fl: "zb_fields s ?P b" using 1 Inr by simp_all
      have b: "unat (zb_block_size b) = zb_size s ?P" "unat (zb_body_size b) = zb_body s ?P" "unat (zb_block_type b) = zb_type s ?P" "zb_last_block b = odd (zb_raw s ?P)"
        using fl by (simp_all add: zb_fields_def)
      have ty: "zb_block_type b = kZstdBlockTypeRaw \<longleftrightarrow> zb_type s ?P = 0" "zb_block_type b = kZstdBlockTypeRle \<longleftrightarrow> zb_type s ?P = 1"
        using b(3) by (auto simp: zstd_frame_consts word_unat_eq_iff)
      have body: "?P + 3 + zb_body s ?P \<le> unat n" "zb_size s ?P \<le> 131072" using acc Suc.prems(1) by (auto simp: zb_accepted_def)
      have uz: "unat (ucast (zb_block_size b) :: u64) = zb_size s ?P" "unat (ucast (zb_body_size b) :: u64) = zb_body s ?P" using b by simp_all
      have np: "unat (pos + (3 + ucast (zb_body_size b))) = ?P + 3 + zb_body s ?P"
      proof -
        have "unat (3 + ucast (zb_body_size b) :: u64) = 3 + zb_body s ?P" using body(1) n(2) uz(2) by (subst unat_plus) simp_all
        then show ?thesis using body(1) n(2) by (subst unat_plus) simp_all
      qed
      define step where "step rep = (if zb_block_type b = kZstdBlockTypeRaw \<or> zb_block_type b = kZstdBlockTypeRle then do {
              let regenerated = ucast (zb_block_size b);
              if regenerated > declared - produced
              then Some (Inl (CUDEC_ERR_CORRUPT_INPUT, kZstdBlocksRejectBlockPastDeclaration), state, dst,
                zstd_blocks_stop rep kZstdBlocksStageContentSize Rung_None)
              else do {
                dst \<leftarrow> block_copy s (zb_block_type b = kZstdBlockTypeRaw) (?P + 3) [0..<unat regenerated] (unat produced) dst;
                Some (Inr (produced + regenerated), state, dst, rep)
              }
            }
            else zstd_decode_compressed_block s (?P + 3) (ucast (zb_body_size b)) win (scr ?P) state bm dst declared produced rep)" for rep
      have lo: "length ?out = unat produced" using Suc.prems(6,8) by simp
      have stepped: "wp (step rep) (\<lambda>(res, state', dst', report').
         length dst' = length dst \<and> take (unat produced) dst' = take (unat produced) dst \<and> drop (unat declared) dst' = drop (unat declared) dst \<and>
         (case res of
            Inl (st, rej) \<Rightarrow> (rej = kZstdBlocksRejectSequenceStorageTooSmall \<and> st = CUDEC_ERR_OUTPUT_TOO_SMALL \<and> 3 * unat (fs_sequences_capacity state) < unat bm) \<or>
              (rej \<in> {kZstdBlocksRejectNone, kZstdBlocksRejectBlockPastDeclaration} \<and> st = CUDEC_ERR_CORRUPT_INPUT \<and> (\<forall>cr' out. S cr' out \<longrightarrow> unat declared < length out))
          | Inr p' \<Rightarrow> unat produced \<le> unat p' \<and> unat p' \<le> unat declared \<and> drop (unat p') dst' = drop (unat p') dst \<and> storage_ok state' \<and> same_capacities state state' \<and>
              (\<exists>cr'. carries state' cr' \<and> (\<forall>cr'' out. S cr'' out \<longleftrightarrow> cr'' = cr' \<and> out = take (unat p') dst'))))" for rep
      proof (cases "zb_type s ?P = 0 \<or> zb_type s ?P = 1")
        case True
        define regen where "regen = (if zb_type s ?P = 0 then take (zb_size s ?P) (drop (?P + 3) s) else replicate (zb_size s ?P) (s ! (?P + 3)))"
        have S: "S cr' out \<longleftrightarrow> cr' = cr \<and> out = ?out @ regen" for cr' out using True acc by (auto simp: S_def step_means_def regen_def)
        have src: "?P + 3 + (if zb_type s ?P = 0 then zb_size s ?P else 1) \<le> length s"
          using body(1) n(1) True by (auto simp: zb_body_def split: if_splits)
        then have lr: "length regen = zb_size s ?P" by (auto simp: regen_def)
        have room: "ucast (zb_block_size b) > declared - produced \<longleftrightarrow> unat declared < unat produced + zb_size s ?P"
          using Suc.prems(8) unat_minus[of produced declared] b(1) by (auto simp: w2n uz)
        show ?thesis
        proof (cases "unat declared < unat produced + zb_size s ?P")
          case over: True
          then show ?thesis unfolding step_def ty if_P[OF True] Let_def room if_P[OF over] using lr lo by (auto simp: wp_Some S)
        next
          case False
          define d1 where "d1 = take (unat produced) dst @ regen @ drop (unat produced + zb_size s ?P) dst"
          have cp: "block_copy s (zb_type s ?P = 0) (?P + 3) [0..<zb_size s ?P] (unat produced) dst = Some d1"
            using block_copy_value[of 0 "zb_size s ?P" "?P + 3" "zb_type s ?P = 0" s "unat produced" dst] src False Suc.prems(6)
            by (simp add: d1_def regen_def)
          have up: "unat (produced + ucast (zb_block_size b)) = unat produced + zb_size s ?P"
            using False uz(1) unat_plus_le[of produced "ucast (zb_block_size b)" declared] by simp
          have ld: "length d1 = length dst" using False Suc.prems(6) lr by (simp add: d1_def)
          have tk: "take (unat produced) d1 = ?out" "take (unat produced + zb_size s ?P) d1 = ?out @ regen"
            "drop (unat produced + zb_size s ?P) d1 = drop (unat produced + zb_size s ?P) dst"
            using lo lr by (simp_all add: d1_def)
          have "drop (unat declared) d1 = drop (unat declared) dst" using drop_further[OF tk(3)] False by simp
          moreover have ex: "\<exists>cr'. carries state cr' \<and> (\<forall>cr'' out. S cr'' out \<longleftrightarrow> cr'' = cr' \<and> out = ?out @ regen)"
            using Suc.prems(3) S by blast
          ultimately show ?thesis unfolding step_def ty if_P[OF True] Let_def room if_not_P[OF False] uz cp bind.bind_lunit wp_Some prod.case sum.case up tk
            using False ld ex Suc.prems(4) by (simp add: same_capacities_def del: split_paired_Ex split_paired_All carries.simps)
        qed
      next
        case False
        have sm: "block_means (unat win) (unat bm) (scr ?P) (drop (?P + 3) s) (zb_body s ?P) cr ?out = S"
          using False acc by (intro ext) (simp add: S_def step_means_def)
        have nb: "?P + 3 + unat (ucast (zb_body_size b) :: u64) \<le> length s" "unat (ucast (zb_body_size b) :: u64) < 2 ^ 60" using body(1) n uz(2) by simp_all
        note C = compressed_block_contract[OF nb Suc.prems(3,4) scr[of ?P] Suc.prems(5)[unfolded bm_def] Suc.prems(6,7,8), folded bm_def, unfolded uz sm]
        show ?thesis unfolding step_def ty if_not_P[OF False] 
        proof (rule wp_mono[OF C], goal_cases)
          case (1 x)
          obtain r2 st2 d2 rep2 where x: "x = (r2, st2, d2, rep2)" by (cases x) auto
          show ?case
          proof (cases r2)
            case (Inl e)
            then show ?thesis using 1 unfolding x by (cases e) (simp del: split_paired_Ex split_paired_All, blast)
          next
            case (Inr y)
            then show ?thesis using 1 unfolding x by (simp del: split_paired_Ex split_paired_All)
          qed
        qed
      qed
      show ?thesis unfolding Inr sum.case Let_def step_def[unfolded Let_def, symmetric]
      proof (rule wp_bind4[OF stepped], goal_cases)
        case (1 res state1 d1 rep1)
        show ?case
        proof (cases res)
          case (Inl e)
          obtain e1 rej where e: "e = (e1, rej)" by (cases e)
          have "F ?P cr ?out pos' out \<Longrightarrow> unat declared < length out" if "\<forall>cr' out. S cr' out \<longrightarrow> unat declared < length out" for pos' out
            using that F_grows unfolding F_iff by (fastforce split: if_splits)
          then show ?thesis using 1 unfolding Inl e by (auto simp: wp_Some)
        next
          case (Inr p1)
          obtain cr1 where q: "unat produced \<le> unat p1" "unat p1 \<le> unat declared" "drop (unat p1) d1 = drop (unat p1) dst" "storage_ok state1" "same_capacities state state1"
            "carries state1 cr1" "\<And>cr'' out. S cr'' out \<longleftrightarrow> cr'' = cr1 \<and> out = take (unat p1) d1"
            "length d1 = length dst" "take (unat produced) d1 = ?out" "drop (unat declared) d1 = drop (unat declared) dst"
            using 1[unfolded Inr prod.case sum.case] by (elim conjE exE) (rule that, assumption+, blast, assumption+)
          show ?thesis
          proof (cases "zb_last_block b")
            case True
            then have "F ?P cr ?out pos' out \<longleftrightarrow> pos' = ?P + 3 + zb_body s ?P \<and> out = take (unat p1) d1" for pos' out
              unfolding F_iff q(7) using b(4) by auto
            then show ?thesis unfolding Inr sum.case if_P[OF True] using q body(1) np by (simp add: wp_Some)
          next
            case False
            then have F1: "F ?P cr ?out pos' out \<longleftrightarrow> F (?P + 3 + zb_body s ?P) cr1 (take (unat p1) d1) pos' out" for pos' out
              unfolding F_iff q(7) using b(4) by auto
            have fuel: "unat n - unat (pos + (3 + ucast (zb_body_size b))) < 3 * fuel" using Suc.prems(2) np body(1) by simp
            have lc: "unat bm \<le> unat (fs_literals_capacity state1)" using q(5) Suc.prems(5) by (simp add: same_capacities_def)
            have sc: "fs_sequences_capacity state1 = fs_sequences_capacity state" using q(5) by (simp add: same_capacities_def)
            have bound: "unat (pos + (3 + ucast (zb_body_size b))) \<le> unat n" "unat declared \<le> length d1" "length d1 < 2 ^ 64"
              using np body(1) q(8) Suc.prems(6,7) by simp_all
            note I = Suc.IH[OF bound(1) fuel q(6,4) lc bound(2,3) q(2), of rep1, folded F_def, unfolded np sc, folded F1]
            show ?thesis unfolding Inr sum.case if_not_P[OF False]
            proof (rule wp_mono[OF I], goal_cases)
              case (1 x)
              obtain r2 st2 d2 rep2 where x: "x = (r2, st2, d2, rep2)" by (cases x) auto
              have k: "length d2 = length dst" "drop (unat declared) d2 = drop (unat declared) dst" using 1 q(8,10) by (simp_all add: x)
              have t: "take (unat p1) d2 = take (unat p1) d1" using 1 by (simp add: x)
              have tp: "take (unat produced) d2 = ?out" using arg_cong[OF t, of "take (unat produced)"] q(1,9) by (simp add: min_def split: if_splits)
              show ?case
              proof (cases r2)
                case (Inl e)
                then show ?thesis using 1 k tp unfolding x by simp
              next
                case (Inr y)
                obtain p2 pos2 where y: "y = (p2, pos2)" by (cases y)
                have "unat p1 \<le> unat p2" "drop (unat p2) d2 = drop (unat p2) d1" using 1 unfolding x Inr y by simp_all
                then have "drop (unat p2) d2 = drop (unat p2) dst" using drop_further[OF q(3), of "unat p2"] by simp
                then show ?thesis using 1 k tp q(1) unfolding x Inr y by auto
              qed
            qed
          qed
        qed
      qed
    qed
  qed
qed simp

section \<open>The decode of the blocks\<close>

text \<open>The buffers a frame state names are there, and large enough for a tree and for the tables.\<close>

definition storage_real :: "zstd_frame_state \<Rightarrow> bool" where
  "storage_real state \<longleftrightarrow> unat (fs_literals_capacity state) \<le> length (fs_literals state) \<and>
     unat (fs_sequences_capacity state) \<le> length (fs_sequences state) \<and> unat (fs_offsets_capacity state) \<le> length (fs_offsets state) \<and>
     unat (fs_destinations_capacity state) \<le> length (fs_destinations state) \<and>
     2048 \<le> unat (lt_capacity (fs_literals_table state)) \<and> unat (lt_capacity (fs_literals_table state)) \<le> length (lt_cells (fs_literals_table state)) \<and>
     (\<forall>t \<in> {fs_litlen state, fs_offset state, fs_matchlen state}. 512 \<le> unat (sqt_capacity t) \<and> unat (sqt_capacity t) \<le> length (sqt_cells t))"

definition storage_refused :: "u64 \<Rightarrow> zstd_frame_state \<Rightarrow> bool" where
  "storage_refused win state \<longleftrightarrow> unat (fs_destinations_capacity state) \<le> unat (fs_sequences_capacity state) \<or>
     fs_offsets_capacity state < fs_sequences_capacity state \<or> fs_literals_capacity state < zstd_literals_block_maximum win"

text \<open>What a frame starts from: no tree, no tables, the first repeated offsets.\<close>

definition frame_start :: "zstd_frame_state \<Rightarrow> carried" where
  "frame_start state = (None, (absent_table (fs_litlen state), absent_table (fs_offset state), absent_table (fs_matchlen state)), (1, 4, 8))"

lemma init_carries: "storage_real state \<Longrightarrow> carries (zstd_frame_state_init state) (frame_start state)"
  by (simp add: storage_real_def zstd_frame_state_init_def frame_start_def lit_state_def state_tables_def table_slot_def absent_table_def
      zstd_repcode_init_def kZstdRepcodeInitial0_def kZstdRepcodeInitial1_def kZstdRepcodeInitial2_def)

lemma blocks_fuel_enough: "unat n < 3 * blocks_fuel n"
proof -
  have "unat (n div 3) = unat n div 3" by (simp add: unat_div)
  moreover have "unat n div 3 + 1 < 2 ^ 64" using unat_less_exp[of n] by simp
  ultimately have "blocks_fuel n = unat n div 3 + 1" unfolding blocks_fuel_def by (subst unat_plus) simp_all
  then show ?thesis by simp
qed

lemma storage_request:
  "fs_destinations_capacity state = 0 \<or> fs_offsets_capacity state < fs_sequences_capacity state \<or>
     fs_destinations_capacity state - 1 < fs_sequences_capacity state \<longleftrightarrow>
   unat (fs_destinations_capacity state) \<le> unat (fs_sequences_capacity state) \<or> fs_offsets_capacity state < fs_sequences_capacity state"
  (is "?d = 0 \<or> ?o \<or> _ \<longleftrightarrow> _")
proof (cases "?d = 0")
  case False
  then have "0 < unat ?d" by (simp add: unat_gt_0)
  moreover then have "unat (?d - 1) = unat ?d - 1" by (subst unat_minus) simp_all
  ultimately show ?thesis using False by (auto simp: w2n)
qed simp

lemma decode_blocks_contract:
  fixes header :: zstd_frame_header
  defines "win \<equiv> zf_window_size header" and "declared \<equiv> zf_content_size header"
  defines "bm \<equiv> zstd_literals_block_maximum win"
  assumes n: "unat n \<le> length s" "unat n < 2 ^ 60" and scr: "\<And>i. block_scratch_ok (scr i)" and st: "storage_real state" and c: "carries state cr"
    and d: "unat room \<le> length dst" "length dst < 2 ^ 64"
  defines "means \<equiv> frame_means (unat win) (unat bm) scr s (unat n) 0 cr []"
  shows "wp (zstd_decode_blocks s n header scr state dst room) (\<lambda>(res, state', dst', report).
     length dst' = length dst \<and> drop (unat declared) dst' = drop (unat declared) dst \<and>
     (case res of
        Inl (st, rej) \<Rightarrow> (st = CUDEC_ERR_INVALID_ARGUMENT \<and> storage_refused win state) \<or>
          (st = CUDEC_ERR_OUTPUT_TOO_SMALL \<and> (unat room < unat declared \<or> 3 * unat (fs_sequences_capacity state) < unat bm)) \<or>
          (st = CUDEC_ERR_CORRUPT_INPUT \<and> (\<forall>pos out. means pos out \<longrightarrow> length out \<noteq> unat declared))
      | Inr (p, pos) \<Rightarrow> p = declared \<and> unat declared \<le> unat room \<and> \<not> storage_refused win state \<and> unat pos \<le> unat n \<and>
          (\<forall>pos' out. means pos' out \<longleftrightarrow> pos' = unat pos \<and> out = take (unat p) dst')))"
proof (cases "unat (fs_destinations_capacity state) \<le> unat (fs_sequences_capacity state) \<or> fs_offsets_capacity state < fs_sequences_capacity state")
  case True
  then show ?thesis unfolding zstd_decode_blocks_def storage_request Let_def if_P[OF True] by (auto simp: wp_Some storage_refused_def)
next
  case req: False
  show ?thesis
  proof (cases "fs_literals_capacity state < bm")
    case True
    then show ?thesis unfolding zstd_decode_blocks_def storage_request Let_def if_not_P[OF req]
      win_def[symmetric] bm_def[symmetric] if_P[OF True] by (simp add: wp_Some storage_refused_def bm_def)
  next
    case lits: False
    show ?thesis
    proof (cases "declared > room")
      case True
      then show ?thesis unfolding zstd_decode_blocks_def storage_request Let_def if_not_P[OF req]
        win_def[symmetric] bm_def[symmetric] if_not_P[OF lits] declared_def[symmetric] if_P[OF True] by (simp add: wp_Some w2n)
    next
      case False
      have so: "storage_ok state" using st req by (auto simp: storage_ok_def storage_real_def w2n)
      have pre: "unat (0 :: u64) \<le> unat n" "unat n - unat (0 :: u64) < 3 * blocks_fuel n" "unat bm \<le> unat (fs_literals_capacity state)"
        "unat declared \<le> length dst" "unat (0 :: u64) \<le> unat declared"
        using blocks_fuel_enough[of n] lits False d(1) by (simp_all add: w2n)
      have ok: "\<not> storage_refused win state" "unat declared \<le> unat room" using req lits False by (simp_all add: storage_refused_def bm_def w2n)
      have m0: "frame_means (unat win) (unat bm) scr s (unat n) (unat (0 :: u64)) cr (take (unat (0 :: u64)) dst) = means" by (simp add: means_def)
      note L = blocks_loop_contract[where scr = scr, OF n scr pre(1,2) c so pre(3)[unfolded bm_def] pre(4) d(2) pre(5), where report = zstd_blocks_report_init,
          folded bm_def, unfolded m0]
      show ?thesis unfolding zstd_decode_blocks_def storage_request Let_def if_not_P[OF req]
        win_def[symmetric] bm_def[symmetric] if_not_P[OF lits] declared_def[symmetric] if_not_P[OF False]
      proof (rule wp_bind4[OF L], goal_cases)
        case (1 res state1 d1 rep1)
        show ?case
        proof (cases res)
          case (Inl e)
          then show ?thesis using 1 by (cases e) (fastforce simp: wp_Some)
        next
          case (Inr y)
          obtain p pos where y: "y = (p, pos)" by (cases y)
          have p: "unat p \<le> unat declared" "\<And>pos' out. means pos' out \<longleftrightarrow> pos' = unat pos \<and> out = take (unat p) d1"
            "length d1 = length dst" "drop (unat declared) d1 = drop (unat declared) dst" "unat pos \<le> unat n"
            using 1 unfolding Inr y by simp_all
          have lp: "length (take (unat p) d1) = unat p" using p(1,3) pre(4) by simp
          show ?thesis
          proof (cases "p = declared")
            case True
            then show ?thesis using p ok unfolding Inr y by (simp add: wp_Some)
          next
            case False
            then have "unat p \<noteq> unat declared" by (simp add: word_unat_eq_iff)
            then show ?thesis using p(2,3,4) lp False unfolding Inr y by (simp add: wp_Some)
          qed
        qed
      qed
    qed
  qed
qed

end
