(* ===== verification/Zstd_Stream_Properties.thy ===== *)
theory Zstd_Stream_Properties
  imports Zstd_Blocks
begin

text \<open>
  The properties of the Zstandard sequences section and of the decode of a frame's blocks.
\<close>

section \<open>The sequences section\<close>

text \<open>C21: the table of a field is exactly the one its mode names: the table of an earlier section, one cell for
  the symbol of a single byte, or the table of the predefined or the described distribution, cell for
  cell; with the bytes its description takes. Where the mode names no table the section is corrupt
  and the table is not replaced. After every load the states of the table stay inside it.\<close>

theorem zstd_seq_table_exact:
  assumes "field \<le> 2" "mode \<le> 3" "p + unat n \<le> length s" "unat n < 2 ^ 60" "table_slot (zstd_seq_field_symbol_max field) table" "seq_scratch_ok scr"
  shows "wp (zstd_seq_load_table field mode s p n scr table) (\<lambda>(res, table'). case res of
     Inl (st, _) \<Rightarrow> st = CUDEC_ERR_CORRUPT_INPUT \<and> \<not> (\<exists>table' used. table_named field mode (drop p s) (unat n) scr table table' used)
   | Inr used \<Rightarrow> table_named field mode (drop p s) (unat n) scr table table' (unat used) \<and> unat used \<le> unat n \<and>
       field_table (zstd_seq_field_symbol_max field) table')"
proof (rule wp_mono[OF load_table_contract[OF assms]], goal_cases)
  case (1 x)
  have "unat n \<le> length (drop p s)" "length (sqs_counts scr) = 53" using assms by (simp_all add: seq_scratch_ok_def)
  then show ?case using 1 named_field_table[OF _ assms(5,1)] by (auto split: sum.splits)
qed

theorem zstd_seq_table_exact_witness:
  "wp (zstd_seq_load_table 1 1 [9, 17] 1 1 \<lparr>sqs_counts = replicate 53 0, sqs_symbol_next = replicate 53 0\<rparr>
      \<lparr>sqt_cells = replicate 512 \<lparr>fc_new_state = 0, fc_symbol = 0, fc_nb_bits = 0\<rparr>, sqt_capacity = 512, sqt_table_size = 0, sqt_accuracy_log = 0,
       sqt_present = False\<rparr>) (\<lambda>(res, table'). case res of Inl _ \<Rightarrow> False | Inr used \<Rightarrow> unat used = 1 \<and> sqt_cells table' ! 0 = \<lparr>fc_new_state = 0,
         fc_symbol = 17, fc_nb_bits = 0\<rparr>)"
proof -
  let ?t = "\<lparr>sqt_cells = replicate 512 \<lparr>fc_new_state = 0, fc_symbol = 0, fc_nb_bits = 0\<rparr>, sqt_capacity = 512, sqt_table_size = 0,
      sqt_accuracy_log = 0, sqt_present = False\<rparr>" and ?scr = "\<lparr>sqs_counts = replicate 53 0, sqs_symbol_next = replicate 53 0\<rparr>"
  have mx: "zstd_seq_field_symbol_max 1 = 31" by (simp add: zstd_seq_field_symbol_max_def seq_consts)
  have named: "table_named 1 1 (drop 1 [9, 17]) (unat (1 :: u64)) ?scr ?t (with_table ?t 0 ((sqt_cells ?t)[0 := \<lparr>fc_new_state = 0, fc_symbol = 17, fc_nb_bits = 0\<rparr>])) 1"
    unfolding table_named_def mx by simp
  show ?thesis
  proof (rule wp_mono[OF zstd_seq_table_exact[where field = 1 and mode = 1 and s = "[9, 17]" and p = 1 and n = 1 and scr = ?scr and table = ?t]], goal_cases)
    case (7 x)
    obtain res table' where x: "x = (res, table')" by (cases x)
    show ?case
    proof (cases res)
      case (Inl e)
      then show ?thesis using 7 named unfolding x by (cases e) (simp only: prod.case sum.case, blast)
    next
      case (Inr used)
      then show ?thesis using 7 unfolding x by (simp only: prod.case sum.case) (simp add: table_named_def with_table_def)
    qed
  qed (simp_all add: table_slot_def seq_scratch_ok_def)
qed

text \<open>C19: the sequences of a block are those of the format: three states started in the order literals, offset,
  match, codes that stand for a baseline and a number of extra bits, read in the order offset, match,
  literals, states moved on in the order literals, match, offset except after the last sequence, and the
  bitstream used up to its last bit. A bitstream that does not hold exactly the declared number is
  corrupt. The slots after the sequences are kept.\<close>

theorem zstd_sequences_exact:
  assumes "field_table 35 l" "field_table 31 f" "field_table 52 m" "number \<noteq> 0" "number \<le> cap" "unat cap \<le> length out"
    and "p + unat n \<le> length s" "unat n < 2 ^ 60"
  shows "wp (zstd_decode_sequences s p n number l f m out cap) (\<lambda>(res, out').
     case seq_stream (unat number) (sqt_cells l, sqt_cells f, sqt_cells m) (cursor_logs l f m) (take (unat n) (drop p s)) of
       None \<Rightarrow> (\<exists>rej. res = Inl (CUDEC_ERR_CORRUPT_INPUT, rej))
     | Some qs \<Rightarrow> res = Inr () \<and> length qs = unat number \<and> out' = qs @ drop (unat number) out)"
  using assms by (rule sequences_contract)

abbreviation single_table :: "u8 \<Rightarrow> zstd_seq_table" where
  "single_table symbol \<equiv> \<lparr>sqt_cells = [\<lparr>fc_new_state = 0, fc_symbol = symbol, fc_nb_bits = 0\<rparr>], sqt_capacity = 1, sqt_table_size = 1,
     sqt_accuracy_log = 0, sqt_present = True\<rparr>"

lemma single_field_table: "unat symbol \<le> mx \<Longrightarrow> field_table mx (single_table symbol)"
  by (simp add: field_table_def cell_symbol_def)

theorem zstd_sequences_exact_witness:
  "wp (zstd_decode_sequences [0x19] 0 1 2 (single_table 5) (single_table 2) (single_table 3)
      (replicate 2 \<lparr>sq_literals_length = 0, sq_match_length = 0, sq_offset_value = 0\<rparr>) 2) (\<lambda>(res, out'). res = Inr () \<and>
       out' = [\<lparr>sq_literals_length = 5, sq_match_length = 6, sq_offset_value = 6\<rparr>, \<lparr>sq_literals_length = 5, sq_match_length = 6, sq_offset_value = 5\<rparr>])"
proof -
  let ?l = "single_table 5" and ?f = "single_table 2" and ?m = "single_table 3" and ?z = "\<lparr>sq_literals_length = 0, sq_match_length = 0, sq_offset_value = 0\<rparr>"
  have "seq_stream 2 (sqt_cells ?l, sqt_cells ?f, sqt_cells ?m) (0, 0, 0) [0x19] =
      Some [\<lparr>sq_literals_length = 5, sq_match_length = 6, sq_offset_value = 6\<rparr>, \<lparr>sq_literals_length = 5, sq_match_length = 6, sq_offset_value = 5\<rparr>]"
    by code_simp
  then have st: "seq_stream (unat (2 :: u32)) (sqt_cells ?l, sqt_cells ?f, sqt_cells ?m) (cursor_logs ?l ?f ?m) (take (unat (1 :: u64)) (drop 0 [0x19])) =
      Some [\<lparr>sq_literals_length = 5, sq_match_length = 6, sq_offset_value = 6\<rparr>, \<lparr>sq_literals_length = 5, sq_match_length = 6, sq_offset_value = 5\<rparr>]"
    by (simp add: cursor_logs_def)
  note x = zstd_sequences_exact[where l = ?l and f = ?f and m = ?m and number = 2 and cap = 2 and out = "replicate 2 ?z" and p = 0 and n = 1 and s = "[0x19]"]
  show ?thesis by (rule wp_mono[OF x], simp_all only: st) (auto intro!: single_field_table)
qed

text \<open>C22: the decode can be cut into tiles anywhere. A tile of \<open>j\<close> sequences followed by one of \<open>k\<close>, resumed from
  the cursor the first left, fails exactly when one tile of both does, and otherwise leaves the same
  sequences, the same states, the same bits unread and the same count.\<close>

theorem zstd_tiles_compose:
  assumes "cursor_ok cu" "\<not> cu_finished cu" "j \<noteq> 0" "k \<noteq> 0" "unat j + unat k \<le> unat (cu_total cu) - unat (cu_emitted cu)"
    and "j + k \<le> cap" "unat cap \<le> length out" "unat cap \<le> length out'"
  shows "wp (zstd_seq_decode_tile cu out cap (j + k)) (\<lambda>(whole, cu0, out0).
     wp (zstd_seq_decode_tile cu out cap j) (\<lambda>(a, cu1, out1). case a of
       Inl _ \<Rightarrow> \<exists>rej. whole = Inl (CUDEC_ERR_CORRUPT_INPUT, rej)
     | Inr _ \<Rightarrow> wp (zstd_seq_decode_tile cu1 out' cap k) (\<lambda>(b, cu2, out2). case b of
         Inl _ \<Rightarrow> \<exists>rej. whole = Inl (CUDEC_ERR_CORRUPT_INPUT, rej)
       | Inr _ \<Rightarrow> whole = Inr (j + k) \<and> take (unat j + unat k) out0 = take (unat j) out1 @ take (unat k) out2 \<and>
           cursor_states cu0 = cursor_states cu2 \<and> live_bits (cu_reader cu0) = live_bits (cu_reader cu2) \<and>
           cu_emitted cu0 = cu_emitted cu2 \<and> cu_finished cu0 = cu_finished cu2)))"
  using assms by (rule tiles_compose)

theorem zstd_tiles_compose_witness:
  "\<exists>cu. zstd_seq_begin [0x19] 0 1 2 (single_table 5) (single_table 2) (single_table 3) = Some (Inr cu) \<and>
     wp (zstd_seq_decode_tile cu [undefined, undefined] 2 (1 + 1)) (\<lambda>(whole, cu0, out0).
     wp (zstd_seq_decode_tile cu [undefined, undefined] 2 1) (\<lambda>(a, cu1, out1). case a of
       Inl _ \<Rightarrow> \<exists>rej. whole = Inl (CUDEC_ERR_CORRUPT_INPUT, rej)
     | Inr _ \<Rightarrow> wp (zstd_seq_decode_tile cu1 [undefined, undefined] 2 1) (\<lambda>(b, cu2, out2). case b of
         Inl _ \<Rightarrow> \<exists>rej. whole = Inl (CUDEC_ERR_CORRUPT_INPUT, rej)
       | Inr _ \<Rightarrow> whole = Inr (1 + 1) \<and> take (unat (1 :: u32) + unat (1 :: u32)) out0 = take (unat (1 :: u32)) out1 @ take (unat (1 :: u32)) out2 \<and>
           cursor_states cu0 = cursor_states cu2 \<and> live_bits (cu_reader cu0) = live_bits (cu_reader cu2) \<and>
           cu_emitted cu0 = cu_emitted cu2 \<and> cu_finished cu0 = cu_finished cu2)))"
proof -
  let ?l = "single_table 5" and ?f = "single_table 2" and ?m = "single_table 3"
  have st: "seq_start (0, 0, 0) (stream_bits [0x19]) = Some ((0, 0, 0), [True, False, False, True])" by code_simp
  have t: "field_table 35 ?l" "field_table 31 ?f" "field_table 52 ?m" by (rule single_field_table, simp)+
  have "wp (zstd_seq_begin [0x19] 0 1 2 ?l ?f ?m) (\<lambda>res. \<exists>cu. res = Inr cu \<and> cursor_ok cu \<and> cu_total cu = 2 \<and> cu_emitted cu = 0 \<and> \<not> cu_finished cu)"
    by (rule wp_mono[OF begin_contract[OF t]]) (auto simp: cursor_logs_def st)
  then obtain cu where cu: "zstd_seq_begin [0x19] 0 1 2 ?l ?f ?m = Some (Inr cu)" "cursor_ok cu" "cu_total cu = 2" "cu_emitted cu = 0" "\<not> cu_finished cu"
    by (auto simp: wp_iff)
  show ?thesis by (intro exI[of _ cu] conjI cu(1) zstd_tiles_compose) (simp_all add: cu)
qed

section \<open>The blocks of a frame\<close>

text \<open>C18: the blocks of a frame are decoded exactly. From the state a frame starts with, whatever the
  buffers held before, the decode succeeds exactly on blocks that have a meaning of the declared size: headers the format
  accepts up to a last one, raw bytes, repeated bytes, and compressed blocks whose literals, tables,
  sequences, repeated offsets and copies mean these bytes, with the tree, the tables and the history
  carried from one block to the next. Then the bytes are those, from the start of the destination,
  and the consumed bytes end with the last block. Other blocks are corrupt. The remaining
  answers need storage or room the caller did not give, and nothing past the declared size is
  written.\<close>

theorem zstd_blocks_exact:
  fixes header :: zstd_frame_header
  defines "win \<equiv> zf_window_size header" and "declared \<equiv> zf_content_size header"
  defines "bm \<equiv> zstd_literals_block_maximum win"
  assumes "unat n \<le> length s" "unat n < 2 ^ 60" "\<And>i. block_scratch_ok (scr i)" "storage_real state" "unat room \<le> length dst" "length dst < 2 ^ 64"
  defines "means \<equiv> frame_means (unat win) (unat bm) scr s (unat n) 0 (frame_start state) []"
  shows "wp (zstd_decode_blocks s n header scr (zstd_frame_state_init state) dst room) (\<lambda>(res, state', dst', report).
     length dst' = length dst \<and> drop (unat declared) dst' = drop (unat declared) dst \<and>
     (case res of
        Inl (st, rej) \<Rightarrow> (st = CUDEC_ERR_INVALID_ARGUMENT \<and> storage_refused win state) \<or>
          (st = CUDEC_ERR_OUTPUT_TOO_SMALL \<and> (unat room < unat declared \<or> 3 * unat (fs_sequences_capacity state) < unat bm)) \<or>
          (st = CUDEC_ERR_CORRUPT_INPUT \<and> (\<forall>pos out. means pos out \<longrightarrow> length out \<noteq> unat declared))
      | Inr (p, pos) \<Rightarrow> p = declared \<and> unat declared \<le> unat room \<and> \<not> storage_refused win state \<and> unat pos \<le> unat n \<and>
          (\<forall>pos' out. means pos' out \<longleftrightarrow> pos' = unat pos \<and> out = take (unat p) dst')))"
proof -
  have real: "storage_real (zstd_frame_state_init state)" using assms(7)
    by (simp add: storage_real_def zstd_frame_state_init_def absent_table_def)
  have kept: "storage_refused win (zstd_frame_state_init state) = storage_refused win state"
    "fs_sequences_capacity (zstd_frame_state_init state) = fs_sequences_capacity state"
    by (simp_all add: storage_refused_def zstd_frame_state_init_def)
  show ?thesis unfolding means_def
    using decode_blocks_contract[where scr = scr and header = header, OF assms(4,5,6) real init_carries[OF assms(7)] assms(8,9)]
    unfolding win_def[symmetric] declared_def[symmetric] bm_def[symmetric] kept .
qed

abbreviation blank_table :: zstd_seq_table where
  "blank_table \<equiv> \<lparr>sqt_cells = replicate 512 \<lparr>fc_new_state = 0, fc_symbol = 0, fc_nb_bits = 0\<rparr>, sqt_capacity = 512, sqt_table_size = 0,
     sqt_accuracy_log = 0, sqt_present = False\<rparr>"

definition blank_state :: zstd_frame_state where
  "blank_state = \<lparr>fs_literals_table = \<lparr>lt_cells = replicate 2048 \<lparr>hc_symbol = 0, hc_nb_bits = 0\<rparr>, lt_capacity = 2048, lt_table_log = 0, lt_present = False\<rparr>,
     fs_litlen = blank_table, fs_offset = blank_table, fs_matchlen = blank_table, fs_repcodes = [1, 4, 8],
     fs_literals = replicate 8 0, fs_literals_capacity = 8, fs_sequences = replicate 3 \<lparr>sq_literals_length = 0, sq_match_length = 0, sq_offset_value = 0\<rparr>,
     fs_sequences_capacity = 3, fs_offsets = replicate 3 0, fs_offsets_capacity = 3, fs_destinations = replicate 4 0, fs_destinations_capacity = 4\<rparr>"

definition blank_scratch :: block_scratch where
  "blank_scratch = \<lparr>bs_literals = \<lparr>ls_weights_scratch = \<lparr>ws_counts = replicate 13 0, ws_cells = replicate 64 \<lparr>fc_new_state = 0, fc_symbol = 0, fc_nb_bits = 0\<rparr>,
     ws_symbol_next = replicate 13 0\<rparr>, ls_weights = replicate 256 0\<rparr>, bs_starts = replicate 13 0,
     bs_seq = (\<lambda>_. \<lparr>sqs_counts = replicate 53 0, sqs_symbol_next = replicate 53 0\<rparr>)\<rparr>"

text \<open>A raw block, a compressed block of literals alone, and an RLE block.\<close>

lemma three_blocks:
  "frame_means 8 8 (\<lambda>_. blank_scratch) [16, 0, 0, 104, 105, 36, 0, 0, 16, 33, 34, 0, 27, 0, 0, 35] 16 0 (frame_start blank_state) [] 16
     [104, 105, 33, 34, 35, 35, 35]" (is "frame_means _ _ _ ?s _ _ ?c _ _ _")
proof -
  have r: "zb_raw ?s 0 = 16" "zb_raw ?s 5 = 36" "zb_raw ?s 12 = 27" by (simp_all add: zb_raw_def)
  have first: "step_means 8 8 (\<lambda>_. blank_scratch) ?s 16 0 ?c [] ?c [104, 105]" "zb_body ?s 0 = 2"
    by (simp_all add: step_means_def zb_accepted_def zb_type_def zb_size_def zb_body_def r)
  have "block_means 8 8 blank_scratch [16, 33, 34, 0, 27, 0, 0, 35] 4 ?c [104, 105] ?c [104, 105, 33, 34]"
    by (auto simp: frame_start_def lit_section_def seq_section_def lit_header_bytes_def lit_type_def lit_format_def lit_regenerated_def lit_consumed_def
        sec_accepted_def sec_count_def sec_count_bytes_def)
  then have second: "step_means 8 8 (\<lambda>_. blank_scratch) ?s 16 5 ?c [104, 105] ?c [104, 105, 33, 34]" "zb_body ?s 5 = 4"
    by (simp_all add: step_means_def zb_accepted_def zb_type_def zb_size_def zb_body_def r del: block_means.simps)
  have third: "step_means 8 8 (\<lambda>_. blank_scratch) ?s 16 12 ?c [104, 105, 33, 34] ?c [104, 105, 33, 34, 35, 35, 35]" "zb_body ?s 12 = 1"
    by (simp_all add: step_means_def zb_accepted_def zb_type_def zb_size_def zb_body_def r numeral_3_eq_3)
  have "frame_means 8 8 (\<lambda>_. blank_scratch) ?s 16 12 ?c [104, 105, 33, 34] 16 [104, 105, 33, 34, 35, 35, 35]"
    using last_block[OF third(1)] third(2) r(3) by simp
  then have "frame_means 8 8 (\<lambda>_. blank_scratch) ?s 16 5 ?c [104, 105] 16 [104, 105, 33, 34, 35, 35, 35]"
    using next_block[OF second(1)] second(2) r(2) by simp
  then show ?thesis using next_block[OF first(1)] first(2) r(1) by simp
qed

theorem zstd_blocks_exact_witness:
  "wp (zstd_decode_blocks [16, 0, 0, 104, 105, 36, 0, 0, 16, 33, 34, 0, 27, 0, 0, 35] 16
      \<lparr>zf_content_size = 7, zf_window_size = 8, zf_header_size = 6, zf_single_segment = True, zf_content_checksum = False\<rparr>
      (\<lambda>_. blank_scratch) (zstd_frame_state_init blank_state) (replicate 10 0) 10)
     (\<lambda>(res, state', dst', report). res = Inr (7, 16) \<and> dst' = [104, 105, 33, 34, 35, 35, 35, 0, 0, 0])"
proof -
  let ?s = "[16, 0, 0, 104, 105, 36, 0, 0, 16, 33, 34, 0, 27, 0, 0, 35] :: u8 list"
  let ?h = "\<lparr>zf_content_size = 7, zf_window_size = 8, zf_header_size = 6, zf_single_segment = True, zf_content_checksum = False\<rparr>"
  have ok: "storage_real blank_state" "\<And>i :: nat. block_scratch_ok blank_scratch"
    by (simp_all add: storage_real_def blank_state_def block_scratch_ok_def blank_scratch_def scratch_ok_def seq_scratch_ok_def)
  have bm: "zstd_literals_block_maximum 8 = 8" by (simp add: zstd_literals_block_maximum_def kZstdBlockSizeCeiling_def)
  have sr: "\<not> storage_refused 8 blank_state" by (simp add: storage_refused_def bm blank_state_def)
  have cap: "fs_sequences_capacity blank_state = 3" by (simp add: blank_state_def)
  show ?thesis
  proof (rule wp_mono[OF zstd_blocks_exact[where s = ?s and n = 16 and scr = "\<lambda>_. blank_scratch" and state = blank_state and room = 10 and
        dst = "replicate 10 0" and header = ?h, OF _ _ ok(2,1)]], goal_cases)
    case (5 x)
    obtain res state' dst' report where x: "x = (res, state', dst', report)" by (cases x) auto
    have fm: "frame_means (unat (8 :: u64)) (unat (8 :: u64)) (\<lambda>_. blank_scratch) ?s (unat (16 :: u64)) 0 (frame_start blank_state) [] 16
       [104, 105, 33, 34, 35, 35, 35]" using three_blocks by simp
    have some: "\<not> (\<forall>pos out. frame_means 8 8 (\<lambda>_. blank_scratch) ?s 16 0 (frame_start blank_state) [] pos out \<longrightarrow> length out \<noteq> 7)"
      using three_blocks by fastforce
    show ?case
    proof (cases res)
      case (Inl e)
      then show ?thesis using 5 fm sr cap unfolding x bm by (cases e) (simp add: bm some)
    next
      case (Inr y)
      obtain p pos where y: "y = (p, pos)" by (cases y)
      have k: "p = 7" "length dst' = 10" "drop 7 dst' = replicate 3 0" "\<forall>pos' out. frame_means (unat (8 :: u64)) (unat (8 :: u64)) (\<lambda>_. blank_scratch) ?s (unat (16 :: u64)) 0 (frame_start blank_state) [] pos' out \<longleftrightarrow>
          pos' = unat pos \<and> out = take 7 dst'" using 5 unfolding x Inr y by (simp_all add: bm)
      have "unat pos = unat (16 :: u64)" "take 7 dst' = [104, 105, 33, 34, 35, 35, 35]" using k(4) fm by simp_all
      moreover have "dst' = take 7 dst' @ drop 7 dst'" by simp
      ultimately show ?thesis using k(1,3) unfolding x Inr y by (simp add: word_unat_eq_iff numeral_3_eq_3)
    qed
  qed simp_all
qed

end
