(* ===== verification/Device.thy ===== *)
theory Device
  imports Lz4_Roundtrip Snappy_Roundtrip Batch
begin

text \<open>
  The host's view of device work: the owners of \<open>src/vendor_raii.h\<close>, transfers between
  buffers, and a batch entry of \<open>src/batch.cu\<close> as the host paths call it. The device runtime
  is not under the source tree. An allocation's or a transfer's outcome is an argument, and the
  contents of a buffer are a list of their own, so that an owner is what it remembers: whether it
  holds an allocation, and its capacity. What a caller of an entry relies on is the locale
  \<open>batch_entry\<close>: each chunk's result and output are a function of that chunk alone.
\<close>

section \<open>Grow-only owners\<close>

record dev_buf =
  buf_live :: bool
  buf_cap :: u64

definition empty_buf :: dev_buf where
  "empty_buf = \<lparr>buf_live = False, buf_cap = 0\<rparr>"

text \<open>\<open>DevBuf::ensure\<close>; \<open>PinnedBuf::ensure\<close> differs in the allocator it calls.\<close>

definition dev_buf_ensure :: "bool \<Rightarrow> u64 \<Rightarrow> dev_buf \<Rightarrow> bool \<times> dev_buf" where
  "dev_buf_ensure alloc_ok bytes b =
     (if bytes \<le> buf_cap b then (True, b)
      else
        let b = (if buf_live b then \<lparr>buf_live = False, buf_cap = 0\<rparr> else b) in
        if \<not> alloc_ok then (False, b\<lparr>buf_live := False\<rparr>)
        else (True, \<lparr>buf_live = True, buf_cap = bytes\<rparr>))"

definition pinned_buf_ensure :: "bool \<Rightarrow> u64 \<Rightarrow> dev_buf \<Rightarrow> bool \<times> dev_buf" where
  "pinned_buf_ensure alloc_ok bytes b =
     (if bytes \<le> buf_cap b then (True, b)
      else
        let b = (if buf_live b then \<lparr>buf_live = False, buf_cap = 0\<rparr> else b) in
        if \<not> alloc_ok then (False, b\<lparr>buf_live := False\<rparr>)
        else (True, \<lparr>buf_live = True, buf_cap = bytes\<rparr>))"

text \<open>An owner holds an allocation or nothing at all.\<close>

definition buf_ok :: "dev_buf \<Rightarrow> bool" where
  "buf_ok b \<longleftrightarrow> (buf_live b \<longleftrightarrow> buf_cap b \<noteq> 0)"

lemma ensure_contract:
  assumes "buf_ok b"
  shows "case dev_buf_ensure alloc_ok bytes b of (good, b') \<Rightarrow> buf_ok b' \<and>
    (good \<longrightarrow> bytes \<le> buf_cap b' \<and> buf_cap b \<le> buf_cap b') \<and>
    (\<not> good \<longrightarrow> b' = empty_buf \<and> \<not> alloc_ok \<and> buf_cap b < bytes) \<and>
    (bytes \<le> buf_cap b \<longrightarrow> good \<and> b' = b)"
  using assms by (auto simp: dev_buf_ensure_def buf_ok_def empty_buf_def Let_def not_le)

lemma pinned_is_dev: "pinned_buf_ensure = dev_buf_ensure"
  by (simp add: fun_eq_iff pinned_buf_ensure_def dev_buf_ensure_def)

section \<open>Transfers\<close>

definition slice_at :: "'a list \<Rightarrow> u64 \<Rightarrow> u64 \<Rightarrow> 'a list option" where
  "slice_at buf off n =
     (if unat off + unat n \<le> length buf then Some (take (unat n) (drop (unat off) buf)) else None)"

definition splice_at :: "'a list \<Rightarrow> u64 \<Rightarrow> 'a list \<Rightarrow> 'a list option" where
  "splice_at buf off bs =
     (if unat off + length bs \<le> length buf
      then Some (take (unat off) buf @ bs @ drop (unat off + length bs) buf) else None)"

text \<open>The chunks a kernel reads through an array of pointers, and those it writes.\<close>

fun gather_slices :: "'a list \<Rightarrow> u64 list \<Rightarrow> u64 list \<Rightarrow> 'a list list option" where
  "gather_slices buf (off # offs) (n # ns) = do {
     x \<leftarrow> slice_at buf off n;
     xs \<leftarrow> gather_slices buf offs ns;
     Some (x # xs)
   }"
| "gather_slices buf _ _ = Some []"

fun scatter_slices :: "'a list \<Rightarrow> u64 list \<Rightarrow> 'a list list \<Rightarrow> 'a list option" where
  "scatter_slices buf (off # offs) (x # xs) = do {
     buf \<leftarrow> splice_at buf off x;
     scatter_slices buf offs xs
   }"
| "scatter_slices buf _ _ = Some buf"

fun offsets :: "nat \<Rightarrow> nat list \<Rightarrow> nat list" where
  "offsets b [] = []"
| "offsets b (n # ns) = b # offsets (b + n) ns"

lemma length_offsets [simp]: "length (offsets b ns) = length ns"
  by (induction ns arbitrary: b) simp_all

lemma nth_offsets: "i < length ns \<Longrightarrow> offsets b ns ! i = b + sum_list (take i ns)"
proof (induction ns arbitrary: b i)
  case (Cons n ns)
  then show ?case by (cases i) simp_all
qed simp

lemma offsets_append: "offsets b (xs @ ys) = offsets b xs @ offsets (b + sum_list xs) ys"
  by (induction xs arbitrary: b) (simp_all add: add.assoc)

lemma gather_concat:
  "map unat offs = offsets (length pre) (map length xs) \<Longrightarrow> map unat ns = map length xs \<Longrightarrow>
   gather_slices (pre @ concat xs @ post) offs ns = Some xs"
proof (induction xs arbitrary: offs ns pre)
  case (Cons x xs)
  then obtain off offs' n ns' where o: "offs = off # offs'" "ns = n # ns'" "unat off = length pre" "unat n = length x"
    "map unat offs' = offsets (length (pre @ x)) (map length xs)" "map unat ns' = map length xs" by auto
  have "slice_at (pre @ concat (x # xs) @ post) off n = Some x" using o(3,4) by (simp add: slice_at_def)
  moreover have "gather_slices ((pre @ x) @ concat xs @ post) offs' ns' = Some xs" using Cons.IH[OF o(5,6)] .
  ultimately show ?case by (simp add: o(1,2))
qed simp

lemma scatter_concat:
  "map unat offs = offsets (length pre) (map length xs) \<Longrightarrow> map length ys = map length xs \<Longrightarrow>
   scatter_slices (pre @ concat xs @ post) offs ys = Some (pre @ concat ys @ post)"
proof (induction xs arbitrary: offs ys pre)
  case (Cons x xs)
  then obtain off offs' y ys' where o: "offs = off # offs'" "ys = y # ys'" "unat off = length pre" "length y = length x"
    "map unat offs' = offsets (length (pre @ y)) (map length xs)" "map length ys' = map length xs" by auto
  have "splice_at (pre @ concat (x # xs) @ post) off y = Some (pre @ y @ concat xs @ post)"
    using o(3,4) by (simp add: splice_at_def)
  moreover have "scatter_slices ((pre @ y) @ concat xs @ post) offs' ys' = Some ((pre @ y) @ concat ys' @ post)"
    using Cons.IH[OF o(5,6)] .
  ultimately show ?case by (simp add: o(1,2))
qed simp

lemma cut_list: "sum_list ns \<le> length xs \<Longrightarrow> \<exists>slots post. xs = concat slots @ post \<and> map length slots = ns"
proof (induction ns arbitrary: xs)
  case (Cons k ns)
  then obtain slots post where "drop k xs = concat slots @ post" "map length slots = ns"
    by (metis (no_types, lifting) add_le_imp_le_diff length_drop sum_list.Cons add.commute)
  then show ?case using Cons.prems
    by (intro exI[of _ "take k xs # slots"] exI[of _ post]) (simp, metis append_take_drop_id)
qed simp

section \<open>The batch entries\<close>

text \<open>
  A call the host makes: the pointers are the host's own arrays and the results start at an
  aligned address, so of the validation only the count is left. \<open>order\<close> is the order in
  which the waves take the chunks.
\<close>

type_synonym batch_call = "u8 list list \<Rightarrow> u64 list \<Rightarrow> u64 list \<Rightarrow> u8 list list \<Rightarrow> chunk_result list \<Rightarrow>
    (cudec_status \<times> u8 list list \<times> chunk_result list) option"

definition host_batch_args :: "nat \<Rightarrow> batch_args" where
  "host_batch_args n = \<lparr>null_src = False, null_sizes = False, null_dst = False, null_caps = False,
     null_results = False, results_addr = 0, arg_chunk_count = of_nat n\<rparr>"

definition lz4_decompress_batch :: "int option \<Rightarrow> bool \<Rightarrow> (nat \<Rightarrow> nat list) \<Rightarrow> (nat \<Rightarrow> nat list) \<Rightarrow> batch_call" where
  "lz4_decompress_batch width_query post_launch sched order srcs sizes caps dsts results =
     (case submit_batch chunk_launch (host_batch_args (length srcs)) width_query post_launch of
        (CUDEC_OK, Some shape) \<Rightarrow> do {
          (dsts, results) \<leftarrow> run_chunks lz4_next dst_pos lz4_parser_init sched srcs sizes caps
                               (order (length srcs)) (dsts, results);
          Some (CUDEC_OK, dsts, results)
        }
      | (st, _) \<Rightarrow> Some (st, dsts, results))"

definition snappy_decompress_batch :: "int option \<Rightarrow> bool \<Rightarrow> (nat \<Rightarrow> nat list) \<Rightarrow> (nat \<Rightarrow> nat list) \<Rightarrow> batch_call" where
  "snappy_decompress_batch width_query post_launch sched order srcs sizes caps dsts results =
     (case submit_batch chunk_launch (host_batch_args (length srcs)) width_query post_launch of
        (CUDEC_OK, Some shape) \<Rightarrow> do {
          (dsts, results) \<leftarrow> run_chunks snappy_next dst_pos snappy_parser_init sched srcs sizes caps
                               (order (length srcs)) (dsts, results);
          Some (CUDEC_OK, dsts, results)
        }
      | (st, _) \<Rightarrow> Some (st, dsts, results))"

definition lz4_one :: "(nat \<Rightarrow> nat list) \<Rightarrow> u8 list \<Rightarrow> u64 \<Rightarrow> u64 \<Rightarrow> u8 list \<Rightarrow> chunk_result \<times> u8 list" where
  "lz4_one sched s n cap d = the (decode_chunk lz4_next dst_pos sched s n (lz4_parser_init s n cap) d)"

definition snappy_one :: "(nat \<Rightarrow> nat list) \<Rightarrow> u8 list \<Rightarrow> u64 \<Rightarrow> u64 \<Rightarrow> u8 list \<Rightarrow> chunk_result \<times> u8 list" where
  "snappy_one sched s n cap d = the (decode_chunk snappy_next dst_pos sched s n (snappy_parser_init s n cap) d)"

text \<open>One chunk of a call: its source, and a destination of exactly the capacity it is given.\<close>

definition chunk_args :: "u8 list \<Rightarrow> u64 \<Rightarrow> u64 \<Rightarrow> u8 list \<Rightarrow> bool" where
  "chunk_args s n cap d \<longleftrightarrow> unat n = length s \<and> unat cap = length d"

text \<open>
  An entry refuses a call with everything as it was, or decodes every chunk by itself. What a chunk
  reports, and the bytes it reports as written, do not depend on what the destination held.
\<close>

locale batch_entry =
  fixes accepts :: bool
    and entry :: batch_call
    and one :: "u8 list \<Rightarrow> u64 \<Rightarrow> u64 \<Rightarrow> u8 list \<Rightarrow> chunk_result \<times> u8 list"
  assumes refuses: "\<not> accepts \<Longrightarrow> length results = length srcs \<Longrightarrow>
      \<exists>st. st \<noteq> CUDEC_OK \<and> entry srcs sizes caps dsts results = Some (st, dsts, results)"
    and chunkwise: "accepts \<Longrightarrow> 0 < length srcs \<Longrightarrow> length srcs \<le> unat kMaxBatchChunks \<Longrightarrow>
      length sizes = length srcs \<Longrightarrow> length caps = length srcs \<Longrightarrow> length dsts = length srcs \<Longrightarrow>
      length results = length srcs \<Longrightarrow>
      (\<And>c. c < length srcs \<Longrightarrow> chunk_args (srcs ! c) (sizes ! c) (caps ! c) (dsts ! c)) \<Longrightarrow>
      entry srcs sizes caps dsts results = Some (CUDEC_OK,
        map (\<lambda>c. snd (one (srcs ! c) (sizes ! c) (caps ! c) (dsts ! c))) [0..<length srcs],
        map (\<lambda>c. fst (one (srcs ! c) (sizes ! c) (caps ! c) (dsts ! c))) [0..<length srcs])"
    and one_bounds: "chunk_args s n cap d \<Longrightarrow>
      length (snd (one s n cap d)) = length d \<and> bytes_written (fst (one s n cap d)) \<le> cap"
    and one_stable: "chunk_args s n cap d \<Longrightarrow> chunk_args s n cap e \<Longrightarrow>
      fst (one s n cap e) = fst (one s n cap d) \<and>
      take (unat (bytes_written (fst (one s n cap d)))) (snd (one s n cap e)) =
      take (unat (bytes_written (fst (one s n cap d)))) (snd (one s n cap d))"

text \<open>A chunk order takes every chunk once.\<close>

definition chunk_order :: "(nat \<Rightarrow> nat list) \<Rightarrow> bool" where
  "chunk_order order \<longleftrightarrow> (\<forall>n. distinct (order n) \<and> set (order n) = {0..<n})"

lemma host_submit:
  assumes "w \<in> {32, 64}" "0 < n" "n \<le> unat kMaxBatchChunks"
  shows "\<exists>shape. submit_batch launch (host_batch_args n) (Some w) True = (CUDEC_OK, Some shape)"
proof -
  have u: "unat (of_nat n :: u64) = n" using assms(3) by (intro unat_of_nat_less) (simp add: batch_consts)
  have "validate_batch_args (host_batch_args n) = CUDEC_OK"
    using assms(2,3) u by (auto simp: validate_batch_args_def host_batch_args_def w2n simp flip: unat_eq_0)
  then show ?thesis using assms(1)
    by (auto simp: submit_batch_def select_wave_instantiation_def kWaveWidth32_def kWaveWidth64_def)
qed

definition launches :: "int option \<Rightarrow> bool \<Rightarrow> bool" where
  "launches width_query post_launch \<longleftrightarrow> post_launch \<and> width_query \<in> {Some 32, Some 64}"

lemma host_refuses:
  assumes "\<not> launches width_query post_launch"
  shows "\<exists>st shape. st \<noteq> CUDEC_OK \<and> submit_batch launch a width_query post_launch = (st, shape)"
  using assms by (auto simp: launches_def submit_batch_def Let_def select_wave_instantiation_def
      kWaveWidth32_def kWaveWidth64_def split: option.splits)

lemma run_chunks_map:
  assumes "\<And>c. c < length srcs \<Longrightarrow>
      decode_chunk nxt out_pos sched (srcs ! c) (sizes ! c) (mk (srcs ! c) (sizes ! c) (caps ! c)) (dsts ! c) = Some (f c)"
    and len: "length sizes = length srcs" "length caps = length srcs" "length dsts = length srcs" "length results = length srcs"
    and ord: "chunk_order order"
  shows "run_chunks nxt out_pos mk sched srcs sizes caps (order (length srcs)) (dsts, results) =
    Some (map (\<lambda>c. snd (f c)) [0..<length srcs], map (\<lambda>c. fst (f c)) [0..<length srcs])"
proof -
  have o: "distinct (order (length srcs))" "set (order (length srcs)) = {0..<length srcs}"
    using ord by (simp_all add: chunk_order_def)
  have "run_chunks nxt out_pos mk sched srcs sizes caps (order (length srcs)) (dsts, results) =
    Some (map (\<lambda>c. if c \<in> set (order (length srcs)) then snd (f c) else dsts ! c) [0..<length dsts],
          map (\<lambda>c. if c \<in> set (order (length srcs)) then fst (f c) else results ! c) [0..<length results])"
    using assms(1) len o by (intro run_chunks_independent[where res = "\<lambda>c. fst (f c)" and out = "\<lambda>c. snd (f c)"]) auto
  then show ?thesis using o len by simp
qed

text \<open>What a chunk reports is decided by its source alone.\<close>

lemma chunk_loop_stable:
  "chunk_loop nxt sched s fuel p q d = Some (st, fin, p', d') \<Longrightarrow>
   chunk_loop nxt sched s fuel p q e = Some (st', fin', p'', e') \<Longrightarrow> st' = st \<and> fin' = fin \<and> p'' = p'"
proof (induction nxt sched s fuel p q d arbitrary: e rule: chunk_loop.induct)
  case (1 nxt sched s fuel p q d)
  obtain t f q1 p1 where n: "nxt p q = Some (t, f, q1, p1)"
    using "1.prems"(1) by (subst (asm) chunk_loop.simps) (cases "nxt p q"; auto)
  show ?case
  proof (cases "t = CUDEC_OK")
    case False
    then show ?thesis using "1.prems" n by (subst (asm) (1 2) chunk_loop.simps) auto
  next
    case True
    obtain d1 where d1: "exec_sequence sched s q1 d = Some d1"
      using "1.prems"(1) n True by (subst (asm) chunk_loop.simps) (cases "exec_sequence sched s q1 d"; auto)
    obtain e1 where e1: "exec_sequence sched s q1 e = Some e1"
      using "1.prems"(2) n True by (subst (asm) chunk_loop.simps) (cases "exec_sequence sched s q1 e"; auto)
    show ?thesis
    proof (cases "f \<or> fuel = 0")
      case True
      then show ?thesis using "1.prems" n d1 e1 \<open>t = CUDEC_OK\<close>
        by (subst (asm) (1 2) chunk_loop.simps) auto
    next
      case go: False
      have "chunk_loop nxt sched s (fuel - 1) p1 q1 d1 = Some (st, fin, p', d')"
        "chunk_loop nxt sched s (fuel - 1) p1 q1 e1 = Some (st', fin', p'', e')"
        using "1.prems" n d1 e1 True go by (subst (asm) (1 2) chunk_loop.simps; simp)+
      then show ?thesis using "1.IH" n d1 True go by blast
    qed
  qed
qed

lemma decode_chunk_stable:
  assumes "decode_chunk nxt pos sched s n p d = Some (r, d')" "decode_chunk nxt pos sched s n p e = Some (r', e')"
  shows "r' = r"
  using assms chunk_loop_stable by (fastforce simp: decode_chunk_def Let_def bind_eq_Some_conv)

lemma lz4_one_decodes:
  assumes "chunk_args s n cap d" "0 < wave" "wave_schedule wave sched"
  shows "\<exists>r d'. decode_chunk lz4_next dst_pos sched s n (lz4_parser_init s n cap) d = Some (r, d') \<and>
      lz4_one sched s n cap d = (r, d') \<and> length d' = length d \<and> bytes_written r \<le> cap \<and>
      (chunk_status r = CUDEC_OK \<longleftrightarrow> (\<exists>out. decodes lz4_next (lz4_parser_init s n cap) empty_sequence [] out)) \<and>
      (chunk_status r = CUDEC_OK \<longrightarrow>
        decodes lz4_next (lz4_parser_init s n cap) empty_sequence [] (take (unat (bytes_written r)) d')) \<and>
      (chunk_status r \<noteq> CUDEC_OK \<longrightarrow> bytes_written r = 0)"
proof -
  have "core_ok (lz4_parser_init s n cap)" "dst_pos (lz4_parser_init s n cap) = 0" "src (lz4_parser_init s n cap) = s"
    "src_size (lz4_parser_init s n cap) = n" "dst_capacity (lz4_parser_init s n cap) = cap"
    using assms by (auto simp: core_ok_def lz4_parser_init_def chunk_args_def)
  then show ?thesis
    using lz4.decode_chunk_contract[of "lz4_parser_init s n cap" sched d] wave_schedule_permutes[OF assms(3,2)] assms(1)
    by (auto simp: wp_iff lz4_one_def chunk_args_def w2n)
qed

lemma snappy_one_decodes:
  assumes "chunk_args s n cap d" "0 < wave" "wave_schedule wave sched"
  shows "\<exists>r d'. decode_chunk snappy_next dst_pos sched s n (snappy_parser_init s n cap) d = Some (r, d') \<and>
      snappy_one sched s n cap d = (r, d') \<and> length d' = length d \<and> bytes_written r \<le> cap \<and>
      (chunk_status r = CUDEC_OK \<longrightarrow>
        decodes snappy_next (snappy_parser_init s n cap) empty_sequence [] (take (unat (bytes_written r)) d')) \<and>
      (chunk_status r \<noteq> CUDEC_OK \<longrightarrow> bytes_written r = 0)"
proof -
  have "snappy_ok (snappy_parser_init s n cap)" "dst_pos (snappy_parser_init s n cap) = 0" "src (snappy_parser_init s n cap) = s"
    "src_size (snappy_parser_init s n cap) = n" "dst_capacity (snappy_parser_init s n cap) = cap"
    using assms by (auto simp: snappy_ok_def core_ok_def snappy_parser_init_def chunk_args_def)
  then show ?thesis
    using snappy.decode_chunk_contract[of "snappy_parser_init s n cap" sched d] wave_schedule_permutes[OF assms(3,2)] assms(1)
    by (auto simp: wp_iff snappy_one_def chunk_args_def w2n)
qed

lemma lz4_batch_entry:
  assumes s: "0 < wave" "wave_schedule wave sched" and o: "chunk_order order"
  shows "batch_entry (launches w post) (lz4_decompress_batch w post sched order) (lz4_one sched)"
proof (unfold_locales, goal_cases)
  case (1 results srcs sizes caps dsts)
  obtain st shape where "st \<noteq> CUDEC_OK" "submit_batch chunk_launch (host_batch_args (length srcs)) w post = (st, shape)"
    using host_refuses[OF 1(1)] by blast
  then show ?case by (auto simp: lz4_decompress_batch_def split: cudec_status.split)
next
  case (2 srcs sizes caps dsts results)
  from 2(1) obtain k where k: "post" "w = Some k" "k \<in> {32, 64}" by (auto simp: launches_def)
  obtain shape where "submit_batch chunk_launch (host_batch_args (length srcs)) w post = (CUDEC_OK, Some shape)"
    using host_submit[OF k(3) 2(2,3)] k by auto
  moreover have "run_chunks lz4_next dst_pos lz4_parser_init sched srcs sizes caps (order (length srcs)) (dsts, results) =
    Some (map (\<lambda>c. snd (lz4_one sched (srcs ! c) (sizes ! c) (caps ! c) (dsts ! c))) [0..<length srcs],
          map (\<lambda>c. fst (lz4_one sched (srcs ! c) (sizes ! c) (caps ! c) (dsts ! c))) [0..<length srcs])"
    using lz4_one_decodes[OF 2(8) s] 2 o by (intro run_chunks_map) fastforce+
  ultimately show ?case by (simp add: lz4_decompress_batch_def)
next
  case (3 s n cap d)
  then show ?case using lz4_one_decodes[OF 3 assms(1,2)] by auto
next
  case (4 s n cap d e)
  obtain r d' r' e' where r: "decode_chunk lz4_next dst_pos sched s n (lz4_parser_init s n cap) d = Some (r, d')"
      "lz4_one sched s n cap d = (r, d')" "decode_chunk lz4_next dst_pos sched s n (lz4_parser_init s n cap) e = Some (r', e')"
      "lz4_one sched s n cap e = (r', e')" "chunk_status r \<noteq> CUDEC_OK \<longrightarrow> bytes_written r = 0"
      "chunk_status r = CUDEC_OK \<longrightarrow> decodes lz4_next (lz4_parser_init s n cap) empty_sequence [] (take (unat (bytes_written r)) d')"
      "chunk_status r' = CUDEC_OK \<longrightarrow> decodes lz4_next (lz4_parser_init s n cap) empty_sequence [] (take (unat (bytes_written r')) e')"
    using lz4_one_decodes[OF 4(1) assms(1,2)] lz4_one_decodes[OF 4(2) assms(1,2)] by blast
  have eq: "r' = r" by (rule decode_chunk_stable[OF r(1) r(3)])
  show ?case using r eq decodes_fun by (cases "chunk_status r = CUDEC_OK") auto
qed

lemma snappy_batch_entry:
  assumes s: "0 < wave" "wave_schedule wave sched" and o: "chunk_order order"
  shows "batch_entry (launches w post) (snappy_decompress_batch w post sched order) (snappy_one sched)"
proof (unfold_locales, goal_cases)
  case (1 results srcs sizes caps dsts)
  obtain st shape where "st \<noteq> CUDEC_OK" "submit_batch chunk_launch (host_batch_args (length srcs)) w post = (st, shape)"
    using host_refuses[OF 1(1)] by blast
  then show ?case by (auto simp: snappy_decompress_batch_def split: cudec_status.split)
next
  case (2 srcs sizes caps dsts results)
  from 2(1) obtain k where k: "post" "w = Some k" "k \<in> {32, 64}" by (auto simp: launches_def)
  obtain shape where "submit_batch chunk_launch (host_batch_args (length srcs)) w post = (CUDEC_OK, Some shape)"
    using host_submit[OF k(3) 2(2,3)] k by auto
  moreover have "run_chunks snappy_next dst_pos snappy_parser_init sched srcs sizes caps (order (length srcs)) (dsts, results) =
    Some (map (\<lambda>c. snd (snappy_one sched (srcs ! c) (sizes ! c) (caps ! c) (dsts ! c))) [0..<length srcs],
          map (\<lambda>c. fst (snappy_one sched (srcs ! c) (sizes ! c) (caps ! c) (dsts ! c))) [0..<length srcs])"
    using snappy_one_decodes[OF 2(8) s] 2 o by (intro run_chunks_map) fastforce+
  ultimately show ?case by (simp add: snappy_decompress_batch_def)
next
  case (3 s n cap d)
  then show ?case using snappy_one_decodes[OF 3 assms(1,2)] by auto
next
  case (4 s n cap d e)
  obtain r d' r' e' where r: "decode_chunk snappy_next dst_pos sched s n (snappy_parser_init s n cap) d = Some (r, d')"
      "snappy_one sched s n cap d = (r, d')" "decode_chunk snappy_next dst_pos sched s n (snappy_parser_init s n cap) e = Some (r', e')"
      "snappy_one sched s n cap e = (r', e')" "chunk_status r \<noteq> CUDEC_OK \<longrightarrow> bytes_written r = 0"
      "chunk_status r = CUDEC_OK \<longrightarrow> decodes snappy_next (snappy_parser_init s n cap) empty_sequence [] (take (unat (bytes_written r)) d')"
      "chunk_status r' = CUDEC_OK \<longrightarrow> decodes snappy_next (snappy_parser_init s n cap) empty_sequence [] (take (unat (bytes_written r')) e')"
    using snappy_one_decodes[OF 4(1) assms(1,2)] snappy_one_decodes[OF 4(2) assms(1,2)] by blast
  have eq: "r' = r" by (rule decode_chunk_stable[OF r(1) r(3)])
  show ?case using r eq decodes_fun by (cases "chunk_status r = CUDEC_OK") auto
qed

lemma ascending_order: "chunk_order (\<lambda>n. [0..<n])"
  by (simp add: chunk_order_def)

text \<open>The two entries at the narrow wave, lane by lane, chunk by chunk.\<close>

interpretation lz4_entry: batch_entry "launches (Some 32) True"
  "lz4_decompress_batch (Some 32) True (lane_major 32) (\<lambda>n. [0..<n])" "lz4_one (lane_major 32)"
  by (rule lz4_batch_entry[OF _ lane_major_schedule ascending_order]) simp_all

interpretation snappy_entry: batch_entry "launches (Some 32) True"
  "snappy_decompress_batch (Some 32) True (lane_major 32) (\<lambda>n. [0..<n])" "snappy_one (lane_major 32)"
  by (rule snappy_batch_entry[OF _ lane_major_schedule ascending_order]) simp_all

end
