(* ===== verification/Frame_Decode.thy ===== *)
theory Frame_Decode
  imports Lz4_Frame Device
begin

text \<open>
  The whole-frame decode, \<open>src/frame.cpp\<close>: parse, walk, one device batch over the compressed
  blocks, the capacity check, the assembly and the tail. Each call of the device runtime is a
  constructor of \<open>frame_call\<close>, and \<open>rt\<close> says which of them succeed. The copies of the
  assembly are issued on a stream and take effect at its drain, in an order the device chooses
  (\<open>drain\<close>). Device memory holds anything (\<open>junk\<close>, \<open>stale\<close>) until it is written.
\<close>

datatype frame_call =
    Grow_src | Grow_dst | Upload_stage | Grow_meta | Grow_results | Upload_frame_meta
  | Device_sync | Read_frame_results | Asm_create | Asm_copy nat | Asm_last | Asm_drain

section \<open>The device batch\<close>

fun frame_collect :: "lz4_frame_block list \<Rightarrow> nat \<Rightarrow> nat list \<Rightarrow> u64 \<Rightarrow> nat list \<times> u64" where
  "frame_collect [] i cidx total_src = (cidx, total_src)"
| "frame_collect (b # bs) i cidx total_src =
     (if \<not> uncompressed b then frame_collect bs (i + 1) (cidx @ [i]) (total_src + src_len b)
      else frame_collect bs (i + 1) cidx total_src)"

record frame_meta =
  fm_src :: "u64 list"
  fm_ssz :: "u64 list"
  fm_dst :: "u64 list"
  fm_dcp :: "u64 list"

fun frame_gather :: "u8 list \<Rightarrow> lz4_frame_block list \<Rightarrow> u64 \<Rightarrow> nat list \<Rightarrow> u64 \<Rightarrow> u64 \<Rightarrow> u8 list \<Rightarrow> frame_meta \<Rightarrow>
    (u8 list \<times> frame_meta) option" where
  "frame_gather f blocks bmax [] k so stage m = Some (stage, m)"
| "frame_gather f blocks bmax (i # is) k so stage m = do {
     b \<leftarrow> at blocks i;
     x \<leftarrow> slice_at f (src_off b) (src_len b);
     stage \<leftarrow> splice_at stage so x;
     frame_gather f blocks bmax is (k + 1) (so + src_len b) stage
       \<lparr>fm_src = fm_src m @ [so], fm_ssz = fm_ssz m @ [src_len b],
        fm_dst = fm_dst m @ [k * bmax], fm_dcp = fm_dcp m @ [bmax]\<rparr>
   }"

text \<open>The four sections packed into one upload, and a section read back out of it.\<close>

definition pack_meta :: "frame_meta \<Rightarrow> u64 list" where
  "pack_meta m = fm_src m @ fm_ssz m @ fm_dst m @ fm_dcp m"

definition meta_section :: "u64 list \<Rightarrow> nat \<Rightarrow> nat \<Rightarrow> u64 list" where
  "meta_section packed n s = take n (drop (s * n) packed)"

fun frame_lengths :: "u64 \<Rightarrow> nat list \<Rightarrow> chunk_result list \<Rightarrow> u64 list \<Rightarrow> (cudec_status + u64 list) option" where
  "frame_lengths bmax (i # is) (r # rs) decoded_len =
     (if chunk_status r \<noteq> CUDEC_OK \<or> bytes_written r > bmax then Some (Inl CUDEC_ERR_CORRUPT_INPUT)
      else do {
        decoded_len \<leftarrow> put decoded_len i (bytes_written r);
        frame_lengths bmax is rs decoded_len
      })"
| "frame_lengths bmax _ _ decoded_len = Some (Inr decoded_len)"

text \<open>
  The batch over the compressed blocks: a status, or the destination slots and the length of each
  block.
\<close>

definition frame_batch :: "(frame_call \<Rightarrow> bool) \<Rightarrow> (nat \<Rightarrow> u8) \<Rightarrow> (nat \<Rightarrow> chunk_result) \<Rightarrow> batch_call \<Rightarrow> u8 list \<Rightarrow>
    lz4_frame_block list \<Rightarrow> u64 \<Rightarrow> nat list \<Rightarrow> u64 \<Rightarrow> u64 list \<Rightarrow> (cudec_status + (u8 list \<times> u64 list)) option" where
  "frame_batch rt junk stale entry f blocks bmax cidx total_src decoded_len = (
     let n = of_nat (length cidx) :: u64 in
     if bmax \<noteq> 0 \<and> n > - 1 div bmax then Some (Inl CUDEC_ERR_CORRUPT_INPUT)
     else if \<not> rt Grow_src \<or> \<not> rt Grow_dst then Some (Inl CUDEC_ERR_CUDA)
     else do {
       (stage, m) \<leftarrow> frame_gather f blocks bmax cidx 0 0 (map junk [0..<unat total_src])
         \<lparr>fm_src = [], fm_ssz = [], fm_dst = [], fm_dcp = []\<rparr>;
       if \<not> rt Upload_stage then Some (Inl CUDEC_ERR_CUDA)
       else if n > - 1 div 32 then Some (Inl CUDEC_ERR_CORRUPT_INPUT)
       else if \<not> rt Grow_meta \<or> \<not> rt Grow_results then Some (Inl CUDEC_ERR_CUDA)
       else if \<not> rt Upload_frame_meta then Some (Inl CUDEC_ERR_CUDA)
       else do {
         let packed = pack_meta m;
         let d_dst = map junk [0..<unat (n * bmax)];
         let ssz = meta_section packed (length cidx) 1;
         let dcp = meta_section packed (length cidx) 3;
         srcs \<leftarrow> gather_slices stage (meta_section packed (length cidx) 0) ssz;
         dsts \<leftarrow> gather_slices d_dst (meta_section packed (length cidx) 2) dcp;
         (launched, outs, res) \<leftarrow> entry srcs ssz dcp dsts (map stale [0..<length cidx]);
         d_dst \<leftarrow> scatter_slices d_dst (meta_section packed (length cidx) 2) outs;
         if launched \<noteq> CUDEC_OK then Some (Inl launched)
         else if \<not> rt Device_sync then Some (Inl CUDEC_ERR_CUDA)
         else if \<not> rt Read_frame_results then Some (Inl CUDEC_ERR_CUDA)
         else do {
           lens \<leftarrow> frame_lengths bmax cidx res decoded_len;
           case lens of Inl e \<Rightarrow> Some (Inl e) | Inr lens \<Rightarrow> Some (Inr (d_dst, lens))
         }
       }
     })"

section \<open>The assembly\<close>

text \<open>The whole layout is summed against the capacity before a byte is written.\<close>

fun frame_total :: "(lz4_frame_block \<times> u64) list \<Rightarrow> u64 \<Rightarrow> u64 \<Rightarrow> u64 option" where
  "frame_total [] out_cap produced = Some produced"
| "frame_total ((b, decoded) # bs) out_cap produced =
     (let len = (if uncompressed b then src_len b else decoded) in
      if len > out_cap - produced then None
      else frame_total bs out_cap (produced + len))"

text \<open>A copy issued on the stream: where it writes, where it reads, how much.\<close>

record dev_copy =
  copy_out :: u64
  copy_dev :: u64
  copy_len :: u64

fun apply_copies :: "u8 list \<Rightarrow> dev_copy list \<Rightarrow> u8 list \<Rightarrow> u8 list option" where
  "apply_copies dev [] out = Some out"
| "apply_copies dev (c # cs) out = do {
     x \<leftarrow> slice_at dev (copy_dev c) (copy_len c);
     out \<leftarrow> splice_at out (copy_out c) x;
     apply_copies dev cs out
   }"

record frame_asm =
  asm_out :: "u8 list"
  asm_off :: u64
  asm_k :: u64
  run :: dev_copy
  issued :: "dev_copy list"

text \<open>
  The loop over the blocks; it stops when a copy cannot be issued. \<open>i\<close> counts the blocks.
\<close>

fun frame_place :: "(frame_call \<Rightarrow> bool) \<Rightarrow> u8 list \<Rightarrow> u64 \<Rightarrow> (lz4_frame_block \<times> u64) list \<Rightarrow> nat \<Rightarrow> frame_asm \<Rightarrow>
    (bool \<times> frame_asm) option" where
  "frame_place rt f bmax [] i a = Some (True, a)"
| "frame_place rt f bmax ((b, decoded) # bs) i a =
     (if uncompressed b then do {
        out \<leftarrow> (if src_len b \<noteq> 0 then do {
            x \<leftarrow> slice_at f (src_off b) (src_len b);
            splice_at (asm_out a) (asm_off a) x
          } else Some (asm_out a));
        frame_place rt f bmax bs (i + 1) (a\<lparr>asm_out := out, asm_off := asm_off a + src_len b\<rparr>)
      }
      else
        let len = decoded; dev = asm_k a * bmax; r = run a in
        if copy_len r \<noteq> 0 \<and> copy_dev r + copy_len r = dev \<and> copy_out r + copy_len r = asm_off a
        then frame_place rt f bmax bs (i + 1)
               (a\<lparr>run := r\<lparr>copy_len := copy_len r + len\<rparr>, asm_off := asm_off a + len, asm_k := asm_k a + 1\<rparr>)
        else if copy_len r \<noteq> 0 \<and> \<not> rt (Asm_copy i) then Some (False, a)
        else frame_place rt f bmax bs (i + 1)
               (a\<lparr>issued := (if copy_len r \<noteq> 0 then issued a @ [r] else issued a),
                  run := \<lparr>copy_out = asm_off a, copy_dev = dev, copy_len = len\<rparr>,
                  asm_off := asm_off a + len, asm_k := asm_k a + 1\<rparr>))"

text \<open>The status, the output and the produced size; the drain runs on every way out.\<close>

definition frame_assemble :: "(frame_call \<Rightarrow> bool) \<Rightarrow> (dev_copy list \<Rightarrow> dev_copy list) \<Rightarrow> u8 list \<Rightarrow> u8 list \<Rightarrow>
    bool \<Rightarrow> u64 \<Rightarrow> (lz4_frame_block \<times> u64) list \<Rightarrow> u8 list \<Rightarrow> u64 \<Rightarrow> (cudec_status \<times> u8 list \<times> u64) option" where
  "frame_assemble rt drain f d_dst some_compressed bmax blocks out produced =
     (if some_compressed \<and> \<not> rt Asm_create then Some (CUDEC_ERR_CUDA, out, 0)
      else do {
        (good, a) \<leftarrow> frame_place rt f bmax blocks 0
          \<lparr>asm_out = out, asm_off = 0, asm_k = 0, run = \<lparr>copy_out = 0, copy_dev = 0, copy_len = 0\<rparr>, issued = []\<rparr>;
        if \<not> good then do { out \<leftarrow> apply_copies d_dst (drain (issued a)) (asm_out a); Some (CUDEC_ERR_CUDA, out, 0) }
        else if copy_len (run a) \<noteq> 0 \<and> \<not> rt Asm_last
        then do { out \<leftarrow> apply_copies d_dst (drain (issued a)) (asm_out a); Some (CUDEC_ERR_CUDA, out, 0) }
        else do {
          let copies = (if copy_len (run a) \<noteq> 0 then issued a @ [run a] else issued a);
          out \<leftarrow> apply_copies d_dst (drain copies) (asm_out a);
          if some_compressed \<and> \<not> rt Asm_drain then Some (CUDEC_ERR_CUDA, out, 0)
          else Some (CUDEC_OK, out, produced)
        }
      })"

definition decode_and_assemble :: "(frame_call \<Rightarrow> bool) \<Rightarrow> (dev_copy list \<Rightarrow> dev_copy list) \<Rightarrow> (nat \<Rightarrow> u8) \<Rightarrow> (nat \<Rightarrow> chunk_result) \<Rightarrow>
    batch_call \<Rightarrow> u8 list \<Rightarrow> lz4_frame_block list \<Rightarrow> u64 \<Rightarrow> u8 list \<Rightarrow> u64 \<Rightarrow> (cudec_status \<times> u8 list \<times> u64) option" where
  "decode_and_assemble rt drain junk stale entry f blocks bmax out out_cap = (
     let (cidx, total_src) = frame_collect blocks 0 [] 0;
         decoded_len = replicate (length blocks) 0
     in do {
       batch \<leftarrow> (if cidx \<noteq> [] then frame_batch rt junk stale entry f blocks bmax cidx total_src decoded_len
                 else Some (Inr ([], decoded_len)));
       case batch of
         Inl e \<Rightarrow> Some (e, out, 0)
       | Inr (d_dst, decoded_len) \<Rightarrow>
           (case frame_total (zip blocks decoded_len) out_cap 0 of
              None \<Rightarrow> Some (CUDEC_ERR_OUTPUT_TOO_SMALL, out, 0)
            | Some produced \<Rightarrow> frame_assemble rt drain f d_dst (cidx \<noteq> []) bmax (zip blocks decoded_len) out produced)
     })"

section \<open>The frame\<close>

definition blank_descriptor :: lz4_frame_descriptor where
  "blank_descriptor = \<lparr>block_checksum = False, content_size = False, content_checksum = False,
     block_max = 0, declared_content_size = 0, body_off = 0\<rparr>"

definition decode_frame :: "(frame_call \<Rightarrow> bool) \<Rightarrow> (dev_copy list \<Rightarrow> dev_copy list) \<Rightarrow> (nat \<Rightarrow> u8) \<Rightarrow> (nat \<Rightarrow> chunk_result) \<Rightarrow>
    batch_call \<Rightarrow> u8 list \<Rightarrow> u64 \<Rightarrow> u8 list \<Rightarrow> u64 \<Rightarrow> (cudec_status \<times> u8 list \<times> u64) option" where
  "decode_frame rt drain junk stale entry f frame_size out out_cap = do {
     (header_status, desc) \<leftarrow> lz4_parse_frame_descriptor f frame_size blank_descriptor;
     if header_status \<noteq> CUDEC_OK then Some (header_status, out, 0)
     else do {
       (walk_status, blocks, tail_off) \<leftarrow> lz4_walk_frame_blocks f frame_size desc;
       if walk_status \<noteq> CUDEC_OK then Some (walk_status, out, 0)
       else do {
         (decode_status, out, produced) \<leftarrow>
           decode_and_assemble rt drain junk stale entry f blocks (block_max desc) out out_cap;
         if decode_status \<noteq> CUDEC_OK then Some (decode_status, out, 0)
         else do {
           tail_status \<leftarrow> lz4_verify_frame_tail f frame_size desc tail_off out produced;
           if tail_status \<noteq> CUDEC_OK then Some (tail_status, out, 0)
           else Some (CUDEC_OK, out, produced)
         }
       }
     }
   }"

text \<open>
  The entry: the null tests, and a host allocation that fails (\<open>host_alloc\<close>) reported as a
  resource error. The third component is what \<open>*bytes_written\<close> holds, when it is not null.
\<close>

definition lz4f_decompress :: "(frame_call \<Rightarrow> bool) \<Rightarrow> (dev_copy list \<Rightarrow> dev_copy list) \<Rightarrow> (nat \<Rightarrow> u8) \<Rightarrow> (nat \<Rightarrow> chunk_result) \<Rightarrow>
    batch_call \<Rightarrow> bool \<Rightarrow> u8 list option \<Rightarrow> u64 \<Rightarrow> u8 list option \<Rightarrow> u64 \<Rightarrow> bool \<Rightarrow>
    (cudec_status \<times> u8 list option \<times> u64 option) option" where
  "lz4f_decompress rt drain junk stale entry host_alloc frame frame_size dst out_cap null_written =
     (let written = (if null_written then None else Some 0) in
      case frame of
        None \<Rightarrow> Some (CUDEC_ERR_INVALID_ARGUMENT, dst, written)
      | Some f \<Rightarrow>
          if null_written \<or> (dst = None \<and> out_cap \<noteq> 0) then Some (CUDEC_ERR_INVALID_ARGUMENT, dst, written)
          else if \<not> host_alloc then Some (CUDEC_ERR_CUDA, dst, Some 0)
          else do {
            (st, out, produced) \<leftarrow> decode_frame rt drain junk stale entry f frame_size (case dst of None \<Rightarrow> [] | Some d \<Rightarrow> d) out_cap;
            Some (st, (case dst of None \<Rightarrow> None | Some _ \<Rightarrow> Some out), Some produced)
          })"

end
