(* ===== verification/Frame_Assembly.thy ===== *)
theory Frame_Assembly
  imports Frame_Decode
begin

text \<open>
  The whole-frame decode of \<open>src/frame.cpp\<close> over a frame that fits: what it produces is what
  the frame's blocks stand for, whatever order the device completes the assembly's copies in.
\<close>

section \<open>The staging\<close>

fun compressed_at :: "lz4_frame_block list \<Rightarrow> nat \<Rightarrow> nat list" where
  "compressed_at [] i = []"
| "compressed_at (b # bs) i = (if \<not> uncompressed b then i # compressed_at bs (i + 1) else compressed_at bs (i + 1))"

definition compressed :: "lz4_frame_block list \<Rightarrow> lz4_frame_block list" where
  "compressed bs = filter (\<lambda>b. \<not> uncompressed b) bs"

lemma compressed_simps [simp]: "compressed [] = []"
  "compressed (b # bs) = (if uncompressed b then compressed bs else b # compressed bs)"
  by (simp_all add: compressed_def)

definition total_len :: "lz4_frame_block list \<Rightarrow> nat" where
  "total_len bs = (\<Sum>b\<leftarrow>bs. unat (src_len b))"

lemma total_len_simps [simp]: "total_len [] = 0" "total_len (b # bs) = unat (src_len b) + total_len bs"
  by (simp_all add: total_len_def)

lemma total_compressed: "total_len (compressed bs) \<le> total_len bs"
  by (induction bs) auto

lemma length_compressed: "length (compressed bs) \<le> length bs" "length (compressed_at bs i) = length (compressed bs)"
  by (simp add: compressed_def) (induction bs arbitrary: i; simp)

lemma collect_eq:
  "unat t + total_len (compressed bs) < 2 ^ 64 \<Longrightarrow>
   \<exists>t'. frame_collect bs i cidx t = (cidx @ compressed_at bs i, t') \<and> unat t' = unat t + total_len (compressed bs)"
proof (induction bs arbitrary: i cidx t)
  case (Cons b bs)
  show ?case
  proof (cases "uncompressed b")
    case False
    then have "unat (t + src_len b) = unat t + unat (src_len b)" using Cons.prems by (intro unat_plus) simp
    then show ?thesis using Cons.IH[of "t + src_len b" "i + 1" "cidx @ [i]"] Cons.prems False by auto
  qed (use Cons in auto)
qed simp

lemma tiles_total: "tiles f n desc pos bs e \<Longrightarrow> pos + total_len bs \<le> n"
proof (induction bs arbitrary: pos)
  case (Cons b bs)
  from Cons.prems show ?case by (rule tiles_ConsE) (use Cons.IH in fastforce)
qed auto

lemma tiles_count: "tiles f n desc pos bs e \<Longrightarrow> length bs \<le> total_len bs"
proof (induction bs arbitrary: pos)
  case (Cons b bs)
  from Cons.prems show ?case by (rule tiles_ConsE) (use Cons.IH in fastforce)
qed simp

definition block_src :: "u8 list \<Rightarrow> lz4_frame_block \<Rightarrow> u8 list" where
  "block_src f b = take (unat (src_len b)) (drop (unat (src_off b)) f)"

definition block_inside :: "u8 list \<Rightarrow> lz4_frame_block \<Rightarrow> bool" where
  "block_inside f b \<longleftrightarrow> unat (src_off b) + unat (src_len b) \<le> length f"

lemma length_block_src: "block_inside f b \<Longrightarrow> length (block_src f b) = unat (src_len b)"
  by (simp add: block_inside_def block_src_def)

lemma slice_block: "block_inside f b \<Longrightarrow> slice_at f (src_off b) (src_len b) = Some (block_src f b)"
  by (simp add: block_inside_def block_src_def slice_at_def)

lemma total_len_src: "\<forall>b\<in>set bs. block_inside f b \<Longrightarrow> total_len bs = length (concat (map (block_src f) bs))"
  by (induction bs) (auto simp: length_block_src)

lemma gather_contract:
  assumes "\<forall>b\<in>set bs. block_inside f b"
    and "unat so = length pre_bytes" "stage = pre_bytes @ rest" "total_len (compressed bs) \<le> length rest"
    and "length pre_bytes + length rest < 2 ^ 64" "unat k + length (compressed bs) < 2 ^ 64"
  shows "\<exists>offs ks. frame_gather f (pre @ bs) bmax (compressed_at bs (length pre)) k so stage m = Some
      (pre_bytes @ concat (map (block_src f) (compressed bs)) @ drop (total_len (compressed bs)) rest,
       \<lparr>fm_src = fm_src m @ offs, fm_ssz = fm_ssz m @ map src_len (compressed bs),
        fm_dst = fm_dst m @ map (\<lambda>k. k * bmax) ks, fm_dcp = fm_dcp m @ replicate (length (compressed bs)) bmax\<rparr>) \<and>
     map unat offs = offsets (length pre_bytes) (map (\<lambda>b. unat (src_len b)) (compressed bs)) \<and>
     map unat ks = [unat k..<unat k + length (compressed bs)]"
  using assms
proof (induction bs arbitrary: pre k so stage m pre_bytes rest)
  case Nil
  then show ?case by simp
next
  case (Cons b bs)
  show ?case
  proof (cases "uncompressed b")
    case True
    then show ?thesis using Cons.IH[of so pre_bytes stage rest k "pre @ [b]" m] Cons.prems by simp
  next
    case False
    let ?x = "block_src f b"
    have b: "block_inside f b" using Cons.prems(1) by simp
    note lx = length_block_src[OF b]
    have sp: "splice_at stage so ?x = Some ((pre_bytes @ ?x) @ drop (length ?x) rest)"
      using Cons.prems(2,3,4) False lx by (simp add: splice_at_def)
    have so: "unat (so + src_len b) = length (pre_bytes @ ?x)"
      using Cons.prems(2,4,5) False lx by (subst unat_plus) simp_all
    have uk: "unat (k + 1) = Suc (unat k)" using Cons.prems(6) False by (subst unat_plus) simp_all
    let ?m = "\<lparr>fm_src = fm_src m @ [so], fm_ssz = fm_ssz m @ [src_len b], fm_dst = fm_dst m @ [k * bmax], fm_dcp = fm_dcp m @ [bmax]\<rparr>"
    have "\<exists>offs ks. frame_gather f ((pre @ [b]) @ bs) bmax (compressed_at bs (length (pre @ [b]))) (k + 1) (so + src_len b)
        ((pre_bytes @ ?x) @ drop (length ?x) rest) ?m = Some
      ((pre_bytes @ ?x) @ concat (map (block_src f) (compressed bs)) @ drop (total_len (compressed bs)) (drop (length ?x) rest),
       \<lparr>fm_src = fm_src ?m @ offs, fm_ssz = fm_ssz ?m @ map src_len (compressed bs),
        fm_dst = fm_dst ?m @ map (\<lambda>k. k * bmax) ks, fm_dcp = fm_dcp ?m @ replicate (length (compressed bs)) bmax\<rparr>) \<and>
     map unat offs = offsets (length (pre_bytes @ ?x)) (map (\<lambda>b. unat (src_len b)) (compressed bs)) \<and>
     map unat ks = [unat (k + 1)..<unat (k + 1) + length (compressed bs)]"
      by (rule Cons.IH) (use Cons.prems so uk False lx in auto)
    then obtain offs ks where r: "frame_gather f ((pre @ [b]) @ bs) bmax (compressed_at bs (length (pre @ [b]))) (k + 1) (so + src_len b)
        ((pre_bytes @ ?x) @ drop (length ?x) rest) ?m = Some
      ((pre_bytes @ ?x) @ concat (map (block_src f) (compressed bs)) @ drop (total_len (compressed bs)) (drop (length ?x) rest),
       \<lparr>fm_src = fm_src ?m @ offs, fm_ssz = fm_ssz ?m @ map src_len (compressed bs),
        fm_dst = fm_dst ?m @ map (\<lambda>k. k * bmax) ks, fm_dcp = fm_dcp ?m @ replicate (length (compressed bs)) bmax\<rparr>)"
      "map unat offs = offsets (length (pre_bytes @ ?x)) (map (\<lambda>b. unat (src_len b)) (compressed bs))"
      "map unat ks = [unat (k + 1)..<unat (k + 1) + length (compressed bs)]" by blast
    have up: "[unat k..<unat k + length (compressed (b # bs))] = unat k # [unat (k + 1)..<unat (k + 1) + length (compressed bs)]"
      using False uk by (simp add: upt_conv_Cons del: upt_Suc)
    show ?thesis
      by (rule exI[of _ "so # offs"], rule exI[of _ "k # ks"])
        (use r up False lx b Cons.prems(2) in \<open>simp add: slice_block sp add.commute del: upt_Suc\<close>)
  qed
qed

section \<open>The batch\<close>

fun weave :: "lz4_frame_block list \<Rightarrow> u64 list \<Rightarrow> u64 list" where
  "weave [] ls = []"
| "weave (b # bs) ls = (if uncompressed b then 0 # weave bs ls else hd ls # weave bs (List.tl ls))"

lemma length_weave [simp]: "length (weave bs ls) = length bs"
  by (induction bs ls rule: weave.induct) auto

lemma lengths_contract:
  assumes "length rs = length (compressed bs)"
  shows "frame_lengths bmax (compressed_at bs (length pre)) rs (pre @ replicate (length bs) 0) =
    Some (if \<forall>r\<in>set rs. chunk_status r = CUDEC_OK \<and> bytes_written r \<le> bmax
          then Inr (pre @ weave bs (map bytes_written rs)) else Inl CUDEC_ERR_CORRUPT_INPUT)"
  using assms
proof (induction bs arbitrary: pre rs)
  case Nil
  then show ?case by simp
next
  case (Cons b bs)
  show ?case
  proof (cases "uncompressed b")
    case True
    then show ?thesis using Cons.IH[of rs "pre @ [0]"] Cons.prems by simp
  next
    case False
    then obtain r rs' where rs: "rs = r # rs'" "length rs' = length (compressed bs)" using Cons.prems by (cases rs) auto
    have u: "(pre @ replicate (length (b # bs)) 0)[length pre := bytes_written r] = (pre @ [bytes_written r]) @ replicate (length bs) 0"
      by simp
    show ?thesis
    proof (cases "chunk_status r = CUDEC_OK \<and> bytes_written r \<le> bmax")
      case True
      then show ?thesis using Cons.IH[OF rs(2), of "pre @ [bytes_written r]"] False u by (simp add: rs(1) not_less)
    next
      case bad: False
      then show ?thesis using False by (auto simp: rs(1) not_le)
    qed
  qed
qed

lemma unat_slot: "k < C \<Longrightarrow> C * unat bmax < 2 ^ 64 \<Longrightarrow> unat k' = k \<Longrightarrow> unat (k' * (bmax::u64)) = k * unat bmax"
proof -
  assume a: "k < C" "C * unat bmax < 2 ^ 64" "unat k' = k"
  have "k * unat bmax \<le> C * unat bmax" using a(1) by (intro mult_right_mono) simp_all
  then have lt: "k * unat bmax < 2 ^ 64" using a(2) by (rule order_le_less_trans)
  have "unat (of_nat (k * unat bmax) :: u64) = k * unat bmax" by (rule unat_of_nat_less) (use lt in simp)
  moreover have "of_nat (k * unat bmax) = k' * bmax" using a(3) by (simp flip: a(3))
  ultimately show ?thesis by simp
qed

lemma offsets_replicate: "offsets b (replicate n k) = map (\<lambda>i. b + i * k) [0..<n]"
proof (induction n arbitrary: b)
  case (Suc n)
  have "[0..<Suc n] = 0 # map Suc [0..<n]" by (simp add: upt_conv_Cons map_Suc_upt del: upt_Suc)
  then show ?case using Suc by (simp add: comp_def add.assoc del: upt_Suc)
qed simp

context batch_entry begin

lemma frame_batch_contract:
  assumes acc: "accepts" and ins: "\<forall>b\<in>set blocks. block_inside f b"
    and C: "0 < length (compressed blocks)" "length (compressed blocks) \<le> unat kMaxBatchChunks"
    and fit: "length (compressed blocks) * unat bmax < 2 ^ 64" "0 < unat bmax"
    and ts: "unat total_src = total_len (compressed blocks)"
  shows "\<exists>slots. length slots = length (compressed blocks) \<and> (\<forall>x\<in>set slots. length x = unat bmax) \<and>
    (let ps = map (\<lambda>(b, x). one (block_src f b) (src_len b) bmax x) (zip (compressed blocks) slots) in
     wp (frame_batch rt junk stale entry f blocks bmax (compressed_at blocks 0) total_src (replicate (length blocks) 0)) (\<lambda>res.
       res = (if \<forall>p\<in>set ps. chunk_status (fst p) = CUDEC_OK then Inr (concat (map snd ps), weave blocks (map (\<lambda>p. bytes_written (fst p)) ps))
              else Inl CUDEC_ERR_CORRUPT_INPUT) \<or>
       res = Inl CUDEC_ERR_CUDA \<and> (\<exists>c. \<not> rt c)))"
proof -
  let ?bs = "compressed blocks" and ?C = "length (compressed blocks)"
  have ins': "\<forall>b\<in>set ?bs. block_inside f b" using ins by (simp add: compressed_def)
  have C64: "unat (of_nat ?C :: u64) = ?C" using C(2) by (intro unat_of_nat_less) (simp add: batch_consts)
  have sz: "unat (of_nat ?C * bmax) = ?C * unat bmax"
  proof -
    have "of_nat ?C * bmax = of_nat (?C * unat bmax)" by simp
    also have "unat (of_nat (?C * unat bmax) :: u64) = ?C * unat bmax" by (rule unat_of_nat_less) (use fit(1) in simp)
    finally show ?thesis .
  qed
  obtain slots where sl: "map junk [0..<?C * unat bmax] = concat slots" "map length slots = replicate ?C (unat bmax)"
  proof -
    have "sum_list (replicate ?C (unat bmax)) \<le> length (map junk [0..<?C * unat bmax])" by (simp add: sum_list_replicate)
    then obtain slots post where c: "map junk [0..<?C * unat bmax] = concat slots @ post" "map length slots = replicate ?C (unat bmax)"
      using cut_list by blast
    have "length (concat slots) = ?C * unat bmax" by (simp add: length_concat c(2) sum_list_replicate)
    then have "post = []" using arg_cong[OF c(1), of length] by simp
    then show ?thesis using c that by simp
  qed
  have lsl: "length slots = ?C" using arg_cong[OF sl(2), of length] by simp
  have lx: "length x = unat bmax" if "x \<in> set slots" for x
  proof -
    have "length x \<in> set (map length slots)" using that by simp
    then show ?thesis unfolding sl(2) by simp
  qed
  define one' where "one' = (\<lambda>(b, x). one (block_src f b) (src_len b) bmax x)"
  define ps where "ps = map one' (zip ?bs slots)"
  have lps: "length ps = ?C" using lsl by (simp add: ps_def)
  let ?m0 = "\<lparr>fm_src = [], fm_ssz = [], fm_dst = [], fm_dcp = []\<rparr>"
  have "\<exists>offs ks. frame_gather f ([] @ blocks) bmax (compressed_at blocks (length ([] :: lz4_frame_block list))) 0 0 (map junk [0..<unat total_src]) ?m0 = Some
      ([] @ concat (map (block_src f) ?bs) @ drop (total_len ?bs) (map junk [0..<unat total_src]),
       \<lparr>fm_src = fm_src ?m0 @ offs, fm_ssz = fm_ssz ?m0 @ map src_len ?bs,
        fm_dst = fm_dst ?m0 @ map (\<lambda>k. k * bmax) ks, fm_dcp = fm_dcp ?m0 @ replicate ?C bmax\<rparr>) \<and>
     map unat offs = offsets (length ([] :: u8 list)) (map (\<lambda>b. unat (src_len b)) ?bs) \<and>
     map unat ks = [unat (0 :: u64)..<unat (0 :: u64) + ?C]"
  proof (rule gather_contract[OF ins])
    show "length ([] :: u8 list) + length (map junk [0..<unat total_src]) < 2 ^ 64" using unat_u64_less[of total_src] by simp
    show "unat (0 :: u64) + ?C < 2 ^ 64" using C(2) by (simp add: batch_consts)
  qed (use ts in simp_all)
  then obtain offs ks where g: "frame_gather f blocks bmax (compressed_at blocks 0) 0 0 (map junk [0..<unat total_src]) ?m0 =
      Some (concat (map (block_src f) ?bs), \<lparr>fm_src = offs, fm_ssz = map src_len ?bs,
        fm_dst = map (\<lambda>k. k * bmax) ks, fm_dcp = replicate ?C bmax\<rparr>)"
     "map unat offs = offsets 0 (map (\<lambda>b. unat (src_len b)) ?bs)" "map unat ks = [0..<?C]"
    using ts by auto
  let ?dsts = "map (\<lambda>k. k * bmax) ks"
  have lk: "length offs = ?C" "length ks = ?C"
    using arg_cong[OF g(2), of length] arg_cong[OF g(3), of length] by simp_all
  have packed: "meta_section (pack_meta \<lparr>fm_src = offs, fm_ssz = map src_len ?bs, fm_dst = ?dsts, fm_dcp = replicate ?C bmax\<rparr>) ?C 0 = offs"
    "meta_section (pack_meta \<lparr>fm_src = offs, fm_ssz = map src_len ?bs, fm_dst = ?dsts, fm_dcp = replicate ?C bmax\<rparr>) ?C 1 = map src_len ?bs"
    "meta_section (pack_meta \<lparr>fm_src = offs, fm_ssz = map src_len ?bs, fm_dst = ?dsts, fm_dcp = replicate ?C bmax\<rparr>) ?C 2 = ?dsts"
    "meta_section (pack_meta \<lparr>fm_src = offs, fm_ssz = map src_len ?bs, fm_dst = ?dsts, fm_dcp = replicate ?C bmax\<rparr>) ?C 3 = replicate ?C bmax"
    using lk by (simp_all add: meta_section_def pack_meta_def)
  have ls: "map (\<lambda>b. unat (src_len b)) ?bs = map length (map (block_src f) ?bs)"
    using ins' by (simp add: length_block_src)
  have srcs: "gather_slices (concat (map (block_src f) ?bs)) offs (map src_len ?bs) = Some (map (block_src f) ?bs)"
    using gather_concat[of offs "[]" "map (block_src f) ?bs" "map src_len ?bs" "[]"] g(2) ls by (simp add: comp_def)
  have ud: "map unat ?dsts = offsets 0 (map length slots)"
  proof -
    have "map unat ?dsts = map (\<lambda>k. k * unat bmax) [0..<?C]"
    proof (rule nth_equalityI)
      fix k assume "k < length (map unat ?dsts)"
      then have k: "k < ?C" using lk by simp
      have "unat (ks ! k) = k" using arg_cong[OF g(3), of "\<lambda>xs. xs ! k"] k lk by simp
      then show "map unat ?dsts ! k = map (\<lambda>k. k * unat bmax) [0..<?C] ! k"
        using unat_slot[OF k fit(1), of "ks ! k"] k lk by simp
    qed (use lk in simp)
    then show ?thesis by (simp add: sl(2) offsets_replicate)
  qed
  have dsts: "gather_slices (concat slots) ?dsts (replicate ?C bmax) = Some slots"
    using gather_concat[of ?dsts "[]" slots "replicate ?C bmax" "[]"] ud sl(2) by simp
  have en: "entry (map (block_src f) ?bs) (map src_len ?bs) (replicate ?C bmax) slots (map stale [0..<?C]) =
      Some (CUDEC_OK, map snd ps, map fst ps)"
  proof -
    have "entry (map (block_src f) ?bs) (map src_len ?bs) (replicate ?C bmax) slots (map stale [0..<?C]) = Some (CUDEC_OK,
      map (\<lambda>c. snd (one (map (block_src f) ?bs ! c) (map src_len ?bs ! c) (replicate ?C bmax ! c) (slots ! c))) [0..<length (map (block_src f) ?bs)],
      map (\<lambda>c. fst (one (map (block_src f) ?bs ! c) (map src_len ?bs ! c) (replicate ?C bmax ! c) (slots ! c))) [0..<length (map (block_src f) ?bs)])"
    proof (rule chunkwise[OF acc])
      fix c assume "c < length (map (block_src f) ?bs)"
      then show "chunk_args (map (block_src f) ?bs ! c) (map src_len ?bs ! c) (replicate ?C bmax ! c) (slots ! c)"
        using ins' lx lsl by (simp add: chunk_args_def length_block_src)
    qed (use C lsl in simp_all)
    moreover have "map (\<lambda>c. snd (one (map (block_src f) ?bs ! c) (map src_len ?bs ! c) (replicate ?C bmax ! c) (slots ! c))) [0..<length (map (block_src f) ?bs)] = map snd ps"
      "map (\<lambda>c. fst (one (map (block_src f) ?bs ! c) (map src_len ?bs ! c) (replicate ?C bmax ! c) (slots ! c))) [0..<length (map (block_src f) ?bs)] = map fst ps"
      using lsl by (auto simp: ps_def one'_def intro!: nth_equalityI)
    ultimately show ?thesis by simp
  qed
  have pb: "length (snd p) = unat bmax \<and> bytes_written (fst p) \<le> bmax" if pin: "p \<in> set ps" for p
  proof -
    obtain b x where z: "(b, x) \<in> set (zip ?bs slots)" "p = one' (b, x)" using pin by (auto simp: ps_def)
    then have bx: "p = one (block_src f b) (src_len b) bmax x" "b \<in> set ?bs" "x \<in> set slots"
      by (auto simp: one'_def dest: set_zip_leftD set_zip_rightD)
    have "chunk_args (block_src f b) (src_len b) bmax x" using bx lx ins' by (simp add: chunk_args_def length_block_src)
    then show ?thesis using one_bounds lx[OF bx(3)] bx(1) by simp
  qed
  have sc: "scatter_slices (concat slots) ?dsts (map snd ps) = Some (concat (map snd ps))"
  proof -
    have "map length (map snd ps) = map length slots"
    proof (rule nth_equalityI)
      fix i assume "i < length (map length (map snd ps))"
      then have i: "i < length ps" "i < length slots" using lps lsl by simp_all
      then show "map length (map snd ps) ! i = map length slots ! i"
        using pb[OF nth_mem[OF i(1)]] lx[OF nth_mem[OF i(2)]] by simp
    qed (use lps lsl in simp)
    then show ?thesis using scatter_concat[of ?dsts "[]" slots "map snd ps" "[]"] ud by simp
  qed
  have len: "frame_lengths bmax (compressed_at blocks 0) (map fst ps) (replicate (length blocks) 0) =
      Some (if \<forall>p\<in>set ps. chunk_status (fst p) = CUDEC_OK then Inr (weave blocks (map (\<lambda>p. bytes_written (fst p)) ps)) else Inl CUDEC_ERR_CORRUPT_INPUT)"
    using lengths_contract[of "map fst ps" blocks bmax "[]"] lps pb by (simp add: comp_def)
  have lc: "length (compressed_at blocks 0) = ?C" by (simp add: length_compressed)
  have g1: "\<not> (bmax \<noteq> 0 \<and> of_nat ?C > - 1 div bmax)"
  proof -
    have "?C * unat bmax \<le> 2 ^ 64 - 1" using fit(1) by simp
    then have "?C \<le> (2 ^ 64 - 1) div unat bmax" using fit(2) by (simp add: less_eq_div_iff_mult_less_eq)
    then show ?thesis by (simp add: w2n unat_div unat_max_u64 C64 not_less del: unsigned_of_nat)
  qed
  have g2: "\<not> (of_nat ?C > (- 1 :: u64) div 32)"
    using C(2) by (simp add: w2n unat_div unat_max_u64 C64 batch_consts not_less del: unsigned_of_nat)
  have fault: "wp (if \<not> rt c then Some (Inl CUDEC_ERR_CUDA) else m) Q \<longleftrightarrow> (if rt c then wp m Q else Q (Inl CUDEC_ERR_CUDA))" for c m Q
    by (simp add: wp_Some)
  show ?thesis
  proof (intro exI[of _ slots] conjI, unfold Let_def one'_def[symmetric] ps_def[symmetric])
    show "length slots = ?C" by (rule lsl)
    show "\<forall>x\<in>set slots. length x = unat bmax" using lx by blast
    show "wp (frame_batch rt junk stale entry f blocks bmax (compressed_at blocks 0) total_src (replicate (length blocks) 0)) (\<lambda>res.
       res = (if \<forall>p\<in>set ps. chunk_status (fst p) = CUDEC_OK then Inr (concat (map snd ps), weave blocks (map (\<lambda>p. bytes_written (fst p)) ps))
              else Inl CUDEC_ERR_CORRUPT_INPUT) \<or>
       res = Inl CUDEC_ERR_CUDA \<and> (\<exists>c. \<not> rt c))"
      unfolding frame_batch_def Let_def lc if_not_P[OF g1] g(1) bind.bind_lunit prod.case if_not_P[OF g2] packed sz sl(1) srcs dsts en sc
      by (auto simp: wp_Some len)
  qed
qed

end

section \<open>The layout\<close>

definition entry_len :: "lz4_frame_block \<times> u64 \<Rightarrow> u64" where
  "entry_len x = (if uncompressed (fst x) then src_len (fst x) else snd x)"

lemma total_contract:
  "unat t \<le> unat cap \<Longrightarrow> (case frame_total xs cap t of
     None \<Rightarrow> unat cap < unat t + (\<Sum>x\<leftarrow>xs. unat (entry_len x))
   | Some t' \<Rightarrow> unat t' = unat t + (\<Sum>x\<leftarrow>xs. unat (entry_len x)) \<and> unat t' \<le> unat cap)"
proof (induction xs arbitrary: t)
  case (Cons x xs)
  obtain b l where x: "x = (b, l)" by (cases x)
  have el: "entry_len x = (if uncompressed b then src_len b else l)" by (simp add: x entry_len_def)
  have room: "unat (cap - t) = unat cap - unat t" using Cons.prems by (intro unat_minus)
  show ?case
  proof (cases "entry_len x > cap - t")
    case True
    then have "frame_total (x # xs) cap t = None" unfolding el by (simp add: x Let_def)
    moreover have "unat cap - unat t < unat (entry_len x)" using True room by (simp add: w2n)
    ultimately show ?thesis by simp
  next
    case False
    then have le: "unat t + unat (entry_len x) \<le> unat cap" using room Cons.prems by (simp add: w2n not_less)
    then have u: "unat (t + entry_len x) = unat t + unat (entry_len x)" by (rule unat_plus_le)
    have eq: "frame_total (x # xs) cap t = frame_total xs cap (t + entry_len x)"
      using False unfolding el by (simp add: x Let_def)
    show ?thesis unfolding eq using Cons.IH[of "t + entry_len x"] u le by (auto split: option.splits)
  qed
qed simp

section \<open>The copies, in any order\<close>

text \<open>A copy that puts the right bytes of \<open>E\<close> where it writes.\<close>

definition good_copy :: "u8 list \<Rightarrow> u8 list \<Rightarrow> dev_copy \<Rightarrow> bool" where
  "good_copy E dev c \<longleftrightarrow> unat (copy_out c) + unat (copy_len c) \<le> length E \<and>
     unat (copy_dev c) + unat (copy_len c) \<le> length dev \<and>
     take (unat (copy_len c)) (drop (unat (copy_dev c)) dev) = take (unat (copy_len c)) (drop (unat (copy_out c)) E)"

definition covered :: "dev_copy list \<Rightarrow> nat \<Rightarrow> bool" where
  "covered cs p \<longleftrightarrow> (\<exists>c\<in>set cs. unat (copy_out c) \<le> p \<and> p < unat (copy_out c) + unat (copy_len c))"

lemma splice_part:
  assumes "unat off + n \<le> length E" "length E \<le> length out" "x = take n (drop (unat off) E)"
  shows "\<exists>out'. splice_at out off x = Some out' \<and> length out' = length out \<and>
    (\<forall>p. unat off \<le> p \<and> p < unat off + n \<longrightarrow> out' ! p = E ! p) \<and>
    (\<forall>p. p < length out \<longrightarrow> \<not> (unat off \<le> p \<and> p < unat off + n) \<longrightarrow> out' ! p = out ! p)"
proof -
  have lx: "length x = n" using assms by simp
  let ?o = "take (unat off) out @ x @ drop (unat off + length x) out"
  have s: "splice_at out off x = Some ?o" using assms lx by (simp add: splice_at_def)
  have nth: "?o ! p = (if unat off \<le> p \<and> p < unat off + n then x ! (p - unat off) else out ! p)" if "p < length out" for p
  proof -
    consider "p < unat off" | "unat off \<le> p" "p < unat off + n" "p - unat off < n" | "unat off + n \<le> p" "\<not> p - unat off < n" by linarith
    then show ?thesis using that assms(1,2) lx by cases (simp_all add: nth_append)
  qed
  show ?thesis
  proof (intro exI[of _ ?o] conjI allI impI)
    show "splice_at out off x = Some ?o" by (rule s)
    show "length ?o = length out" using assms(1,2) lx by simp
    show "?o ! p = E ! p" if "unat off \<le> p \<and> p < unat off + n" for p
    proof -
      have j: "p - unat off < n" "unat off + (p - unat off) = p" using that by linarith+
      have "x ! (p - unat off) = E ! p" using j assms(1) by (simp add: assms(3))
      then show ?thesis using nth[of p] that assms(1,2) by simp
    qed
    show "?o ! p = out ! p" if "p < length out" "\<not> (unat off \<le> p \<and> p < unat off + n)" for p
      using nth[OF that(1)] that(2) by auto
  qed
qed

lemma apply_copies_contract:
  assumes "\<forall>c\<in>set cs. good_copy E dev c" "length E \<le> length out"
  shows "\<exists>out'. apply_copies dev cs out = Some out' \<and> length out' = length out \<and>
    (\<forall>p<length E. covered cs p \<or> out ! p = E ! p \<longrightarrow> out' ! p = E ! p) \<and>
    (\<forall>p. length E \<le> p \<and> p < length out \<longrightarrow> out' ! p = out ! p)"
  using assms
proof (induction cs arbitrary: out)
  case Nil
  then show ?case by (simp add: covered_def)
next
  case (Cons c cs)
  let ?n = "unat (copy_len c)"
  have g: "good_copy E dev c" using Cons.prems by simp
  have sl: "slice_at dev (copy_dev c) (copy_len c) = Some (take ?n (drop (unat (copy_out c)) E))"
    using g by (simp add: good_copy_def slice_at_def)
  obtain o1 where o1: "splice_at out (copy_out c) (take ?n (drop (unat (copy_out c)) E)) = Some o1" "length o1 = length out"
      "\<forall>p. unat (copy_out c) \<le> p \<and> p < unat (copy_out c) + ?n \<longrightarrow> o1 ! p = E ! p"
      "\<forall>p. p < length out \<longrightarrow> \<not> (unat (copy_out c) \<le> p \<and> p < unat (copy_out c) + ?n) \<longrightarrow> o1 ! p = out ! p"
    using splice_part[OF _ Cons.prems(2) refl, of "copy_out c" ?n] g by (auto simp: good_copy_def)
  obtain out' where r: "apply_copies dev cs o1 = Some out'" "length out' = length o1"
      "\<forall>p<length E. covered cs p \<or> o1 ! p = E ! p \<longrightarrow> out' ! p = E ! p"
      "\<forall>p. length E \<le> p \<and> p < length o1 \<longrightarrow> out' ! p = o1 ! p"
    using Cons.IH[of o1] Cons.prems o1(2) by auto
  have inside: "unat (copy_out c) + ?n \<le> length E" using g by (simp add: good_copy_def)
  show ?case
  proof (intro exI[of _ out'] conjI allI impI)
    show "apply_copies dev (c # cs) out = Some out'" using sl o1(1) r(1) by simp
    show "length out' = length out" using r(2) o1(2) by simp
    show "out' ! p = E ! p" if p: "p < length E" "covered (c # cs) p \<or> out ! p = E ! p" for p
    proof -
      have "covered cs p \<or> o1 ! p = E ! p"
      proof (cases "unat (copy_out c) \<le> p \<and> p < unat (copy_out c) + ?n")
        case True
        then show ?thesis using o1(3) by simp
      next
        case False
        then have "covered cs p \<or> out ! p = E ! p" using p(2) by (auto simp: covered_def)
        moreover have "o1 ! p = out ! p" using False o1(4) p(1) Cons.prems(2) by simp
        ultimately show ?thesis by simp
      qed
      then show ?thesis using r(3) p(1) by blast
    qed
    show "out' ! p = out ! p" if "length E \<le> p \<and> p < length out" for p
      using r(4) o1(2,4) inside that by auto
  qed
qed

section \<open>The loop over the blocks\<close>

text \<open>What each block contributes: its own bytes, or the front of its device slot.\<close>

fun block_parts :: "u8 list \<Rightarrow> u8 list list \<Rightarrow> nat \<Rightarrow> (lz4_frame_block \<times> u64) list \<Rightarrow> u8 list list \<Rightarrow> bool" where
  "block_parts f slots k [] os \<longleftrightarrow> os = []"
| "block_parts f slots k ((b, l) # xs) os \<longleftrightarrow> (case os of [] \<Rightarrow> False | x # os \<Rightarrow>
     if uncompressed b then block_inside f b \<and> x = block_src f b \<and> block_parts f slots k xs os
     else k < length slots \<and> unat l \<le> length (slots ! k) \<and> x = take (unat l) (slots ! k) \<and> block_parts f slots (k + 1) xs os)"

definition asm_inv :: "u8 list \<Rightarrow> u8 list \<Rightarrow> u8 list \<Rightarrow> nat \<Rightarrow> frame_asm \<Rightarrow> bool" where
  "asm_inv E dev out0 off a \<longleftrightarrow> length (asm_out a) = length out0 \<and> length E \<le> length out0 \<and>
     (\<forall>c\<in>set (issued a @ [run a]). good_copy E dev c) \<and>
     (\<forall>p<off. covered (issued a @ [run a]) p \<or> asm_out a ! p = E ! p) \<and>
     (\<forall>p. length E \<le> p \<and> p < length out0 \<longrightarrow> asm_out a ! p = out0 ! p)"

lemma drop_slots: "\<forall>x\<in>set slots. length x = m \<Longrightarrow> k \<le> length slots \<Longrightarrow> drop (k * m) (concat slots) = concat (drop k slots)"
proof (induction slots arbitrary: k)
  case (Cons x slots)
  then show ?case by (cases k) (simp_all add: add.commute)
qed simp

lemma length_slots: "\<forall>x\<in>set slots. length x = m \<Longrightarrow> length (concat slots) = length slots * m"
  by (induction slots) simp_all

lemma take_drop_extend:
  "take m (drop p xs) = take m (drop q ys) \<Longrightarrow> take n (drop (p + m) xs) = take n (drop (q + m) ys) \<Longrightarrow>
   take (m + n) (drop p xs) = take (m + n) (drop q ys)"
  by (simp add: take_add add.commute)

lemma place_contract:
  assumes slots: "\<forall>x\<in>set slots. length x = unat bmax" "length slots * unat bmax < 2 ^ 64" "length slots < 2 ^ 64"
    and E: "length E < 2 ^ 64"
    and parts: "block_parts f slots k xs os" "E = pre @ concat os" "unat (asm_off a) = length pre" "unat (asm_k a) = k"
    and inv: "asm_inv E (concat slots) out0 (length pre) a"
  shows "wp (frame_place rt f bmax xs i a) (\<lambda>(good, a').
    asm_inv E (concat slots) out0 (if good then length E else 0) a' \<and> (\<not> good \<longrightarrow> (\<exists>c. \<not> rt c)))"
  using parts inv
proof (induction xs arbitrary: k os pre a i)
  case Nil
  then show ?case by (simp add: wp_Some)
next
  case (Cons x xs)
  obtain b l where x: "x = (b, l)" by (cases x)
  obtain y ys where os: "os = y # ys" using Cons.prems(1) x by (cases os) auto
  have Ey: "E = (pre @ y) @ concat ys" using Cons.prems(2) os by simp
  have inside: "length pre + length y \<le> length E" "take (length y) (drop (length pre) E) = y" using Ey by simp_all
  show ?case
  proof (cases "uncompressed b")
    case True
    then have b: "block_inside f b" "y = block_src f b" "block_parts f slots k xs ys" using Cons.prems(1) by (simp_all add: x os)
    have ly: "length y = unat (src_len b)" using b by (simp add: length_block_src)
    obtain o1 where o1: "splice_at (asm_out a) (asm_off a) y = Some o1" "length o1 = length (asm_out a)"
      "\<forall>p. unat (asm_off a) \<le> p \<and> p < unat (asm_off a) + length y \<longrightarrow> o1 ! p = E ! p"
      "\<forall>p. p < length (asm_out a) \<longrightarrow> \<not> (unat (asm_off a) \<le> p \<and> p < unat (asm_off a) + length y) \<longrightarrow> o1 ! p = asm_out a ! p"
      using splice_part[of "asm_off a" "length y" E "asm_out a" y] inside Cons.prems(3,5) by (auto simp: asm_inv_def)
    define a1 where "a1 = a\<lparr>asm_out := o1, asm_off := asm_off a + src_len b\<rparr>"
    have step: "frame_place rt f bmax (x # xs) i a = frame_place rt f bmax xs (i + 1) a1"
    proof (cases "src_len b = 0")
      case True
      then have "y = []" using ly by simp
      then have "o1 = asm_out a" using o1(1) by (auto simp: splice_at_def split: if_splits)
      then show ?thesis using True \<open>uncompressed b\<close> by (simp add: x a1_def)
    next
      case False
      then show ?thesis using \<open>uncompressed b\<close> o1(1) slice_block[OF b(1)] b(2) by (simp add: x a1_def)
    qed
    have u: "unat (asm_off a1) = length (pre @ y)"
      using Cons.prems(3) inside E ly by (simp add: a1_def) (subst unat_plus; simp)
    have iv: "asm_inv E (concat slots) out0 (length (pre @ y)) a1"
    proof -
      have "covered (issued a @ [run a]) p \<or> o1 ! p = E ! p" if "p < length pre + length y" for p
        using that Cons.prems(3,5) o1 inside by (cases "unat (asm_off a) \<le> p") (auto simp: asm_inv_def)
      moreover have "o1 ! p = out0 ! p" if "length E \<le> p \<and> p < length out0" for p
        using that Cons.prems(3,5) o1 inside by (auto simp: asm_inv_def)
      ultimately show ?thesis using Cons.prems(5) o1(2) by (simp add: asm_inv_def a1_def)
    qed
    show ?thesis unfolding step
      by (rule Cons.IH[OF b(3) Ey u _ iv]) (use Cons.prems(4) in \<open>simp add: a1_def\<close>)
  next
    case False
    then have b: "k < length slots" "unat l \<le> length (slots ! k)" "y = take (unat l) (slots ! k)" "block_parts f slots (k + 1) xs ys"
      using Cons.prems(1) by (simp_all add: x os)
    have lk: "length (slots ! k) = unat bmax" using slots(1) b(1) by simp
    have ly: "length y = unat l" using b by simp
    have ud: "unat (asm_k a * bmax) = k * unat bmax" by (rule unat_slot[OF b(1) slots(2) Cons.prems(4)])
    have k1: "unat (asm_k a + 1) = k + 1"
      using Cons.prems(4) b(1) slots(3) by (subst unat_plus) simp_all
    have dv: "take (unat l) (drop (k * unat bmax) (concat slots)) = y" "k * unat bmax + unat l \<le> length (concat slots)"
    proof -
      have "drop (k * unat bmax) (concat slots) = concat (drop k slots)" using drop_slots[OF slots(1)] b(1) by simp
      also have "\<dots> = slots ! k @ concat (drop (Suc k) slots)" using b(1) by (simp flip: Cons_nth_drop_Suc)
      finally show "take (unat l) (drop (k * unat bmax) (concat slots)) = y" using b(2,3) by simp
      have "(k + 1) * unat bmax \<le> length slots * unat bmax" using b(1) by (intro mult_right_mono) simp_all
      then show "k * unat bmax + unat l \<le> length (concat slots)" using b(2) lk by (simp add: length_slots[OF slots(1)])
    qed
    have uo: "unat (asm_off a + l) = length (pre @ y)"
      using Cons.prems(3) inside(1) E ly by (subst unat_plus) simp_all
    let ?r = "run a"
    have gr: "good_copy E (concat slots) ?r" using Cons.prems(5) by (simp add: asm_inv_def)
    show ?thesis
    proof (cases "copy_len ?r \<noteq> 0 \<and> copy_dev ?r + copy_len ?r = asm_k a * bmax \<and> copy_out ?r + copy_len ?r = asm_off a")
      case merge: True
      define a1 where "a1 = a\<lparr>run := ?r\<lparr>copy_len := copy_len ?r + l\<rparr>, asm_off := asm_off a + l, asm_k := asm_k a + 1\<rparr>"
      have step: "frame_place rt f bmax (x # xs) i a = frame_place rt f bmax xs (i + 1) a1"
        using merge False by (simp add: x a1_def Let_def)
      have lE: "length (concat slots) < 2 ^ 64" using slots(2) length_slots[OF slots(1)] by simp
      have s1: "unat (copy_dev ?r) + unat (copy_len ?r) = k * unat bmax"
        using gr merge ud lE unat_plus[of "copy_dev ?r" "copy_len ?r"] by (simp add: good_copy_def)
      have s2: "unat (copy_out ?r) + unat (copy_len ?r) = length pre"
        using gr merge Cons.prems(3) E unat_plus[of "copy_out ?r" "copy_len ?r"] by (simp add: good_copy_def)
      have s3: "unat (copy_len ?r + l) = unat (copy_len ?r) + unat l"
        using s2 inside(1) ly E by (intro unat_plus) simp
      have g1: "good_copy E (concat slots) (run a1)"
        using gr s1 s2 s3 dv inside ly take_drop_extend[of "unat (copy_len ?r)" "unat (copy_dev ?r)" "concat slots" "unat (copy_out ?r)" E "unat l"]
        by (simp add: good_copy_def a1_def)
      have iv: "asm_inv E (concat slots) out0 (length (pre @ y)) a1"
      proof -
        have "covered (issued a @ [run a1]) p \<or> asm_out a ! p = E ! p" if "p < length pre + length y" for p
        proof (cases "p < length pre")
          case True
          then have "covered (issued a @ [run a]) p \<or> asm_out a ! p = E ! p" using Cons.prems(5) by (simp add: asm_inv_def)
          then show ?thesis using s3 by (auto simp: covered_def a1_def)
        next
          case False
          then show ?thesis using that s2 s3 ly by (auto simp: covered_def a1_def)
        qed
        then show ?thesis using Cons.prems(5) g1 by (simp add: asm_inv_def a1_def)
      qed
      show ?thesis unfolding step
        by (rule Cons.IH[OF b(4) Ey _ _ iv]) (use uo k1 in \<open>simp_all add: a1_def\<close>)
    next
      case fresh: False
      show ?thesis
      proof (cases "copy_len ?r \<noteq> 0 \<and> \<not> rt (Asm_copy i)")
        case True
        have "frame_place rt f bmax (x # xs) i a = Some (False, a)" using True fresh False by (auto simp: x Let_def)
        then show ?thesis using True Cons.prems(5) by (auto simp: wp_Some asm_inv_def)
      next
        case go: False
        define a1 where "a1 = a\<lparr>issued := (if copy_len ?r \<noteq> 0 then issued a @ [?r] else issued a),
                  run := \<lparr>copy_out = asm_off a, copy_dev = asm_k a * bmax, copy_len = l\<rparr>, asm_off := asm_off a + l, asm_k := asm_k a + 1\<rparr>"
        have step: "frame_place rt f bmax (x # xs) i a = frame_place rt f bmax xs (i + 1) a1"
          using go fresh False by (auto simp: x a1_def Let_def)
        have g1: "good_copy E (concat slots) (run a1)"
          using dv inside ly ud Cons.prems(3) by (simp add: good_copy_def a1_def)
        have iv: "asm_inv E (concat slots) out0 (length (pre @ y)) a1"
        proof -
          have "covered (issued a1 @ [run a1]) p \<or> asm_out a ! p = E ! p" if "p < length pre + length y" for p
          proof (cases "p < length pre")
            case True
            then have "covered (issued a @ [run a]) p \<or> asm_out a ! p = E ! p" using Cons.prems(5) by (simp add: asm_inv_def)
            then show ?thesis by (auto simp: covered_def a1_def)
          next
            case False
            then show ?thesis using that Cons.prems(3) ly by (auto simp: covered_def a1_def)
          qed
          moreover have "good_copy E (concat slots) c" if "c \<in> set (issued a1)" for c
            using that Cons.prems(5) by (auto simp: asm_inv_def a1_def split: if_splits)
          ultimately show ?thesis using Cons.prems(5) g1 by (auto simp: asm_inv_def a1_def)
        qed
        show ?thesis unfolding step
          by (rule Cons.IH[OF b(4) Ey _ _ iv]) (use uo k1 in \<open>simp_all add: a1_def\<close>)
      qed
    qed
  qed
qed

section \<open>The content\<close>

fun parts :: "u8 list \<Rightarrow> lz4_frame_block list \<Rightarrow> (chunk_result \<times> u8 list) list \<Rightarrow> u8 list list" where
  "parts f [] ps = []"
| "parts f (b # bs) ps = (if uncompressed b then block_src f b # parts f bs ps
     else take (unat (bytes_written (fst (hd ps)))) (snd (hd ps)) # parts f bs (List.tl ps))"

abbreviation written :: "chunk_result \<times> u8 list \<Rightarrow> u64" where
  "written p \<equiv> bytes_written (fst p)"

lemma parts_fit:
  assumes "\<forall>b\<in>set bs. block_inside f b" "length ps = length (compressed bs)"
    "\<forall>p\<in>set ps. unat (written p) \<le> length (snd p)"
  shows "block_parts f (map snd (pre @ ps)) (length pre) (zip bs (weave bs (map written ps))) (parts f bs ps)"
    "(\<Sum>x\<leftarrow>zip bs (weave bs (map written ps)). unat (entry_len x)) = length (concat (parts f bs ps))"
  using assms
proof (induction bs arbitrary: ps pre)
  case (Cons b bs)
  { case 1
    show ?case
    proof (cases "uncompressed b")
      case True
      then show ?thesis using Cons.IH(1)[of ps pre] 1 by simp
    next
      case False
      then obtain p ps' where ps: "ps = p # ps'" using 1(2) by (cases ps) auto
      show ?thesis using Cons.IH(1)[of ps' "pre @ [p]"] 1 False by (simp add: ps nth_append)
    qed
  next
    case 2
    show ?case
    proof (cases "uncompressed b")
      case True
      then show ?thesis using Cons.IH(2)[of ps] 2 by (simp add: entry_len_def length_block_src)
    next
      case False
      then obtain p ps' where ps: "ps = p # ps'" using 2(2) by (cases ps) auto
      show ?thesis using Cons.IH(2)[of ps'] 2 False by (simp add: ps entry_len_def min_def)
    qed
  }
qed simp_all

definition block_yields :: "(u8 list \<Rightarrow> u64 \<Rightarrow> u64 \<Rightarrow> u8 list \<Rightarrow> chunk_result \<times> u8 list) \<Rightarrow> u8 list \<Rightarrow> u64 \<Rightarrow> lz4_frame_block \<Rightarrow> u8 list \<Rightarrow> bool" where
  "block_yields one f bmax b out \<longleftrightarrow> (if uncompressed b then out = block_src f b
     else \<exists>x. length x = unat bmax \<and> chunk_status (fst (one (block_src f b) (src_len b) bmax x)) = CUDEC_OK \<and>
       out = take (unat (written (one (block_src f b) (src_len b) bmax x))) (snd (one (block_src f b) (src_len b) bmax x)))"

lemma parts_yield:
  assumes "length slots = length (compressed bs)" "\<forall>x\<in>set slots. length x = unat bmax"
    and "\<forall>p\<in>set (map (\<lambda>(b, x). one (block_src f b) (src_len b) bmax x) (zip (compressed bs) slots)). chunk_status (fst p) = CUDEC_OK"
  shows "list_all2 (block_yields one f bmax) bs (parts f bs (map (\<lambda>(b, x). one (block_src f b) (src_len b) bmax x) (zip (compressed bs) slots)))"
  using assms
proof (induction bs arbitrary: slots)
  case (Cons b bs)
  show ?case
  proof (cases "uncompressed b")
    case True
    then show ?thesis using Cons.IH[of slots] Cons.prems by (simp add: block_yields_def)
  next
    case False
    then obtain x slots' where sl: "slots = x # slots'" using Cons.prems(1) by (cases slots) auto
    have "block_yields one f bmax b (take (unat (written (one (block_src f b) (src_len b) bmax x))) (snd (one (block_src f b) (src_len b) bmax x)))"
      using Cons.prems False by (auto simp: block_yields_def sl)
    then show ?thesis using Cons.IH[of slots'] Cons.prems False by (simp add: sl)
  qed
qed simp

context batch_entry begin

lemma yields_fun:
  assumes "block_inside f b" "block_yields one f bmax b out" "block_yields one f bmax b out'"
  shows "out' = out"
proof (cases "uncompressed b")
  case False
  have a: "chunk_args (block_src f b) (src_len b) bmax x" if "length x = unat bmax" for x
    using that length_block_src[OF assms(1)] by (simp add: chunk_args_def)
  obtain x where x: "length x = unat bmax" "out = take (unat (written (one (block_src f b) (src_len b) bmax x))) (snd (one (block_src f b) (src_len b) bmax x))"
    using assms(2) False by (auto simp: block_yields_def)
  obtain y where y: "length y = unat bmax" "out' = take (unat (written (one (block_src f b) (src_len b) bmax y))) (snd (one (block_src f b) (src_len b) bmax y))"
    using assms(3) False by (auto simp: block_yields_def)
  show ?thesis using one_stable[OF a[OF x(1)] a[OF y(1)]] x(2) y(2) by simp
qed (use assms in \<open>simp add: block_yields_def\<close>)

lemma yields_all:
  assumes "\<forall>b\<in>set bs. block_inside f b" "length slots = length (compressed bs)" "\<forall>x\<in>set slots. length x = unat bmax"
    and "list_all2 (block_yields one f bmax) bs outs"
  shows "\<forall>p\<in>set (map (\<lambda>(b, x). one (block_src f b) (src_len b) bmax x) (zip (compressed bs) slots)). chunk_status (fst p) = CUDEC_OK"
  using assms
proof (induction bs arbitrary: slots outs)
  case (Cons b bs)
  then obtain o1 os where outs: "outs = o1 # os" "block_yields one f bmax b o1" "list_all2 (block_yields one f bmax) bs os"
    by (auto simp: list_all2_Cons1)
  show ?case
  proof (cases "uncompressed b")
    case True
    then show ?thesis using Cons.IH[of slots os] Cons.prems outs by simp
  next
    case False
    then obtain x slots' where sl: "slots = x # slots'" using Cons.prems(2) by (cases slots) auto
    have a: "chunk_args (block_src f b) (src_len b) bmax x" if "length x = unat bmax" for x
      using that length_block_src[of f b] Cons.prems(1) by (simp add: chunk_args_def)
    obtain y where y: "length y = unat bmax" "chunk_status (fst (one (block_src f b) (src_len b) bmax y)) = CUDEC_OK"
      using outs(2) False by (auto simp: block_yields_def)
    have "chunk_status (fst (one (block_src f b) (src_len b) bmax x)) = CUDEC_OK"
      using one_stable[OF a[OF y(1)] a[of x]] y(2) Cons.prems(3) by (simp add: sl)
    then show ?thesis using Cons.IH[of slots' os] Cons.prems outs False by (simp add: sl)
  qed
qed simp

lemma frame_assemble_contract:
  assumes slots: "\<forall>x\<in>set slots. length x = unat bmax" "length slots * unat bmax < 2 ^ 64" "length slots < 2 ^ 64"
    and drain: "\<forall>cs. set (drain cs) = set cs"
    and bp: "block_parts f slots 0 xs os" and fits: "unat tot = length (concat os)" "length (concat os) \<le> unat cap" "unat cap \<le> length out"
  shows "wp (frame_assemble rt drain f (concat slots) sc bmax xs out tot) (\<lambda>(st, out', t).
    length out' = length out \<and> drop (unat cap) out' = drop (unat cap) out \<and>
    (st = CUDEC_OK \<longrightarrow> t = tot \<and> take (unat tot) out' = concat os) \<and>
    (st \<noteq> CUDEC_OK \<longrightarrow> st = CUDEC_ERR_CUDA \<and> (\<exists>c. \<not> rt c)))"
proof -
  let ?E = "concat os" and ?dev = "concat slots"
  let ?a0 = "\<lparr>asm_out = out, asm_off = 0, asm_k = 0, run = \<lparr>copy_out = 0, copy_dev = 0, copy_len = 0\<rparr>, issued = []\<rparr>"
  have E64: "length ?E < 2 ^ 64" using fits(1) unat_u64_less[of tot] by simp
  have i0: "asm_inv ?E ?dev out (length ([] :: u8 list)) ?a0" using fits by (simp add: asm_inv_def good_copy_def)
  have fin: "\<exists>out'. apply_copies ?dev (drain cs) o0 = Some out' \<and> length out' = length out \<and> drop (unat cap) out' = drop (unat cap) out \<and>
      ((\<forall>p<length ?E. covered cs p \<or> o0 ! p = ?E ! p) \<longrightarrow> take (unat tot) out' = ?E)"
    if o0: "length o0 = length out" "\<forall>c\<in>set cs. good_copy ?E ?dev c" "\<forall>p. length ?E \<le> p \<and> p < length out \<longrightarrow> o0 ! p = out ! p" for cs o0
  proof -
    have cv: "covered (drain cs) p = covered cs p" for p using drain by (simp add: covered_def)
    obtain out' where r: "apply_copies ?dev (drain cs) o0 = Some out'" "length out' = length o0"
      "\<forall>p<length ?E. covered (drain cs) p \<or> o0 ! p = ?E ! p \<longrightarrow> out' ! p = ?E ! p"
      "\<forall>p. length ?E \<le> p \<and> p < length o0 \<longrightarrow> out' ! p = o0 ! p"
      using apply_copies_contract[of "drain cs" ?E ?dev o0] drain o0(1,2) fits by auto
    have "drop (unat cap) out' = drop (unat cap) out"
      using r(2,4) o0(1,3) fits by (intro nth_equalityI) auto
    moreover have "take (unat tot) out' = ?E" if "\<forall>p<length ?E. covered cs p \<or> o0 ! p = ?E ! p"
      using that r(2,3) cv fits \<open>length o0 = length out\<close> by (intro nth_equalityI) auto
    ultimately show ?thesis using r(1,2) o0(1) by auto
  qed
  show ?thesis
  proof (cases "sc \<and> \<not> rt Asm_create")
    case True
    then show ?thesis by (auto simp: frame_assemble_def wp_Some)
  next
    case False
    show ?thesis unfolding frame_assemble_def if_not_P[OF False]
    proof (rule wp_bind2[OF place_contract[OF slots E64 bp _ _ _ i0]], goal_cases)
      case (4 good a)
      then have inv: "length (asm_out a) = length out" "\<forall>c\<in>set (issued a). good_copy ?E ?dev c" "good_copy ?E ?dev (run a)"
        "\<forall>p. length ?E \<le> p \<and> p < length out \<longrightarrow> asm_out a ! p = out ! p"
        "good \<Longrightarrow> \<forall>p<length ?E. covered (issued a @ [run a]) p \<or> asm_out a ! p = ?E ! p" "\<not> good \<Longrightarrow> \<exists>c. \<not> rt c"
        by (auto simp: asm_inv_def)
      obtain o1 where o1: "apply_copies ?dev (drain (issued a)) (asm_out a) = Some o1" "length o1 = length out" "drop (unat cap) o1 = drop (unat cap) out"
        using fin[OF inv(1,2,4)] by blast
      let ?cs = "if copy_len (run a) \<noteq> 0 then issued a @ [run a] else issued a"
      have cs: "\<forall>c\<in>set ?cs. good_copy ?E ?dev c" using inv(2,3) by simp
      obtain o2 where o2: "apply_copies ?dev (drain ?cs) (asm_out a) = Some o2" "length o2 = length out" "drop (unat cap) o2 = drop (unat cap) out"
          "(\<forall>p<length ?E. covered ?cs p \<or> asm_out a ! p = ?E ! p) \<longrightarrow> take (unat tot) o2 = ?E"
        using fin[OF inv(1) cs inv(4)] by blast
      have cov: "covered (issued a @ [run a]) p = covered ?cs p" for p by (auto simp: covered_def)
      have tk: "good \<Longrightarrow> take (unat tot) o2 = ?E" using o2(4) inv(5) cov by simp
      show ?case
      proof (cases "good \<and> (copy_len (run a) = 0 \<or> rt Asm_last)")
        case False
        then have ex: "\<exists>c. \<not> rt c" using inv(6) by blast
        have "(if \<not> good then do { out \<leftarrow> apply_copies ?dev (drain (issued a)) (asm_out a); Some (CUDEC_ERR_CUDA, out, 0) }
          else if copy_len (run a) \<noteq> 0 \<and> \<not> rt Asm_last
          then do { out \<leftarrow> apply_copies ?dev (drain (issued a)) (asm_out a); Some (CUDEC_ERR_CUDA, out, 0) }
          else m) = Some (CUDEC_ERR_CUDA, o1, 0 :: u64)" for m using False o1(1) by auto
        then show ?thesis using o1 ex by (simp add: wp_Some)
      next
        case True
        show ?thesis unfolding Let_def using True o2 tk
          by (cases "sc \<and> \<not> rt Asm_drain") (auto simp: wp_Some split del: if_split)
      qed
    qed simp_all
  qed
qed

end

section \<open>The frame\<close>

lemma weave_none: "compressed bs = [] \<Longrightarrow> weave bs ls = replicate (length bs) 0"
  by (induction bs) (auto split: if_splits)

definition frame_yields :: "(u8 list \<Rightarrow> u64 \<Rightarrow> u64 \<Rightarrow> u8 list \<Rightarrow> chunk_result \<times> u8 list) \<Rightarrow> u8 list \<Rightarrow> nat \<Rightarrow> u8 list \<Rightarrow> bool" where
  "frame_yields one f n out \<longleftrightarrow> (\<exists>desc bs e outs.
     lz4_parse_frame_descriptor f (of_nat n) blank_descriptor = Some (CUDEC_OK, desc) \<and>
     tiles f n desc (unat (body_off desc)) bs e \<and> list_all2 (block_yields one f (block_max desc)) bs outs \<and> out = concat outs \<and>
     (content_size desc \<longrightarrow> unat (declared_content_size desc) = length out) \<and>
     (content_checksum desc \<longrightarrow> e + 4 \<le> n \<and> xxh32_ref out = le32 (drop e f)))"

lemma tiles_fun: "tiles f n desc pos bs e \<Longrightarrow> tiles f n desc pos bs' e' \<Longrightarrow> bs' = bs \<and> e' = e"
proof (induction bs arbitrary: bs' pos)
  case Nil
  then show ?case by (cases bs') (auto simp: Let_def)
next
  case (Cons b bs)
  have h: "le32 (drop pos f) \<noteq> 0" using Cons.prems(1) by (auto simp: Let_def)
  obtain b' bs2 where bs': "bs' = b' # bs2" using Cons.prems(2) h by (cases bs') auto
  have "b' = b" using Cons.prems unfolding bs' by (cases b; cases b') (auto simp: Let_def word_unat_eq_iff)
  moreover have "bs2 = bs \<and> e' = e"
    using Cons.prems unfolding bs' \<open>b' = b\<close> by (intro Cons.IH) (auto simp: Let_def)
  ultimately show ?case by (simp add: bs')
qed

context batch_entry begin

lemma decode_and_assemble_contract:
  assumes acc: "accepts" and ins: "\<forall>b\<in>set blocks. block_inside f b"
    and C: "length (compressed blocks) \<le> unat kMaxBatchChunks"
    and fit: "length (compressed blocks) * unat bmax < 2 ^ 64" "0 < unat bmax" "total_len blocks < 2 ^ 64"
    and drain: "\<forall>cs. set (drain cs) = set cs" and cap: "unat cap \<le> length out"
  shows "wp (decode_and_assemble rt drain junk stale entry f blocks bmax out cap) (\<lambda>(st, out', t).
    length out' = length out \<and> drop (unat cap) out' = drop (unat cap) out \<and>
    (st = CUDEC_OK \<longrightarrow> (\<exists>os. list_all2 (block_yields one f bmax) blocks os \<and> unat t = length (concat os) \<and> unat t \<le> unat cap \<and>
       take (unat t) out' = concat os)) \<and>
    (st \<noteq> CUDEC_OK \<longrightarrow> out' = out \<and> (\<forall>os. list_all2 (block_yields one f bmax) blocks os \<longrightarrow> unat cap < length (concat os)) \<or>
       st = CUDEC_ERR_CUDA \<and> (\<exists>c. \<not> rt c)))"
proof -
  obtain t' where col: "frame_collect blocks 0 [] 0 = (compressed_at blocks 0, t')" "unat t' = total_len (compressed blocks)"
    using collect_eq[of 0 blocks 0 "[]"] fit(3) total_compressed[of blocks] by auto
  have lc: "length (compressed_at blocks 0) = length (compressed blocks)" by (simp add: length_compressed)
  have place: "wp (case frame_total (zip blocks dl) cap 0 of None \<Rightarrow> Some (CUDEC_ERR_OUTPUT_TOO_SMALL, out, 0)
      | Some t \<Rightarrow> frame_assemble rt drain f (concat slots) sc bmax (zip blocks dl) out t) (\<lambda>(st, out', t).
    length out' = length out \<and> drop (unat cap) out' = drop (unat cap) out \<and>
    (st = CUDEC_OK \<longrightarrow> (\<exists>os. list_all2 (block_yields one f bmax) blocks os \<and> unat t = length (concat os) \<and> unat t \<le> unat cap \<and>
       take (unat t) out' = concat os)) \<and>
    (st \<noteq> CUDEC_OK \<longrightarrow> out' = out \<and> (\<forall>os. list_all2 (block_yields one f bmax) blocks os \<longrightarrow> unat cap < length (concat os)) \<or>
       st = CUDEC_ERR_CUDA \<and> (\<exists>c. \<not> rt c)))"
    if sl: "\<forall>x\<in>set slots. length x = unat bmax" "length slots = length (compressed blocks)"
      and bp: "block_parts f slots 0 (zip blocks dl) os" "(\<Sum>x\<leftarrow>zip blocks dl. unat (entry_len x)) = length (concat os)"
      and y: "list_all2 (block_yields one f bmax) blocks os" for slots dl sc os
  proof -
    have uni: "os' = os" if "list_all2 (block_yields one f bmax) blocks os'" for os'
    proof (rule nth_equalityI)
      show "length os' = length os" using that y by (simp add: list_all2_conv_all_nth)
      fix i assume "i < length os'"
      then have i: "i < length blocks" using that by (simp add: list_all2_conv_all_nth)
      then have "block_yields one f bmax (blocks ! i) (os ! i)" "block_yields one f bmax (blocks ! i) (os' ! i)"
        using that y by (simp_all add: list_all2_conv_all_nth)
      moreover have "block_inside f (blocks ! i)" using ins nth_mem[OF i] by blast
      ultimately show "os' ! i = os ! i" using yields_fun by blast
    qed
    show ?thesis
    proof (cases "frame_total (zip blocks dl) cap 0")
      case None
      then have "unat cap < length (concat os)" using total_contract[of 0 cap "zip blocks dl"] bp(2) by simp
      then show ?thesis using None uni by (auto simp: wp_Some)
    next
      case (Some t)
      then have t: "unat t = length (concat os)" "unat t \<le> unat cap" using total_contract[of 0 cap "zip blocks dl"] bp(2) by simp_all
      have "length slots < 2 ^ 64" using C sl(2) by (simp add: batch_consts)
      then show ?thesis using Some y t
        by (simp, intro wp_mono[OF frame_assemble_contract[OF sl(1) _ _ drain bp(1), where tot = t and cap = cap and out = out]])
          (use fit(1) sl(2) cap in auto)
    qed
  qed
  show ?thesis
  proof (cases "compressed blocks = []")
    case True
    then have e: "compressed_at blocks 0 = []" using lc by simp
    have bp: "block_parts f [] 0 (zip blocks (replicate (length blocks) 0)) (parts f blocks [])"
      "(\<Sum>x\<leftarrow>zip blocks (replicate (length blocks) 0). unat (entry_len x)) = length (concat (parts f blocks []))"
      using parts_fit(1)[OF ins, of "[]" "[]"] parts_fit(2)[OF ins, of "[]"] True weave_none[OF True] by simp_all
    have y: "list_all2 (block_yields one f bmax) blocks (parts f blocks [])"
      using parts_yield[of "[]" blocks bmax one f] True by simp
    have nf: "([] :: nat list) \<noteq> [] \<longleftrightarrow> False" by simp
    from place[OF _ _ bp y, of False, unfolded concat.simps] show ?thesis
      unfolding decode_and_assemble_def col(1) e Let_def prod.case nf by (simp add: True)
  next
    case False
    then have C0: "0 < length (compressed blocks)" by simp
    then have ne: "compressed_at blocks 0 \<noteq> []" using lc by auto
    obtain slots where sl: "length slots = length (compressed blocks)" "\<forall>x\<in>set slots. length x = unat bmax"
      and fb: "let ps = map (\<lambda>(b, x). one (block_src f b) (src_len b) bmax x) (zip (compressed blocks) slots) in
       wp (frame_batch rt junk stale entry f blocks bmax (compressed_at blocks 0) t' (replicate (length blocks) 0)) (\<lambda>res.
       res = (if \<forall>p\<in>set ps. chunk_status (fst p) = CUDEC_OK then Inr (concat (map snd ps), weave blocks (map (\<lambda>p. bytes_written (fst p)) ps))
              else Inl CUDEC_ERR_CORRUPT_INPUT) \<or>
       res = Inl CUDEC_ERR_CUDA \<and> (\<exists>c. \<not> rt c))"
      using frame_batch_contract[OF acc ins C0 C fit(1,2) col(2)] by blast
    define ps where "ps = map (\<lambda>(b, x). one (block_src f b) (src_len b) bmax x) (zip (compressed blocks) slots)"
    have lps: "length ps = length (compressed blocks)" using sl(1) by (simp add: ps_def)
    have pb: "length (snd p) = unat bmax \<and> unat (written p) \<le> unat bmax" if pin: "p \<in> set ps" for p
    proof -
      obtain b x where z: "(b, x) \<in> set (zip (compressed blocks) slots)" "p = one (block_src f b) (src_len b) bmax x"
        using pin by (auto simp: ps_def)
      then have bx: "b \<in> set (compressed blocks)" "x \<in> set slots" by (auto dest: set_zip_leftD set_zip_rightD)
      then have "chunk_args (block_src f b) (src_len b) bmax x" using sl(2) ins by (simp add: chunk_args_def length_block_src compressed_def)
      then show ?thesis using one_bounds sl(2) bx(2) z(2) by (simp add: w2n)
    qed
    have unfold: "decode_and_assemble rt drain junk stale entry f blocks bmax out cap = do {
       batch \<leftarrow> frame_batch rt junk stale entry f blocks bmax (compressed_at blocks 0) t' (replicate (length blocks) 0);
       case batch of Inl e \<Rightarrow> Some (e, out, 0)
       | Inr (d_dst, dl) \<Rightarrow> (case frame_total (zip blocks dl) cap 0 of None \<Rightarrow> Some (CUDEC_ERR_OUTPUT_TOO_SMALL, out, 0)
            | Some t \<Rightarrow> frame_assemble rt drain f d_dst True bmax (zip blocks dl) out t) }"
    proof -
      have nt: "compressed_at blocks 0 \<noteq> [] \<longleftrightarrow> True" using ne by simp
      show ?thesis unfolding decode_and_assemble_def col(1) Let_def prod.case nt if_True by simp
    qed
    show ?thesis unfolding unfold
    proof (rule wp_bindI[OF fb[unfolded Let_def ps_def[symmetric]]], elim disjE conjE exE)
      fix res :: "cudec_status + (u8 list \<times> u64 list)" and c assume "res = Inl CUDEC_ERR_CUDA" "\<not> rt c"
      then show "wp (case res of Inl e \<Rightarrow> Some (e, out, 0)
         | Inr (d_dst, dl) \<Rightarrow> (case frame_total (zip blocks dl) cap 0 of None \<Rightarrow> Some (CUDEC_ERR_OUTPUT_TOO_SMALL, out, 0)
            | Some t \<Rightarrow> frame_assemble rt drain f d_dst True bmax (zip blocks dl) out t)) (\<lambda>(st, out', t).
        length out' = length out \<and> drop (unat cap) out' = drop (unat cap) out \<and>
        (st = CUDEC_OK \<longrightarrow> (\<exists>os. list_all2 (block_yields one f bmax) blocks os \<and> unat t = length (concat os) \<and> unat t \<le> unat cap \<and>
           take (unat t) out' = concat os)) \<and>
        (st \<noteq> CUDEC_OK \<longrightarrow> out' = out \<and> (\<forall>os. list_all2 (block_yields one f bmax) blocks os \<longrightarrow> unat cap < length (concat os)) \<or>
           st = CUDEC_ERR_CUDA \<and> (\<exists>c. \<not> rt c)))" by (auto simp: wp_Some)
    next
      fix res :: "cudec_status + (u8 list \<times> u64 list)" assume res: "res = (if \<forall>p\<in>set ps. chunk_status (fst p) = CUDEC_OK
          then Inr (concat (map snd ps), weave blocks (map (\<lambda>p. bytes_written (fst p)) ps)) else Inl CUDEC_ERR_CORRUPT_INPUT)"
      show "wp (case res of Inl e \<Rightarrow> Some (e, out, 0)
         | Inr (d_dst, dl) \<Rightarrow> (case frame_total (zip blocks dl) cap 0 of None \<Rightarrow> Some (CUDEC_ERR_OUTPUT_TOO_SMALL, out, 0)
            | Some t \<Rightarrow> frame_assemble rt drain f d_dst True bmax (zip blocks dl) out t)) (\<lambda>(st, out', t).
        length out' = length out \<and> drop (unat cap) out' = drop (unat cap) out \<and>
        (st = CUDEC_OK \<longrightarrow> (\<exists>os. list_all2 (block_yields one f bmax) blocks os \<and> unat t = length (concat os) \<and> unat t \<le> unat cap \<and>
           take (unat t) out' = concat os)) \<and>
        (st \<noteq> CUDEC_OK \<longrightarrow> out' = out \<and> (\<forall>os. list_all2 (block_yields one f bmax) blocks os \<longrightarrow> unat cap < length (concat os)) \<or>
           st = CUDEC_ERR_CUDA \<and> (\<exists>c. \<not> rt c)))"
      proof (cases "\<forall>p\<in>set ps. chunk_status (fst p) = CUDEC_OK")
        case False
        then have "\<not> list_all2 (block_yields one f bmax) blocks os" for os
          using yields_all[OF ins sl] unfolding ps_def by blast
        then show ?thesis using res False by (auto simp: wp_Some)
      next
        case True
        have fitp: "\<forall>p\<in>set ps. unat (written p) \<le> length (snd p)" using pb by simp
        have bp: "block_parts f (map snd ps) 0 (zip blocks (weave blocks (map written ps))) (parts f blocks ps)"
          "(\<Sum>x\<leftarrow>zip blocks (weave blocks (map written ps)). unat (entry_len x)) = length (concat (parts f blocks ps))"
          using parts_fit(1)[OF ins lps fitp, of "[]"] parts_fit(2)[OF ins lps fitp] by simp_all
        have y: "list_all2 (block_yields one f bmax) blocks (parts f blocks ps)"
          using parts_yield[OF sl, of one f] True by (simp add: ps_def)
        have "\<forall>x\<in>set (map snd ps). length x = unat bmax" "length (map snd ps) = length (compressed blocks)" using pb lps by auto
        from place[OF this bp y] show ?thesis using res True by simp
      qed
    qed
  qed
qed

end

lemma tiles_inside: "tiles f n desc pos bs e \<Longrightarrow> n \<le> length f \<Longrightarrow> \<forall>b\<in>set bs. block_inside f b"
  using tiles_bounds by (fastforce simp: block_inside_def)

lemma concat_yields_unique:
  assumes "batch_entry accepts entry one" "\<forall>b\<in>set bs. block_inside f b"
    "list_all2 (block_yields one f bmax) bs os" "list_all2 (block_yields one f bmax) bs os'"
  shows "os' = os"
proof (rule nth_equalityI)
  show "length os' = length os" using assms(3,4) by (simp add: list_all2_conv_all_nth)
  fix i assume "i < length os'"
  then have i: "i < length bs" using assms(4) by (simp add: list_all2_conv_all_nth)
  then have "block_yields one f bmax (bs ! i) (os ! i)" "block_yields one f bmax (bs ! i) (os' ! i)"
    using assms(3,4) by (simp_all add: list_all2_conv_all_nth)
  moreover have "block_inside f (bs ! i)" using assms(2) nth_mem[OF i] by blast
  ultimately show "os' ! i = os ! i" using batch_entry.yields_fun[OF assms(1)] by blast
qed

context batch_entry begin

lemma decode_frame_contract:
  assumes acc: "accepts" and n: "unat n \<le> unat kMaxBatchChunks" "unat n \<le> length f"
    and drain: "\<forall>cs. set (drain cs) = set cs" and cap: "unat cap \<le> length out"
  shows "wp (decode_frame rt drain junk stale entry f n out cap) (\<lambda>(st, out', t).
    length out' = length out \<and> drop (unat cap) out' = drop (unat cap) out \<and>
    (st = CUDEC_OK \<longrightarrow> unat t \<le> unat cap \<and> frame_yields one f (unat n) (take (unat t) out')) \<and>
    (st \<noteq> CUDEC_OK \<longrightarrow> t = 0 \<and> ((\<forall>r. frame_yields one f (unat n) r \<longrightarrow> unat cap < length r) \<or>
       st = CUDEC_ERR_CUDA \<and> (\<exists>c. \<not> rt c))))"
proof -
  let ?K = "\<lambda>(st :: cudec_status, out', t :: u64). length out' = length out \<and> drop (unat cap) out' = drop (unat cap) out \<and>
    (st = CUDEC_OK \<longrightarrow> unat t \<le> unat cap \<and> frame_yields one f (unat n) (take (unat t) out')) \<and>
    (st \<noteq> CUDEC_OK \<longrightarrow> t = 0 \<and> ((\<forall>r. frame_yields one f (unat n) r \<longrightarrow> unat cap < length r) \<or>
       st = CUDEC_ERR_CUDA \<and> (\<exists>c. \<not> rt c)))"
  have n63: "unat n < 2 ^ 63" using n(1) by (simp add: batch_consts)
  obtain st0 desc where d: "lz4_parse_frame_descriptor f n blank_descriptor = Some (st0, desc)"
    and dc: "st0 = CUDEC_OK \<Longrightarrow> unat (body_off desc) \<le> unat n \<and> block_max desc \<in> {0x10000, 0x40000, 0x100000, 0x400000}"
    using descriptor_contract[OF n(2), of blank_descriptor] by (auto simp: wp_iff)
  show ?thesis
  proof (cases "st0 = CUDEC_OK")
    case False
    then have "\<not> frame_yields one f (unat n) r" for r using d by (simp add: frame_yields_def)
    then show ?thesis using False by (simp add: decode_frame_def d wp_Some)
  next
    case True
    note d' = d[unfolded True] and dc' = dc[OF True]
    have fy: "frame_yields one f (unat n) r \<longleftrightarrow> (\<exists>bs e outs. tiles f (unat n) desc (unat (body_off desc)) bs e \<and>
       list_all2 (block_yields one f (block_max desc)) bs outs \<and> r = concat outs \<and>
       (content_size desc \<longrightarrow> unat (declared_content_size desc) = length r) \<and>
       (content_checksum desc \<longrightarrow> e + 4 \<le> unat n \<and> xxh32_ref r = le32 (drop e f)))" for r
      by (simp add: frame_yields_def d')
    obtain st1 bs e where w: "lz4_walk_frame_blocks f n desc = Some (st1, bs, e)"
      and wc: "st1 = CUDEC_OK \<and> tiles f (unat n) desc (unat (body_off desc)) bs (unat e) \<or>
        st1 = CUDEC_ERR_CORRUPT_INPUT \<and> (\<nexists>bs e. tiles f (unat n) desc (unat (body_off desc)) bs e)"
      using walk_contract[OF n63 n(2), of desc] dc' by (auto simp: wp_iff)
    show ?thesis
    proof (cases "st1 = CUDEC_OK")
      case False
      then have "\<not> frame_yields one f (unat n) r" for r using wc by (auto simp: fy)
      then show ?thesis using False by (simp add: decode_frame_def d' w wp_Some)
    next
      case ok: True
      then have t: "tiles f (unat n) desc (unat (body_off desc)) bs (unat e)" using wc by simp
      have ins: "\<forall>b\<in>set bs. block_inside f b" by (rule tiles_inside[OF t n(2)])
      have tl: "length bs \<le> unat n" "total_len bs < 2 ^ 64" using tiles_total[OF t] tiles_count[OF t] n63 by simp_all
      have C: "length (compressed bs) \<le> unat kMaxBatchChunks" using length_compressed(1)[of bs] tl(1) n(1) by linarith
      have bm: "unat (block_max desc) \<le> 0x400000" "0 < unat (block_max desc)" using dc' by auto
      have "length (compressed bs) * unat (block_max desc) \<le> 68719476704 * 0x400000"
        using C bm by (intro mult_mono) (simp_all add: batch_consts)
      then have fit: "length (compressed bs) * unat (block_max desc) < 2 ^ 64" by simp
      have e: "unat e \<le> unat n" using tiles_end[OF t] by simp
      show ?thesis
        unfolding decode_frame_def d' w bind.bind_lunit prod.case ok
      proof (simp only: simp_thms if_False, rule wp_bind3[OF decode_and_assemble_contract[OF acc ins C fit bm(2) tl(2) drain cap]], goal_cases)
        case (1 st2 o2 t2)
        show ?case
        proof (cases "st2 = CUDEC_OK")
          case False
          have "(\<forall>r. frame_yields one f (unat n) r \<longrightarrow> unat cap < length r) \<or> st2 = CUDEC_ERR_CUDA \<and> (\<exists>c. \<not> rt c)"
            using 1 False tiles_fun[OF t] unfolding fy by blast
          then show ?thesis using 1 False by (auto simp: wp_Some)
        next
          case good: True
          then obtain os where os: "list_all2 (block_yields one f (block_max desc)) bs os" "unat t2 = length (concat os)"
            "unat t2 \<le> unat cap" "take (unat t2) o2 = concat os" "length o2 = length out" using 1 by auto
          have uni: "frame_yields one f (unat n) r \<Longrightarrow> r = concat os" for r
            using tiles_fun[OF t] concat_yields_unique[OF batch_entry_axioms ins os(1)] unfolding fy by blast
          have tlen: "unat t2 \<le> length o2" using os(3,5) cap by simp
          define claims where "claims \<longleftrightarrow> (content_size desc \<longrightarrow> declared_content_size desc = t2) \<and>
            (content_checksum desc \<longrightarrow> unat e + 4 \<le> unat n \<and> xxh32_ref (concat os) = le32 (drop (unat e) f))"
          have v: "lz4_verify_frame_tail f n desc e o2 t2 = Some (if claims then CUDEC_OK else CUDEC_ERR_CORRUPT_INPUT)"
            using verify_tail_contract[OF n63 n(2) e tlen] os(4) by (simp add: claims_def)
          have cl: "claims \<longleftrightarrow> frame_yields one f (unat n) (concat os)"
          proof -
            have "(declared_content_size desc = t2) = (unat (declared_content_size desc) = length (concat os))"
              using os(2) by (simp add: word_unat_eq_iff)
            then show ?thesis using t os(1) tiles_fun[OF t] unfolding fy claims_def by blast
          qed
          show ?thesis
          proof (cases claims)
            case True
            then have "frame_yields one f (unat n) (take (unat t2) o2)" using cl os(4) by simp
            then show ?thesis using 1 good os v True by (simp add: wp_Some)
          next
            case False
            then have "\<not> frame_yields one f (unat n) r" for r using uni[of r] cl by auto
            then show ?thesis using 1 good v False by (simp add: wp_Some)
          qed
        qed
      qed
    qed
  qed
qed

end

section \<open>What an LZ4 frame stands for\<close>

text \<open>
  The frame format's own reading: each stored block stands for its bytes, each compressed block for
  what the sequential semantics of LZ4 produces from it within the block maximum.
\<close>

definition block_content :: "u8 list \<Rightarrow> u64 \<Rightarrow> lz4_frame_block \<Rightarrow> u8 list \<Rightarrow> bool" where
  "block_content f bmax b out \<longleftrightarrow> (if uncompressed b then out = block_src f b
     else decodes lz4_next (lz4_parser_init (block_src f b) (src_len b) bmax) empty_sequence [] out)"

definition frame_content :: "u8 list \<Rightarrow> nat \<Rightarrow> u8 list \<Rightarrow> bool" where
  "frame_content f n out \<longleftrightarrow> (\<exists>desc bs e outs.
     lz4_parse_frame_descriptor f (of_nat n) blank_descriptor = Some (CUDEC_OK, desc) \<and>
     tiles f n desc (unat (body_off desc)) bs e \<and> list_all2 (block_content f (block_max desc)) bs outs \<and> out = concat outs \<and>
     (content_size desc \<longrightarrow> unat (declared_content_size desc) = length out) \<and>
     (content_checksum desc \<longrightarrow> e + 4 \<le> n \<and> xxh32_ref out = le32 (drop e f)))"

lemma lz4_block_yields:
  assumes "block_inside f b" "0 < wave" "wave_schedule wave sched"
  shows "block_yields (lz4_one sched) f bmax b out \<longleftrightarrow> block_content f bmax b out"
proof (cases "uncompressed b")
  case False
  let ?p = "lz4_parser_init (block_src f b) (src_len b) bmax"
  have one: "\<exists>r d'. lz4_one sched (block_src f b) (src_len b) bmax x = (r, d') \<and>
      (chunk_status r = CUDEC_OK \<longleftrightarrow> (\<exists>out. decodes lz4_next ?p empty_sequence [] out)) \<and>
      (chunk_status r = CUDEC_OK \<longrightarrow> decodes lz4_next ?p empty_sequence [] (take (unat (bytes_written r)) d'))"
    if "length x = unat bmax" for x
    using lz4_one_decodes[OF _ assms(2,3), of "block_src f b" "src_len b" bmax x] that length_block_src[OF assms(1)]
    by (auto simp: chunk_args_def)
  show ?thesis
  proof
    assume "block_yields (lz4_one sched) f bmax b out"
    then show "block_content f bmax b out" using one False by (fastforce simp: block_yields_def block_content_def)
  next
    assume "block_content f bmax b out"
    then have d: "decodes lz4_next ?p empty_sequence [] out" using False by (simp add: block_content_def)
    obtain r d' where r: "lz4_one sched (block_src f b) (src_len b) bmax (replicate (unat bmax) 0) = (r, d')"
      "chunk_status r = CUDEC_OK" "decodes lz4_next ?p empty_sequence [] (take (unat (bytes_written r)) d')"
      using one[of "replicate (unat bmax) 0"] d by auto
    then have "out = take (unat (bytes_written r)) d'" using decodes_fun d by blast
    then show "block_yields (lz4_one sched) f bmax b out"
      using False r by (auto simp: block_yields_def intro!: exI[of _ "replicate (unat bmax) 0"])
  qed
qed (simp add: block_yields_def block_content_def)

lemma lz4_frame_yields:
  assumes "n \<le> length f" "0 < wave" "wave_schedule wave sched"
  shows "frame_yields (lz4_one sched) f n out \<longleftrightarrow> frame_content f n out"
proof -
  have "list_all2 (block_yields (lz4_one sched) f bmax) bs outs \<longleftrightarrow> list_all2 (block_content f bmax) bs outs"
    if "tiles f n desc pos bs e" for desc pos bs e bmax outs
    using tiles_inside[OF that assms(1)] lz4_block_yields[OF _ assms(2,3)]
    by (simp add: list_all2_conv_all_nth)
  then show ?thesis unfolding frame_yields_def frame_content_def by blast
qed

lemma lz4f_decompress_contract:
  assumes n: "unat n \<le> unat kMaxBatchChunks" "unat n \<le> length f"
    and s: "0 < wave" "wave_schedule wave sched" and o: "chunk_order order" and w: "w \<in> {32, 64}"
    and drain: "\<forall>cs. set (drain cs) = set cs" and cap: "unat cap \<le> length d"
  shows "wp (lz4f_decompress rt drain junk stale (lz4_decompress_batch (Some w) True sched order) True (Some f) n (Some d) cap False)
    (\<lambda>(st, d', t). \<exists>out k. d' = Some out \<and> t = Some k \<and> length out = length d \<and> drop (unat cap) out = drop (unat cap) d \<and>
      (st = CUDEC_OK \<longrightarrow> unat k \<le> unat cap \<and> frame_content f (unat n) (take (unat k) out)) \<and>
      (st \<noteq> CUDEC_OK \<longrightarrow> k = 0 \<and> ((\<forall>r. frame_content f (unat n) r \<longrightarrow> unat cap < length r) \<or>
         st = CUDEC_ERR_CUDA \<and> (\<exists>c. \<not> rt c))))"
proof -
  note be = lz4_batch_entry[OF s o, of "Some w" True]
  have l: "launches (Some w) True" using w by (simp add: launches_def)
  note c = batch_entry.decode_frame_contract[OF be l n drain cap, unfolded lz4_frame_yields[OF n(2) s]]
  show ?thesis unfolding lz4f_decompress_def
    by (simp, rule wp_bind3[OF c]) (auto simp: wp_Some)
qed

end
