(* ===== verification/Tilestream.thy ===== *)
theory Tilestream
  imports Xxhash32
begin

text \<open>
  The TileStream envelope, \<open>src/tilestream.h\<close>: the header, the table of offsets and the
  tiles it describes. Pointer arguments the code tests for null are options, or a flag where only
  the test is made of them. A refusal carries its status; nothing is promised of the tile array
  then, and the model returns none.
\<close>

definition kTileStreamTileSize :: u64 where "kTileStreamTileSize = 65536"
definition kTileStreamTileSizeIdx64K :: u32 where "kTileStreamTileSizeIdx64K = 1"
definition kTileStreamHeaderBytes :: u64 where "kTileStreamHeaderBytes = 8"
definition kTileStreamTocEntryBytes :: u64 where "kTileStreamTocEntryBytes = 4"
definition kTileStreamMaxTiles :: u64 where "kTileStreamMaxTiles = 65535"

lemmas tile_consts = kTileStreamTileSize_def kTileStreamTileSizeIdx64K_def
  kTileStreamHeaderBytes_def kTileStreamTocEntryBytes_def kTileStreamMaxTiles_def

record tile_stream_tile =
  tile_src_off :: u64
  tile_src_size :: u64
  tile_dst_size :: u64

record tile_stream_info =
  tile_count :: u64
  total_uncompressed :: u64

definition tile_stream_read16le :: "u8 list \<Rightarrow> u64 \<Rightarrow> u16 option" where
  "tile_stream_read16le s p = do {
     b0 \<leftarrow> rd s p; b1 \<leftarrow> rd s (p + 1);
     Some (ucast b0 OR push_bit 8 (ucast b1))
   }"

definition tile_stream_read32le :: "u8 list \<Rightarrow> u64 \<Rightarrow> u32 option" where
  "tile_stream_read32le s p = do {
     b0 \<leftarrow> rd s p; b1 \<leftarrow> rd s (p + 1); b2 \<leftarrow> rd s (p + 2); b3 \<leftarrow> rd s (p + 3);
     Some (((ucast b0 OR push_bit 8 (ucast b1)) OR push_bit 16 (ucast b2)) OR push_bit 24 (ucast b3))
   }"

definition tile_stream_declared_tile_count :: "u8 list option \<Rightarrow> u64 \<Rightarrow> u64 option" where
  "tile_stream_declared_tile_count strm n =
     (case strm of None \<Rightarrow> Some 0
      | Some s \<Rightarrow>
          if n < kTileStreamHeaderBytes then Some 0
          else do {
            b0 \<leftarrow> rd s 0; b1 \<leftarrow> rd s 1;
            if b0 \<noteq> b1 XOR 0xFF then Some 0
            else do { c \<leftarrow> tile_stream_read16le s 2; Some (ucast c) }
          })"

section \<open>The parse\<close>

definition upd_tile :: "tile_stream_tile list \<Rightarrow> nat \<Rightarrow> (tile_stream_tile \<Rightarrow> tile_stream_tile) \<Rightarrow> tile_stream_tile list option" where
  "upd_tile tiles i f = do { t \<leftarrow> at tiles i; put tiles i (f t) }"

text \<open>The chain of offsets, strictly increasing from the end of the table.\<close>

fun tile_offsets :: "u8 list \<Rightarrow> nat list \<Rightarrow> u64 \<Rightarrow> tile_stream_tile list \<Rightarrow> (cudec_status + tile_stream_tile list) option" where
  "tile_offsets s [] prev_off tiles = Some (Inr tiles)"
| "tile_offsets s (i # is) prev_off tiles = do {
     w \<leftarrow> tile_stream_read32le s (kTileStreamHeaderBytes + of_nat i * kTileStreamTocEntryBytes);
     let off = ucast w;
     if off \<le> prev_off then Some (Inl CUDEC_ERR_CORRUPT_INPUT)
     else do {
       tiles \<leftarrow> upd_tile tiles i (tile_src_off_update (\<lambda>_. off));
       tile_offsets s is off tiles
     }
   }"

fun tile_sizes :: "nat list \<Rightarrow> tile_stream_tile list \<Rightarrow> tile_stream_tile list option" where
  "tile_sizes [] tiles = Some tiles"
| "tile_sizes (i # is) tiles = do {
     a \<leftarrow> at tiles i; b \<leftarrow> at tiles (i + 1);
     tiles \<leftarrow> upd_tile tiles i (tile_src_size_update (\<lambda>_. tile_src_off b - tile_src_off a));
     tile_sizes is tiles
   }"

fun tile_dst_sizes :: "nat list \<Rightarrow> tile_stream_tile list \<Rightarrow> tile_stream_tile list option" where
  "tile_dst_sizes [] tiles = Some tiles"
| "tile_dst_sizes (i # is) tiles = do {
     tiles \<leftarrow> upd_tile tiles i (tile_dst_size_update (\<lambda>_. kTileStreamTileSize));
     tile_dst_sizes is tiles
   }"

text \<open>The table and the tiles, once the header has passed.\<close>

definition tile_stream_table :: "u8 list \<Rightarrow> u64 \<Rightarrow> u64 \<Rightarrow> u64 \<Rightarrow> tile_stream_tile list \<Rightarrow>
    (cudec_status + (tile_stream_tile list \<times> tile_stream_info)) option" where
  "tile_stream_table s n count last_tile_size tiles = do {
     let toc_end = kTileStreamHeaderBytes + count * kTileStreamTocEntryBytes;
     if n < toc_end then Some (Inl CUDEC_ERR_CORRUPT_INPUT)
     else do {
       w \<leftarrow> tile_stream_read32le s kTileStreamHeaderBytes;
       let last_tile_src_size = ucast w;
       if last_tile_src_size = 0 then Some (Inl CUDEC_ERR_CORRUPT_INPUT)
       else do {
         chain \<leftarrow> tile_offsets s [1..<unat count] toc_end tiles;
         case chain of
           Inl e \<Rightarrow> Some (Inl e)
         | Inr tiles \<Rightarrow> do {
             tiles \<leftarrow> upd_tile tiles 0 (tile_src_off_update (\<lambda>_. toc_end));
             tiles \<leftarrow> tile_sizes [0..<unat count - 1] tiles;
             tiles \<leftarrow> upd_tile tiles (unat count - 1) (tile_src_size_update (\<lambda>_. last_tile_src_size));
             t \<leftarrow> at tiles (unat count - 1);
             let last_end = tile_src_off t + tile_src_size t;
             if last_end > n then Some (Inl CUDEC_ERR_CORRUPT_INPUT)
             else do {
               tiles \<leftarrow> tile_dst_sizes [0..<unat count - 1] tiles;
               tiles \<leftarrow> upd_tile tiles (unat count - 1) (tile_dst_size_update
                 (\<lambda>_. if last_tile_size = 0 then kTileStreamTileSize else last_tile_size));
               let total = count * kTileStreamTileSize;
               let total = (if last_tile_size \<noteq> 0 then total - (kTileStreamTileSize - last_tile_size) else total);
               Some (Inr (tiles, \<lparr>tile_count = count, total_uncompressed = total\<rparr>))
             }
           }
       }
     }
   }"

definition tile_stream_parse ::
    "u8 list option \<Rightarrow> u64 \<Rightarrow> tile_stream_tile list option \<Rightarrow> u64 \<Rightarrow> bool \<Rightarrow>
     (cudec_status + (tile_stream_tile list \<times> tile_stream_info)) option" where
  "tile_stream_parse strm n tile_array tiles_capacity null_info =
     (case (strm, tile_array, null_info) of
        (Some s, Some tiles, False) \<Rightarrow>
          if n < kTileStreamHeaderBytes then Some (Inl CUDEC_ERR_CORRUPT_INPUT)
          else do {
            id \<leftarrow> rd s 0; magic \<leftarrow> rd s 1;
            if id \<noteq> magic XOR 0xFF then Some (Inl CUDEC_ERR_CORRUPT_INPUT)
            else do {
              c \<leftarrow> tile_stream_read16le s 2;
              let count = (ucast c :: u64);
              if count = 0 then Some (Inl CUDEC_ERR_CORRUPT_INPUT)
              else do {
                packed \<leftarrow> tile_stream_read32le s 4;
                let tile_size_idx = packed AND 0x3;
                let last_tile_size = ucast (drop_bit 2 packed AND 0x3FFFF);
                let reserved_bits = drop_bit 20 packed AND 0xFFF;
                if tile_size_idx \<noteq> kTileStreamTileSizeIdx64K then Some (Inl CUDEC_ERR_CORRUPT_INPUT)
                else if reserved_bits \<noteq> 0 then Some (Inl CUDEC_ERR_CORRUPT_INPUT)
                else if last_tile_size \<ge> kTileStreamTileSize then Some (Inl CUDEC_ERR_CORRUPT_INPUT)
                else if tiles_capacity < count then Some (Inl CUDEC_ERR_INVALID_ARGUMENT)
                else tile_stream_table s n count last_tile_size tiles
              }
            }
          }
      | _ \<Rightarrow> Some (Inl CUDEC_ERR_INVALID_ARGUMENT))"

section \<open>What an accepted table describes\<close>

text \<open>
  The container's own reading: the tiles' bytes follow the table one after the other without a
  gap, each non-empty, and end inside the stream; every tile but the last produces a full tile.
\<close>

definition toc_offset :: "u8 list \<Rightarrow> nat \<Rightarrow> nat \<Rightarrow> nat" where
  "toc_offset s count i = (if i = 0 then 8 + 4 * count else unat (le32 (drop (8 + 4 * i) s)))"

definition toc_ok :: "u8 list \<Rightarrow> nat \<Rightarrow> nat \<Rightarrow> bool" where
  "toc_ok s n count \<longleftrightarrow> 8 + 4 * count \<le> n \<and> 0 < unat (le32 (drop 8 s)) \<and>
     (\<forall>i. i + 1 < count \<longrightarrow> toc_offset s count i < toc_offset s count (i + 1)) \<and>
     toc_offset s count (count - 1) + unat (le32 (drop 8 s)) \<le> n"

definition toc_tile :: "u8 list \<Rightarrow> nat \<Rightarrow> nat \<Rightarrow> nat \<Rightarrow> tile_stream_tile \<Rightarrow> bool" where
  "toc_tile s count last_size i t \<longleftrightarrow> unat (tile_src_off t) = toc_offset s count i \<and>
     unat (tile_src_off t) + unat (tile_src_size t) =
       (if i + 1 < count then toc_offset s count (i + 1) else toc_offset s count i + unat (le32 (drop 8 s))) \<and>
     unat (tile_dst_size t) = (if i + 1 < count \<or> last_size = 0 then 65536 else last_size)"

lemma tile_read32: "unat p + 4 \<le> length s \<Longrightarrow> unat p + 4 < 2 ^ 64 \<Longrightarrow> tile_stream_read32le s p = Some (le32 (drop (unat p) s))"
proof -
  assume p: "unat p + 4 \<le> length s" "unat p + 4 < 2 ^ 64"
  then have u: "unat (p + 1) = unat p + 1" "unat (p + 2) = unat p + 2" "unat (p + 3) = unat p + 3"
    by (simp_all add: unat_plus)
  have "tile_stream_read32le s p = xxh_read32 s (unat p)"
    using p(1) by (simp add: tile_stream_read32le_def xxh_read32_def rd_def at_def u)
  then show ?thesis using xxh_read32_le32[OF p(1)] by simp
qed


section \<open>The parse accepts exactly those tables\<close>

lemma upd_tile [simp]: "i < length tiles \<Longrightarrow> upd_tile tiles i f = Some (tiles[i := f (tiles ! i)])"
  by (simp add: upd_tile_def at_def)

lemma toc_index: "i < 65536 \<Longrightarrow> unat (kTileStreamHeaderBytes + of_nat i * kTileStreamTocEntryBytes :: u64) = 8 + 4 * i"
proof -
  assume i: "i < 65536"
  have "unat (of_nat (8 + 4 * i) :: u64) = 8 + 4 * i" using i by (intro unat_of_nat_less) simp
  moreover have "kTileStreamHeaderBytes + of_nat i * kTileStreamTocEntryBytes = (of_nat (8 + 4 * i) :: u64)"
    by (simp add: tile_consts mult.commute)
  ultimately show ?thesis by simp
qed

lemma tile_offsets_contract:
  assumes s: "8 + 4 * C \<le> length s" "C \<le> 65535" and "0 < i" "i \<le> C" "C \<le> length tiles"
    and "unat prev = toc_offset s C (i - 1)"
  shows "wp (tile_offsets s [i..<C] prev tiles) (\<lambda>res. case res of
     Inl e \<Rightarrow> e = CUDEC_ERR_CORRUPT_INPUT \<and> (\<exists>j. i \<le> j + 1 \<and> j + 1 < C \<and> toc_offset s C (j + 1) \<le> toc_offset s C j)
   | Inr tiles' \<Rightarrow> length tiles' = length tiles \<and>
       (\<forall>j. i \<le> j + 1 \<and> j + 1 < C \<longrightarrow> toc_offset s C j < toc_offset s C (j + 1)) \<and>
       (\<forall>j. i \<le> j \<and> j < C \<longrightarrow> unat (tile_src_off (tiles' ! j)) = toc_offset s C j) \<and>
       (\<forall>j<i. tiles' ! j = tiles ! j))"
  using assms(3-)
proof (induction "C - i" arbitrary: i prev tiles)
  case 0
  then show ?case by (simp add: wp_rules)
next
  case (Suc k)
  then have lt: "i < C" by simp
  let ?off = "ucast (le32 (drop (8 + 4 * i) s)) :: u64"
  have ix: "unat (kTileStreamHeaderBytes + of_nat i * kTileStreamTocEntryBytes :: u64) = 8 + 4 * i"
    using lt s(2) by (intro toc_index) simp
  then have rdw: "tile_stream_read32le s (kTileStreamHeaderBytes + of_nat i * kTileStreamTocEntryBytes) = Some (le32 (drop (8 + 4 * i) s))"
    using s lt by (subst tile_read32) simp_all
  have off: "unat ?off = toc_offset s C i" using Suc.prems(1) by (simp add: toc_offset_def)
  show ?case
  proof (cases "?off \<le> prev")
    case True
    then have "toc_offset s C i \<le> toc_offset s C (i - 1)" using off Suc.prems(4) by (simp add: w2n)
    then have "\<exists>j. i \<le> j + 1 \<and> j + 1 < C \<and> toc_offset s C (j + 1) \<le> toc_offset s C j"
      using lt Suc.prems(1) by (intro exI[of _ "i - 1"]) simp
    then show ?thesis using True lt rdw by (simp add: upt_conv_Cons wp_rules)
  next
    case False
    then have gt: "toc_offset s C (i - 1) < toc_offset s C i" using off Suc.prems(4) by (simp add: w2n not_le)
    let ?t = "tiles[i := tile_src_off_update (\<lambda>_. ?off) (tiles ! i)]"
    have eq: "tile_offsets s [i..<C] prev tiles = tile_offsets s [Suc i..<C] ?off ?t"
      using False lt rdw Suc.prems(3) by (simp add: upt_conv_Cons Let_def)
    have ih: "wp (tile_offsets s [Suc i..<C] ?off ?t) (\<lambda>res. case res of
       Inl e \<Rightarrow> e = CUDEC_ERR_CORRUPT_INPUT \<and> (\<exists>j. Suc i \<le> j + 1 \<and> j + 1 < C \<and> toc_offset s C (j + 1) \<le> toc_offset s C j)
     | Inr tiles' \<Rightarrow> length tiles' = length ?t \<and>
         (\<forall>j. Suc i \<le> j + 1 \<and> j + 1 < C \<longrightarrow> toc_offset s C j < toc_offset s C (j + 1)) \<and>
         (\<forall>j. Suc i \<le> j \<and> j < C \<longrightarrow> unat (tile_src_off (tiles' ! j)) = toc_offset s C j) \<and>
         (\<forall>j<Suc i. tiles' ! j = ?t ! j))"
      using Suc.hyps(2) Suc.prems lt off by (intro Suc.hyps(1)) auto
    show ?thesis unfolding eq
    proof (rule wp_mono[OF ih], split sum.splits, intro conjI allI impI)
      fix res e assume r: "case res of Inl e \<Rightarrow> e = CUDEC_ERR_CORRUPT_INPUT \<and> (\<exists>j. Suc i \<le> j + 1 \<and> j + 1 < C \<and> toc_offset s C (j + 1) \<le> toc_offset s C j)
     | Inr tiles' \<Rightarrow> length tiles' = length ?t \<and>
         (\<forall>j. Suc i \<le> j + 1 \<and> j + 1 < C \<longrightarrow> toc_offset s C j < toc_offset s C (j + 1)) \<and>
         (\<forall>j. Suc i \<le> j \<and> j < C \<longrightarrow> unat (tile_src_off (tiles' ! j)) = toc_offset s C j) \<and>
         (\<forall>j<Suc i. tiles' ! j = ?t ! j)" "res = Inl e"
      then have ex: "e = CUDEC_ERR_CORRUPT_INPUT" "\<exists>j. Suc i \<le> j + 1 \<and> j + 1 < C \<and> toc_offset s C (j + 1) \<le> toc_offset s C j"
        by simp_all
      show "e = CUDEC_ERR_CORRUPT_INPUT" by (fact ex(1))
      show "\<exists>j. i \<le> j + 1 \<and> j + 1 < C \<and> toc_offset s C (j + 1) \<le> toc_offset s C j"
        using ex(2) by (blast dest: Suc_leD)
    next
      fix res tiles' assume r: "case res of Inl e \<Rightarrow> e = CUDEC_ERR_CORRUPT_INPUT \<and> (\<exists>j. Suc i \<le> j + 1 \<and> j + 1 < C \<and> toc_offset s C (j + 1) \<le> toc_offset s C j)
     | Inr tiles' \<Rightarrow> length tiles' = length ?t \<and>
         (\<forall>j. Suc i \<le> j + 1 \<and> j + 1 < C \<longrightarrow> toc_offset s C j < toc_offset s C (j + 1)) \<and>
         (\<forall>j. Suc i \<le> j \<and> j < C \<longrightarrow> unat (tile_src_off (tiles' ! j)) = toc_offset s C j) \<and>
         (\<forall>j<Suc i. tiles' ! j = ?t ! j)" "res = Inr tiles'"
      show "length tiles' = length tiles" using r by simp
      show "toc_offset s C j < toc_offset s C (j + 1)" if "i \<le> j + 1 \<and> j + 1 < C" for j
        using r gt that Suc.prems(1) by (cases "i = j + 1") auto
      show "unat (tile_src_off (tiles' ! j)) = toc_offset s C j" if "i \<le> j \<and> j < C" for j
        using r that off Suc.prems(3) by (cases "j = i") auto
      show "tiles' ! j = tiles ! j" if "j < i" for j using r that by simp
    qed
  qed
qed

lemma tile_sizes_eq:
  "i \<le> m \<Longrightarrow> m < length tiles \<Longrightarrow> \<exists>tiles'. tile_sizes [i..<m] tiles = Some tiles' \<and> length tiles' = length tiles \<and>
     (\<forall>j. tile_src_off (tiles' ! j) = tile_src_off (tiles ! j)) \<and>
     (\<forall>j. i \<le> j \<and> j < m \<longrightarrow> tile_src_size (tiles' ! j) = tile_src_off (tiles ! (j + 1)) - tile_src_off (tiles ! j))"
proof (induction "m - i" arbitrary: i tiles)
  case 0
  then show ?case by auto
next
  case (Suc k)
  let ?t = "tiles[i := tile_src_size_update (\<lambda>_. tile_src_off (tiles ! (i + 1)) - tile_src_off (tiles ! i)) (tiles ! i)]"
  have lt: "i < m" using Suc.hyps(2) by simp
  have off: "tile_src_off (?t ! j) = tile_src_off (tiles ! j)" for j
    using lt Suc.prems(2) by (cases "j = i") auto
  have keep: "tile_sizes [a..<m] t = Some t' \<Longrightarrow> j < a \<Longrightarrow> m < length t \<Longrightarrow> t' ! j = t ! j" for a t t' j
  proof (induction "m - a" arbitrary: a t)
    case (Suc k)
    then have "a < m" "Suc a < length t" by simp_all
    then show ?case using Suc.hyps(1)[of "Suc a"] Suc.hyps(2) Suc.prems by (auto simp: upt_conv_Cons at_def)
  qed simp
  have "\<exists>t'. tile_sizes [Suc i..<m] ?t = Some t' \<and> length t' = length ?t \<and>
     (\<forall>j. tile_src_off (t' ! j) = tile_src_off (?t ! j)) \<and>
     (\<forall>j. Suc i \<le> j \<and> j < m \<longrightarrow> tile_src_size (t' ! j) = tile_src_off (?t ! (j + 1)) - tile_src_off (?t ! j))"
    using Suc.hyps(2) Suc.prems lt by (intro Suc.hyps(1)) simp_all
  then obtain t' where t': "tile_sizes [Suc i..<m] ?t = Some t'" "length t' = length tiles"
     "\<And>j. tile_src_off (t' ! j) = tile_src_off (tiles ! j)"
     "\<And>j. Suc i \<le> j \<Longrightarrow> j < m \<Longrightarrow> tile_src_size (t' ! j) = tile_src_off (tiles ! (j + 1)) - tile_src_off (tiles ! j)"
    unfolding off by auto
  have sz: "tile_src_size (t' ! j) = tile_src_off (tiles ! (j + 1)) - tile_src_off (tiles ! j)" if "i \<le> j" "j < m" for j
  proof (cases "j = i")
    case True
    then show ?thesis using keep[OF t'(1), of i] lt Suc.prems(2) by simp
  qed (use that t'(4) in auto)
  have "tile_sizes [i..<m] tiles = Some t'" using t'(1) lt Suc.prems(2) by (simp add: upt_conv_Cons at_def)
  then show ?case using t'(2,3) sz by blast
qed

lemma tile_dst_sizes_eq:
  "i \<le> m \<Longrightarrow> m \<le> length tiles \<Longrightarrow> \<exists>tiles'. tile_dst_sizes [i..<m] tiles = Some tiles' \<and> length tiles' = length tiles \<and>
     (\<forall>j. tile_src_off (tiles' ! j) = tile_src_off (tiles ! j) \<and> tile_src_size (tiles' ! j) = tile_src_size (tiles ! j)) \<and>
     (\<forall>j. tile_dst_size (tiles' ! j) = (if i \<le> j \<and> j < m then 65536 else tile_dst_size (tiles ! j)))"
proof (induction "m - i" arbitrary: i tiles)
  case 0
  then show ?case by auto
next
  case (Suc k)
  let ?t = "tiles[i := tile_dst_size_update (\<lambda>_. kTileStreamTileSize) (tiles ! i)]"
  have lt: "i < m" using Suc.hyps(2) by simp
  have "\<exists>t'. tile_dst_sizes [Suc i..<m] ?t = Some t' \<and> length t' = length ?t \<and>
     (\<forall>j. tile_src_off (t' ! j) = tile_src_off (?t ! j) \<and> tile_src_size (t' ! j) = tile_src_size (?t ! j)) \<and>
     (\<forall>j. tile_dst_size (t' ! j) = (if Suc i \<le> j \<and> j < m then 65536 else tile_dst_size (?t ! j)))"
    using Suc.hyps(2) Suc.prems lt by (intro Suc.hyps(1)) auto
  then obtain t' where t': "tile_dst_sizes [Suc i..<m] ?t = Some t'" "length t' = length tiles"
     "\<forall>j. tile_src_off (t' ! j) = tile_src_off (?t ! j) \<and> tile_src_size (t' ! j) = tile_src_size (?t ! j)"
     "\<forall>j. tile_dst_size (t' ! j) = (if Suc i \<le> j \<and> j < m then 65536 else tile_dst_size (?t ! j))" by auto
  have "tile_src_off (?t ! j) = tile_src_off (tiles ! j)" "tile_src_size (?t ! j) = tile_src_size (tiles ! j)"
     "tile_dst_size (?t ! j) = (if j = i then 65536 else tile_dst_size (tiles ! j))" for j
    using lt Suc.prems(2) by (cases "j = i"; simp add: tile_consts)+
  then show ?case using t' lt Suc.prems(2) by (auto simp: upt_conv_Cons tile_consts)
qed

lemma toc_offset_less: "C \<le> 65535 \<Longrightarrow> toc_offset s C i < 4294967296"
  using unat_u32_less by (simp add: toc_offset_def)

definition toc_result :: "u8 list \<Rightarrow> nat \<Rightarrow> u64 \<Rightarrow> u64 \<Rightarrow> tile_stream_tile list \<times> tile_stream_info \<Rightarrow> bool" where
  "toc_result s n count ls r \<longleftrightarrow> toc_ok s n (unat count) \<and> unat count \<le> length (fst r) \<and>
     (\<forall>i<unat count. toc_tile s (unat count) (unat ls) i (fst r ! i)) \<and> tile_count (snd r) = count \<and>
     unat (total_uncompressed (snd r)) = (unat count - 1) * 65536 + (if ls = 0 then 65536 else unat ls)"

lemma tile_total:
  fixes count ls :: u64
  assumes "0 < unat count" "unat count \<le> 65535" "unat ls < 65536"
  shows "unat (let total = count * kTileStreamTileSize in
      if ls \<noteq> 0 then total - (kTileStreamTileSize - ls) else total) =
    (unat count - 1) * 65536 + (if ls = 0 then 65536 else unat ls)"
proof -
  obtain c where c: "unat count = Suc c" using assms(1) by (cases "unat count") simp_all
  have "count * 65536 = of_nat (unat count * 65536)" by simp
  also have "unat (of_nat (unat count * 65536) :: u64) = unat count * 65536" using assms(2) by (intro unat_of_nat_less) simp
  finally have m: "unat (count * 65536) = c * 65536 + 65536" by (simp only: c mult_Suc add.commute)
  have d: "unat (65536 - ls) = 65536 - unat ls" using assms(3) by (subst unat_minus) simp_all
  have "unat (count * 65536 - (65536 - ls)) = unat (count * 65536) - unat (65536 - ls)"
    by (rule unat_minus) (simp only: m d)
  also have "\<dots> = c * 65536 + unat ls" using assms(3) by (simp only: m d)
  finally have t: "unat (count * 65536 - (65536 - ls)) = c * 65536 + unat ls" .
  show ?thesis
  proof (cases "ls = 0")
    case True
    have "unat (count * 65536) = c * 65536 + 65536" using m by simp
    then show ?thesis using True c by (simp only: tile_consts Let_def True) simp
  next
    case False
    then have "unat (let total = count * 65536 in if ls \<noteq> 0 then total - (65536 - ls) else total) =
        unat (count * 65536 - (65536 - ls))" by (simp only: Let_def if_True not_False_eq_True)
    then show ?thesis using False by (simp only: tile_consts t c if_False diff_Suc_1)
  qed
qed

lemma tile_stream_table_contract:
  assumes n: "length s = unat n" and c: "0 < unat count" "unat count \<le> 65535" "unat count \<le> length tiles"
    and ls: "unat ls < 65536" and h: "8 \<le> unat n"
  shows "wp (tile_stream_table s n count ls tiles) (\<lambda>res. case res of
      Inl e \<Rightarrow> e = CUDEC_ERR_CORRUPT_INPUT \<and> \<not> toc_ok s (unat n) (unat count)
    | Inr r \<Rightarrow> toc_result s (unat n) count ls r)"
proof -
  define C where "C = unat count"
  define te :: u64 where "te = kTileStreamHeaderBytes + count * kTileStreamTocEntryBytes"
  have te: "unat te = 8 + 4 * C"
    using toc_index[of C] c(2) by (simp add: te_def C_def)
  have C: "0 < C" "C \<le> 65535" "C \<le> length tiles" using c by (simp_all add: C_def)
  show ?thesis
  proof (cases "n < te")
    case True
    then have "\<not> toc_ok s (unat n) C" using te by (simp add: toc_ok_def w2n)
    then show ?thesis using True by (simp add: tile_stream_table_def wp_rules te_def Let_def C_def)
  next
    case False
    then have len: "8 + 4 * C \<le> length s" using te n by (simp add: w2n not_less)
    have r8: "tile_stream_read32le s kTileStreamHeaderBytes = Some (le32 (drop 8 s))"
      using tile_read32[of kTileStreamHeaderBytes s] len C(1) by (simp add: tile_consts)
    show ?thesis
    proof (cases "le32 (drop 8 s) = 0")
      case True
      then have "\<not> toc_ok s (unat n) C" by (simp add: toc_ok_def)
      then show ?thesis using \<open>\<not> n < te\<close> True r8
        by (simp add: tile_stream_table_def wp_rules te_def Let_def C_def)
    next
      case nz: False
      define W where "W = le32 (drop 8 s)"
      have W: "0 < unat W" using nz by (simp add: W_def unat_gt_0)
      have nzu: "ucast (le32 (drop 8 s)) \<noteq> (0 :: u64)"
      proof
        assume "ucast (le32 (drop 8 s)) = (0 :: u64)"
        then have "unat (ucast (le32 (drop 8 s)) :: u64) = 0" by simp
        then show False using W by (simp add: W_def)
      qed
      have eq: "tile_stream_table s n count ls tiles = do {
          chain \<leftarrow> tile_offsets s [1..<C] te tiles;
          case chain of
            Inl e \<Rightarrow> Some (Inl e)
          | Inr tiles \<Rightarrow> do {
             tiles \<leftarrow> upd_tile tiles 0 (tile_src_off_update (\<lambda>_. te));
             tiles \<leftarrow> tile_sizes [0..<C - 1] tiles;
             tiles \<leftarrow> upd_tile tiles (C - 1) (tile_src_size_update (\<lambda>_. ucast W));
             t \<leftarrow> at tiles (C - 1);
             if tile_src_off t + tile_src_size t > n then Some (Inl CUDEC_ERR_CORRUPT_INPUT)
             else do {
               tiles \<leftarrow> tile_dst_sizes [0..<C - 1] tiles;
               tiles \<leftarrow> upd_tile tiles (C - 1) (tile_dst_size_update
                 (\<lambda>_. if ls = 0 then kTileStreamTileSize else ls));
               Some (Inr (tiles, \<lparr>tile_count = count, total_uncompressed =
                 (let total = count * kTileStreamTileSize in
                   if ls \<noteq> 0 then total - (kTileStreamTileSize - ls) else total)\<rparr>))
             }
           } }"
        unfolding tile_stream_table_def Let_def te_def[symmetric] C_def[symmetric]
        using \<open>\<not> n < te\<close> nzu by (simp only: r8 bind.bind_lunit W_def if_False not_False_eq_True)
      have o0: "toc_offset s C 0 = unat te" using te by (simp add: toc_offset_def)
      show ?thesis
        unfolding eq
      proof (rule wp_bind_sum[OF tile_offsets_contract[OF len C(2) _ _ C(3)]], goal_cases)
        case (4 e)
        then show ?case by (auto simp: wp_rules toc_ok_def C_def[symmetric] not_le)
      next
        case (5 t1)
        then have t1: "length t1 = length tiles" and ch: "\<forall>j. j + 1 < C \<longrightarrow> toc_offset s C j < toc_offset s C (j + 1)"
          and of: "\<And>j. 1 \<le> j \<Longrightarrow> j < C \<Longrightarrow> unat (tile_src_off (t1 ! j)) = toc_offset s C j" by auto
        define t2 where "t2 = t1[0 := tile_src_off_update (\<lambda>_. te) (t1 ! 0)]"
        have t2l: "length t2 = length tiles" using t1 by (simp add: t2_def)
        have t2o: "unat (tile_src_off (t2 ! j)) = toc_offset s C j" if "j < C" for j
        proof (cases "j = 0")
          case True
          moreover have "t1 \<noteq> []" using t1 C by auto
          ultimately show ?thesis using o0 by (simp add: t2_def)
        next
          case False
          then show ?thesis using of[of j] that by (simp add: t2_def)
        qed
        note t2 = t2l t2o
        have m1: "C - 1 < length tiles" using C by simp
        obtain t3 where t3: "tile_sizes [0..<C - 1] t2 = Some t3" "length t3 = length t2"
            "\<And>j. tile_src_off (t3 ! j) = tile_src_off (t2 ! j)"
            "\<And>j. j < C - 1 \<Longrightarrow> tile_src_size (t3 ! j) = tile_src_off (t2 ! (j + 1)) - tile_src_off (t2 ! j)"
          using tile_sizes_eq[of 0 "C - 1" t2] m1 t2l by auto
        define t4 where "t4 = t3[C - 1 := tile_src_size_update (\<lambda>_. ucast W) (t3 ! (C - 1))]"
        have t4: "length t4 = length tiles" "\<And>j. j < C \<Longrightarrow> unat (tile_src_off (t4 ! j)) = toc_offset s C j"
            "tile_src_size (t4 ! (C - 1)) = ucast W"
          using t2 t3 C by (auto simp: t4_def nth_list_update)
        have sz: "unat (tile_src_off (t4 ! j)) + unat (tile_src_size (t4 ! j)) = toc_offset s C (j + 1)" if "j + 1 < C" for j
        proof -
          have "tile_src_size (t4 ! j) = tile_src_off (t2 ! (j + 1)) - tile_src_off (t2 ! j)"
            using that t3 by (simp add: t4_def)
          moreover have "unat (tile_src_off (t2 ! (j + 1)) - tile_src_off (t2 ! j)) =
              toc_offset s C (j + 1) - toc_offset s C j"
            using t2(2)[of j] t2(2)[of "j + 1"] ch that less_imp_le by (subst unat_minus) auto
          ultimately show ?thesis using t4(2)[of j] ch that less_imp_le by auto
        qed
        define e where "e = tile_src_off (t4 ! (C - 1)) + tile_src_size (t4 ! (C - 1))"
        have e: "unat e = toc_offset s C (C - 1) + unat W"
          using t4(2)[of "C - 1"] t4(3) C(1) toc_offset_less[OF C(2), of s "C - 1"] unat_u32_less[of W]
          by (simp add: e_def unat_plus)
        obtain t5 where t5: "tile_dst_sizes [0..<C - 1] t4 = Some t5" "length t5 = length t4"
           "\<And>j. tile_src_off (t5 ! j) = tile_src_off (t4 ! j)" "\<And>j. tile_src_size (t5 ! j) = tile_src_size (t4 ! j)"
           "\<And>j. j < C - 1 \<Longrightarrow> tile_dst_size (t5 ! j) = 65536"
          using tile_dst_sizes_eq[of 0 "C - 1" t4] t4(1) m1 by auto
        define t6 where "t6 = t5[C - 1 := tile_dst_size_update (\<lambda>_. if ls = 0 then kTileStreamTileSize else ls) (t5 ! (C - 1))]"
        have res: "toc_result s (unat n) count ls (t6, \<lparr>tile_count = count, total_uncompressed = (let total = count * kTileStreamTileSize in
            if ls \<noteq> 0 then total - (kTileStreamTileSize - ls) else total)\<rparr>)" if "\<not> e > n"
        proof -
          have "toc_tile s C (unat ls) i (t6 ! i)" if "i < C" for i
          proof (cases "i = C - 1")
            case True
            then show ?thesis using t4 t5 C e e_def W_def
              by (auto simp: toc_tile_def t6_def tile_consts unat_eq_0)
          next
            case False
            then have "i + 1 < C" using that by simp
            then show ?thesis using sz[of i] t4(2)[of i] t5 by (simp add: toc_tile_def t6_def)
          qed
          moreover have "toc_ok s (unat n) C"
            using len n W ch e that by (auto simp: toc_ok_def W_def w2n not_less)
          ultimately show ?thesis using tile_total[OF c(1,2) ls] t4 t5 C
            by (simp add: toc_result_def C_def[symmetric] t6_def)
        qed
        have no: "\<not> toc_ok s (unat n) C" if "e > n"
          using that e by (auto simp: toc_ok_def W_def w2n)
        have u0: "upd_tile t1 0 f = Some (t1[0 := f (t1 ! 0)])" for f by (rule upd_tile) (use t1 C in linarith)
        have u3: "upd_tile t3 (C - 1) f = Some (t3[C - 1 := f (t3 ! (C - 1))])" for f by (rule upd_tile) (use t2l t3(2) m1 in linarith)
        have a4: "at t4 (C - 1) = Some (t4 ! (C - 1))" by (rule at_Some) (use t4(1) m1 in linarith)
        have u5: "upd_tile t5 (C - 1) f = Some (t5[C - 1 := f (t5 ! (C - 1))])" for f by (rule upd_tile) (use t4(1) t5(2) m1 in linarith)
        show ?case
          unfolding u0 bind.bind_lunit t2_def[symmetric] t3(1) u3 t4_def[symmetric] a4 e_def[symmetric] t5(1) u5 t6_def[symmetric]
          using res no by (simp add: wp_rules C_def)
      qed (use C o0 in simp_all)
    qed
  qed
qed

text \<open>The header the parser accepts, and the count it declares.\<close>

definition toc_count :: "u8 list \<Rightarrow> nat" where
  "toc_count s = le_nat (take 2 (drop 2 s))"

definition toc_packed :: "u8 list \<Rightarrow> nat" where
  "toc_packed s = unat (le32 (drop 4 s))"

definition toc_header :: "u8 list \<Rightarrow> bool" where
  "toc_header s \<longleftrightarrow> 8 \<le> length s \<and> s ! 0 = s ! 1 XOR 0xFF \<and> 0 < toc_count s \<and>
     toc_packed s mod 4 = 1 \<and> toc_packed s div 4 < 65536"

definition toc_describes :: "u8 list \<Rightarrow> tile_stream_tile list \<times> tile_stream_info \<Rightarrow> bool" where
  "toc_describes s r \<longleftrightarrow> toc_header s \<and> toc_ok s (length s) (toc_count s) \<and> toc_count s \<le> length (fst r) \<and>
     (\<forall>i<toc_count s. toc_tile s (toc_count s) (toc_packed s div 4) i (fst r ! i)) \<and>
     unat (tile_count (snd r)) = toc_count s \<and>
     unat (total_uncompressed (snd r)) =
       (toc_count s - 1) * 65536 + (if toc_packed s div 4 = 0 then 65536 else toc_packed s div 4)"

lemma take2: "p + 2 \<le> length xs \<Longrightarrow> take 2 (drop p xs) = [xs ! p, xs ! (p + 1)]"
  by (simp add: numeral_2_eq_2 take_Suc_conv_app_nth)

lemma tile_read16: "4 \<le> length s \<Longrightarrow> \<exists>c. tile_stream_read16le s 2 = Some c \<and> unat c = toc_count s"
  using take2[of 2 s] by (auto simp: tile_stream_read16le_def rd_def toc_count_def unat_byte_pair)

lemma mask_fields: "(3::u32) = mask 2" "(0x3FFFF::u32) = mask 18" "(0xFFF::u32) = mask 12"
  by (simp_all add: mask_eq_decr_exp)

lemma packed_fields:
  fixes w :: u32
  shows "unat (w AND 0x3) = unat w mod 4" "unat (drop_bit 2 w AND 0x3FFFF) = unat w div 4 mod 262144"
    "unat (drop_bit 20 w AND 0xFFF) = unat w div 1048576 mod 4096"
  by (simp_all add: mask_fields unat_and_mask unat_drop_bit)

lemma tile_stream_parse_contract:
  assumes n: "length s = unat n" and cap: "unat cap \<le> length tiles"
  shows "wp (tile_stream_parse (Some s) n (Some tiles) cap False) (\<lambda>res. case res of
      Inl e \<Rightarrow> if toc_header s \<and> unat cap < toc_count s then e = CUDEC_ERR_INVALID_ARGUMENT
        else e = CUDEC_ERR_CORRUPT_INPUT \<and> \<not> (toc_header s \<and> toc_ok s (length s) (toc_count s))
    | Inr r \<Rightarrow> toc_count s \<le> unat cap \<and> toc_describes s r)"
proof (cases "n < kTileStreamHeaderBytes")
  case True
  then have "\<not> toc_header s" using n by (simp add: toc_header_def tile_consts w2n)
  then show ?thesis using True by (simp add: tile_stream_parse_def wp_rules)
next
  case False
  then have h8: "8 \<le> unat n" by (simp add: tile_consts w2n not_less)
  obtain c where c: "tile_stream_read16le s 2 = Some c" "unat c = toc_count s" using tile_read16[of s] h8 n by auto
  have rd0: "rd s 0 = Some (s ! 0)" and rd1: "rd s 1 = Some (s ! 1)" using h8 n by (simp_all add: rd_def)
  define w where "w = le32 (drop 4 s)"
  have w: "tile_stream_read32le s 4 = Some w" using tile_read32[of 4 s] h8 n by (simp add: w_def)
  have pk: "toc_packed s = unat w" by (simp add: toc_packed_def w_def)
  define idx res where "idx = w AND 0x3" and "res = drop_bit 20 w AND 0xFFF"
  define ls :: u64 where "ls = ucast (drop_bit 2 w AND 0x3FFFF)"
  have uls: "unat ls = unat w div 4 mod 262144" by (simp add: ls_def packed_fields)
  have hd: "toc_header s \<longleftrightarrow> s ! 0 = s ! 1 XOR 0xFF \<and> 0 < toc_count s \<and> idx = 1 \<and> res = 0 \<and> unat ls < 65536"
  proof -
    have "idx = 1 \<longleftrightarrow> unat w mod 4 = 1" by (simp add: word_unat_eq_iff idx_def packed_fields)
    moreover have "res = 0 \<and> unat ls < 65536 \<longleftrightarrow> unat w div 4 < 65536"
    proof -
      have "unat w div 1048576 = unat w div 4 div 262144" by (simp add: div_mult2_eq[symmetric])
      moreover have "unat w div 1048576 < 4096" using unat_u32_less[of w] by (intro less_mult_imp_div_less) simp
      ultimately have "unat res = unat w div 4 div 262144" by (simp add: res_def packed_fields)
      then have "res = 0 \<longleftrightarrow> unat w div 4 < 262144" by (simp add: word_unat_eq_iff div_eq_0_iff)
      then show ?thesis by (auto simp: uls)
    qed
    ultimately show ?thesis using h8 n by (auto simp: toc_header_def pk)
  qed
  have lsd: "toc_header s \<Longrightarrow> unat ls = toc_packed s div 4"
    by (simp add: toc_header_def pk uls)
  have uc: "unat (ucast c :: u64) = toc_count s" using c(2) by (simp add: unat_ucast_le)
  have c0: "(ucast c :: u64) = 0 \<longleftrightarrow> toc_count s = 0" by (metis uc unat_eq_zero)
  show ?thesis
  proof (cases "toc_header s")
    case no: False
    have "tile_stream_parse (Some s) n (Some tiles) cap False = Some (Inl CUDEC_ERR_CORRUPT_INPUT)"
      using no False unfolding hd
      by (auto simp: tile_stream_parse_def rd0 rd1 c w c0 Let_def idx_def[symmetric] res_def[symmetric] ls_def[symmetric]
          kTileStreamTileSizeIdx64K_def kTileStreamTileSize_def w2n)
    then show ?thesis using no by (simp add: wp_rules)
  next
    case yes: True
    then have y: "s ! 0 = s ! 1 XOR 0xFF" "0 < toc_count s" "idx = 1" "res = 0" "unat ls < 65536" by (simp_all add: hd)
    have eq: "tile_stream_parse (Some s) n (Some tiles) cap False =
        (if cap < ucast c then Some (Inl CUDEC_ERR_INVALID_ARGUMENT) else tile_stream_table s n (ucast c) ls tiles)"
      using y False
      by (simp add: tile_stream_parse_def rd0 rd1 c w c0 Let_def idx_def[symmetric] res_def[symmetric] ls_def[symmetric]
          kTileStreamTileSizeIdx64K_def kTileStreamTileSize_def w2n)
    show ?thesis
    proof (cases "cap < ucast c")
      case True
      then show ?thesis using yes by (simp add: eq wp_rules w2n uc)
    next
      case ge: False
      then have ge: "toc_count s \<le> unat cap" by (simp add: w2n uc not_less)
      have le: "toc_count s \<le> 65535" using unat_less_exp[of c] c(2) by simp
      have "wp (tile_stream_table s n (ucast c) ls tiles) (\<lambda>res. case res of
          Inl e \<Rightarrow> e = CUDEC_ERR_CORRUPT_INPUT \<and> \<not> toc_ok s (unat n) (unat (ucast c :: u64))
        | Inr r \<Rightarrow> toc_result s (unat n) (ucast c) ls r)"
        using n y ge le cap h8 by (intro tile_stream_table_contract) (simp_all add: uc)
      moreover have "tile_stream_parse (Some s) n (Some tiles) cap False = tile_stream_table s n (ucast c) ls tiles"
        using eq ge by (simp add: w2n uc)
      moreover have "ls = 0 \<longleftrightarrow> toc_packed s div 4 = 0" using lsd[OF yes] by (metis unat_eq_zero)
      ultimately show ?thesis
        using yes ge n lsd by (auto intro!: wp_mono[of _ _ "case_sum _ _"] elim: wp_mono
            simp: toc_result_def toc_describes_def uc split: sum.splits)
    qed
  qed
qed

section \<open>What every accepted table gives, and the container's encoder\<close>

lemma toc_increasing:
  assumes "toc_ok s n C" "i \<le> j" "j < C"
  shows "toc_offset s C i \<le> toc_offset s C j"
  using assms(2,3)
proof (induction j rule: dec_induct)
  case (step j)
  moreover have "toc_offset s C j < toc_offset s C (j + 1)" using assms(1) step by (simp add: toc_ok_def)
  ultimately show ?case by simp
qed simp

lemma toc_tile_inside:
  assumes ok: "toc_ok s n C" and t: "toc_tile s C ls i t" and i: "i < C"
  shows "0 < unat (tile_src_size t)" "8 + 4 * C \<le> unat (tile_src_off t)"
    "unat (tile_src_off t) + unat (tile_src_size t) \<le> n"
proof -
  show "8 + 4 * C \<le> unat (tile_src_off t)"
    using toc_increasing[OF ok, of 0 i] i t by (simp add: toc_tile_def toc_offset_def)
  show "0 < unat (tile_src_size t)"
    using t ok by (auto simp: toc_tile_def toc_ok_def split: if_splits)
  show "unat (tile_src_off t) + unat (tile_src_size t) \<le> n"
  proof (cases "i + 1 < C")
    case True
    then have "toc_offset s C (i + 1) \<le> toc_offset s C (C - 1)" by (intro toc_increasing[OF ok]) simp_all
    moreover have "toc_offset s C (C - 1) \<le> n" using ok by (simp add: toc_ok_def)
    ultimately show ?thesis using t True by (simp add: toc_tile_def)
  next
    case False
    then have "i = C - 1" using i by simp
    then show ?thesis using t ok False by (simp add: toc_tile_def toc_ok_def)
  qed
qed

lemma toc_total:
  assumes "toc_describes s (tiles, info)"
  shows "unat (total_uncompressed info) = (\<Sum>i<toc_count s. unat (tile_dst_size (tiles ! i)))"
proof -
  obtain c where c: "toc_count s = Suc c" using assms by (cases "toc_count s") (simp_all add: toc_describes_def toc_header_def)
  have t: "toc_tile s (Suc c) (toc_packed s div 4) i (tiles ! i)" if "i < Suc c" for i
    using assms c that by (simp add: toc_describes_def)
  have "(\<Sum>i<c. unat (tile_dst_size (tiles ! i))) = (\<Sum>i<c. 65536)"
    using t by (intro sum.cong) (simp_all add: toc_tile_def)
  moreover have "unat (tile_dst_size (tiles ! c)) = (if toc_packed s div 4 = 0 then 65536 else toc_packed s div 4)"
    using t[of c] by (simp add: toc_tile_def)
  ultimately show ?thesis using assms c by (simp add: toc_describes_def)
qed

definition tile_entries :: "u8 list list \<Rightarrow> nat list" where
  "tile_entries pages = length (pages ! (length pages - 1)) #
     map (\<lambda>i. 8 + 4 * length pages + length (concat (take i pages))) [1..<length pages]"

definition tile_envelope :: "u8 list list \<Rightarrow> nat \<Rightarrow> u8 list" where
  "tile_envelope pages last_bytes = [4, 251] @ le_bytes 2 (length pages) @ le_bytes 4 (1 + 4 * last_bytes) @
     concat (map (le_bytes 4) (tile_entries pages)) @ concat pages"

lemma length_entries [simp]: "pages \<noteq> [] \<Longrightarrow> length (tile_entries pages) = length pages"
proof -
  assume "pages \<noteq> []"
  then have "0 < length pages" by simp
  then show ?thesis unfolding tile_entries_def by (simp del: length_greater_0_conv)
qed

lemma drop_words: "i \<le> length xs \<Longrightarrow> drop (4 * i) (concat (map (le_bytes 4) xs) @ ys) = concat (map (le_bytes 4) (drop i xs)) @ ys"
proof (induction i arbitrary: xs)
  case (Suc i)
  then obtain x xs' where xs: "xs = x # xs'" by (cases xs) auto
  have "drop (4 * Suc i) (concat (map (le_bytes 4) xs) @ ys) =
      drop (4 * i) (drop 4 (le_bytes 4 x @ concat (map (le_bytes 4) xs') @ ys))" by (simp add: xs ac_simps)
  also have "\<dots> = drop (4 * i) (concat (map (le_bytes 4) xs') @ ys)" by (simp del: le_bytes.simps)
  finally show ?case using Suc xs by simp
qed simp

lemma length_words [simp]: "length (concat (map (le_bytes 4) xs)) = 4 * length xs"
  by (induction xs) simp_all

lemma envelope_length: "pages \<noteq> [] \<Longrightarrow> length (tile_envelope pages ls) = 8 + 4 * length pages + length (concat pages)"
  by (simp add: tile_envelope_def)

lemma envelope_entry:
  assumes "i < length pages" "\<forall>x\<in>set (tile_entries pages). x < 2 ^ 32"
  shows "unat (le32 (drop (8 + 4 * i) (tile_envelope pages ls))) = tile_entries pages ! i"
proof -
  have ne: "pages \<noteq> []" using assms(1) by auto
  let ?e = "tile_entries pages"
  have "drop (8 + 4 * i) (tile_envelope pages ls) = drop (4 * i) (concat (map (le_bytes 4) ?e) @ concat pages)"
    by (simp add: tile_envelope_def add.commute[of 8] flip: drop_drop)
  also have "\<dots> = le_bytes 4 (?e ! i) @ concat (map (le_bytes 4) (drop (Suc i) ?e)) @ concat pages"
    using assms(1) ne by (subst drop_words) (simp_all add: Cons_nth_drop_Suc[symmetric] del: le_bytes.simps)
  finally have "take 4 (drop (8 + 4 * i) (tile_envelope pages ls)) = le_bytes 4 (?e ! i)" by simp
  moreover have "?e ! i < 256 ^ 4" using assms ne by simp
  ultimately show ?thesis by (simp add: le32_value le_nat_le_bytes del: le_bytes.simps)
qed

lemma nth_entries: "pages \<noteq> [] \<Longrightarrow> 0 < i \<Longrightarrow> i < length pages \<Longrightarrow>
    tile_entries pages ! i = 8 + 4 * length pages + length (concat (take i pages))"
  by (cases i) (simp_all add: tile_entries_def)

lemma concat_take_page: "i < length pages \<Longrightarrow>
    concat pages = concat (take i pages) @ pages ! i @ concat (drop (Suc i) pages)"
  by (metis append_assoc concat.simps(2) concat_append id_take_nth_drop)

lemma envelope_toc:
  assumes pages: "pages \<noteq> []" "length pages \<le> 65535" "\<forall>p\<in>set pages. p \<noteq> []"
    and short: "8 + 4 * length pages + length (concat pages) < 2 ^ 32" and ls: "ls < 65536"
  defines "s \<equiv> tile_envelope pages ls" and "C \<equiv> length pages"
  shows "toc_header s" "toc_count s = C" "toc_packed s div 4 = ls" "toc_ok s (length s) C"
    "\<And>i. i < C \<Longrightarrow> toc_offset s C i = 8 + 4 * C + length (concat (take i pages))"
    "unat (le32 (drop 8 s)) = length (pages ! (C - 1))"
proof -
  have small: "x < 2 ^ 32" if "x \<in> set (tile_entries pages)" for x
  proof -
    have le: "length (concat (take i pages)) \<le> length (concat pages)" for i
      by (metis append_take_drop_id concat_append length_append le_add1)
    have "length (pages ! (length pages - 1)) \<le> length (concat pages)"
      using pages(1) concat_take_page[of "length pages - 1" pages] by simp
    then have "length (pages ! (length pages - 1)) < 2 ^ 32" using short by linarith
    moreover have "8 + 4 * length pages + length (concat (take i pages)) < 2 ^ 32" for i
      using le[of i] short by linarith
    ultimately show ?thesis using that unfolding tile_entries_def by (auto simp del: power_numeral)
  qed
  have C0: "0 < C" using pages(1) by (simp add: C_def)
  show cnt: "toc_count s = C"
    using pages(2) by (simp add: toc_count_def s_def tile_envelope_def le_nat_le_bytes C_def del: le_bytes.simps)
  have "take 4 (drop 4 s) = le_bytes 4 (1 + 4 * ls)" by (simp add: s_def tile_envelope_def del: le_bytes.simps)
  then have pk: "toc_packed s = 1 + 4 * ls"
    using ls by (simp add: toc_packed_def le32_value le_nat_le_bytes del: le_bytes.simps)
  show "toc_packed s div 4 = ls" by (simp add: pk)
  show "toc_header s"
    using pk ls cnt C0 envelope_length[OF pages(1), of ls]
    by (simp add: toc_header_def s_def) (simp add: tile_envelope_def mod_mult_self2)
  show off: "toc_offset s C i = 8 + 4 * C + length (concat (take i pages))" if "i < C" for i
    using that envelope_entry[of i pages ls] small nth_entries[OF pages(1), of i]
    by (cases "i = 0") (simp_all add: toc_offset_def C_def s_def)
  show w: "unat (le32 (drop 8 s)) = length (pages ! (C - 1))"
  proof -
    have "unat (le32 (drop 8 s)) = tile_entries pages ! 0"
      using envelope_entry[of 0 pages ls] small C0 by (simp add: C_def s_def)
    then show ?thesis by (simp add: tile_entries_def C_def)
  qed
  have "toc_offset s C i < toc_offset s C (i + 1)" if "i + 1 < C" for i
    using that off[of i] off[of "i + 1"] pages(3) by (simp add: take_Suc_conv_app_nth C_def)
  moreover have "toc_offset s C (C - 1) + unat (le32 (drop 8 s)) = length s"
    using off[of "C - 1"] C0 w concat_take_page[of "C - 1" pages] envelope_length[OF pages(1), of ls]
    by (simp add: C_def s_def)
  moreover have "0 < unat (le32 (drop 8 s))" using w pages(3) C0 by (simp add: C_def)
  moreover have "8 + 4 * C \<le> length s" using envelope_length[OF pages(1), of ls] by (simp add: C_def s_def)
  ultimately show "toc_ok s (length s) C" by (simp add: toc_ok_def)
qed

lemma envelope_parses:
  assumes pages: "pages \<noteq> []" "length pages \<le> 65535" "\<forall>p\<in>set pages. p \<noteq> []"
    and short: "8 + 4 * length pages + length (concat pages) < 2 ^ 32" and ls: "ls < 65536"
    and cap: "length pages \<le> unat cap" "unat cap \<le> length tiles" and n: "unat n = length (tile_envelope pages ls)"
  shows "\<exists>tiles' info. tile_stream_parse (Some (tile_envelope pages ls)) n (Some tiles) cap False = Some (Inr (tiles', info)) \<and>
     unat (tile_count info) = length pages \<and> toc_describes (tile_envelope pages ls) (tiles', info) \<and>
     (\<forall>i<length pages. take (unat (tile_src_size (tiles' ! i))) (drop (unat (tile_src_off (tiles' ! i))) (tile_envelope pages ls)) = pages ! i)"
proof -
  let ?s = "tile_envelope pages ls" and ?C = "length pages"
  note toc = envelope_toc[OF pages short ls]
  have "wp (tile_stream_parse (Some ?s) n (Some tiles) cap False) (\<lambda>res. case res of Inl e \<Rightarrow> False | Inr r \<Rightarrow> toc_describes ?s r)"
    by (rule wp_mono[OF tile_stream_parse_contract[OF _ cap(2)]]) (use toc(1,2,4) cap n in \<open>auto split: sum.splits if_splits\<close>)
  then obtain r where r: "tile_stream_parse (Some ?s) n (Some tiles) cap False = Some (Inr r)" "toc_describes ?s r"
    using wp_InrD by blast
  have "take (unat (tile_src_size t)) (drop (unat (tile_src_off t)) ?s) = pages ! i"
    if i: "i < ?C" and t: "toc_tile ?s ?C ls i t" for i t
  proof -
    have o: "unat (tile_src_off t) = 8 + 4 * ?C + length (concat (take i pages))"
      using toc(5)[OF i] t by (simp add: toc_tile_def)
    have z: "unat (tile_src_size t) = length (pages ! i)"
    proof (cases "i + 1 < ?C")
      case True
      then show ?thesis using t toc(5)[OF i] toc(5)[OF True] by (simp add: toc_tile_def take_Suc_conv_app_nth)
    next
      case False
      then have "i = ?C - 1" using i by simp
      then show ?thesis using t toc(5)[OF i] toc(6) False by (simp add: toc_tile_def)
    qed
    have "length ([4, 251] @ le_bytes 2 ?C @ le_bytes 4 (1 + 4 * ls) @ concat (map (le_bytes 4) (tile_entries pages))) = 8 + 4 * ?C"
      using pages(1) by (simp del: le_bytes.simps)
    then have "drop (8 + 4 * ?C) ?s = concat pages" unfolding tile_envelope_def
      by (metis append.assoc append_eq_conv_conj)
    then have "drop (unat (tile_src_off t)) ?s = drop (length (concat (take i pages))) (concat pages)"
      unfolding o by (simp add: add.commute[of "8 + 4 * ?C"] flip: drop_drop)
    also have "\<dots> = pages ! i @ concat (drop (Suc i) pages)" by (subst concat_take_page[OF i]) simp
    finally show ?thesis by (simp add: z)
  qed
  then show ?thesis using r toc(2,3) by (cases r) (simp add: toc_describes_def)
qed

end
