(* ===== verification/Stream_Ctx.thy ===== *)
theory Stream_Ctx
  imports Device
begin

text \<open>
  The reusable streaming context, \<open>src/stream.cpp\<close>: the wave sizing, the grow-only staging, the
  wave loop around a batch entry, the drain, and what is reported. Every call of the device runtime
  is a constructor of \<open>stream_call\<close>, and \<open>rt\<close> says which of them succeed; a transfer that
  fails is taken to have moved nothing. Transfers of the one stream take effect in their order. The
  contents of the staging at the start of a call are arbitrary (\<open>junk\<close>, \<open>stale\<close>). An
  argument array the code tests for null is an option, and so is each pointer in it.
\<close>

definition kWaveStagingBudget :: u64 where "kWaveStagingBudget = push_bit 20 384"
definition kWaveChunksMax :: u64 where "kWaveChunksMax = 4096"

datatype mem_space = CUDEC_MEM_HOST | CUDEC_MEM_DEVICE | CUDEC_MEM_OTHER int

datatype stream_call =
    Ensure_p_src | Ensure_d_src | Ensure_p_meta | Ensure_d_meta | Ensure_d_dst
  | Ensure_d_results | Ensure_p_results
  | Reuse_gate nat | Upload_src nat | Upload_meta nat | Record_reuse nat | Read_results nat
  | Sync_wave nat | Copy_out nat | Final_sync | Last_error
  | New_ctx | Create_stream | Create_event

section \<open>The size of a wave\<close>

definition meta_stride :: "u64 \<Rightarrow> u64" where
  "meta_stride wave_chunks = wave_chunks * 8"

fun wave_largest :: "u64 list \<Rightarrow> u64 list \<Rightarrow> bool \<Rightarrow> nat list \<Rightarrow> u64 \<Rightarrow> u64 option" where
  "wave_largest sizes caps host_out [] per_chunk_max = Some per_chunk_max"
| "wave_largest sizes caps host_out (i # is) per_chunk_max = do {
     bytes \<leftarrow> at sizes i;
     bytes \<leftarrow> (if host_out then do {
         cap \<leftarrow> at caps i;
         Some (if - 1 - bytes < cap then - 1 else bytes + cap)
       } else Some bytes);
     wave_largest sizes caps host_out is (if bytes > per_chunk_max then bytes else per_chunk_max)
   }"

definition choose_wave_chunks :: "u64 list \<Rightarrow> u64 list \<Rightarrow> u64 \<Rightarrow> bool \<Rightarrow> u64 option" where
  "choose_wave_chunks sizes caps chunk_count host_out = do {
     per_chunk_max \<leftarrow> wave_largest sizes caps host_out [0..<unat chunk_count] 1;
     let wave = kWaveStagingBudget div per_chunk_max;
     let wave = (if wave = 0 then 1 else wave);
     let wave = (if wave > kWaveChunksMax then kWaveChunksMax else wave);
     Some (if wave > chunk_count then chunk_count else wave)
   }"

definition mul_overflows :: "u64 \<Rightarrow> u64 \<Rightarrow> bool" where
  "mul_overflows a b \<longleftrightarrow> a \<noteq> 0 \<and> b > - 1 div a"

section \<open>The context and the arguments\<close>

record stream_ctx =
  p_src :: dev_buf
  d_src :: dev_buf
  p_meta :: dev_buf
  d_meta :: dev_buf
  d_dst :: dev_buf
  d_results :: dev_buf
  p_results :: dev_buf
  poisoned :: bool

definition fresh_ctx :: stream_ctx where
  "fresh_ctx = \<lparr>p_src = empty_buf, d_src = empty_buf, p_meta = empty_buf, d_meta = empty_buf,
     d_dst = empty_buf, d_results = empty_buf, p_results = empty_buf, poisoned = False\<rparr>"

text \<open>The destinations and the results are written, so they are passed beside the record.\<close>

record stream_args =
  h_srcs :: "u8 list option list option"
  h_sizes :: "u64 list option"
  dst_caps :: "u64 list option"
  chunk_count :: u64
  dst_space :: mem_space

fun bad_pointer :: "'a option list \<Rightarrow> u64 list \<Rightarrow> nat list \<Rightarrow> bool option" where
  "bad_pointer ptrs sizes [] = Some False"
| "bad_pointer ptrs sizes (i # is) = do {
     p \<leftarrow> at ptrs i; n \<leftarrow> at sizes i;
     if p = None \<and> n \<noteq> 0 then Some True else bad_pointer ptrs sizes is
   }"

text \<open>
  The two tests of the code's loop on the pointers run one after the other here; either finds a
  bad pointer with the same answer.
\<close>

definition validate_stream_args ::
    "stream_args \<Rightarrow> u8 list option list option \<Rightarrow> chunk_result list option \<Rightarrow> cudec_status option" where
  "validate_stream_args a dsts results =
     (case (h_srcs a, h_sizes a, dsts, dst_caps a, results) of
        (Some srcs, Some sizes, Some ds, Some caps, Some _) \<Rightarrow>
          if chunk_count a = 0 \<or> chunk_count a > kMaxBatchChunks \<or>
             (dst_space a \<noteq> CUDEC_MEM_HOST \<and> dst_space a \<noteq> CUDEC_MEM_DEVICE)
          then Some CUDEC_ERR_INVALID_ARGUMENT
          else do {
            bad_src \<leftarrow> bad_pointer srcs sizes [0..<unat (chunk_count a)];
            bad_dst \<leftarrow> bad_pointer ds caps [0..<unat (chunk_count a)];
            Some (if bad_src \<or> bad_dst then CUDEC_ERR_INVALID_ARGUMENT else CUDEC_OK)
          }
      | _ \<Rightarrow> Some CUDEC_ERR_INVALID_ARGUMENT)"

definition not_decoded :: "cudec_status \<Rightarrow> chunk_result" where
  "not_decoded st = \<lparr>chunk_status = st, reserved = 0, bytes_written = 0\<rparr>"

fun stamp_not_decoded :: "chunk_result list \<Rightarrow> nat list \<Rightarrow> cudec_status \<Rightarrow> chunk_result list option" where
  "stamp_not_decoded results [] st = Some results"
| "stamp_not_decoded results (i # is) st = do {
     results \<leftarrow> put results i (not_decoded st);
     stamp_not_decoded results is st
   }"

section \<open>The staging this call needs\<close>

definition wave_end :: "u64 \<Rightarrow> u64 \<Rightarrow> u64 \<Rightarrow> u64" where
  "wave_end wave_chunks n_chunks begin' =
     (if begin' + wave_chunks < n_chunks then begin' + wave_chunks else n_chunks)"

fun wave_sums :: "u64 list \<Rightarrow> u64 list \<Rightarrow> bool \<Rightarrow> nat list \<Rightarrow> u64 \<Rightarrow> u64 \<Rightarrow> (cudec_status + (u64 \<times> u64)) option" where
  "wave_sums sizes caps host_out [] wsrc wdst = Some (Inr (wsrc, wdst))"
| "wave_sums sizes caps host_out (i # is) wsrc wdst = do {
     n \<leftarrow> at sizes i;
     if - 1 - wsrc < n then Some (Inl CUDEC_ERR_CORRUPT_INPUT)
     else if host_out then do {
       cap \<leftarrow> at caps i;
       if - 1 - wdst < cap then Some (Inl CUDEC_ERR_CORRUPT_INPUT)
       else wave_sums sizes caps host_out is (wsrc + n) (wdst + cap)
     }
     else wave_sums sizes caps host_out is (wsrc + n) wdst
   }"

fun wave_maxima :: "u64 list \<Rightarrow> u64 list \<Rightarrow> bool \<Rightarrow> u64 \<Rightarrow> u64 \<Rightarrow> nat list \<Rightarrow> u64 \<Rightarrow> u64 \<Rightarrow> (cudec_status + (u64 \<times> u64)) option" where
  "wave_maxima sizes caps host_out wave_chunks n_chunks [] msrc mdst = Some (Inr (msrc, mdst))"
| "wave_maxima sizes caps host_out wave_chunks n_chunks (w # ws) msrc mdst = do {
     let begin' = of_nat w * wave_chunks;
     sums \<leftarrow> wave_sums sizes caps host_out [unat begin'..<unat (wave_end wave_chunks n_chunks begin')] 0 0;
     case sums of
       Inl e \<Rightarrow> Some (Inl e)
     | Inr (wsrc, wdst) \<Rightarrow>
         wave_maxima sizes caps host_out wave_chunks n_chunks ws
           (if wsrc > msrc then wsrc else msrc) (if wdst > mdst then wdst else mdst)
   }"

text \<open>Each grow either succeeds or poisons the context and stops.\<close>

fun grow_all :: "(bool \<times> u64 \<times> (stream_ctx \<Rightarrow> dev_buf) \<times> (dev_buf \<Rightarrow> stream_ctx \<Rightarrow> stream_ctx)) list \<Rightarrow>
    stream_ctx \<Rightarrow> bool \<times> stream_ctx" where
  "grow_all [] ctx = (True, ctx)"
| "grow_all ((ok, bytes, get, upd) # gs) ctx =
     (let (good, b) = dev_buf_ensure ok bytes (get ctx); ctx = upd b ctx
      in if good then grow_all gs ctx else (False, ctx\<lparr>poisoned := True\<rparr>))"

definition stream_grow :: "(stream_call \<Rightarrow> bool) \<Rightarrow> bool \<Rightarrow> u64 \<Rightarrow> u64 \<Rightarrow> u64 \<Rightarrow> u64 \<Rightarrow> stream_ctx \<Rightarrow> bool \<times> stream_ctx" where
  "stream_grow rt host_out max_wave_src max_wave_dst meta_bytes results_bytes ctx = grow_all
     ([(rt Ensure_p_src, max_wave_src, p_src, \<lambda>b. p_src_update (\<lambda>_. b)),
       (rt Ensure_d_src, max_wave_src, d_src, \<lambda>b. d_src_update (\<lambda>_. b)),
       (rt Ensure_p_meta, meta_bytes, p_meta, \<lambda>b. p_meta_update (\<lambda>_. b)),
       (rt Ensure_d_meta, meta_bytes, d_meta, \<lambda>b. d_meta_update (\<lambda>_. b))] @
      (if host_out then [(rt Ensure_d_dst, max_wave_dst, d_dst, \<lambda>b. d_dst_update (\<lambda>_. b))] else []) @
      [(rt Ensure_d_results, results_bytes, d_results, \<lambda>b. d_results_update (\<lambda>_. b)),
       (rt Ensure_p_results, results_bytes, p_results, \<lambda>b. p_results_update (\<lambda>_. b))]) ctx"

section \<open>A wave\<close>

text \<open>
  The pinned source bytes and the four sections of the pinned metadata, filled entry by entry; a
  section has room for a wave's chunks. A destination pointer is an offset into the device staging
  or the caller's own buffer.
\<close>

datatype device_ptr = Staging u64 | Caller nat

record wave_stage =
  st_bytes :: "u8 list"
  st_src_off :: u64
  st_dst_off :: u64
  m_src :: "u64 list"
  m_ssz :: "u64 list"
  m_dst :: "device_ptr list"
  m_cap :: "u64 list"

fun stage_wave :: "bool \<Rightarrow> u64 \<Rightarrow> u8 list option list \<Rightarrow> u64 list \<Rightarrow> u64 list \<Rightarrow> nat list \<Rightarrow> wave_stage \<Rightarrow> wave_stage option" where
  "stage_wave host_out wave_chunks srcs sizes caps [] st = Some st"
| "stage_wave host_out wave_chunks srcs sizes caps (i # is) st = do {
     ssz \<leftarrow> at sizes i;
     bytes \<leftarrow> (if ssz \<noteq> 0 then do {
         p \<leftarrow> at srcs i; s \<leftarrow> p; x \<leftarrow> slice_at s 0 ssz;
         splice_at (st_bytes st) (st_src_off st) x
       } else Some (st_bytes st));
     cap \<leftarrow> at caps i;
     if length (m_src st) < unat wave_chunks
     then stage_wave host_out wave_chunks srcs sizes caps is
       \<lparr>st_bytes = bytes, st_src_off = st_src_off st + ssz,
        st_dst_off = (if host_out then st_dst_off st + cap else st_dst_off st),
        m_src = m_src st @ [st_src_off st], m_ssz = m_ssz st @ [ssz],
        m_dst = m_dst st @ [if host_out then Staging (st_dst_off st) else Caller i],
        m_cap = m_cap st @ [cap]\<rparr>
     else None
   }"

text \<open>The destinations a kernel sees through the metadata, and its writes.\<close>

fun load_dsts :: "u8 list \<Rightarrow> u8 list option list \<Rightarrow> device_ptr list \<Rightarrow> u64 list \<Rightarrow> u8 list list option" where
  "load_dsts dev dsts (p # ps) (cap # caps) = do {
     x \<leftarrow> (case p of
         Staging off \<Rightarrow> slice_at dev off cap
       | Caller i \<Rightarrow> do { q \<leftarrow> at dsts i; case q of None \<Rightarrow> slice_at [] 0 cap | Some d \<Rightarrow> slice_at d 0 cap });
     xs \<leftarrow> load_dsts dev dsts ps caps;
     Some (x # xs)
   }"
| "load_dsts dev dsts _ _ = Some []"

fun store_dsts :: "u8 list \<times> u8 list option list \<Rightarrow> device_ptr list \<Rightarrow> u8 list list \<Rightarrow> (u8 list \<times> u8 list option list) option" where
  "store_dsts (dev, dsts) (p # ps) (x # xs) = do {
     st \<leftarrow> (case p of
         Staging off \<Rightarrow> do { dev \<leftarrow> splice_at dev off x; Some (dev, dsts) }
       | Caller i \<Rightarrow> do {
           q \<leftarrow> at dsts i;
           case q of
             None \<Rightarrow> if x = [] then Some (dev, dsts) else None
           | Some d \<Rightarrow> do { d \<leftarrow> splice_at d 0 x; dsts \<leftarrow> put dsts i (Some d); Some (dev, dsts) }
         });
     store_dsts st ps xs
   }"
| "store_dsts st _ _ = Some st"

text \<open>
  \<open>CopyWaveToHost\<close>: the lengths are the device's, each bounded by the chunk's own capacity
  before it is used as one.
\<close>

fun copy_wave_to_host :: "(stream_call \<Rightarrow> bool) \<Rightarrow> u8 list \<Rightarrow> u64 list \<Rightarrow> nat list \<Rightarrow> u64 \<Rightarrow>
    chunk_result list \<Rightarrow> u8 list option list \<Rightarrow> (cudec_status \<times> chunk_result list \<times> u8 list option list) option" where
  "copy_wave_to_host rt dev caps [] off mirror dsts = Some (CUDEC_OK, mirror, dsts)"
| "copy_wave_to_host rt dev caps (i # is) off mirror dsts = do {
     r \<leftarrow> at mirror i; cap \<leftarrow> at caps i; q \<leftarrow> at dsts i;
     if bytes_written r > cap then do {
       mirror \<leftarrow> put mirror i (not_decoded CUDEC_ERR_CUDA);
       Some (CUDEC_ERR_CUDA, mirror, dsts)
     }
     else case q of
       Some d \<Rightarrow>
         if bytes_written r \<noteq> 0 then
           if rt (Copy_out i) then do {
             x \<leftarrow> slice_at dev off (bytes_written r);
             d \<leftarrow> splice_at d 0 x;
             dsts \<leftarrow> put dsts i (Some d);
             copy_wave_to_host rt dev caps is (off + cap) mirror dsts
           }
           else Some (CUDEC_ERR_CUDA, mirror, dsts)
         else copy_wave_to_host rt dev caps is (off + cap) mirror dsts
     | None \<Rightarrow> copy_wave_to_host rt dev caps is (off + cap) mirror dsts
   }"

text \<open>The state the wave loop carries: the staging bytes, the two results arrays, the destinations.\<close>

record wave_state =
  w_stage :: "u8 list"
  w_dsrc :: "u8 list"
  w_ddst :: "u8 list"
  w_dres :: "chunk_result list"
  w_mirror :: "chunk_result list"
  w_dsts :: "u8 list option list"
  w_status :: cudec_status
  w_refused :: bool

definition wave_launch :: "batch_call \<Rightarrow> wave_stage \<Rightarrow> nat \<Rightarrow> nat \<Rightarrow> wave_state \<Rightarrow> (cudec_status \<times> wave_state) option" where
  "wave_launch entry st begin' wn s = do {
     srcs \<leftarrow> gather_slices (w_dsrc s) (m_src st) (m_ssz st);
     dsts \<leftarrow> load_dsts (w_ddst s) (w_dsts s) (m_dst st) (m_cap st);
     (launched, outs, res) \<leftarrow> entry srcs (m_ssz st) (m_cap st) dsts (take wn (drop begin' (w_dres s)));
     (dev, ds) \<leftarrow> store_dsts (w_ddst s, w_dsts s) (m_dst st) outs;
     Some (launched, s\<lparr>w_ddst := dev, w_dsts := ds,
       w_dres := take begin' (w_dres s) @ res @ drop (begin' + wn) (w_dres s)\<rparr>)
   }"

definition wave_fail :: "cudec_status \<Rightarrow> wave_state \<Rightarrow> bool \<times> wave_state" where
  "wave_fail st s = (False, s\<lparr>w_status := st\<rparr>)"

definition stream_wave :: "(stream_call \<Rightarrow> bool) \<Rightarrow> batch_call \<Rightarrow> bool \<Rightarrow> u64 \<Rightarrow> u64 \<Rightarrow> u8 list option list \<Rightarrow>
    u64 list \<Rightarrow> u64 list \<Rightarrow> nat \<Rightarrow> wave_state \<Rightarrow> (bool \<times> wave_state) option" where
  "stream_wave rt entry host_out wave_chunks n_chunks srcs sizes caps w s = (
     let begin' = unat (of_nat w * wave_chunks);
         end' = unat (wave_end wave_chunks n_chunks (of_nat w * wave_chunks));
         wn = end' - begin'
     in if w \<noteq> 0 \<and> \<not> rt (Reuse_gate w) then Some (wave_fail CUDEC_ERR_CUDA s)
        else do {
          st \<leftarrow> stage_wave host_out wave_chunks srcs sizes caps [begin'..<end']
            \<lparr>st_bytes = w_stage s, st_src_off = 0, st_dst_off = 0, m_src = [], m_ssz = [], m_dst = [], m_cap = []\<rparr>;
          let s = s\<lparr>w_stage := st_bytes st\<rparr>;
          if st_src_off st \<noteq> 0 \<and> \<not> rt (Upload_src w) then Some (wave_fail CUDEC_ERR_CUDA s)
          else do {
            bytes \<leftarrow> slice_at (st_bytes st) 0 (st_src_off st);
            dev \<leftarrow> splice_at (w_dsrc s) 0 bytes;
            let s = s\<lparr>w_dsrc := dev\<rparr>;
            if \<not> rt (Upload_meta w) then Some (wave_fail CUDEC_ERR_CUDA s)
            else if \<not> rt (Record_reuse w) then Some (wave_fail CUDEC_ERR_CUDA s)
            else do {
              (launched, s) \<leftarrow> wave_launch entry st begin' wn s;
              if launched \<noteq> CUDEC_OK then Some (wave_fail launched (s\<lparr>w_refused := True\<rparr>))
              else if \<not> rt (Read_results w) then Some (wave_fail CUDEC_ERR_CUDA s)
              else do {
                res \<leftarrow> slice_at (w_dres s) (of_nat begin') (of_nat wn);
                mirror \<leftarrow> splice_at (w_mirror s) (of_nat begin') res;
                let s = s\<lparr>w_mirror := mirror\<rparr>;
                if \<not> host_out then Some (True, s)
                else if \<not> rt (Sync_wave w) then Some (wave_fail CUDEC_ERR_CUDA s)
                else do {
                  (copied, mirror, ds) \<leftarrow> copy_wave_to_host rt (w_ddst s) caps [begin'..<end'] 0 (w_mirror s) (w_dsts s);
                  let s = s\<lparr>w_mirror := mirror, w_dsts := ds\<rparr>;
                  if copied \<noteq> CUDEC_OK then Some (wave_fail copied s) else Some (True, s)
                }
              }
            }
          }
        })"

fun stream_waves :: "(stream_call \<Rightarrow> bool) \<Rightarrow> batch_call \<Rightarrow> bool \<Rightarrow> u64 \<Rightarrow> u64 \<Rightarrow> u8 list option list \<Rightarrow>
    u64 list \<Rightarrow> u64 list \<Rightarrow> nat list \<Rightarrow> wave_state \<Rightarrow> wave_state option" where
  "stream_waves rt entry host_out wave_chunks n_chunks srcs sizes caps [] s = Some s"
| "stream_waves rt entry host_out wave_chunks n_chunks srcs sizes caps (w # ws) s = do {
     (go, s) \<leftarrow> stream_wave rt entry host_out wave_chunks n_chunks srcs sizes caps w s;
     if go then stream_waves rt entry host_out wave_chunks n_chunks srcs sizes caps ws s else Some s
   }"

section \<open>The decode\<close>

fun first_failure :: "chunk_result list \<Rightarrow> nat list \<Rightarrow> cudec_status option" where
  "first_failure results [] = Some CUDEC_OK"
| "first_failure results (i # is) = do {
     r \<leftarrow> at results i;
     if chunk_status r \<noteq> CUDEC_OK then Some (chunk_status r) else first_failure results is
   }"

definition stream_drain :: "(stream_call \<Rightarrow> bool) \<Rightarrow> u64 \<Rightarrow> stream_ctx \<Rightarrow> wave_state \<Rightarrow> chunk_result list \<Rightarrow>
    (cudec_status \<times> stream_ctx \<times> u8 list option list \<times> chunk_result list) option" where
  "stream_drain rt n_chunks ctx s results = do {
     let sync_faulted = \<not> rt Final_sync;
     let async_faulted = \<not> rt Last_error;
     let drain = (if (sync_faulted \<or> async_faulted) \<and> w_status s = CUDEC_OK then CUDEC_ERR_CUDA else w_status s);
     published \<leftarrow> slice_at (w_mirror s) 0 n_chunks;
     results \<leftarrow> splice_at results 0 published;
     if drain \<noteq> CUDEC_OK then
       Some (drain, (if \<not> w_refused s \<or> sync_faulted \<or> async_faulted then ctx\<lparr>poisoned := True\<rparr> else ctx),
             w_dsts s, results)
     else do {
       st \<leftarrow> first_failure results [0..<unat n_chunks];
       Some (st, ctx, w_dsts s, results)
     }
   }"

definition stream_start :: "(nat \<Rightarrow> u8) \<Rightarrow> (nat \<Rightarrow> chunk_result) \<Rightarrow> stream_ctx \<Rightarrow> u64 \<Rightarrow> u8 list option list \<Rightarrow> wave_state option" where
  "stream_start junk stale ctx n_chunks dsts = do {
     mirror \<leftarrow> stamp_not_decoded (map stale [0..<unat (buf_cap (p_results ctx)) div 16]) [0..<unat n_chunks] CUDEC_ERR_CUDA;
     Some \<lparr>w_stage = map junk [0..<unat (buf_cap (p_src ctx))], w_dsrc = map junk [0..<unat (buf_cap (d_src ctx))],
       w_ddst = map junk [0..<unat (buf_cap (d_dst ctx))], w_dres = map stale [0..<unat (buf_cap (d_results ctx)) div 16],
       w_mirror = mirror, w_dsts = dsts, w_status = CUDEC_OK, w_refused = False\<rparr>
   }"

definition decode_stream_ctx :: "(stream_call \<Rightarrow> bool) \<Rightarrow> (nat \<Rightarrow> u8) \<Rightarrow> (nat \<Rightarrow> chunk_result) \<Rightarrow> batch_call \<Rightarrow>
    u8 list option list \<Rightarrow> u64 list \<Rightarrow> u64 list \<Rightarrow> u64 \<Rightarrow> mem_space \<Rightarrow>
    stream_ctx \<Rightarrow> u8 list option list \<Rightarrow> chunk_result list \<Rightarrow>
    (cudec_status \<times> stream_ctx \<times> u8 list option list \<times> chunk_result list) option" where
  "decode_stream_ctx rt junk stale entry srcs sizes caps n_chunks space ctx dsts results = do {
     let host_out = (space = CUDEC_MEM_HOST);
     wave_chunks \<leftarrow> choose_wave_chunks sizes caps n_chunks host_out;
     let wave_count = (n_chunks + wave_chunks - 1) div wave_chunks;
     let meta_bytes = 4 * meta_stride wave_chunks;
     results \<leftarrow> stamp_not_decoded results [0..<unat n_chunks] CUDEC_ERR_CUDA;
     maxima \<leftarrow> wave_maxima sizes caps host_out wave_chunks n_chunks [0..<unat wave_count] 0 0;
     case maxima of
       Inl e \<Rightarrow> Some (e, ctx, dsts, results)
     | Inr (max_wave_src, max_wave_dst) \<Rightarrow> do {
         let max_wave_src = (if max_wave_src = 0 then 1 else max_wave_src);
         let max_wave_dst = (if host_out \<and> max_wave_dst = 0 then 1 else max_wave_dst);
         if mul_overflows n_chunks 16 then Some (CUDEC_ERR_CORRUPT_INPUT, ctx, dsts, results)
         else case stream_grow rt host_out max_wave_src max_wave_dst meta_bytes (n_chunks * 16) ctx of
           (False, ctx) \<Rightarrow> Some (CUDEC_ERR_CUDA, ctx, dsts, results)
         | (True, ctx) \<Rightarrow> do {
             s \<leftarrow> stream_start junk stale ctx n_chunks dsts;
             s \<leftarrow> stream_waves rt entry host_out wave_chunks n_chunks srcs sizes caps [0..<unat wave_count] s;
             stream_drain rt n_chunks ctx s results
           }
       }
   }"

definition decode_on_stream_ctx :: "(stream_call \<Rightarrow> bool) \<Rightarrow> (nat \<Rightarrow> u8) \<Rightarrow> (nat \<Rightarrow> chunk_result) \<Rightarrow> batch_call option \<Rightarrow>
    stream_args \<Rightarrow> stream_ctx option \<Rightarrow> u8 list option list option \<Rightarrow> chunk_result list option \<Rightarrow>
    (cudec_status \<times> stream_ctx option \<times> u8 list option list option \<times> chunk_result list option) option" where
  "decode_on_stream_ctx rt junk stale entry a ctx dsts results =
     (case (ctx, entry) of
        (Some c, Some e) \<Rightarrow> do {
          st \<leftarrow> validate_stream_args a dsts results;
          if st \<noteq> CUDEC_OK then Some (st, ctx, dsts, results)
          else do {
            rs \<leftarrow> results; ds \<leftarrow> dsts; srcs \<leftarrow> h_srcs a; sizes \<leftarrow> h_sizes a; caps \<leftarrow> dst_caps a;
            if poisoned c then do {
              rs \<leftarrow> stamp_not_decoded rs [0..<unat (chunk_count a)] CUDEC_ERR_CUDA;
              Some (CUDEC_ERR_CUDA, ctx, dsts, Some rs)
            }
            else do {
              (st, c, ds, rs) \<leftarrow> decode_stream_ctx rt junk stale e srcs sizes caps (chunk_count a) (dst_space a) c ds rs;
              Some (st, Some c, Some ds, Some rs)
            }
          }
        }
      | _ \<Rightarrow> Some (CUDEC_ERR_INVALID_ARGUMENT, ctx, dsts, results))"

section \<open>Creation, the one-shot entry\<close>

definition stream_ctx_create :: "(stream_call \<Rightarrow> bool) \<Rightarrow> bool \<Rightarrow> cudec_status \<times> stream_ctx option" where
  "stream_ctx_create rt null_out =
     (if null_out then (CUDEC_ERR_INVALID_ARGUMENT, None)
      else if \<not> rt New_ctx then (CUDEC_ERR_CUDA, None)
      else if \<not> rt Create_stream \<or> \<not> rt Create_event then (CUDEC_ERR_CUDA, None)
      else (CUDEC_OK, Some fresh_ctx))"

definition lz4_decompress_stream_ctx :: "(stream_call \<Rightarrow> bool) \<Rightarrow> (nat \<Rightarrow> u8) \<Rightarrow> (nat \<Rightarrow> chunk_result) \<Rightarrow> batch_call \<Rightarrow>
    stream_args \<Rightarrow> stream_ctx option \<Rightarrow> u8 list option list option \<Rightarrow> chunk_result list option \<Rightarrow>
    (cudec_status \<times> stream_ctx option \<times> u8 list option list option \<times> chunk_result list option) option" where
  "lz4_decompress_stream_ctx rt junk stale lz4_entry a ctx dsts results =
     decode_on_stream_ctx rt junk stale (Some lz4_entry) a ctx dsts results"

definition lz4_decompress_stream :: "(stream_call \<Rightarrow> bool) \<Rightarrow> (nat \<Rightarrow> u8) \<Rightarrow> (nat \<Rightarrow> chunk_result) \<Rightarrow> batch_call \<Rightarrow>
    stream_args \<Rightarrow> u8 list option list option \<Rightarrow> chunk_result list option \<Rightarrow>
    (cudec_status \<times> u8 list option list option \<times> chunk_result list option) option" where
  "lz4_decompress_stream rt junk stale lz4_entry a dsts results = do {
     args \<leftarrow> validate_stream_args a dsts results;
     if args \<noteq> CUDEC_OK then Some (args, dsts, results)
     else case stream_ctx_create rt False of
       (CUDEC_OK, Some ctx) \<Rightarrow> do {
         (st, _, dsts, results) \<leftarrow> lz4_decompress_stream_ctx rt junk stale lz4_entry a (Some ctx) dsts results;
         Some (st, dsts, results)
       }
     | (created, _) \<Rightarrow> Some (created, dsts, results)
   }"

section \<open>Wave sizes\<close>

lemma kMaxBatchChunks_nat: "unat kMaxBatchChunks = 68719476704"
  by (simp add: batch_consts)

definition sat_bytes :: "u64 list \<Rightarrow> u64 list \<Rightarrow> bool \<Rightarrow> nat \<Rightarrow> nat" where
  "sat_bytes sizes caps host_out i = min (2 ^ 64 - 1) (unat (sizes ! i) + (if host_out then unat (caps ! i) else 0))"

lemma unat_room: "(- 1 - a < (b::u64)) \<longleftrightarrow> 2 ^ 64 \<le> unat a + unat b"
proof -
  have "unat (- 1 - a) = 2 ^ 64 - 1 - unat a"
    using unat_u64_less[of a] by (subst unat_minus) (simp_all add: unat_max_u64)
  then show ?thesis using unat_u64_less[of a] by (simp add: w2n) linarith
qed

lemma unat_sum_fits: "\<not> 2 ^ 64 \<le> unat (a::u64) + unat b \<Longrightarrow> unat (a + b) = unat a + unat b"
  by (intro unat_plus) simp

lemma wave_largest_contract:
  assumes "\<forall>i\<in>set is. i < length sizes \<and> i < length caps"
  shows "\<exists>m. wave_largest sizes caps host_out is b = Some m \<and> unat b \<le> unat m \<and>
    (\<forall>i\<in>set is. sat_bytes sizes caps host_out i \<le> unat m)"
  using assms
proof (induction "is" arbitrary: b)
  case (Cons i "is")
  define v where "v = (if host_out then (if - 1 - sizes ! i < caps ! i then - 1 else sizes ! i + caps ! i) else sizes ! i)"
  have v: "unat v = sat_bytes sizes caps host_out i"
    using unat_u64_less[of "sizes ! i"] unat_sum_fits[of "sizes ! i" "caps ! i"]
    by (auto simp: v_def sat_bytes_def unat_room unat_max_u64)
  have eq: "wave_largest sizes caps host_out (i # is) b = wave_largest sizes caps host_out is (if v > b then v else b)"
    using Cons.prems by (simp add: v_def)
  obtain m where "wave_largest sizes caps host_out is (if v > b then v else b) = Some m"
    "unat (if v > b then v else b) \<le> unat m" "\<forall>i\<in>set is. sat_bytes sizes caps host_out i \<le> unat m"
    using Cons.IH[of "if v > b then v else b"] Cons.prems by auto
  then show ?case unfolding eq using v by (auto simp: w2n split: if_splits)
qed simp

lemma choose_wave_contract:
  assumes "0 < unat n" "unat n \<le> length sizes" "unat n \<le> length caps"
  shows "\<exists>wave. choose_wave_chunks sizes caps n host_out = Some wave \<and> 1 \<le> unat wave \<and>
    unat wave \<le> 4096 \<and> unat wave \<le> unat n \<and>
    (wave = 1 \<or> (\<forall>i<unat n. unat wave * (unat (sizes ! i) + (if host_out then unat (caps ! i) else 0)) \<le> 402653184))"
proof -
  obtain m where m: "wave_largest sizes caps host_out [0..<unat n] 1 = Some m" "1 \<le> unat m"
    "\<forall>i<unat n. sat_bytes sizes caps host_out i \<le> unat m"
    using wave_largest_contract[of "[0..<unat n]" sizes caps host_out 1] assms by auto
  define q where "q = kWaveStagingBudget div m"
  have q: "unat q = 402653184 div unat m" by (simp add: q_def unat_div kWaveStagingBudget_def)
  define w1 where "w1 = (if q = 0 then 1 else q)"
  define w2 where "w2 = (if w1 > kWaveChunksMax then kWaveChunksMax else w1)"
  define w3 where "w3 = (if w2 > n then n else w2)"
  have w1: "1 \<le> unat w1" by (auto simp: w1_def Suc_le_eq unat_gt_0)
  have w2: "1 \<le> unat w2" "unat w2 \<le> 4096" "unat w2 \<le> unat w1"
    using w1 by (auto simp: w2_def kWaveChunksMax_def w2n)
  have w3: "1 \<le> unat w3" "unat w3 \<le> unat w2" "unat w3 \<le> unat n"
    using w2(1) assms(1) by (auto simp: w3_def w2n)
  have "choose_wave_chunks sizes caps n host_out = Some w3"
    unfolding w3_def w2_def w1_def q_def by (simp add: choose_wave_chunks_def m Let_def)
  moreover have "w3 = 1 \<or> (\<forall>i<unat n. unat w3 * (unat (sizes ! i) + (if host_out then unat (caps ! i) else 0)) \<le> 402653184)"
  proof (cases "q = 0")
    case True
    then have "unat w3 = 1" using w1_def w2(3) w3 by simp
    then show ?thesis by (simp add: word_unat_eq_iff)
  next
    case False
    then have le: "unat w3 \<le> unat q" using w1_def w2(3) w3(2) by simp
    have qp: "1 \<le> unat q" using False by (simp add: Suc_le_eq unat_gt_0)
    have "unat w3 * (unat (sizes ! i) + (if host_out then unat (caps ! i) else 0)) \<le> 402653184" if i: "i < unat n" for i
    proof -
      have mm: "unat m \<le> 402653184"
      proof (rule ccontr)
        assume "\<not> unat m \<le> 402653184"
        then show False using qp q by simp
      qed
      have "min (2 ^ 64 - 1) (unat (sizes ! i) + (if host_out then unat (caps ! i) else 0)) \<le> unat m"
        using m(3) i by (simp add: sat_bytes_def)
      then have le_m: "unat (sizes ! i) + (if host_out then unat (caps ! i) else 0) \<le> unat m"
        using mm by (cases "2 ^ 64 - 1 \<le> unat (sizes ! i) + (if host_out then unat (caps ! i) else 0)") (simp_all add: min_def)
      have "unat w3 * (unat (sizes ! i) + (if host_out then unat (caps ! i) else 0)) \<le> unat q * unat m"
        using le le_m by (intro mult_mono) auto
      also have "\<dots> \<le> 402653184" by (simp add: q)
      finally show ?thesis .
    qed
    then show ?thesis by blast
  qed
  ultimately show ?thesis using w2 w3 by auto
qed

section \<open>The waves partition the chunks\<close>

text \<open>The bounds of a wave, as numbers.\<close>

definition w_begin :: "u64 \<Rightarrow> nat \<Rightarrow> nat" where "w_begin wave w = w * unat wave"
definition w_end :: "u64 \<Rightarrow> u64 \<Rightarrow> nat \<Rightarrow> nat" where "w_end wave n w = min (w * unat wave + unat wave) (unat n)"
definition n_waves :: "u64 \<Rightarrow> u64 \<Rightarrow> nat" where "n_waves wave n = unat ((n + wave - 1) div wave)"

definition batch_shape :: "u64 \<Rightarrow> u64 \<Rightarrow> bool" where
  "batch_shape wave n \<longleftrightarrow> 0 < unat n \<and> n \<le> kMaxBatchChunks \<and> 1 \<le> unat wave \<and> unat wave \<le> 4096 \<and> unat wave \<le> unat n"

lemma n_waves: assumes "batch_shape wave n" shows "n_waves wave n = (unat n + unat wave - 1) div unat wave"
proof -
  have b: "unat n \<le> 68719476704" "unat wave \<le> 4096" "1 \<le> unat wave"
    using assms kMaxBatchChunks_nat by (simp_all add: batch_shape_def w2n)
  have "unat (n + wave) = unat n + unat wave" using b by (intro unat_plus) simp
  then have "unat (n + wave - 1) = unat n + unat wave - 1" using b by (subst unat_minus) simp_all
  then show ?thesis by (simp add: n_waves_def unat_div)
qed

lemma wave_range:
  assumes b: "batch_shape wave n" and w: "w < n_waves wave n"
  shows "unat (of_nat w * wave) = w_begin wave w" "unat (wave_end wave n (of_nat w * wave)) = w_end wave n w"
    "w_begin wave w < unat n" "w_begin wave w < w_end wave n w" "w_end wave n w \<le> unat n"
    "w_end wave n w - w_begin wave w \<le> unat wave"
proof -
  have b': "unat n \<le> 68719476704" "unat wave \<le> 4096" "1 \<le> unat wave"
    using b kMaxBatchChunks_nat by (simp_all add: batch_shape_def w2n)
  have "w < (unat n + unat wave - 1) div unat wave" using w n_waves[OF b] by simp
  then have "Suc w * unat wave \<le> unat n + unat wave - 1" using b'(3)
    by (metis Suc_leI less_eq_div_iff_mult_less_eq zero_less_one order_less_le_trans)
  then show lt: "w_begin wave w < unat n" using b'(3) by (simp add: w_begin_def)
  have "unat (of_nat w * wave) = unat (of_nat (w * unat wave) :: u64)" by simp
  also have "\<dots> = w * unat wave" using lt b' by (intro unat_of_nat_less) (simp add: w_begin_def)
  finally show bg: "unat (of_nat w * wave) = w_begin wave w" by (simp add: w_begin_def)
  have s: "unat (of_nat w * wave + wave) = w_begin wave w + unat wave"
    using lt b' bg by (subst unat_plus) simp_all
  then show "unat (wave_end wave n (of_nat w * wave)) = w_end wave n w"
    by (simp add: wave_end_def w_end_def w_begin_def w2n min_def)
  show "w_begin wave w < w_end wave n w" using lt b'(3) by (simp add: w_begin_def w_end_def)
  show "w_end wave n w \<le> unat n" "w_end wave n w - w_begin wave w \<le> unat wave"
    by (simp_all add: w_begin_def w_end_def)
qed

lemma wave_next: "batch_shape wave n \<Longrightarrow> Suc w < n_waves wave n \<Longrightarrow> w_end wave n w = w_begin wave (Suc w)"
  using wave_range(3)[of wave n "Suc w"] by (simp add: w_begin_def w_end_def)

lemma wave_last: assumes "batch_shape wave n" "Suc w = n_waves wave n" shows "w_end wave n w = unat n"
proof -
  have w: "1 \<le> unat wave" using assms(1) by (simp add: batch_shape_def)
  then have "unat n \<le> (unat n + unat wave - 1) div unat wave * unat wave"
    using div_mod_decomp[of "unat n + unat wave - 1" "unat wave"] mod_less_divisor[of "unat wave" "unat n + unat wave - 1"] by linarith
  then have "unat n \<le> Suc w * unat wave" using assms(2) by (simp only: n_waves[OF assms(1)])
  then show ?thesis by (simp add: w_end_def add.commute)
qed

lemma some_wave: assumes "batch_shape wave n" shows "0 < n_waves wave n"
proof -
  have "1 \<le> unat n" "1 \<le> unat wave" using assms by (simp_all add: batch_shape_def)
  then have "unat wave * 1 \<le> unat n + unat wave - 1" by simp
  then show ?thesis using \<open>1 \<le> unat wave\<close> by (simp add: n_waves[OF assms] div_greater_zero_iff)
qed

lemma wave_of_chunk:
  assumes b: "batch_shape wave n" and i: "i < unat n"
  shows "\<exists>w<n_waves wave n. w_begin wave w \<le> i \<and> i < w_end wave n w"
proof (intro exI conjI)
  have p: "1 \<le> unat wave" using b by (simp add: batch_shape_def)
  have d: "i div unat wave * unat wave + i mod unat wave = i" "i mod unat wave < unat wave" using p by simp_all
  show "w_begin wave (i div unat wave) \<le> i" by (simp add: w_begin_def)
  have "i < i div unat wave * unat wave + unat wave" using d by linarith
  then show "i < w_end wave n (i div unat wave)" using i by (simp only: w_end_def min_less_iff_conj)
  have "(i div unat wave + 1) * unat wave \<le> unat n + unat wave - 1" using d i unfolding add_mult_distrib by linarith
  then show "i div unat wave < n_waves wave n"
    using p by (simp add: n_waves[OF b] less_eq_div_iff_mult_less_eq Suc_le_eq[symmetric])
qed

end
