(* ===== verification/Stream_Decode.thy ===== *)
theory Stream_Decode
  imports Stream_Ctx
begin

text \<open>
  What a streamed decode of \<open>src/stream.cpp\<close> does over any batch entry that keeps the contract
  of \<open>batch_entry\<close>: the waves are invisible, each chunk gets what decoding it alone gives, and
  a fault of the device runtime is never reported as success.
\<close>

section \<open>The sums\<close>

definition bytes_of :: "u64 list \<Rightarrow> nat list \<Rightarrow> nat" where
  "bytes_of xs is = (\<Sum>i\<leftarrow>is. unat (xs ! i))"

lemma bytes_of_simps [simp]: "bytes_of xs [] = 0" "bytes_of xs (i # is) = unat (xs ! i) + bytes_of xs is"
  by (simp_all add: bytes_of_def)

definition wave_bytes :: "u64 list \<Rightarrow> u64 \<Rightarrow> u64 \<Rightarrow> nat \<Rightarrow> nat" where
  "wave_bytes xs wave n w = bytes_of xs [w_begin wave w..<w_end wave n w]"

definition wave_overflows :: "u64 list \<Rightarrow> u64 list \<Rightarrow> bool \<Rightarrow> u64 \<Rightarrow> u64 \<Rightarrow> nat \<Rightarrow> bool" where
  "wave_overflows sizes caps host_out wave n w \<longleftrightarrow>
     2 ^ 64 \<le> wave_bytes sizes wave n w \<or> host_out \<and> 2 ^ 64 \<le> wave_bytes caps wave n w"

lemma wave_sums_contract:
  assumes "\<forall>i\<in>set is. i < length sizes \<and> i < length caps"
  shows "wp (wave_sums sizes caps host_out is a b) (\<lambda>res. case res of
      Inl e \<Rightarrow> e = CUDEC_ERR_CORRUPT_INPUT \<and>
        (2 ^ 64 \<le> unat a + bytes_of sizes is \<or> host_out \<and> 2 ^ 64 \<le> unat b + bytes_of caps is)
    | Inr (x, y) \<Rightarrow> unat x = unat a + bytes_of sizes is \<and> unat y = unat b + (if host_out then bytes_of caps is else 0))"
  using assms
proof (induction "is" arbitrary: a b)
  case (Cons i "is")
  then have at: "i < length sizes" "i < length caps" by simp_all
  show ?case
  proof (cases "- 1 - a < sizes ! i \<or> host_out \<and> - 1 - b < caps ! i")
    case True
    then show ?thesis using at by (auto simp: wp_rules unat_room)
  next
    case False
    then have u: "unat (a + sizes ! i) = unat a + unat (sizes ! i)"
      "host_out \<Longrightarrow> unat (b + caps ! i) = unat b + unat (caps ! i)"
      by (auto simp: unat_room intro: unat_sum_fits)
    define b' where "b' = (if host_out then b + caps ! i else b)"
    have eq: "wave_sums sizes caps host_out (i # is) a b = wave_sums sizes caps host_out is (a + sizes ! i) b'"
      using False at by (auto simp: b'_def)
    show ?thesis unfolding eq
      by (rule wp_mono[OF Cons.IH]) (use Cons.prems u in \<open>auto simp: b'_def split: sum.splits\<close>)
  qed
qed (simp add: wp_rules)

lemma wave_maxima_contract:
  assumes b: "batch_shape wave n" and len: "unat n \<le> length sizes" "unat n \<le> length caps"
    and ws: "\<forall>w\<in>set ws. w < n_waves wave n"
  shows "wp (wave_maxima sizes caps host_out wave n ws ms md) (\<lambda>res. case res of
      Inl e \<Rightarrow> e = CUDEC_ERR_CORRUPT_INPUT \<and> (\<exists>w\<in>set ws. wave_overflows sizes caps host_out wave n w)
    | Inr (x, y) \<Rightarrow> unat ms \<le> unat x \<and> unat md \<le> unat y \<and>
        (\<forall>w\<in>set ws. wave_bytes sizes wave n w \<le> unat x \<and> (host_out \<longrightarrow> wave_bytes caps wave n w \<le> unat y)))"
  using ws
proof (induction ws arbitrary: ms md)
  case (Cons w ws)
  note r = wave_range[OF b, of w]
  have w: "w < n_waves wave n" using Cons.prems by simp
  have ix: "\<forall>i\<in>set [w_begin wave w..<w_end wave n w]. i < length sizes \<and> i < length caps"
    using r(5)[OF w] len by auto
  show ?case
    unfolding wave_maxima.simps Let_def r(1,2)[OF w]
  proof (rule wp_bind_sum[OF wave_sums_contract[OF ix]], goal_cases)
    case (1 e)
    then show ?case by (auto simp: wp_rules wave_overflows_def wave_bytes_def)
  next
    case (2 p)
    then obtain x y where p: "p = (x, y)" "unat x = wave_bytes sizes wave n w"
        "unat y = (if host_out then wave_bytes caps wave n w else 0)" by (auto simp: wave_bytes_def)
    show ?case unfolding p(1) prod.case
      by (rule wp_mono[OF Cons.IH]) (use Cons.prems p(2,3) in \<open>auto simp: w2n split: sum.splits if_splits\<close>)
  qed
qed (simp add: wp_rules)

section \<open>Staging\<close>

definition chunk_src :: "u8 list option list \<Rightarrow> u64 list \<Rightarrow> nat \<Rightarrow> u8 list" where
  "chunk_src srcs sizes i = (if sizes ! i = 0 then [] else take (unat (sizes ! i)) (the (srcs ! i)))"

definition stream_inputs :: "u8 list option list \<Rightarrow> u64 list \<Rightarrow> u64 list \<Rightarrow> u64 \<Rightarrow> u8 list option list \<Rightarrow> bool" where
  "stream_inputs srcs sizes caps n dsts \<longleftrightarrow> 0 < unat n \<and> n \<le> kMaxBatchChunks \<and>
     unat n \<le> length srcs \<and> unat n \<le> length sizes \<and> unat n \<le> length caps \<and> unat n \<le> length dsts \<and>
     (\<forall>i<unat n. (sizes ! i \<noteq> 0 \<longrightarrow> (\<exists>s. srcs ! i = Some s \<and> unat (sizes ! i) \<le> length s)) \<and>
        (dsts ! i = None \<longrightarrow> caps ! i = 0) \<and> (\<forall>d. dsts ! i = Some d \<longrightarrow> unat (caps ! i) \<le> length d))"

lemma length_chunk_src: "stream_inputs srcs sizes caps n dsts \<Longrightarrow> i < unat n \<Longrightarrow> length (chunk_src srcs sizes i) = unat (sizes ! i)"
  by (auto simp: chunk_src_def stream_inputs_def)

lemma bytes_of_src: "stream_inputs srcs sizes caps n dsts \<Longrightarrow> set is \<subseteq> {..<unat n} \<Longrightarrow>
    bytes_of sizes is = length (concat (map (chunk_src srcs sizes) is))"
  by (induction "is") (auto simp: length_chunk_src)

lemma stage_wave_contract:
  assumes inp: "stream_inputs srcs sizes caps n dsts" and "is": "set is \<subseteq> {..<unat n}"
    and st: "st_bytes st = pre @ rest" "unat (st_src_off st) = length pre"
    and room: "bytes_of sizes is \<le> length rest" "length pre + length rest < 2 ^ 64"
    and dst: "host_out \<Longrightarrow> unat (st_dst_off st) + bytes_of caps is < 2 ^ 64"
    and meta: "length (m_src st) + length is \<le> unat wave"
  shows "\<exists>st' offs doffs. stage_wave host_out wave srcs sizes caps is st = Some st' \<and>
     st_bytes st' = pre @ concat (map (chunk_src srcs sizes) is) @ drop (bytes_of sizes is) rest \<and>
     unat (st_src_off st') = length pre + bytes_of sizes is \<and>
     m_src st' = m_src st @ offs \<and> map unat offs = offsets (length pre) (map (\<lambda>i. length (chunk_src srcs sizes i)) is) \<and>
     m_ssz st' = m_ssz st @ map ((!) sizes) is \<and> m_cap st' = m_cap st @ map ((!) caps) is \<and>
     m_dst st' = m_dst st @ (if host_out then map Staging doffs else map Caller is) \<and>
     (host_out \<longrightarrow> map unat doffs = offsets (unat (st_dst_off st)) (map (\<lambda>i. unat (caps ! i)) is))"
  using assms(2-)
proof (induction "is" arbitrary: st pre rest)
  case Nil
  then show ?case by (intro exI[of _ st] exI[of _ "[]"]) auto
next
  case (Cons i "is")
  let ?x = "chunk_src srcs sizes i" and ?n = "unat (sizes ! i)"
  have i: "i < unat n" "i < length sizes" "i < length caps" "i < length srcs"
    using Cons.prems(1) inp by (auto simp: stream_inputs_def)
  have lx: "length ?x = ?n" using length_chunk_src[OF inp i(1)] .
  let ?bytes = "(pre @ ?x) @ drop ?n rest"
  have bytes: "(if sizes ! i \<noteq> 0 then do { p \<leftarrow> at srcs i; s \<leftarrow> p; x \<leftarrow> slice_at s 0 (sizes ! i);
      splice_at (st_bytes st) (st_src_off st) x } else Some (st_bytes st)) = Some ?bytes"
  proof (cases "sizes ! i = 0")
    case True
    then show ?thesis using Cons.prems(2) by (simp add: chunk_src_def)
  next
    case False
    then obtain s where s: "srcs ! i = Some s" "?n \<le> length s" using inp i(1) by (auto simp: stream_inputs_def)
    then show ?thesis using False i Cons.prems(2,3,4)
      by (simp add: slice_at_def splice_at_def chunk_src_def)
  qed
  define st1 where "st1 = \<lparr>st_bytes = ?bytes, st_src_off = st_src_off st + sizes ! i,
    st_dst_off = (if host_out then st_dst_off st + caps ! i else st_dst_off st),
    m_src = m_src st @ [st_src_off st], m_ssz = m_ssz st @ [sizes ! i],
    m_dst = m_dst st @ [if host_out then Staging (st_dst_off st) else Caller i], m_cap = m_cap st @ [caps ! i]\<rparr>"
  have eq: "stage_wave host_out wave srcs sizes caps (i # is) st = stage_wave host_out wave srcs sizes caps is st1"
    using Cons.prems(7) i by (simp add: bytes st1_def)
  have so: "unat (st_src_off st1) = length (pre @ ?x)"
    using Cons.prems(3,4,5) lx by (simp add: st1_def) (subst unat_plus; simp)
  have do: "host_out \<Longrightarrow> unat (st_dst_off st1) = unat (st_dst_off st) + unat (caps ! i)"
    using Cons.prems(6) by (simp add: st1_def) (subst unat_plus; simp)
  have "\<exists>st' offs doffs. stage_wave host_out wave srcs sizes caps is st1 = Some st' \<and>
     st_bytes st' = (pre @ ?x) @ concat (map (chunk_src srcs sizes) is) @ drop (bytes_of sizes is) (drop ?n rest) \<and>
     unat (st_src_off st') = length (pre @ ?x) + bytes_of sizes is \<and>
     m_src st' = m_src st1 @ offs \<and> map unat offs = offsets (length (pre @ ?x)) (map (\<lambda>i. length (chunk_src srcs sizes i)) is) \<and>
     m_ssz st' = m_ssz st1 @ map ((!) sizes) is \<and> m_cap st' = m_cap st1 @ map ((!) caps) is \<and>
     m_dst st' = m_dst st1 @ (if host_out then map Staging doffs else map Caller is) \<and>
     (host_out \<longrightarrow> map unat doffs = offsets (unat (st_dst_off st1)) (map (\<lambda>i. unat (caps ! i)) is))"
    by (rule Cons.IH) (use Cons.prems so do lx in \<open>auto simp: st1_def\<close>)
  then obtain st' offs doffs where r: "stage_wave host_out wave srcs sizes caps is st1 = Some st'"
     "st_bytes st' = (pre @ ?x) @ concat (map (chunk_src srcs sizes) is) @ drop (bytes_of sizes is) (drop ?n rest)"
     "unat (st_src_off st') = length (pre @ ?x) + bytes_of sizes is"
     "m_src st' = m_src st1 @ offs" "map unat offs = offsets (length (pre @ ?x)) (map (\<lambda>i. length (chunk_src srcs sizes i)) is)"
     "m_ssz st' = m_ssz st1 @ map ((!) sizes) is" "m_cap st' = m_cap st1 @ map ((!) caps) is"
     "m_dst st' = m_dst st1 @ (if host_out then map Staging doffs else map Caller is)"
     "host_out \<longrightarrow> map unat doffs = offsets (unat (st_dst_off st1)) (map (\<lambda>i. unat (caps ! i)) is)" by blast
  show ?case unfolding eq
    by (intro exI[of _ st'] exI[of _ "st_src_off st # offs"] exI[of _ "st_dst_off st # doffs"])
      (use r do Cons.prems(3) lx in \<open>auto simp: st1_def add.commute\<close>)
qed

section \<open>The destinations\<close>

lemma load_staging: "load_dsts dev dsts (map Staging offs) caps = gather_slices dev offs caps"
proof (induction dev offs caps rule: gather_slices.induct)
  case (1 buf off offs n ns)
  then show ?case by (cases "slice_at buf off n") simp_all
qed simp_all

lemma store_staging: "store_dsts (dev, dsts) (map Staging offs) xs = map_option (\<lambda>dev. (dev, dsts)) (scatter_slices dev offs xs)"
proof (induction dev offs xs rule: scatter_slices.induct)
  case (1 buf off offs x xs)
  then show ?case by (cases "splice_at buf off x") simp_all
qed simp_all

definition chunk_view :: "u64 list \<Rightarrow> u8 list option list \<Rightarrow> nat \<Rightarrow> u8 list" where
  "chunk_view caps dsts i = (case dsts ! i of None \<Rightarrow> [] | Some d \<Rightarrow> take (unat (caps ! i)) d)"

lemma load_caller:
  assumes "stream_inputs srcs sizes caps n dsts" "set is \<subseteq> {..<unat n}"
  shows "load_dsts dev dsts (map Caller is) (map ((!) caps) is) = Some (map (chunk_view caps dsts) is)"
  using assms(2)
proof (induction "is")
  case (Cons i "is")
  have i: "i < length dsts" "dsts ! i = None \<Longrightarrow> caps ! i = 0" "\<And>d. dsts ! i = Some d \<Longrightarrow> unat (caps ! i) \<le> length d"
    using Cons.prems assms(1) by (auto simp: stream_inputs_def)
  show ?case using Cons i
    by (cases "dsts ! i") (simp_all add: slice_at_def chunk_view_def)
qed simp

lemma store_caller:
  assumes "distinct is" "length outs = length is" "\<forall>j<length is. is ! j < length dsts \<and>
      (case dsts ! (is ! j) of None \<Rightarrow> outs ! j = [] | Some d \<Rightarrow> length (outs ! j) \<le> length d)"
  shows "\<exists>dsts'. store_dsts (dev, dsts) (map Caller is) outs = Some (dev, dsts') \<and> length dsts' = length dsts \<and>
      (\<forall>j<length is. dsts' ! (is ! j) = map_option (\<lambda>d. outs ! j @ drop (length (outs ! j)) d) (dsts ! (is ! j))) \<and>
      (\<forall>i. i \<notin> set is \<longrightarrow> dsts' ! i = dsts ! i)"
  using assms
proof (induction "is" arbitrary: outs dsts)
  case (Cons i "is")
  then obtain x xs where outs: "outs = x # xs" "length xs = length is" by (cases outs) auto
  have i: "i < length dsts" "case dsts ! i of None \<Rightarrow> x = [] | Some d \<Rightarrow> length x \<le> length d"
    using Cons.prems(3)[rule_format, of 0] outs(1) by (auto split: option.splits)
  define d1 where "d1 = dsts[i := map_option (\<lambda>d. x @ drop (length x) d) (dsts ! i)]"
  have step: "store_dsts (dev, dsts) (map Caller (i # is)) outs = store_dsts (dev, d1) (map Caller is) xs"
  proof (cases "dsts ! i")
    case None
    then have "dsts[i := None] = dsts" by (metis list_update_id)
    then show ?thesis using i None by (simp add: outs(1) d1_def)
  qed (use i in \<open>simp add: outs(1) d1_def splice_at_def\<close>)
  have other: "d1 ! k = dsts ! k" if "k \<noteq> i" for k using that by (simp add: d1_def)
  have ne: "is ! j \<noteq> i" if "j < length is" for j using that Cons.prems(1) by (auto simp: in_set_conv_nth)
  have "\<forall>j<length is. is ! j < length d1 \<and>
      (case d1 ! (is ! j) of None \<Rightarrow> xs ! j = [] | Some d \<Rightarrow> length (xs ! j) \<le> length d)"
  proof (intro allI impI)
    fix j assume j: "j < length is"
    have "length d1 = length dsts" by (simp add: d1_def)
    then show "is ! j < length d1 \<and> (case d1 ! (is ! j) of None \<Rightarrow> xs ! j = [] | Some d \<Rightarrow> length (xs ! j) \<le> length d)"
      using Cons.prems(3)[rule_format, of "Suc j"] j outs other[OF ne[OF j]] by (auto split: option.splits)
  qed
  with Cons.IH[of xs d1] Cons.prems(1) outs(2) obtain dsts' where
    r: "store_dsts (dev, d1) (map Caller is) xs = Some (dev, dsts')" "length dsts' = length d1"
      "\<forall>j<length is. dsts' ! (is ! j) = map_option (\<lambda>d. xs ! j @ drop (length (xs ! j)) d) (d1 ! (is ! j))"
      "\<forall>k. k \<notin> set is \<longrightarrow> dsts' ! k = d1 ! k" by auto
  show ?case unfolding step
  proof (intro exI[of _ dsts'] conjI allI impI)
    show "store_dsts (dev, d1) (map Caller is) xs = Some (dev, dsts')" by (rule r(1))
    show "length dsts' = length dsts" using r(2) by (simp add: d1_def)
    show "dsts' ! ((i # is) ! j) = map_option (\<lambda>d. outs ! j @ drop (length (outs ! j)) d) (dsts ! ((i # is) ! j))"
      if "j < length (i # is)" for j
    proof (cases j)
      case 0
      then show ?thesis using r(4) Cons.prems(1) i(1) by (simp add: outs(1) d1_def)
    next
      case (Suc k)
      then show ?thesis using r(3) that ne by (simp add: outs(1) other)
    qed
    show "dsts' ! k = dsts ! k" if "k \<notin> set (i # is)" for k using that r(4) other by simp
  qed
qed simp

text \<open>The copy back of a drained wave, whatever lengths the device reported.\<close>

definition copied_out :: "chunk_result \<Rightarrow> u8 list \<Rightarrow> u8 list option \<Rightarrow> u8 list option" where
  "copied_out r x = map_option (\<lambda>d. take (unat (bytes_written r)) x @ drop (unat (bytes_written r)) d)"

lemma copy_wave_contract:
  assumes "distinct is" "length slots = length is"
    and "\<forall>j<length is. is ! j < length dsts \<and> is ! j < length caps \<and> is ! j < length mirror \<and>
        length (slots ! j) = unat (caps ! (is ! j)) \<and>
        (\<forall>d. dsts ! (is ! j) = Some d \<longrightarrow> unat (caps ! (is ! j)) \<le> length d)"
    and "unat off = length pre" "length pre + length (concat slots) < 2 ^ 64"
  shows "wp (copy_wave_to_host rt (pre @ concat slots @ post) caps is off mirror dsts) (\<lambda>(st, mirror', dsts').
     length mirror' = length mirror \<and> length dsts' = length dsts \<and>
     (\<forall>i. i \<notin> set is \<longrightarrow> mirror' ! i = mirror ! i \<and> dsts' ! i = dsts ! i) \<and>
     (\<forall>j<length is. mirror' ! (is ! j) = mirror ! (is ! j) \<or>
        caps ! (is ! j) < bytes_written (mirror ! (is ! j)) \<and> mirror' ! (is ! j) = not_decoded CUDEC_ERR_CUDA) \<and>
     (\<forall>j<length is. dsts' ! (is ! j) = dsts ! (is ! j) \<or> bytes_written (mirror ! (is ! j)) \<le> caps ! (is ! j) \<and>
        dsts' ! (is ! j) = copied_out (mirror ! (is ! j)) (slots ! j) (dsts ! (is ! j))) \<and>
     (st = CUDEC_OK \<longrightarrow> mirror' = mirror \<and> (\<forall>j<length is. bytes_written (mirror ! (is ! j)) \<le> caps ! (is ! j) \<and>
        dsts' ! (is ! j) = copied_out (mirror ! (is ! j)) (slots ! j) (dsts ! (is ! j)))) \<and>
     (st \<noteq> CUDEC_OK \<longrightarrow> st = CUDEC_ERR_CUDA \<and> ((\<exists>i\<in>set is. \<not> rt (Copy_out i)) \<or>
        (\<exists>i\<in>set is. caps ! i < bytes_written (mirror ! i)))))"
  using assms
proof (induction "is" arbitrary: slots dsts off pre)
  case Nil
  then show ?case by (simp add: wp_rules)
next
  case (Cons i "is")
  from Cons.prems(2) obtain x xs where sl: "slots = x # xs" "length xs = length is" by (cases slots) auto
  have i: "i < length dsts" "i < length caps" "i < length mirror" "length x = unat (caps ! i)"
      "\<And>d. dsts ! i = Some d \<Longrightarrow> unat (caps ! i) \<le> length d"
    using Cons.prems(3)[rule_format, of 0] sl(1) by auto
  have tail: "\<forall>j<length is. is ! j < length dsts \<and> is ! j < length caps \<and> is ! j < length mirror \<and>
        length (xs ! j) = unat (caps ! (is ! j)) \<and> (\<forall>d. dsts ! (is ! j) = Some d \<longrightarrow> unat (caps ! (is ! j)) \<le> length d)"
  proof (intro allI impI)
    fix j assume "j < length is"
    then show "is ! j < length dsts \<and> is ! j < length caps \<and> is ! j < length mirror \<and>
        length (xs ! j) = unat (caps ! (is ! j)) \<and> (\<forall>d. dsts ! (is ! j) = Some d \<longrightarrow> unat (caps ! (is ! j)) \<le> length d)"
      using Cons.prems(3)[rule_format, of "Suc j"] sl(1) by simp
  qed
  have ni: "i \<notin> set is" "distinct is" using Cons.prems(1) by simp_all
  let ?r = "mirror ! i"
  have split_all: "(\<forall>j<length (i # is). P ((i # is) ! j) (slots ! j)) \<longleftrightarrow> P i x \<and> (\<forall>j<length is. P (is ! j) (xs ! j))" for P
    by (auto simp: sl(1) All_less_Suc2)
  show ?case
  proof (cases "bytes_written ?r > caps ! i")
    case True
    then show ?thesis using i ni by (auto simp: wp_rules nth_list_update)
  next
    case ok: False
    define d1 where "d1 = dsts[i := copied_out ?r x (dsts ! i)]"
    have d1: "length d1 = length dsts" "d1 ! i = copied_out ?r x (dsts ! i)" "\<And>k. k \<noteq> i \<Longrightarrow> d1 ! k = dsts ! k"
      using i(1) by (simp_all add: d1_def)
    have ne: "is ! j \<noteq> i" if "j < length is" for j using that ni(1) by (auto simp: in_set_conv_nth)
    have b: "unat (bytes_written ?r) \<le> unat (caps ! i)" using ok by (simp add: w2n not_less)
    have fail: ?thesis if "dsts ! i \<noteq> None" "bytes_written ?r \<noteq> 0" "\<not> rt (Copy_out i)"
      using that i ok by (auto simp: wp_rules)
    have off: "unat (off + caps ! i) = length (pre @ x)"
      using Cons.prems(4,5) i(4) sl(1) by (subst unat_plus) simp_all
    have step: "copy_wave_to_host rt (pre @ concat slots @ post) caps (i # is) off mirror dsts =
        copy_wave_to_host rt (pre @ concat slots @ post) caps is (off + caps ! i) mirror d1"
      if go: "dsts ! i = None \<or> bytes_written ?r = 0 \<or> rt (Copy_out i)"
    proof (cases "dsts ! i")
      case None
      then have "d1 = dsts" unfolding d1_def copied_out_def by (metis list_update_id option.map_disc_iff)
      then show ?thesis using None i ok by simp
    next
      case (Some d)
      show ?thesis
      proof (cases "bytes_written ?r = 0")
        case True
        then have "d1 = dsts" using Some unfolding d1_def copied_out_def by simp (metis list_update_id)
        then show ?thesis using Some True i ok by simp
      next
        case False
        have "slice_at (pre @ concat slots @ post) off (bytes_written ?r) = Some (take (unat (bytes_written ?r)) x)"
          using Cons.prems(4) b i(4) by (simp add: slice_at_def sl(1))
        moreover have "splice_at d 0 (take (unat (bytes_written ?r)) x) =
            Some (take (unat (bytes_written ?r)) x @ drop (unat (bytes_written ?r)) d)"
          using b i(4) i(5)[OF Some] by (simp add: splice_at_def)
        ultimately show ?thesis using Some False go i ok by (simp add: d1_def copied_out_def)
      qed
    qed
    show ?thesis
    proof (cases "dsts ! i = None \<or> bytes_written ?r = 0 \<or> rt (Copy_out i)")
      case False
      then show ?thesis using fail by simp
    next
      case True
      have tail': "\<forall>j<length is. is ! j < length d1 \<and> is ! j < length caps \<and> is ! j < length mirror \<and>
        length (xs ! j) = unat (caps ! (is ! j)) \<and> (\<forall>d. d1 ! (is ! j) = Some d \<longrightarrow> unat (caps ! (is ! j)) \<le> length d)"
        using tail d1(1,3) ne by simp
      have len': "length (pre @ x) + length (concat xs) < 2 ^ 64" using Cons.prems(5) sl(1) by simp
      have buf: "pre @ concat slots @ post = (pre @ x) @ concat xs @ post" using sl(1) by simp
      note ih = Cons.IH[OF ni(2) sl(2) tail' off len']
      show ?thesis unfolding step[OF True] unfolding buf
        by (rule wp_mono[OF ih]) (use d1 ne ni(1) b in \<open>auto simp: split_all w2n sl(1) All_less_Suc2\<close>)
    qed
  qed
qed

lemma nth_spliced:
  assumes "b + length ys \<le> length xs" "i < length xs"
  shows "(take b xs @ ys @ drop (b + length ys) xs) ! i = (if b \<le> i \<and> i < b + length ys then ys ! (i - b) else xs ! i)"
proof -
  consider "i < b" | "b \<le> i" "i < b + length ys" "i - b < length ys" | "b + length ys \<le> i" "\<not> i - b < length ys" by linarith
  then show ?thesis using assms by cases (simp_all add: nth_append)
qed

section \<open>One wave\<close>

text \<open>What decoding chunk \<open>i\<close> alone reports, and what it leaves in the caller's buffer.\<close>

type_synonym chunk_fun = "u8 list \<Rightarrow> u64 \<Rightarrow> u64 \<Rightarrow> u8 list \<Rightarrow> chunk_result \<times> u8 list"

definition chunk_alone :: "chunk_fun \<Rightarrow> u8 list option list \<Rightarrow> u64 list \<Rightarrow> u64 list \<Rightarrow> u8 list option list \<Rightarrow> nat \<Rightarrow> chunk_result \<times> u8 list" where
  "chunk_alone one srcs sizes caps dsts i =
     one (chunk_src srcs sizes i) (sizes ! i) (caps ! i) (chunk_view caps dsts i)"

definition chunk_final :: "chunk_fun \<Rightarrow> bool \<Rightarrow> u8 list option list \<Rightarrow> u64 list \<Rightarrow> u64 list \<Rightarrow> u8 list option list \<Rightarrow> nat \<Rightarrow> u8 list option" where
  "chunk_final one host_out srcs sizes caps dsts i = (case chunk_alone one srcs sizes caps dsts i of (r, out) \<Rightarrow>
     if host_out then copied_out r out (dsts ! i)
     else map_option (\<lambda>d. out @ drop (length out) d) (dsts ! i))"

definition wave_room :: "u64 list \<Rightarrow> u64 list \<Rightarrow> bool \<Rightarrow> u64 \<Rightarrow> u64 \<Rightarrow> wave_state \<Rightarrow> bool" where
  "wave_room sizes caps host_out wave n s \<longleftrightarrow>
     (\<forall>w<n_waves wave n. wave_bytes sizes wave n w \<le> length (w_stage s) \<and> wave_bytes sizes wave n w \<le> length (w_dsrc s) \<and>
        (host_out \<longrightarrow> wave_bytes caps wave n w \<le> length (w_ddst s))) \<and>
     length (w_stage s) < 2 ^ 64 \<and> length (w_ddst s) < 2 ^ 64 \<and>
     unat n \<le> length (w_dres s) \<and> unat n \<le> length (w_mirror s)"

definition wave_inv :: "chunk_fun \<Rightarrow> bool \<Rightarrow> u8 list option list \<Rightarrow> u64 list \<Rightarrow> u64 list \<Rightarrow> u64 \<Rightarrow> u64 \<Rightarrow> u8 list option list \<Rightarrow> wave_state \<Rightarrow> bool" where
  "wave_inv one host_out srcs sizes caps wave n dsts s \<longleftrightarrow>
     wave_room sizes caps host_out wave n s \<and> length (w_dsts s) = length dsts \<and>
     (\<forall>i<unat n. (w_mirror s ! i = not_decoded CUDEC_ERR_CUDA \<or> w_mirror s ! i = fst (chunk_alone one srcs sizes caps dsts i)) \<and>
        (w_dsts s ! i = dsts ! i \<or> w_dsts s ! i = chunk_final one host_out srcs sizes caps dsts i)) \<and>
     (\<forall>i\<ge>unat n. w_dsts s ! i = dsts ! i)"

definition wave_done :: "chunk_fun \<Rightarrow> bool \<Rightarrow> u8 list option list \<Rightarrow> u64 list \<Rightarrow> u64 list \<Rightarrow> u8 list option list \<Rightarrow> nat \<Rightarrow> wave_state \<Rightarrow> bool" where
  "wave_done one host_out srcs sizes caps dsts k s \<longleftrightarrow>
     (\<forall>i<k. w_mirror s ! i = fst (chunk_alone one srcs sizes caps dsts i) \<and>
        w_dsts s ! i = chunk_final one host_out srcs sizes caps dsts i) \<and>
     (\<forall>i\<ge>k. w_dsts s ! i = dsts ! i) \<and> w_status s = CUDEC_OK \<and> \<not> w_refused s"

lemma length_chunk_view: "stream_inputs srcs sizes caps n dsts \<Longrightarrow> i < unat n \<Longrightarrow> length (chunk_view caps dsts i) = unat (caps ! i)"
  by (auto simp: stream_inputs_def chunk_view_def split: option.splits)

lemma chunk_args_view: "stream_inputs srcs sizes caps n dsts \<Longrightarrow> i < unat n \<Longrightarrow>
    chunk_args (chunk_src srcs sizes i) (sizes ! i) (caps ! i) (chunk_view caps dsts i)"
  by (simp add: chunk_args_def length_chunk_view length_chunk_src)

text \<open>What the launch of a staged wave does.\<close>

context batch_entry begin

lemma one_any_slot:
  assumes "stream_inputs srcs sizes caps n dsts" "i < unat n" "length x = unat (caps ! i)"
  defines "p \<equiv> one (chunk_src srcs sizes i) (sizes ! i) (caps ! i) x"
  shows "fst p = fst (chunk_alone one srcs sizes caps dsts i)"
    "copied_out (fst p) (snd p) d = copied_out (fst p) (snd (chunk_alone one srcs sizes caps dsts i)) d"
    "length (snd p) = length x" "bytes_written (fst p) \<le> caps ! i"
proof -
  have a: "chunk_args (chunk_src srcs sizes i) (sizes ! i) (caps ! i) x"
    using assms(2,3) length_chunk_src[OF assms(1,2)] by (simp add: chunk_args_def)
  note s = one_stable[OF chunk_args_view[OF assms(1,2)] a]
  show f: "fst p = fst (chunk_alone one srcs sizes caps dsts i)" using s by (simp add: p_def chunk_alone_def)
  show "copied_out (fst p) (snd p) d = copied_out (fst p) (snd (chunk_alone one srcs sizes caps dsts i)) d"
    using s f by (simp add: p_def chunk_alone_def copied_out_def)
  show "length (snd p) = length x" "bytes_written (fst p) \<le> caps ! i" using one_bounds[OF a] by (simp_all add: p_def)
qed

lemma launch_contract:
  assumes inp: "stream_inputs srcs sizes caps n dsts" and be: "b < e" "e \<le> unat n"
    and m: "map unat (m_src st) = offsets 0 (map (\<lambda>i. length (chunk_src srcs sizes i)) [b..<e])"
      "m_ssz st = map ((!) sizes) [b..<e]" "m_cap st = map ((!) caps) [b..<e]"
      "m_dst st = (if host_out then map Staging doffs else map Caller [b..<e])"
      "host_out \<longrightarrow> map unat doffs = offsets 0 (map (\<lambda>i. unat (caps ! i)) [b..<e])"
    and dev: "w_dsrc s = concat (map (chunk_src srcs sizes) [b..<e]) @ rest"
    and ddst: "host_out \<longrightarrow> bytes_of caps [b..<e] \<le> length (w_ddst s)"
    and dres: "unat n \<le> length (w_dres s)"
    and ds: "length (w_dsts s) = length dsts" "\<forall>i\<ge>b. w_dsts s ! i = dsts ! i"
  shows "\<exists>launched dev' ds' res. wave_launch entry st b (e - b) s = Some (launched, s\<lparr>w_ddst := dev', w_dsts := ds', w_dres := res\<rparr>) \<and>
    length dev' = length (w_ddst s) \<and> length res = length (w_dres s) \<and> length ds' = length dsts \<and>
    (launched \<noteq> CUDEC_OK \<longrightarrow> \<not> accepts \<and> ds' = w_dsts s) \<and>
    (launched = CUDEC_OK \<longrightarrow> accepts \<and>
      (\<forall>i. b \<le> i \<and> i < e \<longrightarrow> res ! i = fst (chunk_alone one srcs sizes caps dsts i)) \<and>
      (\<forall>i. i < b \<or> e \<le> i \<longrightarrow> ds' ! i = w_dsts s ! i) \<and>
      (if host_out then ds' = w_dsts s \<and> (\<exists>slots post. dev' = concat slots @ post \<and> length slots = e - b \<and>
          (\<forall>j<e - b. length (slots ! j) = unat (caps ! (b + j)) \<and>
             (\<forall>d. copied_out (fst (chunk_alone one srcs sizes caps dsts (b + j))) (slots ! j) d =
                  copied_out (fst (chunk_alone one srcs sizes caps dsts (b + j))) (snd (chunk_alone one srcs sizes caps dsts (b + j))) d)))
       else \<forall>i. b \<le> i \<and> i < e \<longrightarrow> ds' ! i = chunk_final one host_out srcs sizes caps dsts i))"
proof -
  let ?is = "[b..<e]" and ?srcs = "map (chunk_src srcs sizes) [b..<e]"
  have lt: "i < unat n" if "i \<in> set ?is" for i using that be by simp
  have sub: "set ?is \<subseteq> {..<unat n}" using be by auto
  have g: "gather_slices (w_dsrc s) (m_src st) (m_ssz st) = Some ?srcs"
    using gather_concat[of "m_src st" "[]" ?srcs "m_ssz st" rest] m(1,2) dev length_chunk_src[OF inp] be
    by (simp add: comp_def)
  have view: "chunk_view caps (w_dsts s) i = chunk_view caps dsts i" if "b \<le> i" for i
    using ds(2) that by (simp add: chunk_view_def)
  obtain slots post where sl: "length slots = e - b" "\<forall>j<e - b. length (slots ! j) = unat (caps ! (b + j))"
    and host: "host_out \<Longrightarrow> w_ddst s = concat slots @ post"
    and dev_slots: "\<not> host_out \<Longrightarrow> slots = map (chunk_view caps dsts) ?is"
    and ld: "load_dsts (w_ddst s) (w_dsts s) (m_dst st) (m_cap st) = Some slots"
  proof (cases host_out)
    case True
    have "sum_list (map (\<lambda>i. unat (caps ! i)) ?is) \<le> length (w_ddst s)" using ddst True by (simp add: bytes_of_def)
    then obtain slots post where c: "w_ddst s = concat slots @ post" "map length slots = map (\<lambda>i. unat (caps ! i)) ?is"
      using cut_list by blast
    have l: "length slots = e - b" using arg_cong[OF c(2), of length] by simp
    have "length (slots ! j) = unat (caps ! (b + j))" if "j < e - b" for j
      using arg_cong[OF c(2), of "\<lambda>xs. xs ! j"] that l by simp
    moreover have "load_dsts (w_ddst s) (w_dsts s) (m_dst st) (m_cap st) = Some slots"
      using gather_concat[of doffs "[]" slots "m_cap st" post] m(3,4,5) True c by (simp add: load_staging comp_def)
    ultimately show ?thesis using that[of slots post] c(1) l True by simp
  next
    case False
    have "load_dsts (w_ddst s) (w_dsts s) (map Caller ?is) (map ((!) caps) ?is) = Some (map (chunk_view caps (w_dsts s)) ?is)"
    proof -
      have "load_dsts (w_ddst s) (w_dsts s) (map Caller is) (map ((!) caps) is) = Some (map (chunk_view caps (w_dsts s)) is)"
        if "set is \<subseteq> {b..<unat n}" for "is"
        using that
      proof (induction "is")
        case (Cons i "is")
        have i: "b \<le> i" "i < unat n" using Cons.prems by auto
        then have "i < length (w_dsts s)" "w_dsts s ! i = dsts ! i" "dsts ! i = None \<Longrightarrow> caps ! i = 0"
          "\<And>d. dsts ! i = Some d \<Longrightarrow> unat (caps ! i) \<le> length d" using inp ds by (auto simp: stream_inputs_def)
        then show ?case using Cons by (cases "dsts ! i") (simp_all add: slice_at_def chunk_view_def)
      qed simp
      then show ?thesis using be(2) by auto
    qed
    then have "load_dsts (w_ddst s) (w_dsts s) (m_dst st) (m_cap st) = Some (map (chunk_view caps dsts) ?is)"
      using False m(3,4) view by simp
    then show ?thesis using that[of "map (chunk_view caps dsts) ?is"] False length_chunk_view[OF inp] be by simp
  qed
  let ?res0 = "take (e - b) (drop b (w_dres s))"
  have lr: "length ?res0 = e - b" using dres be by simp
  show ?thesis
  proof (cases accepts)
    case False
    then obtain t where t: "t \<noteq> CUDEC_OK" "entry ?srcs (m_ssz st) (m_cap st) slots ?res0 = Some (t, slots, ?res0)"
      using refuses[OF False, of ?res0 ?srcs "m_ssz st" "m_cap st" slots] lr by auto
    have "\<exists>dev' ds'. store_dsts (w_ddst s, w_dsts s) (m_dst st) slots = Some (dev', ds') \<and> length dev' = length (w_ddst s) \<and> ds' = w_dsts s"
    proof (cases host_out)
      case True
      have ml: "map unat doffs = offsets 0 (map length slots)"
      proof -
        have "map length slots = map (\<lambda>i. unat (caps ! i)) ?is" using sl by (intro nth_equalityI) auto
        then show ?thesis using m(5) True by simp
      qed
      show ?thesis using True m(4) host scatter_concat[of doffs "[]" slots slots post] ml by (simp add: store_staging)
    next
      case False
      have "\<forall>j<length ?is. ?is ! j < length (w_dsts s) \<and>
          (case w_dsts s ! (?is ! j) of None \<Rightarrow> slots ! j = [] | Some d \<Rightarrow> length (slots ! j) \<le> length d)"
        using inp ds be sl dev_slots[OF False] by (auto simp: stream_inputs_def chunk_view_def split: option.splits)
      then obtain ds' where d: "store_dsts (w_ddst s, w_dsts s) (map Caller ?is) slots = Some (w_ddst s, ds')" "length ds' = length (w_dsts s)"
          "\<forall>j<length ?is. ds' ! (?is ! j) = map_option (\<lambda>d. slots ! j @ drop (length (slots ! j)) d) (w_dsts s ! (?is ! j))"
          "\<forall>i. i \<notin> set ?is \<longrightarrow> ds' ! i = w_dsts s ! i"
        using store_caller[of ?is slots "w_dsts s" "w_ddst s"] sl(1) by auto
      have "ds' = w_dsts s"
      proof (rule nth_equalityI)
        show "ds' ! i = w_dsts s ! i" if "i < length ds'" for i
        proof (cases "i \<in> set ?is")
          case True
          then have i: "b \<le> i" "i < e" by simp_all
          then have "ds' ! i = map_option (\<lambda>d. chunk_view caps dsts i @ drop (length (chunk_view caps dsts i)) d) (w_dsts s ! i)"
            using d(3)[rule_format, of "i - b"] dev_slots[OF False] by simp
          then show ?thesis using ds(2) i inp be
            by (cases "dsts ! i") (auto simp: chunk_view_def stream_inputs_def min_def)
        qed (use d(4) in blast)
      qed (rule d(2))
      then show ?thesis using d(1) m(4) False by simp
    qed
    then obtain dev' where "store_dsts (w_ddst s, w_dsts s) (m_dst st) slots = Some (dev', w_dsts s)" "length dev' = length (w_ddst s)" by blast
    then show ?thesis using t lr False ds
      by (intro exI[of _ t] exI[of _ dev'] exI[of _ "w_dsts s"] exI[of _ "take b (w_dres s) @ ?res0 @ drop (b + (e - b)) (w_dres s)"])
        (use be dres in \<open>simp add: wave_launch_def g ld\<close>)
  next
    case acc: True
    let ?one = "\<lambda>j. one (chunk_src srcs sizes (b + j)) (sizes ! (b + j)) (caps ! (b + j)) (slots ! j)"
    define outs res0 where "outs = map (\<lambda>j. snd (?one j)) [0..<e - b]" and "res0 = map (\<lambda>j. fst (?one j)) [0..<e - b]"
    have one: "fst (?one j) = fst (chunk_alone one srcs sizes caps dsts (b + j))"
      "copied_out (fst (?one j)) (snd (?one j)) d = copied_out (fst (?one j)) (snd (chunk_alone one srcs sizes caps dsts (b + j))) d"
      "length (snd (?one j)) = length (slots ! j)" if "j < e - b" for j d
      using one_any_slot[OF inp, of "b + j" "slots ! j"] that sl be by auto
    have en: "entry ?srcs (m_ssz st) (m_cap st) slots ?res0 = Some (CUDEC_OK, outs, res0)"
    proof -
      have "entry ?srcs (m_ssz st) (m_cap st) slots ?res0 = Some (CUDEC_OK,
        map (\<lambda>c. snd (one (?srcs ! c) (m_ssz st ! c) (m_cap st ! c) (slots ! c))) [0..<length ?srcs],
        map (\<lambda>c. fst (one (?srcs ! c) (m_ssz st ! c) (m_cap st ! c) (slots ! c))) [0..<length ?srcs])"
      proof (rule chunkwise[OF acc])
        have "unat n \<le> unat kMaxBatchChunks" using inp by (simp add: stream_inputs_def w2n)
        then show "length ?srcs \<le> unat kMaxBatchChunks" using be by simp
        show "chunk_args (?srcs ! c) (m_ssz st ! c) (m_cap st ! c) (slots ! c)" if "c < length ?srcs" for c
          using that m(2,3) sl length_chunk_src[OF inp] be by (simp add: chunk_args_def)
      qed (use be m(2,3) sl lr in simp_all)
      then show ?thesis using m(2,3) by (simp add: outs_def res0_def cong: map_cong)
    qed
    define res where "res = take b (w_dres s) @ res0 @ drop (b + (e - b)) (w_dres s)"
    have res: "length res = length (w_dres s)" "\<And>i. b \<le> i \<Longrightarrow> i < e \<Longrightarrow> res ! i = fst (chunk_alone one srcs sizes caps dsts i)"
    proof -
      show "length res = length (w_dres s)" using be dres by (simp add: res_def res0_def)
      show "res ! i = fst (chunk_alone one srcs sizes caps dsts i)" if "b \<le> i" "i < e" for i
        using that be dres one(1)[of "i - b"] by (simp add: res_def res0_def nth_append)
    qed
    have lo: "length outs = e - b" "map length outs = map length slots"
      using one(3) sl(1) by (auto simp: outs_def intro!: nth_equalityI)
    show ?thesis
    proof (cases host_out)
      case True
      have ml: "map unat doffs = offsets 0 (map length slots)"
      proof -
        have "map length slots = map (\<lambda>i. unat (caps ! i)) ?is" using sl by (intro nth_equalityI) auto
        then show ?thesis using m(5) True by simp
      qed
      have "store_dsts (w_ddst s, w_dsts s) (m_dst st) outs = Some (concat outs @ post, w_dsts s)"
        using True m(4) host scatter_concat[of doffs "[]" slots outs post] ml lo by (simp add: store_staging)
      then have "wave_launch entry st b (e - b) s = Some (CUDEC_OK, s\<lparr>w_ddst := concat outs @ post, w_dsts := w_dsts s, w_dres := res\<rparr>)"
        by (simp add: wave_launch_def g ld en res_def)
      moreover have "length (concat outs @ post) = length (w_ddst s)"
        using host[OF True] lo(2) by (simp add: length_concat)
      moreover have "length (outs ! j) = unat (caps ! (b + j))" if "j < e - b" for j
        using one(3)[OF that] sl that by (simp add: outs_def)
      moreover have "copied_out (fst (chunk_alone one srcs sizes caps dsts (b + j))) (outs ! j) d =
          copied_out (fst (chunk_alone one srcs sizes caps dsts (b + j))) (snd (chunk_alone one srcs sizes caps dsts (b + j))) d"
        if "j < e - b" for j d using one(1,2)[OF that] that by (simp add: outs_def)
      ultimately show ?thesis using acc res lo(1) ds(1) True
        by (intro exI[of _ CUDEC_OK] exI[of _ "concat outs @ post"] exI[of _ "w_dsts s"] exI[of _ res]) auto
    next
      case False
      have "\<forall>j<length ?is. ?is ! j < length (w_dsts s) \<and>
          (case w_dsts s ! (?is ! j) of None \<Rightarrow> outs ! j = [] | Some d \<Rightarrow> length (outs ! j) \<le> length d)"
      proof (intro allI impI)
        fix j assume "j < length ?is"
        then have j: "j < e - b" by simp
        have "length (outs ! j) = unat (caps ! (b + j))" using one(3)[OF j] sl j by (simp add: outs_def)
        then show "?is ! j < length (w_dsts s) \<and>
          (case w_dsts s ! (?is ! j) of None \<Rightarrow> outs ! j = [] | Some d \<Rightarrow> length (outs ! j) \<le> length d)"
          using inp ds be j by (auto simp: stream_inputs_def split: option.splits)
      qed
      then obtain ds' where d: "store_dsts (w_ddst s, w_dsts s) (map Caller ?is) outs = Some (w_ddst s, ds')" "length ds' = length (w_dsts s)"
          "\<forall>j<length ?is. ds' ! (?is ! j) = map_option (\<lambda>d. outs ! j @ drop (length (outs ! j)) d) (w_dsts s ! (?is ! j))"
          "\<forall>i. i \<notin> set ?is \<longrightarrow> ds' ! i = w_dsts s ! i"
        using store_caller[of ?is outs "w_dsts s" "w_ddst s"] lo(1) by auto
      have fin: "ds' ! i = chunk_final one host_out srcs sizes caps dsts i" if i: "b \<le> i" "i < e" for i
      proof -
        have "outs ! (i - b) = snd (chunk_alone one srcs sizes caps dsts i)"
        proof -
          have j: "i - b < e - b" "b + (i - b) = i" using i by simp_all
          show ?thesis using dev_slots[OF False] j by (simp add: outs_def chunk_alone_def)
        qed
        then show ?thesis using d(3)[rule_format, of "i - b"] i False ds(2)
          by (simp add: chunk_final_def case_prod_beta)
      qed
      have "wave_launch entry st b (e - b) s = Some (CUDEC_OK, s\<lparr>w_ddst := w_ddst s, w_dsts := ds', w_dres := res\<rparr>)"
      proof -
        have "store_dsts (w_ddst s, w_dsts s) (m_dst st) outs = Some (w_ddst s, ds')" using d(1) m(4) False by simp
        then show ?thesis by (simp add: wave_launch_def g ld en res_def)
      qed
      then show ?thesis using acc res d(2,4) ds(1) False fin
        by (intro exI[of _ CUDEC_OK] exI[of _ "w_ddst s"] exI[of _ ds'] exI[of _ res]) auto
    qed
  qed
qed

end

context batch_entry begin

lemma stream_wave_contract:
  assumes inp: "stream_inputs srcs sizes caps n dsts" and bs: "batch_shape wave n" and w: "w < n_waves wave n"
    and iv: "wave_inv one host_out srcs sizes caps wave n dsts s"
    and dn: "wave_done one host_out srcs sizes caps dsts (w_begin wave w) s"
  shows "wp (stream_wave rt entry host_out wave n srcs sizes caps w s) (\<lambda>(go, s').
     wave_inv one host_out srcs sizes caps wave n dsts s' \<and>
     (go \<longrightarrow> accepts \<and> wave_done one host_out srcs sizes caps dsts (w_end wave n w) s') \<and>
     (\<not> go \<longrightarrow> w_status s' \<noteq> CUDEC_OK \<and> (if w_refused s' then \<not> accepts else w_status s' = CUDEC_ERR_CUDA \<and> (\<exists>c. \<not> rt c))))"
    (is "wp _ ?Q")
proof -
  define b e where "b = w_begin wave w" and "e = w_end wave n w"
  note r = wave_range[OF bs w, folded b_def e_def]
  let ?is = "[b..<e]"
  have room: "bytes_of sizes ?is \<le> length (w_stage s)" "bytes_of sizes ?is \<le> length (w_dsrc s)"
    "host_out \<Longrightarrow> bytes_of caps ?is \<le> length (w_ddst s)" "length (w_stage s) < 2 ^ 64" "length (w_ddst s) < 2 ^ 64"
    "unat n \<le> length (w_dres s)" "unat n \<le> length (w_mirror s)"
    using iv w by (auto simp: wave_inv_def wave_room_def wave_bytes_def b_def e_def)
  have n37: "unat n < 2 ^ 64" using unat_u64_less[of n] by simp
  have fail: "?Q (wave_fail CUDEC_ERR_CUDA s')"
    if "wave_inv one host_out srcs sizes caps wave n dsts s'" "\<not> w_refused s'" "\<not> rt c" for s' c
    using that by (auto simp: wave_fail_def wave_inv_def wave_room_def)
  have failw: "wp (stream_wave rt entry host_out wave n srcs sizes caps w s) ?Q"
    if "stream_wave rt entry host_out wave n srcs sizes caps w s = Some (wave_fail CUDEC_ERR_CUDA s')"
      "wave_inv one host_out srcs sizes caps wave n dsts s'" "\<not> w_refused s'" "\<not> rt c" for s' c
    unfolding that(1) wp_Some by (rule fail[OF that(2-4)])
  have keep: "wave_inv one host_out srcs sizes caps wave n dsts (s\<lparr>w_stage := a, w_dsrc := a', w_ddst := a'', w_dres := res\<rparr>)"
    if "length a = length (w_stage s)" "length a' = length (w_dsrc s)" "length a'' = length (w_ddst s)" "length res = length (w_dres s)"
    for a a' a'' res
    using iv that by (simp add: wave_inv_def wave_room_def)
  have nref: "\<not> w_refused s" "w_status s = CUDEC_OK" using dn by (simp_all add: wave_done_def)
  let ?st0 = "\<lparr>st_bytes = w_stage s, st_src_off = 0, st_dst_off = 0, m_src = [], m_ssz = [], m_dst = [], m_cap = []\<rparr>"
  have "\<exists>st' offs doffs. stage_wave host_out wave srcs sizes caps ?is ?st0 = Some st' \<and>
     st_bytes st' = [] @ concat (map (chunk_src srcs sizes) ?is) @ drop (bytes_of sizes ?is) (w_stage s) \<and>
     unat (st_src_off st') = length ([] :: u8 list) + bytes_of sizes ?is \<and>
     m_src st' = m_src ?st0 @ offs \<and> map unat offs = offsets (length ([] :: u8 list)) (map (\<lambda>i. length (chunk_src srcs sizes i)) ?is) \<and>
     m_ssz st' = m_ssz ?st0 @ map ((!) sizes) ?is \<and> m_cap st' = m_cap ?st0 @ map ((!) caps) ?is \<and>
     m_dst st' = m_dst ?st0 @ (if host_out then map Staging doffs else map Caller ?is) \<and>
     (host_out \<longrightarrow> map unat doffs = offsets (unat (st_dst_off ?st0)) (map (\<lambda>i. unat (caps ! i)) ?is))"
    by (rule stage_wave_contract[OF inp]) (use r room in auto)
  then obtain st doffs where st: "stage_wave host_out wave srcs sizes caps ?is ?st0 = Some st"
     "st_bytes st = concat (map (chunk_src srcs sizes) ?is) @ drop (bytes_of sizes ?is) (w_stage s)"
     "unat (st_src_off st) = bytes_of sizes ?is"
     "map unat (m_src st) = offsets 0 (map (\<lambda>i. length (chunk_src srcs sizes i)) ?is)"
     "m_ssz st = map ((!) sizes) ?is" "m_cap st = map ((!) caps) ?is"
     "m_dst st = (if host_out then map Staging doffs else map Caller ?is)"
     "host_out \<longrightarrow> map unat doffs = offsets 0 (map (\<lambda>i. unat (caps ! i)) ?is)" by auto
  have lsrc: "length (concat (map (chunk_src srcs sizes) ?is)) = bytes_of sizes ?is"
  proof -
    have "set ?is \<subseteq> {..<unat n}" using r(5) by auto
    from bytes_of_src[OF inp this] show ?thesis by simp
  qed
  have lst: "length (st_bytes st) = length (w_stage s)" using st(2) lsrc room(1) by simp
  have up: "slice_at (st_bytes st) 0 (st_src_off st) = Some (concat (map (chunk_src srcs sizes) ?is))"
    using st(2,3) lsrc by (simp add: slice_at_def)
  define dev where "dev = concat (map (chunk_src srcs sizes) ?is) @ drop (bytes_of sizes ?is) (w_dsrc s)"
  have dev: "splice_at (w_dsrc s) 0 (concat (map (chunk_src srcs sizes) ?is)) = Some dev" "length dev = length (w_dsrc s)"
    using lsrc room(2) by (simp_all add: splice_at_def dev_def)
  define s1 where "s1 = s\<lparr>w_stage := st_bytes st, w_dsrc := dev\<rparr>"
  have s1: "w_dsrc s1 = dev" "w_ddst s1 = w_ddst s" "w_dres s1 = w_dres s" "w_dsts s1 = w_dsts s" "w_mirror s1 = w_mirror s"
    "w_stage s1 = st_bytes st" "\<not> w_refused s1" "w_status s1 = CUDEC_OK" using nref by (simp_all add: s1_def)
  have iv1: "wave_inv one host_out srcs sizes caps wave n dsts s1"
    using keep[OF lst dev(2), of "w_ddst s" "w_dres s"] by (simp add: s1_def)
  have dsts: "length (w_dsts s1) = length dsts" "\<forall>i\<ge>b. w_dsts s1 ! i = dsts ! i"
    using iv dn by (simp_all add: wave_inv_def wave_done_def b_def s1)
  have wi0: "wave_inv one host_out srcs sizes caps wave n dsts (s\<lparr>w_stage := st_bytes st\<rparr>)"
    using keep[OF lst refl refl refl] by simp
  have f: "w_dsrc s1 = concat (map (chunk_src srcs sizes) ?is) @ drop (bytes_of sizes ?is) (w_dsrc s)"
    "host_out \<longrightarrow> bytes_of caps ?is \<le> length (w_ddst s1)" "unat n \<le> length (w_dres s1)"
    using room(3,6) by (simp_all add: s1 dev_def)
  obtain launched dev' ds' res where la:
    "wave_launch entry st b (e - b) s1 = Some (launched, s1\<lparr>w_ddst := dev', w_dsts := ds', w_dres := res\<rparr>) \<and>
    length dev' = length (w_ddst s1) \<and> length res = length (w_dres s1) \<and> length ds' = length dsts \<and>
    (launched \<noteq> CUDEC_OK \<longrightarrow> \<not> accepts \<and> ds' = w_dsts s1) \<and>
    (launched = CUDEC_OK \<longrightarrow> accepts \<and>
      (\<forall>i. b \<le> i \<and> i < e \<longrightarrow> res ! i = fst (chunk_alone one srcs sizes caps dsts i)) \<and>
      (\<forall>i. i < b \<or> e \<le> i \<longrightarrow> ds' ! i = w_dsts s1 ! i) \<and>
      (if host_out then ds' = w_dsts s1 \<and> (\<exists>slots post. dev' = concat slots @ post \<and> length slots = e - b \<and>
          (\<forall>j<e - b. length (slots ! j) = unat (caps ! (b + j)) \<and>
             (\<forall>d. copied_out (fst (chunk_alone one srcs sizes caps dsts (b + j))) (slots ! j) d =
                  copied_out (fst (chunk_alone one srcs sizes caps dsts (b + j))) (snd (chunk_alone one srcs sizes caps dsts (b + j))) d)))
       else \<forall>i. b \<le> i \<and> i < e \<longrightarrow> ds' ! i = chunk_final one host_out srcs sizes caps dsts i))"
    using launch_contract[where s = s1, OF inp r(4,5) st(4,5,6,7,8) f dsts] by (elim exE) (rule that)
  note la1 = la[THEN conjunct1] and la2 = la[THEN conjunct2, THEN conjunct1]
    and la3 = la[THEN conjunct2, THEN conjunct2, THEN conjunct1]
    and la4 = la[THEN conjunct2, THEN conjunct2, THEN conjunct2, THEN conjunct1]
    and la5 = la[THEN conjunct2, THEN conjunct2, THEN conjunct2, THEN conjunct2, THEN conjunct1, rule_format]
    and la6 = la[THEN conjunct2, THEN conjunct2, THEN conjunct2, THEN conjunct2, THEN conjunct2, rule_format]
  have head: "stream_wave rt entry host_out wave n srcs sizes caps w s =
     (if w \<noteq> 0 \<and> \<not> rt (Reuse_gate w) then Some (wave_fail CUDEC_ERR_CUDA s)
      else if st_src_off st \<noteq> 0 \<and> \<not> rt (Upload_src w) then Some (wave_fail CUDEC_ERR_CUDA (s\<lparr>w_stage := st_bytes st\<rparr>))
      else if \<not> rt (Upload_meta w) then Some (wave_fail CUDEC_ERR_CUDA s1)
      else if \<not> rt (Record_reuse w) then Some (wave_fail CUDEC_ERR_CUDA s1)
      else do {
        (launched, s) \<leftarrow> wave_launch entry st b (e - b) s1;
        if launched \<noteq> CUDEC_OK then Some (wave_fail launched (s\<lparr>w_refused := True\<rparr>))
        else if \<not> rt (Read_results w) then Some (wave_fail CUDEC_ERR_CUDA s)
        else do {
          res \<leftarrow> slice_at (w_dres s) (of_nat b) (of_nat (e - b));
          mirror \<leftarrow> splice_at (w_mirror s) (of_nat b) res;
          let s = s\<lparr>w_mirror := mirror\<rparr>;
          if \<not> host_out then Some (True, s)
          else if \<not> rt (Sync_wave w) then Some (wave_fail CUDEC_ERR_CUDA s)
          else do {
            (copied, mirror, ds) \<leftarrow> copy_wave_to_host rt (w_ddst s) caps [b..<e] 0 (w_mirror s) (w_dsts s);
            let s = s\<lparr>w_mirror := mirror, w_dsts := ds\<rparr>;
            if copied \<noteq> CUDEC_OK then Some (wave_fail copied s) else Some (True, s)
          }
        }
      })"
    unfolding stream_wave_def Let_def r(1,2) st(1) bind.bind_lunit up
    by (simp add: dev(1) s1_def Let_def del: of_nat_diff split del: if_split cong: if_cong)
  define s2 where "s2 = s1\<lparr>w_ddst := dev', w_dsts := ds', w_dres := res\<rparr>"
  have s2: "w_stage s2 = st_bytes st" "w_dsrc s2 = dev" "w_ddst s2 = dev'" "w_dsts s2 = ds'" "w_dres s2 = res"
    "w_mirror s2 = w_mirror s" "w_status s2 = CUDEC_OK" "\<not> w_refused s2" using s1 by (simp_all add: s2_def)
  have ub: "unat (of_nat b :: u64) = b" "unat (of_nat (e - b) :: u64) = e - b"
    using r(4,5) n37 by (simp_all add: unat_of_nat_less del: of_nat_diff unsigned_of_nat)
  let ?r = "\<lambda>i. fst (chunk_alone one srcs sizes caps dsts i)" and ?fin = "chunk_final one host_out srcs sizes caps dsts"
  have dsk: "ds' ! i = w_dsts s ! i \<or> b \<le> i \<and> i < e \<and> ds' ! i = ?fin i" for i
    using la5 la6 s1(4) by (cases "launched = CUDEC_OK"; cases host_out; cases "i < b \<or> e \<le> i") auto
  have iv2: "wave_inv one host_out srcs sizes caps wave n dsts (s2\<lparr>w_mirror := m\<rparr>)"
    if "length m = length (w_mirror s)" "\<forall>i<unat n. m ! i = w_mirror s ! i \<or> m ! i = ?r i" for m
  proof -
    have "ds' ! i = dsts ! i \<or> ds' ! i = ?fin i" if "i < unat n" for i
      using that iv dsk[of i] by (auto simp: wave_inv_def)
    moreover have "m ! i = not_decoded CUDEC_ERR_CUDA \<or> m ! i = ?r i" if "i < unat n" for i
    proof -
      have "w_mirror s ! i = not_decoded CUDEC_ERR_CUDA \<or> w_mirror s ! i = ?r i" using iv that by (simp add: wave_inv_def)
      then show ?thesis using \<open>\<forall>i<unat n. m ! i = w_mirror s ! i \<or> m ! i = ?r i\<close> that by metis
    qed
    moreover have "ds' ! i = dsts ! i" if "unat n \<le> i" for i
      using that iv dsk[of i] r(5) by (auto simp: wave_inv_def)
    moreover have "wave_room sizes caps host_out wave n (s2\<lparr>w_mirror := m\<rparr>)"
      using iv that(1) lst dev(2) la2 la3 by (simp add: wave_inv_def wave_room_def s2 s1)
    ultimately show ?thesis using la4 by (simp add: wave_inv_def s2)
  qed
  have iv2': "wave_inv one host_out srcs sizes caps wave n dsts s2" 
  proof -
    have "s2\<lparr>w_mirror := w_mirror s\<rparr> = s2" by (simp flip: s2(6))
    then show ?thesis using iv2[of "w_mirror s"] by simp
  qed
  define slice where "slice = take (e - b) (drop b res)"
  define m2 where "m2 = take b (w_mirror s) @ slice @ drop (b + (e - b)) (w_mirror s)"
  have lsl: "length slice = e - b" using la3 s1(3) room(6) r(4,5) by (simp add: slice_def)
  have rd: "slice_at res (of_nat b) (of_nat (e - b)) = Some slice"
    using la3 s1(3) room(6) r(4,5) ub by (simp add: slice_at_def slice_def del: of_nat_diff)
  have wrm: "splice_at (w_mirror s) (of_nat b) slice = Some m2"
    using room(7) r(4,5) ub(1) lsl by (simp add: splice_at_def m2_def)
  have m2: "length m2 = length (w_mirror s)" "\<And>i. i < b \<or> e \<le> i \<Longrightarrow> i < unat n \<Longrightarrow> m2 ! i = w_mirror s ! i"
    "\<And>i. launched = CUDEC_OK \<Longrightarrow> b \<le> i \<Longrightarrow> i < e \<Longrightarrow> m2 ! i = ?r i"
  proof -
    show "length m2 = length (w_mirror s)" using lsl room(7) r(4,5) by (simp add: m2_def)
    have le: "b + length slice \<le> length (w_mirror s)" using lsl room(7) r(4,5) by simp
    have nm: "m2 ! i = (if b \<le> i \<and> i < e then slice ! (i - b) else w_mirror s ! i)" if "i < unat n" for i
      using nth_spliced[OF le, of i] lsl r(4) that room(7) by (simp add: m2_def)
    show "m2 ! i = w_mirror s ! i" if "i < b \<or> e \<le> i" "i < unat n" for i
      using that(1) by (auto simp: nm[OF that(2)])
    show "m2 ! i = ?r i" if "launched = CUDEC_OK" "b \<le> i" "i < e" for i
    proof -
      have "slice ! (i - b) = res ! i" using that la3 s1(3) room(6) r(4,5) by (simp add: slice_def)
      then show ?thesis using la6[OF that(1)] that(2,3) r(5) by (simp add: nm)
    qed
  qed
  show ?thesis
  proof (cases "(w = 0 \<or> rt (Reuse_gate w)) \<and> (st_src_off st = 0 \<or> rt (Upload_src w)) \<and> rt (Upload_meta w) \<and> rt (Record_reuse w)")
    case False
    then consider (gate) "w \<noteq> 0 \<and> \<not> rt (Reuse_gate w)"
      | (src) "\<not> (w \<noteq> 0 \<and> \<not> rt (Reuse_gate w))" "st_src_off st \<noteq> 0 \<and> \<not> rt (Upload_src w)"
      | (later) "\<not> (w \<noteq> 0 \<and> \<not> rt (Reuse_gate w))" "\<not> (st_src_off st \<noteq> 0 \<and> \<not> rt (Upload_src w))"
          "\<not> rt (Upload_meta w) \<or> \<not> rt (Record_reuse w)" by argo
    then show ?thesis
    proof cases
      case gate
      have "stream_wave rt entry host_out wave n srcs sizes caps w s = Some (wave_fail CUDEC_ERR_CUDA s)"
        unfolding head by (rule if_P[OF gate])
      then show ?thesis by (rule failw[OF _ iv nref(1)]) (use gate in blast)
    next
      case src
      have nr: "\<not> w_refused (s\<lparr>w_stage := st_bytes st\<rparr>)" using nref by simp
      have "stream_wave rt entry host_out wave n srcs sizes caps w s = Some (wave_fail CUDEC_ERR_CUDA (s\<lparr>w_stage := st_bytes st\<rparr>))"
        unfolding head if_not_P[OF src(1)] by (rule if_P[OF src(2)])
      then show ?thesis by (rule failw[OF _ wi0 nr]) (use src(2) in blast)
    next
      case later
      have "stream_wave rt entry host_out wave n srcs sizes caps w s = Some (wave_fail CUDEC_ERR_CUDA s1)"
        unfolding head if_not_P[OF later(1)] if_not_P[OF later(2)] using later(3)
        by (cases "rt (Upload_meta w)") (simp_all only: if_True if_False not_True_eq_False not_False_eq_True simp_thms)
      then show ?thesis using failw[OF _ iv1 s1(7)] later(3) by blast
    qed
  next
    case up: True
    have np: "\<not> (w \<noteq> 0 \<and> \<not> rt (Reuse_gate w))" "\<not> (st_src_off st \<noteq> 0 \<and> \<not> rt (Upload_src w))"
      "\<not> \<not> rt (Upload_meta w)" "\<not> \<not> rt (Record_reuse w)" using up by simp_all
    note after = head[unfolded if_not_P[OF np(1)] if_not_P[OF np(2)] if_not_P[OF np(3)] if_not_P[OF np(4)] la1 s2_def[symmetric]]
    show ?thesis
    proof (cases "launched = CUDEC_OK")
      case False
      have "?Q (wave_fail launched (s2\<lparr>w_refused := True\<rparr>))"
        using False la5[OF False] iv2' by (auto simp: wave_fail_def wave_inv_def wave_room_def)
      then show ?thesis unfolding after using False by (simp add: wp_Some)
    next
      case ok: True
      have acc: "accepts" using la6[OF ok] by simp
      define s3 where "s3 = s2\<lparr>w_mirror := m2\<rparr>"
      have mm: "\<forall>i<unat n. m2 ! i = w_mirror s ! i \<or> m2 ! i = ?r i"
        using m2(2) m2(3)[OF ok] by (meson not_le)
      have iv3: "wave_inv one host_out srcs sizes caps wave n dsts s3"
        unfolding s3_def by (rule iv2[OF m2(1) mm])
      have tail: "stream_wave rt entry host_out wave n srcs sizes caps w s =
        (if \<not> rt (Read_results w) then Some (wave_fail CUDEC_ERR_CUDA s2)
         else if \<not> host_out then Some (True, s3)
         else if \<not> rt (Sync_wave w) then Some (wave_fail CUDEC_ERR_CUDA s3)
         else do {
            (copied, mirror, ds) \<leftarrow> copy_wave_to_host rt dev' caps [b..<e] 0 m2 ds';
            let s = s3\<lparr>w_mirror := mirror, w_dsts := ds\<rparr>;
            if copied \<noteq> CUDEC_OK then Some (wave_fail copied s) else Some (True, s)
         })"
        unfolding after ok bind.bind_lunit prod.case
        by (simp add: s2 rd wrm s3_def Let_def del: of_nat_diff split del: if_split cong: if_cong)
      have bad: "?Q (wave_fail CUDEC_ERR_CUDA s2)" if "\<not> rt (Read_results w)" using fail[OF iv2' s2(8) that] .
      have bad3: "?Q (wave_fail CUDEC_ERR_CUDA s3)" if "\<not> rt (Sync_wave w)"
        using fail[OF iv3 _ that] s2(8) by (simp add: s3_def)
      have mir: "m2 ! i = ?r i" if "i < e" for i
      proof (cases "b \<le> i")
        case False
        then show ?thesis using m2(2)[of i] dn r(5) that by (simp add: wave_done_def b_def)
      qed (use m2(3)[OF ok] that in auto)
      have dprefix: "w_dsts s ! i = ?fin i" if "i < b" for i using dn that by (simp add: wave_done_def b_def)
      have dafter: "w_dsts s ! i = dsts ! i" if "b \<le> i" for i using dn that by (simp add: wave_done_def b_def)
      show ?thesis
      proof (cases host_out)
        case False
        have "ds' ! i = ?fin i" if "i < e" for i
          using la6[OF ok] False that dprefix[of i] s1(4) by (cases "b \<le> i") auto
        moreover have "ds' ! i = dsts ! i" if "e \<le> i" for i
          using la6[OF ok] that dafter[of i] s1(4) r(4) by auto
        ultimately have "wave_done one host_out srcs sizes caps dsts e s3"
          using mir s2(7,8) by (simp add: wave_done_def s3_def s2)
        then show ?thesis unfolding tail using False bad iv3 acc by (auto simp: wp_rules e_def)
      next
        case True
        have d: "ds' = w_dsts s" using la6[OF ok] True s1(4) by simp
        obtain slots post where sl: "dev' = concat slots @ post" "length slots = e - b"
          "\<And>j. j < e - b \<Longrightarrow> length (slots ! j) = unat (caps ! (b + j))"
          "\<And>j d. j < e - b \<Longrightarrow> copied_out (?r (b + j)) (slots ! j) d = copied_out (?r (b + j)) (snd (chunk_alone one srcs sizes caps dsts (b + j))) d"
          using la6[OF ok] True by auto
        have bw: "bytes_written (?r i) \<le> caps ! i" if "i < unat n" for i
          using one_bounds[OF chunk_args_view[OF inp that]] by (simp add: chunk_alone_def)
        have fin: "copied_out (m2 ! (b + j)) (slots ! j) (ds' ! (b + j)) = ?fin (b + j)" if "j < e - b" for j
          using mir[of "b + j"] sl(4)[OF that] dafter[of "b + j"] that True d
          by (simp add: chunk_final_def case_prod_beta)
        have "wp (copy_wave_to_host rt ([] @ concat slots @ post) caps ?is 0 m2 ds') (\<lambda>(st, mirror', dsts').
           length mirror' = length m2 \<and> length dsts' = length ds' \<and>
           (\<forall>i. i \<notin> set ?is \<longrightarrow> mirror' ! i = m2 ! i \<and> dsts' ! i = ds' ! i) \<and>
           (\<forall>j<length ?is. mirror' ! (?is ! j) = m2 ! (?is ! j) \<or>
              caps ! (?is ! j) < bytes_written (m2 ! (?is ! j)) \<and> mirror' ! (?is ! j) = not_decoded CUDEC_ERR_CUDA) \<and>
           (\<forall>j<length ?is. dsts' ! (?is ! j) = ds' ! (?is ! j) \<or> bytes_written (m2 ! (?is ! j)) \<le> caps ! (?is ! j) \<and>
              dsts' ! (?is ! j) = copied_out (m2 ! (?is ! j)) (slots ! j) (ds' ! (?is ! j))) \<and>
           (st = CUDEC_OK \<longrightarrow> mirror' = m2 \<and> (\<forall>j<length ?is. bytes_written (m2 ! (?is ! j)) \<le> caps ! (?is ! j) \<and>
              dsts' ! (?is ! j) = copied_out (m2 ! (?is ! j)) (slots ! j) (ds' ! (?is ! j)))) \<and>
           (st \<noteq> CUDEC_OK \<longrightarrow> st = CUDEC_ERR_CUDA \<and> ((\<exists>i\<in>set ?is. \<not> rt (Copy_out i)) \<or>
              (\<exists>i\<in>set ?is. caps ! i < bytes_written (m2 ! i)))))"
        proof (rule copy_wave_contract)
          show "\<forall>j<length ?is. ?is ! j < length ds' \<and> ?is ! j < length caps \<and> ?is ! j < length m2 \<and>
            length (slots ! j) = unat (caps ! (?is ! j)) \<and> (\<forall>d. ds' ! (?is ! j) = Some d \<longrightarrow> unat (caps ! (?is ! j)) \<le> length d)"
            using sl(3) inp r(4,5) room(7) m2(1) la4 dafter d by (auto simp: stream_inputs_def)
          show "length ([] :: u8 list) + length (concat slots) < 2 ^ 64"
            using la2 s1(2) room(5) sl(1) by simp
        qed (use sl(2) in simp_all)
        then have W: "wp (copy_wave_to_host rt dev' caps ?is 0 m2 ds') (\<lambda>(st, mirror', dsts').
           mirror' = m2 \<and> length dsts' = length dsts \<and> (\<forall>i. i < b \<or> e \<le> i \<longrightarrow> dsts' ! i = ds' ! i) \<and>
           (\<forall>i. b \<le> i \<and> i < e \<longrightarrow> dsts' ! i = dsts ! i \<or> dsts' ! i = ?fin i) \<and>
           (st = CUDEC_OK \<longrightarrow> (\<forall>i. b \<le> i \<and> i < e \<longrightarrow> dsts' ! i = ?fin i)) \<and>
           (st \<noteq> CUDEC_OK \<longrightarrow> st = CUDEC_ERR_CUDA \<and> (\<exists>c. \<not> rt c)))"
          unfolding sl(1) append_Nil
        proof (rule wp_mono, clarify, goal_cases)
          case (1 t m' d')
          have nb: "bytes_written (m2 ! i) \<le> caps ! i" if "i < e" for i using mir[OF that] bw[of i] that r(5) by simp
          have sel: "[b..<e] ! (i - b) = i \<and> i - b < length [b..<e]" if "b \<le> i" "i < e" for i using that by simp
          have mm': "m' = m2"
          proof (rule nth_equalityI)
            show "m' ! i = m2 ! i" if "i < length m'" for i
            proof (cases "i \<in> set ?is")
              case True
              then show ?thesis using 1(5)[rule_format, of "i - b"] sel[of i] nb[of i] by auto
            qed (use 1(4) in blast)
          qed (rule 1(2))
          have fin': "copied_out (m2 ! i) (slots ! (i - b)) (ds' ! i) = ?fin i" if "b \<le> i" "i < e" for i
            using fin[of "i - b"] that by simp
          have dk: "d' ! i = dsts ! i \<or> d' ! i = ?fin i" if "b \<le> i" "i < e" for i
            using 1(6)[rule_format, of "i - b"] sel[OF that] fin'[OF that] d dafter[OF that(1)] by auto
          have df: "d' ! i = ?fin i" if "t = CUDEC_OK" "b \<le> i" "i < e" for i
            using 1(7)[rule_format, OF that(1)] sel[OF that(2,3)] fin'[OF that(2,3)] by fastforce
          have er: "t = CUDEC_ERR_CUDA \<and> (\<exists>c. \<not> rt c)" if "t \<noteq> CUDEC_OK"
            using 1(8)[rule_format, OF that] nb by (auto simp: not_le[symmetric])
          show ?case using 1(3,4) la4 mm' dk df er by auto
        qed
        obtain t m' d' where c0: "copy_wave_to_host rt dev' caps ?is 0 m2 ds' = Some (t, m', d')"
          using W by (auto simp: wp_iff)
        note c1 = wpD[OF W c0, unfolded prod.case]
        have c: "copy_wave_to_host rt dev' caps ?is 0 m2 ds' = Some (t, m2, d')" "length d' = length dsts"
           "\<And>i. i < b \<or> e \<le> i \<Longrightarrow> d' ! i = ds' ! i" "\<And>i. b \<le> i \<Longrightarrow> i < e \<Longrightarrow> d' ! i = dsts ! i \<or> d' ! i = ?fin i"
           "\<And>i. t = CUDEC_OK \<Longrightarrow> b \<le> i \<Longrightarrow> i < e \<Longrightarrow> d' ! i = ?fin i" "t \<noteq> CUDEC_OK \<Longrightarrow> t = CUDEC_ERR_CUDA \<and> (\<exists>c. \<not> rt c)"
          using c0 c1 by blast+
        define s4 where "s4 = s3\<lparr>w_mirror := m2, w_dsts := d'\<rparr>"
        have s4: "w_dsts s4 = d'" "w_mirror s4 = m2" "w_status s4 = CUDEC_OK" "\<not> w_refused s4"
          "wave_room sizes caps host_out wave n s4 = wave_room sizes caps host_out wave n s3"
          using s2 by (simp_all add: s4_def s3_def wave_room_def)
        have iv4: "wave_inv one host_out srcs sizes caps wave n dsts s4"
        proof -
          have "d' ! i = dsts ! i \<or> d' ! i = ?fin i" if "i < unat n" for i
            using that c(3,4)[of i] iv d by (cases "b \<le> i \<and> i < e") (auto simp: wave_inv_def)
          moreover have "d' ! i = dsts ! i" if "unat n \<le> i" for i
            using that c(3)[of i] iv d r(5) by (auto simp: wave_inv_def)
          ultimately show ?thesis using iv3 c(2) by (simp add: wave_inv_def s4 s3_def)
        qed
        have done4: "wave_done one host_out srcs sizes caps dsts e s4" if "t = CUDEC_OK"
        proof -
          have "d' ! i = ?fin i" if "i < e" for i
            using that c(5)[OF \<open>t = CUDEC_OK\<close>, of i] c(3)[of i] dprefix[of i] d by (cases "b \<le> i") auto
          moreover have "d' ! i = dsts ! i" if "e \<le> i" for i
            using that c(3)[of i] dafter[of i] d r(4) by auto
          ultimately show ?thesis using mir s4 by (simp add: wave_done_def)
        qed
        have "?Q (if t \<noteq> CUDEC_OK then wave_fail t s4 else (True, s4))"
        proof (cases "t = CUDEC_OK")
          case True
          then show ?thesis using iv4 done4 acc by (simp add: e_def)
        next
          case False
          then obtain c0 where "t = CUDEC_ERR_CUDA" "\<not> rt c0" using c(6) by blast
          then show ?thesis using fail[OF iv4 s4(4)] by simp
        qed
        then show ?thesis unfolding tail using True bad bad3 c(1)
          by (cases "t = CUDEC_OK") (auto simp: wp_rules s4_def Let_def)
      qed
    qed
  qed
qed

end

section \<open>The loop, the grows, the drain\<close>

context batch_entry begin

lemma stream_waves_contract:
  assumes inp: "stream_inputs srcs sizes caps n dsts" and bs: "batch_shape wave n" and k: "k < n_waves wave n"
    and iv: "wave_inv one host_out srcs sizes caps wave n dsts s"
    and dn: "wave_done one host_out srcs sizes caps dsts (w_begin wave k) s"
  shows "wp (stream_waves rt entry host_out wave n srcs sizes caps [k..<n_waves wave n] s) (\<lambda>s'.
     wave_inv one host_out srcs sizes caps wave n dsts s' \<and>
     (w_status s' = CUDEC_OK \<longrightarrow> accepts \<and> wave_done one host_out srcs sizes caps dsts (unat n) s') \<and>
     (w_status s' \<noteq> CUDEC_OK \<longrightarrow> (if w_refused s' then \<not> accepts else w_status s' = CUDEC_ERR_CUDA \<and> (\<exists>c. \<not> rt c))))"
  using k iv dn
proof (induction "n_waves wave n - k" arbitrary: k s)
  case (Suc m)
  have up: "[k..<n_waves wave n] = k # [Suc k..<n_waves wave n]" using Suc.prems(1) by (simp add: upt_conv_Cons)
  show ?case unfolding up stream_waves.simps
  proof (rule wp_bind2[OF stream_wave_contract[OF inp bs Suc.prems]], goal_cases)
    case (1 go s')
    show ?case
    proof (cases go)
      case False
      then show ?thesis using 1 by (simp add: wp_Some)
    next
      case go: True
      then have dn: "accepts" "wave_done one host_out srcs sizes caps dsts (w_end wave n k) s'" using 1 by simp_all
      show ?thesis
      proof (cases "Suc k < n_waves wave n")
        case True
        have "wp (stream_waves rt entry host_out wave n srcs sizes caps [Suc k..<n_waves wave n] s') (\<lambda>s'.
           wave_inv one host_out srcs sizes caps wave n dsts s' \<and>
           (w_status s' = CUDEC_OK \<longrightarrow> accepts \<and> wave_done one host_out srcs sizes caps dsts (unat n) s') \<and>
           (w_status s' \<noteq> CUDEC_OK \<longrightarrow> (if w_refused s' then \<not> accepts else w_status s' = CUDEC_ERR_CUDA \<and> (\<exists>c. \<not> rt c))))"
          using Suc.hyps(2) 1 dn wave_next[OF bs True] by (intro Suc.hyps(1) True) simp_all
        then show ?thesis using go by simp
      next
        case False
        then have "Suc k = n_waves wave n" using Suc.prems(1) by simp
        then have "wave_done one host_out srcs sizes caps dsts (unat n) s'" using dn wave_last[OF bs] by simp
        then show ?thesis using False go 1 dn(1) by (simp add: wp_Some wave_done_def)
      qed
    qed
  qed
qed simp

end

lemma ensure_ok: "dev_buf_ensure ok bytes b = (True, b') \<Longrightarrow> bytes \<le> buf_cap b'"
  by (auto simp: dev_buf_ensure_def Let_def split: if_splits)

lemma ensure_fails: "dev_buf_ensure ok bytes b = (False, b') \<Longrightarrow> \<not> ok"
  by (auto simp: dev_buf_ensure_def Let_def split: if_splits)

lemma stream_grow_contract:
  "case stream_grow rt host_out ms md meta res ctx of (good, ctx') \<Rightarrow>
     (good \<longrightarrow> ms \<le> buf_cap (p_src ctx') \<and> ms \<le> buf_cap (d_src ctx') \<and> (host_out \<longrightarrow> md \<le> buf_cap (d_dst ctx')) \<and>
        meta \<le> buf_cap (p_meta ctx') \<and> meta \<le> buf_cap (d_meta ctx') \<and>
        res \<le> buf_cap (d_results ctx') \<and> res \<le> buf_cap (p_results ctx') \<and> poisoned ctx' = poisoned ctx) \<and>
     (\<not> good \<longrightarrow> poisoned ctx' \<and> (\<exists>c. \<not> rt c))"
  by (auto simp: stream_grow_def Let_def split: prod.splits if_splits dest: ensure_ok ensure_fails)

lemma stamp_eq: "k \<le> length rs \<Longrightarrow> stamp_not_decoded rs [0..<k] st = Some (replicate k (not_decoded st) @ drop k rs)"
proof -
  have "length pre + m \<le> length rs \<Longrightarrow> take (length pre) rs = pre \<Longrightarrow>
     stamp_not_decoded rs [length pre..<length pre + m] st = Some (pre @ replicate m (not_decoded st) @ drop (length pre + m) rs)" for pre m rs
  proof (induction m arbitrary: pre rs)
    case 0
    then show ?case by (metis add.right_neutral append_self_conv2 append_take_drop_id replicate_0 stamp_not_decoded.simps(1) upt_rec less_irrefl)
  next
    case (Suc m)
    let ?rs = "rs[length pre := not_decoded st]" and ?pre = "pre @ [not_decoded st]"
    have "take (length ?pre) ?rs = ?pre" using Suc.prems by (simp add: take_Suc_conv_app_nth take_update_cancel)
    then have "stamp_not_decoded ?rs [length ?pre..<length ?pre + m] st = Some (?pre @ replicate m (not_decoded st) @ drop (length ?pre + m) ?rs)"
      using Suc.prems(1) by (intro Suc.IH) simp_all
    moreover have "[length pre..<length pre + Suc m] = length pre # [length ?pre..<length ?pre + m]"
      by (simp add: upt_conv_Cons del: upt_Suc)
    ultimately show ?case using Suc.prems(1) by simp
  qed
  from this[of "[]" k rs] show "k \<le> length rs \<Longrightarrow> stamp_not_decoded rs [0..<k] st = Some (replicate k (not_decoded st) @ drop k rs)" by simp
qed

lemma first_failure_contract:
  "\<forall>i\<in>set is. i < length rs \<Longrightarrow> wp (first_failure rs is) (\<lambda>st. (st = CUDEC_OK \<longleftrightarrow> (\<forall>i\<in>set is. chunk_status (rs ! i) = CUDEC_OK)) \<and>
     (st \<noteq> CUDEC_OK \<longrightarrow> (\<exists>j<length is. chunk_status (rs ! (is ! j)) = st \<and> (\<forall>k<j. chunk_status (rs ! (is ! k)) = CUDEC_OK))))"
proof (induction "is")
  case (Cons i "is")
  have i: "i < length rs" using Cons.prems by simp
  show ?case
  proof (cases "chunk_status (rs ! i) = CUDEC_OK")
    case True
    have "wp (first_failure rs is) (\<lambda>st. (st = CUDEC_OK \<longleftrightarrow> (\<forall>i\<in>set is. chunk_status (rs ! i) = CUDEC_OK)) \<and>
     (st \<noteq> CUDEC_OK \<longrightarrow> (\<exists>j<length is. chunk_status (rs ! (is ! j)) = st \<and> (\<forall>k<j. chunk_status (rs ! (is ! k)) = CUDEC_OK))))"
      using Cons by simp
    then have "wp (first_failure rs is) (\<lambda>st. (st = CUDEC_OK \<longleftrightarrow> (\<forall>i\<in>set (i # is). chunk_status (rs ! i) = CUDEC_OK)) \<and>
     (st \<noteq> CUDEC_OK \<longrightarrow> (\<exists>j<length (i # is). chunk_status (rs ! ((i # is) ! j)) = st \<and> (\<forall>k<j. chunk_status (rs ! ((i # is) ! k)) = CUDEC_OK))))"
    proof (rule wp_mono, intro conjI impI, goal_cases)
      case (1 st)
      then show ?case using True by simp
    next
      case (2 st)
      then obtain j where "j < length is" "chunk_status (rs ! (is ! j)) = st" "\<forall>k<j. chunk_status (rs ! (is ! k)) = CUDEC_OK" by blast
      then show ?case using True by (intro exI[of _ "Suc j"]) (auto simp: All_less_Suc2)
    qed
    then show ?thesis using True i by (simp add: wp_rules)
  next
    case False
    then show ?thesis using i by (auto simp: wp_rules intro!: exI[of _ 0])
  qed
qed (simp add: wp_rules)

lemma bytes_of_append: "bytes_of xs (is @ js) = bytes_of xs is + bytes_of xs js"
  by (simp add: bytes_of_def)

lemma upt_split: "a \<le> b \<Longrightarrow> b \<le> c \<Longrightarrow> [a..<c] = [a..<b] @ [b..<c]"
  by (metis le_add_diff_inverse upt_add_eq_append)

lemma wave_bytes_le: "batch_shape wave n \<Longrightarrow> w < n_waves wave n \<Longrightarrow> wave_bytes xs wave n w \<le> bytes_of xs [0..<unat n]"
proof -
  assume a: "batch_shape wave n" "w < n_waves wave n"
  note r = wave_range(4,5)[OF a]
  have "[0..<unat n] = [0..<w_begin wave w] @ [w_begin wave w..<w_end wave n w] @ [w_end wave n w..<unat n]"
    using r upt_split[of 0 "w_begin wave w" "unat n"] upt_split[of "w_begin wave w" "w_end wave n w" "unat n"] by simp
  then show ?thesis by (simp add: wave_bytes_def bytes_of_append)
qed

section \<open>The decode\<close>

text \<open>How a call that started its waves ends: every chunk decoded, refused, or a fault.\<close>

definition stream_ran :: "bool \<Rightarrow> chunk_fun \<Rightarrow> (stream_call \<Rightarrow> bool) \<Rightarrow> bool \<Rightarrow> u8 list option list \<Rightarrow> u64 list \<Rightarrow> u64 list \<Rightarrow> u64 \<Rightarrow>
    bool \<Rightarrow> u8 list option list \<Rightarrow> cudec_status \<Rightarrow> stream_ctx \<Rightarrow> u8 list option list \<Rightarrow> chunk_result list \<Rightarrow> bool" where
  "stream_ran accepts one rt host_out srcs sizes caps n was_poisoned dsts st ctx' dsts' results' \<longleftrightarrow>
     accepts \<and> (\<forall>i<unat n. results' ! i = fst (chunk_alone one srcs sizes caps dsts i) \<and>
         dsts' ! i = chunk_final one host_out srcs sizes caps dsts i) \<and> poisoned ctx' = was_poisoned \<and>
       (st = CUDEC_OK \<longleftrightarrow> (\<forall>i<unat n. chunk_status (results' ! i) = CUDEC_OK)) \<and>
       (st \<noteq> CUDEC_OK \<longrightarrow> (\<exists>i<unat n. chunk_status (results' ! i) = st \<and> (\<forall>k<i. chunk_status (results' ! k) = CUDEC_OK)))
   \<or> st \<noteq> CUDEC_OK \<and> \<not> accepts \<and> poisoned ctx' = was_poisoned
   \<or> st \<noteq> CUDEC_OK \<and> poisoned ctx' \<and> (\<exists>c. \<not> rt c)"

definition stream_outcome :: "bool \<Rightarrow> chunk_fun \<Rightarrow> (stream_call \<Rightarrow> bool) \<Rightarrow> bool \<Rightarrow> u8 list option list \<Rightarrow> u64 list \<Rightarrow> u64 list \<Rightarrow> u64 \<Rightarrow>
    stream_ctx \<Rightarrow> u8 list option list \<Rightarrow> cudec_status \<Rightarrow> stream_ctx \<Rightarrow> u8 list option list \<Rightarrow> chunk_result list \<Rightarrow> bool" where
  "stream_outcome accepts one rt host_out srcs sizes caps n ctx dsts st ctx' dsts' results' \<longleftrightarrow>
     stream_ran accepts one rt host_out srcs sizes caps n (poisoned ctx) dsts st ctx' dsts' results'
   \<or> st = CUDEC_ERR_CORRUPT_INPUT \<and> ctx' = ctx \<and> dsts' = dsts \<and> (\<forall>i<unat n. results' ! i = not_decoded CUDEC_ERR_CUDA) \<and>
       (2 ^ 64 \<le> bytes_of sizes [0..<unat n] \<or> host_out \<and> 2 ^ 64 \<le> bytes_of caps [0..<unat n])"

definition stream_frame :: "chunk_fun \<Rightarrow> bool \<Rightarrow> u8 list option list \<Rightarrow> u64 list \<Rightarrow> u64 list \<Rightarrow> u64 \<Rightarrow>
    u8 list option list \<Rightarrow> chunk_result list \<Rightarrow> u8 list option list \<Rightarrow> chunk_result list \<Rightarrow> bool" where
  "stream_frame one host_out srcs sizes caps n dsts results dsts' results' \<longleftrightarrow>
     length results' = length results \<and> drop (unat n) results' = drop (unat n) results \<and> length dsts' = length dsts \<and>
     (\<forall>i<unat n. (results' ! i = not_decoded CUDEC_ERR_CUDA \<or> results' ! i = fst (chunk_alone one srcs sizes caps dsts i)) \<and>
        (dsts' ! i = dsts ! i \<or> dsts' ! i = chunk_final one host_out srcs sizes caps dsts i)) \<and>
     (\<forall>i\<ge>unat n. dsts' ! i = dsts ! i)"

context batch_entry begin

lemma stream_drain_contract:
  assumes iv: "wave_inv one host_out srcs sizes caps wave n dsts s"
    and ok: "w_status s = CUDEC_OK \<longrightarrow> accepts \<and> wave_done one host_out srcs sizes caps dsts (unat n) s"
    and bad: "w_status s \<noteq> CUDEC_OK \<longrightarrow> (if w_refused s then \<not> accepts else w_status s = CUDEC_ERR_CUDA \<and> (\<exists>c. \<not> rt c))"
    and len: "unat n \<le> length results"
  shows "wp (stream_drain rt n ctx s results) (\<lambda>(st, ctx', dsts', results').
     stream_frame one host_out srcs sizes caps n dsts results dsts' results' \<and>
     stream_ran accepts one rt host_out srcs sizes caps n (poisoned ctx) dsts st ctx' dsts' results')"
proof -
  let ?rs = "take (unat n) (w_mirror s) @ drop (unat n) results"
  have m: "unat n \<le> length (w_mirror s)" "length (w_dsts s) = length dsts" using iv by (simp_all add: wave_inv_def wave_room_def)
  have rs: "?rs ! i = w_mirror s ! i" if "i < unat n" for i using that m by (simp add: nth_append)
  have sl: "slice_at (w_mirror s) 0 n = Some (take (unat n) (w_mirror s))" using m by (simp add: slice_at_def)
  have sp: "splice_at results 0 (take (unat n) (w_mirror s)) = Some ?rs" using m len by (simp add: splice_at_def min_def)
  have fr: "stream_frame one host_out srcs sizes caps n dsts results (w_dsts s) ?rs"
    using iv m len rs by (auto simp: stream_frame_def wave_inv_def)
  define drain where "drain = (if (\<not> rt Final_sync \<or> \<not> rt Last_error) \<and> w_status s = CUDEC_OK then CUDEC_ERR_CUDA else w_status s)"
  have eq: "stream_drain rt n ctx s results = (if drain \<noteq> CUDEC_OK then
       Some (drain, (if \<not> w_refused s \<or> \<not> rt Final_sync \<or> \<not> rt Last_error then ctx\<lparr>poisoned := True\<rparr> else ctx), w_dsts s, ?rs)
     else do { st \<leftarrow> first_failure ?rs [0..<unat n]; Some (st, ctx, w_dsts s, ?rs) })"
    by (simp only: stream_drain_def Let_def sl sp bind.bind_lunit drain_def)
  show ?thesis
  proof (cases "drain = CUDEC_OK")
    case True
    then have w: "w_status s = CUDEC_OK" by (auto simp: drain_def split: if_splits)
    with ok have d: "accepts" "\<And>i. i < unat n \<Longrightarrow> w_mirror s ! i = fst (chunk_alone one srcs sizes caps dsts i) \<and>
        w_dsts s ! i = chunk_final one host_out srcs sizes caps dsts i" by (auto simp: wave_done_def)
    have lt: "\<forall>i\<in>set [0..<unat n]. i < length ?rs" using m len by simp
    have "wp (first_failure ?rs [0..<unat n]) (\<lambda>st. stream_ran accepts one rt host_out srcs sizes caps n (poisoned ctx) dsts st ctx (w_dsts s) ?rs)"
      by (rule wp_mono[OF first_failure_contract[OF lt]])
        (use d rs in \<open>auto simp: stream_ran_def intro: order_less_trans\<close>)
    then show ?thesis using True fr by (simp add: eq wp_bind wp_Some)
  next
    case False
    have "stream_ran accepts one rt host_out srcs sizes caps n (poisoned ctx) dsts drain
        (if \<not> w_refused s \<or> \<not> rt Final_sync \<or> \<not> rt Last_error then ctx\<lparr>poisoned := True\<rparr> else ctx) (w_dsts s) ?rs"
      using False bad by (auto simp: stream_ran_def drain_def split: if_splits)
    then show ?thesis using False fr by (simp add: eq wp_Some)
  qed
qed

lemma decode_stream_ctx_contract:
  assumes inp: "stream_inputs srcs sizes caps n dsts" and len: "unat n \<le> length results"
    and host_out_def: "host_out \<longleftrightarrow> space = CUDEC_MEM_HOST"
  shows "wp (decode_stream_ctx rt junk stale entry srcs sizes caps n space ctx dsts results) (\<lambda>(st, ctx', dsts', results').
     stream_frame one host_out srcs sizes caps n dsts results dsts' results' \<and>
     stream_outcome accepts one rt host_out srcs sizes caps n ctx dsts st ctx' dsts' results')"
proof -
  have n: "0 < unat n" "n \<le> kMaxBatchChunks" "unat n \<le> length sizes" "unat n \<le> length caps" using inp by (simp_all add: stream_inputs_def)
  have n36: "unat n \<le> 68719476704" using n(2) kMaxBatchChunks_nat by (simp add: w2n)
  obtain wave where wv: "choose_wave_chunks sizes caps n host_out = Some wave" "1 \<le> unat wave" "unat wave \<le> 4096" "unat wave \<le> unat n"
    using choose_wave_contract[OF n(1,3,4)] by blast
  have bs: "batch_shape wave n" using n wv by (simp add: batch_shape_def)
  define rs0 where "rs0 = replicate (unat n) (not_decoded CUDEC_ERR_CUDA) @ drop (unat n) results"
  have rs0: "length rs0 = length results" "drop (unat n) rs0 = drop (unat n) results" "\<And>i. i < unat n \<Longrightarrow> rs0 ! i = not_decoded CUDEC_ERR_CUDA"
    using len by (simp_all add: rs0_def nth_append)
  have early: "stream_frame one host_out srcs sizes caps n dsts results dsts rs0"
    using rs0 by (simp add: stream_frame_def)
  have st: "stamp_not_decoded results [0..<unat n] CUDEC_ERR_CUDA = Some rs0" unfolding rs0_def by (rule stamp_eq[OF len])
  have nw: "unat ((n + wave - 1) div wave) = n_waves wave n" by (simp add: n_waves_def)
  have n16: "unat (n * 16) = unat n * 16"
  proof -
    have "unat (of_nat (unat n * 16) :: u64) = unat n * 16" using n36 by (intro unat_of_nat_less) simp
    then show ?thesis by simp
  qed
  have mo: "\<not> mul_overflows n 16"
  proof -
    have "unat n * 16 \<le> 2 ^ 64 - 1" using n36 by simp
    then have "16 \<le> (2 ^ 64 - 1) div unat n" using n(1) by (simp add: less_eq_div_iff_mult_less_eq mult.commute)
    then show ?thesis using n(1) by (simp add: mul_overflows_def w2n unat_div unat_max_u64 not_less)
  qed
  have mx: "wp (wave_maxima sizes caps host_out wave n [0..<n_waves wave n] 0 0) (\<lambda>res. case res of
      Inl e \<Rightarrow> e = CUDEC_ERR_CORRUPT_INPUT \<and> (\<exists>w\<in>set [0..<n_waves wave n]. wave_overflows sizes caps host_out wave n w)
    | Inr p \<Rightarrow> (\<forall>w<n_waves wave n. wave_bytes sizes wave n w \<le> unat (fst p) \<and> (host_out \<longrightarrow> wave_bytes caps wave n w \<le> unat (snd p))))"
    by (rule wp_mono[OF wave_maxima_contract[OF bs n(3,4)]]) (auto split: sum.splits)
  show ?thesis
    unfolding decode_stream_ctx_def Let_def host_out_def[symmetric] wv(1) bind.bind_lunit st nw
  proof (rule wp_bind_sum[OF mx], goal_cases)
    case (1 e)
    then obtain w where "w < n_waves wave n" "wave_overflows sizes caps host_out wave n w" by auto
    then have "2 ^ 64 \<le> bytes_of sizes [0..<unat n] \<or> host_out \<and> 2 ^ 64 \<le> bytes_of caps [0..<unat n]"
      using wave_bytes_le[OF bs] order_trans unfolding wave_overflows_def by blast
    then show ?case using 1 early rs0(3) by (simp add: wp_Some stream_outcome_def)
  next
    case (2 p)
    obtain x y where p: "p = (x, y)" by (cases p)
    let ?ms = "if x = 0 then 1 else x" and ?md = "if host_out \<and> y = 0 then 1 else y"
    obtain good ctx1 where g: "stream_grow rt host_out ?ms ?md (4 * meta_stride wave) (n * 16) ctx = (good, ctx1)" by (cases "stream_grow rt host_out ?ms ?md (4 * meta_stride wave) (n * 16) ctx")
    note gc = stream_grow_contract[where rt = rt and host_out = host_out and ms = ?ms and md = ?md and
        meta = "4 * meta_stride wave" and res = "n * 16" and ctx = ctx, unfolded g prod.case]
    show ?case
    proof (cases good)
      case False
      then show ?thesis using gc g early mo
        by (simp add: p wp_Some stream_outcome_def stream_ran_def cong: if_cong split del: if_split)
    next
      case True
      note gc1 = gc[THEN conjunct1, rule_format, OF True]
      have cap: "unat x \<le> unat (buf_cap (p_src ctx1))" "unat x \<le> unat (buf_cap (d_src ctx1))" "host_out \<longrightarrow> unat y \<le> unat (buf_cap (d_dst ctx1))"
        "unat n \<le> unat (buf_cap (d_results ctx1)) div 16" "unat n \<le> unat (buf_cap (p_results ctx1)) div 16"
        using gc1 n16 by (auto simp: w2n split: if_splits)
      let ?s0 = "\<lparr>w_stage = map junk [0..<unat (buf_cap (p_src ctx1))], w_dsrc = map junk [0..<unat (buf_cap (d_src ctx1))],
         w_ddst = map junk [0..<unat (buf_cap (d_dst ctx1))], w_dres = map stale [0..<unat (buf_cap (d_results ctx1)) div 16],
         w_mirror = replicate (unat n) (not_decoded CUDEC_ERR_CUDA) @ drop (unat n) (map stale [0..<unat (buf_cap (p_results ctx1)) div 16]),
         w_dsts = dsts, w_status = CUDEC_OK, w_refused = False\<rparr>"
      have start: "stream_start junk stale ctx1 n dsts = Some ?s0"
        using stamp_eq[of "unat n" "map stale [0..<unat (buf_cap (p_results ctx1)) div 16]" CUDEC_ERR_CUDA] cap(5)
        by (simp add: stream_start_def)
      have iv: "wave_inv one host_out srcs sizes caps wave n dsts ?s0"
        using 2[unfolded p] cap unat_u64_less by (auto simp: wave_inv_def wave_room_def nth_append intro: order_trans)
      have dn: "wave_done one host_out srcs sizes caps dsts (w_begin wave 0) ?s0"
        by (simp add: wave_done_def w_begin_def)
      have "wp (do { s \<leftarrow> stream_waves rt entry host_out wave n srcs sizes caps [0..<n_waves wave n] ?s0; stream_drain rt n ctx1 s rs0 })
        (\<lambda>(st, ctx', dsts', results'). stream_frame one host_out srcs sizes caps n dsts rs0 dsts' results' \<and>
          stream_ran accepts one rt host_out srcs sizes caps n (poisoned ctx1) dsts st ctx' dsts' results')"
        by (rule wp_bindI[OF stream_waves_contract[OF inp bs some_wave[OF bs] iv dn]])
          (rule stream_drain_contract, use len rs0(1) in auto)
      then have "wp (do { s \<leftarrow> stream_waves rt entry host_out wave n srcs sizes caps [0..<n_waves wave n] ?s0; stream_drain rt n ctx1 s rs0 })
        (\<lambda>(st, ctx', dsts', results'). stream_frame one host_out srcs sizes caps n dsts results dsts' results' \<and>
          stream_outcome accepts one rt host_out srcs sizes caps n ctx dsts st ctx' dsts' results')"
        by (rule wp_mono) (use gc1 rs0(1,2) in \<open>auto simp: stream_outcome_def stream_frame_def\<close>)
      moreover have "(case stream_grow rt host_out ?ms ?md (4 * meta_stride wave) (n * 16) ctx of
          (True, ctx) \<Rightarrow> do { s \<leftarrow> stream_start junk stale ctx n dsts;
            s \<leftarrow> stream_waves rt entry host_out wave n srcs sizes caps [0..<n_waves wave n] s; stream_drain rt n ctx s rs0 }
        | (False, ctx) \<Rightarrow> Some (CUDEC_ERR_CUDA, ctx, dsts, rs0)) =
        do { s \<leftarrow> stream_waves rt entry host_out wave n srcs sizes caps [0..<n_waves wave n] ?s0; stream_drain rt n ctx1 s rs0 }"
        using g True start by simp
      ultimately show ?thesis using mo by (simp add: p cong: if_cong split del: if_split)
    qed
  qed
qed

end

section \<open>The entries\<close>

text \<open>
  What the caller owes: arrays as long as the chunk count says, and memory behind every pointer
  that is not null. What the code checks of a call is \<open>stream_valid\<close>.
\<close>

definition stream_memory :: "stream_args \<Rightarrow> u8 list option list option \<Rightarrow> chunk_result list option \<Rightarrow> bool" where
  "stream_memory a dsts results \<longleftrightarrow>
     (\<forall>srcs sizes ds caps rs. h_srcs a = Some srcs \<and> h_sizes a = Some sizes \<and> dsts = Some ds \<and> dst_caps a = Some caps \<and> results = Some rs \<longrightarrow>
        unat (chunk_count a) \<le> length srcs \<and> unat (chunk_count a) \<le> length sizes \<and> unat (chunk_count a) \<le> length ds \<and>
        unat (chunk_count a) \<le> length caps \<and> unat (chunk_count a) \<le> length rs \<and>
        (\<forall>i<unat (chunk_count a). (\<forall>s. srcs ! i = Some s \<longrightarrow> unat (sizes ! i) \<le> length s) \<and>
           (\<forall>d. ds ! i = Some d \<longrightarrow> unat (caps ! i) \<le> length d)))"

definition stream_valid :: "stream_args \<Rightarrow> u8 list option list option \<Rightarrow> chunk_result list option \<Rightarrow> bool" where
  "stream_valid a dsts results \<longleftrightarrow> (\<exists>srcs sizes ds caps rs.
     h_srcs a = Some srcs \<and> h_sizes a = Some sizes \<and> dsts = Some ds \<and> dst_caps a = Some caps \<and> results = Some rs \<and>
     0 < unat (chunk_count a) \<and> chunk_count a \<le> kMaxBatchChunks \<and> dst_space a \<in> {CUDEC_MEM_HOST, CUDEC_MEM_DEVICE} \<and>
     (\<forall>i<unat (chunk_count a). (srcs ! i = None \<longrightarrow> sizes ! i = 0) \<and> (ds ! i = None \<longrightarrow> caps ! i = 0)))"

lemma bad_pointer_eq:
  "\<forall>i\<in>set is. i < length ptrs \<and> i < length sizes \<Longrightarrow>
   bad_pointer ptrs sizes is = Some (\<exists>i\<in>set is. ptrs ! i = None \<and> sizes ! i \<noteq> 0)"
  by (induction "is") auto

lemma validate_stream_contract:
  assumes "stream_memory a dsts results"
  shows "validate_stream_args a dsts results = Some (if stream_valid a dsts results then CUDEC_OK else CUDEC_ERR_INVALID_ARGUMENT)"
proof (cases "\<exists>srcs sizes ds caps rs. h_srcs a = Some srcs \<and> h_sizes a = Some sizes \<and> dsts = Some ds \<and> dst_caps a = Some caps \<and> results = Some rs")
  case False
  then show ?thesis by (auto simp: validate_stream_args_def stream_valid_def split: option.splits)
next
  case True
  then obtain srcs sizes ds caps rs where p: "h_srcs a = Some srcs" "h_sizes a = Some sizes" "dsts = Some ds" "dst_caps a = Some caps" "results = Some rs"
    by blast
  have b: "bad_pointer srcs sizes [0..<unat (chunk_count a)] = Some (\<exists>i<unat (chunk_count a). srcs ! i = None \<and> sizes ! i \<noteq> 0)"
    "bad_pointer ds caps [0..<unat (chunk_count a)] = Some (\<exists>i<unat (chunk_count a). ds ! i = None \<and> caps ! i \<noteq> 0)"
    using assms p by (subst bad_pointer_eq; auto simp: stream_memory_def)+
  show ?thesis
    by (auto simp: validate_stream_args_def stream_valid_def p b unat_gt_0 not_less[symmetric])
qed

lemma stream_valid_inputs:
  assumes "stream_memory a (Some ds) (Some rs)" "stream_valid a (Some ds) (Some rs)" "h_srcs a = Some srcs" "h_sizes a = Some sizes" "dst_caps a = Some caps"
  shows "stream_inputs srcs sizes caps (chunk_count a) ds" "unat (chunk_count a) \<le> length rs"
  using assms by (auto simp: stream_memory_def stream_valid_def stream_inputs_def)

text \<open>The three ways a call on a context ends.\<close>

definition stream_rejects :: "stream_args \<Rightarrow> stream_ctx option \<Rightarrow> u8 list option list option \<Rightarrow> chunk_result list option \<Rightarrow> bool" where
  "stream_rejects a ctx dsts results \<longleftrightarrow> ctx = None \<or> \<not> stream_valid a dsts results"

context batch_entry begin

lemma decode_on_stream_contract:
  assumes mem: "stream_memory a dsts results"
  shows "wp (decode_on_stream_ctx rt junk stale (Some entry) a ctx dsts results) (\<lambda>(st, ctx', dsts', results').
    if stream_rejects a ctx dsts results
    then st = CUDEC_ERR_INVALID_ARGUMENT \<and> ctx' = ctx \<and> dsts' = dsts \<and> results' = results
    else if poisoned (the ctx)
    then st = CUDEC_ERR_CUDA \<and> ctx' = ctx \<and> dsts' = dsts \<and>
      results' = Some (replicate (unat (chunk_count a)) (not_decoded CUDEC_ERR_CUDA) @ drop (unat (chunk_count a)) (the results))
    else \<exists>c d r. ctx' = Some c \<and> dsts' = Some d \<and> results' = Some r \<and>
      stream_frame one (dst_space a = CUDEC_MEM_HOST) (the (h_srcs a)) (the (h_sizes a)) (the (dst_caps a)) (chunk_count a) (the dsts) (the results) d r \<and>
      stream_outcome accepts one rt (dst_space a = CUDEC_MEM_HOST) (the (h_srcs a)) (the (h_sizes a)) (the (dst_caps a)) (chunk_count a)
        (the ctx) (the dsts) st c d r)"
proof (cases "stream_rejects a ctx dsts results")
  case True
  then show ?thesis using validate_stream_contract[OF mem]
    by (cases ctx) (simp_all add: decode_on_stream_ctx_def stream_rejects_def wp_Some)
next
  case False
  then have v: "stream_valid a dsts results" by (simp add: stream_rejects_def)
  obtain c where c: "ctx = Some c" using False by (cases ctx) (simp_all add: stream_rejects_def)
  from v c obtain srcs sizes ds caps rs where p: "ctx = Some c" "h_srcs a = Some srcs" "h_sizes a = Some sizes" "dsts = Some ds"
      "dst_caps a = Some caps" "results = Some rs"
    unfolding stream_valid_def by blast
  note inp = stream_valid_inputs[OF mem[unfolded p] v[unfolded p] p(2,3,5)]
  have val: "validate_stream_args a (Some ds) (Some rs) = Some CUDEC_OK" using validate_stream_contract[OF mem] v p by simp
  show ?thesis
  proof (cases "poisoned c")
    case True
    then show ?thesis using False stamp_eq[OF inp(2)]
      by (simp add: decode_on_stream_ctx_def p val wp_Some)
  next
    case np: False
    have "wp (decode_stream_ctx rt junk stale entry srcs sizes caps (chunk_count a) (dst_space a) c ds rs) (\<lambda>(st, ctx', dsts', results').
      stream_frame one (dst_space a = CUDEC_MEM_HOST) srcs sizes caps (chunk_count a) ds rs dsts' results' \<and>
      stream_outcome accepts one rt (dst_space a = CUDEC_MEM_HOST) srcs sizes caps (chunk_count a) c ds st ctx' dsts' results')"
      by (rule decode_stream_ctx_contract[OF inp refl])
    then have "wp (do { (st, c, ds, rs) \<leftarrow> decode_stream_ctx rt junk stale entry srcs sizes caps (chunk_count a) (dst_space a) c ds rs;
        Some (st, Some c, Some ds, Some rs) }) (\<lambda>(st, ctx', dsts', results'). \<exists>c' d r. ctx' = Some c' \<and> dsts' = Some d \<and> results' = Some r \<and>
      stream_frame one (dst_space a = CUDEC_MEM_HOST) srcs sizes caps (chunk_count a) ds rs d r \<and>
      stream_outcome accepts one rt (dst_space a = CUDEC_MEM_HOST) srcs sizes caps (chunk_count a) c ds st c' d r)"
      by (rule wp_bindI) (auto simp: wp_Some)
    then show ?thesis using False np by (simp add: decode_on_stream_ctx_def p val)
  qed
qed

end

text \<open>The one-shot entry is a call on a context made for it.\<close>

lemma lz4_stream_one_shot:
  assumes "stream_memory a dsts results" "stream_valid a dsts results" "rt New_ctx" "rt Create_stream" "rt Create_event"
  shows "lz4_decompress_stream rt junk stale e a dsts results =
    map_option (\<lambda>(st, _, d, r). (st, d, r)) (decode_on_stream_ctx rt junk stale (Some e) a (Some fresh_ctx) dsts results)"
  using validate_stream_contract[OF assms(1)] assms(2-)
  by (cases "decode_on_stream_ctx rt junk stale (Some e) a (Some fresh_ctx) dsts results")
    (auto simp: lz4_decompress_stream_def stream_ctx_create_def lz4_decompress_stream_ctx_def)

end
