(* ===== verification/Tilestream_Decode.thy ===== *)
theory Tilestream_Decode
  imports Tilestream Stream_Decode
begin

text \<open>
  The whole-TileStream decode, \<open>src/tilestream.cpp\<close>: the plan a validated envelope gives, its run
  on the streaming core, and the two-sided check of each tile's size. The batch entry is an argument,
  as it is of the streaming core: the GDeflate page decoder has no model here, and what is proved
  holds of every entry that keeps the contract \<open>batch_entry\<close>. A tile's destination is the slice
  of the caller's buffer the plan gives it.
\<close>

section \<open>The plan\<close>

definition no_tile :: tile_stream_tile where
  "no_tile = \<lparr>tile_src_off = 0, tile_src_size = 0, tile_dst_size = 0\<rparr>"

definition parse_envelope :: "u8 list \<Rightarrow> u64 \<Rightarrow> (cudec_status + (tile_stream_tile list \<times> tile_stream_info)) option" where
  "parse_envelope s stream_size = do {
     declared \<leftarrow> tile_stream_declared_tile_count (Some s) stream_size;
     let tiles = replicate (unat (if declared \<noteq> 0 then declared else 1)) no_tile;
     tile_stream_parse (Some s) stream_size (Some tiles) declared False
   }"

record tile_stream_plan =
  declared_total :: u64
  plan_srcs :: "u8 list option list"
  plan_src_sizes :: "u64 list"
  plan_dst_offs :: "u64 list"
  plan_dst_caps :: "u64 list"

fun plan_tiles :: "u8 list \<Rightarrow> tile_stream_tile list \<Rightarrow> u64 \<Rightarrow> tile_stream_plan \<Rightarrow> tile_stream_plan" where
  "plan_tiles s [] out_off plan = plan"
| "plan_tiles s (t # ts) out_off plan =
     plan_tiles s ts (out_off + tile_dst_size t)
       (plan\<lparr>plan_srcs := plan_srcs plan @ [Some (drop (unat (tile_src_off t)) s)],
             plan_src_sizes := plan_src_sizes plan @ [tile_src_size t],
             plan_dst_offs := plan_dst_offs plan @ [out_off],
             plan_dst_caps := plan_dst_caps plan @ [tile_dst_size t]\<rparr>)"

definition build_tile_stream_plan :: "u8 list option \<Rightarrow> u64 \<Rightarrow> u8 list option \<Rightarrow> u64 \<Rightarrow> mem_space \<Rightarrow>
    chunk_result list option \<Rightarrow> u64 \<Rightarrow> bool \<Rightarrow> (cudec_status + tile_stream_plan) option" where
  "build_tile_stream_plan strm stream_size dst out_cap out_space tile_results results_capacity null_written =
     (case (strm, tile_results) of
        (Some s, Some _) \<Rightarrow>
          if null_written \<or> (dst = None \<and> out_cap \<noteq> 0) \<or>
             (out_space \<noteq> CUDEC_MEM_HOST \<and> out_space \<noteq> CUDEC_MEM_DEVICE)
          then Some (Inl CUDEC_ERR_INVALID_ARGUMENT)
          else do {
            parsed \<leftarrow> parse_envelope s stream_size;
            case parsed of
              Inl e \<Rightarrow> Some (Inl e)
            | Inr (tiles, info) \<Rightarrow>
                if results_capacity < tile_count info then Some (Inl CUDEC_ERR_INVALID_ARGUMENT)
                else if total_uncompressed info > - 1 then Some (Inl CUDEC_ERR_OUTPUT_TOO_SMALL)
                else if out_cap < total_uncompressed info then Some (Inl CUDEC_ERR_OUTPUT_TOO_SMALL)
                else Some (Inr (plan_tiles s (take (unat (tile_count info)) tiles) 0
                  \<lparr>declared_total = total_uncompressed info, plan_srcs = [], plan_src_sizes = [],
                   plan_dst_offs = [], plan_dst_caps = []\<rparr>))
          }
      | _ \<Rightarrow> Some (Inl CUDEC_ERR_INVALID_ARGUMENT))"

section \<open>The run\<close>

text \<open>
  The second side of the declared size: a tile that decoded to another size is stamped corrupt, and
  the first such status is the call's. The sum the code discards is left out.
\<close>

fun check_tile_sizes :: "u64 list \<Rightarrow> nat list \<Rightarrow> chunk_result list \<Rightarrow> cudec_status \<Rightarrow> (cudec_status \<times> chunk_result list) option" where
  "check_tile_sizes caps [] results short_status = Some (short_status, results)"
| "check_tile_sizes caps (i # is) results short_status = do {
     r \<leftarrow> at results i; cap \<leftarrow> at caps i;
     if bytes_written r \<noteq> cap then do {
       results \<leftarrow> put results i (not_decoded CUDEC_ERR_CORRUPT_INPUT);
       check_tile_sizes caps is results (if short_status = CUDEC_OK then CUDEC_ERR_CORRUPT_INPUT else short_status)
     }
     else check_tile_sizes caps is results short_status
   }"

definition stamp_tiles_not_decoded :: "chunk_result list \<Rightarrow> nat \<Rightarrow> chunk_result list option" where
  "stamp_tiles_not_decoded results n = stamp_not_decoded results [0..<n] CUDEC_ERR_CUDA"

definition run_tile_stream_plan :: "(stream_call \<Rightarrow> bool) \<Rightarrow> (nat \<Rightarrow> u8) \<Rightarrow> (nat \<Rightarrow> chunk_result) \<Rightarrow> batch_call \<Rightarrow>
    tile_stream_plan \<Rightarrow> mem_space \<Rightarrow> stream_ctx \<Rightarrow> u8 list \<Rightarrow> chunk_result list \<Rightarrow>
    (cudec_status \<times> stream_ctx \<times> u8 list \<times> chunk_result list \<times> u64) option" where
  "run_tile_stream_plan rt junk stale entry plan out_space ctx dst results = do {
     let n = length (plan_srcs plan);
     slots \<leftarrow> gather_slices dst (plan_dst_offs plan) (plan_dst_caps plan);
     (st, ctx', dsts', results') \<leftarrow> decode_on_stream_ctx rt junk stale (Some entry)
       \<lparr>h_srcs = Some (plan_srcs plan), h_sizes = Some (plan_src_sizes plan), dst_caps = Some (plan_dst_caps plan),
        chunk_count = of_nat n, dst_space = out_space\<rparr>
       (Some ctx) (Some (map Some slots)) (Some results);
     ctx \<leftarrow> ctx'; dsts \<leftarrow> dsts'; results \<leftarrow> results';
     dst \<leftarrow> scatter_slices dst (plan_dst_offs plan) (map the dsts);
     if st \<noteq> CUDEC_OK then Some (st, ctx, dst, results, 0)
     else do {
       (short_status, results) \<leftarrow> check_tile_sizes (plan_dst_caps plan) [0..<n] results CUDEC_OK;
       if short_status \<noteq> CUDEC_OK then Some (short_status, ctx, dst, results, 0)
       else Some (CUDEC_OK, ctx, dst, results, declared_total plan)
     }
   }"

section \<open>The entries\<close>

text \<open>
  A host allocation that fails (\<open>host_alloc\<close>) is a resource error. The last component of a decode
  is what \<open>*bytes_written\<close> holds when it is not null.
\<close>

definition gdeflate_tilestream_info :: "bool \<Rightarrow> u8 list option \<Rightarrow> u64 \<Rightarrow> bool \<Rightarrow> bool \<Rightarrow> (cudec_status \<times> u64 \<times> u64) option" where
  "gdeflate_tilestream_info host_alloc strm stream_size null_count null_size =
     (case strm of
        None \<Rightarrow> Some (CUDEC_ERR_INVALID_ARGUMENT, 0, 0)
      | Some s \<Rightarrow>
          if null_count \<or> null_size then Some (CUDEC_ERR_INVALID_ARGUMENT, 0, 0)
          else if \<not> host_alloc then Some (CUDEC_ERR_CUDA, 0, 0)
          else do {
            parsed \<leftarrow> parse_envelope s stream_size;
            case parsed of
              Inl e \<Rightarrow> Some (e, 0, 0)
            | Inr (_, info) \<Rightarrow> Some (CUDEC_OK, tile_count info, total_uncompressed info)
          })"

definition gdeflate_tilestream_decompress_ctx :: "(stream_call \<Rightarrow> bool) \<Rightarrow> (nat \<Rightarrow> u8) \<Rightarrow> (nat \<Rightarrow> chunk_result) \<Rightarrow> batch_call \<Rightarrow> bool \<Rightarrow>
    u8 list option \<Rightarrow> u64 \<Rightarrow> u8 list option \<Rightarrow> u64 \<Rightarrow> mem_space \<Rightarrow> chunk_result list option \<Rightarrow> u64 \<Rightarrow> bool \<Rightarrow> stream_ctx option \<Rightarrow>
    (cudec_status \<times> stream_ctx option \<times> u8 list option \<times> chunk_result list option \<times> u64) option" where
  "gdeflate_tilestream_decompress_ctx rt junk stale entry host_alloc strm stream_size dst out_cap out_space results results_capacity null_written ctx =
     (case ctx of
        None \<Rightarrow> Some (CUDEC_ERR_INVALID_ARGUMENT, None, dst, results, 0)
      | Some c \<Rightarrow>
          if \<not> host_alloc then Some (CUDEC_ERR_CUDA, ctx, dst, results, 0)
          else do {
            planned \<leftarrow> build_tile_stream_plan strm stream_size dst out_cap out_space results results_capacity null_written;
            case planned of
              Inl e \<Rightarrow> Some (e, ctx, dst, results, 0)
            | Inr plan \<Rightarrow> do {
                d \<leftarrow> dst; rs \<leftarrow> results;
                (st, c, d, rs, written) \<leftarrow> run_tile_stream_plan rt junk stale entry plan out_space c d rs;
                Some (st, Some c, Some d, Some rs, written)
              }
          })"

definition gdeflate_tilestream_decompress :: "(stream_call \<Rightarrow> bool) \<Rightarrow> (nat \<Rightarrow> u8) \<Rightarrow> (nat \<Rightarrow> chunk_result) \<Rightarrow> batch_call \<Rightarrow> bool \<Rightarrow>
    u8 list option \<Rightarrow> u64 \<Rightarrow> u8 list option \<Rightarrow> u64 \<Rightarrow> mem_space \<Rightarrow> chunk_result list option \<Rightarrow> u64 \<Rightarrow> bool \<Rightarrow>
    (cudec_status \<times> u8 list option \<times> chunk_result list option \<times> u64) option" where
  "gdeflate_tilestream_decompress rt junk stale entry host_alloc strm stream_size dst out_cap out_space results results_capacity null_written =
     (if \<not> host_alloc then Some (CUDEC_ERR_CUDA, dst, results, 0)
      else do {
        planned \<leftarrow> build_tile_stream_plan strm stream_size dst out_cap out_space results results_capacity null_written;
        case planned of
          Inl e \<Rightarrow> Some (e, dst, results, 0)
        | Inr plan \<Rightarrow> do {
            d \<leftarrow> dst; rs \<leftarrow> results;
            case stream_ctx_create rt False of
              (CUDEC_OK, Some c) \<Rightarrow> do {
                (st, _, d, rs, written) \<leftarrow> run_tile_stream_plan rt junk stale entry plan out_space c d rs;
                Some (st, Some d, Some rs, written)
              }
            | (created, _) \<Rightarrow> do {
                rs \<leftarrow> stamp_tiles_not_decoded rs (length (plan_srcs plan));
                Some (created, dst, Some rs, 0)
              }
          }
      })"

section \<open>The envelope decides the plan\<close>

lemma declared_count:
  assumes "length s = unat n"
  shows "\<exists>c. tile_stream_declared_tile_count (Some s) n = Some c \<and>
    (if 8 \<le> length s \<and> s ! 0 = s ! 1 XOR 0xFF then unat c = toc_count s else c = 0)"
proof (cases "n < kTileStreamHeaderBytes")
  case True
  then show ?thesis using assms by (simp add: tile_stream_declared_tile_count_def tile_consts w2n)
next
  case False
  then have h: "8 \<le> length s" using assms by (simp add: tile_consts w2n not_less)
  obtain c where c: "tile_stream_read16le s 2 = Some c" "unat c = toc_count s" using tile_read16[of s] h by auto
  have "unat (ucast c :: u64) = toc_count s" using c(2) by (simp add: unat_ucast_le)
  then show ?thesis using False h c(1)
    by (auto simp: tile_stream_declared_tile_count_def rd_def)
qed

lemma parse_envelope_contract:
  assumes n: "length s = unat n"
  shows "wp (parse_envelope s n) (\<lambda>res. case res of
      Inl e \<Rightarrow> e = CUDEC_ERR_CORRUPT_INPUT \<and> \<not> (toc_header s \<and> toc_ok s (length s) (toc_count s))
    | Inr r \<Rightarrow> toc_describes s r)"
proof -
  obtain c where c: "tile_stream_declared_tile_count (Some s) n = Some c"
    "if 8 \<le> length s \<and> s ! 0 = s ! 1 XOR 0xFF then unat c = toc_count s else c = 0"
    using declared_count[OF n] by blast
  let ?tiles = "replicate (unat (if c \<noteq> 0 then c else 1)) no_tile"
  have cap: "unat c \<le> length ?tiles" by (cases "c = 0") simp_all
  have hd: "toc_header s \<Longrightarrow> unat c = toc_count s" using c(2) by (simp add: toc_header_def)
  show ?thesis unfolding parse_envelope_def c(1) bind.bind_lunit Let_def
    by (rule wp_mono[OF tile_stream_parse_contract[OF n cap]]) (use hd in \<open>auto split: sum.splits if_splits\<close>)
qed

lemma plan_tiles_fields:
  "plan_srcs (plan_tiles s ts off plan) = plan_srcs plan @ map (\<lambda>t. Some (drop (unat (tile_src_off t)) s)) ts"
  "plan_src_sizes (plan_tiles s ts off plan) = plan_src_sizes plan @ map tile_src_size ts"
  "plan_dst_caps (plan_tiles s ts off plan) = plan_dst_caps plan @ map tile_dst_size ts"
  "declared_total (plan_tiles s ts off plan) = declared_total plan"
  by (induction ts arbitrary: off plan) simp_all

lemma plan_offsets:
  "unat off + (\<Sum>t\<leftarrow>ts. unat (tile_dst_size t)) < 2 ^ 64 \<Longrightarrow>
   map unat (plan_dst_offs (plan_tiles s ts off plan)) = map unat (plan_dst_offs plan) @ offsets (unat off) (map (\<lambda>t. unat (tile_dst_size t)) ts)"
proof (induction ts arbitrary: off plan)
  case (Cons t ts)
  have "unat (off + tile_dst_size t) = unat off + unat (tile_dst_size t)" using Cons.prems by (intro unat_plus) simp
  then show ?case using Cons by simp
qed simp

text \<open>What a plan is, for a stream whose envelope is accepted.\<close>

definition tile_page :: "u8 list \<Rightarrow> tile_stream_tile \<Rightarrow> u8 list" where
  "tile_page s t = take (unat (tile_src_size t)) (drop (unat (tile_src_off t)) s)"

definition plan_for :: "u8 list \<Rightarrow> tile_stream_tile list \<Rightarrow> u64 \<Rightarrow> tile_stream_plan \<Rightarrow> bool" where
  "plan_for s tiles tot plan \<longleftrightarrow> declared_total plan = tot \<and>
     plan_srcs plan = map (\<lambda>t. Some (drop (unat (tile_src_off t)) s)) tiles \<and>
     plan_src_sizes plan = map tile_src_size tiles \<and> plan_dst_caps plan = map tile_dst_size tiles \<and>
     map unat (plan_dst_offs plan) = offsets 0 (map (\<lambda>t. unat (tile_dst_size t)) tiles)"

definition tiles_of :: "u8 list \<Rightarrow> tile_stream_tile list \<Rightarrow> bool" where
  "tiles_of s tiles \<longleftrightarrow> toc_header s \<and> toc_ok s (length s) (toc_count s) \<and> length tiles = toc_count s \<and>
     (\<forall>i<toc_count s. toc_tile s (toc_count s) (toc_packed s div 4) i (tiles ! i))"

definition tiles_total :: "tile_stream_tile list \<Rightarrow> nat" where
  "tiles_total tiles = (\<Sum>t\<leftarrow>tiles. unat (tile_dst_size t))"

lemma toc_count_bound: "toc_count s < 65536"
  using le_nat_less[of "take 2 (drop 2 s)"] power_increasing[of "length (take 2 (drop 2 s))" 2 "256::nat"]
  by (simp add: toc_count_def)

lemma sum_list_index: "sum_list (map f xs) = (\<Sum>i<length xs. f (xs ! i))"
  by (simp add: sum_list_sum_nth atLeast0LessThan)

lemma build_plan_contract:
  assumes n: "length s = unat n"
  shows "wp (build_tile_stream_plan (Some s) n dst cap space (Some rs) rcap False) (\<lambda>res.
    if (dst = None \<and> cap \<noteq> 0) \<or> space \<notin> {CUDEC_MEM_HOST, CUDEC_MEM_DEVICE} then res = Inl CUDEC_ERR_INVALID_ARGUMENT
    else if \<not> (toc_header s \<and> toc_ok s (length s) (toc_count s)) then res = Inl CUDEC_ERR_CORRUPT_INPUT
    else if unat rcap < toc_count s then res = Inl CUDEC_ERR_INVALID_ARGUMENT
    else \<exists>tiles tot plan. tiles_of s tiles \<and> unat tot = tiles_total tiles \<and>
      (if cap < tot then res = Inl CUDEC_ERR_OUTPUT_TOO_SMALL else plan_for s tiles tot plan \<and> res = Inr plan))"
proof (cases "(dst = None \<and> cap \<noteq> 0) \<or> space \<notin> {CUDEC_MEM_HOST, CUDEC_MEM_DEVICE}")
  case True
  then show ?thesis by (auto simp: build_tile_stream_plan_def wp_Some)
next
  case False
  then have args: "\<not> (False \<or> (dst = None \<and> cap \<noteq> 0) \<or> (space \<noteq> CUDEC_MEM_HOST \<and> space \<noteq> CUDEC_MEM_DEVICE))" by auto
  show ?thesis unfolding build_tile_stream_plan_def option.case prod.case if_not_P[OF args] if_not_P[OF False]
  proof (rule wp_bind_sum[OF parse_envelope_contract[OF n]], goal_cases)
    case (1 e)
    then show ?case by (simp add: wp_Some)
  next
    case (2 r)
    obtain tiles0 info where r: "r = (tiles0, info)" by (cases r)
    define tiles where "tiles = take (toc_count s) tiles0"
    have d: "toc_header s" "toc_ok s (length s) (toc_count s)" "toc_count s \<le> length tiles0" "unat (tile_count info) = toc_count s"
      "\<forall>i<toc_count s. toc_tile s (toc_count s) (toc_packed s div 4) i (tiles0 ! i)"
      using 2 by (simp_all add: r toc_describes_def)
    have t: "tiles_of s tiles" using d by (simp add: tiles_of_def tiles_def)
    have tot: "unat (total_uncompressed info) = tiles_total tiles"
      using toc_total[OF 2[unfolded r]] d(3) by (simp add: tiles_total_def sum_list_index tiles_def)
    let ?p0 = "\<lparr>declared_total = total_uncompressed info, plan_srcs = [], plan_src_sizes = [], plan_dst_offs = [], plan_dst_caps = []\<rparr>"
    have "plan_for s tiles (total_uncompressed info) (plan_tiles s tiles 0 ?p0)"
      using plan_offsets[of 0 tiles s ?p0] tot unat_u64_less[of "total_uncompressed info"]
      by (simp add: plan_for_def plan_tiles_fields tiles_total_def)
    moreover have big: "\<not> total_uncompressed info > - 1" by (simp add: not_less word_order.extremum)
    moreover have tk: "take (unat (tile_count info)) tiles0 = tiles" by (simp add: d(4) tiles_def)
    ultimately have plan: "plan_for s tiles (total_uncompressed info) (plan_tiles s tiles 0 ?p0)" by simp
    show ?case
    proof (cases "unat rcap < toc_count s")
      case True
      then show ?thesis using d by (simp add: r wp_Some w2n)
    next
      case False
      then have rc: "\<not> rcap < tile_count info" using d(4) by (simp add: w2n)
      have nh: "\<not> \<not> (toc_header s \<and> toc_ok s (length s) (toc_count s))" using d by simp
      show ?thesis unfolding r sum.case prod.case if_not_P[OF rc] if_not_P[OF big] if_not_P[OF nh] if_not_P[OF False] tk
        using t tot plan by (cases "cap < total_uncompressed info"; unfold wp_Some if_P if_not_P)
          (intro exI[of _ tiles] exI[of _ "total_uncompressed info"] exI[of _ "plan_tiles s tiles 0 ?p0"]; simp add: wp_Some)+
    qed
  qed
qed

section \<open>The run decides every tile\<close>

text \<open>What the entry makes of a tile by itself; its bytes count only when it is good.\<close>

definition tile_alone :: "chunk_fun \<Rightarrow> u8 list \<Rightarrow> tile_stream_tile \<Rightarrow> chunk_result \<times> u8 list" where
  "tile_alone one s t = one (tile_page s t) (tile_src_size t) (tile_dst_size t) (replicate (unat (tile_dst_size t)) 0)"

definition tile_good :: "chunk_fun \<Rightarrow> u8 list \<Rightarrow> tile_stream_tile \<Rightarrow> bool" where
  "tile_good one s t \<longleftrightarrow> chunk_status (fst (tile_alone one s t)) = CUDEC_OK \<and> bytes_written (fst (tile_alone one s t)) = tile_dst_size t"

lemma check_tile_sizes_contract:
  assumes "distinct is" "\<forall>i\<in>set is. i < length results \<and> i < length caps"
  shows "wp (check_tile_sizes caps is results st) (\<lambda>(st', results'). length results' = length results \<and>
    (st' = CUDEC_OK \<longleftrightarrow> st = CUDEC_OK \<and> (\<forall>i\<in>set is. bytes_written (results ! i) = caps ! i)) \<and>
    (st' = CUDEC_OK \<or> st' = st \<or> st' = CUDEC_ERR_CORRUPT_INPUT) \<and>
    (\<forall>i. results' ! i = (if i \<in> set is \<and> bytes_written (results ! i) \<noteq> caps ! i then not_decoded CUDEC_ERR_CORRUPT_INPUT else results ! i)))"
  using assms
proof (induction "is" arbitrary: results st)
  case (Cons i "is")
  then have i: "i < length results" "i < length caps" by auto
  show ?case
  proof (cases "bytes_written (results ! i) = caps ! i")
    case True
    then show ?thesis using Cons.IH[of results st] Cons.prems i by (auto simp: wp_rules elim!: wp_mono)
  next
    case False
    let ?r = "results[i := not_decoded CUDEC_ERR_CORRUPT_INPUT]"
    have "wp (check_tile_sizes caps is ?r (if st = CUDEC_OK then CUDEC_ERR_CORRUPT_INPUT else st)) (\<lambda>(st', results'). length results' = length results \<and>
      (st' = CUDEC_OK \<longleftrightarrow> st = CUDEC_OK \<and> (\<forall>i\<in>set (i # is). bytes_written (results ! i) = caps ! i)) \<and>
      (st' = CUDEC_OK \<or> st' = st \<or> st' = CUDEC_ERR_CORRUPT_INPUT) \<and>
      (\<forall>k. results' ! k = (if k \<in> set (i # is) \<and> bytes_written (results ! k) \<noteq> caps ! k then not_decoded CUDEC_ERR_CORRUPT_INPUT else results ! k)))"
      by (rule wp_mono[OF Cons.IH]) (use Cons.prems i False in \<open>auto simp: nth_list_update split: if_splits\<close>)
    then show ?thesis using i False by (simp add: wp_rules)
  qed
qed (simp add: wp_Some)

text \<open>What the caller reads after a run of the plan: the first chunk that failed, else the size check.\<close>

definition tiles_ran :: "chunk_fun \<Rightarrow> u8 list \<Rightarrow> tile_stream_tile list \<Rightarrow> u8 list \<Rightarrow> cudec_status \<Rightarrow> u8 list \<Rightarrow> u64 \<Rightarrow> bool" where
  "tiles_ran one s tiles dst st dst' written \<longleftrightarrow> length dst' = length dst \<and> drop (tiles_total tiles) dst' = drop (tiles_total tiles) dst \<and>
     (if st = CUDEC_OK then (\<forall>t\<in>set tiles. tile_good one s t) \<and> unat written = tiles_total tiles \<and>
        take (tiles_total tiles) dst' = concat (map (\<lambda>t. snd (tile_alone one s t)) tiles)
      else written = 0)"

lemma sum_bounded: "(\<And>x. x \<in> set xs \<Longrightarrow> f x \<le> (b::nat)) \<Longrightarrow> sum_list (map f xs) \<le> length xs * b"
  by (induction xs) (simp_all add: add_mono)

lemma tiles_small:
  assumes "tiles_of s tiles"
  shows "(\<Sum>i\<leftarrow>[0..<length tiles]. unat (map tile_src_size tiles ! i)) < 2 ^ 64"
    "(\<Sum>i\<leftarrow>[0..<length tiles]. unat (map tile_dst_size tiles ! i)) < 2 ^ 64"
proof -
  have l: "length tiles < 65536" using assms toc_count_bound[of s] by (simp add: tiles_of_def)
  have le: "unat (le32 x) < 2 ^ 32" for x :: "u8 list" using unat_u32_less[of "le32 x"] by simp
  have o: "toc_offset s (toc_count s) i < 2 ^ 32" for i
    using le[of "drop (8 + 4 * i) s"] toc_count_bound[of s] by (simp add: toc_offset_def)
  have t: "toc_tile s (toc_count s) (toc_packed s div 4) i (tiles ! i)" if "i < length tiles" for i
    using assms that by (simp add: tiles_of_def)
  have a: "unat (tile_src_size (tiles ! i)) \<le> 2 ^ 33" "unat (tile_dst_size (tiles ! i)) \<le> 2 ^ 33" if "i < length tiles" for i
  proof -
    have p: "toc_packed s div 4 < 65536" using assms by (simp add: tiles_of_def toc_header_def)
    note ti = t[OF that, unfolded toc_tile_def, THEN conjunct2]
    show "unat (tile_dst_size (tiles ! i)) \<le> 2 ^ 33" using ti[THEN conjunct2] p by (simp split: if_splits)
    show "unat (tile_src_size (tiles ! i)) \<le> 2 ^ 33"
      using ti[THEN conjunct1] o[of "i + 1"] o[of i] le[of "drop 8 s"] by (simp split: if_splits)
  qed
  show "(\<Sum>i\<leftarrow>[0..<length tiles]. unat (map tile_src_size tiles ! i)) < 2 ^ 64"
    using sum_bounded[of "[0..<length tiles]" "\<lambda>i. unat (map tile_src_size tiles ! i)" "2 ^ 33"] a(1) l by simp
  show "(\<Sum>i\<leftarrow>[0..<length tiles]. unat (map tile_dst_size tiles ! i)) < 2 ^ 64"
    using sum_bounded[of "[0..<length tiles]" "\<lambda>i. unat (map tile_dst_size tiles ! i)" "2 ^ 33"] a(2) l by simp
qed

context batch_entry begin

lemma tile_chunk:
  assumes "unat (tile_src_off t) + unat (tile_src_size t) \<le> length s" "length d = unat (tile_dst_size t)"
  shows "fst (one (tile_page s t) (tile_src_size t) (tile_dst_size t) d) = fst (tile_alone one s t)"
    "bytes_written (fst (tile_alone one s t)) = tile_dst_size t \<Longrightarrow>
     snd (one (tile_page s t) (tile_src_size t) (tile_dst_size t) d) = snd (tile_alone one s t)"
    "length (snd (one (tile_page s t) (tile_src_size t) (tile_dst_size t) d)) = unat (tile_dst_size t)"
    "length (snd (tile_alone one s t)) = unat (tile_dst_size t)"
proof -
  let ?z = "replicate (unat (tile_dst_size t)) (0::u8)"
  have a: "chunk_args (tile_page s t) (tile_src_size t) (tile_dst_size t) e" if "length e = unat (tile_dst_size t)" for e
    using assms(1) that by (simp add: chunk_args_def tile_page_def)
  note sd = one_stable[OF a[of ?z] a[OF assms(2)]]
  note ld = one_bounds[OF a[OF assms(2)]] and lz = one_bounds[OF a[of ?z]]
  show "fst (one (tile_page s t) (tile_src_size t) (tile_dst_size t) d) = fst (tile_alone one s t)" using sd by (simp add: tile_alone_def)
  show l: "length (snd (one (tile_page s t) (tile_src_size t) (tile_dst_size t) d)) = unat (tile_dst_size t)" using ld assms(2) by simp
  show lz': "length (snd (tile_alone one s t)) = unat (tile_dst_size t)" using lz by (simp add: tile_alone_def)
  show "snd (one (tile_page s t) (tile_src_size t) (tile_dst_size t) d) = snd (tile_alone one s t)"
    if "bytes_written (fst (tile_alone one s t)) = tile_dst_size t"
    using sd that l lz' by (simp add: tile_alone_def)
qed

lemma run_plan_contract:
  assumes tl: "tiles_of s tiles" and pl: "plan_for s tiles tot plan" and tot: "unat tot = tiles_total tiles"
    and ld: "tiles_total tiles \<le> length dst" and lr: "length tiles \<le> length results"
    and sp: "space \<in> {CUDEC_MEM_HOST, CUDEC_MEM_DEVICE}"
  shows "wp (run_tile_stream_plan rt junk stale entry plan space ctx dst results) (\<lambda>(st, ctx', dst', results', written).
    tiles_ran one s tiles dst st dst' written \<and> length results' = length results \<and>
    (poisoned ctx \<longrightarrow> st = CUDEC_ERR_CUDA) \<and>
    (\<not> poisoned ctx \<and> accepts \<and> (\<forall>c. rt c) \<and> (\<forall>t\<in>set tiles. tile_good one s t) \<longrightarrow> st = CUDEC_OK) \<and>
    (st = CUDEC_OK \<longrightarrow> (\<forall>i<length tiles. results' ! i = fst (tile_alone one s (tiles ! i)))))"
proof -
  let ?n = "length tiles" and ?caps = "map tile_dst_size tiles"
  let ?srcs = "map (\<lambda>t. Some (drop (unat (tile_src_off t)) s)) tiles" and ?sizes = "map tile_src_size tiles"
  have p: "plan_srcs plan = ?srcs" "plan_src_sizes plan = ?sizes" "plan_dst_caps plan = ?caps" "declared_total plan = tot"
    "map unat (plan_dst_offs plan) = offsets 0 (map (\<lambda>t. unat (tile_dst_size t)) tiles)" using pl by (simp_all add: plan_for_def)
  have n: "0 < ?n" "?n < 65536" "unat (of_nat ?n :: u64) = ?n"
    using tl toc_count_bound[of s] by (auto simp: tiles_of_def toc_header_def intro!: unat_of_nat_less)
  have inside: "unat (tile_src_off (tiles ! i)) + unat (tile_src_size (tiles ! i)) \<le> length s" if "i < ?n" for i
    using tl that toc_tile_inside(3)[of s "length s" "toc_count s"] by (auto simp: tiles_of_def)
  have inside': "unat (tile_src_size (tiles ! i)) \<le> length s - unat (tile_src_off (tiles ! i))" if "i < ?n" for i
    using inside[OF that] by linarith
  obtain slots post where c: "dst = concat slots @ post" "map length slots = map (\<lambda>t. unat (tile_dst_size t)) tiles"
    using cut_list[of "map (\<lambda>t. unat (tile_dst_size t)) tiles" dst] ld by (auto simp: tiles_total_def)
  have ls: "length slots = ?n" "\<And>i. i < ?n \<Longrightarrow> length (slots ! i) = unat (tile_dst_size (tiles ! i))"
    using c(2) by (metis length_map) (metis c(2) length_map nth_map)
  have lc: "length (concat slots) = tiles_total tiles" by (simp add: length_concat c(2) tiles_total_def)
  have g: "gather_slices dst (plan_dst_offs plan) (plan_dst_caps plan) = Some slots"
    using gather_concat[of "plan_dst_offs plan" "[]" slots "plan_dst_caps plan" post] p(3,5) c by (simp add: comp_def)
  define a where "a = \<lparr>h_srcs = Some ?srcs, h_sizes = Some ?sizes, dst_caps = Some ?caps, chunk_count = of_nat ?n, dst_space = space\<rparr>"
  define host where "host \<longleftrightarrow> space = CUDEC_MEM_HOST"
  have mem: "stream_memory a (Some (map Some slots)) (Some results)"
    using n(3) inside' ls lr by (auto simp: stream_memory_def a_def)
  have val: "\<not> stream_rejects a (Some ctx) (Some (map Some slots)) (Some results)"
    using n sp ls by (auto simp: stream_rejects_def stream_valid_def a_def w2n batch_consts)
  have one_i: "chunk_alone one ?srcs ?sizes ?caps (map Some slots) i = one (tile_page s (tiles ! i)) (tile_src_size (tiles ! i)) (tile_dst_size (tiles ! i)) (slots ! i)"
    if "i < ?n" for i
    using that ls by (simp add: chunk_alone_def chunk_src_def chunk_view_def tile_page_def)
  have res_i: "fst (chunk_alone one ?srcs ?sizes ?caps (map Some slots) i) = fst (tile_alone one s (tiles ! i))" if "i < ?n" for i
    using one_i[OF that] tile_chunk(1)[OF inside[OF that] ls(2)[OF that]] by simp
  have fin_len: "\<exists>x. chunk_final one host ?srcs ?sizes ?caps (map Some slots) i = Some x \<and> length x = length (slots ! i) \<and>
      (tile_good one s (tiles ! i) \<longrightarrow> x = snd (tile_alone one s (tiles ! i)))" if i: "i < ?n" for i
  proof -
    note tc = tile_chunk[OF inside[OF i] ls(2)[OF i]]
    have bw: "unat (bytes_written (fst (tile_alone one s (tiles ! i)))) \<le> unat (tile_dst_size (tiles ! i))"
      using one_bounds[of "tile_page s (tiles ! i)" "tile_src_size (tiles ! i)" "tile_dst_size (tiles ! i)" "slots ! i"] tc(1) inside[OF i] ls(2)[OF i]
      by (simp add: chunk_args_def tile_page_def w2n)
    show ?thesis using one_i[OF i] tc bw ls i
      by (auto simp: chunk_final_def copied_out_def tile_good_def split: prod.splits)
  qed
  have small: "bytes_of ?sizes [0..<?n] < 2 ^ 64" "bytes_of ?caps [0..<?n] < 2 ^ 64"
    using tiles_small[OF tl] n(2) by (simp_all add: bytes_of_def)
  let ?run = "decode_on_stream_ctx rt junk stale (Some entry) a (Some ctx) (Some (map Some slots)) (Some results)"
  have core: "wp ?run (\<lambda>(st, ctx', dsts', results'). \<exists>c ds r. ctx' = Some c \<and> dsts' = Some (map Some ds) \<and> results' = Some r \<and>
     map length ds = map length slots \<and> length r = length results \<and> (poisoned ctx \<longrightarrow> st = CUDEC_ERR_CUDA) \<and>
     (\<not> poisoned ctx \<and> accepts \<and> (\<forall>c. rt c) \<longrightarrow> (st = CUDEC_OK \<longleftrightarrow> (\<forall>t\<in>set tiles. chunk_status (fst (tile_alone one s t)) = CUDEC_OK))) \<and>
     (st = CUDEC_OK \<longrightarrow> (\<forall>i<?n. r ! i = fst (tile_alone one s (tiles ! i)) \<and> chunk_status (r ! i) = CUDEC_OK \<and>
        (tile_good one s (tiles ! i) \<longrightarrow> ds ! i = snd (tile_alone one s (tiles ! i))))))"
  proof (rule wp_mono[OF decode_on_stream_contract[OF mem]], unfold if_not_P[OF val], goal_cases)
    case (1 r)
    show ?case
    proof (cases "poisoned ctx")
      case True
      then show ?thesis using 1 n(3) lr
        by (cases r) (auto simp: a_def intro!: exI[of _ slots])
    next
      case np: False
      obtain st ctx' dsts' results' where r: "r = (st, ctx', dsts', results')" by (cases r) auto
      obtain cx ds rs where f: "ctx' = Some cx" "dsts' = Some ds" "results' = Some rs"
        and fr: "stream_frame one host ?srcs ?sizes ?caps (of_nat ?n) (map Some slots) results ds rs"
        and oc: "stream_outcome accepts one rt host ?srcs ?sizes ?caps (of_nat ?n) ctx (map Some slots) st cx ds rs"
        using 1 np by (auto simp: r a_def host_def)
      have dl: "length ds = ?n" "\<And>i. i < ?n \<Longrightarrow> \<exists>x. ds ! i = Some x \<and> length x = length (slots ! i)"
        using fr fin_len n(3) ls by (fastforce simp: stream_frame_def)+
      have ran: "stream_ran accepts one rt host ?srcs ?sizes ?caps (of_nat ?n) False (map Some slots) st cx ds rs"
        using oc np small n(3) by (auto simp: stream_outcome_def)
      define xs where "xs = map the ds"
      have dx: "ds = map Some xs" using dl by (intro nth_equalityI) (simp_all add: xs_def, metis option.sel)
      have lx: "map length xs = map length slots"
      proof (rule nth_equalityI)
        show "map length xs ! i = map length slots ! i" if "i < length (map length xs)" for i
          using that dl(2)[of i] dl(1) ls(1) by (auto simp: xs_def)
      qed (simp add: xs_def dl(1) ls(1))
      have okc: "rs ! i = fst (tile_alone one s (tiles ! i)) \<and> chunk_status (rs ! i) = CUDEC_OK \<and>
          (tile_good one s (tiles ! i) \<longrightarrow> xs ! i = snd (tile_alone one s (tiles ! i)))" if "st = CUDEC_OK" "i < ?n" for i
        using ran that n(3) res_i[OF that(2)] fin_len[OF that(2)] dl(1) by (auto simp: stream_ran_def xs_def)
      have iff: "st = CUDEC_OK \<longleftrightarrow> (\<forall>t\<in>set tiles. chunk_status (fst (tile_alone one s t)) = CUDEC_OK)" if "accepts" "\<forall>c. rt c"
        using ran that n(3) res_i by (auto simp: stream_ran_def all_set_conv_all_nth)
      then have iff': "accepts \<and> (\<forall>c. rt c) \<longrightarrow> (st = CUDEC_OK) = (\<forall>t\<in>set tiles. chunk_status (fst (tile_alone one s t)) = CUDEC_OK)" by blast
      have okc': "st = CUDEC_OK \<longrightarrow> (\<forall>i<?n. rs ! i = fst (tile_alone one s (tiles ! i)) \<and> chunk_status (rs ! i) = CUDEC_OK \<and>
          (tile_good one s (tiles ! i) \<longrightarrow> xs ! i = snd (tile_alone one s (tiles ! i))))" using okc by blast
      have "length rs = length results" using fr by (simp add: stream_frame_def)
      then show ?thesis unfolding r prod.case
        using f dx lx okc' iff' np by (intro exI[of _ cx] exI[of _ xs] exI[of _ rs] conjI; (assumption | simp))
    qed
  qed
  have tg: "tile_good one s (tiles ! i)"
    if "\<forall>i\<in>set [0..<?n]. bytes_written (r ! i) = ?caps ! i" "\<forall>i<?n. r ! i = fst (tile_alone one s (tiles ! i)) \<and> chunk_status (r ! i) = CUDEC_OK" "i < ?n" for r i
    using that by (auto simp: tile_good_def)
  have good_bw: "\<forall>i\<in>set [0..<?n]. bytes_written (r ! i) = ?caps ! i"
    if "\<forall>i<?n. r ! i = fst (tile_alone one s (tiles ! i)) \<and> chunk_status (r ! i) = CUDEC_OK" "\<forall>t\<in>set tiles. tile_good one s t" for r
    using that by (auto simp: tile_good_def)
  have aeq: "\<lparr>h_srcs = Some (plan_srcs plan), h_sizes = Some (plan_src_sizes plan), dst_caps = Some (plan_dst_caps plan),
      chunk_count = of_nat (length (plan_srcs plan)), dst_space = space\<rparr> = a" by (simp add: a_def p)
  show ?thesis unfolding run_tile_stream_plan_def Let_def g bind.bind_lunit aeq
  proof (rule wp_bind4[OF core], goal_cases)
    case (1 st ctx' dsts' results')
    then obtain cx ds r where f: "ctx' = Some cx" "dsts' = Some (map Some ds)" "results' = Some r"
      and q: "map length ds = map length slots" "length r = length results" "poisoned ctx \<longrightarrow> st = CUDEC_ERR_CUDA"
        "\<not> poisoned ctx \<and> accepts \<and> (\<forall>c. rt c) \<longrightarrow> (st = CUDEC_OK \<longleftrightarrow> (\<forall>t\<in>set tiles. chunk_status (fst (tile_alone one s t)) = CUDEC_OK))"
      and ok: "st = CUDEC_OK \<longrightarrow> (\<forall>i<?n. r ! i = fst (tile_alone one s (tiles ! i)) \<and> chunk_status (r ! i) = CUDEC_OK \<and>
        (tile_good one s (tiles ! i) \<longrightarrow> ds ! i = snd (tile_alone one s (tiles ! i))))" by blast
    have sc: "scatter_slices dst (plan_dst_offs plan) ds = Some (concat ds @ post)"
      using scatter_concat[of "plan_dst_offs plan" "[]" slots ds post] p(5) c q(1) by (simp add: comp_def)
    have ld: "length (concat ds) = tiles_total tiles" using q(1) lc by (simp add: length_concat)
    have frame: "length (concat ds @ post) = length dst" "drop (tiles_total tiles) (concat ds @ post) = drop (tiles_total tiles) dst"
      "take (tiles_total tiles) (concat ds @ post) = concat ds" using ld lc by (simp_all add: c(1))
    show ?case
    proof (cases "st = CUDEC_OK")
      case False
      then show ?thesis using q frame by (auto simp: f sc comp_def wp_Some tiles_ran_def tile_good_def)
    next
      case True
      have okc: "\<forall>i<?n. r ! i = fst (tile_alone one s (tiles ! i)) \<and> chunk_status (r ! i) = CUDEC_OK" using ok True by blast
      have "wp (check_tile_sizes ?caps [0..<?n] r CUDEC_OK) (\<lambda>(sh, r'). length r' = length results \<and>
          (sh = CUDEC_OK \<longrightarrow> (\<forall>i<?n. tile_good one s (tiles ! i) \<and> r' ! i = fst (tile_alone one s (tiles ! i)))) \<and>
          ((\<forall>t\<in>set tiles. tile_good one s t) \<longrightarrow> sh = CUDEC_OK))"
        by (rule wp_mono[OF check_tile_sizes_contract]) (use tg[OF _ okc] good_bw[OF okc] okc q(2) lr in auto)
      then have "wp (do { (short_status, results) \<leftarrow> check_tile_sizes ?caps [0..<?n] r CUDEC_OK;
          if short_status \<noteq> CUDEC_OK then Some (short_status, cx, concat ds @ post, results, 0)
          else Some (CUDEC_OK, cx, concat ds @ post, results, tot) })
        (\<lambda>(st, ctx', dst', results', written). tiles_ran one s tiles dst st dst' written \<and> length results' = length results \<and>
          (\<not> poisoned ctx \<and> accepts \<and> (\<forall>c. rt c) \<and> (\<forall>t\<in>set tiles. tile_good one s t) \<longrightarrow> st = CUDEC_OK) \<and>
          (st = CUDEC_OK \<longrightarrow> (\<forall>i<length tiles. results' ! i = fst (tile_alone one s (tiles ! i)))))"
      proof (rule wp_bind2, goal_cases)
        case (1 sh r')
        have "ds = map (\<lambda>t. snd (tile_alone one s t)) tiles" if "sh = CUDEC_OK"
          using ok True 1 that q(1) ls(1) by (intro nth_equalityI) (auto dest: map_eq_imp_length_eq)
        then show ?case using 1 frame tot ls(1) by (auto simp: wp_Some tiles_ran_def all_set_conv_all_nth)
      qed
      then show ?thesis using True q(3) by (simp add: f sc comp_def p cong: if_cong)
    qed
  qed
qed

text \<open>The whole call, from the bytes of the stream.\<close>

lemma tilestream_contract:
  assumes n: "length s = unat n" and d: "unat cap \<le> length d" and rs: "unat rcap \<le> length rs"
  shows "wp (gdeflate_tilestream_decompress_ctx rt junk stale entry True (Some s) n (Some d) cap space (Some rs) rcap False (Some c))
   (\<lambda>(st, ctx', dst', results', written).
    if space \<notin> {CUDEC_MEM_HOST, CUDEC_MEM_DEVICE} then (st, ctx', dst', results', written) = (CUDEC_ERR_INVALID_ARGUMENT, Some c, Some d, Some rs, 0)
    else if \<not> (toc_header s \<and> toc_ok s (length s) (toc_count s)) then (st, ctx', dst', results', written) = (CUDEC_ERR_CORRUPT_INPUT, Some c, Some d, Some rs, 0)
    else if unat rcap < toc_count s then (st, ctx', dst', results', written) = (CUDEC_ERR_INVALID_ARGUMENT, Some c, Some d, Some rs, 0)
    else \<exists>tiles. tiles_of s tiles \<and>
      (if unat cap < tiles_total tiles then (st, ctx', dst', results', written) = (CUDEC_ERR_OUTPUT_TOO_SMALL, Some c, Some d, Some rs, 0)
       else (\<exists>d'. dst' = Some d' \<and> tiles_ran one s tiles d st d' written) \<and>
         (\<not> poisoned c \<and> accepts \<and> (\<forall>x. rt x) \<and> (\<forall>t\<in>set tiles. tile_good one s t) \<longrightarrow> st = CUDEC_OK)))"
proof -
  have bp: "wp (build_tile_stream_plan (Some s) n (Some d) cap space (Some rs) rcap False) (\<lambda>res.
    if space \<notin> {CUDEC_MEM_HOST, CUDEC_MEM_DEVICE} then res = Inl CUDEC_ERR_INVALID_ARGUMENT
    else if \<not> (toc_header s \<and> toc_ok s (length s) (toc_count s)) then res = Inl CUDEC_ERR_CORRUPT_INPUT
    else if unat rcap < toc_count s then res = Inl CUDEC_ERR_INVALID_ARGUMENT
    else \<exists>tiles tot plan. tiles_of s tiles \<and> unat tot = tiles_total tiles \<and>
      (if cap < tot then res = Inl CUDEC_ERR_OUTPUT_TOO_SMALL else plan_for s tiles tot plan \<and> res = Inr plan))"
    by (rule wp_mono[OF build_plan_contract[OF n]]) simp
  let ?Q = "\<lambda>(st, ctx', dst', results', written).
    if space \<notin> {CUDEC_MEM_HOST, CUDEC_MEM_DEVICE} then (st, ctx', dst', results', written) = (CUDEC_ERR_INVALID_ARGUMENT, Some c, Some d, Some rs, 0)
    else if \<not> (toc_header s \<and> toc_ok s (length s) (toc_count s)) then (st, ctx', dst', results', written) = (CUDEC_ERR_CORRUPT_INPUT, Some c, Some d, Some rs, 0)
    else if unat rcap < toc_count s then (st, ctx', dst', results', written) = (CUDEC_ERR_INVALID_ARGUMENT, Some c, Some d, Some rs, 0)
    else \<exists>tiles. tiles_of s tiles \<and>
      (if unat cap < tiles_total tiles then (st, ctx', dst', results', written) = (CUDEC_ERR_OUTPUT_TOO_SMALL, Some c, Some d, Some rs, 0)
       else (\<exists>d'. dst' = Some d' \<and> tiles_ran one s tiles d st d' written) \<and>
         (\<not> poisoned c \<and> accepts \<and> (\<forall>x. rt x) \<and> (\<forall>t\<in>set tiles. tile_good one s t) \<longrightarrow> st = CUDEC_OK))"
  show ?thesis unfolding gdeflate_tilestream_decompress_ctx_def option.case not_True_eq_False if_False bind.bind_lunit
  proof (rule wp_bindI[OF bp], goal_cases)
    case (1 res)
    consider (inv) "space \<notin> {CUDEC_MEM_HOST, CUDEC_MEM_DEVICE}"
      | (cor) "space \<in> {CUDEC_MEM_HOST, CUDEC_MEM_DEVICE}" "\<not> (toc_header s \<and> toc_ok s (length s) (toc_count s))"
      | (few) "space \<in> {CUDEC_MEM_HOST, CUDEC_MEM_DEVICE}" "toc_header s \<and> toc_ok s (length s) (toc_count s)" "unat rcap < toc_count s"
      | (go) "space \<in> {CUDEC_MEM_HOST, CUDEC_MEM_DEVICE}" "toc_header s \<and> toc_ok s (length s) (toc_count s)" "\<not> unat rcap < toc_count s"
      by blast
    then show ?case
    proof cases
      case inv
      then show ?thesis using 1 by (simp add: wp_Some)
    next
      case cor
      then show ?thesis using 1 by (auto simp: wp_Some)
    next
      case few
      then show ?thesis using 1 by (auto simp: wp_Some)
    next
      case go
      then obtain tiles tot plan where t: "tiles_of s tiles" "unat tot = tiles_total tiles"
        "if cap < tot then res = Inl CUDEC_ERR_OUTPUT_TOO_SMALL else plan_for s tiles tot plan \<and> res = Inr plan" using 1 by auto
      show ?thesis
      proof (cases "cap < tot")
        case True
        then show ?thesis using t go by (auto simp: wp_Some w2n)
      next
        case False
        then have p: "plan_for s tiles tot plan" "res = Inr plan" "\<not> unat cap < tiles_total tiles" using t by (auto simp: w2n)
        have l: "tiles_total tiles \<le> length d" "length tiles \<le> length rs" using p(3) d go(3) rs t(1) by (auto simp: tiles_of_def)
        have "wp (do { (st, c, d, rs, written) \<leftarrow> run_tile_stream_plan rt junk stale entry plan space c d rs;
            Some (st, Some c, Some d, Some rs, written) }) ?Q"
        proof (rule wp_bindI[OF run_plan_contract[OF t(1) p(1) t(2) l go(1)]], goal_cases)
          case (1 x)
          then show ?case using go p(3) t(1) by (cases x) (auto simp: wp_Some)
        qed
        then show ?thesis by (simp add: p(2))
      qed
    qed
  qed
qed

end

end
