(* ===== verification/Host_Properties.thy ===== *)
theory Host_Properties
  imports Frame_Assembly Tilestream_Decode Xxhash64
begin

text \<open>
  What the host side promises around the batch entries: the LZ4 frame decode, the streaming context,
  and the TileStream decode. The device runtime, the lanes' schedule, the order in which the waves
  take the chunks and the order in which queued copies complete are all quantified over.
\<close>

section \<open>LZ4 frames\<close>

text \<open>C4: the LZ4 frame decode is exact - it succeeds only on a frame whose descriptor, blocks,
  declared size and checksums are right, and then the destination starts with the decoded content
  and nothing past the capacity is touched; it fails only when no content fits, or on a device
  fault, and then claims nothing. The order in which the queued copies complete does not matter.\<close>

theorem lz4f_decompress_exact:
  assumes "unat n \<le> unat kMaxBatchChunks" "unat n \<le> length f" "0 < wave" "wave_schedule wave sched" "chunk_order order"
    "w \<in> {32, 64}" "\<forall>cs. set (drain cs) = set cs" "unat cap \<le> length d"
  shows "wp (lz4f_decompress rt drain junk stale (lz4_decompress_batch (Some w) True sched order) True (Some f) n (Some d) cap False)
    (\<lambda>(st, d', t). \<exists>out k. d' = Some out \<and> t = Some k \<and> length out = length d \<and> drop (unat cap) out = drop (unat cap) d \<and>
      (st = CUDEC_OK \<longrightarrow> unat k \<le> unat cap \<and> frame_content f (unat n) (take (unat k) out)) \<and>
      (st \<noteq> CUDEC_OK \<longrightarrow> k = 0 \<and> ((\<forall>r. frame_content f (unat n) r \<longrightarrow> unat cap < length r) \<or>
         st = CUDEC_ERR_CUDA \<and> (\<exists>c. \<not> rt c))))"
  by (rule lz4f_decompress_contract[OF assms])

theorem lz4f_decompress_exact_witness:
  "wp (lz4f_decompress (\<lambda>_. True) rev (\<lambda>_. 7) (\<lambda>_. not_decoded CUDEC_ERR_CUDA)
     (lz4_decompress_batch (Some 32) True (lane_major 32) (\<lambda>n. [0..<n])) True
     (Some [4, 0x22, 0x4D, 0x18, 0x60, 0x40, 0x82, 0, 0, 0, 0]) 11 (Some [1, 2]) 1 False)
   (\<lambda>(st, d', t). \<exists>out k. d' = Some out \<and> t = Some k \<and> drop 1 out = [2] \<and> (st \<noteq> CUDEC_OK \<longrightarrow> k = 0))"
  by (rule wp_mono[OF lz4f_decompress_exact[where d = "[1, 2]" and cap = 1, OF _ _ _ lane_major_schedule ascending_order]])
    (auto simp: batch_consts)

section \<open>The streaming context\<close>






text \<open>C35: a streamed decode whose arguments are wrong is refused with everything as it was, and a
  poisoned context decodes nothing: it stamps every record and leaves the destinations alone.\<close>

theorem stream_refusals:
  assumes "stream_memory a dsts results"
    and "0 < wave" "wave_schedule wave sched" "chunk_order order"
  shows "(\<not> stream_valid a dsts results \<longrightarrow>
      lz4_decompress_stream_ctx rt junk stale (lz4_decompress_batch w post sched order) a (Some c) dsts results =
        Some (CUDEC_ERR_INVALID_ARGUMENT, Some c, dsts, results)) \<and>
    (stream_valid a dsts results \<and> poisoned c \<longrightarrow>
      lz4_decompress_stream_ctx rt junk stale (lz4_decompress_batch w post sched order) a (Some c) dsts results =
        Some (CUDEC_ERR_CUDA, Some c, dsts,
          Some (replicate (unat (chunk_count a)) (not_decoded CUDEC_ERR_CUDA) @ drop (unat (chunk_count a)) (the results))))"
  using batch_entry.decode_on_stream_contract[OF lz4_batch_entry[OF assms(2,3,4), of w post] assms(1), of rt junk stale "Some c"]
  by (auto simp: lz4_decompress_stream_ctx_def stream_rejects_def wp_def split: option.splits if_splits)

theorem stream_refusals_witness:
  "lz4_decompress_stream_ctx (\<lambda>_. True) (\<lambda>_. 7) (\<lambda>_. not_decoded CUDEC_OK)
      (lz4_decompress_batch (Some 32) True (lane_major 32) (\<lambda>n. [0..<n]))
      \<lparr>h_srcs = Some [None], h_sizes = Some [1], dst_caps = Some [0], chunk_count = 1, dst_space = CUDEC_MEM_DEVICE\<rparr>
      (Some fresh_ctx) (Some [None]) (Some [not_decoded CUDEC_OK]) =
   Some (CUDEC_ERR_INVALID_ARGUMENT, Some fresh_ctx, Some [None], Some [not_decoded CUDEC_OK])"
  by (rule stream_refusals[OF _ _ lane_major_schedule ascending_order, THEN conjunct1, rule_format])
    (auto simp: stream_memory_def stream_valid_def)



text \<open>C36: a wave never stages more than the budget: it has at least one chunk, at most 4096 and at
  most the call's, and unless it is a single chunk the largest chunk of the call, times the wave,
  stays within 384 MiB.\<close>

theorem wave_within_budget:
  assumes "0 < unat n" "unat n \<le> length sizes" "unat n \<le> length caps"
  shows "\<exists>wave. choose_wave_chunks sizes caps n host_out = Some wave \<and> 1 \<le> unat wave \<and>
    unat wave \<le> 4096 \<and> unat wave \<le> unat n \<and>
    (wave = 1 \<or> (\<forall>i<unat n. unat wave * (unat (sizes ! i) + (if host_out then unat (caps ! i) else 0)) \<le> 402653184))"
  by (rule choose_wave_contract[OF assms])

theorem wave_within_budget_witness:
  "\<exists>wave. choose_wave_chunks [65536, 0] [- 1, 4] 2 True = Some wave \<and> 1 \<le> unat wave \<and> unat wave \<le> 2"
  using wave_within_budget[of 2 "[65536, 0]" "[- 1, 4]" True] by auto

section \<open>TileStreams\<close>

text \<open>C25: the parse of a TileStream envelope is exact: it accepts precisely the streams whose header
  and table of offsets are well formed, and then gives each tile its place, its compressed size and
  its decompressed size; too small a table is told apart from a corrupt stream.\<close>

theorem tile_parse_exact:
  assumes "length s = unat n" "unat cap \<le> length table"
  shows "wp (tile_stream_parse (Some s) n (Some table) cap False) (\<lambda>res. case res of
      Inl e \<Rightarrow> if toc_header s \<and> unat cap < toc_count s then e = CUDEC_ERR_INVALID_ARGUMENT
        else e = CUDEC_ERR_CORRUPT_INPUT \<and> \<not> (toc_header s \<and> toc_ok s (length s) (toc_count s))
    | Inr r \<Rightarrow> toc_count s \<le> unat cap \<and> toc_describes s r)"
  by (rule tile_stream_parse_contract[OF assms])

theorem tile_parse_exact_witness:
  "wp (tile_stream_parse (Some [4, 0xFB, 1, 0, 5, 0, 0, 0, 1, 0, 0, 0, 9]) 13 (Some [no_tile]) 1 False)
     (\<lambda>res. case res of Inl e \<Rightarrow> e \<in> {CUDEC_ERR_CORRUPT_INPUT, CUDEC_ERR_INVALID_ARGUMENT} | Inr r \<Rightarrow> toc_describes [4, 0xFB, 1, 0, 5, 0, 0, 0, 1, 0, 0, 0, 9] r)"
  using tile_parse_exact[of "[4, 0xFB, 1, 0, 5, 0, 0, 0, 1, 0, 0, 0, 9]" 13 1 "[no_tile]"]
  by (rule wp_mono) (auto split: sum.splits if_splits)



section \<open>The content checksum of Zstandard frames\<close>

text \<open>C27: the 64-bit hash of a range of bytes, computed stripe by stripe with wrapping words, is
  XXH64 as its specification reads, written with the specification's own primes, rotations and
  shifts over natural numbers, and no byte outside the range is read.\<close>

theorem xxhash64_equals_spec:
  assumes "p + unat len \<le> length data"
  shows "wp (xxh64 data p len) (\<lambda>h. unat h = xxh64_spec (take (unat len) (drop p data)))"
  by (rule xxh64_computes_spec[OF assms])

theorem xxhash64_equals_spec_witness:
  "wp (xxh64 [5, 97] 1 1) (\<lambda>h. unat h = 0xD24EC4F1A98C6E5B) \<and> wp (xxh64 [5] 0 0) (\<lambda>h. unat h = 0xEF46DB3751D8E999)"
  using xxhash64_equals_spec[of 1 1 "[5, 97]"] xxhash64_equals_spec[of 0 0 "[5]"]
  by (simp add: xxh64_known)

end
