(* ===== verification/Spec2Isabelle.thy ===== *)
theory Spec2Isabelle
  imports Chunk_Properties Frame_Properties Zstd_Properties Zstd_Block_Properties Zstd_Stream_Properties Host_Properties
begin

text \<open>
  A model of \<open>cudec\<close>, a GPU decompression library: the decoders of the LZ4 and Snappy block
  formats and the kernel that runs them, the LZ4 frame and TileStream containers, the streaming
  context that feeds the kernel from host memory, and the pieces of the Zstandard decoder. Paths are
  relative to the repository; everything modelled is under \<open>src/\<close>.

  The parts and how they interact. A batch entry (\<open>batch.cu\<close>) validates a call, picks the wave width
  and launches the chunk kernel (\<open>chunk_decode.cuh\<close>), in which one wave decodes one chunk: a parser
  (\<open>lz4_block.h\<close>, \<open>snappy_block.h\<close>) yields sequences (\<open>decode_sequence.h\<close>), whose literals and
  match the lanes of the wave copy together. The streaming context (\<open>stream.cpp\<close>) cuts a batch of
  host chunks into waves, stages each through grow-only buffers (\<open>vendor_raii.h\<close>) and calls a batch
  entry on it. The LZ4 frame decode (\<open>frame.cpp\<close>, over \<open>lz4_frame.h\<close> and \<open>xxhash32.h\<close>) and the
  TileStream decode (\<open>tilestream.cpp\<close>, over \<open>tilestream.h\<close>) walk a container and hand its blocks to
  a batch entry and to the streaming context. The Zstandard side is a tower of headers: bit reader,
  FSE tables, repeated offsets, frame and block headers, Huffman tables, the literals and the
  sequences sections, sequence execution, and over them the decode of a frame's blocks
  (\<open>zstd_blocks.h\<close>), which carries the tree, the tables and the repeated offsets from block to block.

  The theories.
    \<^item> \<open>Prelude\<close>: words, the status codes, guarded reads and writes of lists, the rules for \<open>wp\<close>.
    \<^item> \<open>Decode_Sequence\<close>, \<open>Lz4_Block\<close>, \<open>Snappy_Block\<close>: the sequence and the two parsers, with the
      invariant \<open>core_ok\<close> and what every step keeps of it.
    \<^item> \<open>Chunk_Decode\<close>: the kernel's loop over one chunk, under any schedule of the lanes, as a locale
      over a parser; the interpretations for LZ4 and Snappy are in the theories of the parsers.
    \<^item> \<open>Lz4_Roundtrip\<close>, \<open>Snappy_Roundtrip\<close>: encoders written for the proofs, and that what they
      write decodes to what they were given.
    \<^item> \<open>Batch\<close>, \<open>Device\<close>: argument validation, wave width, launch geometry; buffers, transfers, and the
      locale \<open>batch_entry\<close>, which is what the host code needs of a batch entry, interpreted by the
      LZ4 and the Snappy entry.
    \<^item> \<open>Stream_Ctx\<close>, \<open>Stream_Decode\<close>: the streaming context and its proofs.
    \<^item> \<open>Xxhash32\<close>, \<open>Lz4_Frame\<close>, \<open>Frame_Decode\<close>, \<open>Frame_Assembly\<close>: the LZ4 frame.
    \<^item> \<open>Tilestream\<close>, \<open>Tilestream_Decode\<close>: the TileStream container.
    \<^item> \<open>Zstd_Bitstream\<close>, \<open>Zstd_Repcode\<close>, \<open>Zstd_Fse_Desc\<close>, \<open>Zstd_Fse_Table\<close>, \<open>Zstd_Fse_Core\<close>,
      \<open>Xxhash64\<close>: the Zstandard entropy pieces and the digest.
    \<^item> \<open>Zstd_Huf\<close>, \<open>Zstd_Huf_Table\<close>: the Huffman tree of a literals section and its decoding table.
    \<^item> \<open>Zstd_Literals\<close>: the literals section, its streams read through that table.
    \<^item> \<open>Zstd_Frame\<close>, \<open>Zstd_Exec\<close>: the Zstandard headers, and the execution of the sequences of a block.
    \<^item> \<open>Zstd_Seq\<close>, \<open>Zstd_Seq_Decode\<close>: the sequences section, its header and tables, and the resumable
      decode of its sequences.
    \<^item> \<open>Zstd_Blocks\<close>: the state a frame carries, a compressed block, the loop over the blocks; and what
      blocks mean (\<open>block_means\<close>, \<open>frame_means\<close>), which the decode is proved to compute.
    \<^item> \<open>Chunk_Properties\<close>, \<open>Frame_Properties\<close>, \<open>Zstd_Properties\<close>, \<open>Zstd_Block_Properties\<close>,
      \<open>Zstd_Stream_Properties\<close>, \<open>Host_Properties\<close>: the properties, each with a witness that applies it to concrete input.

  How the code is read. A word of the program is a word of the same width, and every sum, difference
  and shift wraps as it does there. A pointer with its length is a list; an access outside it has
  the value \<open>None\<close>, so \<open>wp c Q\<close> says that \<open>c\<close> makes no such access, ends, and ends in a result with
  \<open>Q\<close>. A refusal is a value: a status beside the state, or the left side of a sum. A call of the
  device runtime is a constructor of a datatype, and an arbitrary predicate on it says which calls
  succeed. Memory that was not written holds arbitrary values; scratch that a call overwrites before
  it reads is an argument of the call, with the values earlier work left there. The interleaving of the lanes of a
  wave, the order of the waves, and the order in which queued copies finish are parameters.

  Bounds and fuel. The loop over a chunk carries the code's own budget, \<open>src_size + 1\<close> steps; each step
  of a parser consumes input, which \<open>Lz4_Block\<close> and \<open>Snappy_Block\<close> prove, so the budget does not run
  out. The walk over the blocks of an LZ4 frame and of a Zstandard frame carries the code's bound, a
  third of the input and one for the latter, and \<open>blocks_fuel_enough\<close> shows it is never reached. Every other loop is structural
  or has its measure.

  What the proofs rest on. A wave's schedule takes every index of a copy once (\<open>wave_schedule\<close>), the
  waves take every chunk once (\<open>chunk_order\<close>), and a drain completes the queued copies, in some
  order. The TileStream decode is proved for every entry that keeps the contract \<open>batch_entry\<close>.

  Not modelled: the GDeflate page decoder (\<open>gdeflate_*\<close>) and the device half of the Zstandard decoder
  (\<open>zstd_decode.cuh\<close>); the destruction of contexts and buffers, which only frees; the
  vendor layer (\<open>vendor_rt.h\<close>), which names runtime calls; \<open>version.c\<close>. The benchmarks, fuzzers, tests
  and examples are clients of the library.
\<close>

end
